(* ===== verification/Xv6_Prelude.thy ===== *)
theory Xv6_Prelude
  imports Main "HOL-Library.Word"
begin

text \<open>
  Prelude of the development: the integer types of \<^verbatim>\<open>types.h\<close>, the result type of
  kernel code that may stop (a panic, a null dereference, a call that goes to sleep), its
  sequencing operator, and the generic facts on words and functions that the components
  share. The collections declared here carry the component proofs:
  \<open>res_simps\<close> runs the result type, \<open>layout_defs\<close> unfolds the constants and address
  macros of the headers, \<open>mem_simps\<close> reads through writes to byte memories.
\<close>

unbundle bit_operations_syntax

section \<open>Integer types\<close>

text \<open>
  \<^verbatim>\<open>uchar\<close>, \<^verbatim>\<open>ushort\<close> and \<^verbatim>\<open>uint\<close> of \<^verbatim>\<open>types.h\<close>. A C \<^verbatim>\<open>int\<close> is held in the same 32 bits;
  where the source compares or divides it as signed, the model uses \<open>sint\<close> or the signed
  comparisons \<open><s\<close> and \<open>\<le>s\<close>. Addition wraps in both cases, as the code generated for
  \<^verbatim>\<open>i386\<close> does.
\<close>

type_synonym u8 = "8 word"
type_synonym u16 = "16 word"
type_synonym u32 = "32 word"

named_theorems res_simps \<open>running the result type\<close>
named_theorems layout_defs \<open>constants and address macros of the headers\<close>
named_theorems mem_simps \<open>reading a byte memory after a write\<close>

section \<open>Results of kernel code\<close>

text \<open>
  \<open>Panic msg\<close> is a call of \<^verbatim>\<open>panic(msg)\<close>, which never returns. \<open>NullDeref\<close> is an access
  through a null pointer and \<open>OutOfBounds\<close> an access outside a C array: the source does
  neither on purpose, and the model stops there. \<open>WouldSleep\<close> is a call of
  \<^verbatim>\<open>sleep\<close> inside code that the model runs as one sequential step. \<open>Diverges\<close> is a loop
  of the source that never reaches its exit. \<open>PageFault a\<close> is an access by the kernel to a
  user address \<open>a\<close> that the page tables do not allow.
\<close>

datatype fault =
    Panic string
  | NullDeref
  | OutOfBounds
  | WouldSleep
  | Diverges
  | PageFault u32

type_synonym 'a res = "fault + 'a"

definition bindr :: "'a res \<Rightarrow> ('a \<Rightarrow> 'b res) \<Rightarrow> 'b res" where
  "bindr r f = (case r of Inl e \<Rightarrow> Inl e | Inr x \<Rightarrow> f x)"

lemma bindr_Inr [simp, res_simps]: "bindr (Inr x) f = f x"
  by (simp add: bindr_def)

lemma bindr_Inl [simp, res_simps]: "bindr (Inl e) f = Inl e"
  by (simp add: bindr_def)

lemma bindr_eq_Inr [res_simps]: "bindr r f = Inr y \<longleftrightarrow> (\<exists>x. r = Inr x \<and> f x = Inr y)"
  by (cases r) auto

lemma bindr_eq_Inl [res_simps]:
  "bindr r f = Inl e \<longleftrightarrow> r = Inl e \<or> (\<exists>x. r = Inr x \<and> f x = Inl e)"
  by (cases r) auto

lemma bindr_InrE [elim]:
  assumes "bindr r f = Inr y"
  obtains x where "r = Inr x" "f x = Inr y"
  using assms by (auto simp: bindr_eq_Inr)

lemma bindr_cong [fundef_cong]:
  "r = r' \<Longrightarrow> (\<And>x. r' = Inr x \<Longrightarrow> f x = f' x) \<Longrightarrow> bindr r f = bindr r' f'"
  by (cases r') auto

lemma bindr_assoc [res_simps]: "bindr (bindr r f) g = bindr r (\<lambda>x. bindr (f x) g)"
  by (cases r) auto

definition guardr :: "bool \<Rightarrow> fault \<Rightarrow> unit res" where
  "guardr b e = (if b then Inr () else Inl e)"

lemma guardr_eq_Inr [simp, res_simps]: "guardr b e = Inr u \<longleftrightarrow> b"
  by (simp add: guardr_def)

lemma guardr_True [simp]: "guardr True e = Inr ()"
  by (simp add: guardr_def)

lemma guardr_False [simp]: "guardr False e = Inl e"
  by (simp add: guardr_def)

section \<open>Words\<close>

lemma unat_u32_less [simp]: "unat (x :: u32) < 4294967296"
  using unsigned_less [of x] by simp

lemma word_sub_less_iff_range:
  fixes x a n :: u32
  assumes "unat a + unat n \<le> 2 ^ 32"
  shows "x - a < n \<longleftrightarrow> unat a \<le> unat x \<and> unat x < unat a + unat n"
  using assms unat_u32_less [of x]
  by (simp add: word_less_nat_alt unat_sub_if') linarith

lemma unat_add_no_wrap:
  fixes a b :: u32
  assumes "unat a + unat b < 2 ^ 32"
  shows "unat (a + b) = unat a + unat b"
  using assms by (simp add: unat_word_ariths)

lemma unat_sub_le:
  fixes a b :: u32
  assumes "b \<le> a"
  shows "unat (a - b) = unat a - unat b"
  using assms by (simp add: unat_sub)

lemma sint_small: "n < 2147483648 \<Longrightarrow> sint (word_of_nat n :: u32) = int n"
  by (simp add: signed_take_bit_int_eq_self sint_uint unat_of_nat take_bit_int_eq_self uint_nat)

end
