(* ===== verification/Layout.thy ===== *)
theory Layout
  imports Xv6_Prelude
begin

text \<open>
  The constants and address macros of \<^verbatim>\<open>param.h\<close>, \<^verbatim>\<open>memlayout.h\<close> and \<^verbatim>\<open>mmu.h\<close>: page
  rounding, the split of a virtual address into directory index, table index and offset,
  page table entry flags, and the linear map between physical and kernel addresses.
\<close>

section \<open>Limits (param.h)\<close>

definition NPROC :: nat where [layout_defs]: "NPROC = 64"
definition KSTACKSIZE :: u32 where [layout_defs]: "KSTACKSIZE = 4096"
definition NOFILE :: nat where [layout_defs]: "NOFILE = 16"
definition NFILE :: nat where [layout_defs]: "NFILE = 100"
definition NINODE :: nat where [layout_defs]: "NINODE = 50"
definition NDEV :: nat where [layout_defs]: "NDEV = 10"
definition ROOTDEV :: u32 where [layout_defs]: "ROOTDEV = 1"
definition MAXARG :: nat where [layout_defs]: "MAXARG = 32"
definition MAXOPBLOCKS :: nat where [layout_defs]: "MAXOPBLOCKS = 10"
definition LOGSIZE :: nat where [layout_defs]: "LOGSIZE = MAXOPBLOCKS * 3"
definition NBUF :: nat where [layout_defs]: "NBUF = MAXOPBLOCKS * 3"
definition FSSIZE :: nat where [layout_defs]: "FSSIZE = 1000"

section \<open>Memory layout (memlayout.h)\<close>

definition EXTMEM :: u32 where [layout_defs]: "EXTMEM = 0x100000"
definition PHYSTOP :: u32 where [layout_defs]: "PHYSTOP = 0xE000000"
definition DEVSPACE :: u32 where [layout_defs]: "DEVSPACE = 0xFE000000"
definition KERNBASE :: u32 where [layout_defs]: "KERNBASE = 0x80000000"
definition MMAPBASE :: u32 where [layout_defs]: "MMAPBASE = 0x60000000"
definition KERNLINK :: u32 where [layout_defs]: "KERNLINK = KERNBASE + EXTMEM"

definition V2P :: "u32 \<Rightarrow> u32" where "V2P a = a - KERNBASE"
definition P2V :: "u32 \<Rightarrow> u32" where "P2V a = a + KERNBASE"

lemma V2P_P2V [simp]: "V2P (P2V a) = a"
  by (simp add: V2P_def P2V_def)

lemma P2V_V2P [simp]: "P2V (V2P a) = a"
  by (simp add: V2P_def P2V_def)

lemma P2V_inject [simp]: "P2V a = P2V b \<longleftrightarrow> a = b"
  by (simp add: P2V_def)

section \<open>Paging (mmu.h)\<close>

definition NPDENTRIES :: nat where [layout_defs]: "NPDENTRIES = 1024"
definition NPTENTRIES :: nat where [layout_defs]: "NPTENTRIES = 1024"
definition PGSIZE :: u32 where [layout_defs]: "PGSIZE = 4096"
definition PTXSHIFT :: nat where [layout_defs]: "PTXSHIFT = 12"
definition PDXSHIFT :: nat where [layout_defs]: "PDXSHIFT = 22"

definition PTE_P :: u32 where [layout_defs]: "PTE_P = 0x001"
definition PTE_W :: u32 where [layout_defs]: "PTE_W = 0x002"
definition PTE_U :: u32 where [layout_defs]: "PTE_U = 0x004"
definition PTE_PS :: u32 where [layout_defs]: "PTE_PS = 0x080"

definition PDX :: "u32 \<Rightarrow> u32" where "PDX va = drop_bit PDXSHIFT va AND 0x3FF"
definition PTX :: "u32 \<Rightarrow> u32" where "PTX va = drop_bit PTXSHIFT va AND 0x3FF"

definition PGADDR :: "u32 \<Rightarrow> u32 \<Rightarrow> u32 \<Rightarrow> u32" where
  "PGADDR d t off = (push_bit PDXSHIFT d OR push_bit PTXSHIFT t OR off)"

definition PGROUNDUP :: "u32 \<Rightarrow> u32" where
  "PGROUNDUP sz = (sz + PGSIZE - 1) AND NOT (PGSIZE - 1)"

definition PGROUNDDOWN :: "u32 \<Rightarrow> u32" where
  "PGROUNDDOWN a = a AND NOT (PGSIZE - 1)"

definition PTE_ADDR :: "u32 \<Rightarrow> u32" where "PTE_ADDR pte = pte AND NOT 0xFFF"
definition PTE_FLAGS :: "u32 \<Rightarrow> u32" where "PTE_FLAGS pte = pte AND 0xFFF"

subsection \<open>Page alignment\<close>

text \<open>An address is page aligned when its low 12 bits are clear.\<close>

definition pg_aligned :: "u32 \<Rightarrow> bool" where
  "pg_aligned a \<longleftrightarrow> a AND 0xFFF = 0"

lemma mask12: "(0xFFF :: u32) = mask 12"
  by (simp add: mask_eq_exp_minus_1)

lemma mask10: "(0x3FF :: u32) = mask 10"
  by (simp add: mask_eq_exp_minus_1)

lemma pg_aligned_iff_mod: "pg_aligned a \<longleftrightarrow> unat a mod 4096 = 0"
proof -
  have "unat (a AND 0xFFF) = unat a mod 4096"
    by (simp add: mask12 take_bit_eq_mod unat_mod flip: take_bit_eq_mask)
  then show ?thesis
    unfolding pg_aligned_def by (metis unat_eq_zero)
qed

lemma unat_take_bit_12: "unat (take_bit 12 (a :: u32)) = unat a mod 4096"
  by (simp add: take_bit_eq_mod unat_mod)

lemma and_not_mask_eq_sub: "(a :: u32) AND NOT (mask n) = a - take_bit n a"
proof -
  have "(a AND NOT (mask n)) + (a AND mask n) = a"
    by (subst disjunctive_add) (auto simp: bit_simps intro: bit_word_eqI)
  then show ?thesis
    by (simp add: take_bit_eq_mask eq_diff_eq)
qed

lemma unat_and_not_mask12: "unat ((a :: u32) AND NOT (mask 12)) = unat a - unat a mod 4096"
  by (simp add: and_not_mask_eq_sub unat_sub word_le_nat_alt unat_take_bit_12)

lemma unat_PGROUNDDOWN: "unat (PGROUNDDOWN a) = unat a - unat a mod 4096"
proof -
  have "PGROUNDDOWN a = a AND NOT (mask 12)"
    by (simp add: PGROUNDDOWN_def PGSIZE_def mask_eq_exp_minus_1)
  then show ?thesis by (simp add: unat_and_not_mask12)
qed

lemma unat_PTE_ADDR: "unat (PTE_ADDR a) = unat a - unat a mod 4096"
  unfolding PTE_ADDR_def mask12 by (rule unat_and_not_mask12)

lemma pg_aligned_PGROUNDDOWN [simp]: "pg_aligned (PGROUNDDOWN a)"
  by (simp add: pg_aligned_iff_mod unat_PGROUNDDOWN minus_mod_eq_mult_div)

lemma pg_aligned_PTE_ADDR [simp]: "pg_aligned (PTE_ADDR a)"
  by (simp add: pg_aligned_iff_mod unat_PTE_ADDR minus_mod_eq_mult_div)

lemma PGROUNDUP_eq: "PGROUNDUP a = PGROUNDDOWN (a + 4095)"
  by (simp add: PGROUNDUP_def PGROUNDDOWN_def PGSIZE_def add.commute)

lemma pg_aligned_PGROUNDUP [simp]: "pg_aligned (PGROUNDUP a)"
  by (simp add: PGROUNDUP_eq)

lemma unat_PGROUNDUP:
  assumes "unat a + 4095 < 2 ^ 32"
  shows "unat (PGROUNDUP a) = (unat a + 4095) div 4096 * 4096"
  using assms by (simp add: PGROUNDUP_eq unat_PGROUNDDOWN unat_add_no_wrap minus_mod_eq_div_mult)

lemma PGROUNDDOWN_aligned: "pg_aligned a \<Longrightarrow> PGROUNDDOWN a = a"
  by (simp add: word_unat_eq_iff unat_PGROUNDDOWN pg_aligned_iff_mod)

lemma PTE_ADDR_aligned: "pg_aligned a \<Longrightarrow> PTE_ADDR a = a"
  by (simp add: word_unat_eq_iff unat_PTE_ADDR pg_aligned_iff_mod)

lemma pg_aligned_unat_le: "pg_aligned a \<Longrightarrow> unat a + 4096 \<le> 2 ^ 32"
proof -
  assume "pg_aligned a"
  then obtain q where q: "unat a = 4096 * q"
    by (auto simp: pg_aligned_iff_mod mod_eq_0_iff_dvd elim: dvdE)
  with unat_u32_less [of a] have "q < 1048576" by simp
  with q show ?thesis by simp
qed

lemma pg_aligned_add_PGSIZE: "pg_aligned a \<Longrightarrow> pg_aligned (a + PGSIZE)"
  by (simp add: pg_aligned_iff_mod PGSIZE_def unat_word_ariths mod_mod_cancel mod_add_left_eq)

lemma pg_aligned_P2V [simp]: "pg_aligned (P2V a) \<longleftrightarrow> pg_aligned a"
proof -
  have "unat (P2V a) mod 4096 = unat a mod 4096"
    by (simp add: P2V_def KERNBASE_def unat_word_ariths mod_mod_cancel)
       (subst mod_add_right_eq [symmetric], simp)
  then show ?thesis by (simp add: pg_aligned_iff_mod)
qed

lemma pg_aligned_V2P [simp]: "pg_aligned (V2P a) \<longleftrightarrow> pg_aligned a"
  using pg_aligned_P2V [of "V2P a"] by simp

subsection \<open>Directory and table indices\<close>

lemma unat_PDX: "unat (PDX va) = unat va div 2 ^ 22"
proof -
  have "PDX va = take_bit 10 (drop_bit 22 va)"
    by (simp add: PDX_def PDXSHIFT_def mask10 take_bit_eq_mask)
  then have "unat (PDX va) = (unat va div 2 ^ 22) mod 2 ^ 10"
    by (simp add: take_bit_eq_mod drop_bit_eq_div unat_mod unat_div)
  then show ?thesis
    using unat_u32_less [of va] by (simp add: div_less_iff_less_mult)
qed

lemma unat_PTX: "unat (PTX va) = unat va div 4096 mod 1024"
proof -
  have "PTX va = take_bit 10 (drop_bit 12 va)"
    by (simp add: PTX_def PTXSHIFT_def mask10 take_bit_eq_mask)
  then show ?thesis
    by (simp add: take_bit_eq_mod drop_bit_eq_div unat_mod unat_div)
qed

lemma PDX_less [simp]: "unat (PDX va) < 1024"
  using unat_u32_less [of va] by (simp add: unat_PDX div_less_iff_less_mult)

lemma PTX_less [simp]: "unat (PTX va) < 1024"
  by (simp add: unat_PTX)

lemma PGADDR_unat:
  assumes "unat d < 1024" "unat t < 1024" "unat off < 4096"
  shows "unat (PGADDR d t off) = unat d * 2 ^ 22 + unat t * 4096 + unat off"
proof -
  have t: "take_bit 10 t = t" "take_bit 10 d = d" "take_bit 12 off = off"
    using assms by (simp_all add: take_bit_word_eq_self word_less_nat_alt take_bit_eq_mod
        word_unat_eq_iff unat_mod)
  have t_lo: "bit t n \<Longrightarrow> n < 10" and off_lo: "bit off n \<Longrightarrow> n < 12" for n
    using t(1,3) by (metis bit_take_bit_iff)+
  have "push_bit 22 d + push_bit 12 t = (push_bit 22 d OR push_bit 12 t)"
    by (rule disjunctive_add) (auto simp: bit_simps dest: t_lo)
  moreover have "(push_bit 22 d OR push_bit 12 t) + off = ((push_bit 22 d OR push_bit 12 t) OR off)"
    by (rule disjunctive_add) (auto simp: bit_simps dest: off_lo)
  ultimately have "PGADDR d t off = push_bit 22 d + push_bit 12 t + off"
    unfolding PGADDR_def PDXSHIFT_def PTXSHIFT_def by (simp add: or.assoc)
  also have "unat \<dots> = unat d * 2 ^ 22 + unat t * 4096 + unat off"
    using assms by (simp add: push_bit_eq_mult unat_word_ariths)
  finally show ?thesis .
qed

lemma PDX_PGADDR:
  assumes "unat d < 1024" "unat t < 1024" "unat off < 4096"
  shows "PDX (PGADDR d t off) = d"
  using assms by (simp add: word_unat_eq_iff unat_PDX PGADDR_unat)

lemma PTX_PGADDR:
  assumes "unat d < 1024" "unat t < 1024" "unat off < 4096"
  shows "PTX (PGADDR d t off) = t"
proof -
  have "(unat d * 2 ^ 22 + unat t * 4096 + unat off) div 4096 = unat d * 1024 + unat t"
    using assms by (intro div_nat_eqI) simp_all
  then show ?thesis
    using assms by (simp add: word_unat_eq_iff unat_PTX PGADDR_unat del: power_numeral)
qed

lemma PGADDR_PDX_PTX: "PGADDR (PDX va) (PTX va) (va AND 0xFFF) = va"
proof -
  have off: "unat (va AND 0xFFF) = unat va mod 4096"
    by (simp add: mask12 take_bit_eq_mod unat_mod flip: take_bit_eq_mask)
  have "unat va div 2 ^ 22 = unat va div 4096 div 1024"
    by (simp add: div_mult2_eq [symmetric])
  then have "unat va div 2 ^ 22 * 2 ^ 22 + unat va div 4096 mod 1024 * 4096
      = (unat va div 4096 div 1024 * 1024 + unat va div 4096 mod 1024) * 4096"
    by (simp only: distrib_right) simp
  then have "unat va div 2 ^ 22 * 2 ^ 22 + unat va div 4096 mod 1024 * 4096 + unat va mod 4096
      = unat va"
    by (simp only: div_mult_mod_eq)
  then show ?thesis
    unfolding word_unat_eq_iff
    by (subst PGADDR_unat [OF PDX_less PTX_less]) (simp_all add: off unat_PDX unat_PTX)
qed

lemma page_index_inject:
  assumes "pg_aligned a" "pg_aligned b" "PDX a = PDX b" "PTX a = PTX b"
  shows "a = b"
  using assms PGADDR_PDX_PTX [of a] PGADDR_PDX_PTX [of b] by (simp add: pg_aligned_def)

subsection \<open>Page table entries\<close>

lemma PTE_ADDR_or_flags:
  assumes "pg_aligned pa" "unat fl < 4096"
  shows "PTE_ADDR (pa OR fl) = pa" "PTE_FLAGS (pa OR fl) = fl"
proof -
  have fl: "take_bit 12 fl = fl"
    using assms by (simp add: take_bit_eq_mod word_unat_eq_iff unat_mod)
  have pa: "take_bit 12 pa = 0"
    using assms(1) by (simp add: pg_aligned_def mask12 take_bit_eq_mask)
  have lo: "bit pa n \<Longrightarrow> 12 \<le> n" for n
    using pa by (metis bit_take_bit_iff bit_0_eq bot_apply bot_bool_def not_le)
  have hi: "bit fl n \<Longrightarrow> n < 12" for n
    using fl by (metis bit_take_bit_iff)
  show "PTE_ADDR (pa OR fl) = pa"
    unfolding PTE_ADDR_def mask12
    by (rule bit_word_eqI) (use lo hi in \<open>auto simp: bit_simps not_less dest: leD\<close>)
  show "PTE_FLAGS (pa OR fl) = fl"
    unfolding PTE_FLAGS_def mask12
    by (rule bit_word_eqI) (use lo hi in \<open>auto simp: bit_simps not_less dest: leD\<close>)
qed

lemma PTE_split: "PTE_ADDR pte OR PTE_FLAGS pte = pte"
  unfolding PTE_ADDR_def PTE_FLAGS_def mask12
  by (rule bit_word_eqI) (auto simp: bit_simps)

end
