(* ===== verification/Sleeplock.thy ===== *)
theory Sleeplock
  imports Layout
begin

text \<open>
  Sleep locks, \<^verbatim>\<open>sleeplock.c\<close>, as the sequential code of the file system uses them. The
  first argument is the pid of the running process. \<^verbatim>\<open>acquiresleep\<close> of a held lock would
  put the process to sleep; the model of a system call that runs without interruption stops
  there with \<open>WouldSleep\<close>.
\<close>

record sleeplock =
  lk_locked :: u32
  lk_pid :: int

definition initsleeplock :: sleeplock where
  "initsleeplock = \<lparr>lk_locked = 0, lk_pid = 0\<rparr>"

definition acquiresleep :: "int \<Rightarrow> sleeplock \<Rightarrow> sleeplock res" where
  "acquiresleep pid lk =
     (if lk_locked lk \<noteq> 0 then Inl WouldSleep else Inr (lk\<lparr>lk_locked := 1, lk_pid := pid\<rparr>))"

definition releasesleep :: "sleeplock \<Rightarrow> sleeplock" where
  "releasesleep lk = lk\<lparr>lk_locked := 0, lk_pid := 0\<rparr>"

definition holdingsleep :: "int \<Rightarrow> sleeplock \<Rightarrow> bool" where
  "holdingsleep pid lk \<longleftrightarrow> lk_locked lk \<noteq> 0 \<and> lk_pid lk = pid"

lemma acquiresleep_eq_Inr:
  "acquiresleep pid lk = Inr lk' \<longleftrightarrow> lk_locked lk = 0 \<and> lk' = lk\<lparr>lk_locked := 1, lk_pid := pid\<rparr>"
  by (auto simp: acquiresleep_def)

lemma acquiresleep_free: "lk_locked lk = 0 \<Longrightarrow> acquiresleep pid lk = Inr (lk\<lparr>lk_locked := 1, lk_pid := pid\<rparr>)"
  by (simp add: acquiresleep_def)

lemma holdingsleep_acquired: "acquiresleep pid lk = Inr lk' \<Longrightarrow> holdingsleep pid lk'"
  by (auto simp: acquiresleep_eq_Inr holdingsleep_def)

lemma releasesleep_free [simp]: "lk_locked (releasesleep lk) = 0"
  by (simp add: releasesleep_def)

lemma releasesleep_acquired:
  assumes "acquiresleep pid lk = Inr lk'" "lk_pid lk = 0"
  shows "releasesleep lk' = lk"
  using assms by (auto simp: acquiresleep_eq_Inr releasesleep_def)

end
