(* ===== verification/Memory.thy ===== *)
theory Memory
  imports Layout
begin

text \<open>
  Byte memories and the routines of \<^verbatim>\<open>string.c\<close>. A memory is a function from addresses
  to bytes; \<open>rd32\<close> and \<open>wr32\<close> are the four-byte little-endian loads and stores the
  compiler emits for an \<^verbatim>\<open>int\<close> or a pointer. The same operations serve the kernel's physical
  memory (addresses are \<open>u32\<close>) and the 512-byte disk blocks (offsets are \<open>nat\<close>).
\<close>

section \<open>Loads and stores\<close>

type_synonym mem = "u32 \<Rightarrow> u8"
type_synonym block = "nat \<Rightarrow> u8"

definition rd16 :: "('a::semiring_1 \<Rightarrow> u8) \<Rightarrow> 'a \<Rightarrow> u16" where
  "rd16 m a = (ucast (m a) OR push_bit 8 (ucast (m (a + 1))))"

definition wr16 :: "('a::semiring_1 \<Rightarrow> u8) \<Rightarrow> 'a \<Rightarrow> u16 \<Rightarrow> 'a \<Rightarrow> u8" where
  "wr16 m a v = m(a := ucast v, a + 1 := ucast (drop_bit 8 v))"

definition rd32 :: "('a::semiring_1 \<Rightarrow> u8) \<Rightarrow> 'a \<Rightarrow> u32" where
  "rd32 m a = (ucast (m a) OR push_bit 8 (ucast (m (a + 1)))
     OR push_bit 16 (ucast (m (a + 2))) OR push_bit 24 (ucast (m (a + 3))))"

definition wr32 :: "('a::semiring_1 \<Rightarrow> u8) \<Rightarrow> 'a \<Rightarrow> u32 \<Rightarrow> 'a \<Rightarrow> u8" where
  "wr32 m a v = m(a := ucast v, a + 1 := ucast (drop_bit 8 v),
     a + 2 := ucast (drop_bit 16 v), a + 3 := ucast (drop_bit 24 v))"

lemma bytes32_join:
  fixes v :: u32
  shows "(ucast (ucast v :: u8) OR push_bit 8 (ucast (ucast (drop_bit 8 v) :: u8))
     OR push_bit 16 (ucast (ucast (drop_bit 16 v) :: u8))
     OR push_bit 24 (ucast (ucast (drop_bit 24 v) :: u8)) :: u32) = v" (is "?l = v")
proof (rule bit_word_eqI)
  fix n assume "n < LENGTH(32)"
  then consider "n < 8" | "8 \<le> n" "n < 16" | "16 \<le> n" "n < 24" | "24 \<le> n" "n < 32"
    by fastforce
  then show "bit ?l n = bit v n"
    by cases (auto simp: bit_simps)
qed

lemma bytes16_join:
  fixes v :: u16
  shows "(ucast (ucast v :: u8) OR push_bit 8 (ucast (ucast (drop_bit 8 v) :: u8)) :: u16) = v"
  by (rule bit_word_eqI) (auto simp: bit_simps)

lemma rd32_wr32_same [mem_simps]: "rd32 (wr32 (m :: mem) a v) a = v"
  by (simp add: rd32_def wr32_def bytes32_join)

lemma rd32_wr32_same_nat [mem_simps]: "rd32 (wr32 (m :: block) a v) a = v"
  by (simp add: rd32_def wr32_def bytes32_join)

lemma rd16_wr16_same_nat [mem_simps]: "rd16 (wr16 (m :: block) a v) a = v"
  by (simp add: rd16_def wr16_def bytes16_join)

text \<open>A load is not affected by a store whose four bytes are elsewhere.\<close>

lemma wr32_other: 
  fixes m :: mem
  assumes "4 \<le> x - a"
  shows "wr32 m a v x = m x"
proof -
  have "x \<noteq> a" "x \<noteq> a + 1" "x \<noteq> a + 2" "x \<noteq> a + 3"
    using assms by (auto simp: word_le_nat_alt)
  then show ?thesis by (simp add: wr32_def)
qed

lemma rd32_wr32_other [mem_simps]:
  fixes m :: mem
  assumes "4 \<le> b - a" "4 \<le> a - b"
  shows "rd32 (wr32 m a v) b = rd32 m b"
proof -
  have ne: "b + k \<noteq> a + l" if "k \<in> {0, 1, 2, 3}" "l \<in> {0, 1, 2, 3}" for k l :: u32
  proof
    assume "b + k = a + l"
    then have "b - a = l - k" "a - b = k - l"
      by (simp_all add: algebra_simps)
    with that assms show False by (auto simp: word_le_nat_alt)
  qed
  have "wr32 m a v (b + k) = m (b + k)" if "k \<in> {0, 1, 2, 3}" for k
    using ne [OF that, of 0] ne [OF that, of 1] ne [OF that, of 2] ne [OF that, of 3]
    by (simp add: wr32_def)
  from this [of 0] this [of 1] this [of 2] this [of 3] show ?thesis
    by (simp add: rd32_def)
qed

text \<open>
  The range of \<open>n\<close> bytes from address \<open>a\<close>, with the wrap-around of 32-bit addresses:
  the addresses whose distance from \<open>a\<close> is below \<open>n\<close>.
\<close>

definition in_range :: "u32 \<Rightarrow> nat \<Rightarrow> u32 \<Rightarrow> bool" where
  "in_range a n x \<longleftrightarrow> unat (x - a) < n"

lemma in_range_0 [simp]: "\<not> in_range a 0 x"
  by (simp add: in_range_def)

lemma in_range_add:
  assumes "k < 2 ^ 32"
  shows "in_range a (k + n) x \<longleftrightarrow> in_range a k x \<or> in_range (a + of_nat k) n x"
proof (cases "unat (x - a) < k")
  case False
  have k: "unat (of_nat k :: u32) = k"
    using assms by (simp add: unat_of_nat)
  with False have "of_nat k \<le> x - a"
    by (simp add: word_le_nat_alt)
  then have "unat (x - a - of_nat k) = unat (x - a) - k"
    by (simp add: unat_sub k)
  then show ?thesis
    using False by (auto simp: in_range_def diff_diff_eq)
qed (simp add: in_range_def)

lemma in_range_Suc: "in_range a (Suc n) x \<longleftrightarrow> x = a \<or> in_range (a + 1) n x"
proof -
  have "in_range a 1 x \<longleftrightarrow> x = a"
    by (simp add: in_range_def unat_eq_zero)
  then show ?thesis using in_range_add [of 1 a n x] by simp
qed

lemma in_range_4: "in_range a 4 x \<longleftrightarrow> x = a \<or> x = a + 1 \<or> x = a + 2 \<or> x = a + 3"
proof -
  have "unat (x - a) < 4 \<longleftrightarrow> x - a = 0 \<or> x - a = 1 \<or> x - a = 2 \<or> x - a = 3"
    by (auto simp: word_unat_eq_iff)
  also have "\<dots> \<longleftrightarrow> x = a \<or> x = a + 1 \<or> x = a + 2 \<or> x = a + 3"
    by (auto simp: diff_eq_eq add.commute)
  finally show ?thesis by (simp add: in_range_def)
qed

lemma in_range_iff_unat:
  assumes "unat a + n \<le> 2 ^ 32"
  shows "in_range a n x \<longleftrightarrow> unat a \<le> unat x \<and> unat x < unat a + n"
  using assms unat_u32_less [of x] by (simp add: in_range_def unat_sub_if') linarith

subsection \<open>Accesses within a page\<close>

lemma PGROUNDDOWN_add:
  assumes "pg_aligned a" "unat k < 4096"
  shows "PGROUNDDOWN (a + k) = a"
proof -
  have "unat a + 4096 \<le> 2 ^ 32"
    using assms(1) by (rule pg_aligned_unat_le)
  then have "unat (a + k) = unat a + unat k"
    using assms(2) by (intro unat_add_no_wrap) simp
  moreover have "(unat a + unat k) mod 4096 = unat k"
    using assms by (subst mod_add_left_eq [symmetric]) (simp add: pg_aligned_iff_mod)
  ultimately show ?thesis
    by (simp add: word_unat_eq_iff unat_PGROUNDDOWN)
qed

lemma in_range_page: "pg_aligned a \<Longrightarrow> in_range a 4096 x \<longleftrightarrow> PGROUNDDOWN x = a"
proof
  assume al: "pg_aligned a" and "in_range a 4096 x"
  then have "PGROUNDDOWN (a + (x - a)) = a"
    by (intro PGROUNDDOWN_add) (simp_all add: in_range_def)
  then show "PGROUNDDOWN x = a" by simp
next
  assume al: "pg_aligned a" and eq: "PGROUNDDOWN x = a"
  have le: "unat (PGROUNDDOWN x) \<le> unat x"
    by (simp add: unat_PGROUNDDOWN)
  then have "unat (x - a) = unat x mod 4096"
    using eq by (metis diff_diff_cancel mod_less_eq_dividend unat_PGROUNDDOWN unat_sub
        word_le_nat_alt)
  then show "in_range a 4096 x"
    by (simp add: in_range_def)
qed

text \<open>
  \<open>page_off k\<close>: a four-byte access at offset \<open>k\<close> of a page stays within the page.
\<close>

definition page_off :: "u32 \<Rightarrow> bool" where
  "page_off k \<longleftrightarrow> unat k \<le> 4092"

lemma page_off_step:
  assumes "pg_aligned a" "page_off k" "unat j < 4"
  shows "PGROUNDDOWN (a + k + j) = a"
proof -
  have "unat (k + j) = unat k + unat j"
    using assms by (intro unat_add_no_wrap) (simp add: page_off_def)
  then show ?thesis
    using PGROUNDDOWN_add [OF assms(1), of "k + j"] assms by (simp add: page_off_def add.assoc)
qed

lemma rd32_page_cong:
  assumes "pg_aligned a" "page_off k" "\<And>x. PGROUNDDOWN x = a \<Longrightarrow> m' x = m x"
  shows "rd32 m' (a + k) = rd32 m (a + k)"
  using assms(3) [OF page_off_step [OF assms(1,2), of 0]]
    assms(3) [OF page_off_step [OF assms(1,2), of 1]]
    assms(3) [OF page_off_step [OF assms(1,2), of 2]]
    assms(3) [OF page_off_step [OF assms(1,2), of 3]]
  by (simp add: rd32_def)

lemma wr32_other_page:
  assumes "pg_aligned a" "page_off k" "PGROUNDDOWN x \<noteq> a"
  shows "wr32 m (a + k) v x = m x"
proof -
  have "x \<noteq> a + k + j" if "unat j < 4" for j
    using page_off_step [OF assms(1,2) that] assms(3) by auto
  from this [of 0] this [of 1] this [of 2] this [of 3] show ?thesis
    by (simp add: wr32_def)
qed

lemma rd32_wr32_other_page [mem_simps]:
  assumes "pg_aligned a" "page_off k" "pg_aligned b" "page_off l" "a \<noteq> b"
  shows "rd32 (wr32 m (a + k) v) (b + l) = rd32 m (b + l)"
  using assms by (intro rd32_page_cong wr32_other_page) auto

lemma page_off_0 [simp]: "page_off 0"
  by (simp add: page_off_def)

lemmas rd32_page_cong0 = rd32_page_cong [where k = 0, simplified]
lemmas wr32_other_page0 = wr32_other_page [where k = 0, simplified]

section \<open>string.c\<close>

subsection \<open>memset\<close>

text \<open>\<^verbatim>\<open>stosb\<close> and \<^verbatim>\<open>stosl\<close> of \<^verbatim>\<open>x86.h\<close>: the repeated string stores.\<close>

fun stosb :: "mem \<Rightarrow> u32 \<Rightarrow> u8 \<Rightarrow> nat \<Rightarrow> mem" where
  "stosb m a c 0 = m"
| "stosb m a c (Suc n) = stosb (m(a := c)) (a + 1) c n"

fun stosl :: "mem \<Rightarrow> u32 \<Rightarrow> u32 \<Rightarrow> nat \<Rightarrow> mem" where
  "stosl m a c 0 = m"
| "stosl m a c (Suc n) = stosl (wr32 m a c) (a + 4) c n"

definition memset :: "mem \<Rightarrow> u32 \<Rightarrow> u32 \<Rightarrow> u32 \<Rightarrow> mem" where
  "memset m dst c n =
     (if dst mod 4 = 0 \<and> n mod 4 = 0
      then let c = c AND 0xFF in
        stosl m dst (push_bit 24 c OR push_bit 16 c OR push_bit 8 c OR c) (unat (n div 4))
      else stosb m dst (ucast c) (unat n))"

lemma stosb_apply: "stosb m a c n x = (if in_range a n x then c else m x)"
  by (induction n arbitrary: m a) (simp_all add: in_range_Suc)

lemma wr32_splat:
  fixes c :: u32
  assumes "c AND 0xFF = c"
  shows "wr32 m a (push_bit 24 c OR push_bit 16 c OR push_bit 8 c OR c) x =
    (if in_range a 4 x then ucast c else m x)"
proof -
  have bits: "\<not> bit c n" if "8 \<le> n" for n
  proof -
    have "c = take_bit 8 c"
      using assms by (simp add: take_bit_eq_mask mask_eq_exp_minus_1)
    then show ?thesis using that by (metis bit_take_bit_iff not_less)
  qed
  have b: "ucast (drop_bit k (push_bit 24 c OR push_bit 16 c OR push_bit 8 c OR c)) = (ucast c :: u8)"
    if "k \<in> {0, 8, 16, 24}" for k
    using that bits by (intro bit_word_eqI) (auto simp: bit_simps)
  show ?thesis
    using b [of 0] b [of 8] b [of 16] b [of 24] by (auto simp: wr32_def in_range_4)
qed

lemma stosl_splat_apply:
  fixes c :: u32
  assumes "c AND 0xFF = c"
  shows "stosl m a (push_bit 24 c OR push_bit 16 c OR push_bit 8 c OR c) n x =
    (if in_range a (4 * n) x then ucast c else m x)"
proof (induction n arbitrary: m a)
  case (Suc n)
  show ?case
    using in_range_add [of 4 a "4 * n" x] by (simp add: Suc wr32_splat [OF assms])
qed simp

text \<open>Whatever store instruction it picks, \<^verbatim>\<open>memset\<close> sets exactly the \<open>n\<close> bytes at \<open>dst\<close>.\<close>

lemma memset_apply:
  "memset m dst c n x = (if in_range dst (unat n) x then ucast c else m x)"
proof (cases "dst mod 4 = 0 \<and> n mod 4 = 0")
  case True
  have n4: "4 * unat (n div 4) = unat n"
  proof -
    have "unat n mod 4 = 0"
      using True unat_mod [of n 4] by simp
    then show ?thesis by (simp add: unat_div) presburger
  qed
  have idem: "(c AND 0xFF) AND 0xFF = c AND 0xFF"
    by (simp add: and.assoc)
  have low: "ucast (c AND 0xFF) = (ucast c :: u8)"
  proof -
    have "c AND 0xFF = c AND mask 8"
      by (simp add: mask_eq_exp_minus_1)
    then show ?thesis by (simp, intro bit_word_eqI) (simp add: bit_simps)
  qed
  show ?thesis
    unfolding memset_def Let_def if_P [OF True] stosl_splat_apply [OF idem] n4 low ..
next
  case False
  show ?thesis
    unfolding memset_def if_not_P [OF False] stosb_apply ..
qed

lemma memset_page:
  assumes "pg_aligned a"
  shows "memset m a c PGSIZE x = (if PGROUNDDOWN x = a then ucast c else m x)"
  using assms by (simp add: memset_apply PGSIZE_def in_range_page)

subsection \<open>memcmp and memmove\<close>

text \<open>\<^verbatim>\<open>memcmp\<close> returns the difference of the first two bytes that differ, as an \<^verbatim>\<open>int\<close>.\<close>

fun memcmp_loop :: "mem \<Rightarrow> u32 \<Rightarrow> u32 \<Rightarrow> nat \<Rightarrow> int" where
  "memcmp_loop m s1 s2 0 = 0"
| "memcmp_loop m s1 s2 (Suc n) =
     (if m s1 \<noteq> m s2 then uint (m s1) - uint (m s2) else memcmp_loop m (s1 + 1) (s2 + 1) n)"

definition memcmp :: "mem \<Rightarrow> u32 \<Rightarrow> u32 \<Rightarrow> u32 \<Rightarrow> int" where
  "memcmp m v1 v2 n = memcmp_loop m v1 v2 (unat n)"

lemma memcmp_loop_0_iff:
  "memcmp_loop m s1 s2 n = 0 \<longleftrightarrow> (\<forall>i<n. m (s1 + of_nat i) = m (s2 + of_nat i))"
proof (induction n arbitrary: s1 s2)
  case (Suc n)
  show ?case
    unfolding All_less_Suc2 by (simp add: Suc add.assoc word_uint_eq_iff)
qed simp

text \<open>
  The two copy loops of \<^verbatim>\<open>memmove\<close>: forwards, \<^verbatim>\<open>*d++ = *s++\<close>, and backwards from the
  end, \<^verbatim>\<open>*--d = *--s\<close>.
\<close>

fun copy_fwd :: "mem \<Rightarrow> u32 \<Rightarrow> u32 \<Rightarrow> nat \<Rightarrow> mem" where
  "copy_fwd m d s 0 = m"
| "copy_fwd m d s (Suc n) = copy_fwd (m(d := m s)) (d + 1) (s + 1) n"

fun copy_bwd :: "mem \<Rightarrow> u32 \<Rightarrow> u32 \<Rightarrow> nat \<Rightarrow> mem" where
  "copy_bwd m d s 0 = m"
| "copy_bwd m d s (Suc n) = copy_bwd (m(d - 1 := m (s - 1))) (d - 1) (s - 1) n"

definition memmove :: "mem \<Rightarrow> u32 \<Rightarrow> u32 \<Rightarrow> u32 \<Rightarrow> mem" where
  "memmove m dst src n =
     (if src < dst \<and> dst < src + n
      then copy_bwd m (dst + n) (src + n) (unat n)
      else copy_fwd m dst src (unat n))"

lemma in_range_last: "in_range a (Suc n) x \<longleftrightarrow> in_range a n x \<or> (n < 2 ^ 32 \<and> x = a + of_nat n)"
proof -
  have "unat (x - a) = n \<longleftrightarrow> n < 2 ^ 32 \<and> x - a = of_nat n"
    using unat_u32_less [of "x - a"] by (auto simp: unat_of_nat)
  also have "x - a = of_nat n \<longleftrightarrow> x = a + of_nat n"
    by (auto simp: diff_eq_eq add.commute)
  finally show ?thesis by (auto simp: in_range_def less_Suc_eq)
qed

lemma copy_fwd_apply:
  assumes "n < 2 ^ 32" "\<And>i j. i < j \<Longrightarrow> j < n \<Longrightarrow> d + of_nat i \<noteq> s + of_nat j"
  shows "copy_fwd m d s n x = (if in_range d n x then m (s + (x - d)) else m x)"
  using assms
proof (induction n arbitrary: m d s)
  case (Suc n)
  have ne: "d + 1 + of_nat i \<noteq> s + 1 + of_nat j" if "i < j" "j < n" for i j
    using Suc.prems(2) [of "Suc i" "Suc j"] that by (simp add: add.assoc)
  have IH: "copy_fwd (m(d := m s)) (d + 1) (s + 1) n x =
      (if in_range (d + 1) n x then (m(d := m s)) (s + 1 + (x - (d + 1))) else (m(d := m s)) x)"
    using Suc.prems(1) by (intro Suc.IH ne) auto
  have "d \<noteq> s + (x - d)" if "in_range (d + 1) n x"
  proof -
    have "0 < unat (x - d)" "unat (x - d) < Suc n"
    proof -
      have "in_range d (Suc n) x" using that by (simp add: in_range_Suc)
      then show "unat (x - d) < Suc n" by (simp add: in_range_def)
      have "x \<noteq> d"
        using that Suc.prems(1) by (auto simp: in_range_def unsigned_minus_1_eq_mask mask_eq_exp_minus_1)
      then show "0 < unat (x - d)" by (simp add: unat_gt_0)
    qed
    then show ?thesis using Suc.prems(2) [of 0 "unat (x - d)"] by simp
  qed
  then show ?case
    by (auto simp: IH in_range_Suc)
qed simp

lemma copy_bwd_apply:
  assumes "n < 2 ^ 32" "\<And>i j. i < j \<Longrightarrow> j < n \<Longrightarrow> d - 1 - of_nat i \<noteq> s - 1 - of_nat j"
  shows "copy_bwd m d s n x =
    (if in_range (d - of_nat n) n x then m (s - of_nat n + (x - (d - of_nat n))) else m x)"
  using assms
proof (induction n arbitrary: m d s)
  case (Suc n)
  have ne: "d - 1 - 1 - of_nat i \<noteq> s - 1 - 1 - of_nat j" if "i < j" "j < n" for i j
    using Suc.prems(2) [of "Suc i" "Suc j"] that by (simp add: diff_diff_eq)
  have IH: "copy_bwd (m(d - 1 := m (s - 1))) (d - 1) (s - 1) n x =
      (if in_range (d - 1 - of_nat n) n x
       then (m(d - 1 := m (s - 1))) (s - 1 - of_nat n + (x - (d - 1 - of_nat n)))
       else (m(d - 1 := m (s - 1))) x)"
    using Suc.prems(1) by (intro Suc.IH ne) auto
  have base: "d - of_nat (Suc n) = d - 1 - of_nat n" "s - of_nat (Suc n) = s - 1 - of_nat n"
    by (simp_all add: diff_diff_eq add.commute)
  have last: "in_range (d - of_nat (Suc n)) (Suc n) x \<longleftrightarrow>
      in_range (d - 1 - of_nat n) n x \<or> x = d - 1"
    using Suc.prems(1) by (simp only: base in_range_last) auto
  have "d - 1 \<noteq> s - 1 - of_nat n + (x - (d - 1 - of_nat n))" if r: "in_range (d - 1 - of_nat n) n x"
  proof -
    define j where "j = unat (x - (d - 1 - of_nat n))"
    have j: "j < n" "x - (d - 1 - of_nat n) = of_nat j"
      using r by (simp_all add: j_def in_range_def)
    have "of_nat n - of_nat j = (of_nat (n - j) :: u32)"
      using j by (simp add: of_nat_diff)
    then have "s - 1 - of_nat n + of_nat j = s - 1 - of_nat (n - j)"
      by (simp add: algebra_simps)
    then show ?thesis
      using Suc.prems(2) [of 0 "n - j"] j by simp
  qed
  then show ?case
    unfolding copy_bwd.simps IH base last [unfolded base] by auto
qed simp

text \<open>
  The reference behaviour of a block copy: the destination holds the bytes the source held
  before, everything else is unchanged.
\<close>

definition copy_spec :: "mem \<Rightarrow> u32 \<Rightarrow> u32 \<Rightarrow> nat \<Rightarrow> mem" where
  "copy_spec m dst src n = (\<lambda>x. if in_range dst n x then m (src + (x - dst)) else m x)"

lemma unat_add_of_nat:
  fixes a :: u32
  assumes "unat a + i < 2 ^ 32"
  shows "unat (a + of_nat i) = unat a + i"
  using assms by (simp add: unat_word_ariths unat_of_nat)

lemma memmove_copy_spec:
  assumes src: "unat src + unat n < 2 ^ 32" and dst: "unat dst + unat n < 2 ^ 32"
  shows "memmove m dst src n = copy_spec m dst src (unat n)"
proof (cases "src < dst \<and> dst < src + n")
  case True
  have "dst + n - 1 - of_nat i \<noteq> src + n - 1 - of_nat j" if "i < j" "j < unat n" for i j
  proof
    assume "dst + n - 1 - of_nat i = src + n - 1 - of_nat j"
    then have "dst + of_nat (unat n - 1 - i) = src + of_nat (unat n - 1 - j)"
      using that by (simp add: of_nat_diff algebra_simps)
    moreover have "unat (dst + of_nat (unat n - 1 - i)) = unat dst + (unat n - 1 - i)"
      using dst by (intro unat_add_of_nat) linarith
    moreover have "unat (src + of_nat (unat n - 1 - j)) = unat src + (unat n - 1 - j)"
      using src by (intro unat_add_of_nat) linarith
    ultimately have "unat dst + (unat n - 1 - i) = unat src + (unat n - 1 - j)"
      by simp
    then show False using True [unfolded word_less_nat_alt] that by arith
  qed
  then show ?thesis
    using True by (auto simp: memmove_def copy_spec_def copy_bwd_apply fun_eq_iff)
next
  case False
  have "dst + of_nat i \<noteq> src + of_nat j" if "i < j" "j < unat n" for i j
  proof
    assume "dst + of_nat i = src + of_nat j"
    then have "unat (dst + of_nat i) = unat (src + of_nat j)" by simp
    then have "unat dst + i = unat src + j"
      using src dst that by (simp add: unat_add_of_nat)
    moreover have "unat dst \<le> unat src \<or> unat src + unat n \<le> unat dst"
      using False src by (auto simp: word_less_nat_alt unat_add_no_wrap)
    ultimately show False using that by linarith
  qed
  then show ?thesis
    using False by (auto simp: memmove_def copy_spec_def copy_fwd_apply fun_eq_iff)
qed

subsection \<open>Strings\<close>

text \<open>
  \<^verbatim>\<open>strncmp\<close> and \<^verbatim>\<open>namecmp\<close> return \<^verbatim>\<open>(uchar)*p - (uchar)*q\<close> at the first position
  where the strings differ or end, 0 after \<open>n\<close> equal characters.
\<close>

fun strncmp :: "mem \<Rightarrow> u32 \<Rightarrow> u32 \<Rightarrow> nat \<Rightarrow> int" where
  "strncmp m p q 0 = 0"
| "strncmp m p q (Suc n) =
     (if m p \<noteq> 0 \<and> m p = m q then strncmp m (p + 1) (q + 1) n
      else uint (m p) - uint (m q))"

text \<open>
  \<^verbatim>\<open>strncpy\<close>: the first loop copies through the first NUL, the second pads with NULs. The
  \<^verbatim>\<open>int\<close> count reaches the loops only when positive, so it is a \<open>nat\<close>.
\<close>

fun strncpy :: "mem \<Rightarrow> u32 \<Rightarrow> u32 \<Rightarrow> nat \<Rightarrow> mem" where
  "strncpy m s t 0 = m"
| "strncpy m s t (Suc n) =
     (let c = m t; m = m(s := c) in
      if c \<noteq> 0 then strncpy m (s + 1) (t + 1) n else stosb m (s + 1) 0 n)"

text \<open>\<^verbatim>\<open>safestrcpy\<close> copies at most \<open>n - 1\<close> characters and always stores a final NUL.\<close>

fun safestrcpy_loop :: "mem \<Rightarrow> u32 \<Rightarrow> u32 \<Rightarrow> nat \<Rightarrow> mem" where
  "safestrcpy_loop m s t 0 = m(s := 0)"
| "safestrcpy_loop m s t (Suc n) =
     (let c = m t; m = m(s := c) in
      if c \<noteq> 0 then safestrcpy_loop m (s + 1) (t + 1) n else m(s + 1 := 0))"

definition safestrcpy :: "mem \<Rightarrow> u32 \<Rightarrow> u32 \<Rightarrow> int \<Rightarrow> mem" where
  "safestrcpy m s t n = (if n \<le> 0 then m else safestrcpy_loop m s t (nat n - 1))"

text \<open>\<^verbatim>\<open>strlen\<close> runs until it meets a NUL; \<open>None\<close> is a memory without one.\<close>

partial_function (option) strlen_from :: "mem \<Rightarrow> u32 \<Rightarrow> nat \<Rightarrow> nat option" where
  "strlen_from m s n = (if m (s + of_nat n) \<noteq> 0 then strlen_from m s (Suc n) else Some n)"

definition strlen :: "mem \<Rightarrow> u32 \<Rightarrow> nat option" where
  "strlen m s = strlen_from m s 0"

lemma strlen_from_found:
  assumes "n \<le> k" "m (s + of_nat k) = 0" "\<And>i. n \<le> i \<Longrightarrow> i < k \<Longrightarrow> m (s + of_nat i) \<noteq> 0"
  shows "strlen_from m s n = Some k"
  using assms
proof (induction "k - n" arbitrary: n)
  case 0
  then show ?case by (simp add: strlen_from.simps)
next
  case (Suc d)
  then have "n < k" "m (s + of_nat n) \<noteq> 0" by simp_all
  with Suc show ?case by (subst strlen_from.simps) simp
qed

text \<open>\<^verbatim>\<open>strlen\<close> returns on every NUL-terminated string, with the index of the first NUL.\<close>

lemma strlen_LEAST:
  assumes "m (s + of_nat k) = 0"
  shows "strlen m s = Some (LEAST i. m (s + of_nat i) = 0)"
  unfolding strlen_def
  by (rule strlen_from_found) (auto intro: LeastI [where P = "\<lambda>i. m (s + of_nat i) = 0", OF assms] dest: not_less_Least)

section \<open>Properties\<close>

text \<open>
  C32: \<^verbatim>\<open>memmove\<close> copies correctly whatever the overlap of the two areas: as long as neither
  wraps around the end of the address space, the destination ends up with the bytes the
  source held before the call and no other byte changes.
\<close>

theorem memmove_correct:
  assumes "unat src + unat n < 2 ^ 32" "unat dst + unat n < 2 ^ 32"
  shows "memmove m dst src n x = (if in_range dst (unat n) x then m (src + (x - dst)) else m x)"
  using memmove_copy_spec [OF assms] by (simp add: copy_spec_def)

theorem memmove_correct_witness:
  "memmove (\<lambda>x. ucast x) 0x1002 0x1000 4 0x1003 =
    (if in_range 0x1002 (unat (4 :: u32)) 0x1003 then ucast (0x1000 + (0x1003 - 0x1002) :: u32)
     else ucast (0x1003 :: u32))"
  by (rule memmove_correct) simp_all

lemma safestrcpy_loop_terminated:
  "(\<exists>i\<le>n. safestrcpy_loop m s t n (s + of_nat i) = 0) \<and>
    (\<forall>x. \<not> in_range s (Suc n) x \<longrightarrow> safestrcpy_loop m s t n x = m x)"
proof (induction n arbitrary: m s t)
  case 0
  then show ?case by (simp add: in_range_Suc)
next
  case (Suc n)
  let ?m = "m(s := m t)"
  show ?case
  proof (cases "m t = 0")
    case True
    have "safestrcpy_loop m s t (Suc n) (s + of_nat 0) = 0" 
      using True by (simp add: Let_def)
    moreover have "\<forall>x. \<not> in_range s (Suc (Suc n)) x \<longrightarrow> safestrcpy_loop m s t (Suc n) x = m x"
      using True by (simp add: Let_def in_range_Suc)
    ultimately show ?thesis by blast
  next
    case False
    have IH: "\<exists>i\<le>n. safestrcpy_loop ?m (s + 1) (t + 1) n (s + 1 + of_nat i) = 0"
        "\<forall>x. \<not> in_range (s + 1) (Suc n) x \<longrightarrow> safestrcpy_loop ?m (s + 1) (t + 1) n x = ?m x"
      using Suc.IH [of ?m "s + 1" "t + 1"] by blast+
    then obtain i where "i \<le> n" "safestrcpy_loop ?m (s + 1) (t + 1) n (s + 1 + of_nat i) = 0"
      by blast
    then have "Suc i \<le> Suc n" "safestrcpy_loop m s t (Suc n) (s + of_nat (Suc i)) = 0"
      using False by (simp_all add: Let_def add.assoc)
    moreover have "\<forall>x. \<not> in_range s (Suc (Suc n)) x \<longrightarrow> safestrcpy_loop m s t (Suc n) x = m x"
      using IH(2) False by (simp add: in_range_Suc [of s "Suc n"] Let_def)
    ultimately show ?thesis by blast
  qed
qed

text \<open>
  C33: \<^verbatim>\<open>safestrcpy\<close> into a buffer of \<open>n\<close> bytes always leaves a NUL within the buffer and
  never writes outside it.
\<close>

theorem safestrcpy_bounded:
  assumes "0 < n"
  shows "(\<exists>i < nat n. safestrcpy m s t n (s + of_nat i) = 0) \<and>
    (\<forall>x. \<not> in_range s (nat n) x \<longrightarrow> safestrcpy m s t n x = m x)"
proof -
  from assms obtain k where k: "nat n = Suc k" by (metis gr0_conv_Suc zero_less_nat_eq)
  then have eq: "safestrcpy m s t n = safestrcpy_loop m s t k"
    using assms by (simp add: safestrcpy_def)
  show ?thesis
    unfolding eq k using safestrcpy_loop_terminated [of k m s t] by (simp add: less_Suc_eq_le)
qed

theorem safestrcpy_bounded_witness:
  "(\<exists>i < nat 16. safestrcpy (\<lambda>_. 65) 0x2000 0x1000 16 (0x2000 + of_nat i) = 0) \<and>
    safestrcpy (\<lambda>_. 65) 0x2000 0x1000 16 0x2010 = 65"
  using safestrcpy_bounded [where n = 16 and m = "\<lambda>_. 65" and s = "0x2000" and t = "0x1000"]
  by (simp add: in_range_def)

end
