(* ===== verification/Bio.thy ===== *)
theory Bio
  imports Sleeplock Memory
begin

text \<open>
  The buffer cache, \<^verbatim>\<open>bio.c\<close>, on the memory disk of \<^verbatim>\<open>memide.c\<close>. The buffers are the
  array \<^verbatim>\<open>bcache.buf\<close>; entry \<open>NBUF\<close> is \<^verbatim>\<open>bcache.head\<close>, and \<open>b_next\<close> and \<open>b_prev\<close> are the
  links of the circular list, as indices. \<^verbatim>\<open>bcache.lock\<close> makes each list operation atomic.
  \<open>diskview\<close> is what the rest of the kernel sees: the cached contents of a block, or the
  block on the disk. The specifications of \<^verbatim>\<open>bread\<close>, \<^verbatim>\<open>bwrite\<close> and \<^verbatim>\<open>brelse\<close> are stated
  on it.
\<close>

lemma unat_u32_inject [simp]: "unat (x :: u32) = unat y \<longleftrightarrow> x = y"
  by (simp add: word_unat_eq_iff)

section \<open>State\<close>

definition BSIZE :: nat where [layout_defs]: "BSIZE = 512"

definition B_VALID :: u32 where [layout_defs]: "B_VALID = 2"
definition B_DIRTY :: u32 where [layout_defs]: "B_DIRTY = 4"

record buf =
  b_flags :: u32
  b_dev :: u32
  b_blockno :: u32
  b_lock :: sleeplock
  b_refcnt :: u32
  b_prev :: nat
  b_next :: nat
  b_data :: block

text \<open>
  \<open>mypid\<close> is the pid of the running process. \<open>dwrites\<close> lists the blocks written to the disk
  so far, in order: it is read by no operation and serves to state what a crash can leave
  behind. The record is extended by the layers above.
\<close>

record biost =
  mypid :: int
  bcache :: "nat \<Rightarrow> buf"
  memdisk :: "nat \<Rightarrow> block"
  disksize :: u32
  dwrites :: "(nat \<times> block) list"

definition upd_buf :: "nat \<Rightarrow> (buf \<Rightarrow> buf) \<Rightarrow> 'a biost_scheme \<Rightarrow> 'a biost_scheme" where
  "upd_buf b f s = s\<lparr>bcache := (bcache s)(b := f (bcache s b))\<rparr>"

section \<open>The memory disk\<close>

definition iderw :: "nat \<Rightarrow> 'a biost_scheme \<Rightarrow> 'a biost_scheme res" where
  "iderw b s =
     (let bp = bcache s b; n = unat (b_blockno bp) in
      if \<not> holdingsleep (mypid s) (b_lock bp) then Inl (Panic ''iderw: buf not locked'')
      else if b_flags bp AND (B_VALID OR B_DIRTY) = B_VALID then Inl (Panic ''iderw: nothing to do'')
      else if b_dev bp \<noteq> 1 then Inl (Panic ''iderw: request not for disk 1'')
      else if b_blockno bp \<ge> disksize s then Inl (Panic ''iderw: block out of range'')
      else if b_flags bp AND B_DIRTY \<noteq> 0 then
        let s = upd_buf b (\<lambda>bp. bp\<lparr>b_flags := b_flags bp AND NOT B_DIRTY\<rparr>) s;
            s = s\<lparr>memdisk := (memdisk s)(n := b_data bp), dwrites := dwrites s @ [(n, b_data bp)]\<rparr>
        in Inr (upd_buf b (\<lambda>bp. bp\<lparr>b_flags := b_flags bp OR B_VALID\<rparr>) s)
      else
        let s = upd_buf b (\<lambda>bp. bp\<lparr>b_data := memdisk s n\<rparr>) s
        in Inr (upd_buf b (\<lambda>bp. bp\<lparr>b_flags := b_flags bp OR B_VALID\<rparr>) s))"

section \<open>The buffer cache\<close>

text \<open>\<^verbatim>\<open>binit\<close>: the loop inserts each buffer after the head.\<close>

definition binit_insert :: "nat \<Rightarrow> 'a biost_scheme \<Rightarrow> 'a biost_scheme" where
  "binit_insert b s =
     (let s = upd_buf b (\<lambda>x. x\<lparr>b_next := b_next (bcache s NBUF)\<rparr>) s;
          s = upd_buf b (\<lambda>x. x\<lparr>b_prev := NBUF\<rparr>) s;
          s = upd_buf b (\<lambda>x. x\<lparr>b_lock := initsleeplock\<rparr>) s;
          s = upd_buf (b_next (bcache s NBUF)) (\<lambda>x. x\<lparr>b_prev := b\<rparr>) s
      in upd_buf NBUF (\<lambda>x. x\<lparr>b_next := b\<rparr>) s)"

definition binit :: "'a biost_scheme \<Rightarrow> 'a biost_scheme" where
  "binit s =
     (let s = upd_buf NBUF (\<lambda>x. x\<lparr>b_prev := NBUF\<rparr>) s;
          s = upd_buf NBUF (\<lambda>x. x\<lparr>b_next := NBUF\<rparr>) s
      in fold binit_insert [0..<NBUF] s)"

text \<open>
  The two searches of \<^verbatim>\<open>bget\<close>: forward for the block, backward for a buffer to recycle. The
  list has \<open>NBUF\<close> buffers, so \<open>Suc NBUF\<close> turns reach the head again.
\<close>

fun bget_find :: "nat \<Rightarrow> u32 \<Rightarrow> u32 \<Rightarrow> nat \<Rightarrow> (nat \<Rightarrow> buf) \<Rightarrow> nat option res" where
  "bget_find 0 dev blockno b bc = Inl Diverges"
| "bget_find (Suc fuel) dev blockno b bc =
     (if b = NBUF then Inr None
      else if b_dev (bc b) = dev \<and> b_blockno (bc b) = blockno then Inr (Some b)
      else bget_find fuel dev blockno (b_next (bc b)) bc)"

fun bget_recycle :: "nat \<Rightarrow> nat \<Rightarrow> (nat \<Rightarrow> buf) \<Rightarrow> nat option res" where
  "bget_recycle 0 b bc = Inl Diverges"
| "bget_recycle (Suc fuel) b bc =
     (if b = NBUF then Inr None
      else if b_refcnt (bc b) = 0 \<and> b_flags (bc b) AND B_DIRTY = 0 then Inr (Some b)
      else bget_recycle fuel (b_prev (bc b)) bc)"

definition lock_buf :: "nat \<Rightarrow> 'a biost_scheme \<Rightarrow> (nat \<times> 'a biost_scheme) res" where
  "lock_buf b s =
     bindr (acquiresleep (mypid s) (b_lock (bcache s b))) (\<lambda>lk.
       Inr (b, upd_buf b (\<lambda>x. x\<lparr>b_lock := lk\<rparr>) s))"

definition bget :: "u32 \<Rightarrow> u32 \<Rightarrow> 'a biost_scheme \<Rightarrow> (nat \<times> 'a biost_scheme) res" where
  "bget dev blockno s =
     bindr (bget_find (Suc NBUF) dev blockno (b_next (bcache s NBUF)) (bcache s)) (\<lambda>r.
     case r of
       Some b \<Rightarrow> lock_buf b (upd_buf b (\<lambda>x. x\<lparr>b_refcnt := b_refcnt x + 1\<rparr>) s)
     | None \<Rightarrow>
         bindr (bget_recycle (Suc NBUF) (b_prev (bcache s NBUF)) (bcache s)) (\<lambda>r.
         case r of
           Some b \<Rightarrow> lock_buf b (upd_buf b (\<lambda>x. x\<lparr>b_dev := dev, b_blockno := blockno,
                        b_flags := 0, b_refcnt := 1\<rparr>) s)
         | None \<Rightarrow> Inl (Panic ''bget: no buffers'')))"

definition bread :: "u32 \<Rightarrow> u32 \<Rightarrow> 'a biost_scheme \<Rightarrow> (nat \<times> 'a biost_scheme) res" where
  "bread dev blockno s =
     bindr (bget dev blockno s) (\<lambda>(b, s).
     if b_flags (bcache s b) AND B_VALID = 0 then bindr (iderw b s) (\<lambda>s. Inr (b, s))
     else Inr (b, s))"

definition bwrite :: "nat \<Rightarrow> 'a biost_scheme \<Rightarrow> 'a biost_scheme res" where
  "bwrite b s =
     (if \<not> holdingsleep (mypid s) (b_lock (bcache s b)) then Inl (Panic ''bwrite'')
      else iderw b (upd_buf b (\<lambda>x. x\<lparr>b_flags := b_flags x OR B_DIRTY\<rparr>) s))"

text \<open>The end of \<^verbatim>\<open>brelse\<close>: unlink the buffer and put it at the front of the list.\<close>

definition brelse_front :: "nat \<Rightarrow> 'a biost_scheme \<Rightarrow> 'a biost_scheme" where
  "brelse_front b s =
     (let s = upd_buf (b_next (bcache s b)) (\<lambda>x. x\<lparr>b_prev := b_prev (bcache s b)\<rparr>) s;
          s = upd_buf (b_prev (bcache s b)) (\<lambda>x. x\<lparr>b_next := b_next (bcache s b)\<rparr>) s;
          s = upd_buf b (\<lambda>x. x\<lparr>b_next := b_next (bcache s NBUF)\<rparr>) s;
          s = upd_buf b (\<lambda>x. x\<lparr>b_prev := NBUF\<rparr>) s;
          s = upd_buf (b_next (bcache s NBUF)) (\<lambda>x. x\<lparr>b_prev := b\<rparr>) s
      in upd_buf NBUF (\<lambda>x. x\<lparr>b_next := b\<rparr>) s)"

definition brelse :: "nat \<Rightarrow> 'a biost_scheme \<Rightarrow> 'a biost_scheme res" where
  "brelse b s =
     (if \<not> holdingsleep (mypid s) (b_lock (bcache s b)) then Inl (Panic ''brelse'')
      else let s = upd_buf b (\<lambda>x. x\<lparr>b_lock := releasesleep (b_lock x)\<rparr>) s;
               s = upd_buf b (\<lambda>x. x\<lparr>b_refcnt := b_refcnt x - 1\<rparr>) s
        in if b_refcnt (bcache s b) = 0 then Inr (brelse_front b s) else Inr s)"

section \<open>The circular list\<close>

text \<open>
  \<open>linked nx pv ys\<close>: each element of \<open>ys\<close> points forward to the next one and the next one
  back to it. The cache list \<open>xs\<close> runs from the head round to the head again.
\<close>

fun linked :: "(nat \<Rightarrow> nat) \<Rightarrow> (nat \<Rightarrow> nat) \<Rightarrow> nat list \<Rightarrow> bool" where
  "linked nx pv (a # b # ys) \<longleftrightarrow> nx a = b \<and> pv b = a \<and> linked nx pv (b # ys)"
| "linked nx pv _ \<longleftrightarrow> True"

lemma linked_append:
  assumes "as \<noteq> []" "bs \<noteq> []"
  shows "linked nx pv (as @ bs) \<longleftrightarrow>
    linked nx pv as \<and> linked nx pv bs \<and> nx (last as) = hd bs \<and> pv (hd bs) = last as"
  using assms
by (induction nx pv as rule: linked.induct) (auto, (cases bs; auto)+)

lemma linked_cong:
  assumes "linked nx pv ys" "\<And>a. a \<in> set (butlast ys) \<Longrightarrow> nx' a = nx a"
    "\<And>a. a \<in> set (tl ys) \<Longrightarrow> pv' a = pv a"
  shows "linked nx' pv' ys"
  using assms
proof (induction nx pv ys rule: linked.induct)
  case (1 nx pv a b ys)
  then show ?case by (cases ys) auto
qed auto

lemma linked_remove:
  assumes "linked nx pv (h # ys @ b # zs @ [h])" "distinct (h # ys @ b # zs)"
    "p = pv b" "n = nx b"
  shows "linked (nx(p := n)) (pv(n := p)) (h # ys @ zs @ [h])"
proof -
  have l: "linked nx pv (h # ys)" "linked nx pv (zs @ [h])" and e: "p = last (h # ys)" "n = hd (zs @ [h])"
    using assms linked_append [of "h # ys" "b # zs @ [h]" nx pv] linked_append [of "[b]" "zs @ [h]" nx pv]
    by (auto simp: hd_append split: if_splits)
  have d: "last (h # ys) \<notin> set (butlast (h # ys))" "hd (zs @ [h]) \<notin> set (tl (zs @ [h]))"
    using assms(2) distinct_butlast append_butlast_last_id [of "h # ys"]
    by (metis distinct.simps(2) distinct_append distinct1_rotate rotate1.simps(2) append_is_Nil_conv
        list.discI list.exhaust_sel not_distinct_conv_prefix append_Cons)
       (use assms(2) in \<open>cases zs; auto\<close>)
  have "p \<notin> set zs" using e(1) assms(2) last_in_set [of "h # ys"] by auto
  have "linked (nx(p := n)) (pv(n := p)) (h # ys)"
    by (rule linked_cong [OF l(1)]) (use e d assms(2) in \<open>auto dest: in_set_butlastD simp: hd_append split: if_splits\<close>)
  moreover have "linked (nx(p := n)) (pv(n := p)) (zs @ [h])"
    by (rule linked_cong [OF l(2)]) (use e(2) d \<open>p \<notin> set zs\<close> in \<open>auto simp: butlast_append\<close>)
  ultimately show ?thesis
    using linked_append [of "h # ys" "zs @ [h]"] e by simp
qed

lemma linked_insert:
  assumes "linked nx pv (h # ws @ [h])" "b \<notin> set (h # ws)" "distinct (h # ws)"
  shows "linked (nx(b := nx h, h := b)) (pv(b := h, nx h := b)) (h # b # ws @ [h])"
proof -
  have l: "linked nx pv (ws @ [h])" and e: "nx h = hd (ws @ [h])"
    using assms linked_append [of "[h]" "ws @ [h]" nx pv] by auto
  have d: "hd (ws @ [h]) \<notin> set (tl (ws @ [h]))" "hd (ws @ [h]) \<noteq> b"
    using assms by (cases ws; auto)+
  have "linked (nx(b := nx h, h := b)) (pv(b := h, nx h := b)) (ws @ [h])"
    by (rule linked_cong [OF l])
      (use e d assms in \<open>auto dest: in_set_butlastD simp: butlast_append tl_append split: if_splits list.splits\<close>)
  then have "linked (nx(b := nx h, h := b)) (pv(b := h, nx h := b)) ([h, b] @ ws @ [h])"
    by (subst linked_append) (use e d assms(2) in auto)
  then show ?thesis by simp
qed

definition lru_ok :: "(nat \<Rightarrow> buf) \<Rightarrow> nat list \<Rightarrow> bool" where
  "lru_ok bc xs \<longleftrightarrow> linked (\<lambda>b. b_next (bc b)) (\<lambda>b. b_prev (bc b)) (NBUF # xs @ [NBUF]) \<and>
     distinct xs \<and> set xs = {..<NBUF}"

lemma lru_ok_length: "lru_ok bc xs \<Longrightarrow> length xs = NBUF"
  by (metis lru_ok_def card_lessThan distinct_card)

lemma bget_find_eq:
  assumes "linked (\<lambda>b. b_next (bc b)) pv (a # xs @ [NBUF])" "NBUF \<notin> set xs" "length xs < fuel"
  shows "bget_find fuel dev blockno (b_next (bc a)) bc =
    Inr (find (\<lambda>b. b_dev (bc b) = dev \<and> b_blockno (bc b) = blockno) xs)"
  using assms
proof (induction xs arbitrary: a fuel)
  case Nil
  then show ?case by (cases fuel) auto
next
  case (Cons x xs)
  then show ?case by (cases fuel) auto
qed

lemma bget_recycle_eq:
  assumes "linked nx (\<lambda>b. b_prev (bc b)) (NBUF # xs @ [a])" "NBUF \<notin> set xs" "length xs < fuel"
  shows "bget_recycle fuel (b_prev (bc a)) bc =
    Inr (find (\<lambda>b. b_refcnt (bc b) = 0 \<and> b_flags (bc b) AND B_DIRTY = 0) (rev xs))"
  using assms
proof (induction xs arbitrary: a fuel rule: rev_induct)
  case Nil
  then show ?case by (cases fuel) auto
next
  case (snoc x xs)
  have "linked nx (\<lambda>b. b_prev (bc b)) (NBUF # xs @ [x])" "b_prev (bc a) = x"
    using snoc.prems(1) linked_append [of "NBUF # xs @ [x]" "[a]" nx "\<lambda>b. b_prev (bc b)"] by auto
  then show ?case using snoc.IH [of x] snoc.prems by (cases fuel) auto
qed

lemma lru_bget_find:
  "lru_ok bc xs \<Longrightarrow> bget_find (Suc NBUF) dev blockno (b_next (bc NBUF)) bc =
    Inr (find (\<lambda>b. b_dev (bc b) = dev \<and> b_blockno (bc b) = blockno) xs)"
  using lru_ok_length [of bc xs]
  by (intro bget_find_eq [where pv = "\<lambda>b. b_prev (bc b)"]) (auto simp: lru_ok_def)

lemma lru_bget_recycle:
  "lru_ok bc xs \<Longrightarrow> bget_recycle (Suc NBUF) (b_prev (bc NBUF)) bc =
    Inr (find (\<lambda>b. b_refcnt (bc b) = 0 \<and> b_flags (bc b) AND B_DIRTY = 0) (rev xs))"
  using lru_ok_length [of bc xs]
  by (intro bget_recycle_eq [where nx = "\<lambda>b. b_next (bc b)"]) (auto simp: lru_ok_def)

declare bget_find.simps [simp del] bget_recycle.simps [simp del]

lemma bcache_upd_buf [simp]: "bcache (upd_buf b f s) = (bcache s)(b := f (bcache s b))"
  by (simp add: upd_buf_def)

lemma upd_buf_rest [simp]:
  "mypid (upd_buf b f s) = mypid s" "memdisk (upd_buf b f s) = memdisk s"
  "disksize (upd_buf b f s) = disksize s" "dwrites (upd_buf b f s) = dwrites s"
  "biost.more (upd_buf b f s) = biost.more s"
  by (simp_all add: upd_buf_def)

text \<open>The list after \<^verbatim>\<open>brelse\<close>; only links change.\<close>

definition same_but_links :: "buf \<Rightarrow> buf \<Rightarrow> bool" where
  "same_but_links x y \<longleftrightarrow> x\<lparr>b_prev := b_prev y, b_next := b_next y\<rparr> = y"

lemma same_but_links_refl [simp]: "same_but_links x x"
  by (simp add: same_but_links_def)

lemma same_but_links_trans: "same_but_links x y \<Longrightarrow> same_but_links y z \<Longrightarrow> same_but_links x z"
  by (cases x; cases y; cases z) (simp add: same_but_links_def)

lemma same_but_linksD:
  assumes "same_but_links x y"
  shows "b_flags y = b_flags x" "b_dev y = b_dev x" "b_blockno y = b_blockno x"
    "b_lock y = b_lock x" "b_refcnt y = b_refcnt x" "b_data y = b_data x"
  using assms by (cases x; cases y; simp add: same_but_links_def)+

lemma brelse_front_rest [simp]:
  "mypid (brelse_front b s) = mypid s" "memdisk (brelse_front b s) = memdisk s"
  "disksize (brelse_front b s) = disksize s" "dwrites (brelse_front b s) = dwrites s"
  "biost.more (brelse_front b s) = biost.more s"
  by (simp_all add: brelse_front_def Let_def)

lemma same_but_links_upd:
  assumes "same_but_links x (bcache s c)"
  shows "same_but_links x (bcache (upd_buf b (\<lambda>x. x\<lparr>b_next := v\<rparr>) s) c)"
    "same_but_links x (bcache (upd_buf b (\<lambda>x. x\<lparr>b_prev := v\<rparr>) s) c)"
  by (rule same_but_links_trans [OF assms], simp add: same_but_links_def)+

lemma brelse_front_same: "same_but_links (bcache s c) (bcache (brelse_front b s) c)"
  unfolding brelse_front_def Let_def by (intro same_but_links_upd same_but_links_refl)

definition nxs :: "'a biost_scheme \<Rightarrow> nat \<Rightarrow> nat" where "nxs s b = b_next (bcache s b)"
definition pvs :: "'a biost_scheme \<Rightarrow> nat \<Rightarrow> nat" where "pvs s b = b_prev (bcache s b)"

lemma nxs_upd [simp]:
  "nxs (upd_buf b (\<lambda>x. x\<lparr>b_next := v\<rparr>) s) = (nxs s)(b := v)"
  "nxs (upd_buf b (\<lambda>x. x\<lparr>b_prev := w\<rparr>) s) = nxs s"
  "pvs (upd_buf b (\<lambda>x. x\<lparr>b_next := v\<rparr>) s) = pvs s"
  "pvs (upd_buf b (\<lambda>x. x\<lparr>b_prev := w\<rparr>) s) = (pvs s)(b := w)"
  by (simp_all add: nxs_def pvs_def fun_eq_iff)

lemma brelse_front_links:
  assumes "nxs s b \<noteq> b" "pvs s b \<noteq> b" "b \<noteq> NBUF"
  defines "nx \<equiv> (nxs s)(pvs s b := nxs s b)" and "pv \<equiv> (pvs s)(nxs s b := pvs s b)"
  shows "nxs (brelse_front b s) = nx(b := nx NBUF, NBUF := b)"
    "pvs (brelse_front b s) = pv(b := NBUF, nx NBUF := b)"
  using assms(1-3) unfolding nx_def pv_def brelse_front_def Let_def nxs_def [symmetric] pvs_def [symmetric]
  by simp_all

lemma lru_ok_alt: "lru_ok (bcache s) xs \<longleftrightarrow>
    linked (nxs s) (pvs s) (NBUF # xs @ [NBUF]) \<and> distinct xs \<and> set xs = {..<NBUF}"
  by (simp add: lru_ok_def nxs_def [abs_def] pvs_def [abs_def])

lemma linked_neighbours:
  assumes "linked nx pv (h # ys @ b # zs @ [h])" "distinct (h # ys @ b # zs)"
  shows "nx b \<noteq> b" "pv b \<noteq> b"
proof -
  have "nx b = hd (zs @ [h])" "pv b = last (h # ys)"
    using assms(1) linked_append [of "h # ys" "b # zs @ [h]" nx pv]
      linked_append [of "[b]" "zs @ [h]" nx pv] by auto
  then show "nx b \<noteq> b" "pv b \<noteq> b"
    using assms(2) last_in_set [of "h # ys"] by (cases zs; auto)+
qed

lemma lru_ok_brelse_front:
  assumes "lru_ok (bcache s) xs" "b < NBUF"
  shows "lru_ok (bcache (brelse_front b s)) (b # remove1 b xs)"
proof -
  have l: "linked (nxs s) (pvs s) (NBUF # xs @ [NBUF])" and d: "distinct xs" "set xs = {..<NBUF}"
    using assms(1) by (auto simp: lru_ok_alt)
  obtain ys zs where xs: "xs = ys @ b # zs"
    using assms(2) d(2) split_list [of b xs] by auto
  have D: "distinct (NBUF # ys @ b # zs)" using d xs by auto
  have L: "linked (nxs s) (pvs s) (NBUF # ys @ b # zs @ [NBUF])" using l xs by simp
  let ?nx = "(nxs s)(pvs s b := nxs s b)" and ?pv = "(pvs s)(nxs s b := pvs s b)"
  have "linked ?nx ?pv (NBUF # (ys @ zs) @ [NBUF])"
    using linked_remove [OF L D refl refl] by simp
  then have "linked (?nx(b := ?nx NBUF, NBUF := b)) (?pv(b := NBUF, ?nx NBUF := b))
      (NBUF # b # (ys @ zs) @ [NBUF])"
    using D by (intro linked_insert) auto
  then have "linked (nxs (brelse_front b s)) (pvs (brelse_front b s)) (NBUF # b # (ys @ zs) @ [NBUF])"
    using brelse_front_links [of s b] linked_neighbours [OF L D] assms(2) by simp
  moreover have "remove1 b xs = ys @ zs" using xs D by (simp add: remove1_append)
  ultimately show ?thesis using d xs by (auto simp: lru_ok_alt)
qed

lemma nxs_upd_lock [simp]:
  "nxs (upd_buf b (\<lambda>x. x\<lparr>b_lock := v\<rparr>) s) = nxs s"
  "pvs (upd_buf b (\<lambda>x. x\<lparr>b_lock := v\<rparr>) s) = pvs s"
  by (simp_all add: nxs_def pvs_def fun_eq_iff)

lemma binit_insert_links:
  assumes "b \<noteq> NBUF"
  shows "nxs (binit_insert b s) = (nxs s)(b := nxs s NBUF, NBUF := b)"
    "pvs (binit_insert b s) = (pvs s)(b := NBUF, nxs s NBUF := b)"
  using assms unfolding binit_insert_def Let_def nxs_def [symmetric] by simp_all

lemma binit_loop:
  assumes "linked (nxs s) (pvs s) (NBUF # ws @ [NBUF])" "distinct (NBUF # bs @ ws)"
  shows "linked (nxs (fold binit_insert bs s)) (pvs (fold binit_insert bs s))
    (NBUF # (rev bs @ ws) @ [NBUF])"
  using assms
proof (induction bs arbitrary: s ws)
  case (Cons b bs)
  have "linked (nxs (binit_insert b s)) (pvs (binit_insert b s)) (NBUF # (b # ws) @ [NBUF])"
    using linked_insert [OF Cons.prems(1), of b] Cons.prems(2) by (simp add: binit_insert_links)
  then have "linked (nxs (fold binit_insert bs (binit_insert b s)))
      (pvs (fold binit_insert bs (binit_insert b s))) (NBUF # (rev bs @ (b # ws)) @ [NBUF])"
    by (rule Cons.IH) (use Cons.prems(2) in auto)
  then show ?case by simp
qed simp

lemma binit_lru: "lru_ok (bcache (binit s)) (rev [0..<NBUF])"
proof -
  let ?s = "upd_buf NBUF (\<lambda>x. x\<lparr>b_next := NBUF\<rparr>) (upd_buf NBUF (\<lambda>x. x\<lparr>b_prev := NBUF\<rparr>) s)"
  have "linked (nxs (fold binit_insert [0..<NBUF] ?s)) (pvs (fold binit_insert [0..<NBUF] ?s))
      (NBUF # (rev [0..<NBUF] @ []) @ [NBUF])"
    by (rule binit_loop) auto
  then show ?thesis by (auto simp: lru_ok_alt binit_def Let_def)
qed

section \<open>The cache invariant and the view of the disk\<close>

definition b_valid :: "buf \<Rightarrow> bool" where "b_valid x \<longleftrightarrow> b_flags x AND B_VALID \<noteq> 0"
definition b_dirty :: "buf \<Rightarrow> bool" where "b_dirty x \<longleftrightarrow> b_flags x AND B_DIRTY \<noteq> 0"

lemma b_valid_bit: "b_valid x \<longleftrightarrow> bit (b_flags x) 1"
  using and_exp_eq_0_iff_not_bit [of "b_flags x" 1] by (simp add: b_valid_def B_VALID_def)

lemma b_dirty_bit: "b_dirty x \<longleftrightarrow> bit (b_flags x) 2"
  using and_exp_eq_0_iff_not_bit [of "b_flags x" 2] by (simp add: b_dirty_def B_DIRTY_def)

lemma bit_B_VALID [simp]: "bit B_VALID n \<longleftrightarrow> n = 1"
proof -
  have "B_VALID = 2 ^ 1" by (simp add: B_VALID_def)
  then show ?thesis using bit_exp_iff [where 'a = "32 word", of 1 n] by (auto simp: possible_bit_def)
qed

lemma bit_B_DIRTY [simp]: "bit B_DIRTY n \<longleftrightarrow> n = 2"
proof -
  have "B_DIRTY = 2 ^ 2" by (simp add: B_DIRTY_def)
  then show ?thesis using bit_exp_iff [where 'a = "32 word", of 2 n] by (auto simp: possible_bit_def)
qed

lemma flags_upd [simp]:
  "b_valid (x\<lparr>b_flags := f OR B_VALID\<rparr>)"
  "b_dirty (x\<lparr>b_flags := b_flags x OR B_VALID\<rparr>) = b_dirty x"
  "b_dirty (x\<lparr>b_flags := f OR B_DIRTY\<rparr>)"
  "b_valid (x\<lparr>b_flags := b_flags x OR B_DIRTY\<rparr>) = b_valid x"
  "\<not> b_dirty (x\<lparr>b_flags := f AND NOT B_DIRTY\<rparr>)"
  "\<not> b_valid (x\<lparr>b_flags := 0\<rparr>)" "\<not> b_dirty (x\<lparr>b_flags := 0\<rparr>)"
  by (simp_all add: b_valid_bit b_dirty_bit bit_simps)

lemma flags_clean_valid:
  "b_flags x AND (B_VALID OR B_DIRTY) = B_VALID \<longleftrightarrow> b_valid x \<and> \<not> b_dirty x"
proof
  assume "b_flags x AND (B_VALID OR B_DIRTY) = B_VALID"
  then have "bit (b_flags x AND (B_VALID OR B_DIRTY)) n = bit B_VALID n" for n by simp
  from this [of 1] this [of 2] show "b_valid x \<and> \<not> b_dirty x"
    by (simp add: b_valid_bit b_dirty_bit bit_simps)
next
  assume "b_valid x \<and> \<not> b_dirty x"
  then show "b_flags x AND (B_VALID OR B_DIRTY) = B_VALID"
    by (intro bit_word_eqI) (auto simp: b_valid_bit b_dirty_bit bit_simps)
qed

text \<open>
  A buffer is referenced exactly while it is locked: this is the cache between and within
  operations that run one after the other. A valid buffer that is neither dirty nor locked
  holds what the disk holds.
\<close>

definition buf_ok :: "'a biost_scheme \<Rightarrow> buf \<Rightarrow> bool" where
  "buf_ok s x \<longleftrightarrow> (b_dirty x \<longrightarrow> b_valid x) \<and> b_refcnt x = (if lk_locked (b_lock x) = 0 then 0 else 1) \<and>
     (b_valid x \<longrightarrow> b_dev x = 1 \<and> b_blockno x < disksize s) \<and>
     (b_valid x \<and> \<not> b_dirty x \<and> lk_locked (b_lock x) = 0 \<longrightarrow>
        b_data x = memdisk s (unat (b_blockno x)))"

definition blk_of :: "'a biost_scheme \<Rightarrow> u32 \<Rightarrow> nat \<Rightarrow> bool" where
  "blk_of s n b \<longleftrightarrow> b_dev (bcache s b) = 1 \<and> b_blockno (bcache s b) = n"

definition bc_ok :: "'a biost_scheme \<Rightarrow> bool" where
  "bc_ok s \<longleftrightarrow> (\<exists>xs. lru_ok (bcache s) xs) \<and> (\<forall>b < NBUF. buf_ok s (bcache s b)) \<and>
     (\<forall>b < NBUF. \<forall>c < NBUF. \<forall>n. blk_of s n b \<longrightarrow> blk_of s n c \<longrightarrow> b = c)"

definition diskview :: "'a biost_scheme \<Rightarrow> u32 \<Rightarrow> block" where
  "diskview s n =
     (case find (\<lambda>b. blk_of s n b \<and> b_valid (bcache s b)) [0..<NBUF] of
        Some b \<Rightarrow> b_data (bcache s b)
      | None \<Rightarrow> memdisk s (unat n))"

lemma diskview_cached:
  assumes "bc_ok s" "b < NBUF" "blk_of s n b" "b_valid (bcache s b)"
  shows "diskview s n = b_data (bcache s b)"
proof (cases "find (\<lambda>b. blk_of s n b \<and> b_valid (bcache s b)) [0..<NBUF]")
  case None
  then show ?thesis using assms by (auto simp: find_None_iff)
next
  case (Some c)
  then have "c < NBUF" "blk_of s n c" by (auto simp: find_Some_iff)
  then have "c = b" using assms by (auto simp: bc_ok_def)
  then show ?thesis using Some by (simp add: diskview_def)
qed

lemma diskview_uncached:
  assumes "\<And>b. b < NBUF \<Longrightarrow> blk_of s n b \<Longrightarrow> \<not> b_valid (bcache s b)"
  shows "diskview s n = memdisk s (unat n)"
proof -
  have "find (\<lambda>b. blk_of s n b \<and> b_valid (bcache s b)) [0..<NBUF] = None"
    using assms by (auto simp: find_None_iff)
  then show ?thesis by (simp add: diskview_def)
qed

lemma diskview_eqI:
  assumes "\<And>c. c < NBUF \<Longrightarrow> b_valid (bcache s c) \<Longrightarrow> b_dev (bcache s c) = 1 \<Longrightarrow>
      b_data (bcache s c) = v (b_blockno (bcache s c))"
    "\<And>n. (\<And>c. c < NBUF \<Longrightarrow> blk_of s n c \<Longrightarrow> \<not> b_valid (bcache s c)) \<Longrightarrow> memdisk s (unat n) = v n"
  shows "diskview s = v"
proof
  fix n
  show "diskview s n = v n"
  proof (cases "find (\<lambda>b. blk_of s n b \<and> b_valid (bcache s b)) [0..<NBUF]")
    case None
    then have "memdisk s (unat n) = v n" by (intro assms(2)) (auto simp: find_None_iff)
    then show ?thesis using None by (simp add: diskview_def)
  next
    case (Some c)
    then have "c < NBUF" "blk_of s n c" "b_valid (bcache s c)" by (auto simp: find_Some_iff)
    then show ?thesis using Some assms(1) [of c] by (simp add: diskview_def blk_of_def)
  qed
qed

lemma diskview_cong:
  assumes "\<And>c. b_dev (bcache s' c) = b_dev (bcache s c)" "\<And>c. b_blockno (bcache s' c) = b_blockno (bcache s c)"
    "\<And>c. b_valid (bcache s' c) = b_valid (bcache s c)" "\<And>c. b_data (bcache s' c) = b_data (bcache s c)"
    "memdisk s' = memdisk s"
  shows "diskview s' = diskview s"
  by (rule ext) (simp add: diskview_def blk_of_def assms cong: option.case_cong)

lemma lock_taken: "lk\<lparr>lk_locked := a, lk_pid := p\<rparr> = \<lparr>lk_locked = a, lk_pid = p\<rparr>"
  by (cases lk) simp

lemma bget_cases:
  assumes ok: "bc_ok s" and r: "bget 1 n s = Inr (b, s')"
  obtains (hit) "b < NBUF" "blk_of s n b" "lk_locked (b_lock (bcache s b)) = 0"
      "s' = upd_buf b (\<lambda>x. x\<lparr>b_refcnt := 1, b_lock := \<lparr>lk_locked = 1, lk_pid = mypid s\<rparr>\<rparr>) s"
    | (miss) "b < NBUF" "\<And>c. c < NBUF \<Longrightarrow> \<not> blk_of s n c" "lk_locked (b_lock (bcache s b)) = 0"
      "\<not> b_dirty (bcache s b)"
      "s' = upd_buf b (\<lambda>x. x\<lparr>b_dev := 1, b_blockno := n, b_flags := 0, b_refcnt := 1,
         b_lock := \<lparr>lk_locked = 1, lk_pid = mypid s\<rparr>\<rparr>) s"
proof -
  obtain xs where xs: "lru_ok (bcache s) xs" using ok by (auto simp: bc_ok_def)
  then have sx: "set xs = {..<NBUF}" by (simp add: lru_ok_def)
  have bok: "buf_ok s (bcache s c)" if "c < NBUF" for c using ok that by (auto simp: bc_ok_def)
  let ?hit = "find (\<lambda>b. b_dev (bcache s b) = 1 \<and> b_blockno (bcache s b) = n) xs"
  let ?free = "find (\<lambda>b. b_refcnt (bcache s b) = 0 \<and> b_flags (bcache s b) AND B_DIRTY = 0) (rev xs)"
  note defs = bget_def lru_bget_find [OF xs] lru_bget_recycle [OF xs] lock_buf_def acquiresleep_def lock_taken
  show thesis
  proof (cases ?hit)
    case (Some c)
    then have c: "c < NBUF" "blk_of s n c" using sx by (auto simp: find_Some_iff blk_of_def set_conv_nth)
    have "lk_locked (b_lock (bcache s c)) = 0" "b = c"
      using r Some by (auto simp: defs split: if_splits)
    moreover from this have "s' = upd_buf b (\<lambda>x. x\<lparr>b_refcnt := 1, b_lock := \<lparr>lk_locked = 1, lk_pid = mypid s\<rparr>\<rparr>) s"
      using r Some bok [OF c(1)] by (auto simp: defs buf_ok_def upd_buf_def split: if_splits)
    ultimately show thesis using hit c by blast
  next
    case None
    then have nohit: "\<not> blk_of s n c" if "c < NBUF" for c
      using that sx by (auto simp: find_None_iff blk_of_def)
    obtain c where f: "?free = Some c" using r None by (cases ?free) (auto simp: defs)
    then have c: "c < NBUF" "b_refcnt (bcache s c) = 0" "\<not> b_dirty (bcache s c)"
      using sx by (auto simp: find_Some_iff b_dirty_def)
         (metis lessThan_iff length_rev nth_mem set_rev)
    have l: "lk_locked (b_lock (bcache s c)) = 0"
      using bok [OF c(1)] c(2) by (simp add: buf_ok_def split: if_splits)
    then have "b = c" "s' = upd_buf b (\<lambda>x. x\<lparr>b_dev := 1, b_blockno := n, b_flags := 0, b_refcnt := 1,
         b_lock := \<lparr>lk_locked = 1, lk_pid = mypid s\<rparr>\<rparr>) s"
      using r None f by (auto simp: defs upd_buf_def)
    then show thesis using miss c l nohit by blast
  qed
qed

section \<open>Specifications of the operations\<close>

definition held :: "'a biost_scheme \<Rightarrow> nat \<Rightarrow> bool" where
  "held s b \<longleftrightarrow> b < NBUF \<and> b_dev (bcache s b) = 1 \<and> b_valid (bcache s b) \<and>
     b_lock (bcache s b) = \<lparr>lk_locked = 1, lk_pid = mypid s\<rparr>"

lemma lru_ok_upd_buf:
  assumes "lru_ok (bcache s) xs" "b_next (f (bcache s b)) = b_next (bcache s b)"
    "b_prev (f (bcache s b)) = b_prev (bcache s b)"
  shows "lru_ok (bcache (upd_buf b f s)) xs"
proof -
  have "nxs (upd_buf b f s) = nxs s" "pvs (upd_buf b f s) = pvs s"
    using assms(2,3) by (auto simp: nxs_def pvs_def fun_eq_iff)
  then show ?thesis using assms(1) by (simp add: lru_ok_alt del: bcache_upd_buf)
qed

lemma bc_ok_upd_buf:
  assumes "bc_ok s" "b < NBUF" "b_next (f (bcache s b)) = b_next (bcache s b)"
    "b_prev (f (bcache s b)) = b_prev (bcache s b)" "buf_ok s (f (bcache s b))"
    "\<And>c. c < NBUF \<Longrightarrow> c \<noteq> b \<Longrightarrow> b_dev (f (bcache s b)) = 1 \<Longrightarrow> \<not> blk_of s (b_blockno (f (bcache s b))) c"
  shows "bc_ok (upd_buf b f s)"
  unfolding bc_ok_def
proof (intro conjI allI impI)
  show "\<exists>xs. lru_ok (bcache (upd_buf b f s)) xs"
    using assms(1,3,4) lru_ok_upd_buf unfolding bc_ok_def by blast
  show "buf_ok (upd_buf b f s) (bcache (upd_buf b f s) c)" if "c < NBUF" for c
    using assms(1,5) that by (auto simp: bc_ok_def buf_ok_def)
  show "c = d" if "c < NBUF" "d < NBUF" "blk_of (upd_buf b f s) m c" "blk_of (upd_buf b f s) m d" for c d m
    using assms(1,6) that unfolding bc_ok_def by (auto simp: blk_of_def split: if_splits)
qed

definition read_buf :: "'a biost_scheme \<Rightarrow> u32 \<Rightarrow> nat \<Rightarrow> buf \<Rightarrow> bool" where
  "read_buf s n b y \<longleftrightarrow> b_dev y = 1 \<and> b_blockno y = n \<and> b_valid y \<and>
     b_lock y = \<lparr>lk_locked = 1, lk_pid = mypid s\<rparr> \<and> b_refcnt y = 1 \<and>
     b_next y = b_next (bcache s b) \<and> b_prev y = b_prev (bcache s b) \<and>
     (b_dirty y \<longleftrightarrow> blk_of s n b \<and> b_dirty (bcache s b)) \<and>
     b_data y = (if blk_of s n b \<and> b_valid (bcache s b) then b_data (bcache s b) else memdisk s (unat n))"

lemma iderw_read:
  assumes "iderw b s = Inr s'" "\<not> b_valid (bcache s b)" "\<not> b_dirty (bcache s b)"
  shows "s' = upd_buf b (\<lambda>x. x\<lparr>b_data := memdisk s (unat (b_blockno x)), b_flags := b_flags x OR B_VALID\<rparr>) s"
    "b_blockno (bcache s b) < disksize s"
  using assms by (auto simp: iderw_def Let_def b_dirty_def upd_buf_def split: if_splits)

lemma bread_cases:
  assumes ok: "bc_ok s" and r: "bread 1 n s = Inr (b, s')"
  shows "b < NBUF" "lk_locked (b_lock (bcache s b)) = 0" "n < disksize s"
    "\<And>c. c < NBUF \<Longrightarrow> c \<noteq> b \<Longrightarrow> \<not> blk_of s n c" "\<not> blk_of s n b \<Longrightarrow> \<not> b_dirty (bcache s b)"
    "\<exists>y. s' = upd_buf b (\<lambda>_. y) s \<and> read_buf s n b y"
proof -
  obtain s1 where g: "bget 1 n s = Inr (b, s1)"
    and rd: "if b_valid (bcache s1 b) then s' = s1 else iderw b s1 = Inr s'"
    using r by (auto simp: bread_def b_valid_def split: if_splits elim!: bindr_InrE)
  have bok: "buf_ok s (bcache s c)" if "c < NBUF" for c using ok that by (auto simp: bc_ok_def)
  let ?lk = "\<lparr>lk_locked = 1, lk_pid = mypid s\<rparr>"
  have "b < NBUF \<and> lk_locked (b_lock (bcache s b)) = 0 \<and> n < disksize s \<and>
    (\<forall>c < NBUF. c \<noteq> b \<longrightarrow> \<not> blk_of s n c) \<and> (\<not> blk_of s n b \<longrightarrow> \<not> b_dirty (bcache s b)) \<and>
    (\<exists>y. s' = upd_buf b (\<lambda>_. y) s \<and> read_buf s n b y)"
    using ok g
  proof (cases rule: bget_cases)
    case hit
    let ?x = "(bcache s b)\<lparr>b_refcnt := 1, b_lock := ?lk\<rparr>"
    have s1: "s1 = upd_buf b (\<lambda>_. ?x) s" using hit by (simp add: upd_buf_def)
    have u: "\<forall>c < NBUF. c \<noteq> b \<longrightarrow> \<not> blk_of s n c" using ok hit by (auto simp: bc_ok_def)
    show ?thesis
    proof (cases "b_valid (bcache s b)")
      case True
      have "s' = upd_buf b (\<lambda>_. ?x) s" using rd s1 True by (simp add: b_valid_def)
      moreover have "read_buf s n b ?x"
        using hit True by (simp add: read_buf_def blk_of_def b_valid_def b_dirty_def)
      ultimately show ?thesis using hit u bok [OF hit(1)] True by (auto simp: buf_ok_def blk_of_def)
    next
      case False
      then have nd: "\<not> b_dirty (bcache s b)" using bok [OF hit(1)] by (auto simp: buf_ok_def)
      let ?y = "?x\<lparr>b_data := memdisk s (unat n), b_flags := b_flags ?x OR B_VALID\<rparr>"
      have "iderw b s1 = Inr s'" using rd s1 False by (simp add: b_valid_def)
      moreover have "\<not> b_valid (bcache s1 b)" "\<not> b_dirty (bcache s1 b)" "b_blockno (bcache s1 b) = n"
        using s1 False nd hit by (simp_all add: b_valid_def b_dirty_def blk_of_def)
      ultimately have "s' = upd_buf b (\<lambda>_. ?y) s" "n < disksize s"
        using iderw_read [of b s1 s'] s1 by (simp_all add: upd_buf_def)
      moreover have "read_buf s n b ?y"
        using hit False nd by (simp add: read_buf_def blk_of_def b_valid_bit b_dirty_bit bit_simps)
      ultimately show ?thesis using hit u by blast
    qed
  next
    case miss
    let ?x = "(bcache s b)\<lparr>b_dev := 1, b_blockno := n, b_flags := 0, b_refcnt := 1, b_lock := ?lk\<rparr>"
    have s1: "s1 = upd_buf b (\<lambda>_. ?x) s" using miss by (simp add: upd_buf_def)
    let ?y = "?x\<lparr>b_data := memdisk s (unat n), b_flags := b_flags ?x OR B_VALID\<rparr>"
    have "\<not> b_valid (bcache s1 b)" "\<not> b_dirty (bcache s1 b)"
      using s1 by (simp_all add: b_valid_def b_dirty_def)
    moreover from this have "iderw b s1 = Inr s'" using rd by simp
    ultimately have "s' = upd_buf b (\<lambda>_. ?y) s" "n < disksize s"
      using iderw_read [of b s1 s'] s1 by (simp_all add: upd_buf_def)
    moreover have "read_buf s n b ?y"
      using miss by (simp add: read_buf_def b_valid_bit b_dirty_bit bit_simps)
    ultimately show ?thesis using miss by blast
  qed
  then show "b < NBUF" "lk_locked (b_lock (bcache s b)) = 0" "n < disksize s"
    "\<And>c. c < NBUF \<Longrightarrow> c \<noteq> b \<Longrightarrow> \<not> blk_of s n c" "\<not> blk_of s n b \<Longrightarrow> \<not> b_dirty (bcache s b)"
    "\<exists>y. s' = upd_buf b (\<lambda>_. y) s \<and> read_buf s n b y" by blast+
qed

lemma bread_spec:
  assumes ok: "bc_ok s" and r: "bread 1 n s = Inr (b, s')"
  shows "bc_ok s'" "held s' b" "b_blockno (bcache s' b) = n" "b_data (bcache s' b) = diskview s n"
    "diskview s' = diskview s" "\<exists>y. s' = upd_buf b (\<lambda>_. y) s" "lk_locked (b_lock (bcache s b)) = 0"
    "b_dirty (bcache s' b) \<longleftrightarrow> (\<exists>c < NBUF. blk_of s n c \<and> b_dirty (bcache s c))"
    "b_dirty (bcache s b) \<Longrightarrow> blk_of s n b"
    "\<not> b_dirty (bcache s' b) \<Longrightarrow> diskview s n = memdisk s (unat n)" "n < disksize s"
proof -
  note bc = bread_cases [OF ok r]
  obtain y where s': "s' = upd_buf b (\<lambda>_. y) s" and y: "read_buf s n b y" using bc(6) by blast
  have bok: "buf_ok s (bcache s b)" using ok bc(1) by (auto simp: bc_ok_def)
  show "bc_ok s'"
    unfolding s' using bc y bok
    by (intro bc_ok_upd_buf [OF ok bc(1)]) (auto simp: read_buf_def buf_ok_def)
  show "held s' b" "b_blockno (bcache s' b) = n" using bc(1) y s' by (auto simp: held_def read_buf_def)
  have un: "diskview s n = memdisk s (unat n)" if "\<not> (blk_of s n b \<and> b_valid (bcache s b))"
    using bc(4) that by (intro diskview_uncached) auto
  show data: "b_data (bcache s' b) = diskview s n"
  proof (cases "blk_of s n b \<and> b_valid (bcache s b)")
    case True
    then show ?thesis using diskview_cached [OF ok bc(1), of n] y s' by (simp add: read_buf_def)
  next
    case False
    then show ?thesis using un y s' by (auto simp: read_buf_def)
  qed
  show "diskview s' = diskview s"
  proof (rule diskview_eqI)
    fix c assume c: "c < NBUF" "b_valid (bcache s' c)" "b_dev (bcache s' c) = 1"
    show "b_data (bcache s' c) = diskview s (b_blockno (bcache s' c))"
    proof (cases "c = b")
      case True
      then show ?thesis using data s' y by (simp add: read_buf_def)
    next
      case False
      then show ?thesis using diskview_cached [OF ok c(1)] c s' by (simp add: blk_of_def)
    qed
  next
    fix m assume m: "\<And>c. c < NBUF \<Longrightarrow> blk_of s' m c \<Longrightarrow> \<not> b_valid (bcache s' c)"
    have "m \<noteq> n" using m [OF bc(1)] s' y by (auto simp: blk_of_def read_buf_def)
    show "memdisk s' (unat m) = diskview s m"
    proof (cases "blk_of s m b \<and> b_valid (bcache s b)")
      case True
      then have "\<not> blk_of s n b" using \<open>m \<noteq> n\<close> by (auto simp: blk_of_def)
      then have "b_data (bcache s b) = memdisk s (unat m)"
        using bok bc(2,5) True by (auto simp: buf_ok_def blk_of_def)
      then show ?thesis using diskview_cached [OF ok bc(1), of m] True s' by simp
    next
      case False
      have "\<not> b_valid (bcache s c)" if "c < NBUF" "blk_of s m c" for c
        using m [OF that(1)] that False s' by (cases "c = b") (auto simp: blk_of_def)
      then show ?thesis using s' by (simp add: diskview_uncached)
    qed
  qed
  show "\<exists>y. s' = upd_buf b (\<lambda>_. y) s" using s' by blast
  show "lk_locked (b_lock (bcache s b)) = 0" "n < disksize s" by (fact bc)+
  show "b_dirty (bcache s' b) \<longleftrightarrow> (\<exists>c < NBUF. blk_of s n c \<and> b_dirty (bcache s c))"
    using s' y bc by (auto simp: read_buf_def)
  show "blk_of s n b" if "b_dirty (bcache s b)" using bc(5) that by blast
  show "diskview s n = memdisk s (unat n)" if "\<not> b_dirty (bcache s' b)"
    using that data s' y bok bc(2) un by (auto simp: read_buf_def buf_ok_def blk_of_def split: if_splits)
qed

text \<open>
  \<open>spare\<close>: the buffers \<^verbatim>\<open>bget\<close> may recycle. With one of them, or with the block already
  cached, \<^verbatim>\<open>bread\<close> succeeds; with none of them it panics.
\<close>

definition spare :: "'a biost_scheme \<Rightarrow> nat set" where
  "spare s = {b. b < NBUF \<and> lk_locked (b_lock (bcache s b)) = 0 \<and> \<not> b_dirty (bcache s b)}"

lemma bc_ok_refcnt:
  "bc_ok s \<Longrightarrow> b < NBUF \<Longrightarrow> b_refcnt (bcache s b) = 0 \<longleftrightarrow> lk_locked (b_lock (bcache s b)) = 0"
  by (simp add: bc_ok_def buf_ok_def)

lemma lru_find_free:
  assumes "bc_ok s" "lru_ok (bcache s) xs"
  shows "find (\<lambda>b. b_refcnt (bcache s b) = 0 \<and> b_flags (bcache s b) AND B_DIRTY = 0) (rev xs) = None
    \<longleftrightarrow> spare s = {}"
  using assms(2) bc_ok_refcnt [OF assms(1)]
  by (auto simp: find_None_iff spare_def lru_ok_def b_dirty_def)

lemma lru_find_hit:
  assumes "lru_ok (bcache s) xs"
  shows "find (\<lambda>b. b_dev (bcache s b) = 1 \<and> b_blockno (bcache s b) = n) xs = None
    \<longleftrightarrow> (\<forall>c < NBUF. \<not> blk_of s n c)"
  using assms by (auto simp: find_None_iff blk_of_def lru_ok_def)

lemma bget_total:
  assumes ok: "bc_ok s" and un: "\<And>c. c < NBUF \<Longrightarrow> blk_of s n c \<Longrightarrow> lk_locked (b_lock (bcache s c)) = 0"
    and av: "(\<exists>c < NBUF. blk_of s n c) \<or> spare s \<noteq> {}"
  shows "\<exists>b s'. bget 1 n s = Inr (b, s')"
proof -
  obtain xs where xs: "lru_ok (bcache s) xs" using ok by (auto simp: bc_ok_def)
  then have sx: "set xs = {..<NBUF}" by (simp add: lru_ok_def)
  let ?hit = "find (\<lambda>b. b_dev (bcache s b) = 1 \<and> b_blockno (bcache s b) = n) xs"
  let ?free = "find (\<lambda>b. b_refcnt (bcache s b) = 0 \<and> b_flags (bcache s b) AND B_DIRTY = 0) (rev xs)"
  note defs = bget_def lru_bget_find [OF xs] lru_bget_recycle [OF xs] lock_buf_def
  show ?thesis
  proof (cases ?hit)
    case (Some c)
    then have "c < NBUF" "blk_of s n c" using sx by (auto simp: find_Some_iff blk_of_def set_conv_nth)
    then have "lk_locked (b_lock (bcache s c)) = 0" by (rule un)
    then show ?thesis using Some by (simp add: defs acquiresleep_def)
  next
    case None
    then have "spare s \<noteq> {}" using av lru_find_hit [OF xs] by blast
    then obtain c where f: "?free = Some c" using lru_find_free [OF ok xs] by fastforce
    then have "c \<in> set (rev xs)" "b_refcnt (bcache s c) = 0"
      by (metis (mono_tags, lifting) find_Some_iff nth_mem)+
    then have "lk_locked (b_lock (bcache s c)) = 0"
      using ok sx by (auto simp: bc_ok_def buf_ok_def split: if_splits)
    then show ?thesis using None f by (simp add: defs acquiresleep_def)
  qed
qed

lemma bget_panics:
  assumes ok: "bc_ok s" and "\<And>c. c < NBUF \<Longrightarrow> \<not> blk_of s n c" "spare s = {}"
  shows "bget 1 n s = Inl (Panic ''bget: no buffers'')"
proof -
  obtain xs where xs: "lru_ok (bcache s) xs" using ok by (auto simp: bc_ok_def)
  show ?thesis
    using lru_find_hit [OF xs, of n] lru_find_free [OF ok xs] assms(2,3)
    by (simp add: bget_def lru_bget_find [OF xs] lru_bget_recycle [OF xs])
qed

lemma bread_total:
  assumes ok: "bc_ok s" and un: "\<And>c. c < NBUF \<Longrightarrow> blk_of s n c \<Longrightarrow> lk_locked (b_lock (bcache s c)) = 0"
    and av: "(\<exists>c < NBUF. blk_of s n c) \<or> spare s \<noteq> {}" and n: "n < disksize s"
  shows "\<exists>b s'. bread 1 n s = Inr (b, s')"
proof -
  obtain b s1 where g: "bget 1 n s = Inr (b, s1)" using bget_total [OF ok un av] by blast
  have "b_dev (bcache s1 b) = 1 \<and> b_blockno (bcache s1 b) = n \<and> disksize s1 = disksize s \<and>
      holdingsleep (mypid s1) (b_lock (bcache s1 b))"
    using ok g by (cases rule: bget_cases) (auto simp: blk_of_def holdingsleep_def)
  then have "\<exists>s'. iderw b s1 = Inr s'" if "\<not> b_valid (bcache s1 b)"
    using n that by (simp add: iderw_def Let_def flags_clean_valid not_le)
  then show ?thesis using g by (auto simp: bread_def b_valid_def)
qed

lemma held_locked: "held s b \<Longrightarrow> lk_locked (b_lock (bcache s b)) \<noteq> 0"
  by (simp add: held_def)

lemma held_holding: "held s b \<Longrightarrow> holdingsleep (mypid s) (b_lock (bcache s b))"
  by (simp add: held_def holdingsleep_def)

lemma held_view: "bc_ok s \<Longrightarrow> held s b \<Longrightarrow> diskview s (b_blockno (bcache s b)) = b_data (bcache s b)"
  by (rule diskview_cached) (auto simp: held_def blk_of_def)

text \<open>A change to the contents of a locked buffer, as the callers of \<^verbatim>\<open>bread\<close> make it.\<close>

definition set_data :: "nat \<Rightarrow> block \<Rightarrow> 'a biost_scheme \<Rightarrow> 'a biost_scheme" where
  "set_data b d s = upd_buf b (\<lambda>x. x\<lparr>b_data := d\<rparr>) s"

lemma set_data_spec:
  assumes "bc_ok s" "held s b"
  shows "bc_ok (set_data b d s)" "held (set_data b d s) b"
    "diskview (set_data b d s) = (diskview s)(b_blockno (bcache s b) := d)"
proof -
  have b: "b < NBUF" "blk_of s (b_blockno (bcache s b)) b" "b_valid (bcache s b)"
    using assms(2) by (auto simp: held_def blk_of_def)
  show ok: "bc_ok (set_data b d s)"
    unfolding set_data_def using assms b
    by (intro bc_ok_upd_buf) (auto simp: bc_ok_def buf_ok_def held_def b_valid_def b_dirty_def)
  show "held (set_data b d s) b"
    using assms(2) by (simp add: held_def set_data_def b_valid_def)
  show "diskview (set_data b d s) = (diskview s)(b_blockno (bcache s b) := d)"
  proof (rule diskview_eqI)
    fix c assume c: "c < NBUF" "b_valid (bcache (set_data b d s) c)" "b_dev (bcache (set_data b d s) c) = 1"
    show "b_data (bcache (set_data b d s) c) =
        ((diskview s)(b_blockno (bcache s b) := d)) (b_blockno (bcache (set_data b d s) c))"
    proof (cases "c = b")
      case False
      have "blk_of s (b_blockno (bcache s c)) c" using c False by (simp add: set_data_def blk_of_def)
      moreover from this have "b_blockno (bcache s c) \<noteq> b_blockno (bcache s b)"
        using assms(1) b(1,2) c(1) False unfolding bc_ok_def blk_of_def by metis
      ultimately show ?thesis
        using diskview_cached [OF assms(1) c(1)] c False by (simp add: set_data_def)
    qed (simp add: set_data_def)
  next
    fix m assume m: "\<And>c. c < NBUF \<Longrightarrow> blk_of (set_data b d s) m c \<Longrightarrow> \<not> b_valid (bcache (set_data b d s) c)"
    have *: "\<not> b_valid (bcache s c)" if "c < NBUF" "blk_of s m c" for c
      using m [of c] that by (cases "c = b") (simp_all add: set_data_def blk_of_def b_valid_def)
    then have "m \<noteq> b_blockno (bcache s b)" using b by auto
    then show "memdisk (set_data b d s) (unat m) = ((diskview s)(b_blockno (bcache s b) := d)) m"
      using * by (simp add: diskview_uncached set_data_def)
  qed
qed

lemma bwrite_eq:
  assumes "bc_ok s" "held s b"
  shows "bwrite b s = Inr (upd_buf b (\<lambda>x. x\<lparr>b_flags := ((b_flags x OR B_DIRTY) AND NOT B_DIRTY) OR B_VALID\<rparr>)
    (s\<lparr>memdisk := (memdisk s)(unat (b_blockno (bcache s b)) := b_data (bcache s b)),
       dwrites := dwrites s @ [(unat (b_blockno (bcache s b)), b_data (bcache s b))]\<rparr>))"
proof -
  have "buf_ok s (bcache s b)" using assms by (auto simp: bc_ok_def held_def)
  then have "b_blockno (bcache s b) < disksize s" using assms(2) by (auto simp: buf_ok_def held_def)
  moreover have "\<not> (b_flags (bcache s b) OR B_DIRTY) AND (B_VALID OR B_DIRTY) = B_VALID"
    using flags_clean_valid [of "(bcache s b)\<lparr>b_flags := b_flags (bcache s b) OR B_DIRTY\<rparr>"] by simp
  moreover have "(b_flags (bcache s b) OR B_DIRTY) AND B_DIRTY \<noteq> 0"
    using flags_upd(3) [of "b_flags (bcache s b)" "bcache s b"] by (simp add: b_dirty_def)
  ultimately show ?thesis
    using assms(2) held_holding [OF assms(2)]
    by (simp add: bwrite_def iderw_def Let_def held_def upd_buf_def not_le)
qed

lemma bwrite_spec:
  assumes "bc_ok s" "held s b"
  obtains s' where "bwrite b s = Inr s'" "bc_ok s'" "held s' b" "diskview s' = diskview s"
    "memdisk s' = (memdisk s)(unat (b_blockno (bcache s b)) := b_data (bcache s b))"
    "dwrites s' = dwrites s @ [(unat (b_blockno (bcache s b)), b_data (bcache s b))]"
    "\<not> b_dirty (bcache s' b)" "b_blockno (bcache s' b) = b_blockno (bcache s b)"
    "b_data (bcache s' b) = b_data (bcache s b)" "\<And>c. c \<noteq> b \<Longrightarrow> bcache s' c = bcache s c"
    "mypid s' = mypid s" "disksize s' = disksize s" "biost.more s' = biost.more s"
proof -
  let ?n = "b_blockno (bcache s b)" and ?d = "b_data (bcache s b)"
  let ?f = "\<lambda>x. x\<lparr>b_flags := ((b_flags x OR B_DIRTY) AND NOT B_DIRTY) OR B_VALID\<rparr>"
  let ?s1 = "s\<lparr>memdisk := (memdisk s)(unat ?n := ?d), dwrites := dwrites s @ [(unat ?n, ?d)]\<rparr>"
  let ?s' = "upd_buf b ?f ?s1"
  have b: "b < NBUF" "blk_of s ?n b" "b_valid (bcache s b)" using assms(2) by (auto simp: held_def blk_of_def)
  have uq: "c = b" if "c < NBUF" "blk_of s ?n c" for c
    using assms(1) b that by (auto simp: bc_ok_def)
  have bok: "buf_ok s (bcache s c)" if "c < NBUF" for c using assms(1) that by (auto simp: bc_ok_def)
  have ok1: "bc_ok ?s1"
  proof -
    have "buf_ok ?s1 (bcache s c)" if "c < NBUF" for c
    proof (cases "c = b")
      case False
      have "b_blockno (bcache s c) \<noteq> ?n" if "b_valid (bcache s c)"
        using uq [OF \<open>c < NBUF\<close>] False bok [OF \<open>c < NBUF\<close>] that by (auto simp: buf_ok_def blk_of_def)
      then show ?thesis using bok [OF that] by (auto simp: buf_ok_def)
    qed (use bok [OF that] assms(2) in \<open>auto simp: buf_ok_def held_def\<close>)
    then show ?thesis using assms(1) by (simp add: bc_ok_def blk_of_def)
  qed
  have fl: "b_valid (?f (bcache s b))" "\<not> b_dirty (?f (bcache s b))"
    by (simp_all add: b_valid_bit b_dirty_bit bit_simps)
  have bk: "bcache ?s' = (bcache s)(b := ?f (bcache s b))" "memdisk ?s' = (memdisk s)(unat ?n := ?d)"
    by simp_all
  show thesis
  proof
    show "bwrite b s = Inr ?s'" by (rule bwrite_eq [OF assms])
    show "bc_ok ?s'"
      by (rule bc_ok_upd_buf [OF ok1 b(1)])
         (use fl bok [OF b(1)] assms(2) uq in \<open>auto simp: buf_ok_def held_def blk_of_def\<close>)
    show "held ?s' b" using assms(2) fl by (simp add: held_def)
    show "diskview ?s' = diskview s"
    proof (rule diskview_eqI)
      show "b_data (bcache ?s' c) = diskview s (b_blockno (bcache ?s' c))"
        if "c < NBUF" "b_valid (bcache ?s' c)" "b_dev (bcache ?s' c) = 1" for c
        using that diskview_cached [OF assms(1), of c] b held_view [OF assms]
        by (cases "c = b") (auto simp: blk_of_def)
    next
      fix m assume m: "\<And>c. c < NBUF \<Longrightarrow> blk_of ?s' m c \<Longrightarrow> \<not> b_valid (bcache ?s' c)"
      have ne: "m \<noteq> ?n" using m [OF b(1)] fl b by (auto simp: blk_of_def)
      then have "\<not> b_valid (bcache s c)" if "c < NBUF" "blk_of s m c" for c
        using m [OF that(1)] that by (cases "c = b") (auto simp: blk_of_def)
      then show "memdisk ?s' (unat m) = diskview s m" using ne by (simp add: diskview_uncached)
    qed
  qed (use fl in auto)
qed

lemma bc_ok_brelse_front:
  assumes "bc_ok s" "b < NBUF"
  shows "bc_ok (brelse_front b s)" "diskview (brelse_front b s) = diskview s"
proof -
  note same = same_but_linksD [OF brelse_front_same [of s _ b]]
  have v: "b_valid (bcache (brelse_front b s) c) = b_valid (bcache s c)"
    "b_dirty (bcache (brelse_front b s) c) = b_dirty (bcache s c)" for c
    by (simp_all add: b_valid_def b_dirty_def same)
  have k: "blk_of (brelse_front b s) m c = blk_of s m c" for m c by (simp add: blk_of_def same)
  have "buf_ok (brelse_front b s) (bcache (brelse_front b s) c) = buf_ok s (bcache s c)" for c
    by (simp add: buf_ok_def same v)
  then show "bc_ok (brelse_front b s)"
    using assms lru_ok_brelse_front [OF _ assms(2)] unfolding bc_ok_def k by blast
  show "diskview (brelse_front b s) = diskview s"
    by (rule diskview_cong) (simp_all add: same v)
qed

definition released :: "buf \<Rightarrow> buf" where
  "released x = x\<lparr>b_lock := releasesleep (b_lock x), b_refcnt := 0\<rparr>"

lemma released_sel [simp]:
  "b_flags (released x) = b_flags x" "b_dev (released x) = b_dev x"
  "b_blockno (released x) = b_blockno x" "b_data (released x) = b_data x"
  "b_valid (released x) = b_valid x" "b_dirty (released x) = b_dirty x"
  "lk_locked (b_lock (released x)) = 0"
  by (simp_all add: released_def b_valid_def b_dirty_def)

lemma brelse_spec:
  assumes "bc_ok s" "held s b"
    "b_dirty (bcache s b) \<or> b_data (bcache s b) = memdisk s (unat (b_blockno (bcache s b)))"
  obtains s' where "brelse b s = Inr s'" "bc_ok s'" "diskview s' = diskview s"
    "same_but_links (released (bcache s b)) (bcache s' b)"
    "\<And>c. c \<noteq> b \<Longrightarrow> same_but_links (bcache s c) (bcache s' c)"
    "mypid s' = mypid s" "memdisk s' = memdisk s" "disksize s' = disksize s" "dwrites s' = dwrites s"
    "biost.more s' = biost.more s"
proof -
  have b: "b < NBUF" "blk_of s (b_blockno (bcache s b)) b" "b_valid (bcache s b)"
    using assms(2) by (auto simp: held_def blk_of_def)
  have bok: "buf_ok s (bcache s b)" using assms(1) b(1) by (simp add: bc_ok_def)
  let ?s1 = "upd_buf b released s"
  have uq: "c = b" if "c < NBUF" "blk_of s (b_blockno (bcache s b)) c" for c
    using assms(1) b that by (auto simp: bc_ok_def)
  have ok1: "bc_ok ?s1"
    by (rule bc_ok_upd_buf [OF assms(1) b(1)])
       (use bok assms(3) uq in \<open>auto simp: buf_ok_def released_def b_valid_def b_dirty_def\<close>)
  have v1: "diskview ?s1 = diskview s"
    by (rule diskview_cong) (simp_all add: b_valid_def)
  have "b_refcnt (bcache s b) = 1" using bok assms(2) by (simp add: buf_ok_def held_def)
  then have r: "brelse b s = Inr (brelse_front b ?s1)"
    using held_holding [OF assms(2)]
    by (simp add: brelse_def Let_def upd_buf_def released_def)
  show thesis
  proof
    show "brelse b s = Inr (brelse_front b ?s1)" by (rule r)
    show "bc_ok (brelse_front b ?s1)" "diskview (brelse_front b ?s1) = diskview s"
      using bc_ok_brelse_front [OF ok1 b(1)] v1 by simp_all
    show "same_but_links (released (bcache s b)) (bcache (brelse_front b ?s1) b)"
      using brelse_front_same [of ?s1 b b] by simp
    show "same_but_links (bcache s c) (bcache (brelse_front b ?s1) c)" if "c \<noteq> b" for c
      using brelse_front_same [of ?s1 c b] that by simp
  qed simp_all
qed

text \<open>\<^verbatim>\<open>b->flags |= B_DIRTY\<close> of \<^verbatim>\<open>log_write\<close>: the buffer stays in the cache until it is written.\<close>

definition pin_buf :: "nat \<Rightarrow> 'a biost_scheme \<Rightarrow> 'a biost_scheme" where
  "pin_buf b s = upd_buf b (\<lambda>x. x\<lparr>b_flags := b_flags x OR B_DIRTY\<rparr>) s"

lemma pin_buf_spec:
  assumes "bc_ok s" "held s b"
  shows "bc_ok (pin_buf b s)" "held (pin_buf b s) b" "diskview (pin_buf b s) = diskview s"
    "b_dirty (bcache (pin_buf b s) b)"
proof -
  have b: "b < NBUF" "blk_of s (b_blockno (bcache s b)) b" "b_valid (bcache s b)"
    using assms(2) by (auto simp: held_def blk_of_def)
  then have bok: "buf_ok s (bcache s b)" using assms(1) by (simp add: bc_ok_def)
  have uq: "c = b" if "c < NBUF" "blk_of s (b_blockno (bcache s b)) c" for c
    using assms(1) b that by (auto simp: bc_ok_def)
  show "bc_ok (pin_buf b s)"
    unfolding pin_buf_def
    by (rule bc_ok_upd_buf [OF assms(1) b(1)]) (use bok b uq in \<open>auto simp: buf_ok_def\<close>)
  show "held (pin_buf b s) b" "b_dirty (bcache (pin_buf b s) b)"
    using assms(2) by (auto simp: held_def pin_buf_def)
  show "diskview (pin_buf b s) = diskview s"
    by (rule diskview_cong) (auto simp: pin_buf_def)
qed

section \<open>Properties\<close>

text \<open>
  \<open>cache_run s v\<close>: the cache \<open>s\<close> after some sequence of operations by one process after
  another, \<open>v\<close> the contents of the blocks that this sequence defines: the disk at the start,
  and for each change of a locked buffer the new contents of its block. A changed buffer is
  released only after it has been written or pinned.
\<close>

inductive cache_run :: "biost \<Rightarrow> (u32 \<Rightarrow> block) \<Rightarrow> bool" where
  start: "(\<And>b. bcache s b = x\<lparr>b_flags := 0, b_dev := 0, b_refcnt := 0\<rparr>) \<Longrightarrow>
    cache_run (binit s) (\<lambda>n. memdisk s (unat n))"
| sched: "cache_run s v \<Longrightarrow> (\<And>b. b < NBUF \<Longrightarrow> lk_locked (b_lock (bcache s b)) = 0) \<Longrightarrow>
    cache_run (s\<lparr>mypid := pid\<rparr>) v"
| read: "cache_run s v \<Longrightarrow> bread 1 n s = Inr (b, s') \<Longrightarrow> cache_run s' v"
| change: "cache_run s v \<Longrightarrow> held s b \<Longrightarrow>
    cache_run (set_data b d s) (v(b_blockno (bcache s b) := d))"
| pin: "cache_run s v \<Longrightarrow> held s b \<Longrightarrow> cache_run (pin_buf b s) v"
| writes: "cache_run s v \<Longrightarrow> held s b \<Longrightarrow> bwrite b s = Inr s' \<Longrightarrow> cache_run s' v"
| release: "cache_run s v \<Longrightarrow> held s b \<Longrightarrow>
    b_dirty (bcache s b) \<or> b_data (bcache s b) = memdisk s (unat (b_blockno (bcache s b))) \<Longrightarrow>
    brelse b s = Inr s' \<Longrightarrow> cache_run s' v"

lemma binit_same:
  fixes s :: "'a biost_scheme"
  assumes "\<And>b. bcache s b = x\<lparr>b_flags := 0, b_dev := 0, b_refcnt := 0\<rparr>" "c < NBUF"
  shows "b_flags (bcache (binit s) c) = 0" "b_dev (bcache (binit s) c) = 0"
    "b_refcnt (bcache (binit s) c) = 0" "b_lock (bcache (binit s) c) = initsleeplock"
    "memdisk (binit s) = memdisk s" "mypid (binit s) = mypid s"
proof -
  define P where "P k s' \<longleftrightarrow> (\<forall>c < NBUF. b_flags (bcache s' c) = 0 \<and> b_dev (bcache s' c) = 0 \<and>
      b_refcnt (bcache s' c) = 0 \<and> (c < k \<longrightarrow> b_lock (bcache s' c) = initsleeplock)) \<and>
      memdisk s' = memdisk s \<and> mypid s' = mypid s" for k and s' :: "'a biost_scheme"
  have step: "P (Suc k) (binit_insert k s')" if "P k s'" for k s'
    using that by (auto simp: P_def binit_insert_def Let_def less_Suc_eq)
  have "P k (fold binit_insert [0..<k] s')" if "P 0 s'" for k s'
    using that by (induction k) (auto intro: step)
  moreover have "P 0 (upd_buf NBUF (\<lambda>x. x\<lparr>b_next := NBUF\<rparr>) (upd_buf NBUF (\<lambda>x. x\<lparr>b_prev := NBUF\<rparr>) s))"
    using assms(1) by (simp add: P_def)
  ultimately have "P NBUF (binit s)" unfolding binit_def Let_def .
  then show "b_flags (bcache (binit s) c) = 0" "b_dev (bcache (binit s) c) = 0"
    "b_refcnt (bcache (binit s) c) = 0" "b_lock (bcache (binit s) c) = initsleeplock"
    "memdisk (binit s) = memdisk s" "mypid (binit s) = mypid s"
    using assms(2) by (auto simp: P_def)
qed

lemma binit_ok:
  assumes "\<And>b. bcache s b = x\<lparr>b_flags := 0, b_dev := 0, b_refcnt := 0\<rparr>"
  shows "bc_ok (binit s)" "diskview (binit s) = (\<lambda>n. memdisk s (unat n))"
proof -
  note b = binit_same [OF assms]
  have nv: "\<not> b_valid (bcache (binit s) c)" "\<not> b_dirty (bcache (binit s) c)" if "c < NBUF" for c
    using b [OF that] by (simp_all add: b_valid_def b_dirty_def)
  have "buf_ok (binit s) (bcache (binit s) c)" if "c < NBUF" for c
    using nv [OF that] b [OF that] by (simp add: buf_ok_def initsleeplock_def)
  moreover have "\<not> blk_of (binit s) n c" if "c < NBUF" for c n
    using b(2) [OF that] by (simp add: blk_of_def)
  ultimately show "bc_ok (binit s)" using binit_lru unfolding bc_ok_def by blast
  have "memdisk (binit s) = memdisk s" using b(5) [of 0] by (simp add: NBUF_def MAXOPBLOCKS_def)
  then show "diskview (binit s) = (\<lambda>n. memdisk s (unat n))"
    using nv by (auto simp: diskview_uncached fun_eq_iff)
qed

lemma cache_run_view: "cache_run s v \<Longrightarrow> bc_ok s \<and> diskview s = v"
proof (induction rule: cache_run.induct)
  case (start s x)
  then show ?case using binit_ok [of s x] by simp
next
  case (sched s v pid)
  have "bc_ok (s\<lparr>mypid := pid\<rparr>) = bc_ok s" by (simp add: bc_ok_def buf_ok_def blk_of_def)
  moreover have "diskview (s\<lparr>mypid := pid\<rparr>) = diskview s" by (rule diskview_cong) simp_all
  ultimately show ?case using sched by simp
next
  case (read s v n b s')
  then show ?case using bread_spec by blast
next
  case (change s v b d)
  then show ?case using set_data_spec by blast
next
  case (pin s v b)
  then show ?case using pin_buf_spec by blast
next
  case (writes s v b s')
  then show ?case using bwrite_spec [of s b] by (metis sum.inject(2))
next
  case (release s v b s')
  then show ?case using brelse_spec [of s b] by (metis sum.inject(2))
qed

text \<open>
  C6: The buffer cache behaves as the disk it caches. Whatever reads, changes, writes and
  releases went before, \<^verbatim>\<open>bread\<close> of a block that nobody holds locked returns a locked
  buffer with the contents last given to the block, unless the block is not cached and all
  \<^verbatim>\<open>NBUF\<close> buffers are locked or pinned; in that case, and only then, it panics.
\<close>

theorem buffer_cache_refines_disk:
  assumes run: "cache_run s v" and n: "n < disksize s"
    and free: "\<And>b. b < NBUF \<Longrightarrow> blk_of s n b \<Longrightarrow> lk_locked (b_lock (bcache s b)) = 0"
  shows "if (\<forall>b < NBUF. \<not> blk_of s n b) \<and> spare s = {}
    then bread 1 n s = Inl (Panic ''bget: no buffers'')
    else \<exists>b s'. bread 1 n s = Inr (b, s') \<and> held s' b \<and> b_blockno (bcache s' b) = n \<and>
      b_data (bcache s' b) = v n \<and> cache_run s' v"
proof -
  have ok: "bc_ok s" and v: "diskview s = v" using cache_run_view [OF run] by auto
  show ?thesis
  proof (cases "(\<forall>b < NBUF. \<not> blk_of s n b) \<and> spare s = {}")
    case True
    then show ?thesis using bget_panics [OF ok, of n] by (simp add: bread_def)
  next
    case False
    then obtain b s' where r: "bread 1 n s = Inr (b, s')"
      using bread_total [OF ok free] n by blast
    then have "held s' b" "b_blockno (bcache s' b) = n" "b_data (bcache s' b) = v n"
      using bread_spec [OF ok r] v by auto
    moreover have "cache_run s' v" using run r by (rule cache_run.read)
    ultimately show ?thesis using r by (simp only: if_not_P [OF False]) blast
  qed
qed

text \<open>A disk of two blocks with an empty cache, for the witness.\<close>

definition boot_bio :: biost where
  "boot_bio = \<lparr>mypid = 1,
     bcache = (\<lambda>b. \<lparr>b_flags = 0, b_dev = 0, b_blockno = 0, b_lock = initsleeplock, b_refcnt = 0,
       b_prev = 0, b_next = 0, b_data = (\<lambda>_. 0)\<rparr>),
     memdisk = (\<lambda>n _. of_nat n), disksize = 2, dwrites = []\<rparr>"

lemma disksize_binit: "disksize (binit (s :: 'a biost_scheme)) = disksize s"
proof -
  have "disksize (fold binit_insert bs t) = disksize t" for bs and t :: "'a biost_scheme"
    by (induction bs arbitrary: t) (simp_all add: binit_insert_def Let_def)
  then show ?thesis by (simp add: binit_def Let_def)
qed

theorem buffer_cache_refines_disk_witness:
  "\<exists>s v. cache_run s v \<and> (\<exists>b s'. bread 1 1 s = Inr (b, s') \<and> b_data (bcache s' b) = (\<lambda>_. 1))"
proof -
  let ?s = "binit boot_bio" and ?x = "bcache boot_bio 0"
  have z: "bcache boot_bio b = ?x\<lparr>b_flags := 0, b_dev := 0, b_refcnt := 0\<rparr>" for b
    by (simp add: boot_bio_def)
  have run: "cache_run ?s (\<lambda>n. memdisk boot_bio (unat n))" using z by (rule cache_run.start)
  have b: "b_dev (bcache ?s c) = 0" "b_flags (bcache ?s c) = 0" "b_lock (bcache ?s c) = initsleeplock"
    if "c < NBUF" for c using binit_same [OF z that] by simp_all
  have "0 \<in> spare ?s"
    using b [of 0] by (simp add: spare_def NBUF_def MAXOPBLOCKS_def b_dirty_def initsleeplock_def)
  then have ne: "spare ?s \<noteq> {}" by blast
  have "\<exists>b s'. bread 1 1 ?s = Inr (b, s') \<and> b_data (bcache s' b) = memdisk boot_bio (unat 1)"
    using buffer_cache_refines_disk [OF run, of 1] b ne
    by (auto simp: disksize_binit boot_bio_def blk_of_def)
  moreover have "memdisk boot_bio (unat 1) = (\<lambda>_. 1)" by (simp add: boot_bio_def)
  ultimately show ?thesis using run by metis
qed

end
