(* ===== verification/Bio_Spec.thy ===== *)
theory Bio_Spec
  imports Bio
begin

text \<open>
  The buffer cache as its clients use it. \<open>cst s H\<close> says that the cache \<open>s\<close> is consistent and
  that the buffers locked by the running process are those of \<open>H\<close>, each with its block number.
  The rest of the abstract state is the view of the disk, the disk itself and the set of
  dirty blocks. Each operation of \<^verbatim>\<open>bio.c\<close> is specified on this state; the log and the file
  system are verified against these laws, without looking at lists or flags again.
\<close>

section \<open>Abstract state\<close>

definition locked_bufs :: "'a biost_scheme \<Rightarrow> nat set" where
  "locked_bufs s = {b. b < NBUF \<and> lk_locked (b_lock (bcache s b)) \<noteq> 0}"

definition dirty_blocks :: "'a biost_scheme \<Rightarrow> u32 set" where
  "dirty_blocks s = {n. \<exists>b < NBUF. blk_of s n b \<and> b_dirty (bcache s b)}"

definition cst :: "'a biost_scheme \<Rightarrow> (nat \<rightharpoonup> u32) \<Rightarrow> bool" where
  "cst s H \<longleftrightarrow> bc_ok s \<and> locked_bufs s = dom H \<and>
     (\<forall>b n. H b = Some n \<longrightarrow> held s b \<and> b_blockno (bcache s b) = n)"

text \<open>What an operation that only moves blocks between disk and cache leaves alone.\<close>

definition bio_same :: "'a biost_scheme \<Rightarrow> 'a biost_scheme \<Rightarrow> bool" where
  "bio_same s s' \<longleftrightarrow> diskview s' = diskview s \<and> memdisk s' = memdisk s \<and>
     dirty_blocks s' = dirty_blocks s \<and> mypid s' = mypid s \<and> disksize s' = disksize s \<and>
     dwrites s' = dwrites s \<and> biost.more s' = biost.more s"

lemma bio_same_refl [simp]: "bio_same s s"
  by (simp add: bio_same_def)

lemma bio_same_trans: "bio_same s s' \<Longrightarrow> bio_same s' s'' \<Longrightarrow> bio_same s s''"
  by (simp add: bio_same_def)

lemma cst_held: "cst s H \<Longrightarrow> H b = Some n \<Longrightarrow> held s b \<and> b_blockno (bcache s b) = n \<and> b < NBUF"
  by (auto simp: cst_def held_def)

lemma bc_uniq: "bc_ok s \<Longrightarrow> b < NBUF \<Longrightarrow> c < NBUF \<Longrightarrow> blk_of s n b \<Longrightarrow> blk_of s n c \<Longrightarrow> b = c"
  unfolding bc_ok_def by blast

lemma cst_blk: "cst s H \<Longrightarrow> H b = Some n \<Longrightarrow> blk_of s n b"
  by (auto simp: cst_def held_def blk_of_def)

lemma cst_inj:
  assumes "cst s H" "H b = Some n" "H c = Some n"
  shows "b = c"
  using assms(1) bc_uniq [of s b c n] cst_blk [OF assms(1,2)] cst_blk [OF assms(1,3)]
    cst_held [OF assms(1,2)] cst_held [OF assms(1,3)] by (simp add: cst_def)

lemma cst_view: "cst s H \<Longrightarrow> H b = Some n \<Longrightarrow> b_data (bcache s b) = diskview s n"
  using held_view unfolding cst_def by metis

lemma cst_dirty:
  assumes "cst s H" "H b = Some n"
  shows "b_dirty (bcache s b) \<longleftrightarrow> n \<in> dirty_blocks s"
proof -
  have b: "b < NBUF" "blk_of s n b" using assms cst_held cst_blk by blast+
  moreover have "c = b" if "c < NBUF" "blk_of s n c" for c
    using bc_uniq [of s c b n] assms b that by (simp add: cst_def)
  ultimately show ?thesis unfolding dirty_blocks_def by blast
qed

lemma cst_locked:
  assumes "cst s H" "c < NBUF" "lk_locked (b_lock (bcache s c)) \<noteq> 0"
  obtains m where "H c = Some m"
proof -
  have "c \<in> dom H" using assms unfolding cst_def locked_bufs_def by blast
  then show thesis using that by blast
qed

lemma cst_finite: "cst s H \<Longrightarrow> finite (dom H)"
proof -
  assume "cst s H"
  then have "dom H = locked_bufs s" by (simp add: cst_def)
  then show ?thesis by (simp add: locked_bufs_def)
qed

text \<open>A spare buffer exists as long as the locked and the dirty ones do not fill the cache.\<close>

lemma spare_exists:
  assumes "cst s H" "card (dom H) + card (dirty_blocks s) < NBUF"
  shows "spare s \<noteq> {}"
proof
  assume e: "spare s = {}"
  let ?D = "{b. b < NBUF \<and> b_dirty (bcache s b)}"
  have bok: "buf_ok s (bcache s b)" if "b < NBUF" for b using assms(1) that by (auto simp: cst_def bc_ok_def)
  have blk: "blk_of s (b_blockno (bcache s b)) b" if "b \<in> ?D" for b
    using bok [of b] that by (auto simp: buf_ok_def blk_of_def)
  have "inj_on (\<lambda>b. b_blockno (bcache s b)) ?D"
  proof (rule inj_onI)
    fix b c assume "b \<in> ?D" "c \<in> ?D" "b_blockno (bcache s b) = b_blockno (bcache s c)"
    then show "b = c" using blk [of b] blk [of c] bc_uniq [of s b c] assms(1) by (auto simp: cst_def)
  qed
  moreover have "(\<lambda>b. b_blockno (bcache s b)) ` ?D = dirty_blocks s"
    using blk by (auto simp: dirty_blocks_def blk_of_def image_def)
  ultimately have "card ?D = card (dirty_blocks s)" by (metis card_image)
  moreover have "{..<NBUF} \<subseteq> dom H \<union> ?D"
    using e assms(1) by (auto simp: spare_def cst_def locked_bufs_def)
  moreover have "finite (dom H \<union> ?D)" using cst_finite [OF assms(1)] by simp
  ultimately have "NBUF \<le> card (dom H) + card (dirty_blocks s)"
    using card_mono [of "dom H \<union> ?D" "{..<NBUF}"] card_Un_le [of "dom H" ?D] by simp
  then show False using assms(2) by simp
qed

section \<open>The operations\<close>

lemma locked_bufs_upd:
  "b < NBUF \<Longrightarrow> locked_bufs (upd_buf b f s) =
    (if lk_locked (b_lock (f (bcache s b))) \<noteq> 0 then insert b (locked_bufs s) else locked_bufs s - {b})"
  by (auto simp: locked_bufs_def)

lemma bread_law:
  assumes "cst s H" "bread 1 n s = Inr (b, s')"
  shows "b \<notin> dom H" "n \<notin> ran H" "cst s' (H(b \<mapsto> n))" "bio_same s s'" "b_data (bcache s' b) = diskview s n"
    "n \<notin> dirty_blocks s \<Longrightarrow> diskview s n = memdisk s (unat n)" "n < disksize s"
proof -
  have ok: "bc_ok s" using assms(1) by (simp add: cst_def)
  note sp = bread_spec [OF ok assms(2)]
  obtain y where s': "s' = upd_buf b (\<lambda>_. y) s" using sp(6) by blast
  have bn: "b < NBUF" using sp(2) by (simp add: held_def)
  show nb: "b \<notin> dom H" using assms(1) sp(7) by (auto simp: cst_def locked_bufs_def)
  have other: "bcache s' c = bcache s c" if "c \<noteq> b" for c using s' that by simp
  show "n \<notin> ran H"
  proof
    assume "n \<in> ran H"
    then obtain c where c: "H c = Some n" by (auto simp: ran_def)
    then have "c \<noteq> b" using nb by auto
    then have "blk_of s' n c" using cst_blk [OF assms(1) c] other by (simp add: blk_of_def)
    moreover have "blk_of s' n b" using sp(2,3) by (simp add: blk_of_def held_def)
    ultimately show False
      using bc_uniq [OF sp(1), of b c n] bn cst_held [OF assms(1) c] \<open>c \<noteq> b\<close> by blast
  qed
  have "lk_locked (b_lock y) \<noteq> 0" using sp(2) s' by (simp add: held_def)
  then have "locked_bufs s' = insert b (locked_bufs s)"
    using bn s' by (simp add: locked_bufs_upd)
  then show "cst s' (H(b \<mapsto> n))"
    using assms(1) sp(1-3) nb other s' by (auto simp: cst_def held_def)
  have "dirty_blocks s' = dirty_blocks s"
  proof (rule set_eqI)
    fix m
    have bm: "blk_of s' m b \<longleftrightarrow> m = n" using sp(2,3) by (auto simp: blk_of_def held_def)
    have o: "blk_of s' m c = blk_of s m c" if "c \<noteq> b" for c using other [OF that] by (simp add: blk_of_def)
    show "m \<in> dirty_blocks s' \<longleftrightarrow> m \<in> dirty_blocks s"
    proof (cases "m = n")
      case True
      have "m \<in> dirty_blocks s' \<longleftrightarrow> b_dirty (bcache s' b)"
        using bc_uniq [OF sp(1) bn] bm True bn by (auto simp: dirty_blocks_def)
      then show ?thesis using sp(8) True by (simp add: dirty_blocks_def)
    next
      case False
      then have "\<not> (blk_of s m b \<and> b_dirty (bcache s b))"
        using sp(9) by (auto simp: blk_of_def)
      then have "m \<in> dirty_blocks s \<longleftrightarrow> (\<exists>c < NBUF. c \<noteq> b \<and> blk_of s m c \<and> b_dirty (bcache s c))"
        unfolding dirty_blocks_def by blast
      moreover have "m \<in> dirty_blocks s' \<longleftrightarrow> (\<exists>c < NBUF. c \<noteq> b \<and> blk_of s' m c \<and> b_dirty (bcache s' c))"
        using False bm unfolding dirty_blocks_def by blast
      ultimately show ?thesis using o other by auto
    qed
  qed
  then show "bio_same s s'" using sp(5) s' by (simp add: bio_same_def)
  show "b_data (bcache s' b) = diskview s n" "n < disksize s" by (fact sp(4), fact sp(11))
  show "diskview s n = memdisk s (unat n)" if "n \<notin> dirty_blocks s"
    using sp(8,10) that by (auto simp: dirty_blocks_def)
qed

lemma bread_ok:
  assumes "cst s H" "n \<notin> ran H" "n < disksize s"
    "n \<in> dirty_blocks s \<or> card (dom H) + card (dirty_blocks s) < NBUF"
  obtains b s' where "bread 1 n s = Inr (b, s')"
proof -
  have "lk_locked (b_lock (bcache s c)) = 0" if "c < NBUF" "blk_of s n c" for c
  proof (rule ccontr)
    assume "lk_locked (b_lock (bcache s c)) \<noteq> 0"
    then obtain m where "H c = Some m" using cst_locked [OF assms(1) \<open>c < NBUF\<close>] by blast
    then have "m = n" using cst_blk [OF assms(1)] that by (auto simp: blk_of_def)
    then show False using \<open>H c = Some m\<close> assms(2) by (auto simp: ran_def)
  qed
  moreover have "(\<exists>c < NBUF. blk_of s n c) \<or> spare s \<noteq> {}"
    using assms(4) spare_exists [OF assms(1)] by (auto simp: dirty_blocks_def)
  ultimately show thesis using bread_total [of s n] assms(1,3) that by (auto simp: cst_def)
qed

lemma cst_upd:
  assumes "cst s H" "H b = Some n" "bc_ok s'" "held s' b" "b_blockno (bcache s' b) = n"
    "\<And>c. c \<noteq> b \<Longrightarrow> bcache s' c = bcache s c" "mypid s' = mypid s"
  shows "cst s' H"
proof -
  have "lk_locked (b_lock (bcache s' c)) = 0 \<longleftrightarrow> lk_locked (b_lock (bcache s c)) = 0" for c
    using assms(4,6) cst_held [OF assms(1,2)] by (cases "c = b") (auto dest: held_locked)
  then have "locked_bufs s' = locked_bufs s" by (simp add: locked_bufs_def)
  moreover have "held s' c \<and> b_blockno (bcache s' c) = m" if "H c = Some m" for c m
    using assms(2,4-7) cst_held [OF assms(1) that] that by (cases "c = b") (auto simp: held_def)
  ultimately show ?thesis using assms(1,3) by (auto simp: cst_def)
qed

lemma dirty_blocks_upd:
  assumes "cst s H" "H b = Some n" "\<And>c. c \<noteq> b \<Longrightarrow> bcache s' c = bcache s c"
    "b_dev (bcache s' b) = 1" "b_blockno (bcache s' b) = n"
  shows "dirty_blocks s' = (if b_dirty (bcache s' b) then insert n (dirty_blocks s) else dirty_blocks s - {n})"
proof (rule set_eqI)
  fix m
  have bn: "b < NBUF" "blk_of s n b" using cst_held [OF assms(1,2)] cst_blk [OF assms(1,2)] by auto
  have bm: "blk_of s' m b \<longleftrightarrow> m = n" using assms(4,5) by (auto simp: blk_of_def)
  have bm0: "blk_of s m b \<longleftrightarrow> m = n" using bn by (auto simp: blk_of_def)
  have o: "blk_of s' m c = blk_of s m c" if "c \<noteq> b" for c using assms(3) [OF that] by (simp add: blk_of_def)
  have uq: "c = b" if "c < NBUF" "blk_of s n c" for c
    using bc_uniq [of s c b n] assms(1) bn that by (simp add: cst_def)
  let ?o = "\<exists>c < NBUF. c \<noteq> b \<and> blk_of s m c \<and> b_dirty (bcache s c)"
  have "m \<in> dirty_blocks s' \<longleftrightarrow> (m = n \<and> b_dirty (bcache s' b)) \<or> ?o"
    unfolding dirty_blocks_def using bn bm o assms(3) by auto metis+
  moreover have "m \<in> dirty_blocks s \<longleftrightarrow> (m = n \<and> b_dirty (bcache s b)) \<or> ?o"
    unfolding dirty_blocks_def using bn bm0 by auto
  moreover have "\<not> ?o" if "m = n" using uq that by blast
  ultimately show "m \<in> dirty_blocks s' \<longleftrightarrow>
      m \<in> (if b_dirty (bcache s' b) then insert n (dirty_blocks s) else dirty_blocks s - {n})"
    by auto
qed

lemma set_data_rest [simp]:
  "mypid (set_data b d s) = mypid s" "memdisk (set_data b d s) = memdisk s"
  "disksize (set_data b d s) = disksize s" "dwrites (set_data b d s) = dwrites s"
  "biost.more (set_data b d s) = biost.more s"
  by (simp_all add: set_data_def)

lemma set_data_law:
  assumes "cst s H" "H b = Some n"
  shows "cst (set_data b d s) H" "diskview (set_data b d s) = (diskview s)(n := d)"
    "dirty_blocks (set_data b d s) = dirty_blocks s" "b_data (bcache (set_data b d s) b) = d"
proof -
  have h: "bc_ok s" "held s b" "b_blockno (bcache s b) = n"
    using assms cst_held unfolding cst_def by blast+
  note sp = set_data_spec [OF h(1,2), of d]
  show "diskview (set_data b d s) = (diskview s)(n := d)" using sp(3) h(3) by simp
  show "b_data (bcache (set_data b d s) b) = d" by (simp add: set_data_def)
  show "cst (set_data b d s) H"
    by (rule cst_upd [OF assms sp(1,2)]) (use h(3) in \<open>simp_all add: set_data_def\<close>)
  have "dirty_blocks (set_data b d s) =
      (if b_dirty (bcache (set_data b d s) b) then insert n (dirty_blocks s) else dirty_blocks s - {n})"
    by (rule dirty_blocks_upd [OF assms]) (use h sp(2) in \<open>simp_all add: set_data_def held_def\<close>)
  moreover have "b_dirty (bcache (set_data b d s) b) = b_dirty (bcache s b)"
    by (simp add: set_data_def b_dirty_def)
  ultimately show "dirty_blocks (set_data b d s) = dirty_blocks s"
    using cst_dirty [OF assms] by auto
qed

lemma pin_buf_rest [simp]:
  "mypid (pin_buf b s) = mypid s" "memdisk (pin_buf b s) = memdisk s"
  "disksize (pin_buf b s) = disksize s" "dwrites (pin_buf b s) = dwrites s"
  "biost.more (pin_buf b s) = biost.more s"
  by (simp_all add: pin_buf_def)

lemma pin_buf_law:
  assumes "cst s H" "H b = Some n"
  shows "cst (pin_buf b s) H" "diskview (pin_buf b s) = diskview s"
    "dirty_blocks (pin_buf b s) = insert n (dirty_blocks s)"
proof -
  have h: "bc_ok s" "held s b" "b_blockno (bcache s b) = n"
    using assms cst_held unfolding cst_def by blast+
  note sp = pin_buf_spec [OF h(1,2)]
  show "diskview (pin_buf b s) = diskview s" by (fact sp(3))
  show "cst (pin_buf b s) H"
    by (rule cst_upd [OF assms sp(1,2)]) (use h(3) in \<open>simp_all add: pin_buf_def\<close>)
  have "dirty_blocks (pin_buf b s) =
      (if b_dirty (bcache (pin_buf b s) b) then insert n (dirty_blocks s) else dirty_blocks s - {n})"
    by (rule dirty_blocks_upd [OF assms]) (use h sp(2) in \<open>simp_all add: pin_buf_def held_def\<close>)
  then show "dirty_blocks (pin_buf b s) = insert n (dirty_blocks s)" using sp(4) by simp
qed

lemma bwrite_law:
  assumes "cst s H" "H b = Some n"
  obtains s' where "bwrite b s = Inr s'" "cst s' H" "diskview s' = diskview s"
    "memdisk s' = (memdisk s)(unat n := diskview s n)" "dirty_blocks s' = dirty_blocks s - {n}"
    "dwrites s' = dwrites s @ [(unat n, diskview s n)]" "mypid s' = mypid s"
    "disksize s' = disksize s" "biost.more s' = biost.more s"
proof -
  have h: "bc_ok s" "held s b" "b_blockno (bcache s b) = n"
    using assms cst_held unfolding cst_def by blast+
  obtain s' where sp: "bwrite b s = Inr s'" "bc_ok s'" "held s' b" "diskview s' = diskview s"
    "memdisk s' = (memdisk s)(unat (b_blockno (bcache s b)) := b_data (bcache s b))"
    "dwrites s' = dwrites s @ [(unat (b_blockno (bcache s b)), b_data (bcache s b))]"
    "\<not> b_dirty (bcache s' b)" "b_blockno (bcache s' b) = b_blockno (bcache s b)"
    "\<And>c. c \<noteq> b \<Longrightarrow> bcache s' c = bcache s c"
    "mypid s' = mypid s" "disksize s' = disksize s" "biost.more s' = biost.more s"
    using bwrite_spec [OF h(1,2)] by metis
  have "cst s' H" by (rule cst_upd [OF assms sp(2,3)]) (use sp h(3) in simp_all)
  moreover have "dirty_blocks s' =
      (if b_dirty (bcache s' b) then insert n (dirty_blocks s) else dirty_blocks s - {n})"
    by (rule dirty_blocks_upd [OF assms]) (use sp h(3) in \<open>simp_all add: held_def\<close>)
  ultimately show thesis using that sp h(3) cst_view [OF assms] by simp
qed

lemma brelse_law:
  assumes "cst s H" "H b = Some n" "n \<in> dirty_blocks s \<or> diskview s n = memdisk s (unat n)"
  obtains s' where "brelse b s = Inr s'" "cst s' (H(b := None))" "bio_same s s'"
proof -
  have h: "bc_ok s" "held s b" "b_blockno (bcache s b) = n" "b < NBUF"
    using assms cst_held unfolding cst_def by blast+
  have "b_dirty (bcache s b) \<or> b_data (bcache s b) = memdisk s (unat (b_blockno (bcache s b)))"
    using assms(3) cst_dirty [OF assms(1,2)] cst_view [OF assms(1,2)] h(3) by auto
  then obtain s' where sp: "brelse b s = Inr s'" "bc_ok s'" "diskview s' = diskview s"
    "same_but_links (released (bcache s b)) (bcache s' b)"
    "\<And>c. c \<noteq> b \<Longrightarrow> same_but_links (bcache s c) (bcache s' c)"
    "mypid s' = mypid s" "memdisk s' = memdisk s" "disksize s' = disksize s" "dwrites s' = dwrites s"
    "biost.more s' = biost.more s"
    using brelse_spec [OF h(1,2)] by metis
  note fb = same_but_linksD [OF sp(4)] and fo = same_but_linksD [OF sp(5)]
  have lb: "lk_locked (b_lock (bcache s' b)) = 0" using fb by simp
  have "lk_locked (b_lock (bcache s' c)) \<noteq> 0 \<longleftrightarrow> lk_locked (b_lock (bcache s c)) \<noteq> 0 \<and> c \<noteq> b" for c
    using lb fo by (cases "c = b") auto
  then have "locked_bufs s' = locked_bufs s - {b}" unfolding locked_bufs_def by blast
  then have "locked_bufs s' = dom (H(b := None))" using assms(1) by (simp add: cst_def)
  moreover have "held s' c \<and> b_blockno (bcache s' c) = m" if "(H(b := None)) c = Some m" for c m
  proof -
    have c: "c \<noteq> b" "H c = Some m" using that by (auto split: if_splits)
    then show ?thesis using cst_held [OF assms(1) c(2)] fo [OF c(1)] sp(6)
      by (simp add: held_def b_valid_def)
  qed
  ultimately have cst': "cst s' (H(b := None))" using sp(2) by (simp add: cst_def)
  have "b_dirty (bcache s' c) = b_dirty (bcache s c)" "blk_of s' m c = blk_of s m c" for c m
    using fb fo by (cases "c = b"; simp add: b_dirty_def blk_of_def)+
  then have "dirty_blocks s' = dirty_blocks s" by (simp add: dirty_blocks_def)
  then have "bio_same s s'" using sp by (simp add: bio_same_def)
  then show thesis using that sp(1) cst' by blast
qed

end
