(* ===== verification/Log.thy ===== *)
theory Log
  imports Bio_Spec
begin

text \<open>
  The write-ahead log, \<^verbatim>\<open>log.c\<close>, with \<^verbatim>\<open>readsb\<close> of \<^verbatim>\<open>fs.c\<close>. A file system call brackets its
  changes with \<^verbatim>\<open>begin_op\<close> and \<^verbatim>\<open>end_op\<close>; \<^verbatim>\<open>log_write\<close> records a changed block and pins its
  buffer; the last \<^verbatim>\<open>end_op\<close> commits: it copies the changed blocks to the log, writes the
  header, installs the blocks at home and erases the header. The crash theorem considers
  every prefix of the disk writes of a commit and runs the recovery code on the disk that
  prefix leaves behind.
\<close>

section \<open>State\<close>

record superblock =
  sb_size :: u32
  sb_nblocks :: u32
  sb_ninodes :: u32
  sb_nlog :: u32
  sb_logstart :: u32
  sb_inodestart :: u32
  sb_bmapstart :: u32

record logheader =
  lh_n :: int
  lh_block :: "nat \<Rightarrow> u32"

record log =
  lg_start :: u32
  lg_size :: u32
  lg_outstanding :: int
  lg_committing :: bool
  lg_dev :: u32
  lg_lh :: logheader

record logst = biost +
  klog :: log

section \<open>Operations\<close>

text \<open>A C \<^verbatim>\<open>for\<close> loop over a list of values, stopping at the first fault.\<close>

fun forr :: "'i list \<Rightarrow> ('i \<Rightarrow> 's \<Rightarrow> 's res) \<Rightarrow> 's \<Rightarrow> 's res" where
  "forr [] body s = Inr s"
| "forr (i # is) body s = bindr (body i s) (forr is body)"

definition superblock_of :: "block \<Rightarrow> superblock" where
  "superblock_of d = \<lparr>sb_size = rd32 d 0, sb_nblocks = rd32 d 4, sb_ninodes = rd32 d 8,
     sb_nlog = rd32 d 12, sb_logstart = rd32 d 16, sb_inodestart = rd32 d 20, sb_bmapstart = rd32 d 24\<rparr>"

definition readsb :: "u32 \<Rightarrow> 'a biost_scheme \<Rightarrow> (superblock \<times> 'a biost_scheme) res" where
  "readsb dev s =
     bindr (bread dev 1 s) (\<lambda>(bp, s).
     let sb = superblock_of (b_data (bcache s bp)) in
     bindr (brelse bp s) (\<lambda>s. Inr (sb, s)))"

definition upd_log :: "(log \<Rightarrow> log) \<Rightarrow> 'a logst_scheme \<Rightarrow> 'a logst_scheme" where
  "upd_log f s = s\<lparr>klog := f (klog s)\<rparr>"

text \<open>The header block: \<^verbatim>\<open>int n\<close> at offset 0, \<^verbatim>\<open>int block[i]\<close> at offset \<open>4 + 4 i\<close>.\<close>

definition hb_n :: "block \<Rightarrow> int" where "hb_n d = sint (rd32 d 0)"
definition hb_block :: "block \<Rightarrow> nat \<Rightarrow> u32" where "hb_block d i = rd32 d (4 + 4 * i)"

definition install_trans :: "'a logst_scheme \<Rightarrow> 'a logst_scheme res" where
  "install_trans s =
     forr [0..<nat (lh_n (lg_lh (klog s)))] (\<lambda>tail s.
       bindr (bread (lg_dev (klog s)) (lg_start (klog s) + of_nat tail + 1) s) (\<lambda>(lbuf, s).
       bindr (bread (lg_dev (klog s)) (lh_block (lg_lh (klog s)) tail) s) (\<lambda>(dbuf, s).
       bindr (bwrite dbuf (set_data dbuf (b_data (bcache s lbuf)) s)) (\<lambda>s.
       bindr (brelse lbuf s) (brelse dbuf))))) s"

definition read_head :: "'a logst_scheme \<Rightarrow> 'a logst_scheme res" where
  "read_head s =
     bindr (bread (lg_dev (klog s)) (lg_start (klog s)) s) (\<lambda>(buf, s).
     let lh = b_data (bcache s buf);
         s = upd_log (\<lambda>l. l\<lparr>lg_lh := (lg_lh l)\<lparr>lh_n := hb_n lh\<rparr>\<rparr>) s in
     bindr (forr [0..<nat (hb_n lh)] (\<lambda>i s.
         if i \<ge> LOGSIZE then Inl OutOfBounds
         else Inr (upd_log (\<lambda>l. l\<lparr>lg_lh := (lg_lh l)\<lparr>lh_block :=
                (lh_block (lg_lh l))(i := hb_block lh i)\<rparr>\<rparr>) s)) s)
       (brelse buf))"

definition write_head :: "'a logst_scheme \<Rightarrow> 'a logst_scheme res" where
  "write_head s =
     bindr (bread (lg_dev (klog s)) (lg_start (klog s)) s) (\<lambda>(buf, s).
     let lh = lg_lh (klog s);
         s = set_data buf (wr32 (b_data (bcache s buf)) 0 (of_int (lh_n lh))) s in
     bindr (forr [0..<nat (lh_n lh)] (\<lambda>i s.
         if i \<ge> LOGSIZE then Inl OutOfBounds
         else Inr (set_data buf (wr32 (b_data (bcache s buf)) (4 + 4 * i) (lh_block lh i)) s)) s)
       (\<lambda>s. bindr (bwrite buf s) (brelse buf)))"

definition clear_lh :: "'a logst_scheme \<Rightarrow> 'a logst_scheme" where
  "clear_lh s = upd_log (\<lambda>l. l\<lparr>lg_lh := (lg_lh l)\<lparr>lh_n := 0\<rparr>\<rparr>) s"

definition recover_from_log :: "'a logst_scheme \<Rightarrow> 'a logst_scheme res" where
  "recover_from_log s =
     bindr (read_head s) (\<lambda>s. bindr (install_trans s) (\<lambda>s. write_head (clear_lh s)))"

definition initlog :: "u32 \<Rightarrow> 'a logst_scheme \<Rightarrow> 'a logst_scheme res" where
  "initlog dev s =
     (if 4 + 4 * LOGSIZE \<ge> BSIZE then Inl (Panic ''initlog: too big logheader'')
      else bindr (readsb dev s) (\<lambda>(sb, s).
        recover_from_log
          (upd_log (\<lambda>l. l\<lparr>lg_start := sb_logstart sb, lg_size := sb_nlog sb, lg_dev := dev\<rparr>) s)))"

definition begin_op :: "'a logst_scheme \<Rightarrow> 'a logst_scheme res" where
  "begin_op s =
     (if lg_committing (klog s) then Inl WouldSleep
      else if lh_n (lg_lh (klog s)) + (lg_outstanding (klog s) + 1) * int MAXOPBLOCKS > int LOGSIZE
      then Inl WouldSleep
      else Inr (upd_log (\<lambda>l. l\<lparr>lg_outstanding := lg_outstanding l + 1\<rparr>) s))"

definition write_log :: "'a logst_scheme \<Rightarrow> 'a logst_scheme res" where
  "write_log s =
     forr [0..<nat (lh_n (lg_lh (klog s)))] (\<lambda>tail s.
       bindr (bread (lg_dev (klog s)) (lg_start (klog s) + of_nat tail + 1) s) (\<lambda>(to, s).
       bindr (bread (lg_dev (klog s)) (lh_block (lg_lh (klog s)) tail) s) (\<lambda>(from, s).
       bindr (bwrite to (set_data to (b_data (bcache s from)) s)) (\<lambda>s.
       bindr (brelse from s) (brelse to))))) s"

definition commit :: "'a logst_scheme \<Rightarrow> 'a logst_scheme res" where
  "commit s =
     (if lh_n (lg_lh (klog s)) > 0 then
        bindr (write_log s) (\<lambda>s. bindr (write_head s) (\<lambda>s. bindr (install_trans s) (\<lambda>s.
        write_head (clear_lh s))))
      else Inr s)"

definition end_op :: "'a logst_scheme \<Rightarrow> 'a logst_scheme res" where
  "end_op s =
     (let s = upd_log (\<lambda>l. l\<lparr>lg_outstanding := lg_outstanding l - 1\<rparr>) s in
      if lg_committing (klog s) then Inl (Panic ''log.committing'')
      else if lg_outstanding (klog s) = 0 then
        bindr (commit (upd_log (\<lambda>l. l\<lparr>lg_committing := True\<rparr>) s)) (\<lambda>s.
          Inr (upd_log (\<lambda>l. l\<lparr>lg_committing := False\<rparr>) s))
      else Inr s)"

text \<open>The search of \<^verbatim>\<open>log_write\<close>: the first index below \<open>n\<close> that records the block, or \<open>n\<close>.\<close>

fun log_index :: "(nat \<Rightarrow> u32) \<Rightarrow> u32 \<Rightarrow> nat list \<Rightarrow> nat \<Rightarrow> nat" where
  "log_index blk bno [] n = n"
| "log_index blk bno (i # is) n = (if blk i = bno then i else log_index blk bno is n)"

definition log_write :: "nat \<Rightarrow> 'a logst_scheme \<Rightarrow> 'a logst_scheme res" where
  "log_write b s =
     (let lh = lg_lh (klog s) in
      if lh_n lh \<ge> int LOGSIZE \<or> lh_n lh \<ge> sint (lg_size (klog s)) - 1
      then Inl (Panic ''too big a transaction'')
      else if lg_outstanding (klog s) < 1 then Inl (Panic ''log_write outside of trans'')
      else
        let bno = b_blockno (bcache s b);
            i = log_index (lh_block lh) bno [0..<nat (lh_n lh)] (nat (lh_n lh));
            s = upd_log (\<lambda>l. l\<lparr>lg_lh := (lg_lh l)\<lparr>lh_block := (lh_block (lg_lh l))(i := bno)\<rparr>\<rparr>) s;
            s = (if int i = lh_n lh
                 then upd_log (\<lambda>l. l\<lparr>lg_lh := (lg_lh l)\<lparr>lh_n := lh_n (lg_lh l) + 1\<rparr>\<rparr>) s else s)
        in Inr (pin_buf b s))"

end
