(* ===== verification/Log_Spec.thy ===== *)
theory Log_Spec
  imports Log
begin

text \<open>
  What the loops of the log do to the disk. Each is stated as the list of blocks it writes,
  in order, and its effect on the view and on the set of dirty blocks.
\<close>

section \<open>Loops\<close>

lemma forr_append: "forr (xs @ ys) body s = bindr (forr xs body s) (forr ys body)"
proof -
  have "forr (xs @ ys) body = (\<lambda>s. bindr (forr xs body s) (forr ys body))"
  proof (induction xs)
    case (Cons x xs)
    show ?case by (rule ext) (simp add: Cons bindr_assoc)
  qed auto
  then show ?thesis by simp
qed

lemma forr_upt_inv:
  assumes "P 0 s" "\<And>i t. i < n \<Longrightarrow> P i t \<Longrightarrow> \<exists>t'. body i t = Inr t' \<and> P (Suc i) t'"
  shows "\<exists>t. forr [0..<n] body s = Inr t \<and> P n t"
  using assms
proof (induction n)
  case (Suc n)
  then obtain t where t: "forr [0..<n] body s = Inr t" "P n t" by auto
  then obtain t' where "body n t = Inr t'" "P (Suc n) t'" using Suc.prems(2) [of n t] by auto
  then show ?case using t by (simp add: forr_append)
qed simp

section \<open>The log state and the cache\<close>

lemma upd_log_bio [simp]:
  "mypid (upd_log f s) = mypid s" "bcache (upd_log f s) = bcache s" "memdisk (upd_log f s) = memdisk s"
  "disksize (upd_log f s) = disksize s" "dwrites (upd_log f s) = dwrites s"
  by (simp_all add: upd_log_def)

lemma klog_upd_log [simp]: "klog (upd_log f s) = f (klog s)"
  by (simp add: upd_log_def)

lemma more_upd_log [simp]: "logst.more (upd_log f s) = logst.more s"
  by (simp add: upd_log_def)

lemma cache_upd_log [simp]:
  "cst (upd_log f s) H = cst s H" "diskview (upd_log f s) = diskview s"
  "dirty_blocks (upd_log f s) = dirty_blocks s"
proof -
  show "diskview (upd_log f s) = diskview s" by (rule diskview_cong) simp_all
  show "cst (upd_log f s) H = cst s H"
    by (simp add: cst_def bc_ok_def buf_ok_def blk_of_def locked_bufs_def held_def)
  show "dirty_blocks (upd_log f s) = dirty_blocks s" by (simp add: dirty_blocks_def blk_of_def)
qed

lemma klog_more:
  fixes s s' :: "'a logst_scheme"
  assumes "biost.more s' = biost.more s"
  shows "klog s' = klog s" "logst.more s' = logst.more s"
  using assms by (cases s; cases s'; simp)+

lemma more_upd_cong:
  fixes s s' :: "'a logst_scheme"
  assumes "biost.more s' = biost.more s"
  shows "biost.more (upd_log (\<lambda>_. l) s') = biost.more (upd_log (\<lambda>_. l) s)"
  using assms by (cases s; cases s'; simp add: upd_log_def)

lemma bio_same_log: "bio_same s s' \<Longrightarrow> klog s' = klog s \<and> logst.more s' = logst.more s"
  for s s' :: "'a logst_scheme"
  by (auto simp: bio_same_def dest: klog_more)

section \<open>Copying a block\<close>

text \<open>
  \<open>wrote s ws s'\<close>: between \<open>s\<close> and \<open>s'\<close> the blocks \<open>ws\<close> were written to the disk, and nothing
  outside cache and disk changed.
\<close>

definition apply_writes :: "(nat \<Rightarrow> block) \<Rightarrow> (nat \<times> block) list \<Rightarrow> nat \<Rightarrow> block" where
  "apply_writes d ws = foldl (\<lambda>d (n, x). d(n := x)) d ws"

lemma apply_writes_simps [simp]:
  "apply_writes d [] = d" "apply_writes d (ws @ vs) = apply_writes (apply_writes d ws) vs"
  "apply_writes d ((n, x) # ws) = apply_writes (d(n := x)) ws"
  by (simp_all add: apply_writes_def)

definition wrote :: "'a logst_scheme \<Rightarrow> (nat \<times> block) list \<Rightarrow> 'a logst_scheme \<Rightarrow> bool" where
  "wrote s ws s' \<longleftrightarrow> memdisk s' = apply_writes (memdisk s) ws \<and> dwrites s' = dwrites s @ ws \<and>
     mypid s' = mypid s \<and> disksize s' = disksize s \<and> logst.more s' = logst.more s"

lemma wrote_Nil: "wrote s [] s"
  by (simp add: wrote_def)

lemma wrote_trans: "wrote s ws s' \<Longrightarrow> wrote s' vs s'' \<Longrightarrow> wrote s (ws @ vs) s''"
  by (simp add: wrote_def)

lemma write_log_step:
  fixes s :: "'a logst_scheme"
  assumes c: "cst s Map.empty" and "to \<noteq> frm" "to < disksize s" "frm < disksize s"
    "frm \<in> dirty_blocks s" "to \<notin> dirty_blocks s" "card (dirty_blocks s) < NBUF"
  obtains s' where
    "bindr (bread 1 to s) (\<lambda>(tb, s). bindr (bread 1 frm s) (\<lambda>(fb, s).
       bindr (bwrite tb (set_data tb (b_data (bcache s fb)) s)) (\<lambda>s.
       bindr (brelse fb s) (brelse tb)))) = Inr s'"
    "cst s' Map.empty" "wrote s [(unat to, diskview s frm)] s'" "klog s' = klog s"
    "diskview s' = (diskview s)(to := diskview s frm)" "dirty_blocks s' = dirty_blocks s"
proof -
  obtain tb s1 where r1: "bread 1 to s = Inr (tb, s1)" using bread_ok [OF c, of to] assms by auto
  note l1 = bread_law [OF c r1]
  have b1: "diskview s1 = diskview s" "dirty_blocks s1 = dirty_blocks s" "disksize s1 = disksize s"
    using l1(4) by (auto simp: bio_same_def)
  obtain fb s2 where r2: "bread 1 frm s1 = Inr (fb, s2)"
    using bread_ok [OF l1(3), of frm] assms b1 by auto
  note l2 = bread_law [OF l1(3) r2]
  have b2: "diskview s2 = diskview s" "dirty_blocks s2 = dirty_blocks s" "memdisk s2 = memdisk s"
    "dwrites s2 = dwrites s" "mypid s2 = mypid s" "disksize s2 = disksize s" "biost.more s2 = biost.more s"
    using l1(4) l2(4) by (auto simp: bio_same_def)
  let ?H = "[tb \<mapsto> to, fb \<mapsto> frm]"
  have ne: "tb \<noteq> fb" using l2(1) by auto
  then have H: "?H tb = Some to" "?H fb = Some frm" by auto
  let ?d = "b_data (bcache s2 fb)" and ?s3 = "set_data tb (b_data (bcache s2 fb)) s2"
  have d: "?d = diskview s frm" using l2(5) b1 by simp
  note l3 = set_data_law [OF l2(3) H(1), of ?d]
  obtain s4 where w: "bwrite tb ?s3 = Inr s4" "cst s4 ?H" "diskview s4 = diskview ?s3"
    "memdisk s4 = (memdisk ?s3)(unat to := diskview ?s3 to)" "dirty_blocks s4 = dirty_blocks ?s3 - {to}"
    "dwrites s4 = dwrites ?s3 @ [(unat to, diskview ?s3 to)]" "mypid s4 = mypid ?s3"
    "disksize s4 = disksize ?s3" "biost.more s4 = biost.more ?s3"
    using bwrite_law [OF l3(1) H(1)] by metis
  have dir: "dirty_blocks s4 = dirty_blocks s" using w(5) l3(3) b2(2) assms(6) by simp
  obtain s5 where r5: "brelse fb s4 = Inr s5" "cst s5 (?H(fb := None))" "bio_same s4 s5"
    using brelse_law [OF w(2) H(2)] dir assms(5) by metis
  have H5: "?H(fb := None) = [tb \<mapsto> to]" using ne by auto
  have "diskview s5 to = memdisk s5 (unat to)" using r5(3) w(3,4) by (simp add: bio_same_def)
  then obtain s6 where r6: "brelse tb s5 = Inr s6" "cst s6 ([tb \<mapsto> to](tb := None))" "bio_same s5 s6"
    using brelse_law [of s5 "[tb \<mapsto> to]" tb to] r5(2) H5 by auto
  have s6: "bio_same s4 s6" using r5(3) r6(3) by (rule bio_same_trans)
  show thesis
  proof
    show "bindr (bread 1 to s) (\<lambda>(tb, s). bindr (bread 1 frm s) (\<lambda>(fb, s).
       bindr (bwrite tb (set_data tb (b_data (bcache s fb)) s)) (\<lambda>s.
       bindr (brelse fb s) (brelse tb)))) = Inr s6"
      by (simp add: r1 r2 w(1) r5(1) r6(1))
    show "cst s6 Map.empty" using r6(2) by simp
    have m: "biost.more s6 = biost.more s" using s6 w(9) b2 by (simp add: bio_same_def)
    show "wrote s [(unat to, diskview s frm)] s6" "klog s6 = klog s"
      using s6 w b2 l3(2) d klog_more [OF m] by (simp_all add: wrote_def bio_same_def)
    show "diskview s6 = (diskview s)(to := diskview s frm)" "dirty_blocks s6 = dirty_blocks s"
      using s6 w(3) l3(2) d b2 dir by (simp_all add: bio_same_def)
  qed
qed

lemma install_step:
  fixes s :: "'a logst_scheme"
  assumes c: "cst s Map.empty" and "lb \<noteq> db" "lb < disksize s" "db < disksize s"
    "lb \<notin> dirty_blocks s" "db \<in> dirty_blocks s \<or> Suc (card (dirty_blocks s)) < NBUF"
    "card (dirty_blocks s) < NBUF"
  obtains s' where
    "bindr (bread 1 lb s) (\<lambda>(l, s). bindr (bread 1 db s) (\<lambda>(d, s).
       bindr (bwrite d (set_data d (b_data (bcache s l)) s)) (\<lambda>s.
       bindr (brelse l s) (brelse d)))) = Inr s'"
    "cst s' Map.empty" "wrote s [(unat db, diskview s lb)] s'" "klog s' = klog s"
    "diskview s' = (diskview s)(db := diskview s lb)" "dirty_blocks s' = dirty_blocks s - {db}"
proof -
  obtain l s1 where r1: "bread 1 lb s = Inr (l, s1)" using bread_ok [OF c, of lb] assms by auto
  note l1 = bread_law [OF c r1]
  have b1: "diskview s1 = diskview s" "dirty_blocks s1 = dirty_blocks s" "disksize s1 = disksize s"
    using l1(4) by (auto simp: bio_same_def)
  obtain d s2 where r2: "bread 1 db s1 = Inr (d, s2)"
    using bread_ok [OF l1(3), of db] assms b1 by auto
  note l2 = bread_law [OF l1(3) r2]
  have b2: "diskview s2 = diskview s" "dirty_blocks s2 = dirty_blocks s" "memdisk s2 = memdisk s"
    "dwrites s2 = dwrites s" "mypid s2 = mypid s" "disksize s2 = disksize s" "biost.more s2 = biost.more s"
    using l1(4) l2(4) by (auto simp: bio_same_def)
  let ?H = "[l \<mapsto> lb, d \<mapsto> db]"
  have ne: "l \<noteq> d" using l2(1) by auto
  then have H: "?H l = Some lb" "?H d = Some db" by auto
  let ?x = "b_data (bcache s2 l)" and ?s3 = "set_data d (b_data (bcache s2 l)) s2"
  have x: "?x = diskview s lb" using cst_view [OF l2(3) H(1)] b2 by simp
  note l3 = set_data_law [OF l2(3) H(2), of ?x]
  obtain s4 where w: "bwrite d ?s3 = Inr s4" "cst s4 ?H" "diskview s4 = diskview ?s3"
    "memdisk s4 = (memdisk ?s3)(unat db := diskview ?s3 db)" "dirty_blocks s4 = dirty_blocks ?s3 - {db}"
    "dwrites s4 = dwrites ?s3 @ [(unat db, diskview ?s3 db)]" "mypid s4 = mypid ?s3"
    "disksize s4 = disksize ?s3" "biost.more s4 = biost.more ?s3"
    using bwrite_law [OF l3(1) H(2)] by metis
  have "diskview s4 lb = memdisk s4 (unat lb)"
    using w(3,4) l3(2) assms(2,5) l1(6) b2 by simp
  then obtain s5 where r5: "brelse l s4 = Inr s5" "cst s5 (?H(l := None))" "bio_same s4 s5"
    using brelse_law [OF w(2) H(1)] by metis
  have H5: "?H(l := None) = [d \<mapsto> db]" using ne by auto
  have "diskview s5 db = memdisk s5 (unat db)" using r5(3) w(3,4) by (simp add: bio_same_def)
  then obtain s6 where r6: "brelse d s5 = Inr s6" "cst s6 ([d \<mapsto> db](d := None))" "bio_same s5 s6"
    using brelse_law [of s5 "[d \<mapsto> db]" d db] r5(2) H5 by auto
  have s6: "bio_same s4 s6" using r5(3) r6(3) by (rule bio_same_trans)
  show thesis
  proof
    show "bindr (bread 1 lb s) (\<lambda>(l, s). bindr (bread 1 db s) (\<lambda>(d, s).
       bindr (bwrite d (set_data d (b_data (bcache s l)) s)) (\<lambda>s.
       bindr (brelse l s) (brelse d)))) = Inr s6"
      by (simp add: r1 r2 w(1) r5(1) r6(1))
    show "cst s6 Map.empty" using r6(2) by simp
    have m: "biost.more s6 = biost.more s" using s6 w(9) b2 by (simp add: bio_same_def)
    show "wrote s [(unat db, diskview s lb)] s6" "klog s6 = klog s"
      using s6 w b2 l3(2) x klog_more [OF m] by (simp_all add: wrote_def bio_same_def)
    show "diskview s6 = (diskview s)(db := diskview s lb)" "dirty_blocks s6 = dirty_blocks s - {db}"
      using s6 w(3,5) l3(2,3) x b2 by (simp_all add: bio_same_def)
  qed
qed

section \<open>The loops of commit and recovery\<close>

text \<open>The log block that holds the \<open>i\<close>-th logged block.\<close>

definition logblk :: "u32 \<Rightarrow> nat \<Rightarrow> u32" where
  "logblk st i = st + of_nat i + 1"

lemma unat_logblk:
  assumes "unat st + i + 1 < 4294967296"
  shows "unat (logblk st i) = unat st + 1 + i"
proof -
  have "unat (of_nat i + 1 :: u32) = i + 1"
    using assms by (simp add: unat_word_ariths unat_of_nat)
  then show ?thesis using assms unat_add_no_wrap [of st "of_nat i + 1"]
    by (simp add: logblk_def add.assoc)
qed

text \<open>
  The geometry that the loops rely on: the log blocks are on the disk, the logged blocks are
  on the disk, outside the log and pairwise different.
\<close>

definition log_geo :: "u32 \<Rightarrow> nat \<Rightarrow> (nat \<Rightarrow> u32) \<Rightarrow> u32 \<Rightarrow> bool" where
  "log_geo st n L sz \<longleftrightarrow> unat st + n < unat sz \<and> inj_on L {..<n} \<and>
     (\<forall>i < n. L i < sz \<and> L i \<noteq> st \<and> (\<forall>j < n. L i \<noteq> logblk st j))"

lemma log_geoD:
  assumes "log_geo st n L sz"
  shows "i < n \<Longrightarrow> L i < sz" "i < n \<Longrightarrow> L i \<noteq> st" "i < n \<Longrightarrow> j < n \<Longrightarrow> L i \<noteq> logblk st j"
    "i < n \<Longrightarrow> unat (logblk st i) = unat st + 1 + i" "i < n \<Longrightarrow> logblk st i < sz" "st < sz"
    "i < n \<Longrightarrow> logblk st i \<noteq> st" "inj_on L {..<n}"
proof -
  have g: "unat st + n < unat sz" using assms by (simp add: log_geo_def)
  have "unat st + i + 1 < 4294967296" if "i < n" for i
    using g that unat_u32_less [of sz] by linarith
  then show u: "unat (logblk st i) = unat st + 1 + i" if "i < n" for i
    using that by (intro unat_logblk) simp
  show "i < n \<Longrightarrow> logblk st i < sz" using u g by (simp add: word_less_nat_alt)
  show "st < sz" using g by (simp add: word_less_nat_alt)
  show "i < n \<Longrightarrow> logblk st i \<noteq> st" using u [of i] by auto
qed (use assms in \<open>auto simp: log_geo_def\<close>)

lemma logblk_inj: "log_geo st n L sz \<Longrightarrow> i < n \<Longrightarrow> j < n \<Longrightarrow> logblk st i = logblk st j \<longleftrightarrow> i = j"
  using log_geoD(4) by (metis add_left_cancel)

lemma bread_klog:
  fixes s :: "'a logst_scheme"
  shows "cst s H \<Longrightarrow> bread 1 n s = Inr (b, s') \<Longrightarrow> klog s' = klog s"
  using bread_law(4) bio_same_log by blast

definition log_writes :: "u32 \<Rightarrow> nat \<Rightarrow> (nat \<Rightarrow> block) \<Rightarrow> (nat \<times> block) list" where
  "log_writes st n x = map (\<lambda>i. (unat st + 1 + i, x i)) [0..<n]"

definition home_writes :: "(nat \<Rightarrow> u32) \<Rightarrow> nat \<Rightarrow> (nat \<Rightarrow> block) \<Rightarrow> (nat \<times> block) list" where
  "home_writes L n x = map (\<lambda>i. (unat (L i), x i)) [0..<n]"

lemma write_log_spec:
  fixes s :: "'a logst_scheme"
  defines "st \<equiv> lg_start (klog s)" and "L \<equiv> lh_block (lg_lh (klog s))"
  assumes c: "cst s Map.empty" and dev: "lg_dev (klog s) = 1" and n: "lh_n (lg_lh (klog s)) = int n"
    and geo: "log_geo st n L (disksize s)" and dirty: "dirty_blocks s = L ` {..<n}" and nb: "n < NBUF"
  obtains s' where "write_log s = Inr s'" "cst s' Map.empty" "klog s' = klog s"
    "wrote s (log_writes st n (\<lambda>i. diskview s (L i))) s'" "dirty_blocks s' = dirty_blocks s"
    "\<And>m. (\<And>j. j < n \<Longrightarrow> m \<noteq> logblk st j) \<Longrightarrow> diskview s' m = diskview s m"
    "\<And>j. j < n \<Longrightarrow> diskview s' (logblk st j) = diskview s (L j)"
proof -
  note g = log_geoD [OF geo]
  define P where "P k t \<longleftrightarrow> cst t Map.empty \<and> klog t = klog s \<and>
    wrote s (log_writes st k (\<lambda>i. diskview s (L i))) t \<and> dirty_blocks t = dirty_blocks s \<and>
    (\<forall>m. (\<forall>j < k. m \<noteq> logblk st j) \<longrightarrow> diskview t m = diskview s m) \<and>
    (\<forall>j < k. diskview t (logblk st j) = diskview s (L j))" for k and t :: "'a logst_scheme"
  have card: "card (dirty_blocks s) < NBUF"
    using dirty nb card_image_le [of "{..<n}" L] by simp
  let ?body = "\<lambda>tail (s :: 'a logst_scheme).
       bindr (bread (lg_dev (klog s)) (lg_start (klog s) + of_nat tail + 1) s) (\<lambda>(to, s).
       bindr (bread (lg_dev (klog s)) (lh_block (lg_lh (klog s)) tail) s) (\<lambda>(from, s).
       bindr (bwrite to (set_data to (b_data (bcache s from)) s)) (\<lambda>s.
       bindr (brelse from s) (brelse to))))"
  have "\<exists>t. forr [0..<n] ?body s = Inr t \<and> P n t"
  proof (rule forr_upt_inv)
    show "P 0 s" using c by (simp add: P_def log_writes_def wrote_Nil)
  next
    fix i t assume i: "i < n" and P: "P i t"
    then have t: "cst t Map.empty" "klog t = klog s" "dirty_blocks t = dirty_blocks s"
      "disksize t = disksize s" by (auto simp: P_def wrote_def)
    have vi: "diskview t (L i) = diskview s (L i)" using P g(3) i by (simp add: P_def)
    have nd: "logblk st i \<notin> dirty_blocks t" using dirty t(3) g(3) i by (metis imageE lessThan_iff)
    obtain t' where t': "bindr (bread 1 (logblk st i) t) (\<lambda>(tb, s). bindr (bread 1 (L i) s) (\<lambda>(fb, s).
         bindr (bwrite tb (set_data tb (b_data (bcache s fb)) s)) (\<lambda>s.
         bindr (brelse fb s) (brelse tb)))) = Inr t'"
      "cst t' Map.empty" "wrote t [(unat (logblk st i), diskview t (L i))] t'" "klog t' = klog t"
      "diskview t' = (diskview t)(logblk st i := diskview t (L i))" "dirty_blocks t' = dirty_blocks t"
    proof (rule write_log_step [OF t(1), of "logblk st i" "L i"])
      show "logblk st i \<noteq> L i" using g(3) i by metis
      show "logblk st i < disksize t" "L i < disksize t" using g(1,5) i t(4) by simp_all
      show "L i \<in> dirty_blocks t" using dirty t(3) i by auto
      show "card (dirty_blocks t) < NBUF" using card t(3) by simp
    qed (use nd in blast)+
    have "?body i t = Inr t'"
      unfolding t'(1) [symmetric] logblk_def
      by (simp add: t(2) dev st_def)
         (rule bindr_cong, simp, auto simp: dev L_def t(2) dest!: bread_klog [OF t(1)])
    moreover have "P (Suc i) t'"
      unfolding P_def
    proof (intro conjI allI impI)
      show "wrote s (log_writes st (Suc i) (\<lambda>i. diskview s (L i))) t'"
        using wrote_trans [of s "log_writes st i (\<lambda>i. diskview s (L i))" t] P t'(3) vi g(4) [OF i]
        by (simp add: P_def log_writes_def)
      show "diskview t' m = diskview s m" if "\<forall>j < Suc i. m \<noteq> logblk st j" for m
        using P t'(5) that by (simp add: P_def)
      show "diskview t' (logblk st j) = diskview s (L j)" if "j < Suc i" for j
        using P t'(5) that vi logblk_inj [OF geo, of i j] i by (auto simp: P_def less_Suc_eq)
    qed (use t t' in simp_all)
    ultimately show "\<exists>t'. ?body i t = Inr t' \<and> P (Suc i) t'" by blast
  qed
  then obtain t where "forr [0..<n] ?body s = Inr t" and P: "P n t" by blast
  then have "write_log s = Inr t" by (simp add: write_log_def n)
  then show thesis using that P unfolding P_def by blast
qed

lemma install_trans_spec:
  fixes s :: "'a logst_scheme"
  defines "st \<equiv> lg_start (klog s)" and "L \<equiv> lh_block (lg_lh (klog s))"
  assumes c: "cst s Map.empty" and dev: "lg_dev (klog s) = 1" and n: "lh_n (lg_lh (klog s)) = int n"
    and geo: "log_geo st n L (disksize s)"
    and dirty: "dirty_blocks s = {} \<or> dirty_blocks s = L ` {..<n} \<and> n < NBUF"
  obtains s' where "install_trans s = Inr s'" "cst s' Map.empty" "klog s' = klog s"
    "wrote s (home_writes L n (\<lambda>i. diskview s (logblk st i))) s'" "dirty_blocks s' = {}"
    "\<And>m. m \<notin> L ` {..<n} \<Longrightarrow> diskview s' m = diskview s m"
proof -
  note g = log_geoD [OF geo]
  define P where "P k t \<longleftrightarrow> cst t Map.empty \<and> klog t = klog s \<and>
    wrote s (home_writes L k (\<lambda>i. diskview s (logblk st i))) t \<and>
    dirty_blocks t = dirty_blocks s - L ` {..<k} \<and>
    (\<forall>m. m \<notin> L ` {..<k} \<longrightarrow> diskview t m = diskview s m)" for k and t :: "'a logst_scheme"
  have fin: "finite (dirty_blocks s)" and card: "card (dirty_blocks s) < NBUF"
    using dirty card_image_le [of "{..<n}" L] by (auto simp: NBUF_def MAXOPBLOCKS_def)
  let ?body = "\<lambda>tail (s :: 'a logst_scheme).
       bindr (bread (lg_dev (klog s)) (lg_start (klog s) + of_nat tail + 1) s) (\<lambda>(lbuf, s).
       bindr (bread (lg_dev (klog s)) (lh_block (lg_lh (klog s)) tail) s) (\<lambda>(dbuf, s).
       bindr (bwrite dbuf (set_data dbuf (b_data (bcache s lbuf)) s)) (\<lambda>s.
       bindr (brelse lbuf s) (brelse dbuf))))"
  have "\<exists>t. forr [0..<n] ?body s = Inr t \<and> P n t"
  proof (rule forr_upt_inv)
    show "P 0 s" using c by (simp add: P_def home_writes_def wrote_Nil)
  next
    fix i t assume i: "i < n" and P: "P i t"
    then have t: "cst t Map.empty" "klog t = klog s" "dirty_blocks t = dirty_blocks s - L ` {..<i}"
      "disksize t = disksize s" by (auto simp: P_def wrote_def)
    have lni: "logblk st i \<notin> L ` {..<n}" using g(3) i by (metis imageE lessThan_iff)
    have lni': "logblk st i \<notin> L ` {..<i}" using lni i by force
    then have vi: "diskview t (logblk st i) = diskview s (logblk st i)" using P by (simp add: P_def)
    have nd: "logblk st i \<notin> dirty_blocks t" using dirty t(3) lni by auto
    have ct: "card (dirty_blocks t) < NBUF"
      using card card_mono [OF fin, of "dirty_blocks t"] t(3) by auto
    have Li: "L i \<in> dirty_blocks t \<or> Suc (card (dirty_blocks t)) < NBUF"
    proof (cases "dirty_blocks s = {}")
      case True
      then show ?thesis using t(3) by (simp add: NBUF_def MAXOPBLOCKS_def)
    next
      case False
      have "L i \<notin> L ` {..<i}" using g(8) i unfolding inj_on_def by fastforce
      then show ?thesis using False dirty t(3) i by auto
    qed
    obtain t' where t': "bindr (bread 1 (logblk st i) t) (\<lambda>(l, s). bindr (bread 1 (L i) s) (\<lambda>(d, s).
         bindr (bwrite d (set_data d (b_data (bcache s l)) s)) (\<lambda>s.
         bindr (brelse l s) (brelse d)))) = Inr t'"
      "cst t' Map.empty" "wrote t [(unat (L i), diskview t (logblk st i))] t'" "klog t' = klog t"
      "diskview t' = (diskview t)(L i := diskview t (logblk st i))" "dirty_blocks t' = dirty_blocks t - {L i}"
    proof (rule install_step [OF t(1), of "logblk st i" "L i"])
      show "logblk st i \<noteq> L i" using g(3) i by metis
      show "logblk st i < disksize t" "L i < disksize t" using g(1,5) i t(4) by simp_all
    qed (use nd ct Li in blast)+
    have "?body i t = Inr t'"
      unfolding t'(1) [symmetric] logblk_def
      by (simp add: t(2) dev st_def)
         (rule bindr_cong, simp, auto simp: dev L_def t(2) dest!: bread_klog [OF t(1)])
    moreover have "P (Suc i) t'"
      unfolding P_def
    proof (intro conjI allI impI)
      show "wrote s (home_writes L (Suc i) (\<lambda>i. diskview s (logblk st i))) t'"
        using wrote_trans [of s "home_writes L i (\<lambda>i. diskview s (logblk st i))" t] P t'(3) vi
        by (simp add: P_def home_writes_def)
      show "diskview t' m = diskview s m" if "m \<notin> L ` {..<Suc i}" for m
        using P t'(5) that by (simp add: P_def lessThan_Suc)
      show "dirty_blocks t' = dirty_blocks s - L ` {..<Suc i}"
        using t'(6) t(3) by (auto simp: lessThan_Suc)
    qed (use t t' in simp_all)
    ultimately show "\<exists>t'. ?body i t = Inr t' \<and> P (Suc i) t'" by blast
  qed
  then obtain t where "forr [0..<n] ?body s = Inr t" and P: "P n t" by blast
  then have "install_trans s = Inr t" by (simp add: install_trans_def n)
  moreover have "dirty_blocks t = {}" using P dirty by (auto simp: P_def)
  ultimately show thesis using that P unfolding P_def by blast
qed

subsection \<open>The header block\<close>

lemma rd32_wr32_other_nat:
  "b + 4 \<le> a \<or> a + 4 \<le> b \<Longrightarrow> rd32 (wr32 (m :: block) a v) b = rd32 m b"
  by (auto simp: rd32_def wr32_def)

definition head_block :: "nat \<Rightarrow> (nat \<Rightarrow> u32) \<Rightarrow> block \<Rightarrow> block" where
  "head_block n L d = fold (\<lambda>i d. wr32 d (4 + 4 * i) (L i)) [0..<n] (wr32 d 0 (of_nat n))"

lemma head_block_rd0: "rd32 (head_block n L d) 0 = of_nat n"
proof -
  have "rd32 (fold (\<lambda>i d. wr32 d (4 + 4 * i) (L i)) is d) 0 = rd32 d 0" for "is" d
    by (induction "is" arbitrary: d) (simp_all add: rd32_wr32_other_nat)
  then show ?thesis by (simp add: head_block_def rd32_wr32_same_nat)
qed

lemma head_block_rd:
  assumes "i < n"
  shows "rd32 (head_block n L d) (4 + 4 * i) = L i"
proof -
  have "i < k \<Longrightarrow> rd32 (fold (\<lambda>i d. wr32 d (4 + 4 * i) (L i)) [0..<k] d) (4 + 4 * i) = L i" for k d
  proof (induction k)
    case (Suc k)
    then show ?case
      by (cases "i = k") (simp_all add: rd32_wr32_same_nat rd32_wr32_other_nat)
  qed simp
  then show ?thesis using assms by (simp add: head_block_def)
qed

lemma hb_head_block:
  assumes "n \<le> LOGSIZE"
  shows "hb_n (head_block n L d) = int n" "i < n \<Longrightarrow> hb_block (head_block n L d) i = L i"
proof -
  have "sint (of_nat n :: u32) = int n"
    using assms by (intro sint_small) (simp add: LOGSIZE_def MAXOPBLOCKS_def)
  then show "hb_n (head_block n L d) = int n" by (simp add: hb_n_def head_block_rd0)
qed (simp add: hb_block_def head_block_rd)

lemma write_head_spec:
  fixes s :: "'a logst_scheme"
  defines "st \<equiv> lg_start (klog s)" and "L \<equiv> lh_block (lg_lh (klog s))"
  assumes c: "cst s Map.empty" and dev: "lg_dev (klog s) = 1" and n: "lh_n (lg_lh (klog s)) = int n"
    and "n \<le> LOGSIZE" "st < disksize s" and nd: "st \<notin> dirty_blocks s"
    and card: "card (dirty_blocks s) < NBUF"
  obtains s' where "write_head s = Inr s'" "cst s' Map.empty" "klog s' = klog s"
    "wrote s [(unat st, head_block n L (memdisk s (unat st)))] s'" "dirty_blocks s' = dirty_blocks s"
    "\<And>m. m \<noteq> st \<Longrightarrow> diskview s' m = diskview s m"
proof -
  obtain buf s1 where r1: "bread 1 st s = Inr (buf, s1)" using bread_ok [OF c, of st] assms by auto
  note l1 = bread_law [OF c r1]
  define H where "H = [buf \<mapsto> st]"
  let ?d0 = "wr32 (memdisk s (unat st)) 0 (of_nat n)"
  define D where "D k = fold (\<lambda>i d. wr32 d (4 + 4 * i) (L i)) [0..<k] ?d0" for k
  have b1: "diskview s1 = diskview s" "dirty_blocks s1 = dirty_blocks s" "klog s1 = klog s"
    "b_data (bcache s1 buf) = memdisk s (unat st)"
    using l1(4,5) l1(6) [OF nd] bio_same_log by (auto simp: bio_same_def)
  define P where "P k t \<longleftrightarrow> cst t H \<and> diskview t = (diskview s)(st := D k) \<and>
    dirty_blocks t = dirty_blocks s \<and> memdisk t = memdisk s \<and> dwrites t = dwrites s \<and>
    mypid t = mypid s \<and> disksize t = disksize s \<and> biost.more t = biost.more s" for k and t :: "'a logst_scheme"
  let ?s2 = "set_data buf (wr32 (b_data (bcache s1 buf)) 0 (of_int (lh_n (lg_lh (klog s1))))) s1"
  have H: "H buf = Some st" "H(buf := None) = Map.empty" by (simp_all add: H_def)
  have c1: "cst s1 H" using l1(3) by (simp add: H_def)
  have P0: "P 0 ?s2"
    using set_data_law [OF c1 H(1)] l1(4) b1 n by (simp add: P_def D_def bio_same_def)
  let ?body = "\<lambda>i s. if i \<ge> LOGSIZE then Inl OutOfBounds
     else Inr (set_data buf (wr32 (b_data (bcache s buf)) (4 + 4 * i) (lh_block (lg_lh (klog s1)) i)) s)"
  have "\<exists>t. forr [0..<n] ?body ?s2 = Inr t \<and> P n t"
  proof (rule forr_upt_inv)
    show "P 0 ?s2" by (rule P0)
  next
    fix i t assume i: "i < n" and P: "P i t"
    let ?t = "set_data buf (wr32 (b_data (bcache t buf)) (4 + 4 * i) (L i)) t"
    have ct: "cst t H" using P by (simp add: P_def)
    then have "b_data (bcache t buf) = D i" using cst_view [OF ct H(1)] P by (simp add: P_def)
    then have "P (Suc i) ?t" using set_data_law [OF ct H(1)] P by (simp add: P_def D_def)
    moreover have "?body i t = Inr ?t" using i assms(6) b1(3) by (simp add: L_def)
    ultimately show "\<exists>t'. ?body i t = Inr t' \<and> P (Suc i) t'" by blast
  qed
  then obtain s3 where s3: "forr [0..<n] ?body ?s2 = Inr s3" "P n s3" by blast
  have c3: "cst s3 H" using s3(2) by (simp add: P_def)
  obtain s4 where w: "bwrite buf s3 = Inr s4" "cst s4 H" "diskview s4 = diskview s3"
    "memdisk s4 = (memdisk s3)(unat st := diskview s3 st)" "dirty_blocks s4 = dirty_blocks s3 - {st}"
    "dwrites s4 = dwrites s3 @ [(unat st, diskview s3 st)]" "mypid s4 = mypid s3"
    "disksize s4 = disksize s3" "biost.more s4 = biost.more s3"
    using bwrite_law [OF c3 H(1)] by metis
  obtain s5 where r5: "brelse buf s4 = Inr s5" "cst s5 (H(buf := None))" "bio_same s4 s5"
    using brelse_law [OF w(2) H(1)] w(3,4) by auto
  have m: "biost.more s5 = biost.more s" using r5(3) w(9) s3(2) by (simp add: bio_same_def P_def)
  have hd: "D n = head_block n L (memdisk s (unat st))" by (simp add: D_def head_block_def)
  show thesis
  proof
    show "write_head s = Inr s5"
      using s3(1) by (simp add: write_head_def Let_def dev b1(3) n r1 w(1) r5(1) flip: st_def)
    show "cst s5 Map.empty" using r5(2) H(2) by simp
    show "klog s5 = klog s" using klog_more [OF m] by simp
    show "wrote s [(unat st, head_block n L (memdisk s (unat st)))] s5"
      using r5(3) w s3(2) klog_more [OF m] hd by (simp add: wrote_def bio_same_def P_def)
    show "dirty_blocks s5 = dirty_blocks s" using r5(3) w(5) s3(2) nd by (simp add: bio_same_def P_def)
    show "diskview s5 m = diskview s m" if "m \<noteq> st" for m
      using r5(3) w(3) s3(2) that by (simp add: bio_same_def P_def)
  qed
qed

lemma read_head_spec:
  fixes s :: "'a logst_scheme"
  defines "st \<equiv> lg_start (klog s)"
  defines "d \<equiv> memdisk s (unat st)"
  assumes c: "cst s Map.empty" and dev: "lg_dev (klog s) = 1" and nd: "st \<notin> dirty_blocks s"
    and hn: "hb_n d = int n" "n \<le> LOGSIZE" and "st < disksize s" and card: "card (dirty_blocks s) < NBUF"
  obtains s' where "read_head s = Inr s'" "cst s' Map.empty" "bio_same (upd_log (\<lambda>_. klog s') s) s'"
    "lg_start (klog s') = st" "lg_dev (klog s') = 1" "lh_n (lg_lh (klog s')) = int n"
    "\<And>i. i < n \<Longrightarrow> lh_block (lg_lh (klog s')) i = hb_block d i"
    "lg_size (klog s') = lg_size (klog s)" "lg_outstanding (klog s') = lg_outstanding (klog s)"
    "lg_committing (klog s') = lg_committing (klog s)"
proof -
  obtain buf s1 where r1: "bread 1 st s = Inr (buf, s1)" using bread_ok [OF c, of st] assms by auto
  note l1 = bread_law [OF c r1]
  have b1: "klog s1 = klog s" "b_data (bcache s1 buf) = d"
    using l1(4,5) l1(6) [OF nd] bio_same_log by (auto simp: d_def)
  let ?s2 = "upd_log (\<lambda>l. l\<lparr>lg_lh := (lg_lh l)\<lparr>lh_n := hb_n d\<rparr>\<rparr>) s1"
  let ?body = "\<lambda>i s. if i \<ge> LOGSIZE then Inl OutOfBounds
     else Inr (upd_log (\<lambda>l. l\<lparr>lg_lh := (lg_lh l)\<lparr>lh_block := (lh_block (lg_lh l))(i := hb_block d i)\<rparr>\<rparr>) s)"
  define Q where "Q k l \<longleftrightarrow> lg_start l = st \<and> lg_dev l = 1 \<and> lh_n (lg_lh l) = int n \<and>
    (\<forall>i < k. lh_block (lg_lh l) i = hb_block d i) \<and> lg_size l = lg_size (klog s) \<and>
    lg_outstanding l = lg_outstanding (klog s) \<and> lg_committing l = lg_committing (klog s)" for k and l :: log
  have "\<exists>t. forr [0..<n] ?body ?s2 = Inr t \<and> (\<exists>l. t = upd_log (\<lambda>_. l) s1 \<and> Q n l)"
  proof (rule forr_upt_inv)
    have "?s2 = upd_log (\<lambda>_. (klog s)\<lparr>lg_lh := (lg_lh (klog s))\<lparr>lh_n := hb_n d\<rparr>\<rparr>) s1"
      using b1(1) by (simp add: upd_log_def)
    then show "\<exists>l. ?s2 = upd_log (\<lambda>_. l) s1 \<and> Q 0 l"
      using dev hn by (intro exI [of _ "(klog s)\<lparr>lg_lh := (lg_lh (klog s))\<lparr>lh_n := hb_n d\<rparr>\<rparr>"]) (simp add: Q_def st_def)
  next
    fix i t assume i: "i < n" and "\<exists>l. t = upd_log (\<lambda>_. l) s1 \<and> Q i l"
    then obtain l where t: "t = upd_log (\<lambda>_. l) s1" and Q: "Q i l" by blast
    let ?l = "l\<lparr>lg_lh := (lg_lh l)\<lparr>lh_block := (lh_block (lg_lh l))(i := hb_block d i)\<rparr>\<rparr>"
    have "?body i t = Inr (upd_log (\<lambda>_. ?l) s1)" using i hn(2) t by (simp add: upd_log_def)
    moreover have "Q (Suc i) ?l" using Q by (simp add: Q_def less_Suc_eq)
    ultimately show "\<exists>t'. ?body i t = Inr t' \<and> (\<exists>l. t' = upd_log (\<lambda>_. l) s1 \<and> Q (Suc i) l)" by blast
  qed
  then obtain s3 l where s3: "forr [0..<n] ?body ?s2 = Inr s3" and e3: "s3 = upd_log (\<lambda>_. l) s1"
    and Q: "Q n l" by blast
  define H where "H = [buf \<mapsto> st]"
  have H: "H buf = Some st" "H(buf := None) = Map.empty" by (simp_all add: H_def)
  have c3: "cst s3 H" using l1(3) e3 by (simp add: H_def)
  have same3: "bio_same (upd_log (\<lambda>_. l) s) s3"
    using l1(4) more_upd_cong [of s1 s l] e3 by (simp add: bio_same_def)
  have "diskview s3 st = memdisk s3 (unat st)"
    using same3 l1(6) [OF nd] by (simp add: bio_same_def)
  then obtain s4 where r4: "brelse buf s3 = Inr s4" "cst s4 (H(buf := None))" "bio_same s3 s4"
    using brelse_law [OF c3 H(1)] by auto
  have k4: "klog s4 = l" using bio_same_log [OF r4(3)] e3 by simp
  show thesis
  proof
    show "read_head s = Inr s4"
      using s3 r4(1) hn by (simp add: read_head_def Let_def dev r1 b1(2) flip: st_def cong: if_cong)
    show "cst s4 Map.empty" using r4(2) H(2) by simp
    show "bio_same (upd_log (\<lambda>_. klog s4) s) s4" using bio_same_trans [OF same3 r4(3)] k4 by simp
  qed (use Q k4 in \<open>simp_all add: Q_def\<close>)
qed

end
