(* ===== verification/Txn.thy ===== *)
theory Txn
  imports Log_Spec
begin

text \<open>
  Block accesses within a transaction, the interface between the log and the file system.
  \<open>in_txn s H\<close> is the state of a file system call between \<^verbatim>\<open>begin_op\<close> and \<^verbatim>\<open>end_op\<close> with the
  buffers \<open>H\<close> locked: the blocks recorded in the in-memory log header are exactly the dirty
  blocks of the cache, each recorded once.
\<close>

definition in_txn :: "'a logst_scheme \<Rightarrow> (nat \<rightharpoonup> u32) \<Rightarrow> bool" where
  "in_txn s H \<longleftrightarrow> cst s H \<and> lg_dev (klog s) = 1 \<and>
     (\<exists>n. lh_n (lg_lh (klog s)) = int n \<and> n \<le> LOGSIZE \<and>
        inj_on (lh_block (lg_lh (klog s))) {..<n} \<and>
        dirty_blocks s = lh_block (lg_lh (klog s)) ` {..<n})"

lemma in_txn_cst: "in_txn s H \<Longrightarrow> cst s H"
  by (simp add: in_txn_def)

lemma in_txn_lh:
  assumes "in_txn s H"
  shows "lh_n (lg_lh (klog s)) = int (card (dirty_blocks s))" "finite (dirty_blocks s)"
    "card (dirty_blocks s) \<le> LOGSIZE"
  using assms by (auto simp: in_txn_def card_image)

text \<open>What a step of a transaction may change: the view, the recorded blocks, the cache.\<close>

definition txn_same :: "'a logst_scheme \<Rightarrow> 'a logst_scheme \<Rightarrow> bool" where
  "txn_same s s' \<longleftrightarrow> memdisk s' = memdisk s \<and> dwrites s' = dwrites s \<and> mypid s' = mypid s \<and>
     disksize s' = disksize s \<and> logst.more s' = logst.more s \<and>
     lg_start (klog s') = lg_start (klog s) \<and> lg_size (klog s') = lg_size (klog s) \<and>
     lg_outstanding (klog s') = lg_outstanding (klog s) \<and> lg_committing (klog s') = lg_committing (klog s)"

lemma txn_same_refl [simp]: "txn_same s s"
  by (simp add: txn_same_def)

lemma txn_same_trans [trans]: "txn_same s s' \<Longrightarrow> txn_same s' s'' \<Longrightarrow> txn_same s s''"
  by (simp add: txn_same_def)

lemma bio_same_txn: "bio_same s s' \<Longrightarrow> txn_same s s'" for s s' :: "'a logst_scheme"
  using bio_same_log [of s s'] by (simp add: txn_same_def bio_same_def)

lemma in_txn_bio_same:
  fixes s s' :: "'a logst_scheme"
  assumes "in_txn s H" "bio_same s s'" "cst s' H'"
  shows "in_txn s' H'"
  using assms bio_same_log [OF assms(2)] by (simp add: in_txn_def bio_same_def)

lemma txn_bread:
  fixes s :: "'a logst_scheme"
  assumes "in_txn s H" "bread 1 n s = Inr (b, s')"
  shows "b \<notin> dom H" "n \<notin> ran H" "in_txn s' (H(b \<mapsto> n))" "txn_same s s'" "diskview s' = diskview s"
    "dirty_blocks s' = dirty_blocks s" "b_data (bcache s' b) = diskview s n"
    "n \<notin> dirty_blocks s \<Longrightarrow> diskview s n = memdisk s (unat n)" "n < disksize s"
proof -
  note l = bread_law [OF in_txn_cst [OF assms(1)] assms(2)]
  show "b \<notin> dom H" "n \<notin> ran H" "n < disksize s" "b_data (bcache s' b) = diskview s n"
    "n \<notin> dirty_blocks s \<Longrightarrow> diskview s n = memdisk s (unat n)" using l by auto
  show "in_txn s' (H(b \<mapsto> n))" by (rule in_txn_bio_same [OF assms(1) l(4,3)])
  show "txn_same s s'" by (rule bio_same_txn [OF l(4)])
  show "diskview s' = diskview s" "dirty_blocks s' = dirty_blocks s" using l(4) by (auto simp: bio_same_def)
qed

lemma txn_bread_ok:
  assumes "in_txn s H" "n \<notin> ran H" "n < disksize s"
    "n \<in> dirty_blocks s \<or> card (dom H) + card (dirty_blocks s) < NBUF"
  obtains b s' where "bread 1 n s = Inr (b, s')"
  using bread_ok [OF in_txn_cst [OF assms(1)] assms(2-4)] by blast

lemma klog_set_data [simp]: "klog (set_data b d s) = klog s" "logst.more (set_data b d s) = logst.more s"
  for s :: "'a logst_scheme"
  by (simp_all add: set_data_def upd_buf_def)

lemma klog_pin_buf [simp]: "klog (pin_buf b s) = klog s" "logst.more (pin_buf b s) = logst.more s"
  for s :: "'a logst_scheme"
  by (simp_all add: pin_buf_def upd_buf_def)

lemma txn_set_data:
  fixes s :: "'a logst_scheme"
  assumes "in_txn s H" "H b = Some n"
  shows "in_txn (set_data b d s) H" "txn_same s (set_data b d s)"
    "diskview (set_data b d s) = (diskview s)(n := d)" "dirty_blocks (set_data b d s) = dirty_blocks s"
    "b_data (bcache (set_data b d s) b) = d"
  using set_data_law [OF in_txn_cst [OF assms(1)] assms(2), of d] assms(1)
  by (simp_all add: in_txn_def txn_same_def)

lemma txn_data: "in_txn s H \<Longrightarrow> H b = Some n \<Longrightarrow> b_data (bcache s b) = diskview s n"
  by (rule cst_view [OF in_txn_cst])

lemma txn_brelse:
  fixes s :: "'a logst_scheme"
  assumes "in_txn s H" "H b = Some n" "n \<in> dirty_blocks s \<or> diskview s n = memdisk s (unat n)"
  obtains s' where "brelse b s = Inr s'" "in_txn s' (H(b := None))" "txn_same s s'"
    "diskview s' = diskview s" "dirty_blocks s' = dirty_blocks s"
proof -
  obtain s' where s': "brelse b s = Inr s'" "cst s' (H(b := None))" "bio_same s s'"
    using brelse_law [OF in_txn_cst [OF assms(1)] assms(2,3)] by blast
  then show thesis
    using that in_txn_bio_same [OF assms(1) s'(3,2)] bio_same_txn [OF s'(3)] by (simp add: bio_same_def)
qed

section \<open>log\_write\<close>

lemma log_index_spec:
  assumes "distinct is" "n \<notin> set is"
  shows "log_index blk bno is n \<in> set is \<and> blk (log_index blk bno is n) = bno \<or>
    log_index blk bno is n = n \<and> (\<forall>i \<in> set is. blk i \<noteq> bno)"
  using assms by (induction "is") auto

text \<open>
  \<open>log_room s\<close>: the next \<^verbatim>\<open>log_write\<close> passes its checks.
\<close>

definition log_room :: "'a logst_scheme \<Rightarrow> bool" where
  "log_room s \<longleftrightarrow> card (dirty_blocks s) < LOGSIZE \<and>
     int (card (dirty_blocks s)) < sint (lg_size (klog s)) - 1 \<and> 1 \<le> lg_outstanding (klog s)"

lemma txn_log_write:
  fixes s :: "'a logst_scheme"
  assumes t: "in_txn s H" and b: "H b = Some m" and room: "log_room s"
  obtains s' where "log_write b s = Inr s'" "in_txn s' H" "txn_same s s'" "diskview s' = diskview s"
    "dirty_blocks s' = insert m (dirty_blocks s)"
proof -
  let ?lh = "lg_lh (klog s)"
  let ?L = "lh_block ?lh"
  obtain n where n: "lh_n ?lh = int n" "n \<le> LOGSIZE" "inj_on ?L {..<n}" "dirty_blocks s = ?L ` {..<n}"
    using t by (auto simp: in_txn_def)
  have cn: "card (dirty_blocks s) = n" using in_txn_lh(1) [OF t] n(1) by simp
  have c: "cst s H" using t by (simp add: in_txn_def)
  have bno: "b_blockno (bcache s b) = m" using cst_held [OF c b] by simp
  define i where "i = log_index ?L m [0..<n] n"
  let ?l1 = "(klog s)\<lparr>lg_lh := ?lh\<lparr>lh_block := ?L(i := m)\<rparr>\<rparr>"
  let ?l2 = "if i = n then ?l1\<lparr>lg_lh := (lg_lh ?l1)\<lparr>lh_n := int n + 1\<rparr>\<rparr> else ?l1"
  let ?s' = "pin_buf b (upd_log (\<lambda>_. ?l2) s)"
  have w: "log_write b s = Inr ?s'"
    using room n(1) cn
    by (auto simp: log_write_def Let_def log_room_def bno i_def upd_log_def)
  have c': "cst (upd_log (\<lambda>_. ?l2) s) H" using c by simp
  note p = pin_buf_law [OF c' b]
  have i: "i < n \<and> ?L i = m \<or> i = n \<and> m \<notin> ?L ` {..<n}"
    using log_index_spec [of "[0..<n]" n ?L m] by (auto simp: i_def)
  have "in_txn ?s' H"
    unfolding in_txn_def
  proof (intro conjI)
    show "\<exists>k. lh_n (lg_lh (klog ?s')) = int k \<and> k \<le> LOGSIZE \<and> inj_on (lh_block (lg_lh (klog ?s'))) {..<k} \<and>
        dirty_blocks ?s' = lh_block (lg_lh (klog ?s')) ` {..<k}"
    proof (cases "i = n")
      case True
      have "inj_on (?L(n := m)) {..<Suc n}"
        using n(3) i True by (auto simp: lessThan_Suc inj_on_def)
      moreover have "(?L(n := m)) ` {..<Suc n} = insert m (?L ` {..<n})"
        by (auto simp: lessThan_Suc)
      moreover have "Suc n \<le> LOGSIZE" using room cn by (simp add: log_room_def)
      ultimately show ?thesis using True n p(3) by (intro exI [of _ "Suc n"]) simp
    next
      case False
      then have "?L(i := m) = ?L" "m \<in> dirty_blocks s" using i n(4) by auto
      then show ?thesis using False n p(3) by (intro exI [of _ n]) (simp add: insert_absorb)
    qed
  qed (use t p in \<open>simp_all add: in_txn_def\<close>)
  moreover have "txn_same s ?s'" by (simp add: txn_same_def)
  ultimately show thesis using that w p(2,3) by simp
qed

section \<open>Changing one block\<close>

text \<open>
  The pattern of most file system updates: read a block, change it, log it, release it.
\<close>

definition txn_update :: "u32 \<Rightarrow> u32 \<Rightarrow> (block \<Rightarrow> block) \<Rightarrow> 'a logst_scheme \<Rightarrow> 'a logst_scheme res" where
  "txn_update dev n f s =
     bindr (bread dev n s) (\<lambda>(bp, s).
     bindr (log_write bp (set_data bp (f (b_data (bcache s bp))) s)) (brelse bp))"

lemma txn_update_spec:
  fixes s :: "'a logst_scheme"
  assumes t: "in_txn s H" and n: "n \<notin> ran H" "n < disksize s"
    and room: "log_room s" "n \<in> dirty_blocks s \<or> card (dom H) + card (dirty_blocks s) < NBUF"
  obtains s' where "txn_update 1 n f s = Inr s'" "in_txn s' H" "txn_same s s'"
    "diskview s' = (diskview s)(n := f (diskview s n))" "dirty_blocks s' = insert n (dirty_blocks s)"
proof -
  obtain b s1 where r1: "bread 1 n s = Inr (b, s1)" using txn_bread_ok [OF t n room(2)] by blast
  note l1 = txn_bread [OF t r1]
  let ?H = "H(b \<mapsto> n)"
  have Hb: "?H b = Some n" "?H(b := None) = H" using l1(1) by auto
  let ?s2 = "set_data b (f (b_data (bcache s1 b))) s1"
  note l2 = txn_set_data [OF l1(3) Hb(1), of "f (b_data (bcache s1 b))"]
  have "log_room ?s2" using room(1) l1(4,6) l2(2,4) by (simp add: log_room_def txn_same_def)
  then obtain s3 where s3: "log_write b ?s2 = Inr s3" "in_txn s3 ?H" "txn_same ?s2 s3"
    "diskview s3 = diskview ?s2" "dirty_blocks s3 = insert n (dirty_blocks ?s2)"
    using txn_log_write [OF l2(1) Hb(1)] by blast
  obtain s4 where s4: "brelse b s3 = Inr s4" "in_txn s4 (?H(b := None))" "txn_same s3 s4"
    "diskview s4 = diskview s3" "dirty_blocks s4 = dirty_blocks s3"
    using txn_brelse [OF s3(2) Hb(1)] s3(5) by (metis insertI1)
  have "txn_update 1 n f s = Inr s4" using r1 s3(1) s4(1) by (simp add: txn_update_def)
  moreover have "txn_same s s4"
    using txn_same_trans [OF l1(4) txn_same_trans [OF l2(2) txn_same_trans [OF s3(3) s4(3)]]] .
  moreover have "diskview s4 = (diskview s)(n := f (diskview s n))"
    using s4(4) s3(4) l2(3) l1(5,7) by simp
  moreover have "dirty_blocks s4 = insert n (dirty_blocks s)" using s4(5) s3(5) l2(4) l1(6) by simp
  ultimately show thesis using that s4(2) Hb(2) by simp
qed

end
