(* ===== verification/Log_Props.thy ===== *)
theory Log_Props
  imports Txn
begin

text \<open>
  Crash safety of the log. \<open>replay\<close> is the disk that the header on it stands for: each block
  named in the header reads as its copy in the log. A commit writes a list of blocks; after
  any prefix of that list, \<open>replay\<close> is either the disk before the transaction or the disk
  with all of it, and recovery turns \<open>replay\<close> into the disk itself, also when it is interrupted
  and started again.
\<close>

section \<open>Disks and their replay\<close>

definition replay :: "nat \<Rightarrow> (nat \<Rightarrow> block) \<Rightarrow> nat \<Rightarrow> block" where
  "replay st d x =
     (case find (\<lambda>i. unat (hb_block (d st) i) = x) [0..<nat (hb_n (d st))] of
        None \<Rightarrow> d x
      | Some i \<Rightarrow> d (st + 1 + i))"

lemma replay_empty: "hb_n (d st) = 0 \<Longrightarrow> replay st d = d"
  by (rule ext) (simp add: replay_def)

lemma replay_logged:
  assumes "hb_n (d st) = int n" "i < n" "inj_on (hb_block (d st)) {..<n}"
  shows "replay st d (unat (hb_block (d st) i)) = d (st + 1 + i)"
proof -
  have "find (\<lambda>j. unat (hb_block (d st) j) = unat (hb_block (d st) i)) [0..<n] = Some i"
    using assms(2,3) unfolding find_Some_iff
    by (intro exI [of _ i]) (auto dest: inj_onD)
  then show ?thesis using assms(1) by (simp add: replay_def)
qed

lemma replay_other:
  assumes "hb_n (d st) = int n" "\<And>i. i < n \<Longrightarrow> x \<noteq> unat (hb_block (d st) i)"
  shows "replay st d x = d x"
proof -
  have "find (\<lambda>i. unat (hb_block (d st) i) = x) [0..<n] = None"
    using assms(2) by (auto simp: find_None_iff)
  then show ?thesis using assms(1) by (simp add: replay_def)
qed

lemma apply_writes_other: "y \<notin> fst ` set ws \<Longrightarrow> apply_writes d ws y = d y"
  by (induction ws arbitrary: d) auto

lemma apply_writes_in: "distinct (map fst ws) \<Longrightarrow> (y, x) \<in> set ws \<Longrightarrow> apply_writes d ws y = x"
proof (induction ws arbitrary: d)
  case (Cons w ws)
  show ?case
  proof (cases "w = (y, x)")
    case True
    then have "y \<notin> fst ` set ws" using Cons.prems(1) by auto
    then show ?thesis using True apply_writes_other by fastforce
  next
    case False
    then show ?thesis using Cons by (cases w) auto
  qed
qed simp

lemma log_writes_take: "take k (log_writes st n x) = log_writes st (min k n) x"
  by (simp add: log_writes_def take_map min_def)

lemma home_writes_take: "take k (home_writes L n x) = home_writes L (min k n) x"
  by (simp add: home_writes_def take_map min_def)

lemma length_writes [simp]: "length (log_writes st n x) = n" "length (home_writes L n x) = n"
  by (simp_all add: log_writes_def home_writes_def)

lemma fst_writes:
  "fst ` set (log_writes st n x) = (\<lambda>i. unat st + 1 + i) ` {..<n}"
  "fst ` set (home_writes L n x) = (\<lambda>i. unat (L i)) ` {..<n}"
  by (simp_all add: log_writes_def home_writes_def image_image atLeast0LessThan)

lemma apply_writes_take_other: "y \<notin> fst ` set ws \<Longrightarrow> apply_writes d (take k ws) y = d y"
  using set_take_subset [of k ws] by (intro apply_writes_other) auto

lemma apply_log_writes:
  "y \<le> unat st \<or> unat st + k < y \<Longrightarrow> apply_writes d (log_writes st k x) y = d y"
  "i < k \<Longrightarrow> apply_writes d (log_writes st k x) (unat st + 1 + i) = x i"
proof -
  show "apply_writes d (log_writes st k x) y = d y" if "y \<le> unat st \<or> unat st + k < y"
    by (rule apply_writes_other) (use that in \<open>auto simp: log_writes_def\<close>)
  show "apply_writes d (log_writes st k x) (unat st + 1 + i) = x i" if "i < k"
    by (rule apply_writes_in) (use that in \<open>auto simp: log_writes_def distinct_map inj_on_def\<close>)
qed

lemma apply_home_writes:
  "(\<And>i. i < k \<Longrightarrow> y \<noteq> unat (L i)) \<Longrightarrow> apply_writes d (home_writes L k x) y = d y"
  "inj_on L {..<k} \<Longrightarrow> i < k \<Longrightarrow> apply_writes d (home_writes L k x) (unat (L i)) = x i"
proof -
  show "apply_writes d (home_writes L k x) y = d y" if "\<And>i. i < k \<Longrightarrow> y \<noteq> unat (L i)"
    by (rule apply_writes_other) (use that in \<open>fastforce simp: home_writes_def\<close>)
  show "apply_writes d (home_writes L k x) (unat (L i)) = x i" if "inj_on L {..<k}" "i < k"
    by (rule apply_writes_in) (use that in \<open>auto simp: home_writes_def distinct_map inj_on_def\<close>)
qed

section \<open>Committing\<close>

text \<open>
  A state ready to commit: no buffer is in use, the blocks in the in-memory header are exactly
  the dirty ones and lie outside the log, and the header on disk is empty.
\<close>

definition txn_ok :: "'a logst_scheme \<Rightarrow> nat \<Rightarrow> bool" where
  "txn_ok s n \<longleftrightarrow> cst s Map.empty \<and> lg_dev (klog s) = 1 \<and> lh_n (lg_lh (klog s)) = int n \<and>
     n \<le> LOGSIZE \<and> n < NBUF \<and>
     log_geo (lg_start (klog s)) n (lh_block (lg_lh (klog s))) (disksize s) \<and>
     dirty_blocks s = lh_block (lg_lh (klog s)) ` {..<n} \<and>
     hb_n (memdisk s (unat (lg_start (klog s)))) = 0"

definition commit_writes :: "'a logst_scheme \<Rightarrow> nat \<Rightarrow> (nat \<times> block) list" where
  "commit_writes s n =
     (let st = lg_start (klog s); L = lh_block (lg_lh (klog s));
          h = head_block n L (memdisk s (unat st)) in
      log_writes st n (\<lambda>i. diskview s (L i)) @ [(unat st, h)] @
      home_writes L n (\<lambda>i. diskview s (L i)) @ [(unat st, head_block 0 L h)])"

lemma clean_view:
  assumes "cst s Map.empty" "n \<notin> dirty_blocks s"
  shows "diskview s n = memdisk s (unat n)"
proof (cases "\<exists>b < NBUF. blk_of s n b \<and> b_valid (bcache s b)")
  case True
  then obtain b where b: "b < NBUF" "blk_of s n b" "b_valid (bcache s b)" by blast
  have ok: "bc_ok s" and "locked_bufs s = {}" using assms(1) by (auto simp: cst_def)
  then have l: "lk_locked (b_lock (bcache s b)) = 0" using b(1) by (auto simp: locked_bufs_def)
  have "\<not> b_dirty (bcache s b)" using assms(2) b by (auto simp: dirty_blocks_def)
  moreover have "buf_ok s (bcache s b)" using ok b(1) by (simp add: bc_ok_def)
  ultimately have "b_data (bcache s b) = memdisk s (unat n)"
    using b l by (auto simp: buf_ok_def blk_of_def)
  then show ?thesis using diskview_cached [OF ok b] by simp
next
  case False
  then show ?thesis by (intro diskview_uncached) blast
qed

lemma commit_spec:
  fixes s :: "'a logst_scheme"
  assumes t: "txn_ok s n" and n: "0 < n"
  obtains s' where "commit s = Inr s'" "wrote s (commit_writes s n) s'" "cst s' Map.empty"
    "dirty_blocks s' = {}" "klog s' = (klog s)\<lparr>lg_lh := (lg_lh (klog s))\<lparr>lh_n := 0\<rparr>\<rparr>"
proof -
  let ?st = "lg_start (klog s)" and ?L = "lh_block (lg_lh (klog s))"
  let ?x = "\<lambda>i. diskview s (?L i)" and ?h = "head_block n ?L (memdisk s (unat ?st))"
  have h: "cst s Map.empty" "lg_dev (klog s) = 1" "lh_n (lg_lh (klog s)) = int n" "n \<le> LOGSIZE" "n < NBUF"
    "log_geo ?st n ?L (disksize s)" "dirty_blocks s = ?L ` {..<n}"
    using t by (auto simp: txn_ok_def)
  note g = log_geoD [OF h(6)]
  have card: "card (dirty_blocks s) < NBUF"
    using h(5,7) card_image_le [of "{..<n}" ?L] by simp
  obtain s1 where s1: "write_log s = Inr s1" "cst s1 Map.empty" "klog s1 = klog s"
    "wrote s (log_writes ?st n ?x) s1" "dirty_blocks s1 = dirty_blocks s"
    "\<And>m. (\<And>j. j < n \<Longrightarrow> m \<noteq> logblk ?st j) \<Longrightarrow> diskview s1 m = diskview s m"
    "\<And>j. j < n \<Longrightarrow> diskview s1 (logblk ?st j) = ?x j"
    using write_log_spec [OF h(1-3,6,7,5)] by metis
  have st1: "memdisk s1 (unat ?st) = memdisk s (unat ?st)" and sz1: "disksize s1 = disksize s"
    using s1(4) apply_log_writes(1) [of "unat ?st" ?st n "memdisk s" ?x] by (auto simp: wrote_def)
  have nd: "?st \<notin> dirty_blocks s" using h(7) g(2) by (metis imageE lessThan_iff)
  obtain s2 where s2: "write_head s1 = Inr s2" "cst s2 Map.empty" "klog s2 = klog s"
    "wrote s1 [(unat ?st, ?h)] s2" "dirty_blocks s2 = dirty_blocks s"
    "\<And>m. m \<noteq> ?st \<Longrightarrow> diskview s2 m = diskview s1 m"
    using write_head_spec [OF s1(2), of n] s1(3,5) h(2-4) g(6) nd card st1 sz1 by metis
  have sz2: "disksize s2 = disksize s" using s2(4) sz1 by (simp add: wrote_def)
  obtain s3 where s3: "install_trans s2 = Inr s3" "cst s3 Map.empty" "klog s3 = klog s"
    "wrote s2 (home_writes ?L n (\<lambda>i. diskview s2 (logblk ?st i))) s3" "dirty_blocks s3 = {}"
    using install_trans_spec [OF s2(2), of n] s2(3,5) h(2,3,5,6,7) sz2 by metis
  have x3: "home_writes ?L n (\<lambda>i. diskview s2 (logblk ?st i)) = home_writes ?L n ?x"
    using s2(6) g(7) s1(7) by (auto simp: home_writes_def)
  have ne: "unat ?st \<noteq> unat (?L i)" if "i < n" for i using g(2) [OF that] by simp
  have st3: "memdisk s3 (unat ?st) = ?h" and sz3: "disksize s3 = disksize s"
    using s3(4) s2(4) sz2 apply_home_writes(1) [OF ne] by (auto simp: wrote_def)
  let ?s3 = "clear_lh s3"
  have k3: "klog ?s3 = (klog s)\<lparr>lg_lh := (lg_lh (klog s))\<lparr>lh_n := 0\<rparr>\<rparr>" "cst ?s3 Map.empty"
    "dirty_blocks ?s3 = {}" "memdisk ?s3 = memdisk s3" "disksize ?s3 = disksize s"
    using s3(2,3,5) sz3 by (simp_all add: clear_lh_def)
  obtain s4 where s4: "write_head ?s3 = Inr s4" "cst s4 Map.empty" "klog s4 = klog ?s3"
    "wrote ?s3 [(unat ?st, head_block 0 ?L ?h)] s4" "dirty_blocks s4 = {}"
  proof (rule write_head_spec [OF k3(2), of 0])
    fix s4 assume "write_head ?s3 = Inr s4" "cst s4 Map.empty" "klog s4 = klog ?s3"
      "wrote ?s3 [(unat (lg_start (klog ?s3)), head_block 0 (lh_block (lg_lh (klog ?s3)))
        (memdisk ?s3 (unat (lg_start (klog ?s3)))))] s4" "dirty_blocks s4 = dirty_blocks ?s3"
    then show thesis using that k3 st3 by simp
  qed (use k3 h(2) g(6) in \<open>simp_all add: NBUF_def MAXOPBLOCKS_def\<close>)
  have w: "wrote s3 [(unat ?st, head_block 0 ?L ?h)] s4"
    using s4(4) by (simp add: wrote_def clear_lh_def)
  have "wrote s (commit_writes s n) s4"
    using wrote_trans [OF s1(4) wrote_trans [OF s2(4) wrote_trans [OF s3(4) w]]]
    unfolding x3 by (simp add: commit_writes_def Let_def)
  moreover have "commit s = Inr s4"
    using n h(3) s1(1) s2(1) s3(1) s4(1) by (simp add: commit_def)
  ultimately show thesis using that s4 k3(1) by metis
qed

text \<open>
  The disk after the first \<open>k\<close> writes of a commit: the header block decides whether it stands
  for the old or the new contents. Blocks of the log itself are left out.
\<close>

lemma take_split4:
  "take k (as @ [b] @ cs @ [d]) =
    (if k \<le> length as then take k as
     else if k \<le> length as + 1 + length cs then as @ [b] @ take (k - length as - 1) cs
     else as @ [b] @ cs @ [d])"
proof (cases "k \<le> length as + 1 + length cs")
  case True
  then show ?thesis
    by (auto simp: take_Cons' Suc_le_eq)
next
  case False
  then show ?thesis by (subst take_all) auto
qed

lemma log_geo_home:
  assumes "log_geo st n L sz" "i < n" "j < n"
  shows "unat (L i) \<noteq> unat st + 1 + j"
  using log_geoD(3) [OF assms] log_geoD(4) [OF assms(1,3)] unat_u32_inject by metis

lemma commit_replay:
  fixes s :: "'a logst_scheme"
  assumes t: "txn_ok s n" and x: "unat x \<notin> {unat (lg_start (klog s))..unat (lg_start (klog s)) + n}"
  defines "st \<equiv> unat (lg_start (klog s))"
  shows "replay st (apply_writes (memdisk s) (take k (commit_writes s n))) (unat x) =
    (if k \<le> n then memdisk s (unat x) else diskview s x)"
proof -
  let ?L = "lh_block (lg_lh (klog s))" and ?X = "\<lambda>i. diskview s (lh_block (lg_lh (klog s)) i)"
  let ?h = "head_block n ?L (memdisk s st)" and ?st = "lg_start (klog s)"
  let ?lw = "log_writes ?st n ?X" and ?hw = "home_writes ?L n ?X"
  have h: "cst s Map.empty" "n \<le> LOGSIZE" "log_geo ?st n ?L (disksize s)"
    "dirty_blocks s = ?L ` {..<n}" "hb_n (memdisk s st) = 0"
    using t by (auto simp: txn_ok_def st_def)
  note g = log_geoD [OF h(3)]
  have Lst: "unat (?L i) \<noteq> st" "j < n \<Longrightarrow> unat (?L i) \<noteq> st + 1 + j" if "i < n" for i j
    using g(2) [OF that] log_geo_home [OF h(3) that, of j] by (simp_all add: st_def)
  have hN: "hb_n ?h = int n" "\<And>i. i < n \<Longrightarrow> hb_block ?h i = ?L i"
    using hb_head_block [OF h(2)] by auto
  have view: "diskview s x = (if x \<in> ?L ` {..<n} then diskview s x else memdisk s (unat x))"
    using clean_view [OF h(1), of x] h(4) by auto
  have mid: "replay st (apply_writes (memdisk s) (?lw @ [(st, ?h)] @ home_writes ?L j ?X)) (unat x) = diskview s x"
    if "j \<le> n" for j
  proof -
    let ?d1 = "(apply_writes (memdisk s) ?lw)(st := ?h)"
    let ?d = "apply_writes ?d1 (home_writes ?L j ?X)"
    have keep: "?d y = ?d1 y" if "\<And>i. i < n \<Longrightarrow> y \<noteq> unat (?L i)" for y
      using that \<open>j \<le> n\<close> by (intro apply_home_writes(1)) simp
    have dst: "?d st = ?h" using keep [of st] Lst(1) by auto
    have dlog: "?d (st + 1 + i) = ?X i" if "i < n" for i
    proof -
      have "st + 1 + i \<noteq> unat (?L m)" if "m < n" for m
        using Lst(2) [OF that \<open>i < n\<close>] by metis
      then show ?thesis
        using keep [of "st + 1 + i"] that apply_log_writes(2) [of i n "memdisk s" ?st ?X]
        by (simp add: st_def)
    qed
    show ?thesis
    proof (cases "x \<in> ?L ` {..<n}")
      case True
      then obtain i where i: "i < n" "x = ?L i" by auto
      have "inj_on (hb_block (?d st)) {..<n}" using g(8) hN(2) dst by (simp add: inj_on_def)
      then have "replay st ?d (unat (hb_block (?d st) i)) = ?d (st + 1 + i)"
        using hN dst i(1) by (intro replay_logged) auto
      then show ?thesis using dlog [OF i(1)] hN(2) [OF i(1)] dst i(2) by simp
    next
      case False
      then have nL: "unat x \<noteq> unat (?L i)" if "i < n" for i using that by auto
      have "replay st ?d (unat x) = ?d (unat x)"
        using hN dst nL by (intro replay_other [of _ _ n]) auto
      also have "\<dots> = memdisk s (unat x)"
        using keep [OF nL] x apply_log_writes(1) [of "unat x" ?st n "memdisk s" ?X] by (auto simp: st_def)
      finally show ?thesis using view False by simp
    qed
  qed
  consider "k \<le> n" | "n < k" "k \<le> 2 * n + 1" | "2 * n + 1 < k" by linarith
  then show ?thesis
  proof cases
    case 1
    let ?d = "apply_writes (memdisk s) (log_writes ?st (min k n) ?X)"
    have "?d st = memdisk s st" by (simp add: apply_log_writes st_def)
    then have "replay st ?d = ?d" using h(5) by (intro replay_empty) simp
    moreover have "?d (unat x) = memdisk s (unat x)"
      using x 1 by (intro apply_log_writes(1)) auto
    ultimately show ?thesis
      using 1 by (simp add: commit_writes_def Let_def log_writes_take)
  next
    case 2
    have "take k (commit_writes s n) = ?lw @ [(st, ?h)] @ home_writes ?L (min (k - n - 1) n) ?X"
      using 2 take_split4 [of k ?lw "(st, ?h)" ?hw] by (simp add: commit_writes_def Let_def home_writes_take st_def)
    then show ?thesis using mid [of "min (k - n - 1) n"] 2 by simp
  next
    case 3
    let ?d = "(apply_writes (memdisk s) (?lw @ [(st, ?h)] @ ?hw))(st := head_block 0 ?L ?h)"
    have e: "take k (commit_writes s n) = (?lw @ [(st, ?h)] @ ?hw) @ [(st, head_block 0 ?L ?h)]"
      using 3 by (simp add: commit_writes_def Let_def st_def)
    have "replay st ?d = ?d"
      using hb_head_block(1) [of 0 ?L ?h] by (intro replay_empty) simp
    moreover have "unat x \<noteq> st" using x by (auto simp: st_def)
    moreover have "apply_writes (memdisk s) (?lw @ [(st, ?h)] @ ?hw) (unat x) = diskview s x"
    proof (cases "x \<in> ?L ` {..<n}")
      case True
      then show ?thesis using apply_home_writes(2) [OF g(8)] by auto
    next
      case False
      then have nL: "unat x \<noteq> unat (?L i)" if "i < n" for i using that by auto
      then show ?thesis
        using False view x apply_home_writes(1) [OF nL] \<open>unat x \<noteq> st\<close>
          apply_log_writes(1) [of "unat x" ?st n "memdisk s" ?X] by (auto simp: st_def)
    qed
    ultimately show ?thesis using 3 by (subst e) simp
  qed
qed

section \<open>Recovery\<close>

definition disk_log_ok :: "u32 \<Rightarrow> nat \<Rightarrow> u32 \<Rightarrow> (nat \<Rightarrow> block) \<Rightarrow> bool" where
  "disk_log_ok st n sz d \<longleftrightarrow> hb_n (d (unat st)) = int n \<and> n \<le> LOGSIZE \<and>
     log_geo st n (hb_block (d (unat st))) sz"

definition recover_writes :: "nat \<Rightarrow> nat \<Rightarrow> (nat \<Rightarrow> block) \<Rightarrow> (nat \<times> block) list" where
  "recover_writes st n d =
     home_writes (hb_block (d st)) n (\<lambda>i. d (st + 1 + i)) @ [(st, head_block 0 (\<lambda>_. 0) (d st))]"

lemma head_block_0: "head_block 0 L d = head_block 0 L' d"
  by (simp add: head_block_def)

lemma log_geo_cong:
  "log_geo st n L sz \<Longrightarrow> (\<And>i. i < n \<Longrightarrow> L' i = L i) \<Longrightarrow> log_geo st n L' sz"
  by (simp add: log_geo_def inj_on_def)

lemma recover_replay:
  assumes d: "disk_log_ok st n sz d" and x: "x \<notin> {unat st..unat st + n}"
  shows "replay (unat st) (apply_writes d (take k (recover_writes (unat st) n d))) x = replay (unat st) d x"
proof -
  let ?L = "hb_block (d (unat st))" and ?X = "\<lambda>i. d (unat st + 1 + i)" and ?st = "unat st"
  have h: "hb_n (d ?st) = int n" "log_geo st n ?L sz" using d by (auto simp: disk_log_ok_def)
  note g = log_geoD [OF h(2)]
  have Lst: "?st \<noteq> unat (?L i)" if "i < n" for i using g(2) [OF that] by simp
  show ?thesis
  proof (cases "k \<le> n")
    case True
    define d' where "d' = apply_writes d (home_writes ?L k ?X)"
    have keep: "d' y = d y" if "\<And>i. i < n \<Longrightarrow> y \<noteq> unat (?L i)" for y
      unfolding d'_def using that True by (intro apply_home_writes(1)) simp
    have dst: "d' ?st = d ?st" using keep Lst by blast
    have dlog: "d' (?st + 1 + i) = d (?st + 1 + i)" if "i < n" for i
      using keep [of "?st + 1 + i"] log_geo_home [OF h(2) _ that] by metis
    have "replay ?st d' x = replay ?st d x"
    proof (cases "\<exists>i < n. x = unat (?L i)")
      case True
      then obtain i where i: "i < n" "x = unat (?L i)" by blast
      have "replay ?st d' (unat (hb_block (d' ?st) i)) = d' (?st + 1 + i)"
        using h(1) g(8) i(1) by (intro replay_logged [of _ _ n]) (simp_all add: dst)
      moreover have "replay ?st d (unat (?L i)) = d (?st + 1 + i)"
        using h(1) g(8) i(1) by (intro replay_logged [of _ _ n]) simp_all
      ultimately show ?thesis using dlog [OF i(1)] i(2) dst by simp
    next
      case False
      then have "replay ?st d' x = d' x" "replay ?st d x = d x"
        using h(1) by (auto intro!: replay_other [of _ _ n] simp: dst)
      then show ?thesis using keep [of x] False by auto
    qed
    then show ?thesis using True by (simp add: recover_writes_def home_writes_take d'_def)
  next
    case False
    let ?d = "(apply_writes d (home_writes ?L n ?X))(?st := head_block 0 (\<lambda>_. 0) (d ?st))"
    have "replay ?st ?d = ?d"
      using hb_head_block(1) [of 0 "\<lambda>_. 0" "d ?st"] by (intro replay_empty) simp
    moreover have "?d x = replay ?st d x"
    proof (cases "\<exists>i < n. x = unat (?L i)")
      case True
      then obtain i where i: "i < n" "x = unat (?L i)" by blast
      have "replay ?st d (unat (?L i)) = d (?st + 1 + i)"
        using h(1) g(8) i(1) by (intro replay_logged [of _ _ n]) simp_all
      then show ?thesis using apply_home_writes(2) [OF g(8) i(1)] i Lst [OF i(1)] by simp
    next
      case nx: False
      then have "replay ?st d x = d x" using h(1) by (auto intro!: replay_other [of _ _ n])
      moreover have "apply_writes d (home_writes ?L n ?X) x = d x"
        using nx by (intro apply_home_writes(1)) blast
      ultimately show ?thesis using x by auto
    qed
    ultimately show ?thesis using False by (simp add: recover_writes_def)
  qed
qed

lemma recover_spec:
  fixes s :: "'a logst_scheme"
  assumes c: "cst s Map.empty" and "dirty_blocks s = {}" "lg_dev (klog s) = 1"
    and d: "disk_log_ok (lg_start (klog s)) n (disksize s) (memdisk s)"
  obtains s' where "recover_from_log s = Inr s'" "cst s' Map.empty" "dirty_blocks s' = {}"
    "wrote s (recover_writes (unat (lg_start (klog s))) n (memdisk s)) s'"
    "lh_n (lg_lh (klog s')) = 0" "lg_start (klog s') = lg_start (klog s)" "lg_dev (klog s') = 1"
proof -
  let ?st = "lg_start (klog s)"
  let ?L = "hb_block (memdisk s (unat ?st))"
  have h: "hb_n (memdisk s (unat ?st)) = int n" "n \<le> LOGSIZE" "log_geo ?st n ?L (disksize s)"
    using d by (auto simp: disk_log_ok_def)
  note g = log_geoD [OF h(3)]
  have nb: "card (dirty_blocks s) < NBUF" "0 < NBUF" using assms(2) by (auto simp: NBUF_def MAXOPBLOCKS_def)
  obtain s1 where s1: "read_head s = Inr s1" "cst s1 Map.empty" "bio_same (upd_log (\<lambda>_. klog s1) s) s1"
    "lg_start (klog s1) = ?st" "lg_dev (klog s1) = 1" "lh_n (lg_lh (klog s1)) = int n"
    "\<And>i. i < n \<Longrightarrow> lh_block (lg_lh (klog s1)) i = ?L i"
    using read_head_spec [OF c assms(3) _ h(1,2) g(6) nb(1)] assms(2) by (metis empty_iff)
  have f1: "memdisk s1 = memdisk s" "disksize s1 = disksize s" "dirty_blocks s1 = {}"
    "wrote s [] s1" "diskview s1 = diskview s"
    using s1(3) assms(2) klog_more(2) [of s1 "upd_log (\<lambda>_. klog s1) s"]
    by (simp_all add: bio_same_def wrote_def)
  let ?L1 = "lh_block (lg_lh (klog s1))"
  have geo1: "log_geo (lg_start (klog s1)) n ?L1 (disksize s1)"
    using log_geo_cong [OF h(3) s1(7)] s1(4) f1(2) by simp
  obtain s2 where s2: "install_trans s1 = Inr s2" "cst s2 Map.empty" "klog s2 = klog s1"
    "wrote s1 (home_writes ?L1 n (\<lambda>i. diskview s1 (logblk ?st i))) s2" "dirty_blocks s2 = {}"
    using install_trans_spec [OF s1(2,5,6) geo1] f1(3) s1(4) by metis
  have hw: "home_writes ?L1 n (\<lambda>i. diskview s1 (logblk ?st i)) =
      home_writes ?L n (\<lambda>i. memdisk s (unat ?st + 1 + i))"
    using s1(7) clean_view [OF s1(2)] f1(1,3) g(4) by (simp add: home_writes_def)
  have ne: "unat ?st \<noteq> unat (?L i)" if "i < n" for i using g(2) [OF that] by simp
  have st2: "memdisk s2 (unat ?st) = memdisk s (unat ?st)"
    using s2(4) f1(1) apply_home_writes(1) [OF ne] unfolding hw by (simp add: wrote_def)
  let ?s2 = "clear_lh s2"
  have k2: "lg_start (klog ?s2) = ?st" "lg_dev (klog ?s2) = 1" "lh_n (lg_lh (klog ?s2)) = int 0"
    "cst ?s2 Map.empty" "dirty_blocks ?s2 = {}" "memdisk ?s2 = memdisk s2" "disksize ?s2 = disksize s"
    using s2 s1(4,5) f1(2) by (simp_all add: clear_lh_def wrote_def)
  obtain s3 where s3: "write_head ?s2 = Inr s3" "cst s3 Map.empty" "klog s3 = klog ?s2"
    "wrote ?s2 [(unat ?st, head_block 0 (lh_block (lg_lh (klog ?s2))) (memdisk s (unat ?st)))] s3"
    "dirty_blocks s3 = {}"
  proof (rule write_head_spec [OF k2(4,2,3)])
    fix s4 assume "write_head ?s2 = Inr s4" "cst s4 Map.empty" "klog s4 = klog ?s2"
      "wrote ?s2 [(unat (lg_start (klog ?s2)), head_block 0 (lh_block (lg_lh (klog ?s2)))
        (memdisk ?s2 (unat (lg_start (klog ?s2)))))] s4" "dirty_blocks s4 = dirty_blocks ?s2"
    then show thesis using that k2 st2 by simp
  qed (use k2 g(6) nb in simp_all)
  have w: "wrote s2 [(unat ?st, head_block 0 (\<lambda>_. 0) (memdisk s (unat ?st)))] s3"
    using s3(4) head_block_0 [of "lh_block (lg_lh (klog ?s2))"]
    by (simp add: wrote_def clear_lh_def) (metis head_block_0)
  have "wrote s (recover_writes (unat ?st) n (memdisk s)) s3"
    using wrote_trans [OF f1(4) wrote_trans [OF s2(4) w]] unfolding hw by (simp add: recover_writes_def)
  moreover have "recover_from_log s = Inr s3" using s1(1) s2(1) s3(1) by (simp add: recover_from_log_def)
  ultimately show thesis using that s3 k2 by simp
qed

lemma recover_disk:
  assumes "disk_log_ok st n sz d" "x \<notin> {unat st..unat st + n}"
  shows "apply_writes d (recover_writes (unat st) n d) x = replay (unat st) d x"
    "hb_n (apply_writes d (recover_writes (unat st) n d) (unat st)) = 0"
proof -
  let ?d = "apply_writes d (recover_writes (unat st) n d)"
  show z: "hb_n (?d (unat st)) = 0"
    using hb_head_block(1) [of 0 "\<lambda>_. 0" "d (unat st)"] by (simp add: recover_writes_def)
  then have "replay (unat st) ?d = ?d" by (rule replay_empty)
  then show "?d x = replay (unat st) d x"
    using recover_replay [OF assms, of "length (recover_writes (unat st) n d)"] by simp
qed

section \<open>Restart after a crash\<close>

text \<open>
  The kernel after a reset: what is on the disk survives, the buffer cache starts empty
  (\<^verbatim>\<open>binit\<close>), and \<^verbatim>\<open>initlog\<close> runs the recovery.
\<close>

definition zero_buf :: buf where
  "zero_buf = \<lparr>b_flags = 0, b_dev = 0, b_blockno = 0, b_lock = initsleeplock, b_refcnt = 0,
     b_prev = 0, b_next = 0, b_data = (\<lambda>_. 0)\<rparr>"

definition reboot :: "int \<Rightarrow> (nat \<Rightarrow> block) \<Rightarrow> u32 \<Rightarrow> log \<Rightarrow> logst" where
  "reboot pid d sz l = binit \<lparr>mypid = pid, bcache = (\<lambda>_. zero_buf), memdisk = d, disksize = sz,
     dwrites = [], klog = l\<rparr>"

lemma binit_more:
  fixes s :: "'a biost_scheme"
  shows "biost.more (binit s) = biost.more s" "dwrites (binit s) = dwrites s"
proof -
  have "biost.more (fold binit_insert bs t) = biost.more t \<and> dwrites (fold binit_insert bs t) = dwrites t"
    for bs and t :: "'a biost_scheme"
    by (induction bs arbitrary: t) (simp_all add: binit_insert_def Let_def)
  then show "biost.more (binit s) = biost.more s" "dwrites (binit s) = dwrites s"
    by (simp_all add: binit_def Let_def)
qed

lemma reboot_ok:
  shows "cst (reboot pid d sz l) Map.empty" "dirty_blocks (reboot pid d sz l) = {}"
    "memdisk (reboot pid d sz l) = d" "disksize (reboot pid d sz l) = sz"
    "klog (reboot pid d sz l) = l" "diskview (reboot pid d sz l) = (\<lambda>n. d (unat n))"
    "dwrites (reboot pid d sz l) = []" "mypid (reboot pid d sz l) = pid"
proof -
  let ?s = "\<lparr>mypid = pid, bcache = (\<lambda>_. zero_buf), memdisk = d, disksize = sz, dwrites = [], klog = l\<rparr> :: logst"
  have z: "bcache ?s b = zero_buf\<lparr>b_flags := 0, b_dev := 0, b_refcnt := 0\<rparr>" for b
    by (simp add: zero_buf_def)
  note b = binit_same [OF z] and ok = binit_ok [OF z]
  have NB: "0 < NBUF" by (simp add: NBUF_def MAXOPBLOCKS_def)
  show "diskview (reboot pid d sz l) = (\<lambda>n. d (unat n))" using ok(2) by (simp add: reboot_def)
  show "memdisk (reboot pid d sz l) = d" "disksize (reboot pid d sz l) = sz"
    "dwrites (reboot pid d sz l) = []" "mypid (reboot pid d sz l) = pid"
    using b(5,6) [OF NB] disksize_binit [of ?s] binit_more [of ?s] by (simp_all add: reboot_def)
  show "klog (reboot pid d sz l) = l"
    using klog_more(1) [OF binit_more(1) [of ?s]] by (simp add: reboot_def)
  have "locked_bufs (reboot pid d sz l) = {}"
    using b(4) by (auto simp: locked_bufs_def reboot_def initsleeplock_def)
  then show "cst (reboot pid d sz l) Map.empty" using ok(1) by (simp add: cst_def reboot_def)
  show "dirty_blocks (reboot pid d sz l) = {}"
    using b(1) by (auto simp: dirty_blocks_def reboot_def b_dirty_def)
qed

lemma readsb_spec:
  fixes s :: "'a biost_scheme"
  assumes "cst s Map.empty" "1 < disksize s" "card (dirty_blocks s) < NBUF"
  obtains s' where "readsb 1 s = Inr (superblock_of (diskview s 1), s')" "cst s' Map.empty" "bio_same s s'"
proof -
  obtain b s1 where r1: "bread 1 1 s = Inr (b, s1)" using bread_ok [OF assms(1), of 1] assms by auto
  note l1 = bread_law [OF assms(1) r1]
  have v1: "diskview s1 = diskview s" "dirty_blocks s1 = dirty_blocks s" "memdisk s1 = memdisk s"
    using l1(4) by (auto simp: bio_same_def)
  have c1: "cst s1 [b \<mapsto> 1]" using l1(3) by simp
  have H1: "[b \<mapsto> 1] b = Some (1 :: u32)" by simp
  have pre: "1 \<in> dirty_blocks s1 \<or> diskview s1 1 = memdisk s1 (unat (1 :: u32))"
    using l1(6) v1 by auto
  obtain s2 where r2: "brelse b s1 = Inr s2" "cst s2 ([b \<mapsto> 1](b := None))" "bio_same s1 s2"
    using brelse_law [OF c1 H1 pre] by metis
  have "readsb 1 s = Inr (superblock_of (diskview s 1), s2)"
    using r1 r2(1) l1(5) by (simp add: readsb_def Let_def)
  then show thesis using that r2(2) bio_same_trans [OF l1(4) r2(3)] by simp
qed

lemma initlog_reboot:
  assumes "sb_logstart (superblock_of (d 1)) = st" "disk_log_ok st n sz d" "1 < sz"
  shows "\<exists>r. initlog 1 (reboot pid d sz l) = Inr r \<and> cst r Map.empty \<and> dirty_blocks r = {} \<and>
    dwrites r = recover_writes (unat st) n d \<and>
    memdisk r = apply_writes d (recover_writes (unat st) n d)"
proof -
  let ?r = "reboot pid d sz l"
  note b = reboot_ok [of pid d sz l]
  obtain r1 where r1: "readsb 1 ?r = Inr (superblock_of (diskview ?r 1), r1)" "cst r1 Map.empty" "bio_same ?r r1"
    using readsb_spec [OF b(1)] b assms(3) by (auto simp: NBUF_def MAXOPBLOCKS_def)
  let ?sb = "superblock_of (d 1)"
  let ?r2 = "upd_log (\<lambda>l. l\<lparr>lg_start := sb_logstart ?sb, lg_size := sb_nlog ?sb, lg_dev := 1\<rparr>) r1"
  have f: "memdisk r1 = d" "disksize r1 = sz" "dirty_blocks r1 = {}" "dwrites r1 = []"
    using r1(3) b by (simp_all add: bio_same_def)
  obtain r3 where r3: "recover_from_log ?r2 = Inr r3" "cst r3 Map.empty" "dirty_blocks r3 = {}"
    "wrote ?r2 (recover_writes (unat st) n d) r3"
  proof (rule recover_spec [of ?r2 n])
    fix s' assume "recover_from_log ?r2 = Inr s'" "cst s' Map.empty" "dirty_blocks s' = {}"
      "wrote ?r2 (recover_writes (unat (lg_start (klog ?r2))) n (memdisk ?r2)) s'"
    then show thesis using that f assms(1) by simp
  qed (use r1(2) f assms in simp_all)
  have v1: "diskview ?r 1 = d 1" using b(6) by simp
  have "\<not> BSIZE \<le> 4 + 4 * LOGSIZE" by (simp add: BSIZE_def LOGSIZE_def MAXOPBLOCKS_def)
  then have "initlog 1 ?r = Inr r3" using r1(1) r3(1) unfolding v1 by (simp add: initlog_def)
  then show ?thesis using r3 f by (auto simp: wrote_def)
qed

section \<open>Properties\<close>

lemma unat_eq_1: "unat (x :: u32) = 1 \<longleftrightarrow> x = 1"
  using unat_u32_inject [of x 1] by simp

lemma unat_image_1: "1 \<notin> L ` A \<Longrightarrow> 1 \<notin> (\<lambda>i. unat (L i :: u32)) ` A"
  using unat_eq_1 by fastforce

lemma crash_disk_log_ok:
  fixes s :: "'a logst_scheme"
  assumes t: "txn_ok s n"
  shows "disk_log_ok (lg_start (klog s)) (if n < k \<and> k \<le> 2 * n + 1 then n else 0) (disksize s)
    (apply_writes (memdisk s) (take k (commit_writes s n)))"
proof -
  let ?st = "lg_start (klog s)" and ?L = "lh_block (lg_lh (klog s))"
  let ?X = "\<lambda>i. diskview s (?L i)" and ?h = "head_block n ?L (memdisk s (unat ?st))"
  let ?lw = "log_writes ?st n ?X" and ?hw = "home_writes ?L n ?X"
  have h: "n \<le> LOGSIZE" "log_geo ?st n ?L (disksize s)" "hb_n (memdisk s (unat ?st)) = 0"
    using t by (auto simp: txn_ok_def)
  note g = log_geoD [OF h(2)]
  have geo0: "log_geo ?st 0 L' (disksize s)" for L'
    using h(2) by (simp add: log_geo_def)
  have ne: "unat ?st \<noteq> unat (?L i)" if "i < n" for i using g(2) [OF that] by simp
  consider "k \<le> n" | "n < k" "k \<le> 2 * n + 1" | "2 * n + 1 < k" by linarith
  then show ?thesis
  proof cases
    case 1
    have "apply_writes (memdisk s) (log_writes ?st (min k n) ?X) (unat ?st) = memdisk s (unat ?st)"
      by (rule apply_log_writes(1)) simp
    then show ?thesis
      using 1 h(3) geo0 by (simp add: disk_log_ok_def commit_writes_def Let_def log_writes_take)
  next
    case 2
    have e: "take k (commit_writes s n) = ?lw @ [(unat ?st, ?h)] @ home_writes ?L (min (k - n - 1) n) ?X"
      using 2 take_split4 [of k ?lw "(unat ?st, ?h)" ?hw]
      by (simp add: commit_writes_def Let_def home_writes_take)
    have "apply_writes (memdisk s) (take k (commit_writes s n)) (unat ?st) = ?h"
      unfolding e using apply_home_writes(1) [of "min (k - n - 1) n" "unat ?st" ?L] ne by simp
    then show ?thesis
      using 2 h hb_head_block [OF h(1)] log_geo_cong [OF h(2)] by (simp add: disk_log_ok_def)
  next
    case 3
    have "apply_writes (memdisk s) (take k (commit_writes s n)) (unat ?st) = head_block 0 ?L ?h"
      using 3 by (simp add: commit_writes_def Let_def)
    then show ?thesis
      using 3 h geo0 hb_head_block(1) [of 0 ?L ?h] by (simp add: disk_log_ok_def)
  qed
qed

text \<open>
  C2: A transaction is atomic across crashes. Let \<open>n\<close> blocks be logged when \<^verbatim>\<open>commit\<close> runs.
  It succeeds and performs \<open>2 n + 2\<close> disk writes. If the machine stops after any number
  \<open>k\<close> of them, the next boot (empty cache, \<^verbatim>\<open>initlog\<close>) succeeds and leaves, outside the
  log area, exactly the disk before the transaction when \<open>k \<le> n\<close> and exactly the disk with
  all its changes when \<open>k > n\<close>; the write of the header is the commit point.
\<close>

theorem log_crash_atomic:
  fixes s :: "'a logst_scheme"
  assumes t: "txn_ok s n" "0 < n"
    and sb: "sb_logstart (superblock_of (memdisk s 1)) = lg_start (klog s)" "1 \<notin> dirty_blocks s"
      "1 < unat (lg_start (klog s))"
  shows "\<exists>s' w. commit s = Inr s' \<and> dwrites s' = dwrites s @ w \<and> length w = 2 * n + 2 \<and>
    memdisk s' = apply_writes (memdisk s) w \<and>
    (\<forall>k. \<exists>r. initlog 1 (reboot pid (apply_writes (memdisk s) (take k w)) (disksize s) l) = Inr r \<and>
      (\<forall>x. unat x \<notin> {unat (lg_start (klog s))..unat (lg_start (klog s)) + n} \<longrightarrow>
        memdisk r (unat x) = (if k \<le> n then memdisk s (unat x) else diskview s x)))"
proof -
  let ?st = "lg_start (klog s)" and ?w = "commit_writes s n"
  obtain s' where s': "commit s = Inr s'" "wrote s ?w s'" using commit_spec [OF t] by blast
  have geo: "log_geo ?st n (lh_block (lg_lh (klog s))) (disksize s)" "cst s Map.empty"
    using t(1) by (auto simp: txn_ok_def)
  have sz: "1 < disksize s" using log_geoD(6) [OF geo(1)] sb(3) by (simp add: word_less_nat_alt)
  have "\<exists>r. initlog 1 (reboot pid (apply_writes (memdisk s) (take k ?w)) (disksize s) l) = Inr r \<and>
      (\<forall>x. unat x \<notin> {unat ?st..unat ?st + n} \<longrightarrow>
        memdisk r (unat x) = (if k \<le> n then memdisk s (unat x) else diskview s x))" for k
  proof -
    let ?d = "apply_writes (memdisk s) (take k ?w)"
    let ?m = "if n < k \<and> k \<le> 2 * n + 1 then n else 0"
    have dl: "disk_log_ok ?st ?m (disksize s) ?d" by (rule crash_disk_log_ok [OF t(1)])
    have "?d 1 = memdisk s 1"
    proof (rule apply_writes_take_other)
      have "1 \<notin> (\<lambda>i. unat (lh_block (lg_lh (klog s)) i)) ` {..<n}"
        using sb(2) t(1) by (intro unat_image_1) (auto simp: txn_ok_def)
      then show "1 \<notin> fst ` set ?w"
        using sb(3) by (auto simp: commit_writes_def Let_def image_Un fst_writes)
    qed
    then obtain r where r: "initlog 1 (reboot pid ?d (disksize s) l) = Inr r"
      "memdisk r = apply_writes ?d (recover_writes (unat ?st) ?m ?d)"
      using initlog_reboot [of ?d ?st ?m "disksize s" pid l] sb(1) dl sz by auto
    have "memdisk r (unat x) = (if k \<le> n then memdisk s (unat x) else diskview s x)"
      if x: "unat x \<notin> {unat ?st..unat ?st + n}" for x
    proof -
      have "unat x \<notin> {unat ?st..unat ?st + ?m}" using x by auto
      then have "memdisk r (unat x) = replay (unat ?st) ?d (unat x)"
        using recover_disk(1) [OF dl] r(2) by simp
      then show ?thesis using commit_replay [OF t(1) x, of k] by simp
    qed
    then show ?thesis using r(1) by blast
  qed
  moreover have "length ?w = 2 * n + 2" by (simp add: commit_writes_def Let_def)
  ultimately show ?thesis using s' unfolding wrote_def by blast
qed

text \<open>
  C9: Recovery may itself be interrupted. On any disk with a well-formed log header,
  \<^verbatim>\<open>initlog\<close> succeeds after a reset and empties the header, and if the machine stops after any
  number of the writes of the recovery, the next boot ends with the same disk outside the
  log area as an undisturbed recovery.
\<close>

theorem recovery_restartable:
  assumes sb: "sb_logstart (superblock_of (d 1)) = st" "1 < unat st"
    and d: "disk_log_ok st n sz d" and home: "\<And>i. i < n \<Longrightarrow> hb_block (d (unat st)) i \<noteq> 1"
  shows "\<exists>r. initlog 1 (reboot pid d sz l) = Inr r \<and> hb_n (memdisk r (unat st)) = 0 \<and>
    (\<forall>k. \<exists>r'. initlog 1 (reboot pid (apply_writes d (take k (dwrites r))) sz l) = Inr r' \<and>
      (\<forall>x. x \<notin> {unat st..unat st + n} \<longrightarrow> memdisk r' x = memdisk r x))"
proof -
  let ?st = "unat st" and ?w = "recover_writes (unat st) n d"
  have geo: "log_geo st n (hb_block (d ?st)) sz" using d by (simp add: disk_log_ok_def)
  note g = log_geoD [OF geo]
  have sz: "1 < sz" using g(6) sb(2) by (simp add: word_less_nat_alt)
  obtain r where r: "initlog 1 (reboot pid d sz l) = Inr r" "dwrites r = ?w" "memdisk r = apply_writes d ?w"
    using initlog_reboot [OF sb(1) d sz] by blast
  have "\<exists>r'. initlog 1 (reboot pid (apply_writes d (take k ?w)) sz l) = Inr r' \<and>
      (\<forall>x. x \<notin> {?st..?st + n} \<longrightarrow> memdisk r' x = memdisk r x)" for k
  proof -
    let ?d = "apply_writes d (take k ?w)" and ?m = "if k \<le> n then n else 0"
    have h1: "?st \<noteq> unat (hb_block (d ?st) i)" if "i < n" for i using g(2) [OF that] by simp
    have "?d 1 = d 1"
    proof (rule apply_writes_take_other)
      have "1 \<notin> (\<lambda>i. unat (hb_block (d ?st) i)) ` {..<n}"
        using home by (intro unat_image_1) auto
      then show "1 \<notin> fst ` set ?w"
        using sb(2) by (auto simp: recover_writes_def image_Un fst_writes)
    qed
    moreover have dl: "disk_log_ok st ?m sz ?d"
    proof (cases "k \<le> n")
      case True
      then have "?d ?st = d ?st"
        using apply_home_writes(1) [of k ?st "hb_block (d ?st)"] h1
        by (simp add: recover_writes_def home_writes_take)
      then show ?thesis using True d by (simp add: disk_log_ok_def)
    next
      case False
      then have "?d ?st = head_block 0 (\<lambda>_. 0) (d ?st)" by (simp add: recover_writes_def)
      then show ?thesis using False geo hb_head_block(1) [of 0 "\<lambda>_. 0" "d ?st"]
        by (simp add: disk_log_ok_def log_geo_def)
    qed
    ultimately obtain r' where r': "initlog 1 (reboot pid ?d sz l) = Inr r'"
      "memdisk r' = apply_writes ?d (recover_writes ?st ?m ?d)"
      using initlog_reboot [of ?d st ?m sz pid l] sb(1) sz by auto
    have "memdisk r' x = memdisk r x" if x: "x \<notin> {?st..?st + n}" for x
    proof -
      have "x \<notin> {?st..?st + ?m}" using x by auto
      then show ?thesis
        using recover_disk(1) [OF dl] recover_disk(1) [OF d x] recover_replay [OF d x] r'(2) r(3) by simp
    qed
    then show ?thesis using r'(1) by blast
  qed
  moreover have "hb_n (memdisk r ?st) = 0"
    using r(3) hb_head_block(1) [of 0 "\<lambda>_. 0" "d ?st"] by (simp add: recover_writes_def)
  ultimately show ?thesis using r by auto
qed

subsection \<open>Witnesses\<close>

text \<open>A disk of 1000 blocks whose log begins at block 2, and a process in a transaction on it.\<close>

definition wit_disk :: "nat \<Rightarrow> block" where
  "wit_disk = (\<lambda>_ _. 0)(1 := wr32 (\<lambda>_. 0) 16 2)"

definition wit_log :: log where
  "wit_log = \<lparr>lg_start = 2, lg_size = 30, lg_outstanding = 1, lg_committing = False, lg_dev = 1,
     lg_lh = \<lparr>lh_n = 0, lh_block = (\<lambda>_. 0)\<rparr>\<rparr>"

lemma wit_superblock: "sb_logstart (superblock_of (wit_disk 1)) = 2"
  by (simp add: superblock_of_def wit_disk_def rd32_wr32_same_nat)

lemma wit_header: "hb_n (wit_disk 2) = 0"
  by (simp add: hb_n_def wit_disk_def rd32_def)

lemma wit_txn:
  obtains s :: logst where "txn_ok s 1" "dirty_blocks s = {100}" "memdisk s = wit_disk"
    "diskview s 100 = (\<lambda>_. 7)" "lg_start (klog s) = 2" "disksize s = 1000"
proof -
  let ?s0 = "reboot 1 wit_disk 1000 wit_log"
  note b = reboot_ok [of 1 wit_disk 1000 wit_log]
  have t0: "in_txn ?s0 Map.empty" using b by (simp add: in_txn_def wit_log_def)
  have room: "log_room ?s0" using b by (simp add: log_room_def wit_log_def LOGSIZE_def MAXOPBLOCKS_def)
  have pre: "100 \<notin> ran (Map.empty :: nat \<rightharpoonup> u32)" "100 < disksize ?s0"
    "100 \<in> dirty_blocks ?s0 \<or> card (dom (Map.empty :: nat \<rightharpoonup> u32)) + card (dirty_blocks ?s0) < NBUF"
    using b by (simp_all add: NBUF_def MAXOPBLOCKS_def)
  obtain s where s: "in_txn s Map.empty" "txn_same ?s0 s" "dirty_blocks s = insert 100 (dirty_blocks ?s0)"
    "diskview s = (diskview ?s0)(100 := (\<lambda>_. 7))"
    using txn_update_spec [OF t0 pre(1,2) room pre(3)] by metis
  have d: "dirty_blocks s = {100}" using s(3) b(2) by simp
  have f: "memdisk s = wit_disk" "disksize s = 1000" "lg_start (klog s) = 2"
    using s(2) b by (simp_all add: txn_same_def wit_log_def)
  have n: "lh_n (lg_lh (klog s)) = int 1" using in_txn_lh(1) [OF s(1)] d by simp
  then have "lh_block (lg_lh (klog s)) ` {..<1} = {100}"
    using s(1) d by (auto simp: in_txn_def)
  then have L: "lh_block (lg_lh (klog s)) 0 = 100" by (simp add: lessThan_Suc)
  have "txn_ok s 1"
    using s(1) n d f L wit_header
    by (simp add: txn_ok_def in_txn_def log_geo_def logblk_def lessThan_Suc LOGSIZE_def NBUF_def MAXOPBLOCKS_def)
  then show thesis using that d f s(4) by simp
qed

theorem log_crash_atomic_witness:
  "\<exists>(s :: logst) s' w r1 r2. txn_ok s 1 \<and> commit s = Inr s' \<and> dwrites s' = dwrites s @ w \<and>
    initlog 1 (reboot 1 (apply_writes (memdisk s) (take 1 w)) (disksize s) wit_log) = Inr r1 \<and>
    memdisk r1 100 = (\<lambda>_. 0) \<and>
    initlog 1 (reboot 1 (apply_writes (memdisk s) (take 2 w)) (disksize s) wit_log) = Inr r2 \<and>
    memdisk r2 100 = (\<lambda>_. 7)"
proof -
  obtain s :: logst where s: "txn_ok s 1" "dirty_blocks s = {100}" "memdisk s = wit_disk"
    "diskview s 100 = (\<lambda>_. 7)" "lg_start (klog s) = 2" "disksize s = 1000"
    using wit_txn by blast
  obtain s' w where w: "commit s = Inr s'" "dwrites s' = dwrites s @ w"
    "\<And>k. \<exists>r. initlog 1 (reboot 1 (apply_writes (memdisk s) (take k w)) (disksize s) wit_log) = Inr r \<and>
      (\<forall>x. unat x \<notin> {unat (lg_start (klog s))..unat (lg_start (klog s)) + 1} \<longrightarrow>
        memdisk r (unat x) = (if k \<le> 1 then memdisk s (unat x) else diskview s x))"
    using log_crash_atomic [OF s(1), of 1 wit_log] s wit_superblock by auto
  have x: "unat (100 :: u32) \<notin> {unat (lg_start (klog s))..unat (lg_start (klog s)) + 1}"
    using s(5) by simp
  have run: "\<exists>r. initlog 1 (reboot 1 (apply_writes (memdisk s) (take k w)) (disksize s) wit_log) = Inr r \<and>
      memdisk r 100 = (if k \<le> 1 then memdisk s 100 else diskview s 100)" for k
  proof -
    obtain r where "initlog 1 (reboot 1 (apply_writes (memdisk s) (take k w)) (disksize s) wit_log) = Inr r"
      and all: "\<forall>x. unat x \<notin> {unat (lg_start (klog s))..unat (lg_start (klog s)) + 1} \<longrightarrow>
        memdisk r (unat x) = (if k \<le> 1 then memdisk s (unat x) else diskview s x)"
      using w(3) [of k] by blast
    then show ?thesis using all [rule_format, OF x] by auto
  qed
  obtain r1 where r1: "initlog 1 (reboot 1 (apply_writes (memdisk s) (take 1 w)) (disksize s) wit_log) = Inr r1"
    "memdisk r1 100 = memdisk s 100" using run [of 1] by auto
  obtain r2 where r2: "initlog 1 (reboot 1 (apply_writes (memdisk s) (take 2 w)) (disksize s) wit_log) = Inr r2"
    "memdisk r2 100 = diskview s 100" using run [of 2] by auto
  have "memdisk r1 100 = (\<lambda>_. 0)" "memdisk r2 100 = (\<lambda>_. 7)"
    using r1(2) r2(2) s(3,4) by (simp_all add: wit_disk_def)
  then show ?thesis using s(1) w(1,2) r1(1) r2(1) by blast
qed

text \<open>The disk of a crash between the header write and the installation of block 100.\<close>

definition wit_crashed :: "nat \<Rightarrow> block" where
  "wit_crashed = wit_disk(2 := head_block 1 (\<lambda>_. 100) (\<lambda>_. 0), 3 := (\<lambda>_. 7))"

theorem recovery_restartable_witness:
  "\<exists>r r'. initlog 1 (reboot 1 wit_crashed 1000 wit_log) = Inr r \<and> hb_n (memdisk r 2) = 0 \<and>
    initlog 1 (reboot 1 (apply_writes wit_crashed (take 1 (dwrites r))) 1000 wit_log) = Inr r' \<and>
    memdisk r' 100 = memdisk r 100"
proof -
  have sb: "sb_logstart (superblock_of (wit_crashed 1)) = 2"
    using wit_superblock by (simp add: wit_crashed_def)
  have hb: "hb_n (wit_crashed 2) = int 1" "hb_block (wit_crashed 2) 0 = 100"
    using hb_head_block(1) [where n = 1 and L = "\<lambda>_. 100" and d = "\<lambda>_. 0"]
      hb_head_block(2) [where n = 1 and L = "\<lambda>_. 100" and d = "\<lambda>_. 0" and i = 0]
    by (simp_all add: wit_crashed_def LOGSIZE_def MAXOPBLOCKS_def)
  have d: "disk_log_ok 2 1 1000 wit_crashed"
    using hb by (simp add: disk_log_ok_def log_geo_def logblk_def lessThan_Suc LOGSIZE_def MAXOPBLOCKS_def)
  have home: "hb_block (wit_crashed (unat (2 :: u32))) i \<noteq> 1" if "i < 1" for i
    using hb(2) that by simp
  obtain r where r: "initlog 1 (reboot 1 wit_crashed 1000 wit_log) = Inr r" "hb_n (memdisk r 2) = 0"
    "\<And>k. \<exists>r'. initlog 1 (reboot 1 (apply_writes wit_crashed (take k (dwrites r))) 1000 wit_log) = Inr r' \<and>
      (\<forall>x. x \<notin> {unat (2 :: u32)..unat (2 :: u32) + 1} \<longrightarrow> memdisk r' x = memdisk r x)"
    using recovery_restartable [OF sb _ d home, of 1 wit_log] by auto
  then show ?thesis using r(3) [of 1] by fastforce
qed

end
