(* ===== verification/Log_Reserve.thy ===== *)
theory Log_Reserve
  imports Log_Props
begin

text \<open>
  The reservation scheme of \<^verbatim>\<open>begin_op\<close>: any number of file system calls run at the same
  time, each may log blocks, and \<^verbatim>\<open>log_write\<close> must never find the log full. \<open>ops_run\<close> lets
  the calls interleave; it keeps for each call in progress the set of blocks it has logged.
\<close>

section \<open>What the operations leave alone\<close>

lemma iderw_more: "iderw b s = Inr s' \<Longrightarrow> biost.more s' = biost.more s"
  by (auto simp: iderw_def Let_def upd_buf_def split: if_splits)

lemma bget_more: "bget dev n s = Inr (b, s') \<Longrightarrow> biost.more s' = biost.more s"
  by (auto simp: bget_def lock_buf_def upd_buf_def elim!: bindr_InrE split: option.splits)

lemma bread_more: "bread dev n s = Inr (b, s') \<Longrightarrow> biost.more s' = biost.more s"
  by (auto simp: bread_def elim!: bindr_InrE split: if_splits dest!: bget_more iderw_more)

lemma bwrite_more: "bwrite b s = Inr s' \<Longrightarrow> biost.more s' = biost.more s"
  by (auto simp: bwrite_def split: if_splits dest!: iderw_more)

lemma brelse_more: "brelse b s = Inr s' \<Longrightarrow> biost.more s' = biost.more s"
  by (auto simp: brelse_def Let_def split: if_splits)

lemmas buffer_klog = bread_more [THEN klog_more(1)] bwrite_more [THEN klog_more(1)]
  brelse_more [THEN klog_more(1)]

lemma forr_pres:
  assumes "\<And>i t t'. body i t = Inr t' \<Longrightarrow> f t' = f t" "forr xs body s = Inr s'"
  shows "f s' = f s"
  using assms(2) by (induction xs arbitrary: s) (auto elim!: bindr_InrE dest!: assms(1))

lemma install_trans_klog: "install_trans s = Inr s' \<Longrightarrow> klog s' = klog s"
  unfolding install_trans_def
  by (rule forr_pres [where f = klog]) (auto elim!: bindr_InrE dest!: buffer_klog)

lemma write_log_klog: "write_log s = Inr s' \<Longrightarrow> klog s' = klog s"
  unfolding write_log_def
  by (rule forr_pres [where f = klog]) (auto elim!: bindr_InrE dest!: buffer_klog)

lemma write_head_klog:
  assumes "write_head s = Inr s'"
  shows "klog s' = klog s"
proof -
  obtain buf s1 s2 s3 where r: "bread (lg_dev (klog s)) (lg_start (klog s)) s = Inr (buf, s1)"
    "forr [0..<nat (lh_n (lg_lh (klog s1)))] (\<lambda>i s. if i \<ge> LOGSIZE then Inl OutOfBounds
         else Inr (set_data buf (wr32 (b_data (bcache s buf)) (4 + 4 * i) (lh_block (lg_lh (klog s1)) i)) s))
       (set_data buf (wr32 (b_data (bcache s1 buf)) 0 (of_int (lh_n (lg_lh (klog s1))))) s1) = Inr s2"
    "bwrite buf s2 = Inr s3" "brelse buf s3 = Inr s'"
    using assms by (auto simp: write_head_def Let_def elim!: bindr_InrE)
  have "klog s2 = klog (set_data buf (wr32 (b_data (bcache s1 buf)) 0 (of_int (lh_n (lg_lh (klog s1))))) s1)"
    by (rule forr_pres [where f = klog, OF _ r(2)]) (auto split: if_splits)
  then show ?thesis by (simp add: buffer_klog(1) [OF r(1)] buffer_klog(2) [OF r(3)] buffer_klog(3) [OF r(4)])
qed

lemma commit_klog:
  assumes "commit s = Inr s'"
  shows "klog s' = (if 0 < lh_n (lg_lh (klog s)) then (klog s)\<lparr>lg_lh := (lg_lh (klog s))\<lparr>lh_n := 0\<rparr>\<rparr> else klog s)"
  using assms unfolding commit_def
  by (auto simp: clear_lh_def elim!: bindr_InrE split: if_splits
      dest!: write_log_klog write_head_klog install_trans_klog)

section \<open>Interleaved calls\<close>

inductive ops_run :: "logst \<Rightarrow> (nat \<rightharpoonup> u32 set) \<Rightarrow> bool" where
  start: "\<lbrakk>lg_outstanding (klog s) = 0; \<not> lg_committing (klog s); lh_n (lg_lh (klog s)) = 0\<rbrakk>
    \<Longrightarrow> ops_run s Map.empty"
| begin_call: "\<lbrakk>ops_run s ops; ops p = None; begin_op s = Inr s'\<rbrakk> \<Longrightarrow> ops_run s' (ops(p \<mapsto> {}))"
| log: "\<lbrakk>ops_run s ops; ops p = Some B; card (insert (b_blockno (bcache s b)) B) < MAXOPBLOCKS;
    log_write b s = Inr s'\<rbrakk> \<Longrightarrow> ops_run s' (ops(p \<mapsto> insert (b_blockno (bcache s b)) B))"
| buffers: "\<lbrakk>ops_run s ops; klog s' = klog s\<rbrakk> \<Longrightarrow> ops_run s' ops"
| end_call: "\<lbrakk>ops_run s ops; ops p = Some B; end_op s = Inr s'\<rbrakk> \<Longrightarrow> ops_run s' (ops(p := None))"

definition logged :: "logst \<Rightarrow> u32 set" where
  "logged s = lh_block (lg_lh (klog s)) ` {..<nat (lh_n (lg_lh (klog s)))}"

definition budget :: "(nat \<rightharpoonup> u32 set) \<Rightarrow> nat" where
  "budget ops = (\<Sum>p \<in> dom ops. MAXOPBLOCKS - 1 - card (the (ops p)))"

definition ops_inv :: "logst \<Rightarrow> (nat \<rightharpoonup> u32 set) \<Rightarrow> bool" where
  "ops_inv s ops \<longleftrightarrow> finite (dom ops) \<and> lg_outstanding (klog s) = int (card (dom ops)) \<and>
     \<not> lg_committing (klog s) \<and> 0 \<le> lh_n (lg_lh (klog s)) \<and>
     (dom ops = {} \<longrightarrow> lh_n (lg_lh (klog s)) = 0) \<and>
     (\<forall>p B. ops p = Some B \<longrightarrow> finite B \<and> card B < MAXOPBLOCKS \<and> B \<subseteq> logged s) \<and>
     nat (lh_n (lg_lh (klog s))) + budget ops \<le> LOGSIZE - 2"

lemma budget_upd:
  assumes "finite (dom ops)" "ops p = Some B"
  shows "budget ops = budget (ops(p := None)) + (MAXOPBLOCKS - 1 - card B)"
    "budget (ops(p \<mapsto> B')) = budget (ops(p := None)) + (MAXOPBLOCKS - 1 - card B')"
proof -
  have "p \<in> dom ops" using assms(2) by auto
  then show "budget ops = budget (ops(p := None)) + (MAXOPBLOCKS - 1 - card B)"
    using assms by (simp add: budget_def sum.remove [of "dom ops" p] cong: sum.cong_simp)
  show "budget (ops(p \<mapsto> B')) = budget (ops(p := None)) + (MAXOPBLOCKS - 1 - card B')"
    using assms by (simp add: budget_def sum.insert_remove [of "dom ops" _ p] cong: sum.cong_simp)
qed

lemma budget_le:
  assumes "finite (dom ops)"
  shows "budget ops \<le> (MAXOPBLOCKS - 1) * card (dom ops)"
proof -
  have "budget ops \<le> (\<Sum>p \<in> dom ops. MAXOPBLOCKS - 1)"
    unfolding budget_def by (rule sum_mono) simp
  then show ?thesis by (simp add: mult.commute)
qed

lemma log_write_klog:
  assumes "log_write b s = Inr s'" "0 \<le> lh_n (lg_lh (klog s))"
  defines "m \<equiv> b_blockno (bcache s b)"
  shows "logged s' = insert m (logged s)" "lg_outstanding (klog s') = lg_outstanding (klog s)"
    "lg_committing (klog s') = lg_committing (klog s)"
    "lh_n (lg_lh (klog s')) = lh_n (lg_lh (klog s)) + (if m \<in> logged s then 0 else 1)"
proof -
  let ?lh = "lg_lh (klog s)"
  define n where "n = nat (lh_n ?lh)"
  define i where "i = log_index (lh_block ?lh) m [0..<n] n"
  have n: "lh_n ?lh = int n" using assms(2) by (simp add: n_def)
  have k: "klog s' = (let l = (klog s)\<lparr>lg_lh := ?lh\<lparr>lh_block := (lh_block ?lh)(i := m)\<rparr>\<rparr> in
      if i = n then l\<lparr>lg_lh := (lg_lh l)\<lparr>lh_n := int n + 1\<rparr>\<rparr> else l)"
    using assms(1) n by (auto simp: log_write_def Let_def i_def m_def split: if_splits)
  have i: "i < n \<and> lh_block ?lh i = m \<or> i = n \<and> m \<notin> logged s"
    using log_index_spec [of "[0..<n]" n "lh_block ?lh" m] n by (auto simp: i_def logged_def)
  show "lg_outstanding (klog s') = lg_outstanding (klog s)" "lg_committing (klog s') = lg_committing (klog s)"
    using k by (auto simp: Let_def split: if_splits)
  show "logged s' = insert m (logged s)"
  proof (cases "i = n")
    case True
    then show ?thesis using k n by (auto simp: logged_def nat_add_distrib lessThan_Suc)
  next
    case False
    then have "(lh_block ?lh)(i := m) = lh_block ?lh" "m \<in> logged s" using i n by (auto simp: logged_def)
    then show ?thesis using k False n by (simp add: logged_def Let_def insert_absorb)
  qed
  have "m \<in> logged s" if "i \<noteq> n" using i n that by (auto simp: logged_def)
  then show "lh_n (lg_lh (klog s')) = lh_n ?lh + (if m \<in> logged s then 0 else 1)"
    using k n i by (auto simp: Let_def)
qed

lemma ops_inv_log:
  assumes inv: "ops_inv s ops" and p: "ops p = Some B" and w: "log_write b s = Inr s'"
    and lim: "card (insert (b_blockno (bcache s b)) B) < MAXOPBLOCKS"
  shows "ops_inv s' (ops(p \<mapsto> insert (b_blockno (bcache s b)) B))"
proof -
  let ?m = "b_blockno (bcache s b)"
  have h: "finite (dom ops)" "0 \<le> lh_n (lg_lh (klog s))" "finite B" "card B < MAXOPBLOCKS" "B \<subseteq> logged s"
    "nat (lh_n (lg_lh (klog s))) + budget ops \<le> LOGSIZE - 2"
    using inv p by (auto simp: ops_inv_def)
  note l = log_write_klog [OF w h(2)]
  note b = budget_upd(1) [OF h(1) p] budget_upd(2) [OF h(1) p, of "insert ?m B"]
  have "nat (lh_n (lg_lh (klog s'))) + budget (ops(p \<mapsto> insert ?m B)) \<le> LOGSIZE - 2"
  proof (cases "?m \<in> B")
    case True
    then show ?thesis using l(4) h(5,6) b by (auto simp: insert_absorb)
  next
    case False
    then have "card (insert ?m B) = Suc (card B)" using h(3) by simp
    then show ?thesis using l(4) h(2,6) b lim by (auto simp: nat_add_distrib split: if_splits)
  qed
  moreover have "finite B' \<and> card B' < MAXOPBLOCKS \<and> B' \<subseteq> logged s'"
    if "(ops(p \<mapsto> insert ?m B)) q = Some B'" for q B'
  proof (cases "q = p")
    case True
    then show ?thesis using that lim h(3,5) l(1) by auto
  next
    case False
    then have "finite B' \<and> card B' < MAXOPBLOCKS \<and> B' \<subseteq> logged s"
      using that inv unfolding ops_inv_def by auto
    then show ?thesis using l(1) by auto
  qed
  moreover have "insert p (dom ops) = dom ops" using p by auto
  ultimately show ?thesis
    using inv l by (auto simp: ops_inv_def)
qed

lemma ops_inv_begin:
  assumes inv: "ops_inv s ops" and p: "ops p = None" and b: "begin_op s = Inr s'"
  shows "ops_inv s' (ops(p \<mapsto> {}))"
proof -
  let ?n = "nat (lh_n (lg_lh (klog s)))" and ?ops = "ops(p \<mapsto> {})"
  have s': "s' = upd_log (\<lambda>l. l\<lparr>lg_outstanding := lg_outstanding l + 1\<rparr>) s"
    and g: "lh_n (lg_lh (klog s)) + (lg_outstanding (klog s) + 1) * int MAXOPBLOCKS \<le> int LOGSIZE"
    using b by (auto simp: begin_op_def split: if_splits)
  have f: "finite (dom ops)" "lg_outstanding (klog s) = int (card (dom ops))" "0 \<le> lh_n (lg_lh (klog s))"
    using inv by (auto simp: ops_inv_def)
  have c: "card (dom ?ops) = Suc (card (dom ops))" using f(1) p by (simp add: domIff)
  then have bl: "budget ?ops \<le> (MAXOPBLOCKS - 1) * Suc (card (dom ops))"
    using budget_le [of ?ops] f(1) by simp
  have "?n + budget ?ops \<le> LOGSIZE - 2"
  proof (cases "dom ops = {}")
    case True
    then have "?n = 0" using inv by (simp add: ops_inv_def)
    then show ?thesis using bl True by (simp add: MAXOPBLOCKS_def LOGSIZE_def)
  next
    case False
    then have "1 \<le> card (dom ops)" using f(1) by (simp add: Suc_le_eq card_gt_0_iff)
    moreover have "?n + (card (dom ops) + 1) * MAXOPBLOCKS \<le> LOGSIZE"
      using g f by (simp add: MAXOPBLOCKS_def LOGSIZE_def)
    ultimately show ?thesis using bl by (simp add: MAXOPBLOCKS_def LOGSIZE_def)
  qed
  moreover have "lg_outstanding (klog s') = int (card (dom ?ops))" using s' f(2) c by simp
  ultimately show ?thesis
    using inv s' by (auto simp: ops_inv_def logged_def MAXOPBLOCKS_def split: if_splits)
qed

lemma ops_inv_end:
  assumes inv: "ops_inv s ops" and p: "ops p = Some B" and e: "end_op s = Inr s'"
  shows "ops_inv s' (ops(p := None))"
proof -
  let ?ops = "ops(p := None)" and ?s1 = "upd_log (\<lambda>l. l\<lparr>lg_outstanding := lg_outstanding l - 1\<rparr>) s"
  have f: "finite (dom ops)" "lg_outstanding (klog s) = int (card (dom ops))" "0 \<le> lh_n (lg_lh (klog s))"
    "\<not> lg_committing (klog s)" using inv by (auto simp: ops_inv_def)
  have "p \<in> dom ops" using p by auto
  then have c: "card (dom ops) = Suc (card (dom ops - {p}))" using f(1) by (metis card_Suc_Diff1)
  have o: "lg_outstanding (klog ?s1) = int (card (dom ?ops))" using f(2) c by simp
  note b = budget_upd(1) [OF f(1) p]
  show ?thesis
  proof (cases "dom ?ops = {}")
    case True
    then have z: "lg_outstanding (klog ?s1) = 0" using o by (simp only: card.empty)
    then obtain s2 where s2: "commit (upd_log (\<lambda>l. l\<lparr>lg_committing := True\<rparr>) ?s1) = Inr s2"
      "s' = upd_log (\<lambda>l. l\<lparr>lg_committing := False\<rparr>) s2"
      using e f(4) by (auto simp: end_op_def Let_def elim!: bindr_InrE)
    have "lh_n (lg_lh (klog s')) = 0 \<and> lg_outstanding (klog s') = 0"
      using s2(2) commit_klog [OF s2(1)] f(3) z by auto
    moreover have "?ops = Map.empty" using True by (simp only: dom_eq_empty_conv)
    ultimately show ?thesis using s2(2) by (simp only:) (simp add: ops_inv_def budget_def)
  next
    case False
    then have "card (dom ?ops) \<noteq> 0" using f(1) by simp
    then have "s' = ?s1" using e o f(4) by (auto simp: end_op_def Let_def split: if_splits)
    then show ?thesis using inv o b False f(1)
      by (auto simp: ops_inv_def logged_def split: if_splits)
  qed
qed

lemma ops_run_inv: "ops_run s ops \<Longrightarrow> ops_inv s ops"
proof (induction rule: ops_run.induct)
  case (start s)
  then show ?case by (simp add: ops_inv_def budget_def)
next
  case (buffers s ops s')
  then show ?case by (simp add: ops_inv_def logged_def)
qed (blast intro: ops_inv_begin ops_inv_log ops_inv_end)+

section \<open>Properties\<close>

text \<open>
  C20: The log never overflows. However file system calls interleave, as long as each call
  logs fewer than \<^verbatim>\<open>MAXOPBLOCKS\<close> different blocks, no \<^verbatim>\<open>log_write\<close> of a call in progress
  panics, on a log of \<^verbatim>\<open>LOGSIZE\<close> blocks as \<^verbatim>\<open>mkfs\<close> makes it, and at most
  \<open>LOGSIZE - 2\<close> blocks are logged at any time.
\<close>

theorem log_reservation_safe:
  assumes run: "ops_run s ops" and p: "ops p = Some B"
    and lim: "card (insert (b_blockno (bcache s b)) B) < MAXOPBLOCKS"
    and size: "int LOGSIZE \<le> sint (lg_size (klog s))"
  shows "(\<exists>s'. log_write b s = Inr s') \<and> lh_n (lg_lh (klog s)) \<le> int (LOGSIZE - 2)"
proof -
  have inv: "ops_inv s ops" using run by (rule ops_run_inv)
  then have n: "nat (lh_n (lg_lh (klog s))) \<le> LOGSIZE - 2" "0 \<le> lh_n (lg_lh (klog s))"
    "lg_outstanding (klog s) = int (card (dom ops))" "finite (dom ops)"
    by (auto simp: ops_inv_def)
  have "p \<in> dom ops" using p by auto
  then have "card (dom ops) \<noteq> 0" using n(4) by auto
  then have o: "1 \<le> lg_outstanding (klog s)" using n(3) by simp
  have "lh_n (lg_lh (klog s)) \<le> 28" using n(1,2) by (simp add: LOGSIZE_def MAXOPBLOCKS_def)
  moreover have "30 \<le> sint (lg_size (klog s))" using size by (simp add: LOGSIZE_def MAXOPBLOCKS_def)
  ultimately show ?thesis
    using o by (simp add: log_write_def Let_def LOGSIZE_def MAXOPBLOCKS_def)
qed

definition wit_idle :: log where
  "wit_idle = wit_log\<lparr>lg_outstanding := 0\<rparr>"

lemma wit_begin:
  assumes "klog s = wit_idle\<lparr>lg_outstanding := int k\<rparr>" "k < 3"
  shows "begin_op s = Inr (upd_log (\<lambda>_. wit_idle\<lparr>lg_outstanding := int (Suc k)\<rparr>) s)"
proof -
  have "(int k + 1) * 10 \<le> 30" using assms(2) by simp
  then show ?thesis using assms(1)
    by (simp add: begin_op_def wit_idle_def wit_log_def LOGSIZE_def MAXOPBLOCKS_def upd_log_def)
qed

theorem log_reservation_safe_witness:
  "\<exists>s ops b. ops_run s ops \<and> ops 1 = Some {} \<and> (\<exists>s'. log_write b s = Inr s')"
proof -
  let ?s = "reboot 1 wit_disk 1000 wit_idle"
  note b = reboot_ok [of 1 wit_disk 1000 wit_idle]
  have run: "ops_run ?s Map.empty"
    using b(5) by (intro ops_run.start) (simp_all add: wit_idle_def wit_log_def)
  let ?s1 = "upd_log (\<lambda>_. wit_idle\<lparr>lg_outstanding := int (Suc 0)\<rparr>) ?s"
  have "begin_op ?s = Inr ?s1"
    using b(5) by (intro wit_begin) (simp_all add: wit_idle_def wit_log_def)
  then have r1: "ops_run ?s1 [1 \<mapsto> {}]" using ops_run.begin_call [OF run] by simp
  have "\<exists>s'. log_write 0 ?s1 = Inr s'"
    using log_reservation_safe [OF r1, of 1 "{}" 0]
    by (simp add: wit_idle_def wit_log_def LOGSIZE_def MAXOPBLOCKS_def)
  then show ?thesis using r1 by (intro exI [of _ ?s1] exI [of _ "[1 \<mapsto> {}]"]) auto
qed

text \<open>Logging the next blocks of a list, one \<^verbatim>\<open>bread\<close> to \<^verbatim>\<open>brelse\<close> each.\<close>

lemma log_many:
  fixes s :: logst
  assumes "in_txn s Map.empty" "dirty_blocks s = {}" "1 \<le> lg_outstanding (klog s)"
    "lg_size (klog s) = 30" "disksize s = 1000" "k \<le> 29"
  shows "\<exists>t. forr (map (\<lambda>i. 100 + of_nat i) [0..<k]) (\<lambda>n. txn_update 1 n (\<lambda>_ _. 7)) s = Inr t \<and>
    in_txn t Map.empty \<and> txn_same s t \<and> dirty_blocks t = (\<lambda>i. 100 + of_nat i) ` {..<k}"
  using assms(6)
proof (induction k)
  case 0
  then show ?case using assms by simp
next
  case (Suc k)
  then obtain t where t: "forr (map (\<lambda>i. 100 + of_nat i) [0..<k]) (\<lambda>n. txn_update 1 n (\<lambda>_ _. 7)) s = Inr t"
    "in_txn t Map.empty" "txn_same s t" "dirty_blocks t = (\<lambda>i. 100 + of_nat i) ` {..<k}" by auto
  have c: "card (dirty_blocks t) \<le> k" using t(4) card_image_le [of "{..<k}"] by simp
  have room: "log_room t"
    using t(3) c Suc.prems assms(3,4) by (simp add: log_room_def txn_same_def LOGSIZE_def MAXOPBLOCKS_def)
  have lt: "100 + of_nat k < disksize t"
  proof -
    have "unat (100 + of_nat k :: u32) = 100 + k"
      using Suc.prems by (simp add: unat_word_ariths unat_of_nat)
    then show ?thesis using t(3) assms(5) Suc.prems by (simp add: txn_same_def word_less_nat_alt)
  qed
  have pre: "100 + of_nat k \<in> dirty_blocks t \<or> card (dom (Map.empty :: nat \<rightharpoonup> u32)) + card (dirty_blocks t) < NBUF"
    using c Suc.prems by (simp add: NBUF_def MAXOPBLOCKS_def)
  obtain t' where t': "txn_update 1 (100 + of_nat k) (\<lambda>_ _. 7) t = Inr t'" "in_txn t' Map.empty"
    "txn_same t t'" "dirty_blocks t' = insert (100 + of_nat k) (dirty_blocks t)"
    using txn_update_spec [OF t(2) _ lt room pre] by (metis empty_iff ran_empty)
  have "dirty_blocks t' = (\<lambda>i. 100 + of_nat i) ` {..<Suc k}" using t'(4) t(4) by (simp add: lessThan_Suc)
  then show ?case using t(1,3) t' txn_same_trans by (fastforce simp: forr_append)
qed

text \<open>
  C38: The limits do not fit together. \<^verbatim>\<open>begin_op\<close> admits three calls at once because
  \<open>3 * MAXOPBLOCKS = LOGSIZE\<close>, but on the log of \<^verbatim>\<open>LOGSIZE\<close> blocks that \<^verbatim>\<open>mkfs\<close> creates one
  block is the header: when the three calls have logged 29 different blocks, fewer than their
  \<open>3 * MAXOPBLOCKS\<close>, the next \<^verbatim>\<open>log_write\<close> panics.
\<close>

theorem log_reservation_one_short:
  "\<exists>s0 s1 s2 s3 t :: logst. lg_size (klog s0) = of_nat LOGSIZE \<and> lg_outstanding (klog s0) = 0 \<and>
    begin_op s0 = Inr s1 \<and> begin_op s1 = Inr s2 \<and> begin_op s2 = Inr s3 \<and>
    forr (map (\<lambda>i. 100 + of_nat i) [0..<29]) (\<lambda>n. txn_update 1 n (\<lambda>_ _. 7)) s3 = Inr t \<and>
    lh_n (lg_lh (klog t)) = 29 \<and>
    txn_update 1 200 (\<lambda>_ _. 7) t = Inl (Panic ''too big a transaction'')"
proof -
  let ?s = "\<lambda>k. upd_log (\<lambda>_. wit_idle\<lparr>lg_outstanding := int k\<rparr>) (reboot 1 wit_disk 1000 wit_idle)"
  note b = reboot_ok [of 1 wit_disk 1000 wit_idle]
  have bg: "begin_op (?s k) = Inr (?s (Suc k))" if "k < 3" for k
    using wit_begin [of "?s k" k] that by (simp add: upd_log_def)
  have t3: "in_txn (?s 3) Map.empty"
    using b by (simp add: in_txn_def wit_idle_def wit_log_def)
  obtain t where t: "forr (map (\<lambda>i. 100 + of_nat i) [0..<29]) (\<lambda>n. txn_update 1 n (\<lambda>_ _. 7)) (?s 3) = Inr t"
    "in_txn t Map.empty" "txn_same (?s 3) t" "dirty_blocks t = (\<lambda>i. 100 + of_nat i) ` {..<29}"
    using log_many [OF t3, of 29] b by (auto simp: wit_idle_def wit_log_def)
  have "inj_on (\<lambda>i. 100 + of_nat i :: u32) {..<29}"
    by (auto simp: inj_on_def word_of_nat_eq_iff take_bit_nat_eq_self)
  then have c: "card (dirty_blocks t) = 29" using t(4) by (simp add: card_image)
  have n: "lh_n (lg_lh (klog t)) = 29" using in_txn_lh(1) [OF t(2)] c by simp
  have sz: "lg_size (klog t) = 30" "disksize t = 1000"
    using t(3) b by (simp_all add: txn_same_def wit_idle_def wit_log_def)
  obtain bp t' where r: "bread 1 200 t = Inr (bp, t')"
    using txn_bread_ok [OF t(2), of 200] sz(2) c by (auto simp: NBUF_def MAXOPBLOCKS_def)
  have "klog t' = klog t" using buffer_klog(1) [OF r] .
  then have "txn_update 1 200 (\<lambda>_ _. 7) t = Inl (Panic ''too big a transaction'')"
    using r n sz(1) by (simp add: txn_update_def log_write_def Let_def LOGSIZE_def MAXOPBLOCKS_def)
  moreover have "lg_size (klog (?s 0)) = of_nat LOGSIZE" "lg_outstanding (klog (?s 0)) = 0"
    by (simp_all add: wit_idle_def wit_log_def LOGSIZE_def MAXOPBLOCKS_def)
  moreover have "begin_op (?s 0) = Inr (?s 1)" "begin_op (?s 1) = Inr (?s 2)" "begin_op (?s 2) = Inr (?s 3)"
    using bg [of 0] bg [of 1] bg [of 2] by (simp_all add: numeral_2_eq_2 numeral_3_eq_3)
  ultimately show ?thesis using t(1) n by blast
qed

end
