(* ===== verification/Fs.thy ===== *)
theory Fs
  imports Txn
begin

text \<open>
  The file system of \<^verbatim>\<open>fs.c\<close>: the block allocator, inodes and their cache, file contents,
  directories and path names. Inode pointers are indices of \<^verbatim>\<open>icache.inode\<close>. A buffer that
  \<^verbatim>\<open>readi\<close> fills is returned as a list of bytes, a buffer that \<^verbatim>\<open>writei\<close> copies from is a
  function from the offset to the byte. Path names are the bytes before the terminating NUL.
  The device table \<^verbatim>\<open>devsw\<close> is the first argument of the operations that may call a device.
\<close>

section \<open>On-disk format (fs.h)\<close>

definition ROOTINO :: u32 where [layout_defs]: "ROOTINO = 1"
definition NDIRECT :: nat where [layout_defs]: "NDIRECT = 12"
definition NINDIRECT :: nat where [layout_defs]: "NINDIRECT = 128"
definition MAXFILE :: nat where [layout_defs]: "MAXFILE = NDIRECT + NINDIRECT"
definition IPB :: nat where [layout_defs]: "IPB = 8"
definition BPB :: nat where [layout_defs]: "BPB = BSIZE * 8"
definition DIRSIZ :: nat where [layout_defs]: "DIRSIZ = 14"

definition T_DIR :: u16 where [layout_defs]: "T_DIR = 1"
definition T_FILE :: u16 where [layout_defs]: "T_FILE = 2"
definition T_DEV :: u16 where [layout_defs]: "T_DEV = 3"

record dinode =
  d_type :: u16
  d_major :: u16
  d_minor :: u16
  d_nlink :: u16
  d_size :: u32
  d_addrs :: "nat \<Rightarrow> u32"

text \<open>
  An inode is 64 bytes: four shorts, the size at offset 8, the block addresses from offset 12.
\<close>

definition dinode_get :: "block \<Rightarrow> nat \<Rightarrow> dinode" where
  "dinode_get d i = \<lparr>d_type = rd16 d (64 * i), d_major = rd16 d (64 * i + 2),
     d_minor = rd16 d (64 * i + 4), d_nlink = rd16 d (64 * i + 6), d_size = rd32 d (64 * i + 8),
     d_addrs = (\<lambda>k. if k \<le> NDIRECT then rd32 d (64 * i + 12 + 4 * k) else 0)\<rparr>"

definition dinode_put :: "block \<Rightarrow> nat \<Rightarrow> dinode \<Rightarrow> block" where
  "dinode_put d i x =
     fold (\<lambda>k d. wr32 d (64 * i + 12 + 4 * k) (d_addrs x k)) [0..<Suc NDIRECT]
       (wr32 (wr16 (wr16 (wr16 (wr16 d (64 * i) (d_type x)) (64 * i + 2) (d_major x))
          (64 * i + 4) (d_minor x)) (64 * i + 6) (d_nlink x)) (64 * i + 8) (d_size x))"

definition IBLOCK :: "u32 \<Rightarrow> superblock \<Rightarrow> u32" where
  "IBLOCK i sb = i div of_nat IPB + sb_inodestart sb"

definition BBLOCK :: "u32 \<Rightarrow> superblock \<Rightarrow> u32" where
  "BBLOCK b sb = b div of_nat BPB + sb_bmapstart sb"

section \<open>State\<close>

record inode =
  i_dev :: u32
  i_inum :: u32
  i_ref :: int
  i_lock :: sleeplock
  i_valid :: bool
  i_type :: u16
  i_major :: u16
  i_minor :: u16
  i_nlink :: u16
  i_size :: u32
  i_addrs :: "nat \<Rightarrow> u32"

record fsst = logst +
  fs_sb :: superblock
  icache :: "nat \<Rightarrow> inode"

record stat =
  st_type :: u16
  st_dev :: u32
  st_ino :: u32
  st_nlink :: u16
  st_size :: u32

text \<open>
  A device: a read function returns the bytes it stored with its result, a write function
  takes the bytes to write.
\<close>

record 's devfns =
  dev_read :: "(nat \<Rightarrow> int \<Rightarrow> 's \<Rightarrow> (int \<times> u8 list \<times> 's) res) option"
  dev_write :: "(nat \<Rightarrow> (nat \<Rightarrow> u8) \<Rightarrow> int \<Rightarrow> 's \<Rightarrow> (int \<times> 's) res) option"

type_synonym 's devsw = "nat \<Rightarrow> 's devfns"

definition upd_inode :: "nat \<Rightarrow> (inode \<Rightarrow> inode) \<Rightarrow> 'a fsst_scheme \<Rightarrow> 'a fsst_scheme" where
  "upd_inode ip f s = s\<lparr>icache := (icache s)(ip := f (icache s ip))\<rparr>"

section \<open>Blocks\<close>

definition bzero :: "u32 \<Rightarrow> u32 \<Rightarrow> 'a fsst_scheme \<Rightarrow> 'a fsst_scheme res" where
  "bzero dev bno s =
     bindr (bread dev bno s) (\<lambda>(bp, s).
     bindr (log_write bp (set_data bp (\<lambda>i. if i < BSIZE then 0 else b_data (bcache s bp) i) s))
       (brelse bp))"

text \<open>The bit of block \<open>bi\<close> in a bitmap block, and the block with the bit set or cleared.\<close>

definition bm_mask :: "nat \<Rightarrow> u8" where "bm_mask bi = push_bit (bi mod 8) 1"

definition bm_get :: "block \<Rightarrow> nat \<Rightarrow> bool" where
  "bm_get d bi \<longleftrightarrow> d (bi div 8) AND bm_mask bi \<noteq> 0"

definition bm_set :: "block \<Rightarrow> nat \<Rightarrow> block" where
  "bm_set d bi = d(bi div 8 := d (bi div 8) OR bm_mask bi)"

definition bm_clear :: "block \<Rightarrow> nat \<Rightarrow> block" where
  "bm_clear d bi = d(bi div 8 := d (bi div 8) AND NOT (bm_mask bi))"

text \<open>
  The loops of \<^verbatim>\<open>balloc\<close>: \<open>b\<close> runs over the multiples of \<^verbatim>\<open>BPB\<close> below \<^verbatim>\<open>sb.size\<close>, \<open>bi\<close> over the
  bits of that bitmap block.
\<close>

fun balloc_scan :: "block \<Rightarrow> nat list \<Rightarrow> nat option" where
  "balloc_scan d [] = None"
| "balloc_scan d (bi # bis) = (if \<not> bm_get d bi then Some bi else balloc_scan d bis)"

fun balloc_loop :: "u32 \<Rightarrow> nat list \<Rightarrow> 'a fsst_scheme \<Rightarrow> (u32 \<times> 'a fsst_scheme) res" where
  "balloc_loop dev [] s = Inl (Panic ''balloc: out of blocks'')"
| "balloc_loop dev (b # bs) s =
     bindr (bread dev (BBLOCK (of_nat b) (fs_sb s)) s) (\<lambda>(bp, s).
     case balloc_scan (b_data (bcache s bp)) [0..<min BPB (unat (sb_size (fs_sb s)) - b)] of
       Some bi \<Rightarrow>
         bindr (log_write bp (set_data bp (bm_set (b_data (bcache s bp)) bi) s)) (\<lambda>s.
         bindr (brelse bp s) (\<lambda>s.
         bindr (bzero dev (of_nat (b + bi)) s) (\<lambda>s. Inr (of_nat (b + bi), s))))
     | None \<Rightarrow> bindr (brelse bp s) (balloc_loop dev bs))"

definition bitmap_starts :: "superblock \<Rightarrow> nat list" where
  "bitmap_starts sb = map (\<lambda>k. k * BPB) [0..<(unat (sb_size sb) + BPB - 1) div BPB]"

definition balloc :: "u32 \<Rightarrow> 'a fsst_scheme \<Rightarrow> (u32 \<times> 'a fsst_scheme) res" where
  "balloc dev s = balloc_loop dev (bitmap_starts (fs_sb s)) s"

definition bfree :: "u32 \<Rightarrow> u32 \<Rightarrow> 'a fsst_scheme \<Rightarrow> 'a fsst_scheme res" where
  "bfree dev b s =
     bindr (bread dev (BBLOCK b (fs_sb s)) s) (\<lambda>(bp, s).
     let bi = unat b mod BPB in
     if \<not> bm_get (b_data (bcache s bp)) bi then Inl (Panic ''freeing free block'')
     else bindr (log_write bp (set_data bp (bm_clear (b_data (bcache s bp)) bi) s)) (brelse bp))"

section \<open>Inodes\<close>

definition iinit :: "u32 \<Rightarrow> 'a fsst_scheme \<Rightarrow> 'a fsst_scheme res" where
  "iinit dev s =
     bindr (readsb dev (fold (\<lambda>i. upd_inode i (\<lambda>x. x\<lparr>i_lock := initsleeplock\<rparr>)) [0..<NINODE] s))
       (\<lambda>(sb, s). Inr (s\<lparr>fs_sb := sb\<rparr>))"

text \<open>
  The scan of \<^verbatim>\<open>iget\<close>: the cached entry if there is one, and the first empty slot seen.
\<close>

fun iget_scan :: "u32 \<Rightarrow> u32 \<Rightarrow> (nat \<Rightarrow> inode) \<Rightarrow> nat list \<Rightarrow> nat option \<Rightarrow> nat option \<times> nat option" where
  "iget_scan dev inum ic [] slot = (None, slot)"
| "iget_scan dev inum ic (ip # ips) slot =
     (if i_ref (ic ip) > 0 \<and> i_dev (ic ip) = dev \<and> i_inum (ic ip) = inum then (Some ip, slot)
      else iget_scan dev inum ic ips
        (if slot = None \<and> i_ref (ic ip) = 0 then Some ip else slot))"

definition iget :: "u32 \<Rightarrow> u32 \<Rightarrow> 'a fsst_scheme \<Rightarrow> (nat \<times> 'a fsst_scheme) res" where
  "iget dev inum s =
     (case iget_scan dev inum (icache s) [0..<NINODE] None of
        (Some ip, _) \<Rightarrow> Inr (ip, upd_inode ip (\<lambda>x. x\<lparr>i_ref := i_ref x + 1\<rparr>) s)
      | (None, None) \<Rightarrow> Inl (Panic ''iget: no inodes'')
      | (None, Some ip) \<Rightarrow>
          Inr (ip, upd_inode ip (\<lambda>x. x\<lparr>i_dev := dev, i_inum := inum, i_ref := 1, i_valid := False\<rparr>) s))"

definition idup :: "nat \<Rightarrow> 'a fsst_scheme \<Rightarrow> nat \<times> 'a fsst_scheme" where
  "idup ip s = (ip, upd_inode ip (\<lambda>x. x\<lparr>i_ref := i_ref x + 1\<rparr>) s)"

definition zero_dinode :: dinode where
  "zero_dinode = \<lparr>d_type = 0, d_major = 0, d_minor = 0, d_nlink = 0, d_size = 0, d_addrs = (\<lambda>_. 0)\<rparr>"

fun ialloc_loop :: "u32 \<Rightarrow> u16 \<Rightarrow> nat list \<Rightarrow> 'a fsst_scheme \<Rightarrow> (nat \<times> 'a fsst_scheme) res" where
  "ialloc_loop dev type [] s = Inl (Panic ''ialloc: no inodes'')"
| "ialloc_loop dev type (inum # inums) s =
     bindr (bread dev (IBLOCK (of_nat inum) (fs_sb s)) s) (\<lambda>(bp, s).
     let d = b_data (bcache s bp); k = inum mod IPB in
     if d_type (dinode_get d k) = 0 then
       bindr (log_write bp (set_data bp (dinode_put d k (zero_dinode\<lparr>d_type := type\<rparr>)) s)) (\<lambda>s.
       bindr (brelse bp s) (iget dev (of_nat inum)))
     else bindr (brelse bp s) (ialloc_loop dev type inums))"

definition ialloc :: "u32 \<Rightarrow> u16 \<Rightarrow> 'a fsst_scheme \<Rightarrow> (nat \<times> 'a fsst_scheme) res" where
  "ialloc dev type s = ialloc_loop dev type [1..<unat (sb_ninodes (fs_sb s))] s"

definition dinode_of :: "inode \<Rightarrow> dinode" where
  "dinode_of x = \<lparr>d_type = i_type x, d_major = i_major x, d_minor = i_minor x, d_nlink = i_nlink x,
     d_size = i_size x, d_addrs = i_addrs x\<rparr>"

definition iupdate :: "nat \<Rightarrow> 'a fsst_scheme \<Rightarrow> 'a fsst_scheme res" where
  "iupdate ip s =
     (let x = icache s ip in
      bindr (bread (i_dev x) (IBLOCK (i_inum x) (fs_sb s)) s) (\<lambda>(bp, s).
      bindr (log_write bp
        (set_data bp (dinode_put (b_data (bcache s bp)) (unat (i_inum x) mod IPB) (dinode_of x)) s))
        (brelse bp)))"

definition ilock :: "nat \<Rightarrow> 'a fsst_scheme \<Rightarrow> 'a fsst_scheme res" where
  "ilock ip s =
     (if i_ref (icache s ip) < 1 then Inl (Panic ''ilock'')
      else bindr (acquiresleep (mypid s) (i_lock (icache s ip))) (\<lambda>lk.
        let s = upd_inode ip (\<lambda>x. x\<lparr>i_lock := lk\<rparr>) s; x = icache s ip in
        if i_valid x then Inr s
        else bindr (bread (i_dev x) (IBLOCK (i_inum x) (fs_sb s)) s) (\<lambda>(bp, s).
          let dip = dinode_get (b_data (bcache s bp)) (unat (i_inum x) mod IPB);
              s = upd_inode ip (\<lambda>x. x\<lparr>i_type := d_type dip, i_major := d_major dip,
                    i_minor := d_minor dip, i_nlink := d_nlink dip, i_size := d_size dip,
                    i_addrs := d_addrs dip\<rparr>) s in
          bindr (brelse bp s) (\<lambda>s.
          let s = upd_inode ip (\<lambda>x. x\<lparr>i_valid := True\<rparr>) s in
          if i_type (icache s ip) = 0 then Inl (Panic ''ilock: no type'') else Inr s))))"

definition iunlock :: "nat \<Rightarrow> 'a fsst_scheme \<Rightarrow> 'a fsst_scheme res" where
  "iunlock ip s =
     (if \<not> holdingsleep (mypid s) (i_lock (icache s ip)) \<or> i_ref (icache s ip) < 1
      then Inl (Panic ''iunlock'')
      else Inr (upd_inode ip (\<lambda>x. x\<lparr>i_lock := releasesleep (i_lock x)\<rparr>) s))"

section \<open>Inode content\<close>

definition set_addr :: "nat \<Rightarrow> nat \<Rightarrow> u32 \<Rightarrow> 'a fsst_scheme \<Rightarrow> 'a fsst_scheme" where
  "set_addr ip k a s = upd_inode ip (\<lambda>x. x\<lparr>i_addrs := (i_addrs x)(k := a)\<rparr>) s"

text \<open>\<^verbatim>\<open>if((addr = ip->addrs[k]) == 0) ip->addrs[k] = addr = balloc(ip->dev)\<close>\<close>

definition addr_alloc :: "nat \<Rightarrow> nat \<Rightarrow> 'a fsst_scheme \<Rightarrow> (u32 \<times> 'a fsst_scheme) res" where
  "addr_alloc ip k s =
     (let addr = i_addrs (icache s ip) k in
      if addr = 0
      then bindr (balloc (i_dev (icache s ip)) s) (\<lambda>(addr, s). Inr (addr, set_addr ip k addr s))
      else Inr (addr, s))"

definition bmap :: "nat \<Rightarrow> u32 \<Rightarrow> 'a fsst_scheme \<Rightarrow> (u32 \<times> 'a fsst_scheme) res" where
  "bmap ip bn s =
     (if unat bn < NDIRECT then addr_alloc ip (unat bn) s
      else let bn = bn - of_nat NDIRECT in
      if unat bn < NINDIRECT then
        bindr (addr_alloc ip NDIRECT s) (\<lambda>(addr, s).
        bindr (bread (i_dev (icache s ip)) addr s) (\<lambda>(bp, s).
        let addr = rd32 (b_data (bcache s bp)) (4 * unat bn) in
        if addr = 0 then
          bindr (balloc (i_dev (icache s ip)) s) (\<lambda>(addr, s).
          bindr (log_write bp (set_data bp (wr32 (b_data (bcache s bp)) (4 * unat bn) addr) s)) (\<lambda>s.
          bindr (brelse bp s) (\<lambda>s. Inr (addr, s))))
        else bindr (brelse bp s) (\<lambda>s. Inr (addr, s))))
      else Inl (Panic ''bmap: out of range''))"

definition itrunc :: "nat \<Rightarrow> 'a fsst_scheme \<Rightarrow> 'a fsst_scheme res" where
  "itrunc ip s =
     bindr (forr [0..<NDIRECT] (\<lambda>i s.
        if i_addrs (icache s ip) i \<noteq> 0
        then bindr (bfree (i_dev (icache s ip)) (i_addrs (icache s ip) i) s) (\<lambda>s. Inr (set_addr ip i 0 s))
        else Inr s) s) (\<lambda>s.
     bindr
       (if i_addrs (icache s ip) NDIRECT \<noteq> 0 then
          bindr (bread (i_dev (icache s ip)) (i_addrs (icache s ip) NDIRECT) s) (\<lambda>(bp, s).
          bindr (forr [0..<NINDIRECT] (\<lambda>j s.
             let a = rd32 (b_data (bcache s bp)) (4 * j) in
             if a \<noteq> 0 then bfree (i_dev (icache s ip)) a s else Inr s) s) (\<lambda>s.
          bindr (brelse bp s) (\<lambda>s.
          bindr (bfree (i_dev (icache s ip)) (i_addrs (icache s ip) NDIRECT) s) (\<lambda>s.
          Inr (set_addr ip NDIRECT 0 s)))))
        else Inr s) (\<lambda>s.
     iupdate ip (upd_inode ip (\<lambda>x. x\<lparr>i_size := 0\<rparr>) s)))"

definition iput :: "nat \<Rightarrow> 'a fsst_scheme \<Rightarrow> 'a fsst_scheme res" where
  "iput ip s =
     bindr (acquiresleep (mypid s) (i_lock (icache s ip))) (\<lambda>lk.
     let s = upd_inode ip (\<lambda>x. x\<lparr>i_lock := lk\<rparr>) s in
     bindr
       (if i_valid (icache s ip) \<and> i_nlink (icache s ip) = 0 \<and> i_ref (icache s ip) = 1 then
          bindr (itrunc ip s) (\<lambda>s.
          bindr (iupdate ip (upd_inode ip (\<lambda>x. x\<lparr>i_type := 0\<rparr>) s)) (\<lambda>s.
          Inr (upd_inode ip (\<lambda>x. x\<lparr>i_valid := False\<rparr>) s)))
        else Inr s) (\<lambda>s.
     let s = upd_inode ip (\<lambda>x. x\<lparr>i_lock := releasesleep (i_lock x)\<rparr>) s in
     Inr (upd_inode ip (\<lambda>x. x\<lparr>i_ref := i_ref x - 1\<rparr>) s)))"

definition iunlockput :: "nat \<Rightarrow> 'a fsst_scheme \<Rightarrow> 'a fsst_scheme res" where
  "iunlockput ip s = bindr (iunlock ip s) (iput ip)"

definition stati :: "nat \<Rightarrow> 'a fsst_scheme \<Rightarrow> stat" where
  "stati ip s =
     (let x = icache s ip in
      \<lparr>st_type = i_type x, st_dev = i_dev x, st_ino = i_inum x, st_nlink = i_nlink x,
       st_size = i_size x\<rparr>)"

text \<open>The number of bytes to the end of the block or of the request, whichever is first.\<close>

definition chunk :: "u32 \<Rightarrow> u32 \<Rightarrow> u32 \<Rightarrow> u32" where
  "chunk off tot n = min (n - tot) (512 - off mod 512)"

lemma chunk_less:
  assumes "tot < n"
  shows "unat (n - (tot + chunk off tot n)) < unat (n - tot)"
proof -
  have "off mod 512 < 512" by (simp add: word_mod_less_divisor)
  then have "0 < 512 - off mod 512" by (metis (no_types) not_gr_zero word_le_sub1 diff_eq_eq add_0_left order.strict_implies_not_eq word_gt_0 right_minus_eq)
  moreover have "0 < n - tot" using assms by (metis word_gt_0 right_minus_eq order.irrefl)
  ultimately have c: "0 < chunk off tot n" "chunk off tot n \<le> n - tot" by (auto simp: chunk_def)
  then have "unat (n - tot - chunk off tot n) = unat (n - tot) - unat (chunk off tot n)"
    by (simp add: unat_sub)
  moreover have "0 < unat (chunk off tot n)" using c(1) by (simp add: word_less_nat_alt)
  moreover have "unat (chunk off tot n) \<le> unat (n - tot)" using c(2) by (simp add: word_le_nat_alt)
  ultimately show ?thesis by (simp add: diff_diff_eq)
qed

function readi_loop :: "nat \<Rightarrow> u32 \<Rightarrow> u32 \<Rightarrow> u32 \<Rightarrow> 'a fsst_scheme \<Rightarrow> (u8 list \<times> 'a fsst_scheme) res" where
  "readi_loop ip off tot n s =
     (if tot < n then
        bindr (bmap ip (off div 512) s) (\<lambda>(a, s).
        bindr (bread (i_dev (icache s ip)) a s) (\<lambda>(bp, s).
        let m = chunk off tot n; k = unat (off mod 512);
            bytes = map (b_data (bcache s bp)) [k..<k + unat m] in
        bindr (brelse bp s) (\<lambda>s.
        bindr (readi_loop ip (off + m) (tot + m) n s) (\<lambda>(rest, s). Inr (bytes @ rest, s)))))
      else Inr ([], s))"
  by auto
termination by (relation "measure (\<lambda>(ip, off, tot, n, s). unat (n - tot))") (simp_all add: chunk_less)

declare readi_loop.simps [simp del]

definition readi :: "'a fsst_scheme devsw \<Rightarrow> nat \<Rightarrow> u32 \<Rightarrow> u32 \<Rightarrow> 'a fsst_scheme \<Rightarrow>
    (int \<times> u8 list \<times> 'a fsst_scheme) res" where
  "readi devsw ip off n s =
     (let x = icache s ip in
      if i_type x = T_DEV then
        if sint (i_major x) < 0 \<or> sint (i_major x) \<ge> int NDEV then Inr (-1, [], s)
        else (case dev_read (devsw (unat (i_major x))) of
                None \<Rightarrow> Inr (-1, [], s)
              | Some rd \<Rightarrow> rd ip (sint n) s)
      else if off > i_size x \<or> off + n < off then Inr (-1, [], s)
      else let n = (if off + n > i_size x then i_size x - off else n) in
        bindr (readi_loop ip off 0 n s) (\<lambda>(bytes, s). Inr (sint n, bytes, s)))"

text \<open>\<^verbatim>\<open>memmove(bp->data + o, src, m)\<close>\<close>

definition blk_write :: "block \<Rightarrow> nat \<Rightarrow> nat \<Rightarrow> (nat \<Rightarrow> u8) \<Rightarrow> block" where
  "blk_write d k m src = (\<lambda>i. if k \<le> i \<and> i < k + m then src (i - k) else d i)"

text \<open>The loop returns the final value of \<^verbatim>\<open>off\<close>.\<close>

function writei_loop :: "nat \<Rightarrow> (nat \<Rightarrow> u8) \<Rightarrow> u32 \<Rightarrow> u32 \<Rightarrow> u32 \<Rightarrow> 'a fsst_scheme \<Rightarrow>
    (u32 \<times> 'a fsst_scheme) res" where
  "writei_loop ip src off tot n s =
     (if tot < n then
        bindr (bmap ip (off div 512) s) (\<lambda>(a, s).
        bindr (bread (i_dev (icache s ip)) a s) (\<lambda>(bp, s).
        let m = chunk off tot n in
        bindr (log_write bp (set_data bp
          (blk_write (b_data (bcache s bp)) (unat (off mod 512)) (unat m) (\<lambda>i. src (unat tot + i))) s)) (\<lambda>s.
        bindr (brelse bp s) (writei_loop ip src (off + m) (tot + m) n))))
      else Inr (off, s))"
  by auto
termination by (relation "measure (\<lambda>(ip, src, off, tot, n, s). unat (n - tot))") (simp_all add: chunk_less)

declare writei_loop.simps [simp del]

definition writei :: "'a fsst_scheme devsw \<Rightarrow> nat \<Rightarrow> (nat \<Rightarrow> u8) \<Rightarrow> u32 \<Rightarrow> u32 \<Rightarrow> 'a fsst_scheme \<Rightarrow>
    (int \<times> 'a fsst_scheme) res" where
  "writei devsw ip src off n s =
     (let x = icache s ip in
      if i_type x = T_DEV then
        if sint (i_major x) < 0 \<or> sint (i_major x) \<ge> int NDEV then Inr (-1, s)
        else (case dev_write (devsw (unat (i_major x))) of
                None \<Rightarrow> Inr (-1, s)
              | Some wr \<Rightarrow> wr ip src (sint n) s)
      else if off > i_size x \<or> off + n < off then Inr (-1, s)
      else if off + n > of_nat (MAXFILE * BSIZE) then Inr (-1, s)
      else bindr (writei_loop ip src off 0 n s) (\<lambda>(off, s).
        if n > 0 \<and> off > i_size (icache s ip)
        then bindr (iupdate ip (upd_inode ip (\<lambda>x. x\<lparr>i_size := off\<rparr>) s)) (\<lambda>s. Inr (sint n, s))
        else Inr (sint n, s)))"

section \<open>Directories\<close>

text \<open>
  A directory entry is 16 bytes: the inode number, then the name. \<^verbatim>\<open>strncmp\<close> and \<^verbatim>\<open>strncpy\<close>
  on names that are not in one memory.
\<close>

fun strncmp_at :: "(nat \<Rightarrow> u8) \<Rightarrow> (nat \<Rightarrow> u8) \<Rightarrow> nat \<Rightarrow> nat \<Rightarrow> int" where
  "strncmp_at p q i 0 = 0"
| "strncmp_at p q i (Suc n) =
     (if p i \<noteq> 0 \<and> p i = q i then strncmp_at p q (Suc i) n else uint (p i) - uint (q i))"

definition namecmp :: "(nat \<Rightarrow> u8) \<Rightarrow> (nat \<Rightarrow> u8) \<Rightarrow> int" where
  "namecmp s t = strncmp_at s t 0 DIRSIZ"

fun strncpy_at :: "(nat \<Rightarrow> u8) \<Rightarrow> nat \<Rightarrow> nat \<Rightarrow> u8 list" where
  "strncpy_at t i 0 = []"
| "strncpy_at t i (Suc n) =
     (if t i \<noteq> 0 then t i # strncpy_at t (Suc i) n else 0 # replicate n 0)"

definition de_inum :: "u8 list \<Rightarrow> u16" where "de_inum de = rd16 (\<lambda>i. de ! i) (0 :: nat)"

definition de_name :: "u8 list \<Rightarrow> nat \<Rightarrow> u8" where "de_name de i = de ! (2 + i)"

definition dirent :: "u16 \<Rightarrow> u8 list \<Rightarrow> u8 list" where
  "dirent inum name = [ucast inum, ucast (drop_bit 8 inum)] @ name"

text \<open>The offsets of the entries of a directory of \<open>sz\<close> bytes.\<close>

definition dir_offs :: "u32 \<Rightarrow> u32 list" where
  "dir_offs sz = map (\<lambda>k. of_nat (16 * k)) [0..<(unat sz + 15) div 16]"

fun dirlookup_loop :: "'a fsst_scheme devsw \<Rightarrow> nat \<Rightarrow> (nat \<Rightarrow> u8) \<Rightarrow> u32 list \<Rightarrow> 'a fsst_scheme \<Rightarrow>
    ((nat \<times> u32) option \<times> 'a fsst_scheme) res" where
  "dirlookup_loop devsw dp name [] s = Inr (None, s)"
| "dirlookup_loop devsw dp name (off # offs) s =
     bindr (readi devsw dp off 16 s) (\<lambda>(r, de, s).
     if r \<noteq> 16 then Inl (Panic ''dirlookup read'')
     else if de_inum de = 0 then dirlookup_loop devsw dp name offs s
     else if namecmp name (de_name de) = 0
     then bindr (iget (i_dev (icache s dp)) (ucast (de_inum de)) s) (\<lambda>(ip, s). Inr (Some (ip, off), s))
     else dirlookup_loop devsw dp name offs s)"

definition dirlookup :: "'a fsst_scheme devsw \<Rightarrow> nat \<Rightarrow> (nat \<Rightarrow> u8) \<Rightarrow> 'a fsst_scheme \<Rightarrow>
    ((nat \<times> u32) option \<times> 'a fsst_scheme) res" where
  "dirlookup devsw dp name s =
     (if i_type (icache s dp) \<noteq> T_DIR then Inl (Panic ''dirlookup not DIR'')
      else dirlookup_loop devsw dp name (dir_offs (i_size (icache s dp))) s)"

text \<open>The search for an empty entry; without one \<^verbatim>\<open>off\<close> ends at the first offset past the end.\<close>

fun dirlink_loop :: "'a fsst_scheme devsw \<Rightarrow> nat \<Rightarrow> u32 list \<Rightarrow> u32 \<Rightarrow> 'a fsst_scheme \<Rightarrow>
    (u32 \<times> 'a fsst_scheme) res" where
  "dirlink_loop devsw dp [] past s = Inr (past, s)"
| "dirlink_loop devsw dp (off # offs) past s =
     bindr (readi devsw dp off 16 s) (\<lambda>(r, de, s).
     if r \<noteq> 16 then Inl (Panic ''dirlink read'')
     else if de_inum de = 0 then Inr (off, s)
     else dirlink_loop devsw dp offs past s)"

definition dirlink :: "'a fsst_scheme devsw \<Rightarrow> nat \<Rightarrow> (nat \<Rightarrow> u8) \<Rightarrow> u32 \<Rightarrow> 'a fsst_scheme \<Rightarrow>
    (int \<times> 'a fsst_scheme) res" where
  "dirlink devsw dp name inum s =
     bindr (dirlookup devsw dp name s) (\<lambda>(r, s).
     case r of
       Some (ip, _) \<Rightarrow> bindr (iput ip s) (\<lambda>s. Inr (-1, s))
     | None \<Rightarrow>
         bindr (dirlink_loop devsw dp (dir_offs (i_size (icache s dp)))
                  (of_nat (16 * ((unat (i_size (icache s dp)) + 15) div 16))) s) (\<lambda>(off, s).
         let de = dirent (ucast inum) (strncpy_at name 0 DIRSIZ) in
         bindr (writei devsw dp (\<lambda>i. de ! i) off 16 s) (\<lambda>(r, s).
         if r \<noteq> 16 then Inl (Panic ''dirlink'') else Inr (0, s))))"

section \<open>Paths\<close>

text \<open>\<open>None\<close> is the null pointer; the name buffer keeps what \<^verbatim>\<open>skipelem\<close> does not write.\<close>

definition skipelem :: "u8 list \<Rightarrow> (nat \<Rightarrow> u8) \<Rightarrow> (u8 list \<times> (nat \<Rightarrow> u8)) option" where
  "skipelem path name =
     (let path = dropWhile (\<lambda>c. c = 47) path in
      if path = [] then None
      else let elem = takeWhile (\<lambda>c. c \<noteq> 47) path;
               path = dropWhile (\<lambda>c. c \<noteq> 47) path;
               name = (if length elem \<ge> DIRSIZ
                       then (\<lambda>i. if i < DIRSIZ then elem ! i else name i)
                       else (\<lambda>i. if i < length elem then elem ! i else name i)(length elem := 0))
           in Some (dropWhile (\<lambda>c. c = 47) path, name))"

lemma length_dropWhile_less: "xs \<noteq> [] \<Longrightarrow> P (hd xs) \<Longrightarrow> length (dropWhile P xs) < length xs"
  by (cases xs) (auto simp: le_imp_less_Suc length_dropWhile_le)

lemma skipelem_shorter:
  assumes "skipelem path name = Some (rest, name')"
  shows "length rest < length path"
proof -
  let ?p = "dropWhile (\<lambda>c. c = 47) path"
  have ne: "?p \<noteq> []" and r: "rest = dropWhile (\<lambda>c. c = 47) (dropWhile (\<lambda>c. c \<noteq> 47) ?p)"
    using assms by (auto simp: skipelem_def Let_def split: if_splits)
  have "length rest \<le> length (dropWhile (\<lambda>c. c \<noteq> 47) ?p)" unfolding r by (rule length_dropWhile_le)
  also have "\<dots> < length ?p"
    by (rule length_dropWhile_less [OF ne]) (use hd_dropWhile [OF ne] in simp)
  also have "\<dots> \<le> length path" by (rule length_dropWhile_le)
  finally show ?thesis .
qed

function namex_loop :: "'a fsst_scheme devsw \<Rightarrow> nat \<Rightarrow> u8 list \<Rightarrow> bool \<Rightarrow> (nat \<Rightarrow> u8) \<Rightarrow> 'a fsst_scheme \<Rightarrow>
    (nat option \<times> (nat \<Rightarrow> u8) \<times> 'a fsst_scheme) res" where
  "namex_loop devsw ip path nameiparent name s =
     (case skipelem path name of
        None \<Rightarrow>
          if nameiparent then bindr (iput ip s) (\<lambda>s. Inr (None, name, s))
          else Inr (Some ip, name, s)
      | Some (path, name) \<Rightarrow>
          bindr (ilock ip s) (\<lambda>s.
          if i_type (icache s ip) \<noteq> T_DIR then bindr (iunlockput ip s) (\<lambda>s. Inr (None, name, s))
          else if nameiparent \<and> path = []
          then bindr (iunlock ip s) (\<lambda>s. Inr (Some ip, name, s))
          else bindr (dirlookup devsw ip name s) (\<lambda>(r, s).
            case r of
              None \<Rightarrow> bindr (iunlockput ip s) (\<lambda>s. Inr (None, name, s))
            | Some (next, _) \<Rightarrow> bindr (iunlockput ip s) (namex_loop devsw next path nameiparent name))))"
  by pat_completeness auto
termination
  by (relation "measure (\<lambda>(devsw, ip, path, np, name, s). length path)") (auto dest: skipelem_shorter)

declare namex_loop.simps [simp del]

text \<open>\<open>cwd\<close> is \<^verbatim>\<open>myproc()->cwd\<close>.\<close>

definition namex :: "'a fsst_scheme devsw \<Rightarrow> nat \<Rightarrow> u8 list \<Rightarrow> bool \<Rightarrow> (nat \<Rightarrow> u8) \<Rightarrow> 'a fsst_scheme \<Rightarrow>
    (nat option \<times> (nat \<Rightarrow> u8) \<times> 'a fsst_scheme) res" where
  "namex devsw cwd path nameiparent name s =
     bindr (if path \<noteq> [] \<and> hd path = 47 then iget ROOTDEV ROOTINO s else Inr (idup cwd s)) (\<lambda>(ip, s).
       namex_loop devsw ip path nameiparent name s)"

definition namei :: "'a fsst_scheme devsw \<Rightarrow> nat \<Rightarrow> u8 list \<Rightarrow> 'a fsst_scheme \<Rightarrow>
    (nat option \<times> 'a fsst_scheme) res" where
  "namei devsw cwd path s = bindr (namex devsw cwd path False (\<lambda>_. 0) s) (\<lambda>(r, _, s). Inr (r, s))"

definition nameiparent :: "'a fsst_scheme devsw \<Rightarrow> nat \<Rightarrow> u8 list \<Rightarrow> (nat \<Rightarrow> u8) \<Rightarrow> 'a fsst_scheme \<Rightarrow>
    (nat option \<times> (nat \<Rightarrow> u8) \<times> 'a fsst_scheme) res" where
  "nameiparent devsw cwd path name s = namex devsw cwd path True name s"

end
