(* ===== verification/Fs_Layout.thy ===== *)
theory Fs_Layout
  imports Fs
begin

text \<open>
  The byte formats of the file system: inodes in their blocks, bits in the bitmap, directory
  entries and path names. Each encoder is shown to be undone by its decoder and to leave its
  neighbours alone.
\<close>

section \<open>Loads and stores in a block\<close>

lemma wr32_nat_apply: "i < a \<or> a + 4 \<le> i \<Longrightarrow> wr32 (d :: block) a v i = d i"
  by (auto simp: wr32_def)

lemma wr16_nat_apply: "i < a \<or> a + 2 \<le> i \<Longrightarrow> wr16 (d :: block) a v i = d i"
  by (auto simp: wr16_def)

lemma rd32_cong:
  assumes "\<And>k. k < 4 \<Longrightarrow> d (a + k) = e (a + k)"
  shows "rd32 d a = rd32 e (a :: nat)"
  using assms [of 0] assms [of 1] assms [of 2] assms [of 3] by (simp add: rd32_def)

lemma rd16_cong:
  assumes "\<And>k. k < 2 \<Longrightarrow> d (a + k) = e (a + k)"
  shows "rd16 d a = rd16 e (a :: nat)"
  using assms [of 0] assms [of 1] by (simp add: rd16_def)

text \<open>A table of words at offset \<open>b\<close>, written entry by entry.\<close>

lemma fold_wr32:
  fixes d :: block
  shows "i < b \<or> b + 4 * n \<le> i \<Longrightarrow> fold (\<lambda>k d. wr32 d (b + 4 * k) (f k)) [0..<n] d i = d i"
    and "k < n \<Longrightarrow> rd32 (fold (\<lambda>k d. wr32 d (b + 4 * k) (f k)) [0..<n] d) (b + 4 * k) = f k"
proof (induction n)
  case (Suc n)
  let ?d = "fold (\<lambda>k d. wr32 d (b + 4 * k) (f k)) [0..<n] d"
  { case 1 then show ?case using Suc(1) wr32_nat_apply [of i "b + 4 * n" ?d "f n"] by auto }
  { case 2
    show ?case
    proof (cases "k = n")
      case True then show ?thesis by (simp add: rd32_wr32_same_nat)
    next
      case False
      then have "rd32 (wr32 ?d (b + 4 * n) (f n)) (b + 4 * k) = rd32 ?d (b + 4 * k)"
        using 2 by (intro rd32_cong wr32_nat_apply) auto
      then show ?thesis using Suc(2) 2 False by simp
    qed }
qed simp_all

section \<open>Inodes\<close>

text \<open>An inode's bytes are those from \<open>64 i\<close> to \<open>64 i + 63\<close>.\<close>

lemma dinode_put_other: "j < 64 * i \<or> 64 * i + 64 \<le> j \<Longrightarrow> dinode_put d i x j = d j"
  by (auto simp: dinode_put_def fold_wr32(1) wr32_nat_apply wr16_nat_apply NDIRECT_def simp del: upt_Suc)

lemma dinode_get_cong:
  assumes "\<And>j. 64 * i \<le> j \<Longrightarrow> j < 64 * i + 64 \<Longrightarrow> d j = e j"
  shows "dinode_get d i = dinode_get e i"
proof -
  have "(\<lambda>k. if k \<le> NDIRECT then rd32 d (64 * i + 12 + 4 * k) else 0) =
      (\<lambda>k. if k \<le> NDIRECT then rd32 e (64 * i + 12 + 4 * k) else 0)"
    using assms by (intro ext if_cong refl rd32_cong) (simp_all add: NDIRECT_def)
  moreover have "rd16 d (64 * i) = rd16 e (64 * i)" "rd16 d (64 * i + 2) = rd16 e (64 * i + 2)"
    "rd16 d (64 * i + 4) = rd16 e (64 * i + 4)" "rd16 d (64 * i + 6) = rd16 e (64 * i + 6)"
    "rd32 d (64 * i + 8) = rd32 e (64 * i + 8)"
    by (auto intro!: rd16_cong rd32_cong assms)
  ultimately show ?thesis by (simp add: dinode_get_def)
qed

lemma dinode_get_put_other: "i \<noteq> j \<Longrightarrow> dinode_get (dinode_put d i x) j = dinode_get d j"
  by (rule dinode_get_cong, rule dinode_put_other) (cases "i < j"; auto)

text \<open>The addresses beyond the array are no part of the inode.\<close>

definition dinode_norm :: "dinode \<Rightarrow> dinode" where
  "dinode_norm x = x\<lparr>d_addrs := (\<lambda>k. if k \<le> NDIRECT then d_addrs x k else 0)\<rparr>"

lemma dinode_get_put: "dinode_get (dinode_put d i x) i = dinode_norm x"
proof -
  let ?h = "wr32 (wr16 (wr16 (wr16 (wr16 d (64 * i) (d_type x)) (64 * i + 2) (d_major x))
     (64 * i + 4) (d_minor x)) (64 * i + 6) (d_nlink x)) (64 * i + 8) (d_size x)"
  have f: "dinode_put d i x j = ?h j" if "j < 64 * i + 12" for j
    using that by (simp add: dinode_put_def fold_wr32(1) del: upt_Suc)
  have a: "rd32 (dinode_put d i x) (64 * i + 12 + 4 * k) = d_addrs x k" if "k \<le> NDIRECT" for k
    using that unfolding dinode_put_def by (subst fold_wr32(2)) simp_all
  have r16: "rd16 (dinode_put d i x) (64 * i + b) = rd16 ?h (64 * i + b)" if "b \<le> 6" for b
    using that by (intro rd16_cong f) simp
  have 1: "rd16 (dinode_put d i x) (64 * i) = rd16 ?h (64 * i)"
    "rd16 (dinode_put d i x) (64 * i + 2) = rd16 ?h (64 * i + 2)"
    "rd16 (dinode_put d i x) (64 * i + 4) = rd16 ?h (64 * i + 4)"
    "rd16 (dinode_put d i x) (64 * i + 6) = rd16 ?h (64 * i + 6)" 
    using r16 [of 0] r16 [of 2] r16 [of 4] r16 [of 6] by simp_all
  have 2: "rd32 (dinode_put d i x) (64 * i + 8) = rd32 ?h (64 * i + 8)"
    by (intro rd32_cong f) simp
  have 3: "rd16 ?h (64 * i) = d_type x" "rd16 ?h (64 * i + 2) = d_major x"
    "rd16 ?h (64 * i + 4) = d_minor x" "rd16 ?h (64 * i + 6) = d_nlink x"
    by (simp_all add: rd16_def wr16_def wr32_def bytes16_join)
  show ?thesis
    using 1 2 3 a by (simp add: dinode_get_def dinode_norm_def rd32_wr32_same_nat cong: if_cong)
qed

section \<open>The bitmap\<close>

lemma bit_bm_mask: "bit (bm_mask bi) n \<longleftrightarrow> n = bi mod 8"
  by (auto simp: bm_mask_def bit_simps)

lemma bm_get_bit: "bm_get d bi \<longleftrightarrow> bit (d (bi div 8)) (bi mod 8)"
proof -
  have "d (bi div 8) AND bm_mask bi = 0 \<longleftrightarrow> \<not> bit (d (bi div 8)) (bi mod 8)"
  proof
    assume "d (bi div 8) AND bm_mask bi = 0"
    then have "\<not> bit (d (bi div 8) AND bm_mask bi) (bi mod 8)" by simp
    then show "\<not> bit (d (bi div 8)) (bi mod 8)" by (simp add: bit_and_iff bit_bm_mask)
  qed (rule bit_word_eqI, auto simp: bit_and_iff bit_bm_mask)
  then show ?thesis by (simp add: bm_get_def)
qed

lemma bm_get_set: "bm_get (bm_set d bi) bj \<longleftrightarrow> bj = bi \<or> bm_get d bj"
proof (cases "bj div 8 = bi div 8")
  case True
  then have "bj = bi \<longleftrightarrow> bj mod 8 = bi mod 8" by (metis mult_div_mod_eq)
  then show ?thesis using True by (auto simp: bm_get_bit bm_set_def bit_simps bit_bm_mask)
qed (auto simp: bm_get_bit bm_set_def)

lemma bm_get_clear: "bm_get (bm_clear d bi) bj \<longleftrightarrow> bj \<noteq> bi \<and> bm_get d bj"
proof (cases "bj div 8 = bi div 8")
  case True
  then have "bj = bi \<longleftrightarrow> bj mod 8 = bi mod 8" by (metis mult_div_mod_eq)
  then show ?thesis using True by (auto simp: bm_get_bit bm_clear_def bit_simps bit_bm_mask)
qed (auto simp: bm_get_bit bm_clear_def)

lemma bm_clear_set: "\<not> bm_get d bi \<Longrightarrow> bm_clear (bm_set d bi) bi = d"
proof -
  assume "\<not> bm_get d bi"
  then have "(d (bi div 8) OR bm_mask bi) AND NOT (bm_mask bi) = d (bi div 8)"
    by (intro bit_word_eqI) (auto simp: bm_get_bit bit_and_iff bit_or_iff bit_not_iff bit_bm_mask)
  then show ?thesis by (simp add: bm_clear_def bm_set_def)
qed

lemma balloc_scan_spec:
  "balloc_scan d bis = Some bi \<Longrightarrow> bi \<in> set bis \<and> \<not> bm_get d bi"
  "balloc_scan d bis = None \<longleftrightarrow> (\<forall>bi \<in> set bis. bm_get d bi)"
  by (induction bis) (auto split: if_splits)

section \<open>Names\<close>

text \<open>The name held in a buffer of \<^verbatim>\<open>DIRSIZ\<close> bytes, NUL-terminated unless it fills it.\<close>

definition name_of :: "(nat \<Rightarrow> u8) \<Rightarrow> u8 list" where
  "name_of f = takeWhile (\<lambda>c. c \<noteq> 0) (map f [0..<DIRSIZ])"

lemma upt_Cons: "i < j \<Longrightarrow> [i..<j] = i # [Suc i..<j]"
  by (rule upt_conv_Cons)

lemma strncmp_at_0:
  "strncmp_at p q i n = 0 \<longleftrightarrow>
     takeWhile (\<lambda>c. c \<noteq> 0) (map p [i..<i + n]) = takeWhile (\<lambda>c. c \<noteq> 0) (map q [i..<i + n])"
proof (induction n arbitrary: i)
  case (Suc n)
  have "[i..<i + Suc n] = i # [Suc i..<Suc i + n]" by (subst upt_Cons) simp_all
  moreover have "uint (p i) - uint (q i) = 0 \<longleftrightarrow> p i = q i" by (simp add: word_uint_eq_iff)
  ultimately show ?case using Suc [of "Suc i"] by (auto simp del: upt_Suc)
qed simp

lemma namecmp_0: "namecmp s t = 0 \<longleftrightarrow> name_of s = name_of t"
  using strncmp_at_0 [of s t 0 DIRSIZ] by (simp add: namecmp_def name_of_def)

lemma strncpy_at_eq:
  "strncpy_at t i n =
     (let w = takeWhile (\<lambda>c. c \<noteq> 0) (map t [i..<i + n]) in w @ replicate (n - length w) 0)"
proof (induction n arbitrary: i)
  case (Suc n)
  have "[i..<i + Suc n] = i # [Suc i..<Suc i + n]" by (subst upt_Cons) simp_all
  then show ?case using Suc [of "Suc i"] by (auto simp: Let_def simp del: upt_Suc)
qed simp

lemma length_name_of: "length (name_of f) \<le> DIRSIZ"
  unfolding name_of_def by (rule order_trans [OF length_takeWhile_le]) simp

text \<open>A directory entry gives back the number and the name it was made from.\<close>

lemma length_strncpy_at: "length (strncpy_at t i n) = n"
  by (induction n arbitrary: i) auto

lemma takeWhile_pad: "(\<And>c. c \<in> set w \<Longrightarrow> P c) \<Longrightarrow> \<not> P z \<Longrightarrow> takeWhile P (w @ replicate n z) = w"
  by (induction w) (auto simp: takeWhile_eq_Nil_iff)

lemma dirent_get:
  shows "de_inum (dirent inum (strncpy_at name 0 DIRSIZ)) = inum"
    and "name_of (de_name (dirent inum (strncpy_at name 0 DIRSIZ))) = name_of name"
    and "length (dirent inum (strncpy_at name 0 DIRSIZ)) = 16"
proof -
  let ?c = "strncpy_at name 0 DIRSIZ"
  show "de_inum (dirent inum ?c) = inum"
    by (simp add: de_inum_def dirent_def rd16_def bytes16_join)
  show "length (dirent inum ?c) = 16" by (simp add: dirent_def length_strncpy_at DIRSIZ_def)
  have "map (de_name (dirent inum ?c)) [0..<DIRSIZ] = ?c"
    by (rule nth_equalityI) (simp_all add: length_strncpy_at de_name_def dirent_def)
  moreover have "takeWhile (\<lambda>c. c \<noteq> 0) ?c = name_of name"
    unfolding strncpy_at_eq Let_def name_of_def [symmetric, of name] add_0
    by (rule takeWhile_pad) (auto simp: name_of_def dest: set_takeWhileD)
  ultimately show "name_of (de_name (dirent inum ?c)) = name_of name" by (simp add: name_of_def)
qed

section \<open>Paths\<close>

text \<open>The reference: cut the path at every slash and drop the empty pieces.\<close>

fun split_path :: "u8 list \<Rightarrow> u8 list list" where
  "split_path [] = [[]]"
| "split_path (c # cs) =
     (case split_path cs of
        e # es \<Rightarrow> if c = 47 then [] # e # es else (c # e) # es
      | [] \<Rightarrow> [])"

definition path_elems :: "u8 list \<Rightarrow> u8 list list" where
  "path_elems path = filter (\<lambda>e. e \<noteq> []) (split_path path)"

text \<open>The names that the loop of \<^verbatim>\<open>namex\<close> obtains from \<^verbatim>\<open>skipelem\<close>.\<close>

function path_names :: "u8 list \<Rightarrow> (nat \<Rightarrow> u8) \<Rightarrow> u8 list list" where
  "path_names path name =
     (case skipelem path name of
        None \<Rightarrow> []
      | Some (rest, name) \<Rightarrow> name_of name # path_names rest name)"
  by pat_completeness auto
termination by (relation "measure (\<lambda>(path, name). length path)") (auto dest: skipelem_shorter)

declare path_names.simps [simp del]

lemma split_path_ne: "split_path p \<noteq> []"
  by (induction p) (auto split: list.splits)

lemma path_elems_Nil [simp]: "path_elems [] = []"
  by (simp add: path_elems_def)

lemma path_elems_slash: "path_elems (47 # p) = path_elems p"
  using split_path_ne [of p] by (auto simp: path_elems_def split: list.splits)

lemma path_elems_dropWhile: "path_elems (dropWhile (\<lambda>c. c = 47) p) = path_elems p"
  by (induction p) (auto simp: path_elems_slash)

lemma split_path_elem:
  assumes "47 \<notin> set e"
  shows "split_path (e @ 47 # p) = e # split_path p" "split_path e = [e]"
  using assms
proof (induction e)
  case Nil
  { case 1 then show ?case using split_path_ne [of p] by (auto split: list.splits) }
qed auto

lemma path_elems_Cons:
  assumes "p \<noteq> []" "hd p \<noteq> 47"
  shows "path_elems p = takeWhile (\<lambda>c. c \<noteq> 47) p # path_elems (dropWhile (\<lambda>c. c \<noteq> 47) p)"
proof -
  let ?e = "takeWhile (\<lambda>c. c \<noteq> 47) p" and ?r = "dropWhile (\<lambda>c. c \<noteq> 47) p"
  have e: "47 \<notin> set ?e" by (auto dest: set_takeWhileD)
  have ne: "?e \<noteq> []" using assms by (cases p) auto
  show ?thesis
  proof (cases ?r)
    case Nil
    then have "?e = p" using takeWhile_dropWhile_id [of "\<lambda>c. c \<noteq> 47" p] by simp
    moreover have "path_elems ?e = [?e]" unfolding path_elems_def split_path_elem(2) [OF e] using ne by simp
    moreover have "path_elems ?r = []" unfolding Nil by (simp add: path_elems_def)
    ultimately show ?thesis by metis
  next
    case (Cons c r)
    then have c: "c = 47" using hd_dropWhile [of "\<lambda>c. c \<noteq> 47" p] by auto
    then have p: "p = ?e @ 47 # r" using takeWhile_dropWhile_id [of "\<lambda>c. c \<noteq> 47" p] Cons by simp
    have "path_elems p = ?e # path_elems r"
      using split_path_elem(1) [OF e, of r] ne p by (simp add: path_elems_def)
    then show ?thesis using Cons c by (simp add: path_elems_slash)
  qed
qed

lemma name_of_elem:
  assumes "0 \<notin> set e"
  shows "name_of (if length e \<ge> DIRSIZ then (\<lambda>i. if i < DIRSIZ then e ! i else name i)
       else (\<lambda>i. if i < length e then e ! i else name i)(length e := 0)) = take DIRSIZ e"
proof (cases "length e \<ge> DIRSIZ")
  case True
  have "map (\<lambda>i. if i < DIRSIZ then e ! i else name i) [0..<DIRSIZ] = take DIRSIZ e"
    using True by (intro nth_equalityI) auto
  moreover have "takeWhile (\<lambda>c. c \<noteq> 0) (take DIRSIZ e) = take DIRSIZ e"
    using assms by (auto simp: takeWhile_eq_all_conv dest: in_set_takeD)
  ultimately show ?thesis using True by (simp add: name_of_def)
next
  case False
  let ?f = "(\<lambda>i. if i < length e then e ! i else name i)(length e := 0)"
  have "[0..<DIRSIZ] = [0..<length e] @ length e # [Suc (length e)..<DIRSIZ]"
    using False upt_add_eq_append [of 0 "length e" "DIRSIZ - length e"] upt_conv_Cons [of "length e" DIRSIZ] by simp
  then have "map ?f [0..<DIRSIZ] = map ?f [0..<length e] @ 0 # map ?f [Suc (length e)..<DIRSIZ]"
    by (simp only: map_append list.map fun_upd_same)
  also have "map ?f [0..<length e] = e" by (intro nth_equalityI) auto
  finally have "name_of ?f = takeWhile (\<lambda>c. c \<noteq> 0) (e @ 0 # map ?f [Suc (length e)..<DIRSIZ])"
    by (simp only: name_of_def)
  also have "\<dots> = e" using assms by (subst takeWhile_append2) auto
  finally show ?thesis using False by simp
qed

lemma skipelem_elems:
  assumes "0 \<notin> set path"
  shows "skipelem path name = None \<longleftrightarrow> path_elems path = []"
    and "skipelem path name = Some (rest, name') \<Longrightarrow>
      path_elems path = hd (path_elems path) # path_elems rest \<and>
      name_of name' = take DIRSIZ (hd (path_elems path)) \<and> (rest = [] \<longleftrightarrow> path_elems rest = []) \<and> 0 \<notin> set rest"
proof -
  let ?p = "dropWhile (\<lambda>c. c = 47) path"
  have el: "path_elems path = path_elems ?p" by (simp add: path_elems_dropWhile)
  have hd: "?p \<noteq> [] \<Longrightarrow> hd ?p \<noteq> 47" using hd_dropWhile [of "\<lambda>c. c = 47" path] by simp
  show "skipelem path name = None \<longleftrightarrow> path_elems path = []"
  proof (cases "?p = []")
    case False
    then show ?thesis unfolding el path_elems_Cons [OF False hd [OF False]]
      by (simp add: skipelem_def Let_def)
  next
    case True
    then show ?thesis unfolding el True by (simp only: skipelem_def Let_def path_elems_Nil True simp_thms if_True)
  qed
  assume s: "skipelem path name = Some (rest, name')"
  then have ne: "?p \<noteq> []" by (auto simp: skipelem_def Let_def split: if_splits)
  let ?e = "takeWhile (\<lambda>c. c \<noteq> 47) ?p" and ?r = "dropWhile (\<lambda>c. c \<noteq> 47) ?p"
  let ?n = "if length ?e \<ge> DIRSIZ then (\<lambda>i. if i < DIRSIZ then ?e ! i else name i)
       else (\<lambda>i. if i < length ?e then ?e ! i else name i)(length ?e := 0)"
  have "skipelem path name = Some (dropWhile (\<lambda>c. c = 47) ?r, ?n)"
    unfolding skipelem_def Let_def by (rule if_not_P [OF ne])
  then have "(rest, name') = (dropWhile (\<lambda>c. c = 47) ?r, ?n)" unfolding s by (rule option.inject [THEN iffD1])
  then have r: "rest = dropWhile (\<lambda>c. c = 47) ?r" and n: "name' = ?n"
    unfolding prod.inject by (rule conjunct1, rule conjunct2)
  have pe: "path_elems path = ?e # path_elems rest"
    using path_elems_Cons [OF ne hd [OF ne]] unfolding el [symmetric] r path_elems_dropWhile .
  have z: "0 \<notin> set ?e" using assms by (meson set_takeWhileD set_dropWhileD)
  have "rest = [] \<longleftrightarrow> path_elems rest = []"
  proof (cases "rest = []")
    case False
    then have "hd rest \<noteq> 47" using hd_dropWhile [of "\<lambda>c. c = 47" ?r] r by simp
    then show ?thesis using path_elems_Cons [OF False] False by simp
  qed simp
  moreover have "0 \<notin> set rest" using assms r by (meson set_dropWhileD)
  ultimately show "path_elems path = hd (path_elems path) # path_elems rest \<and>
      name_of name' = take DIRSIZ (hd (path_elems path)) \<and> (rest = [] \<longleftrightarrow> path_elems rest = []) \<and> 0 \<notin> set rest"
    using pe name_of_elem [OF z, of name] n by simp
qed

lemma path_names_elems: "0 \<notin> set path \<Longrightarrow> path_names path name = map (take DIRSIZ) (path_elems path)"
proof (induction path name rule: path_names.induct)
  case (1 path name)
  show ?case
  proof (cases "skipelem path name")
    case None
    then show ?thesis using skipelem_elems(1) [OF 1(2)] by (simp add: path_names.simps)
  next
    case (Some r)
    obtain rest name' where r: "r = (rest, name')" by fastforce
    note e = skipelem_elems(2) [OF 1(2) Some [unfolded r]]
    then have "path_names rest name' = map (take DIRSIZ) (path_elems rest)"
      using 1(1) [OF Some r [symmetric]] by blast
    moreover have "path_names path name = name_of name' # path_names rest name'"
      using Some r by (simp add: path_names.simps [of path])
    ultimately show ?thesis using e by (metis list.map(2))
  qed
qed

text \<open>
  C29: Path names are cut as documented. For a path without NUL bytes, the names that the loop
  over \<^verbatim>\<open>skipelem\<close> visits are the non-empty pieces between slashes, each cut to \<^verbatim>\<open>DIRSIZ\<close> bytes,
  whatever the name buffer held before; and when \<^verbatim>\<open>skipelem\<close> returns, the remaining path is empty
  exactly if no further name follows, which is what \<^verbatim>\<open>nameiparent\<close> tests.
\<close>

theorem skipelem_splits_path:
  assumes "0 \<notin> set path"
  shows "path_names path name = map (take DIRSIZ) (path_elems path) \<and>
    (case skipelem path name of
       None \<Rightarrow> path_elems path = []
     | Some (rest, _) \<Rightarrow> path_elems path \<noteq> [] \<and> (rest = [] \<longleftrightarrow> tl (path_elems path) = []))"
proof (cases "skipelem path name")
  case (Some r)
  obtain rest name' where r: "r = (rest, name')" by fastforce
  note e = skipelem_elems(2) [OF assms Some [unfolded r]]
  then have "tl (path_elems path) = path_elems rest" "path_elems path \<noteq> []" by (metis list.sel(3), metis list.simps(3))
  then show ?thesis using e Some r path_names_elems [OF assms] by simp
qed (use skipelem_elems(1) [OF assms] path_names_elems [OF assms] in simp)

theorem skipelem_splits_path_witness:
  "path_names [47, 97, 47, 47, 98, 98] (\<lambda>_. 7) = map (take DIRSIZ) (path_elems [47, 97, 47, 47, 98, 98]) \<and>
   map (take DIRSIZ) (path_elems [47, 97, 47, 47, 98, 98]) = [[97], [98, 98]]"
  using skipelem_splits_path [of "[47, 97, 47, 47, 98, 98]" "\<lambda>_. 7"]
  by (simp add: path_elems_def DIRSIZ_def)

end
