(* ===== verification/Fs_Spec.thy ===== *)
theory Fs_Spec
  imports Fs_Layout
begin

text \<open>
  The block and inode operations within a transaction, specified on the view of the disk. The
  space that a call may still use in the log and in the cache is a number \<open>k\<close> of blocks:
  \<open>room k s\<close>; each operation says how many it needs and how many it leaves.
\<close>

section \<open>File system fields and the cache\<close>

lemma txn_same_fs:
  fixes s s' :: "'a fsst_scheme"
  assumes "txn_same s s'"
  shows "fs_sb s' = fs_sb s" "icache s' = icache s" "fsst.more s' = fsst.more s" "mypid s' = mypid s" "disksize s' = disksize s"
proof -
  have "logst.more s' = logst.more s" "mypid s' = mypid s" "disksize s' = disksize s"
    using assms by (simp_all add: txn_same_def)
  then show "fs_sb s' = fs_sb s" "icache s' = icache s" "fsst.more s' = fsst.more s" "mypid s' = mypid s" "disksize s' = disksize s"
    by (cases s; cases s'; simp)+
qed

lemma upd_inode_fs [simp]:
  "mypid (upd_inode ip f s) = mypid s" "bcache (upd_inode ip f s) = bcache s"
  "memdisk (upd_inode ip f s) = memdisk s" "disksize (upd_inode ip f s) = disksize s"
  "dwrites (upd_inode ip f s) = dwrites s" "klog (upd_inode ip f s) = klog s"
  "fs_sb (upd_inode ip f s) = fs_sb s" "icache (upd_inode ip f s) = (icache s)(ip := f (icache s ip))"
  "fsst.more (upd_inode ip f s) = fsst.more s"
  by (simp_all add: upd_inode_def)

lemma cache_upd_inode [simp]:
  "cst (upd_inode ip f s) H = cst s H" "diskview (upd_inode ip f s) = diskview s"
  "dirty_blocks (upd_inode ip f s) = dirty_blocks s"
proof -
  show "diskview (upd_inode ip f s) = diskview s" by (rule diskview_cong) simp_all
  show "cst (upd_inode ip f s) H = cst s H"
    by (simp add: cst_def bc_ok_def buf_ok_def blk_of_def locked_bufs_def held_def)
  show "dirty_blocks (upd_inode ip f s) = dirty_blocks s" by (simp add: dirty_blocks_def blk_of_def)
qed

lemma in_txn_upd_inode [simp]: "in_txn (upd_inode ip f s) H = in_txn s H"
  by (simp add: in_txn_def)

section \<open>Room\<close>

definition room :: "nat \<Rightarrow> 'a logst_scheme \<Rightarrow> bool" where
  "room k s \<longleftrightarrow> card (dirty_blocks s) + k + 3 \<le> NBUF \<and>
     int (card (dirty_blocks s) + k) \<le> sint (lg_size (klog s)) - 1 \<and> 1 \<le> lg_outstanding (klog s)"

lemma room_le: "room k s \<Longrightarrow> j \<le> k \<Longrightarrow> room j s"
  by (auto simp: room_def)

lemma room_log: "room (Suc k) s \<Longrightarrow> log_room s"
  by (auto simp: room_def log_room_def NBUF_def LOGSIZE_def)

lemma room_same:
  assumes "room k s" "txn_same s s'" "dirty_blocks s' = dirty_blocks s"
  shows "room k s'"
  using assms by (simp add: room_def txn_same_def)

lemma room_dirty:
  assumes "room (Suc k) s" "txn_same s s'" "dirty_blocks s' = insert n (dirty_blocks s)" "finite (dirty_blocks s)"
  shows "room k s'"
  using assms card_insert_le_m1 [of "Suc (card (dirty_blocks s))" "dirty_blocks s" n]
  by (auto simp: room_def txn_same_def card_insert_if)

lemma room_upd_inode [simp]: "room k (upd_inode ip f s) = room k s"
  by (simp add: room_def)

text \<open>At most two buffers are locked when a third is read.\<close>

definition few :: "(nat \<rightharpoonup> u32) \<Rightarrow> bool" where "few H \<longleftrightarrow> card (dom H) \<le> 2"

lemma few_empty [simp]: "few Map.empty" by (simp add: few_def)

lemma room_few: "room k s \<Longrightarrow> few H \<Longrightarrow> card (dom H) + card (dirty_blocks s) < NBUF"
  by (auto simp: room_def few_def)

section \<open>Reading and changing one block\<close>

lemma fs_update:
  fixes s :: "'a fsst_scheme"
  assumes "in_txn s H" "n \<notin> ran H" "n < disksize s" "room (Suc k) s" "few H"
  obtains s' where "txn_update 1 n f s = Inr s'" "in_txn s' H" "txn_same s s'" "room k s'"
    "diskview s' = (diskview s)(n := f (diskview s n))"
proof -
  obtain s' where s': "txn_update 1 n f s = Inr s'" "in_txn s' H" "txn_same s s'"
    "diskview s' = (diskview s)(n := f (diskview s n))" "dirty_blocks s' = insert n (dirty_blocks s)"
    using txn_update_spec [OF assms(1-3) room_log [OF assms(4)]] room_few [OF assms(4,5)] by metis
  moreover have "room k s'" using room_dirty [OF assms(4) s'(3,5)] in_txn_lh(2) [OF assms(1)] by blast
  ultimately show thesis using that by blast
qed

lemma fs_bread:
  fixes s :: "'a fsst_scheme"
  assumes "in_txn s H" "n \<notin> ran H" "n < disksize s" "room k s" "few H"
  obtains b s' where "bread 1 n s = Inr (b, s')" "in_txn s' (H(b \<mapsto> n))" "b \<notin> dom H" "txn_same s s'"
    "room k s'" "diskview s' = diskview s" "b_data (bcache s' b) = diskview s n"
    "n \<in> dirty_blocks s' \<or> diskview s' n = memdisk s' (unat n)"
proof -
  obtain b s' where r: "bread 1 n s = Inr (b, s')"
    using txn_bread_ok [OF assms(1-3)] room_few [OF assms(4,5)] by blast
  note l = txn_bread [OF assms(1) r]
  have "n \<in> dirty_blocks s' \<or> diskview s' n = memdisk s' (unat n)"
    using l(4-6,8) by (auto simp: txn_same_def)
  then show thesis using that r l(1,3-7) room_same [OF assms(4) l(4,6)] by blast
qed

lemma fs_brelse:
  fixes s :: "'a fsst_scheme"
  assumes "in_txn s H" "H b = Some n" "n \<in> dirty_blocks s \<or> diskview s n = memdisk s (unat n)" "room k s"
  obtains s' where "brelse b s = Inr s'" "in_txn s' (H(b := None))" "txn_same s s'" "room k s'"
    "diskview s' = diskview s" "dirty_blocks s' = dirty_blocks s"
proof -
  obtain s' where s': "brelse b s = Inr s'" "in_txn s' (H(b := None))" "txn_same s s'"
    "diskview s' = diskview s" "dirty_blocks s' = dirty_blocks s"
    using txn_brelse [OF assms(1-3)] by blast
  then show thesis using that room_same [OF assms(4) s'(3,5)] by blast
qed

text \<open>Reading a block and releasing it at once.\<close>

lemma fs_read:
  fixes s :: "'a fsst_scheme"
  assumes "in_txn s H" "n \<notin> ran H" "n < disksize s" "room k s" "few H"
  obtains b s1 s' where "bread 1 n s = Inr (b, s1)" "b_data (bcache s1 b) = diskview s n" "txn_same s s1"
    "brelse b s1 = Inr s'" "in_txn s' H" "txn_same s s'" "room k s'" "diskview s' = diskview s"
    "dirty_blocks s1 = dirty_blocks s'"
proof -
  obtain b s1 where s1: "bread 1 n s = Inr (b, s1)" "in_txn s1 (H(b \<mapsto> n))" "b \<notin> dom H" "txn_same s s1"
    "room k s1" "diskview s1 = diskview s" "b_data (bcache s1 b) = diskview s n"
    "n \<in> dirty_blocks s1 \<or> diskview s1 n = memdisk s1 (unat n)"
    using fs_bread [OF assms] by blast
  have Hb: "(H(b \<mapsto> n)) b = Some n" "(H(b \<mapsto> n))(b := None) = H" using s1(3) by auto
  obtain s' where s': "brelse b s1 = Inr s'" "in_txn s' ((H(b \<mapsto> n))(b := None))" "txn_same s1 s'" "room k s'"
    "diskview s' = diskview s1" "dirty_blocks s' = dirty_blocks s1"
    using fs_brelse [OF s1(2) Hb(1) s1(8,5)] by metis
  show thesis
    using that [OF s1(1,7,4) s'(1)] s'(2,4-6) s1(6) Hb(2) txn_same_trans [OF s1(4) s'(3)] by simp
qed

section \<open>Geometry\<close>

text \<open>
  The layout of \<^verbatim>\<open>mkfs\<close>: inode blocks, then bitmap blocks, then data blocks from \<open>datastart\<close>.
\<close>

definition datastart :: "superblock \<Rightarrow> nat" where
  "datastart sb = unat (sb_bmapstart sb) + (unat (sb_size sb) - 1) div BPB + 1"

definition fs_geo :: "superblock \<Rightarrow> u32 \<Rightarrow> bool" where
  "fs_geo sb sz \<longleftrightarrow> 0 < unat (sb_size sb) \<and> sb_size sb \<le> sz \<and> datastart sb \<le> unat (sb_size sb) \<and>
     unat (sb_inodestart sb) + unat (sb_ninodes sb) div IPB < unat (sb_bmapstart sb)"

lemma fs_geoD:
  assumes "fs_geo sb sz"
  shows "sb_size sb \<le> sz" "datastart sb \<le> unat (sb_size sb)" "unat (sb_bmapstart sb) < datastart sb" "0 < unat (sb_size sb)"
    "b < sb_size sb \<Longrightarrow> unat (BBLOCK b sb) = unat b div BPB + unat (sb_bmapstart sb)"
    "b < sb_size sb \<Longrightarrow> unat (BBLOCK b sb) < datastart sb"
    "b < sb_size sb \<Longrightarrow> BBLOCK b sb < sz"
    "unat i \<le> unat (sb_ninodes sb) \<Longrightarrow> unat (IBLOCK i sb) = unat i div IPB + unat (sb_inodestart sb)"
    "unat i \<le> unat (sb_ninodes sb) \<Longrightarrow> unat (IBLOCK i sb) < unat (sb_bmapstart sb)"
    "unat i \<le> unat (sb_ninodes sb) \<Longrightarrow> IBLOCK i sb < sz"
proof -
  show g: "sb_size sb \<le> sz" "datastart sb \<le> unat (sb_size sb)" "unat (sb_bmapstart sb) < datastart sb" "0 < unat (sb_size sb)"
    using assms by (auto simp: fs_geo_def datastart_def)
  have sz: "unat (sb_size sb) \<le> unat sz" using g(1) by (simp add: word_le_nat_alt)
  { assume b: "b < sb_size sb"
    then have "unat b div BPB \<le> (unat (sb_size sb) - 1) div BPB"
      by (intro div_le_mono) (simp add: word_less_nat_alt)
    then have lt: "unat b div BPB + unat (sb_bmapstart sb) < datastart sb" by (simp add: datastart_def)
    then have no: "unat b div BPB + unat (sb_bmapstart sb) < 4294967296"
      using g(2) unat_u32_less [of "sb_size sb"] by linarith
    have "unat (BBLOCK b sb) = unat b div BPB + unat (sb_bmapstart sb)"
      using no by (simp add: BBLOCK_def BPB_def BSIZE_def unat_word_ariths unat_div)
    then show "unat (BBLOCK b sb) = unat b div BPB + unat (sb_bmapstart sb)" "unat (BBLOCK b sb) < datastart sb"
      "BBLOCK b sb < sz" using lt g(2) sz by (simp_all add: word_less_nat_alt) }
  { assume i: "unat i \<le> unat (sb_ninodes sb)"
    then have "unat i div IPB \<le> unat (sb_ninodes sb) div IPB" by (rule div_le_mono)
    then have lt: "unat i div IPB + unat (sb_inodestart sb) < unat (sb_bmapstart sb)"
      using assms by (simp add: fs_geo_def)
    then have no: "unat i div IPB + unat (sb_inodestart sb) < 4294967296"
      using unat_u32_less [of "sb_bmapstart sb"] by linarith
    have "unat (IBLOCK i sb) = unat i div IPB + unat (sb_inodestart sb)"
      using no by (simp add: IBLOCK_def IPB_def unat_word_ariths unat_div)
    then show "unat (IBLOCK i sb) = unat i div IPB + unat (sb_inodestart sb)"
      "unat (IBLOCK i sb) < unat (sb_bmapstart sb)" "IBLOCK i sb < sz"
      using lt g(2,3) sz by (simp_all add: word_less_nat_alt) }
qed

section \<open>The block allocator\<close>

type_synonym view = "u32 \<Rightarrow> block"

definition alloc_bit :: "view \<Rightarrow> superblock \<Rightarrow> u32 \<Rightarrow> bool" where
  "alloc_bit v sb b \<longleftrightarrow> bm_get (v (BBLOCK b sb)) (unat b mod BPB)"

definition zeroed :: "block \<Rightarrow> block" where "zeroed d = (\<lambda>i. if i < BSIZE then 0 else d i)"

text \<open>The view with the block marked in use and zeroed, and with the block marked free.\<close>

definition view_alloc :: "superblock \<Rightarrow> u32 \<Rightarrow> view \<Rightarrow> view" where
  "view_alloc sb b v =
     (let v = v(BBLOCK b sb := bm_set (v (BBLOCK b sb)) (unat b mod BPB)) in v(b := zeroed (v b)))"

definition view_free :: "superblock \<Rightarrow> u32 \<Rightarrow> view \<Rightarrow> view" where
  "view_free sb b v = v(BBLOCK b sb := bm_clear (v (BBLOCK b sb)) (unat b mod BPB))"

definition data_block :: "view \<Rightarrow> superblock \<Rightarrow> u32 \<Rightarrow> bool" where
  "data_block v sb b \<longleftrightarrow> b < sb_size sb \<and> datastart sb \<le> unat b \<and> alloc_bit v sb b"

text \<open>The blocks before the data area are marked in use, as \<^verbatim>\<open>mkfs\<close> does.\<close>

definition meta_ok :: "view \<Rightarrow> superblock \<Rightarrow> bool" where
  "meta_ok v sb \<longleftrightarrow> (\<forall>b. unat b < datastart sb \<longrightarrow> alloc_bit v sb b)"

lemma bzero_update: "bzero dev n s = txn_update dev n zeroed s"
  by (simp add: bzero_def txn_update_def zeroed_def)

lemma same_bit_iff:
  assumes "fs_geo sb sz" "b < sb_size sb" "c < sb_size sb"
  shows "BBLOCK b sb = BBLOCK c sb \<and> unat b mod BPB = unat c mod BPB \<longleftrightarrow> b = c"
proof
  assume "BBLOCK b sb = BBLOCK c sb \<and> unat b mod BPB = unat c mod BPB"
  then have "unat b div BPB = unat c div BPB" "unat b mod BPB = unat c mod BPB"
    using fs_geoD(5) [OF assms(1)] assms(2,3) by (metis add_right_cancel, simp)
  then have "unat b = unat c" by (metis mult_div_mod_eq)
  then show "b = c" by simp
qed simp

lemma alloc_bit_alloc:
  assumes "fs_geo sb sz" "b < sb_size sb" "datastart sb \<le> unat b" "c < sb_size sb"
  shows "alloc_bit (view_alloc sb b v) sb c \<longleftrightarrow> c = b \<or> alloc_bit v sb c"
proof -
  have ne: "BBLOCK c sb \<noteq> b" using fs_geoD(6) [OF assms(1,4)] assms(3) by auto
  show ?thesis
    using same_bit_iff [OF assms(1,4,2)] ne
    by (auto simp: alloc_bit_def view_alloc_def Let_def bm_get_set)
qed

lemma alloc_bit_free:
  assumes "fs_geo sb sz" "b < sb_size sb" "c < sb_size sb"
  shows "alloc_bit (view_free sb b v) sb c \<longleftrightarrow> c \<noteq> b \<and> alloc_bit v sb c"
  using same_bit_iff [OF assms(1,3,2)] by (auto simp: alloc_bit_def view_free_def bm_get_clear)

lemma bitmap_start_bit:
  assumes "b = j * BPB" "bi < BPB" "b + bi < unat (sb_size sb)" "fs_geo sb sz"
  shows "BBLOCK (of_nat b) sb = BBLOCK (of_nat (b + bi)) sb" "unat (of_nat (b + bi) :: u32) mod BPB = bi"
    "unat (of_nat (b + bi) :: u32) = b + bi" "of_nat (b + bi) < sb_size sb" "of_nat b < sb_size sb"
proof -
  have "b + bi < 4294967296" "b < 4294967296" using assms(3) unat_u32_less [of "sb_size sb"] by linarith+
  then have u: "unat (of_nat (b + bi) :: u32) = b + bi" "unat (of_nat b :: u32) = b"
    by (simp_all add: unat_of_nat del: of_nat_add)
  show "unat (of_nat (b + bi) :: u32) = b + bi" by (rule u(1))
  show lt: "of_nat (b + bi) < sb_size sb" "of_nat b < sb_size sb"
    using u assms(3) by (simp_all add: word_less_nat_alt del: of_nat_add)
  have d: "(b + bi) div BPB = j" "b div BPB = j" "(b + bi) mod BPB = bi"
    using assms(1,2) by (simp_all add: BPB_def BSIZE_def)
  show "unat (of_nat (b + bi) :: u32) mod BPB = bi" using u d by simp
  have "unat (BBLOCK (of_nat b) sb) = unat (BBLOCK (of_nat (b + bi)) sb)"
    using fs_geoD(5) [OF assms(4) lt(1)] fs_geoD(5) [OF assms(4) lt(2)] u d by simp
  then show "BBLOCK (of_nat b) sb = BBLOCK (of_nat (b + bi)) sb" by simp
qed

lemma txn_update_after_read:
  assumes "bread 1 n s = Inr (b, s1)"
  shows "bindr (log_write b (set_data b (f (b_data (bcache s1 b))) s1)) (\<lambda>s. bindr (brelse b s) g) =
    bindr (txn_update 1 n f s) g"
  by (simp add: txn_update_def assms bindr_assoc)

lemma balloc_loop_spec:
  fixes s :: "'a fsst_scheme"
  assumes "in_txn s H" "card (dom H) \<le> 1" "fs_geo (fs_sb s) (disksize s)" "room (Suc (Suc k)) s"
    and H: "\<And>n. n \<in> ran H \<Longrightarrow> data_block (diskview s) (fs_sb s) n"
    and meta: "meta_ok (diskview s) (fs_sb s)"
    and bs: "\<And>b. b \<in> set bs \<Longrightarrow> \<exists>j. b = j * BPB \<and> b < unat (sb_size (fs_sb s))"
    and free: "\<exists>b \<in> set bs. \<exists>bi < min BPB (unat (sb_size (fs_sb s)) - b).
      \<not> bm_get (diskview s (BBLOCK (of_nat b) (fs_sb s))) bi"
  shows "\<exists>b s'. balloc_loop 1 bs s = Inr (b, s') \<and> in_txn s' H \<and> txn_same s s' \<and> room k s' \<and>
    b < sb_size (fs_sb s) \<and> \<not> alloc_bit (diskview s) (fs_sb s) b \<and>
    diskview s' = view_alloc (fs_sb s) b (diskview s)"
  using assms
proof (induction bs arbitrary: s)
  case (Cons b bs)
  note t = Cons.prems(1) and geo = Cons.prems(3) and room = Cons.prems(4)
  let ?sb = "fs_sb s" and ?n = "BBLOCK (of_nat b) (fs_sb s)"
  obtain j where j: "b = j * BPB" "b < unat (sb_size ?sb)" using Cons.prems(7) [of b] by auto
  have b0: "of_nat b < sb_size ?sb" using bitmap_start_bit(5) [OF j(1), of 0] j(2) geo by (simp add: BPB_def BSIZE_def)
  have n: "?n < disksize s" "unat ?n < datastart ?sb" using fs_geoD(6,7) [OF geo b0] by auto
  have nH: "?n \<notin> ran H" using Cons.prems(5) [of ?n] n(2) by (auto simp: data_block_def)
  have few: "few H" using Cons.prems(2) by (simp add: few_def)
  obtain bp s1 s2 where r: "bread 1 ?n s = Inr (bp, s1)" "b_data (bcache s1 bp) = diskview s ?n" "txn_same s s1"
    "brelse bp s1 = Inr s2" "in_txn s2 H" "txn_same s s2" "room (Suc (Suc k)) s2" "diskview s2 = diskview s"
    using fs_read [OF t nH n(1) room few] by metis
  note f1 = txn_same_fs [OF r(3)] and f2 = txn_same_fs [OF r(6)]
  show ?case
  proof (cases "balloc_scan (diskview s ?n) [0..<min BPB (unat (sb_size ?sb) - b)]")
    case None
    have "\<exists>b\<in>set bs. \<exists>bi<min BPB (unat (sb_size ?sb) - b). \<not> bm_get (diskview s (BBLOCK (of_nat b) ?sb)) bi"
      using Cons.prems(8) None by (auto simp: balloc_scan_spec(2))
    then obtain c s' where c: "balloc_loop 1 bs s2 = Inr (c, s')" "in_txn s' H" "txn_same s2 s'" "room k s'"
      "c < sb_size ?sb" "\<not> alloc_bit (diskview s) ?sb c" "diskview s' = view_alloc ?sb c (diskview s)"
      using Cons.IH [OF r(5) Cons.prems(2), unfolded f2 r(8), OF geo r(7) Cons.prems(5,6,7)] by auto
    have "balloc_loop 1 (b # bs) s = Inr (c, s')" using r(1,2,4) None f1 c(1) by simp
    then show ?thesis using c txn_same_trans [OF r(6) c(3)] by blast
  next
    case (Some bi)
    then have bi: "bi < BPB" "b + bi < unat (sb_size ?sb)" "\<not> bm_get (diskview s ?n) bi"
      using balloc_scan_spec(1) [OF Some] by auto
    note st = bitmap_start_bit [OF j(1) bi(1,2) geo]
    let ?c = "of_nat (b + bi) :: u32"
    have fr: "\<not> alloc_bit (diskview s) ?sb ?c" using bi(3) st(1,2) by (simp add: alloc_bit_def del: of_nat_add)
    have cd: "datastart ?sb \<le> unat ?c" using fr Cons.prems(6) by (auto simp: meta_ok_def not_less [symmetric] simp del: of_nat_add)
    obtain s3 where s3: "txn_update 1 ?n (\<lambda>d. bm_set d bi) s = Inr s3" "in_txn s3 H" "txn_same s s3"
      "room (Suc k) s3" "diskview s3 = (diskview s)(?n := bm_set (diskview s ?n) bi)"
      using fs_update [OF t nH n(1) room few, of "\<lambda>d. bm_set d bi"] by metis
    note f3 = txn_same_fs [OF s3(3)]
    have cH: "?c \<notin> ran H" using fr Cons.prems(5) by (auto simp: data_block_def)
    have cz: "?c < disksize s3" using st(4) fs_geoD(1) [OF geo] f3 by (simp add: order.strict_trans2 del: of_nat_add)
    obtain s4 where s4: "bzero 1 ?c s3 = Inr s4" "in_txn s4 H" "txn_same s3 s4" "room k s4"
      "diskview s4 = (diskview s3)(?c := zeroed (diskview s3 ?c))"
      unfolding bzero_update using fs_update [OF s3(2) cH cz s3(4) few] by metis
    have "balloc_loop 1 (b # bs) s =
        bindr (txn_update 1 ?n (\<lambda>d. bm_set d bi) s) (\<lambda>s. bindr (bzero 1 ?c s) (\<lambda>s. Inr (?c, s)))"
      using r(1,2) Some f1 txn_update_after_read [OF r(1), of "\<lambda>d. bm_set d bi"] by (simp del: of_nat_add)
    then have "balloc_loop 1 (b # bs) s = Inr (?c, s4)" using s3(1) s4(1) by (simp del: of_nat_add)
    moreover have "diskview s4 = view_alloc ?sb ?c (diskview s)"
      using s4(5) s3(5) st(1,2) by (simp add: view_alloc_def Let_def del: of_nat_add)
    ultimately show ?thesis using s4(2,4) st(4) fr txn_same_trans [OF s3(3) s4(3)] by blast
  qed
qed simp

lemma bitmap_starts_mem: "b \<in> set (bitmap_starts sb) \<longleftrightarrow> (\<exists>j. b = j * BPB \<and> b < unat (sb_size sb))"
proof -
  have e: "j < (unat (sb_size sb) + BPB - 1) div BPB \<longleftrightarrow> j * BPB < unat (sb_size sb)" for j
    by (auto simp: BPB_def BSIZE_def)
  show ?thesis unfolding bitmap_starts_def set_map set_upt image_iff using e by force
qed

lemma balloc_spec:
  fixes s :: "'a fsst_scheme"
  assumes "in_txn s H" "card (dom H) \<le> 1" "fs_geo (fs_sb s) (disksize s)" "room (Suc (Suc k)) s"
    "\<And>n. n \<in> ran H \<Longrightarrow> data_block (diskview s) (fs_sb s) n" "meta_ok (diskview s) (fs_sb s)"
    and free: "c < sb_size (fs_sb s)" "\<not> alloc_bit (diskview s) (fs_sb s) c"
  obtains b s' where "balloc 1 s = Inr (b, s')" "in_txn s' H" "txn_same s s'" "room k s'"
    "b < sb_size (fs_sb s)" "datastart (fs_sb s) \<le> unat b" "\<not> alloc_bit (diskview s) (fs_sb s) b"
    "diskview s' = view_alloc (fs_sb s) b (diskview s)"
proof -
  let ?sb = "fs_sb s" and ?b = "unat c div BPB * BPB" and ?i = "unat c mod BPB"
  have c: "?b + ?i = unat c" "?i < BPB" by (simp_all add: BPB_def BSIZE_def)
  have lt: "?b + ?i < unat (sb_size ?sb)" using free(1) c(1) by (simp add: word_less_nat_alt)
  note st = bitmap_start_bit [OF refl c(2) lt assms(3)]
  have "\<not> bm_get (diskview s (BBLOCK (of_nat ?b) ?sb)) ?i"
    using free(2) st(1) unfolding c(1) by (simp add: alloc_bit_def)
  moreover have "?b \<in> set (bitmap_starts ?sb)" unfolding bitmap_starts_mem using lt add_leD1 by (intro exI [of _ "unat c div BPB"]) linarith
  moreover have "?i < min BPB (unat (sb_size ?sb) - ?b)" using lt c(2) by (intro min_less_iff_conj [THEN iffD2] conjI; linarith)
  ultimately have "\<exists>b \<in> set (bitmap_starts ?sb). \<exists>bi < min BPB (unat (sb_size ?sb) - b).
      \<not> bm_get (diskview s (BBLOCK (of_nat b) ?sb)) bi" by blast
  then obtain b s' where b: "balloc 1 s = Inr (b, s')" "in_txn s' H" "txn_same s s'" "room k s'"
    "b < sb_size ?sb" "\<not> alloc_bit (diskview s) ?sb b" "diskview s' = view_alloc ?sb b (diskview s)"
    using balloc_loop_spec [OF assms(1-6), of "bitmap_starts ?sb"] by (auto simp: bitmap_starts_mem balloc_def)
  moreover have "datastart ?sb \<le> unat b" using b(6) assms(6) by (auto simp: meta_ok_def not_less [symmetric])
  ultimately show thesis using that by blast
qed

lemma bfree_spec:
  fixes s :: "'a fsst_scheme"
  assumes "in_txn s H" "few H" "fs_geo (fs_sb s) (disksize s)" "room (Suc k) s"
    "\<And>n. n \<in> ran H \<Longrightarrow> datastart (fs_sb s) \<le> unat n" "b < sb_size (fs_sb s)"
    "alloc_bit (diskview s) (fs_sb s) b"
  obtains s' where "bfree 1 b s = Inr s'" "in_txn s' H" "txn_same s s'" "room k s'"
    "diskview s' = view_free (fs_sb s) b (diskview s)"
proof -
  let ?n = "BBLOCK b (fs_sb s)"
  have n: "?n < disksize s" "?n \<notin> ran H" using fs_geoD(6,7) [OF assms(3,6)] assms(5) [of ?n] by auto
  obtain bp s1 where r: "bread 1 ?n s = Inr (bp, s1)" "b_data (bcache s1 bp) = diskview s ?n"
    using fs_bread [OF assms(1) n(2,1) assms(4,2)] by metis
  obtain s' where s': "txn_update 1 ?n (\<lambda>d. bm_clear d (unat b mod BPB)) s = Inr s'" "in_txn s' H" "txn_same s s'"
    "room k s'" "diskview s' = (diskview s)(?n := bm_clear (diskview s ?n) (unat b mod BPB))"
    using fs_update [OF assms(1) n(2,1) assms(4,2), of "\<lambda>d. bm_clear d (unat b mod BPB)"] by metis
  have "bfree 1 b s = txn_update 1 ?n (\<lambda>d. bm_clear d (unat b mod BPB)) s"
    using r assms(7) by (simp add: bfree_def txn_update_def Let_def alloc_bit_def)
  then show thesis using that s' by (simp add: view_free_def)
qed

section \<open>Inodes on disk\<close>

lemma iupdate_update:
  "i_dev (icache s ip) = 1 \<Longrightarrow> iupdate ip s = txn_update 1 (IBLOCK (i_inum (icache s ip)) (fs_sb s))
     (\<lambda>d. dinode_put d (unat (i_inum (icache s ip)) mod IPB) (dinode_of (icache s ip))) s"
  by (simp add: iupdate_def txn_update_def Let_def)

lemma iupdate_spec:
  fixes s :: "'a fsst_scheme"
  assumes "in_txn s H" "few H" "fs_geo (fs_sb s) (disksize s)" "room (Suc k) s"
    "\<And>n. n \<in> ran H \<Longrightarrow> datastart (fs_sb s) \<le> unat n" "i_dev (icache s ip) = 1"
    "unat (i_inum (icache s ip)) \<le> unat (sb_ninodes (fs_sb s))"
  obtains s' where "iupdate ip s = Inr s'" "in_txn s' H" "txn_same s s'" "room k s'"
    "diskview s' = (diskview s)(IBLOCK (i_inum (icache s ip)) (fs_sb s) :=
       dinode_put (diskview s (IBLOCK (i_inum (icache s ip)) (fs_sb s)))
         (unat (i_inum (icache s ip)) mod IPB) (dinode_of (icache s ip)))"
proof -
  let ?n = "IBLOCK (i_inum (icache s ip)) (fs_sb s)"
  have "unat ?n < datastart (fs_sb s)" using fs_geoD(9) [OF assms(3,7)] fs_geoD(3) [OF assms(3)] by simp
  then have n: "?n < disksize s" "?n \<notin> ran H" using fs_geoD(10) [OF assms(3,7)] assms(5) [of ?n] by auto
  show thesis
    unfolding iupdate_update [OF assms(6)] using that fs_update [OF assms(1) n(2,1) assms(4,2)] iupdate_update [OF assms(6)] by metis
qed

end
