(* ===== verification/Fs_File.thy ===== *)
theory Fs_File
  imports Fs_Spec
begin

text \<open>
  The contents of a file. \<open>slot v x k\<close> is the block address in position \<open>k\<close> of inode \<open>x\<close>, direct
  or through the indirect block, \<open>fbyte v x p\<close> the byte at offset \<open>p\<close>, where a missing block reads
  as zeros. \<open>grown\<close> is what \<^verbatim>\<open>bmap\<close> may do to an inode and the disk: add blocks without changing
  any byte of this file or touching another one.
\<close>

definition slot :: "view \<Rightarrow> inode \<Rightarrow> nat \<Rightarrow> u32" where
  "slot v x k =
     (if k < NDIRECT then i_addrs x k
      else if k < MAXFILE then
        (if i_addrs x NDIRECT = 0 then 0 else rd32 (v (i_addrs x NDIRECT)) (4 * (k - NDIRECT)))
      else i_addrs x NDIRECT)"

definition inode_ok :: "view \<Rightarrow> superblock \<Rightarrow> inode \<Rightarrow> bool" where
  "inode_ok v sb x \<longleftrightarrow>
     (\<forall>k \<le> MAXFILE. slot v x k \<noteq> 0 \<longrightarrow> data_block v sb (slot v x k)) \<and>
     (\<forall>j k. j \<le> MAXFILE \<longrightarrow> k \<le> MAXFILE \<longrightarrow> slot v x j \<noteq> 0 \<longrightarrow> slot v x j = slot v x k \<longrightarrow> j = k)"

definition fbyte :: "view \<Rightarrow> inode \<Rightarrow> nat \<Rightarrow> u8" where
  "fbyte v x p = (let a = slot v x (p div 512) in if a = 0 then 0 else v a (p mod 512))"

definition file_blocks :: "view \<Rightarrow> inode \<Rightarrow> u32 set" where
  "file_blocks v x = {slot v x k | k. k \<le> MAXFILE} - {0}"

definition free_blocks :: "view \<Rightarrow> superblock \<Rightarrow> u32 set" where
  "free_blocks v sb = {b. b < sb_size sb \<and> \<not> alloc_bit v sb b}"

text \<open>The state of the disk that every operation keeps.\<close>

definition disk_ok :: "view \<Rightarrow> superblock \<Rightarrow> inode \<Rightarrow> bool" where
  "disk_ok v sb x \<longleftrightarrow> meta_ok v sb \<and> inode_ok v sb x"

text \<open>Blocks of other files and the inode blocks are left alone.\<close>

definition others_same :: "superblock \<Rightarrow> view \<Rightarrow> inode \<Rightarrow> view \<Rightarrow> bool" where
  "others_same sb v x v' \<longleftrightarrow>
     (\<forall>b. data_block v sb b \<longrightarrow> b \<notin> file_blocks v x \<longrightarrow> v' b = v b \<and> alloc_bit v' sb b) \<and>
     (\<forall>n. unat n < unat (sb_bmapstart sb) \<longrightarrow> v' n = v n)"

definition extends :: "superblock \<Rightarrow> nat \<Rightarrow> view \<Rightarrow> inode \<Rightarrow> view \<Rightarrow> inode \<Rightarrow> bool" where
  "extends sb n v x v' x' \<longleftrightarrow> disk_ok v' sb x' \<and> (\<exists>a. x' = x\<lparr>i_addrs := a\<rparr>) \<and>
     (\<forall>k \<le> MAXFILE. slot v x k \<noteq> 0 \<longrightarrow> slot v' x' k = slot v x k) \<and>
     others_same sb v x v' \<and> (\<forall>b. data_block v sb b \<longrightarrow> data_block v' sb b) \<and>
     file_blocks v' x' \<subseteq> file_blocks v x \<union> free_blocks v sb \<and> free_blocks v' sb \<subseteq> free_blocks v sb \<and>
     card (free_blocks v sb) \<le> card (free_blocks v' sb) + n"

definition grown :: "superblock \<Rightarrow> nat \<Rightarrow> view \<Rightarrow> inode \<Rightarrow> view \<Rightarrow> inode \<Rightarrow> bool" where
  "grown sb n v x v' x' \<longleftrightarrow> extends sb n v x v' x' \<and> (\<forall>p < MAXFILE * 512. fbyte v' x' p = fbyte v x p)"

lemma MAXFILE_less: "NDIRECT < MAXFILE" "MAXFILE = 140" "NDIRECT = 12"
  by (simp_all add: MAXFILE_def NDIRECT_def NINDIRECT_def)

lemma slot_ind: "slot v x MAXFILE = i_addrs x NDIRECT"
  by (simp add: slot_def MAXFILE_less)

lemma inode_okD:
  assumes "inode_ok v sb x"
  shows "k \<le> MAXFILE \<Longrightarrow> slot v x k \<noteq> 0 \<Longrightarrow> data_block v sb (slot v x k)"
    and "j \<le> MAXFILE \<Longrightarrow> k \<le> MAXFILE \<Longrightarrow> slot v x j \<noteq> 0 \<Longrightarrow> slot v x j = slot v x k \<Longrightarrow> j = k"
    and "i_addrs x NDIRECT \<noteq> 0 \<Longrightarrow> data_block v sb (i_addrs x NDIRECT)"
proof -
  show a: "k \<le> MAXFILE \<Longrightarrow> slot v x k \<noteq> 0 \<Longrightarrow> data_block v sb (slot v x k)" for k
    using assms by (simp add: inode_ok_def)
  show "j \<le> MAXFILE \<Longrightarrow> k \<le> MAXFILE \<Longrightarrow> slot v x j \<noteq> 0 \<Longrightarrow> slot v x j = slot v x k \<Longrightarrow> j = k"
    using assms unfolding inode_ok_def by blast
  show "i_addrs x NDIRECT \<noteq> 0 \<Longrightarrow> data_block v sb (i_addrs x NDIRECT)"
    using a [of MAXFILE] by (simp add: slot_ind)
qed

lemma slot_cong:
  assumes "i_addrs x' = i_addrs x" "i_addrs x NDIRECT \<noteq> 0 \<Longrightarrow> v' (i_addrs x NDIRECT) = v (i_addrs x NDIRECT)"
  shows "slot v' x' k = slot v x k"
  using assms by (simp add: slot_def)

lemma file_blocks_mem: "k \<le> MAXFILE \<Longrightarrow> slot v x k \<noteq> 0 \<Longrightarrow> slot v x k \<in> file_blocks v x"
  by (auto simp: file_blocks_def)

section \<open>Adding a block\<close>

lemma view_alloc_other:
  assumes "fs_geo sb sz" "b < sb_size sb" "datastart sb \<le> unat b" "c \<noteq> b" "datastart sb \<le> unat c \<or> unat c < unat (sb_bmapstart sb)"
  shows "view_alloc sb b v c = v c"
proof -
  have "unat (BBLOCK b sb) < datastart sb" "unat (sb_bmapstart sb) \<le> unat (BBLOCK b sb)"
    using fs_geoD(5,6) [OF assms(1,2)] by simp_all
  then have "c \<noteq> BBLOCK b sb" using assms(5) by auto
  then show ?thesis using assms(4) by (simp add: view_alloc_def Let_def)
qed

lemma view_alloc_new:
  assumes "fs_geo sb sz" "b < sb_size sb" "datastart sb \<le> unat b"
  shows "view_alloc sb b v b = zeroed (v b)"
proof -
  have "unat (BBLOCK b sb) < datastart sb" using fs_geoD(6) [OF assms(1,2)] by simp
  then have "b \<noteq> BBLOCK b sb" using assms(3) by auto
  then show ?thesis by (simp add: view_alloc_def Let_def)
qed

lemma rd32_zeroed: "a + 4 \<le> BSIZE \<Longrightarrow> rd32 (zeroed d) a = 0"
  by (simp add: rd32_def zeroed_def)

lemma finite_free [simp]: "finite (free_blocks v sb)"
  by (rule finite_subset [OF subset_UNIV]) simp

lemma free_alloc:
  assumes "fs_geo sb sz" "b \<in> free_blocks v sb" "datastart sb \<le> unat b"
  shows "free_blocks (view_alloc sb b v) sb = free_blocks v sb - {b}"
  using assms alloc_bit_alloc [OF assms(1) _ assms(3)] by (auto simp: free_blocks_def)

lemma alloc_facts:
  assumes geo: "fs_geo sb sz" and ok: "meta_ok v sb" and b: "b \<in> free_blocks v sb"
  shows "b < sb_size sb" "datastart sb \<le> unat b" "b \<noteq> 0" "\<And>c. data_block v sb c \<Longrightarrow> c \<noteq> b"
    "\<And>c. data_block v sb c \<Longrightarrow> view_alloc sb b v c = v c"
    "\<And>n. unat n < unat (sb_bmapstart sb) \<Longrightarrow> view_alloc sb b v n = v n"
    "\<And>c. data_block (view_alloc sb b v) sb c \<longleftrightarrow> c = b \<or> data_block v sb c"
    "meta_ok (view_alloc sb b v) sb" "card (free_blocks v sb) = Suc (card (free_blocks (view_alloc sb b v) sb))"
proof -
  show lt: "b < sb_size sb" using b by (simp add: free_blocks_def)
  show d: "datastart sb \<le> unat b" using b ok by (auto simp: free_blocks_def meta_ok_def not_less [symmetric])
  show "b \<noteq> 0" using d fs_geoD(3) [OF geo] by auto
  show ne: "\<And>c. data_block v sb c \<Longrightarrow> c \<noteq> b" using b by (auto simp: free_blocks_def data_block_def)
  show "\<And>c. data_block v sb c \<Longrightarrow> view_alloc sb b v c = v c"
    using view_alloc_other [OF geo lt d ne] by (simp add: data_block_def)
  show "\<And>n. unat n < unat (sb_bmapstart sb) \<Longrightarrow> view_alloc sb b v n = v n"
    using d fs_geoD(3) [OF geo] by (intro view_alloc_other [OF geo lt d]) auto
  show "\<And>c. data_block (view_alloc sb b v) sb c \<longleftrightarrow> c = b \<or> data_block v sb c"
    using alloc_bit_alloc [OF geo lt d] lt d by (auto simp: data_block_def)
  show "meta_ok (view_alloc sb b v) sb"
  proof -
    have "c < sb_size sb" if "unat c < datastart sb" for c
      using that fs_geoD(2) [OF geo] by (simp add: word_less_nat_alt)
    then show ?thesis using ok alloc_bit_alloc [OF geo lt d] by (auto simp: meta_ok_def)
  qed
  show "card (free_blocks v sb) = Suc (card (free_blocks (view_alloc sb b v) sb))"
    unfolding free_alloc [OF geo b d] by (rule card_Suc_Diff1 [OF finite_free b, symmetric])
qed

text \<open>One free block \<open>b\<close> put into position \<open>j\<close>.\<close>

lemma grown_add:
  assumes geo: "fs_geo sb sz" and ok: "disk_ok v sb x" and b: "b \<in> free_blocks v sb"
    and x': "x' = x\<lparr>i_addrs := a\<rparr>" and j: "j \<le> MAXFILE" "slot v x j = 0"
    and slots: "\<And>k. k \<le> MAXFILE \<Longrightarrow> slot v' x' k = (if k = j then b else slot v x k)"
    and same: "\<And>c. data_block v sb c \<Longrightarrow> c \<noteq> i_addrs x NDIRECT \<Longrightarrow> v' c = v c"
    and inodes: "\<And>n. unat n < unat (sb_bmapstart sb) \<Longrightarrow> v' n = v n"
    and zero: "\<And>i. i < 512 \<Longrightarrow> v' b i = 0"
    and bits: "\<And>c. c < sb_size sb \<Longrightarrow> alloc_bit v' sb c = alloc_bit (view_alloc sb b v) sb c"
  shows "grown sb 1 v x v' x'"
proof -
  have ok': "meta_ok v sb" "inode_ok v sb x" using ok by (auto simp: disk_ok_def)
  note f = alloc_facts [OF geo ok'(1) b] and io = inode_okD [OF ok'(2)]
  have db: "data_block v' sb c \<longleftrightarrow> c = b \<or> data_block v sb c" for c
    using f(7) [of c] bits by (auto simp: data_block_def)
  have "c < sb_size sb" if "unat c < datastart sb" for c
    using that fs_geoD(2) [OF geo] by (simp add: word_less_nat_alt)
  then have "meta_ok v' sb" using f(8) bits by (simp add: meta_ok_def)
  moreover have "inode_ok v' sb x'"
    unfolding inode_ok_def
  proof (intro conjI allI impI)
    fix k assume "k \<le> MAXFILE" "slot v' x' k \<noteq> 0"
    then show "data_block v' sb (slot v' x' k)" using slots [of k] db io(1) [of k] by (auto split: if_splits)
  next
    fix i k assume ik: "i \<le> MAXFILE" "k \<le> MAXFILE" "slot v' x' i \<noteq> 0" "slot v' x' i = slot v' x' k"
    have nb: "slot v x m \<noteq> b" if "m \<le> MAXFILE" "slot v x m \<noteq> 0" for m using io(1) [OF that] f(4) by blast
    show "i = k"
    proof (cases "i = j \<or> k = j")
      case True
      then show ?thesis using ik slots [of i] slots [of k] nb [of i] nb [of k] f(3) by (auto split: if_splits)
    next
      case False
      then show ?thesis using ik slots [of i] slots [of k] io(2) [of i k] by simp
    qed
  qed
  moreover have "fbyte v' x' p = fbyte v x p" if p: "p < MAXFILE * 512" for p
  proof -
    let ?k = "p div 512"
    have k: "?k < MAXFILE" using p by (simp add: less_mult_imp_div_less)
    show ?thesis
    proof (cases "?k = j")
      case True then show ?thesis using slots [of ?k] k j f(3) zero by (simp add: fbyte_def)
    next
      case False
      have "v' (slot v x ?k) = v (slot v x ?k)" if "slot v x ?k \<noteq> 0"
      proof (rule same)
        show "data_block v sb (slot v x ?k)" using io(1) [of ?k] k that by simp
        show "slot v x ?k \<noteq> i_addrs x NDIRECT" using io(2) [of ?k MAXFILE] k that by (auto simp: slot_ind)
      qed
      then show ?thesis using slots [of ?k] k False by (simp add: fbyte_def Let_def)
    qed
  qed
  moreover have "others_same sb v x v'"
    unfolding others_same_def
  proof (intro conjI allI impI)
    fix c assume c: "data_block v sb c" "c \<notin> file_blocks v x"
    have "c \<noteq> i_addrs x NDIRECT"
    proof
      assume e: "c = i_addrs x NDIRECT"
      moreover have "c \<noteq> 0" using c(1) fs_geoD(3) [OF geo] by (auto simp: data_block_def)
      ultimately show False using c(2) file_blocks_mem [of MAXFILE v x] by (simp add: slot_ind)
    qed
    then show "v' c = v c" by (rule same [OF c(1)])
    show "alloc_bit v' sb c" using db [of c] c(1) by (simp add: data_block_def)
  qed (use inodes in simp)
  moreover have "file_blocks v' x' \<subseteq> file_blocks v x \<union> free_blocks v sb"
    using slots b by (auto simp: file_blocks_def split: if_splits)
  moreover have fr: "free_blocks v' sb = free_blocks (view_alloc sb b v) sb" using bits by (auto simp: free_blocks_def)
  moreover have "free_blocks v' sb \<subseteq> free_blocks v sb" unfolding fr free_alloc [OF geo b f(2)] by blast
  moreover have "card (free_blocks v sb) \<le> card (free_blocks v' sb) + 1" using f(9) unfolding fr by simp
  ultimately show ?thesis
    using x' slots j db by (auto simp: grown_def extends_def disk_ok_def)
qed

lemma extends_refl: "disk_ok v sb x \<Longrightarrow> extends sb n v x v x"
  by (auto simp: extends_def others_same_def data_block_def intro!: exI [of _ "i_addrs x"])

lemma extends_trans:
  assumes g: "extends sb m v x v' x'" and h: "extends sb n v' x' v'' x''"
  shows "extends sb (m + n) v x v'' x''"
proof -
  have f: "file_blocks v' x' \<subseteq> file_blocks v x \<union> free_blocks v sb" "\<And>b. data_block v sb b \<Longrightarrow> data_block v' sb b"
    using g by (auto simp: extends_def)
  have nf: "data_block v sb b \<Longrightarrow> b \<notin> free_blocks v sb" for b by (auto simp: data_block_def free_blocks_def)
  have "others_same sb v x v''"
    unfolding others_same_def
  proof (intro conjI allI impI)
    fix b assume b: "data_block v sb b" "b \<notin> file_blocks v x"
    then have "b \<notin> file_blocks v' x'" using f nf by blast
    then show "v'' b = v b" "alloc_bit v'' sb b"
      using b f(2) g h unfolding extends_def others_same_def by metis+
  next
    fix n :: u32 assume "unat n < unat (sb_bmapstart sb)"
    then show "v'' n = v n" using g h by (simp add: extends_def others_same_def)
  qed
  moreover have "file_blocks v'' x'' \<subseteq> file_blocks v x \<union> free_blocks v sb"
    using f(1) g h unfolding extends_def by blast
  moreover have "\<exists>a. x'' = x\<lparr>i_addrs := a\<rparr>" using g h by (auto simp: extends_def)
  ultimately show ?thesis using g h by (auto simp: extends_def)
qed

lemma grown_refl: "disk_ok v sb x \<Longrightarrow> grown sb n v x v x"
  by (simp add: grown_def extends_refl)

lemma grown_trans: "grown sb m v x v' x' \<Longrightarrow> grown sb n v' x' v'' x'' \<Longrightarrow> grown sb (m + n) v x v'' x''"
  using extends_trans by (auto simp: grown_def)

lemma grown_disk_ok: "grown sb n v x v' x' \<Longrightarrow> disk_ok v' sb x'" "grown sb n v x v' x' \<Longrightarrow> i_dev x' = i_dev x"
  by (auto simp: grown_def extends_def)

section \<open>bmap\<close>

text \<open>What a file system operation on inode \<open>ip\<close> may change besides the disk.\<close>

definition fs_step :: "nat \<Rightarrow> 'a fsst_scheme \<Rightarrow> 'a fsst_scheme \<Rightarrow> bool" where
  "fs_step ip s s' \<longleftrightarrow> fs_sb s' = fs_sb s \<and> disksize s' = disksize s \<and> mypid s' = mypid s \<and>
     fsst.more s' = fsst.more s \<and> (\<forall>i. i \<noteq> ip \<longrightarrow> icache s' i = icache s i)"

lemma fs_step_txn: "txn_same s s' \<Longrightarrow> fs_step ip s s'"
  using txn_same_fs [of s s'] by (simp add: fs_step_def)

lemma fs_step_upd: "fs_step ip s (upd_inode ip f s)"
  by (simp add: fs_step_def)

lemma fs_step_refl [simp]: "fs_step ip s s"
  by (simp add: fs_step_def)

lemma fs_step_trans [trans]: "fs_step ip s s' \<Longrightarrow> fs_step ip s' s'' \<Longrightarrow> fs_step ip s s''"
  by (simp add: fs_step_def)

text \<open>The state in which the operations run: a transaction with nothing locked in the cache.\<close>

definition fs_ready :: "nat \<Rightarrow> nat \<Rightarrow> 'a fsst_scheme \<Rightarrow> bool" where
  "fs_ready ip k s \<longleftrightarrow> in_txn s Map.empty \<and> fs_geo (fs_sb s) (disksize s) \<and> room k s \<and>
     disk_ok (diskview s) (fs_sb s) (icache s ip) \<and> i_dev (icache s ip) = 1"

lemma alloc_addr_grown:
  assumes geo: "fs_geo sb sz" and ok: "disk_ok v sb x" and b: "b \<in> free_blocks v sb"
    and k: "k \<le> NDIRECT" "i_addrs x k = 0"
  shows "grown sb 1 v x (view_alloc sb b v) (x\<lparr>i_addrs := (i_addrs x)(k := b)\<rparr>)"
proof -
  have ok': "meta_ok v sb" "inode_ok v sb x" using ok by (auto simp: disk_ok_def)
  note f = alloc_facts [OF geo ok'(1) b]
  let ?j = "if k = NDIRECT then MAXFILE else k" and ?x = "x\<lparr>i_addrs := (i_addrs x)(k := b)\<rparr>"
  have new: "view_alloc sb b v b = zeroed (v b)" by (rule view_alloc_new [OF geo f(1,2)])
  have "slot (view_alloc sb b v) ?x m = (if m = ?j then b else slot v x m)" if "m \<le> MAXFILE" for m
  proof (cases "k = NDIRECT")
    case True
    then show ?thesis
      using that k new f(3) rd32_zeroed [of "4 * (m - NDIRECT)" "v b"]
      by (auto simp: slot_def MAXFILE_less BSIZE_def)
  next
    case False
    then show ?thesis
      using that k f(5) [OF inode_okD(3) [OF ok'(2)]] by (auto simp: slot_def MAXFILE_less)
  qed
  then show ?thesis
    using k f(5,6) new
    by (intro grown_add [OF geo ok b refl, of ?j]) (auto simp: slot_def MAXFILE_less zeroed_def BSIZE_def)
qed

lemma addr_alloc_spec:
  fixes s :: "'a fsst_scheme"
  assumes r: "fs_ready ip (k + 2) s" and fr: "free_blocks (diskview s) (fs_sb s) \<noteq> {}" and j: "j \<le> NDIRECT"
  obtains a s' where "addr_alloc ip j s = Inr (a, s')" "fs_ready ip k s'" "fs_step ip s s'" "a \<noteq> 0"
    "i_addrs (icache s' ip) j = a"
    "grown (fs_sb s) 1 (diskview s) (icache s ip) (diskview s') (icache s' ip)"
proof -
  have t: "in_txn s Map.empty" "fs_geo (fs_sb s) (disksize s)" "room (k + 2) s"
    "disk_ok (diskview s) (fs_sb s) (icache s ip)" "i_dev (icache s ip) = 1"
    using r by (auto simp: fs_ready_def)
  show thesis
  proof (cases "i_addrs (icache s ip) j = 0")
    case False
    have "grown (fs_sb s) 1 (diskview s) (icache s ip) (diskview s) (icache s ip)" by (rule grown_refl [OF t(4)])
    then show thesis
      using that [of "i_addrs (icache s ip) j" s] False r room_le [OF t(3), of k] by (simp add: addr_alloc_def fs_ready_def)
  next
    case True
    obtain c where c: "c < sb_size (fs_sb s)" "\<not> alloc_bit (diskview s) (fs_sb s) c"
      using fr by (auto simp: free_blocks_def)
    have pre: "card (dom (Map.empty :: nat \<rightharpoonup> u32)) \<le> 1" "room (Suc (Suc k)) s" "meta_ok (diskview s) (fs_sb s)"
      using t by (simp_all add: disk_ok_def)
    obtain b s1 where b: "balloc 1 s = Inr (b, s1)" "in_txn s1 Map.empty" "txn_same s s1" "room k s1"
      "b < sb_size (fs_sb s)" "\<not> alloc_bit (diskview s) (fs_sb s) b"
      "diskview s1 = view_alloc (fs_sb s) b (diskview s)"
      using balloc_spec [OF t(1) pre(1) t(2) pre(2) _ pre(3) c] by (metis ran_empty empty_iff)
    let ?s = "set_addr ip j b s1"
    have bf: "b \<in> free_blocks (diskview s) (fs_sb s)" using b(5,6) by (simp add: free_blocks_def)
    note f = alloc_facts [OF t(2) pre(3) bf] and s1 = txn_same_fs [OF b(3)]
    have x: "icache ?s ip = (icache s ip)\<lparr>i_addrs := (i_addrs (icache s ip))(j := b)\<rparr>"
      using s1 by (simp add: set_addr_def)
    have g: "grown (fs_sb s) 1 (diskview s) (icache s ip) (diskview ?s) (icache ?s ip)"
      using alloc_addr_grown [OF t(2,4) bf j True] b(7) x by (simp add: set_addr_def)
    have "fs_step ip s ?s"
      unfolding set_addr_def by (rule fs_step_trans [OF fs_step_txn [OF b(3)] fs_step_upd])
    moreover have "fs_ready ip k ?s"
      using b(2,4) t s1 grown_disk_ok [OF g] by (simp add: fs_ready_def set_addr_def)
    moreover have "addr_alloc ip j s = Inr (b, ?s)" using b(1) True t(5) by (simp add: addr_alloc_def)
    ultimately show thesis using that g f(3) x by simp
  qed
qed

lemma rd32_wr32_entry:
  "rd32 (wr32 (d :: block) (4 * j) b) (4 * i) = (if i = j then b else rd32 d (4 * i))"
proof (cases "i = j")
  case False
  then have "rd32 (wr32 d (4 * j) b) (4 * i) = rd32 d (4 * i)" by (intro rd32_cong wr32_nat_apply) auto
  then show ?thesis using False by simp
qed (simp add: rd32_wr32_same_nat)

lemma alloc_ind_grown:
  assumes geo: "fs_geo sb sz" and ok: "disk_ok v sb x" and b: "b \<in> free_blocks v sb"
    and j: "j < NINDIRECT" "i_addrs x NDIRECT = ind" "ind \<noteq> 0" "rd32 (v ind) (4 * j) = 0"
  shows "grown sb 1 v x ((view_alloc sb b v)(ind := wr32 (v ind) (4 * j) b)) x"
proof -
  have ok': "meta_ok v sb" "inode_ok v sb x" using ok by (auto simp: disk_ok_def)
  note f = alloc_facts [OF geo ok'(1) b]
  let ?v = "(view_alloc sb b v)(ind := wr32 (v ind) (4 * j) b)" and ?j = "NDIRECT + j"
  have ind: "data_block v sb ind" using inode_okD(3) [OF ok'(2)] j by simp
  have lj: "?j < MAXFILE" using j(1) by (simp add: MAXFILE_def)
  have new: "view_alloc sb b v b = zeroed (v b)" by (rule view_alloc_new [OF geo f(1,2)])
  show ?thesis
  proof (rule grown_add [OF geo ok b, of _ "i_addrs x" ?j])
    show "x = x\<lparr>i_addrs := i_addrs x\<rparr>" "?j \<le> MAXFILE" using lj by simp_all
    show "slot v x ?j = 0" using j lj by (simp add: slot_def)
    show "slot ?v x m = (if m = ?j then b else slot v x m)" if "m \<le> MAXFILE" for m
      using j lj by (auto simp: slot_def rd32_wr32_entry)
    show "?v c = v c" if "data_block v sb c" "c \<noteq> i_addrs x NDIRECT" for c using that j(2) f(5) by simp
    show "?v n = v n" if "unat n < unat (sb_bmapstart sb)" for n
    proof -
      have "n \<noteq> ind" using that ind fs_geoD(3) [OF geo] by (auto simp: data_block_def)
      then show ?thesis using f(6) [OF that] by simp
    qed
    show "?v b i = 0" if "i < 512" for i using that new f(4) [OF ind] by (simp add: zeroed_def BSIZE_def)
    show "alloc_bit ?v sb c = alloc_bit (view_alloc sb b v) sb c" if "c < sb_size sb" for c
    proof -
      have "BBLOCK c sb \<noteq> ind" using fs_geoD(6) [OF geo that] ind by (auto simp: data_block_def)
      then show ?thesis by (simp add: alloc_bit_def)
    qed
  qed
qed

text \<open>Changing a block that is held and releasing it.\<close>

lemma fs_write_held:
  fixes s :: "'a fsst_scheme"
  assumes t: "in_txn s H" and b: "H b = Some n" and r: "room (Suc k) s"
  obtains s1 s' where "log_write b (set_data b d s) = Inr s1" "brelse b s1 = Inr s'" "in_txn s' (H(b := None))"
    "txn_same s s'" "room k s'" "diskview s' = (diskview s)(n := d)"
proof -
  note s0 = txn_set_data [OF t b, of d]
  have r0: "room (Suc k) (set_data b d s)" by (rule room_same [OF r s0(2,4)])
  obtain s1 where s1: "log_write b (set_data b d s) = Inr s1" "in_txn s1 H" "txn_same (set_data b d s) s1"
    "diskview s1 = diskview (set_data b d s)" "dirty_blocks s1 = insert n (dirty_blocks (set_data b d s))"
    using txn_log_write [OF s0(1) b room_log [OF r0]] by metis
  have r1: "room k s1" using room_dirty [OF r0 s1(3,5)] in_txn_lh(2) [OF s0(1)] by blast
  have "n \<in> dirty_blocks s1 \<or> diskview s1 n = memdisk s1 (unat n)" using s1(5) by simp
  then obtain s' where s': "brelse b s1 = Inr s'" "in_txn s' (H(b := None))" "txn_same s1 s'" "room k s'"
    "diskview s' = diskview s1"
    using fs_brelse [OF s1(2) b _ r1] by metis
  show thesis
    using that [OF s1(1) s'(1,2) _ s'(4)] s'(5) s1(4) s0(3) txn_same_trans [OF s0(2) txn_same_trans [OF s1(3) s'(3)]] by simp
qed

text \<open>The entry of the indirect block.\<close>

definition bmap_ind :: "nat \<Rightarrow> nat \<Rightarrow> u32 \<Rightarrow> 'a fsst_scheme \<Rightarrow> (u32 \<times> 'a fsst_scheme) res" where
  "bmap_ind ip j ind s =
     bindr (bread (i_dev (icache s ip)) ind s) (\<lambda>(bp, s).
     let addr = rd32 (b_data (bcache s bp)) (4 * j) in
     if addr = 0 then
       bindr (balloc (i_dev (icache s ip)) s) (\<lambda>(addr, s).
       bindr (log_write bp (set_data bp (wr32 (b_data (bcache s bp)) (4 * j) addr) s)) (\<lambda>s.
       bindr (brelse bp s) (\<lambda>s. Inr (addr, s))))
     else bindr (brelse bp s) (\<lambda>s. Inr (addr, s)))"

lemma bmap_split:
  "bmap ip bn s =
     (if unat bn < NDIRECT then addr_alloc ip (unat bn) s
      else if unat bn < MAXFILE then bindr (addr_alloc ip NDIRECT s) (\<lambda>(ind, s). bmap_ind ip (unat bn - NDIRECT) ind s)
      else Inl (Panic ''bmap: out of range''))"
proof (cases "unat bn < NDIRECT")
  case False
  then have e: "unat (bn - of_nat NDIRECT) = unat bn - NDIRECT"
    by (simp add: unat_sub word_le_nat_alt NDIRECT_def)
  have "unat bn - NDIRECT < NINDIRECT \<longleftrightarrow> unat bn < MAXFILE" using False by (auto simp: MAXFILE_def)
  then show ?thesis using False unfolding bmap_def Let_def e bmap_ind_def by simp
qed (simp add: bmap_def)

lemma bmap_ind_spec:
  fixes s :: "'a fsst_scheme"
  assumes r: "fs_ready ip (k + 3) s" and fr: "free_blocks (diskview s) (fs_sb s) \<noteq> {}" and j: "j < NINDIRECT"
    and ind: "i_addrs (icache s ip) NDIRECT = ind" "ind \<noteq> 0"
  obtains a s' where "bmap_ind ip j ind s = Inr (a, s')" "fs_ready ip k s'" "fs_step ip s s'" "a \<noteq> 0"
    "slot (diskview s') (icache s' ip) (NDIRECT + j) = a"
    "grown (fs_sb s) 1 (diskview s) (icache s ip) (diskview s') (icache s' ip)"
proof -
  have t: "in_txn s Map.empty" "fs_geo (fs_sb s) (disksize s)" "room (k + 3) s"
    "disk_ok (diskview s) (fs_sb s) (icache s ip)" "i_dev (icache s ip) = 1"
    using r by (auto simp: fs_ready_def)
  have ok: "meta_ok (diskview s) (fs_sb s)" "inode_ok (diskview s) (fs_sb s) (icache s ip)"
    using t(4) by (auto simp: disk_ok_def)
  have db: "data_block (diskview s) (fs_sb s) ind" using inode_okD(3) [OF ok(2)] ind by simp
  have ids: "ind < disksize s" using db fs_geoD(1) [OF t(2)] unfolding data_block_def by (metis order.strict_trans2)
  have lj: "NDIRECT + j < MAXFILE" using j by (simp add: MAXFILE_def)
  obtain bp s1 where s1: "bread 1 ind s = Inr (bp, s1)" "in_txn s1 (Map.empty(bp \<mapsto> ind))" "txn_same s s1"
    "room (k + 3) s1" "diskview s1 = diskview s" "b_data (bcache s1 bp) = diskview s ind"
    "ind \<in> dirty_blocks s1 \<or> diskview s1 ind = memdisk s1 (unat ind)"
    using fs_bread [OF t(1) _ ids t(3) few_empty] by (metis ran_empty empty_iff)
  define H where "H = (Map.empty(bp \<mapsto> ind) :: nat \<rightharpoonup> u32)"
  have H: "H bp = Some ind" "H(bp := None) = Map.empty" "card (dom H) \<le> 1" "ran H = {ind}"
    by (auto simp: H_def)
  have th: "in_txn s1 H" using s1(2) by (simp add: H_def)
  note f1 = txn_same_fs [OF s1(3)]
  let ?e = "rd32 (diskview s ind) (4 * j)"
  show thesis
  proof (cases "?e = 0")
    case False
    obtain s2 where s2: "brelse bp s1 = Inr s2" "in_txn s2 Map.empty" "txn_same s1 s2" "room (k + 3) s2"
      "diskview s2 = diskview s1"
      using fs_brelse [OF th H(1) s1(7,4)] H(2) by metis
    have same: "txn_same s s2" by (rule txn_same_trans [OF s1(3) s2(3)])
    note f2 = txn_same_fs [OF same]
    have v2: "diskview s2 = diskview s" using s2(5) s1(5) by simp
    have "grown (fs_sb s) 1 (diskview s) (icache s ip) (diskview s) (icache s ip)" by (rule grown_refl [OF t(4)])
    moreover have "bmap_ind ip j ind s = Inr (?e, s2)" using s1(1,6) s2(1) False t(5) by (simp add: bmap_ind_def Let_def)
    moreover have "slot (diskview s) (icache s ip) (NDIRECT + j) = ?e" using ind lj by (simp add: slot_def)
    moreover have "fs_ready ip k s2" using t f2 v2 s2(2) room_le [OF s2(4), of k] by (simp add: fs_ready_def)
    ultimately show thesis using that [of ?e s2] False f2 v2 fs_step_txn [OF same] by simp
  next
    case True
    obtain c where c: "c < sb_size (fs_sb s)" "\<not> alloc_bit (diskview s) (fs_sb s) c"
      using fr by (auto simp: free_blocks_def)
    have r1: "room (Suc (Suc (Suc k))) s1" using s1(4) by (simp add: numeral_eq_Suc)
    obtain b s2 where b: "balloc 1 s1 = Inr (b, s2)" "in_txn s2 H" "txn_same s1 s2" "room (Suc k) s2"
      "b < sb_size (fs_sb s)" "\<not> alloc_bit (diskview s) (fs_sb s) b" "diskview s2 = view_alloc (fs_sb s) b (diskview s)"
      using balloc_spec [OF th H(3), unfolded f1 s1(5), OF t(2) r1 _ ok(1) c] H(4) db by (metis singletonD)
    have bf: "b \<in> free_blocks (diskview s) (fs_sb s)" using b(5,6) by (simp add: free_blocks_def)
    note f = alloc_facts [OF t(2) ok(1) bf]
    have dat: "b_data (bcache s2 bp) = diskview s ind" using txn_data [OF b(2) H(1)] b(7) f(5) [OF db] by simp
    let ?d = "wr32 (diskview s ind) (4 * j) b"
    obtain s3 s4 where s4: "log_write bp (set_data bp ?d s2) = Inr s3" "brelse bp s3 = Inr s4"
      "in_txn s4 Map.empty" "txn_same s2 s4" "room k s4" "diskview s4 = (diskview s2)(ind := ?d)"
      using fs_write_held [OF b(2) H(1) b(4)] H(2) by metis
    have same: "txn_same s s4" using txn_same_trans s1(3) b(3) s4(4) by blast
    note f4 = txn_same_fs [OF same]
    have v: "diskview s4 = (view_alloc (fs_sb s) b (diskview s))(ind := ?d)" using s4(6) b(7) by simp
    have g: "grown (fs_sb s) 1 (diskview s) (icache s ip) (diskview s4) (icache s4 ip)"
      unfolding v f4 by (rule alloc_ind_grown [OF t(2,4) bf j ind True])
    have "bmap_ind ip j ind s = Inr (b, s4)"
      using s1(1,6) b(1) s4(1,2) True t(5) f1 dat by (simp add: bmap_ind_def Let_def)
    moreover have "slot (diskview s4) (icache s4 ip) (NDIRECT + j) = b"
      using ind lj f4 v by (simp add: slot_def rd32_wr32_same_nat)
    moreover have "fs_ready ip k s4" using t f4 s4(3,5) grown_disk_ok [OF g] by (simp add: fs_ready_def)
    ultimately show thesis using that g f(3) fs_step_txn [OF same] by blast
  qed
qed

lemma bmap_spec:
  fixes s :: "'a fsst_scheme"
  assumes r: "fs_ready ip (k + 5) s" and fr: "2 \<le> card (free_blocks (diskview s) (fs_sb s))" and bn: "unat bn < MAXFILE"
  obtains a s' where "bmap ip bn s = Inr (a, s')" "fs_ready ip k s'" "fs_step ip s s'" "a \<noteq> 0"
    "slot (diskview s') (icache s' ip) (unat bn) = a"
    "grown (fs_sb s) 2 (diskview s) (icache s ip) (diskview s') (icache s' ip)"
proof -
  have ne: "free_blocks (diskview s) (fs_sb s) \<noteq> {}" using fr by auto
  have r': "fs_ready ip ((k + 3) + 2) s" using r by (simp add: add.commute)
  obtain a1 s1 where s1: "addr_alloc ip (min (unat bn) NDIRECT) s = Inr (a1, s1)" "fs_ready ip (k + 3) s1" "fs_step ip s s1" "a1 \<noteq> 0"
    "i_addrs (icache s1 ip) (min (unat bn) NDIRECT) = a1"
    "grown (fs_sb s) 1 (diskview s) (icache s ip) (diskview s1) (icache s1 ip)"
    using addr_alloc_spec [OF r' ne, of "min (unat bn) NDIRECT"] by auto
  show thesis
  proof (cases "unat bn < NDIRECT")
    case True
    have "fs_ready ip k s1" using s1(2) room_le [of "k + 3" s1 k] by (simp add: fs_ready_def)
    moreover have "grown (fs_sb s) 2 (diskview s) (icache s ip) (diskview s1) (icache s1 ip)"
      using s1(6) by (simp add: grown_def extends_def)
    ultimately show thesis
      using that [of a1 s1] s1(1,3-5) True by (simp add: bmap_split min_def slot_def)
  next
    case False
    then have m: "min (unat bn) NDIRECT = NDIRECT" by simp
    have sb: "fs_sb s1 = fs_sb s" using s1(3) by (simp add: fs_step_def)
    have "1 \<le> card (free_blocks (diskview s1) (fs_sb s1))"
      using s1(6) fr sb by (simp add: grown_def extends_def)
    then have ne1: "free_blocks (diskview s1) (fs_sb s1) \<noteq> {}" by auto
    have j: "unat bn - NDIRECT < NINDIRECT" "NDIRECT + (unat bn - NDIRECT) = unat bn" using bn False by (auto simp: MAXFILE_def)
    obtain a s2 where s2: "bmap_ind ip (unat bn - NDIRECT) a1 s1 = Inr (a, s2)" "fs_ready ip k s2" "fs_step ip s1 s2" "a \<noteq> 0"
      "slot (diskview s2) (icache s2 ip) (unat bn) = a"
      "grown (fs_sb s) 1 (diskview s1) (icache s1 ip) (diskview s2) (icache s2 ip)"
      using bmap_ind_spec [OF s1(2) ne1 j(1) s1(5) [unfolded m] s1(4)] unfolding j(2) sb by metis
    have "grown (fs_sb s) 2 (diskview s) (icache s ip) (diskview s2) (icache s2 ip)"
      using grown_trans [OF s1(6) s2(6)] by (simp add: numeral_2_eq_2)
    moreover have "bmap ip bn s = Inr (a, s2)" using s1(1) s2(1) False bn m by (simp add: bmap_split)
    ultimately show thesis using that s2 fs_step_trans [OF s1(3) s2(3)] by blast
  qed
qed

text \<open>A block that is already there is found without changing anything.\<close>

lemma bmap_present:
  fixes s :: "'a fsst_scheme"
  assumes r: "fs_ready ip k s" and bn: "unat bn < MAXFILE" "slot (diskview s) (icache s ip) (unat bn) = a" "a \<noteq> 0"
  obtains s' where "bmap ip bn s = Inr (a, s')" "fs_ready ip k s'" "txn_same s s'" "diskview s' = diskview s"
proof (cases "unat bn < NDIRECT")
  case True
  then show thesis using that [of s] r bn by (simp add: bmap_split addr_alloc_def slot_def txn_same_def)
next
  case False
  have t: "in_txn s Map.empty" "fs_geo (fs_sb s) (disksize s)" "room k s"
    "disk_ok (diskview s) (fs_sb s) (icache s ip)" "i_dev (icache s ip) = 1"
    using r by (auto simp: fs_ready_def)
  let ?ind = "i_addrs (icache s ip) NDIRECT"
  have ind: "?ind \<noteq> 0" "rd32 (diskview s ?ind) (4 * (unat bn - NDIRECT)) = a"
    using bn False by (auto simp: slot_def split: if_splits)
  have "data_block (diskview s) (fs_sb s) ?ind" using inode_okD(3) ind t(4) by (simp add: disk_ok_def)
  then have n: "?ind < disksize s" using fs_geoD(1) [OF t(2)] unfolding data_block_def by (metis order.strict_trans2)
  obtain b s1 s' where s1: "bread 1 ?ind s = Inr (b, s1)" "b_data (bcache s1 b) = diskview s ?ind" "txn_same s s1"
    "brelse b s1 = Inr s'" "in_txn s' Map.empty" "txn_same s s'" "room k s'" "diskview s' = diskview s"
    using fs_read [OF t(1) _ n t(3) few_empty] by (metis ran_empty empty_iff)
  have "bmap ip bn s = Inr (a, s')"
    using s1(1,2,4) ind bn False t(5) by (simp add: bmap_split addr_alloc_def bmap_ind_def Let_def)
  moreover have "fs_ready ip k s'" using t s1(5,7,8) txn_same_fs [OF s1(6)] by (simp add: fs_ready_def)
  ultimately show thesis using that s1(6,8) by blast
qed

section \<open>Writing the bytes of one block\<close>

lemma fbyte_div: "p < MAXFILE * 512 \<Longrightarrow> p div 512 < MAXFILE"
  by (simp add: less_mult_imp_div_less)

lemma block_write:
  assumes geo: "fs_geo sb sz" and ok: "disk_ok v sb x" and k: "k < MAXFILE" "slot v x k = a" "a \<noteq> 0"
    and v': "v' = v(a := blk_write (v a) i m src)" and im: "i + m \<le> 512"
  shows "extends sb 0 v x v' x"
    and "p < MAXFILE * 512 \<Longrightarrow> fbyte v' x p =
      (if 512 * k + i \<le> p \<and> p < 512 * k + i + m then src (p - (512 * k + i)) else fbyte v x p)"
proof -
  have ok': "meta_ok v sb" "inode_ok v sb x" using ok by (auto simp: disk_ok_def)
  note io = inode_okD [OF ok'(2)]
  have a: "data_block v sb a" "a \<in> file_blocks v x" "a \<noteq> i_addrs x NDIRECT"
    using io(1) [of k] k file_blocks_mem [of k v x] io(2) [of k MAXFILE] by (auto simp: slot_ind)
  have sl: "slot v' x j = slot v x j" for j using a(3) by (intro slot_cong) (auto simp: v')
  have bits: "alloc_bit v' sb c = alloc_bit v sb c" if "c < sb_size sb" for c
    using fs_geoD(6) [OF geo that] a(1) by (auto simp: alloc_bit_def v' data_block_def)
  have db: "data_block v' sb c = data_block v sb c" for c using bits [of c] by (auto simp: data_block_def)
  have "c < sb_size sb" if "unat c < datastart sb" for c
    using that fs_geoD(2) [OF geo] by (simp add: word_less_nat_alt)
  then have "disk_ok v' sb x" using ok' bits sl db by (simp add: disk_ok_def meta_ok_def inode_ok_def)
  moreover have "others_same sb v x v'"
    using a fs_geoD(3) [OF geo] bits unfolding others_same_def v' data_block_def by (auto simp: not_less)
  moreover have "free_blocks v' sb = free_blocks v sb" "file_blocks v' x = file_blocks v x"
    using bits sl by (auto simp: free_blocks_def file_blocks_def)
  ultimately show "extends sb 0 v x v' x"
    using sl db by (auto simp: extends_def intro!: exI [of _ "i_addrs x"])
  { assume p: "p < MAXFILE * 512"
    show "fbyte v' x p = (if 512 * k + i \<le> p \<and> p < 512 * k + i + m then src (p - (512 * k + i)) else fbyte v x p)"
    proof (cases "p div 512 = k")
      case True
      then have "p = 512 * k + p mod 512" "p mod 512 < 512" by auto
      then obtain q where q: "p = 512 * k + q" "q < 512" "p mod 512 = q" by blast
      have "fbyte v' x p = blk_write (v a) i m src q" "fbyte v x p = v a q"
        using True k q(3) sl by (simp_all add: fbyte_def v')
      then show ?thesis using q(1) by (auto simp: blk_write_def)
    next
      case False
      then have "slot v x (p div 512) \<noteq> a" using io(2) [of "p div 512" k] k fbyte_div [OF p] by auto
      then have "fbyte v' x p = fbyte v x p" using sl by (simp add: fbyte_def v' Let_def)
      moreover have "\<not> (512 * k + i \<le> p \<and> p < 512 * k + i + m)" using False im by auto
      ultimately show ?thesis by auto
    qed }
qed

end
