(* ===== verification/Fs_Content.thy ===== *)
theory Fs_Content
  imports Fs_File
begin

text \<open>
  Reading and writing files. A file is abstractly a list of bytes, \<open>contents s ip\<close>; \<^verbatim>\<open>readi\<close> and
  \<^verbatim>\<open>writei\<close> of \<^verbatim>\<open>fs.c\<close> implement \<open>file_read\<close> and \<open>file_write\<close> on it, block by block through
  \<^verbatim>\<open>bmap\<close>, and leave every other file alone.
\<close>

section \<open>The loops\<close>

text \<open>The number of blocks that \<open>r\<close> bytes from offset \<open>p\<close> touch.\<close>

definition nblk :: "nat \<Rightarrow> nat \<Rightarrow> nat" where
  "nblk p r = (if r = 0 then 0 else (p mod 512 + r - 1) div 512 + 1)"

lemma same_block:
  assumes "(q :: nat) mod 512 + i < 512"
  shows "(q + i) div 512 = q div 512" "(q + i) mod 512 = q mod 512 + i"
proof -
  obtain a b where q: "q = 512 * a + b" "b < 512" "q mod 512 = b" "q div 512 = a"
    by (metis mod_less_divisor mult_div_mod_eq zero_less_numeral)
  then have "(b + i) div 512 = 0" "(b + i) mod 512 = b + i" "q + i = (b + i) + 512 * a" using assms by simp_all
  then show "(q + i) div 512 = q div 512" "(q + i) mod 512 = q mod 512 + i"
    using q(3,4) by (simp_all only: div_mult_self2 mod_mult_self2)
qed

lemma nblk_step:
  assumes "0 < r" "m = min r (512 - p mod 512)"
  shows "nblk p r = Suc (nblk (p + m) (r - m))"
proof (cases "r \<le> 512 - p mod 512")
  case True
  then have "p mod 512 + r - 1 < 512" using assms by auto
  then show ?thesis using True assms by (simp add: nblk_def)
next
  case False
  then have m: "m = 512 - p mod 512" "m < r" using assms by auto
  obtain q b where q: "p = 512 * q + b" "b < 512" "p mod 512 = b"
    by (metis mod_less_divisor mult_div_mod_eq zero_less_numeral)
  then have "p + m = 512 * (q + 1)" using m(1) by simp
  then have z: "(p + m) mod 512 = 0" by simp
  have e: "p mod 512 + r - 1 = 512 + (r - m - 1)" using m q by simp
  have "nblk p r = Suc ((r - m - 1) div 512) + 1" unfolding nblk_def e using assms(1) by simp
  then show ?thesis using m(2) z by (simp add: nblk_def)
qed

lemma chunk_unat:
  assumes "tot \<le> n"
  shows "unat (chunk off tot n) = min (unat n - unat tot) (512 - unat off mod 512)"
proof -
  have "off mod 512 \<le> 512" by (simp add: word_mod_less_divisor order.strict_implies_order)
  then have "unat (512 - off mod 512) = 512 - unat off mod 512" by (simp add: unat_sub unat_mod)
  moreover have "unat (n - tot) = unat n - unat tot" using assms by (simp add: unat_sub)
  ultimately show ?thesis by (simp add: chunk_def min_def word_le_nat_alt)
qed

text \<open>One turn of a loop, in natural numbers: \<open>p\<close> the offset, \<open>t\<close> the bytes done, \<open>m\<close> this turn.\<close>

lemma chunk_turn:
  assumes "tot < n" "unat off + (unat n - unat tot) \<le> MAXFILE * 512"
  defines "m \<equiv> chunk off tot n"
  shows "0 < unat m" "unat m \<le> unat n - unat tot" "unat off mod 512 + unat m \<le> 512"
    "unat (off + m) = unat off + unat m" "unat (tot + m) = unat tot + unat m" "tot + m \<le> n"
    "unat (off div 512) < MAXFILE" "unat (off div 512) = unat off div 512"
    "nblk (unat off) (unat n - unat tot) = Suc (nblk (unat (off + m)) (unat n - unat (tot + m)))"
proof -
  have lt: "unat tot < unat n" using assms(1) by (simp add: word_less_nat_alt)
  have m: "unat m = min (unat n - unat tot) (512 - unat off mod 512)" unfolding m_def using assms(1) by (simp add: chunk_unat)
  show 1: "0 < unat m" "unat m \<le> unat n - unat tot" "unat off mod 512 + unat m \<le> 512"
    using m lt by (auto simp: mod_le_divisor)
  have "unat tot + unat m < 4294967296" using 1(2) lt unat_u32_less [of n] by linarith
  moreover have "unat off + unat m < 4294967296" using 1(2) assms(2) by (auto simp: MAXFILE_less)
  ultimately show 2: "unat (off + m) = unat off + unat m" "unat (tot + m) = unat tot + unat m"
    by (simp_all add: unat_word_ariths)
  show "tot + m \<le> n" using 1(2) 2(2) lt by (simp add: word_le_nat_alt)
  show 3: "unat (off div 512) = unat off div 512" by (simp add: unat_div)
  have "unat off < MAXFILE * 512" using assms(2) lt by auto
  then show "unat (off div 512) < MAXFILE" unfolding 3 by (rule fbyte_div)
  show "nblk (unat off) (unat n - unat tot) = Suc (nblk (unat (off + m)) (unat n - unat (tot + m)))"
    unfolding 2 using nblk_step [OF _ m] lt by (simp add: diff_diff_eq)
qed

lemma fs_ready_same: "fs_ready ip k s \<Longrightarrow> in_txn s' Map.empty \<Longrightarrow> txn_same s s' \<Longrightarrow> room j s' \<Longrightarrow> diskview s' = diskview s \<Longrightarrow> fs_ready ip j s'"
  for s s' :: "'a fsst_scheme"
  by (simp add: fs_ready_def txn_same_fs)

lemma fs_readyD:
  assumes "fs_ready ip k s"
  shows "in_txn s Map.empty" "fs_geo (fs_sb s) (disksize s)" "room k s"
    "disk_ok (diskview s) (fs_sb s) (icache s ip)" "i_dev (icache s ip) = 1"
  using assms by (auto simp: fs_ready_def)

lemma slot_on_disk:
  assumes "fs_ready ip k s" "j \<le> MAXFILE" "slot (diskview s) (icache s ip) j \<noteq> 0"
  shows "slot (diskview s) (icache s ip) j < disksize s"
proof -
  note t = fs_readyD [OF assms(1)]
  have "data_block (diskview s) (fs_sb s) (slot (diskview s) (icache s ip) j)"
    using t(4) inode_okD(1) assms(2,3) unfolding disk_ok_def by blast
  then show ?thesis using fs_geoD(1) [OF t(2)] unfolding data_block_def by (metis order.strict_trans2)
qed

lemma readi_loop_spec:
  fixes s :: "'a fsst_scheme"
  assumes "fs_ready ip k s" "tot \<le> n" "unat off + (unat n - unat tot) \<le> MAXFILE * 512"
    and "\<And>p. unat off \<le> p \<Longrightarrow> p < unat off + (unat n - unat tot) \<Longrightarrow> slot (diskview s) (icache s ip) (p div 512) \<noteq> 0"
  shows "\<exists>s'. readi_loop ip off tot n s =
      Inr (map (fbyte (diskview s) (icache s ip)) [unat off..<unat off + (unat n - unat tot)], s') \<and>
    fs_ready ip k s' \<and> txn_same s s' \<and> diskview s' = diskview s"
  using assms
proof (induction "unat n - unat tot" arbitrary: off tot s rule: less_induct)
  case less
  show ?case
  proof (cases "tot < n")
    case False
    then have "n = tot" using less.prems(2) by simp
    then show ?thesis using less.prems(1) by (subst readi_loop.simps) (simp add: txn_same_def)
  next
    case True
    define m where "m = chunk off tot n"
    note c = chunk_turn [OF True less.prems(3), folded m_def]
    note t = fs_readyD [OF less.prems(1)]
    let ?v = "diskview s" and ?x = "icache s ip" and ?a = "slot (diskview s) (icache s ip) (unat off div 512)"
    have a0: "?a \<noteq> 0" using less.prems(4) [of "unat off"] c(1,2) by simp
    obtain s1 where s1: "bmap ip (off div 512) s = Inr (?a, s1)" "fs_ready ip k s1" "txn_same s s1" "diskview s1 = ?v"
      using bmap_present [OF less.prems(1) c(7) _ a0] unfolding c(8) by blast
    note f1 = txn_same_fs [OF s1(3)] and t1 = fs_readyD [OF s1(2)]
    have ad: "?a < disksize s1" using slot_on_disk [OF less.prems(1) _ a0] c(7,8) f1(5) by simp
    obtain b s2 s3 where s3: "bread 1 ?a s1 = Inr (b, s2)" "b_data (bcache s2 b) = diskview s1 ?a" "txn_same s1 s2"
      "brelse b s2 = Inr s3" "in_txn s3 Map.empty" "txn_same s1 s3" "room k s3" "diskview s3 = diskview s1"
      using fs_read [OF t1(1) _ ad t1(3) few_empty] by (metis ran_empty empty_iff)
    have same: "txn_same s s3" by (rule txn_same_trans [OF s1(3) s3(6)])
    note f3 = txn_same_fs [OF same]
    have v3: "diskview s3 = ?v" using s3(8) s1(4) by simp
    have r3: "fs_ready ip k s3" by (rule fs_ready_same [OF less.prems(1) s3(5) same s3(7) v3])
    have len: "unat off + (unat n - unat tot) = unat (off + m) + (unat n - unat (tot + m))" using c by simp
    obtain s' where s': "readi_loop ip (off + m) (tot + m) n s3 =
        Inr (map (fbyte ?v ?x) [unat (off + m)..<unat (off + m) + (unat n - unat (tot + m))], s')"
      "fs_ready ip k s'" "txn_same s3 s'" "diskview s' = ?v"
    proof -
      have "unat n - unat (tot + m) < unat n - unat tot" using c(1,2,5) by linarith
      moreover have "slot ?v ?x (p div 512) \<noteq> 0" if "unat (off + m) \<le> p" "p < unat (off + m) + (unat n - unat (tot + m))" for p
        using less.prems(4) [of p] that c(4) unfolding len by simp
      ultimately show thesis
        using that less.hyps [of "tot + m" s3 "off + m", OF _ r3 c(6), unfolded v3 f3] less.prems(3) unfolding len by blast
    qed
    have bytes: "map (?v ?a) [unat (off mod 512)..<unat (off mod 512) + unat m] = map (fbyte ?v ?x) [unat off..<unat off + unat m]"
    proof (rule nth_equalityI)
      fix i assume "i < length (map (?v ?a) [unat (off mod 512)..<unat (off mod 512) + unat m])"
      then have i: "i < unat m" by simp
      have "(unat off + i) div 512 = unat off div 512" "(unat off + i) mod 512 = unat off mod 512 + i"
        using i c(3) same_block [of "unat off" i] by simp_all
      then show "map (?v ?a) [unat (off mod 512)..<unat (off mod 512) + unat m] ! i = map (fbyte ?v ?x) [unat off..<unat off + unat m] ! i"
        using i a0 by (simp add: fbyte_def unat_mod)
    qed simp
    have up: "map (fbyte ?v ?x) [unat off..<unat off + (unat n - unat tot)] = map (fbyte ?v ?x) [unat off..<unat off + unat m] @
        map (fbyte ?v ?x) [unat (off + m)..<unat (off + m) + (unat n - unat (tot + m))]"
      unfolding len map_append [symmetric] c(4) by (subst upt_add_eq_append) simp_all
    have "readi_loop ip off tot n s = Inr (map (fbyte ?v ?x) [unat off..<unat off + (unat n - unat tot)], s')"
      using True s1(1,4) s3(1,2,4) t1(5) s'(1) bytes len up
      by (subst readi_loop.simps) (simp add: m_def [symmetric] Let_def)
    then show ?thesis using s' txn_same_trans [OF same s'(3)] by blast
  qed
qed

text \<open>
  What \<^verbatim>\<open>writei\<close> does to the disk and the inode: \<open>r\<close> bytes from offset \<open>p\<close> become \<open>src\<close>, at most two
  blocks are taken for each block written, and all else is as \<^const>\<open>extends\<close> says.
\<close>

definition file_wrote :: "superblock \<Rightarrow> (nat \<Rightarrow> u8) \<Rightarrow> nat \<Rightarrow> nat \<Rightarrow> view \<Rightarrow> inode \<Rightarrow> view \<Rightarrow> inode \<Rightarrow> bool" where
  "file_wrote sb src p r v x v' x' \<longleftrightarrow> extends sb (2 * nblk p r) v x v' x' \<and>
     (\<forall>q < MAXFILE * 512. fbyte v' x' q = (if p \<le> q \<and> q < p + r then src (q - p) else fbyte v x q)) \<and>
     (\<forall>q. p \<le> q \<longrightarrow> q < p + r \<longrightarrow> slot v' x' (q div 512) \<noteq> 0)"

lemma extends_slot: "extends sb n v x v' x' \<Longrightarrow> k \<le> MAXFILE \<Longrightarrow> slot v x k \<noteq> 0 \<Longrightarrow> slot v' x' k \<noteq> 0"
  by (simp add: extends_def)

lemma file_wrote_nil: "disk_ok v sb x \<Longrightarrow> file_wrote sb src p 0 v x v x"
  by (auto simp: file_wrote_def extends_refl)

lemma file_wrote_chunk:
  assumes geo: "fs_geo sb sz" and g: "grown sb 2 v x v1 x1" and k: "p div 512 < MAXFILE" "slot v1 x1 (p div 512) = a" "a \<noteq> 0"
    and m: "0 < m" "p mod 512 + m \<le> 512" and v2: "v2 = v1(a := blk_write (v1 a) (p mod 512) m src)"
  shows "file_wrote sb src p m v x v2 x1"
proof -
  have p: "512 * (p div 512) + p mod 512 = p" by simp
  have ok: "disk_ok v1 sb x1" by (rule grown_disk_ok(1) [OF g])
  note w = block_write [OF geo ok k v2 m(2), unfolded p]
  have nb: "2 * nblk p m = 2" using m by (simp add: nblk_def)
  have e: "extends sb (2 * nblk p m) v x v2 x1" unfolding nb using extends_trans [OF _ w(1)] g by (auto simp: grown_def)
  have "fbyte v2 x1 q = (if p \<le> q \<and> q < p + m then src (q - p) else fbyte v x q)" if "q < MAXFILE * 512" for q
    using w(2) [OF that] g that by (simp add: grown_def)
  moreover have "slot v2 x1 (q div 512) \<noteq> 0" if "p \<le> q" "q < p + m" for q
  proof -
    have "q div 512 = p div 512" using same_block(1) [of p "q - p"] that m(2) by simp
    then show ?thesis using extends_slot [OF w(1)] k by simp
  qed
  ultimately show ?thesis using e unfolding file_wrote_def by blast
qed

lemma file_wrote_trans:
  assumes w: "file_wrote sb src p m v x v1 x1" and w': "file_wrote sb (\<lambda>i. src (m + i)) (p + m) (r - m) v1 x1 v2 x2"
    and m: "m \<le> r" "nblk p r = nblk p m + nblk (p + m) (r - m)" and r: "p + r \<le> MAXFILE * 512"
  shows "file_wrote sb src p r v x v2 x2"
proof -
  have e: "extends sb (2 * nblk p r) v x v2 x2"
    unfolding m(2) using extends_trans w w' unfolding file_wrote_def distrib_left by blast
  have "fbyte v2 x2 q = (if p \<le> q \<and> q < p + r then src (q - p) else fbyte v x q)" if "q < MAXFILE * 512" for q
    using w w' m(1) that by (auto simp: file_wrote_def)
  moreover have "slot v2 x2 (q div 512) \<noteq> 0" if q: "p \<le> q" "q < p + r" for q
  proof (cases "q < p + m")
    case True
    then have "slot v1 x1 (q div 512) \<noteq> 0" using w q by (simp add: file_wrote_def)
    moreover have "q div 512 \<le> MAXFILE" using fbyte_div [of q] q r by simp
    ultimately show ?thesis using extends_slot w' unfolding file_wrote_def by blast
  next
    case False
    then show ?thesis using w' q m(1) by (simp add: file_wrote_def)
  qed
  ultimately show ?thesis using e unfolding file_wrote_def by blast
qed

text \<open>One turn of the loop of \<^verbatim>\<open>writei\<close>.\<close>

lemma writei_turn:
  fixes s :: "'a fsst_scheme" and src :: "nat \<Rightarrow> u8"
  assumes r: "fs_ready ip (j + 6) s" and fr: "2 \<le> card (free_blocks (diskview s) (fs_sb s))"
    and k: "unat (off div 512) < MAXFILE" and m: "0 < unat m" "unat off mod 512 + unat m \<le> 512"
  defines "f \<equiv> \<lambda>d. blk_write d (unat (off mod 512)) (unat m) src"
  obtains a s1 b s2 s' where "bmap ip (off div 512) s = Inr (a, s1)" "i_dev (icache s1 ip) = 1" "bread 1 a s1 = Inr (b, s2)"
    "txn_update 1 a f s1 = Inr s'" "fs_ready ip j s'" "fs_step ip s s'"
    "file_wrote (fs_sb s) src (unat off) (unat m) (diskview s) (icache s ip) (diskview s') (icache s' ip)"
proof -
  have r': "fs_ready ip ((j + 1) + 5) s" using r by (simp add: ac_simps)
  have d: "unat (off div 512) = unat off div 512" by (simp add: unat_div)
  obtain a s1 where s1: "bmap ip (off div 512) s = Inr (a, s1)" "fs_ready ip (j + 1) s1" "fs_step ip s s1" "a \<noteq> 0"
    "slot (diskview s1) (icache s1 ip) (unat off div 512) = a"
    "grown (fs_sb s) 2 (diskview s) (icache s ip) (diskview s1) (icache s1 ip)"
    using bmap_spec [OF r' fr k] unfolding d by blast
  note t1 = fs_readyD [OF s1(2)]
  have sb: "fs_sb s1 = fs_sb s" using s1(3) by (simp add: fs_step_def)
  have kM: "unat off div 512 < MAXFILE" using k d by simp
  have ad: "a < disksize s1" using slot_on_disk [OF s1(2), of "unat off div 512"] kM s1(4,5) by simp
  have t1r: "room (Suc j) s1" using t1(3) by simp
  obtain b s2 where b: "bread 1 a s1 = Inr (b, s2)"
    using fs_bread [OF t1(1) _ ad t1(3) few_empty] by (metis ran_empty empty_iff)
  obtain s3 where s3: "txn_update 1 a f s1 = Inr s3" "in_txn s3 Map.empty" "txn_same s1 s3" "room j s3"
    "diskview s3 = (diskview s1)(a := f (diskview s1 a))"
    using fs_update [OF t1(1) _ ad t1r few_empty, of f] by (metis ran_empty empty_iff)
  note f3 = txn_same_fs [OF s3(3)]
  have geo: "fs_geo (fs_sb s) (disksize s1)" using t1(2) sb by simp
  have v3: "diskview s3 = (diskview s1)(a := blk_write (diskview s1 a) (unat off mod 512) (unat m) src)"
    using s3(5) by (simp add: f_def unat_mod)
  have w: "file_wrote (fs_sb s) src (unat off) (unat m) (diskview s) (icache s ip) (diskview s3) (icache s3 ip)"
    unfolding f3 by (rule file_wrote_chunk [OF geo s1(6) kM s1(5,4) m v3])
  have "disk_ok (diskview s3) (fs_sb s3) (icache s3 ip)" using w f3 sb by (simp add: file_wrote_def extends_def)
  then have "fs_ready ip j s3" using s3(2,4) t1 f3 by (simp add: fs_ready_def)
  moreover have "fs_step ip s s3" by (rule fs_step_trans [OF s1(3) fs_step_txn [OF s3(3)]])
  ultimately show thesis using that s1(1) t1(5) b s3(1) w by blast
qed

lemma writei_loop_spec:
  fixes s :: "'a fsst_scheme"
  assumes "fs_ready ip (6 * nblk (unat off) (unat n - unat tot) + k) s" "tot \<le> n"
    "unat off + (unat n - unat tot) \<le> MAXFILE * 512"
    "2 * nblk (unat off) (unat n - unat tot) \<le> card (free_blocks (diskview s) (fs_sb s))"
  shows "\<exists>s'. writei_loop ip src off tot n s = Inr (off + (n - tot), s') \<and> fs_ready ip k s' \<and> fs_step ip s s' \<and>
    file_wrote (fs_sb s) (\<lambda>i. src (unat tot + i)) (unat off) (unat n - unat tot) (diskview s) (icache s ip) (diskview s') (icache s' ip)"
  using assms
proof (induction "unat n - unat tot" arbitrary: off tot s rule: less_induct)
  case less
  show ?case
  proof (cases "tot < n")
    case False
    then have "n = tot" using less.prems(2) by simp
    then show ?thesis using less.prems(1) fs_readyD(4) [OF less.prems(1)]
      by (subst writei_loop.simps) (simp add: file_wrote_nil nblk_def)
  next
    case True
    define m where "m = chunk off tot n"
    note c = chunk_turn [OF True less.prems(3), folded m_def]
    define j where "j = 6 * nblk (unat (off + m)) (unat n - unat (tot + m)) + k"
    let ?src = "\<lambda>i. src (unat tot + i)"
    let ?f = "\<lambda>d. blk_write d (unat (off mod 512)) (unat m) ?src"
    have r: "fs_ready ip (j + 6) s" using less.prems(1) unfolding c(9) j_def by (simp add: ac_simps)
    have fr: "2 \<le> card (free_blocks (diskview s) (fs_sb s))" using less.prems(4) unfolding c(9) by simp
    obtain a s1 b s2 s3 where s3: "bmap ip (off div 512) s = Inr (a, s1)" "i_dev (icache s1 ip) = 1" "bread 1 a s1 = Inr (b, s2)"
      "txn_update 1 a ?f s1 = Inr s3" "fs_ready ip j s3" "fs_step ip s s3"
      "file_wrote (fs_sb s) ?src (unat off) (unat m) (diskview s) (icache s ip) (diskview s3) (icache s3 ip)"
      using writei_turn [OF r fr c(7,1,3)] by metis
    have sb: "fs_sb s3 = fs_sb s" using s3(6) by (simp add: fs_step_def)
    have nb: "nblk (unat off) (unat m) = 1" using c(1,3) by (simp add: nblk_def)
    have fr3: "2 * nblk (unat (off + m)) (unat n - unat (tot + m)) \<le> card (free_blocks (diskview s3) (fs_sb s3))"
      using s3(7) less.prems(4) nb sb unfolding c(9) by (simp add: file_wrote_def extends_def)
    have len: "unat (off + m) + (unat n - unat (tot + m)) \<le> MAXFILE * 512" using less.prems(3) c(2,4,5) by linarith
    have dec: "unat n - unat (tot + m) < unat n - unat tot" using c(1,2,5) by linarith
    obtain s' where s': "writei_loop ip src (off + m) (tot + m) n s3 = Inr (off + m + (n - (tot + m)), s')" "fs_ready ip k s'"
      "fs_step ip s3 s'" "file_wrote (fs_sb s) (\<lambda>i. src (unat (tot + m) + i)) (unat (off + m)) (unat n - unat (tot + m))
         (diskview s3) (icache s3 ip) (diskview s') (icache s' ip)"
      using less.hyps [OF dec s3(5) [unfolded j_def] c(6) len fr3] unfolding sb by blast
    have "file_wrote (fs_sb s) ?src (unat off) (unat n - unat tot) (diskview s) (icache s ip) (diskview s') (icache s' ip)"
    proof (rule file_wrote_trans [OF s3(7)])
      show "unat m \<le> unat n - unat tot" by (rule c(2))
      have "unat n - unat tot - unat m = unat n - unat (tot + m)" using c(5) by simp
      then show "file_wrote (fs_sb s) (\<lambda>i. src (unat tot + (unat m + i))) (unat off + unat m) (unat n - unat tot - unat m)
          (diskview s3) (icache s3 ip) (diskview s') (icache s' ip)"
        and "nblk (unat off) (unat n - unat tot) = nblk (unat off) (unat m) + nblk (unat off + unat m) (unat n - unat tot - unat m)"
        using s'(4) c(9) nb unfolding c(4,5) by (simp_all add: add.assoc)
    qed (rule less.prems(3))
    moreover have "writei_loop ip src off tot n s = Inr (off + (n - tot), s')"
      using True s3(1-4) s'(1) txn_update_after_read [OF s3(3), of ?f "writei_loop ip src (off + m) (tot + m) n"]
      by (subst writei_loop.simps) (simp add: m_def [symmetric] Let_def)
    ultimately show ?thesis using s'(2) fs_step_trans [OF s3(6) s'(3)] by blast
  qed
qed

section \<open>Files as lists of bytes\<close>

definition file_ok :: "view \<Rightarrow> superblock \<Rightarrow> inode \<Rightarrow> bool" where
  "file_ok v sb x \<longleftrightarrow> disk_ok v sb x \<and> unat (i_size x) \<le> MAXFILE * 512 \<and>
     (\<forall>p < unat (i_size x). slot v x (p div 512) \<noteq> 0)"

definition contents :: "'a fsst_scheme \<Rightarrow> nat \<Rightarrow> u8 list" where
  "contents s ip = map (fbyte (diskview s) (icache s ip)) [0..<unat (i_size (icache s ip))]"

definition file_read :: "u8 list \<Rightarrow> nat \<Rightarrow> nat \<Rightarrow> u8 list" where
  "file_read xs off n = take n (drop off xs)"

definition file_write :: "u8 list \<Rightarrow> nat \<Rightarrow> u8 list \<Rightarrow> u8 list" where
  "file_write xs off bs = take off xs @ bs @ drop (off + length bs) xs"

lemma file_read_write: "off \<le> length xs \<Longrightarrow> file_read (file_write xs off bs) off (length bs) = bs"
  by (simp add: file_read_def file_write_def)

lemma length_contents [simp]: "length (contents s ip) = unat (i_size (icache s ip))"
  by (simp add: contents_def)

lemma slot_size [simp]: "slot v (x\<lparr>i_size := z\<rparr>) k = slot v x k" "fbyte v (x\<lparr>i_size := z\<rparr>) p = fbyte v x p"
  "disk_ok v sb (x\<lparr>i_size := z\<rparr>) = disk_ok v sb x"
  by (simp_all add: slot_def fbyte_def disk_ok_def inode_ok_def)

lemma inode_block_upd:
  assumes geo: "fs_geo sb sz" and ok: "disk_ok v sb x" and n: "unat n < unat (sb_bmapstart sb)"
  shows "disk_ok (v(n := d)) sb x" "slot (v(n := d)) x k = slot v x k"
    "p < MAXFILE * 512 \<Longrightarrow> fbyte (v(n := d)) x p = fbyte v x p"
    "data_block (v(n := d)) sb b = data_block v sb b"
proof -
  have ok': "meta_ok v sb" "inode_ok v sb x" using ok by (auto simp: disk_ok_def)
  note io = inode_okD [OF ok'(2)]
  have dn: "data_block v sb b \<Longrightarrow> b \<noteq> n" for b using n fs_geoD(3) [OF geo] by (auto simp: data_block_def)
  show sl: "slot (v(n := d)) x k = slot v x k" for k using dn io(3) by (intro slot_cong) auto
  have bits: "alloc_bit (v(n := d)) sb c = alloc_bit v sb c" if "c < sb_size sb" for c
    using fs_geoD(5) [OF geo that] n by (auto simp: alloc_bit_def)
  show db: "data_block (v(n := d)) sb c = data_block v sb c" for c using bits [of c] by (auto simp: data_block_def)
  have "c < sb_size sb" if "unat c < datastart sb" for c
    using that fs_geoD(2) [OF geo] by (simp add: word_less_nat_alt)
  then show "disk_ok (v(n := d)) sb x" using ok' bits sl db by (simp add: disk_ok_def meta_ok_def inode_ok_def)
  show "fbyte (v(n := d)) x p = fbyte v x p" if "p < MAXFILE * 512"
  proof (cases "slot v x (p div 512) = 0")
    case False
    then have "slot v x (p div 512) \<noteq> n" using dn io(1) [of "p div 512"] fbyte_div [OF that] by simp
    then show ?thesis using sl by (simp add: fbyte_def Let_def)
  qed (use sl in \<open>simp add: fbyte_def\<close>)
qed

lemma sint_size: "unat (n :: u32) \<le> MAXFILE * 512 \<Longrightarrow> sint n = int (unat n)"
  using sint_small [of "unat n"] by (simp add: MAXFILE_less)

text \<open>\<^verbatim>\<open>readi\<close> returns the bytes of the file that there are in the range, and changes nothing.\<close>

lemma readi_spec:
  fixes s :: "'a fsst_scheme"
  assumes r: "fs_ready ip k s" and ok: "file_ok (diskview s) (fs_sb s) (icache s ip)"
    and ty: "i_type (icache s ip) \<noteq> T_DEV" and off: "off \<le> i_size (icache s ip)" "unat off + unat n < 2 ^ 32"
  obtains s' where "readi devsw ip off n s =
      Inr (int (length (file_read (contents s ip) (unat off) (unat n))), file_read (contents s ip) (unat off) (unat n), s')"
    "fs_ready ip k s'" "txn_same s s'" "diskview s' = diskview s"
proof -
  let ?x = "icache s ip" and ?z = "i_size (icache s ip)"
  define m where "m = (if off + n > ?z then ?z - off else n)"
  have sum: "unat (off + n) = unat off + unat n" using off(2) by (simp add: unat_word_ariths)
  have lz: "unat off \<le> unat ?z" "unat ?z \<le> MAXFILE * 512" using off(1) ok by (auto simp: word_le_nat_alt file_ok_def)
  have m: "unat m = min (unat n) (unat ?z - unat off)"
    using lz sum by (auto simp: m_def word_less_nat_alt unat_sub word_le_nat_alt)
  have le: "unat off + (unat m - unat 0) \<le> MAXFILE * 512" using m lz by simp
  have sl: "slot (diskview s) ?x (p div 512) \<noteq> 0" if "unat off \<le> p" "p < unat off + (unat m - unat 0)" for p
    using that m ok lz by (auto simp: file_ok_def)
  obtain s' where s': "readi_loop ip off 0 m s = Inr (map (fbyte (diskview s) ?x) [unat off..<unat off + (unat m - unat 0)], s')"
    "fs_ready ip k s'" "txn_same s s'" "diskview s' = diskview s"
    using readi_loop_spec [OF r _ le sl] by auto
  have up: "[unat off..<unat off + unat m] = take (unat n) (drop (unat off) [0..<unat ?z])"
    using lz m by (simp add: drop_upt take_upt min_def)
  have bytes: "map (fbyte (diskview s) ?x) [unat off..<unat off + unat m] = file_read (contents s ip) (unat off) (unat n)"
    by (simp add: up file_read_def contents_def take_map drop_map)
  have len: "length (file_read (contents s ip) (unat off) (unat n)) = unat m" using m by (simp add: file_read_def)
  have "sint m = int (unat m)" using le by (intro sint_size) simp
  moreover have "\<not> (off > ?z \<or> off + n < off)" using off(1) sum by (auto simp: word_less_nat_alt word_le_nat_alt)
  ultimately have "readi devsw ip off n s =
      Inr (int (length (file_read (contents s ip) (unat off) (unat n))), file_read (contents s ip) (unat off) (unat n), s')"
    using ty s'(1) bytes len by (simp add: readi_def Let_def m_def [symmetric])
  then show thesis using that s'(2-4) by blast
qed

text \<open>
  What \<^verbatim>\<open>writei\<close> on one file leaves to all others: their data blocks, which stay allocated, the
  other inode blocks, and the other inodes in the block of this one.
\<close>

definition other_files_same :: "superblock \<Rightarrow> view \<Rightarrow> inode \<Rightarrow> view \<Rightarrow> bool" where
  "other_files_same sb v x v' \<longleftrightarrow>
     (\<forall>b. data_block v sb b \<longrightarrow> b \<notin> file_blocks v x \<longrightarrow> v' b = v b \<and> data_block v' sb b) \<and>
     (\<forall>n. unat n < unat (sb_bmapstart sb) \<longrightarrow> n \<noteq> IBLOCK (i_inum x) sb \<longrightarrow> v' n = v n) \<and>
     (\<forall>j < IPB. j \<noteq> unat (i_inum x) mod IPB \<longrightarrow>
        dinode_get (v' (IBLOCK (i_inum x) sb)) j = dinode_get (v (IBLOCK (i_inum x) sb)) j)"

lemma extends_others:
  assumes "fs_geo sb sz" "unat (i_inum x) \<le> unat (sb_ninodes sb)" "extends sb n v x v' x'"
  shows "other_files_same sb v x v'"
  using assms fs_geoD(9) [OF assms(1,2)] by (auto simp: other_files_same_def extends_def others_same_def)

lemma contents_write:
  assumes w: "\<forall>q < MAXFILE * 512. fbyte v' x' q = (if p \<le> q \<and> q < p + length bs then bs ! (q - p) else fbyte v x q)"
    and z: "p \<le> z" "z \<le> MAXFILE * 512" "p + length bs \<le> MAXFILE * 512" "z' = max z (p + length bs)"
  shows "map (fbyte v' x') [0..<z'] = file_write (map (fbyte v x) [0..<z]) p bs"
proof (rule nth_equalityI)
  show "length (map (fbyte v' x') [0..<z']) = length (file_write (map (fbyte v x) [0..<z]) p bs)"
    using z by (auto simp: file_write_def)
  fix i assume "i < length (map (fbyte v' x') [0..<z'])"
  then have i: "i < z'" by simp
  then have "i < MAXFILE * 512" using z by auto
  then show "map (fbyte v' x') [0..<z'] ! i = file_write (map (fbyte v x) [0..<z]) p bs ! i"
    using i w z(1,4) by (auto simp: file_write_def nth_append not_less)
qed

text \<open>The end of \<^verbatim>\<open>writei\<close>: a longer file gets its new size, in the cache and on disk.\<close>

lemma set_size_spec:
  fixes s :: "'a fsst_scheme"
  assumes r: "fs_ready ip (Suc k) s" and inum: "unat (i_inum (icache s ip)) \<le> unat (sb_ninodes (fs_sb s))"
  obtains s' where "iupdate ip (upd_inode ip (\<lambda>x. x\<lparr>i_size := z\<rparr>) s) = Inr s'" "fs_ready ip k s'" "fs_step ip s s'"
    "icache s' ip = (icache s ip)\<lparr>i_size := z\<rparr>"
    "diskview s' = (diskview s)(IBLOCK (i_inum (icache s ip)) (fs_sb s) := dinode_put (diskview s (IBLOCK (i_inum (icache s ip)) (fs_sb s)))
       (unat (i_inum (icache s ip)) mod IPB) (dinode_of (icache s' ip)))"
proof -
  note t = fs_readyD [OF r]
  let ?s = "upd_inode ip (\<lambda>x. x\<lparr>i_size := z\<rparr>) s"
  have a: "in_txn ?s Map.empty" "fs_geo (fs_sb ?s) (disksize ?s)" "room (Suc k) ?s" "i_dev (icache ?s ip) = 1"
    "unat (i_inum (icache ?s ip)) \<le> unat (sb_ninodes (fs_sb ?s))" using t inum by simp_all
  obtain s' where s': "iupdate ip ?s = Inr s'" "in_txn s' Map.empty" "txn_same ?s s'" "room k s'"
    "diskview s' = (diskview s)(IBLOCK (i_inum (icache s ip)) (fs_sb s) := dinode_put (diskview s (IBLOCK (i_inum (icache s ip)) (fs_sb s)))
       (unat (i_inum (icache s ip)) mod IPB) (dinode_of (icache ?s ip)))"
    using iupdate_spec [OF a(1) few_empty a(2,3) _ a(4,5)] by auto
  note f = txn_same_fs [OF s'(3)]
  have "unat (IBLOCK (i_inum (icache s ip)) (fs_sb s)) < unat (sb_bmapstart (fs_sb s))" by (rule fs_geoD(9) [OF t(2) inum])
  then have "disk_ok (diskview s') (fs_sb s) (icache s ip)" unfolding s'(5) by (rule inode_block_upd(1) [OF t(2,4)])
  then have "fs_ready ip k s'" using s'(2,4) f t by (simp add: fs_ready_def)
  moreover have "fs_step ip s s'" by (rule fs_step_trans [OF fs_step_upd fs_step_txn [OF s'(3)]])
  moreover have "icache s' ip = (icache s ip)\<lparr>i_size := z\<rparr>" using f by simp
  ultimately show thesis using that s'(1,5) f by auto
qed

text \<open>The loop run from \<^verbatim>\<open>writei\<close>: \<open>end\<close> is the end of the file after the write.\<close>

lemma writei_data:
  fixes s :: "'a fsst_scheme"
  assumes r: "fs_ready ip (6 * nblk (unat off) (length bs) + k) s" and ok: "file_ok (diskview s) (fs_sb s) (icache s ip)"
    and inum: "unat (i_inum (icache s ip)) \<le> unat (sb_ninodes (fs_sb s))"
    and off: "off \<le> i_size (icache s ip)" "unat off + length bs \<le> MAXFILE * 512"
    and fr: "2 * nblk (unat off) (length bs) \<le> card (free_blocks (diskview s) (fs_sb s))"
  defines "z \<equiv> max (unat (i_size (icache s ip))) (unat off + length bs)"
  obtains s' a where "writei_loop ip (\<lambda>i. bs ! i) off 0 (of_nat (length bs)) s = Inr (off + of_nat (length bs), s')"
    "fs_ready ip k s'" "fs_step ip s s'" "icache s' ip = (icache s ip)\<lparr>i_addrs := a\<rparr>"
    "other_files_same (fs_sb s) (diskview s) (icache s ip) (diskview s')"
    "\<And>p. p < z \<Longrightarrow> slot (diskview s') (icache s' ip) (p div 512) \<noteq> 0"
    "map (fbyte (diskview s') (icache s' ip)) [0..<z] = file_write (contents s ip) (unat off) bs"
proof -
  let ?n = "of_nat (length bs) :: u32" and ?x = "icache s ip"
  have n: "unat ?n = length bs" using off(2) by (simp add: unat_of_nat MAXFILE_less)
  have lz: "unat off \<le> unat (i_size ?x)" "unat (i_size ?x) \<le> MAXFILE * 512"
    using off(1) ok by (auto simp: word_le_nat_alt file_ok_def)
  have r': "fs_ready ip (6 * nblk (unat off) (unat ?n - unat (0 :: u32)) + k) s" using r n by simp
  obtain s1 where s1: "writei_loop ip (\<lambda>i. bs ! i) off 0 ?n s = Inr (off + ?n, s1)" "fs_ready ip k s1" "fs_step ip s s1"
    "file_wrote (fs_sb s) (\<lambda>i. bs ! i) (unat off) (length bs) (diskview s) ?x (diskview s1) (icache s1 ip)"
    using writei_loop_spec [OF r', of "\<lambda>i. bs ! i"] off fr n by auto
  then obtain a where a: "icache s1 ip = ?x\<lparr>i_addrs := a\<rparr>" by (auto simp: file_wrote_def extends_def)
  have oth: "other_files_same (fs_sb s) (diskview s) ?x (diskview s1)"
    using s1(4) extends_others [OF fs_readyD(2) [OF r] inum] by (auto simp: file_wrote_def)
  have sl: "slot (diskview s1) (icache s1 ip) (p div 512) \<noteq> 0" if "p < z" for p
  proof (cases "unat off \<le> p \<and> p < unat off + length bs")
    case True then show ?thesis using s1(4) by (simp add: file_wrote_def)
  next
    case False
    then have p: "p < unat (i_size ?x)" using that lz by (auto simp: z_def)
    have "p div 512 \<le> MAXFILE" using fbyte_div [of p] p lz by simp
    then show ?thesis using ok s1(4) extends_slot p by (auto simp: file_wrote_def file_ok_def)
  qed
  have "map (fbyte (diskview s1) (icache s1 ip)) [0..<z] = file_write (contents s ip) (unat off) bs"
    unfolding contents_def z_def by (rule contents_write [OF _ lz off(2) refl]) (use s1(4) in \<open>simp add: file_wrote_def\<close>)
  then show thesis using that s1(1-3) a oth sl by blast
qed

lemma writei_guards:
  assumes "i_type (icache s ip) \<noteq> T_DEV" "off \<le> i_size (icache s ip)" "unat off + unat n \<le> MAXFILE * 512"
  shows "writei devsw ip src off n s = bindr (writei_loop ip src off 0 n s) (\<lambda>(off, s).
      if n > 0 \<and> off > i_size (icache s ip)
      then bindr (iupdate ip (upd_inode ip (\<lambda>x. x\<lparr>i_size := off\<rparr>) s)) (\<lambda>s. Inr (sint n, s))
      else Inr (sint n, s))" (is "_ = ?r")
proof -
  have sum: "unat (off + n) = unat off + unat n" using assms(3) by (simp add: unat_word_ariths MAXFILE_less)
  have "\<not> (off > i_size (icache s ip) \<or> off + n < off)" "\<not> off + n > of_nat (MAXFILE * BSIZE)"
    using assms sum by (auto simp: word_less_nat_alt word_le_nat_alt MAXFILE_less BSIZE_def)
  then show ?thesis unfolding writei_def Let_def if_not_P [OF assms(1)] by (simp only: if_False)
qed

lemma writei_spec:
  fixes s :: "'a fsst_scheme"
  assumes r: "fs_ready ip (6 * nblk (unat off) (length bs) + 1 + k) s" and ok: "file_ok (diskview s) (fs_sb s) (icache s ip)"
    and ty: "i_type (icache s ip) \<noteq> T_DEV" and inum: "unat (i_inum (icache s ip)) \<le> unat (sb_ninodes (fs_sb s))"
    and off: "off \<le> i_size (icache s ip)" "unat off + length bs \<le> MAXFILE * 512"
    and fr: "2 * nblk (unat off) (length bs) \<le> card (free_blocks (diskview s) (fs_sb s))"
  obtains s' where "writei devsw ip (\<lambda>i. bs ! i) off (of_nat (length bs)) s = Inr (int (length bs), s')"
    "fs_ready ip k s'" "fs_step ip s s'" "file_ok (diskview s') (fs_sb s') (icache s' ip)"
    "contents s' ip = file_write (contents s ip) (unat off) bs"
    "other_files_same (fs_sb s) (diskview s) (icache s ip) (diskview s')"
    "\<exists>a z. icache s' ip = (icache s ip)\<lparr>i_addrs := a, i_size := z\<rparr>"
proof -
  let ?n = "of_nat (length bs) :: u32" and ?sb = "fs_sb s" and ?x = "icache s ip" and ?b = "IBLOCK (i_inum (icache s ip)) (fs_sb s)"
  define z where "z = max (unat (i_size ?x)) (unat off + length bs)"
  have n: "unat ?n = length bs" using off(2) by (simp add: unat_of_nat MAXFILE_less)
  have sum: "unat (off + ?n) = unat off + length bs" using off(2) n by (simp add: unat_word_ariths MAXFILE_less)
  have r': "fs_ready ip (6 * nblk (unat off) (length bs) + Suc k) s" using r by simp
  obtain s1 a where s1: "writei_loop ip (\<lambda>i. bs ! i) off 0 ?n s = Inr (off + ?n, s1)" "fs_ready ip (Suc k) s1" "fs_step ip s s1"
    "icache s1 ip = ?x\<lparr>i_addrs := a\<rparr>" "other_files_same ?sb (diskview s) ?x (diskview s1)"
    "\<And>p. p < z \<Longrightarrow> slot (diskview s1) (icache s1 ip) (p div 512) \<noteq> 0"
    "map (fbyte (diskview s1) (icache s1 ip)) [0..<z] = file_write (contents s ip) (unat off) bs"
    using writei_data [OF r' ok inum off fr] unfolding z_def by metis
  have sb1: "fs_sb s1 = ?sb" "disksize s1 = disksize s" using s1(3) by (simp_all add: fs_step_def)
  note t1 = fs_readyD [OF s1(2)] and g = writei_guards [OF ty off(1), of ?n, unfolded n, OF off(2)]
  have si: "sint ?n = int (length bs)" using sint_size [of ?n] n off(2) by simp
  show thesis
  proof (cases "?n > 0 \<and> off + ?n > i_size (icache s1 ip)")
    case False
    then have z: "z = unat (i_size (icache s1 ip))"
      using sum n s1(4) off(1) by (auto simp: z_def max_def word_less_nat_alt not_less word_le_nat_alt)
    have "writei devsw ip (\<lambda>i. bs ! i) off ?n s = Inr (int (length bs), s1)"
      using s1(1) si by (simp only: g bindr_Inr prod.case if_not_P [OF False])
    moreover have "fs_ready ip k s1" using s1(2) room_le [of "Suc k" s1 k] by (simp add: fs_ready_def)
    moreover have "file_ok (diskview s1) (fs_sb s1) (icache s1 ip)"
      using t1(4) s1(6) ok s1(4) unfolding z file_ok_def by simp
    moreover have "contents s1 ip = file_write (contents s ip) (unat off) bs" using s1(7) unfolding contents_def z .
    moreover have "\<exists>a z. icache s1 ip = ?x\<lparr>i_addrs := a, i_size := z\<rparr>"
      using s1(4) by (intro exI [of _ a] exI [of _ "i_size ?x"]) simp
    ultimately show thesis using that s1(3,5) by blast
  next
    case True
    then have z: "z = unat (off + ?n)" using sum s1(4) by (simp add: z_def max_def word_less_nat_alt)
    have inum1: "unat (i_inum (icache s1 ip)) \<le> unat (sb_ninodes (fs_sb s1))" using inum s1(4) sb1 by simp
    obtain s2 where s2: "iupdate ip (upd_inode ip (\<lambda>x. x\<lparr>i_size := off + ?n\<rparr>) s1) = Inr s2" "fs_ready ip k s2" "fs_step ip s1 s2"
      "icache s2 ip = (icache s1 ip)\<lparr>i_size := off + ?n\<rparr>"
      "diskview s2 = (diskview s1)(?b := dinode_put (diskview s1 ?b) (unat (i_inum ?x) mod IPB) (dinode_of (icache s2 ip)))"
      using set_size_spec [OF s1(2) inum1, of "off + ?n"] s1(4) sb1 by auto
    have b: "unat ?b < unat (sb_bmapstart ?sb)" by (rule fs_geoD(9) [OF fs_readyD(2) [OF r] inum])
    note upd = inode_block_upd [OF t1(2,4), unfolded sb1, OF b]
    have "writei devsw ip (\<lambda>i. bs ! i) off ?n s = Inr (int (length bs), s2)"
      using s1(1) si s2(1) by (simp only: g bindr_Inr prod.case if_P [OF True])
    moreover have "file_ok (diskview s2) (fs_sb s2) (icache s2 ip)"
      using fs_readyD(4) [OF s2(2)] s1(6) upd(2) s2(4,5) off(2) sum unfolding z by (simp add: file_ok_def)
    moreover have "contents s2 ip = file_write (contents s ip) (unat off) bs"
      unfolding s1(7) [symmetric] z using s2(4,5) upd(3) off(2) sum by (auto simp: contents_def)
    moreover have "other_files_same ?sb (diskview s) ?x (diskview s2)"
      using s1(5) upd(4) b fs_geoD(3) [OF fs_readyD(2) [OF r]]
      unfolding s2(5) other_files_same_def by (auto simp: dinode_get_put_other data_block_def)
    moreover have "\<exists>a z. icache s2 ip = ?x\<lparr>i_addrs := a, i_size := z\<rparr>" using s2(4) s1(4) by auto
    ultimately show thesis using that s2(2) fs_step_trans [OF s1(3) s2(3)] by blast
  qed
qed

end
