(* ===== verification/Fs_Dir.thy ===== *)
theory Fs_Dir
  imports Fs_Content
begin

text \<open>
  Directories. The contents of a directory are 16-byte entries; \<open>dir_find\<close> is the position of the
  first used entry with a given name, \<open>dir_slot\<close> the position \<^verbatim>\<open>dirlink\<close> writes to.
\<close>

definition entry :: "u8 list \<Rightarrow> nat \<Rightarrow> u8 list" where
  "entry xs j = take 16 (drop (16 * j) xs)"

definition dir_len :: "u8 list \<Rightarrow> nat" where "dir_len xs = length xs div 16"

definition named :: "(nat \<Rightarrow> u8) \<Rightarrow> u8 list \<Rightarrow> bool" where
  "named name de \<longleftrightarrow> de_inum de \<noteq> 0 \<and> name_of (de_name de) = name_of name"

definition dir_find :: "(nat \<Rightarrow> u8) \<Rightarrow> u8 list \<Rightarrow> nat option" where
  "dir_find name xs = find (\<lambda>j. named name (entry xs j)) [0..<dir_len xs]"

definition dir_slot :: "u8 list \<Rightarrow> nat" where
  "dir_slot xs = (case find (\<lambda>j. de_inum (entry xs j) = 0) [0..<dir_len xs] of None \<Rightarrow> dir_len xs | Some j \<Rightarrow> j)"

definition dir_ok :: "'a fsst_scheme \<Rightarrow> nat \<Rightarrow> bool" where
  "dir_ok s dp \<longleftrightarrow> file_ok (diskview s) (fs_sb s) (icache s dp) \<and> i_type (icache s dp) = T_DIR \<and>
     unat (i_size (icache s dp)) mod 16 = 0"

lemma contents_same:
  fixes s s' :: "'a fsst_scheme"
  assumes "txn_same s s'" "diskview s' = diskview s"
  shows "contents s' ip = contents s ip" "dir_ok s' ip = dir_ok s ip"
  using assms by (simp_all add: contents_def dir_ok_def txn_same_fs)

lemma dir_offs_eq:
  assumes "dir_ok s dp"
  shows "dir_offs (i_size (icache s dp)) = map (\<lambda>k. of_nat (16 * k)) [0..<dir_len (contents s dp)]"
    "of_nat (16 * ((unat (i_size (icache s dp)) + 15) div 16)) = (of_nat (16 * dir_len (contents s dp)) :: u32)"
    "16 * dir_len (contents s dp) = unat (i_size (icache s dp))" "unat (i_size (icache s dp)) \<le> MAXFILE * 512"
proof -
  let ?z = "unat (i_size (icache s dp))"
  obtain q where q: "?z = 16 * q" using assms by (auto simp: dir_ok_def mod_eq_0_iff_dvd)
  then have d: "dir_len (contents s dp) = q" "(?z + 15) div 16 = q" by (simp_all add: dir_len_def)
  then show "dir_offs (i_size (icache s dp)) = map (\<lambda>k. of_nat (16 * k)) [0..<dir_len (contents s dp)]"
    "of_nat (16 * ((unat (i_size (icache s dp)) + 15) div 16)) = (of_nat (16 * dir_len (contents s dp)) :: u32)"
    "16 * dir_len (contents s dp) = unat (i_size (icache s dp))"
    using q by (simp_all add: dir_offs_def)
  show "?z \<le> MAXFILE * 512" using assms by (simp add: dir_ok_def file_ok_def)
qed

lemma entry_offset:
  assumes "dir_ok s dp" "j \<le> dir_len (contents s dp)"
  shows "unat (of_nat (16 * j) :: u32) = 16 * j" "of_nat (16 * j) \<le> i_size (icache s dp)"
proof -
  have le: "16 * j \<le> unat (i_size (icache s dp))" using dir_offs_eq(3) [OF assms(1)] assms(2) by linarith
  then have "16 * j < 4294967296" using unat_u32_less [of "i_size (icache s dp)"] by linarith
  then show u: "unat (of_nat (16 * j) :: u32) = 16 * j" by (simp add: unat_of_nat del: of_nat_mult)
  show "of_nat (16 * j) \<le> i_size (icache s dp)" unfolding word_le_nat_alt u by (rule le)
qed

text \<open>Reading one entry.\<close>

lemma read_entry:
  fixes s :: "'a fsst_scheme"
  assumes r: "fs_ready dp k s" and ok: "dir_ok s dp" and j: "j < dir_len (contents s dp)"
  obtains s' where "readi devsw dp (of_nat (16 * j)) 16 s = Inr (16, entry (contents s dp) j, s')"
    "fs_ready dp k s'" "txn_same s s'" "diskview s' = diskview s"
proof -
  note o1 = entry_offset [OF ok less_imp_le [OF j]]
  have lt: "16 * j + 16 \<le> unat (i_size (icache s dp))" using dir_offs_eq(3) [OF ok] j by linarith
  have ty: "i_type (icache s dp) \<noteq> T_DEV" using ok by (simp add: dir_ok_def T_DEV_def T_DIR_def)
  have f: "file_ok (diskview s) (fs_sb s) (icache s dp)" using ok by (simp add: dir_ok_def)
  have s32: "unat (of_nat (16 * j) :: u32) + unat (16 :: u32) < 2 ^ 32"
    using lt dir_offs_eq(4) [OF ok] unfolding o1(1) by (simp add: MAXFILE_less)
  have e: "file_read (contents s dp) (16 * j) 16 = entry (contents s dp) j" "length (entry (contents s dp) j) = 16"
    using lt by (simp_all add: file_read_def entry_def)
  show thesis
    using readi_spec [OF r f ty o1(2) s32, of devsw] that unfolding o1(1) by (auto simp: e simp del: of_nat_mult)
qed

lemma dirlookup_loop_spec:
  fixes s :: "'a fsst_scheme"
  assumes "fs_ready dp k s" "dir_ok s dp" "\<forall>j \<in> set js. j < dir_len (contents s dp)"
  shows "\<exists>s'. dirlookup_loop devsw dp name (map (\<lambda>k. of_nat (16 * k)) js) s =
      (case find (\<lambda>j. named name (entry (contents s dp) j)) js of
         None \<Rightarrow> Inr (None, s')
       | Some j \<Rightarrow> bindr (iget 1 (ucast (de_inum (entry (contents s dp) j))) s') (\<lambda>(ip, s). Inr (Some (ip, of_nat (16 * j)), s))) \<and>
    fs_ready dp k s' \<and> txn_same s s' \<and> diskview s' = diskview s"
  using assms
proof (induction js arbitrary: s)
  case (Cons j js)
  obtain s1 where s1: "readi devsw dp (of_nat (16 * j)) 16 s = Inr (16, entry (contents s dp) j, s1)"
    "fs_ready dp k s1" "txn_same s s1" "diskview s1 = diskview s"
    using read_entry [OF Cons.prems(1,2)] Cons.prems(3) by (metis list.set_intros(1))
  note c = contents_same [OF s1(3,4)]
  show ?case
  proof (cases "named name (entry (contents s dp) j)")
    case True
    then show ?thesis
      using s1 fs_readyD(5) [OF s1(2)] by (auto simp: named_def namecmp_0 simp del: of_nat_mult intro!: exI [of _ s1])
  next
    case False
    have pre: "dir_ok s1 dp" "\<forall>j \<in> set js. j < dir_len (contents s1 dp)" using Cons.prems(2,3) c by auto
    obtain s' where s': "dirlookup_loop devsw dp name (map (\<lambda>k. of_nat (16 * k)) js) s1 =
      (case find (\<lambda>j. named name (entry (contents s dp) j)) js of
         None \<Rightarrow> Inr (None, s')
       | Some j \<Rightarrow> bindr (iget 1 (ucast (de_inum (entry (contents s dp) j))) s') (\<lambda>(ip, s). Inr (Some (ip, of_nat (16 * j)), s)))"
      "fs_ready dp k s'" "txn_same s1 s'" "diskview s' = diskview s"
      using Cons.IH [OF s1(2) pre] unfolding c s1(4) by blast
    have "dirlookup_loop devsw dp name (map (\<lambda>k. of_nat (16 * k)) (j # js)) s =
        dirlookup_loop devsw dp name (map (\<lambda>k. of_nat (16 * k)) js) s1"
      using s1(1) False by (auto simp: named_def namecmp_0 simp del: of_nat_mult)
    then show ?thesis using s' False txn_same_trans [OF s1(3) s'(3)] by (auto simp del: of_nat_mult)
  qed
qed auto

lemma dirlookup_spec:
  fixes s :: "'a fsst_scheme"
  assumes "fs_ready dp k s" "dir_ok s dp"
  obtains s' where "dirlookup devsw dp name s =
      (case dir_find name (contents s dp) of
         None \<Rightarrow> Inr (None, s')
       | Some j \<Rightarrow> bindr (iget 1 (ucast (de_inum (entry (contents s dp) j))) s') (\<lambda>(ip, s). Inr (Some (ip, of_nat (16 * j)), s)))"
    "fs_ready dp k s'" "txn_same s s'" "diskview s' = diskview s"
  using dirlookup_loop_spec [OF assms, of "[0..<dir_len (contents s dp)]" devsw name] assms(2)
  unfolding dirlookup_def dir_find_def dir_offs_eq(1) [OF assms(2)] by (auto simp: dir_ok_def simp del: of_nat_mult)

lemma dirlink_loop_spec:
  fixes s :: "'a fsst_scheme"
  assumes "fs_ready dp k s" "dir_ok s dp" "\<forall>j \<in> set js. j < dir_len (contents s dp)"
  shows "\<exists>s'. dirlink_loop devsw dp (map (\<lambda>k. of_nat (16 * k)) js) past s =
      Inr (case find (\<lambda>j. de_inum (entry (contents s dp) j) = 0) js of None \<Rightarrow> past | Some j \<Rightarrow> of_nat (16 * j), s') \<and>
    fs_ready dp k s' \<and> txn_same s s' \<and> diskview s' = diskview s"
  using assms
proof (induction js arbitrary: s)
  case (Cons j js)
  obtain s1 where s1: "readi devsw dp (of_nat (16 * j)) 16 s = Inr (16, entry (contents s dp) j, s1)"
    "fs_ready dp k s1" "txn_same s s1" "diskview s1 = diskview s"
    using read_entry [OF Cons.prems(1,2)] Cons.prems(3) by (metis list.set_intros(1))
  note c = contents_same [OF s1(3,4)]
  show ?case
  proof (cases "de_inum (entry (contents s dp) j) = 0")
    case True
    then show ?thesis using s1 by (auto simp del: of_nat_mult)
  next
    case False
    have pre: "dir_ok s1 dp" "\<forall>j \<in> set js. j < dir_len (contents s1 dp)" using Cons.prems(2,3) c by auto
    obtain s' where s': "dirlink_loop devsw dp (map (\<lambda>k. of_nat (16 * k)) js) past s1 =
      Inr (case find (\<lambda>j. de_inum (entry (contents s dp) j) = 0) js of None \<Rightarrow> past | Some j \<Rightarrow> of_nat (16 * j), s')"
      "fs_ready dp k s'" "txn_same s1 s'" "diskview s' = diskview s"
      using Cons.IH [OF s1(2) pre] unfolding c s1(4) by blast
    then show ?thesis using s1(1) False txn_same_trans [OF s1(3) s'(3)] by (auto simp del: of_nat_mult)
  qed
qed auto

lemma dir_slot_le: "dir_slot xs \<le> dir_len xs"
  by (auto simp: dir_slot_def find_Some_iff split: option.split)

text \<open>A new name goes to the free entry, or to the end.\<close>

lemma dirlink_spec:
  fixes s :: "'a fsst_scheme"
  assumes r: "fs_ready dp (k + 7) s" and ok: "dir_ok s dp" and new: "dir_find name (contents s dp) = None"
    and inum: "unat (i_inum (icache s dp)) \<le> unat (sb_ninodes (fs_sb s))"
    and space: "unat (i_size (icache s dp)) + 16 \<le> MAXFILE * 512"
    and fr: "2 \<le> card (free_blocks (diskview s) (fs_sb s))"
  obtains s' where "dirlink devsw dp name inum' s = Inr (0, s')" "fs_ready dp k s'" "fs_step dp s s'" "dir_ok s' dp"
    "contents s' dp = file_write (contents s dp) (16 * dir_slot (contents s dp)) (dirent (ucast inum') (strncpy_at name 0 DIRSIZ))"
    "other_files_same (fs_sb s) (diskview s) (icache s dp) (diskview s')"
proof -
  let ?xs = "contents s dp" and ?de = "dirent (ucast inum') (strncpy_at name 0 DIRSIZ)"
  let ?j = "dir_slot ?xs"
  obtain s1 where s1: "dirlookup devsw dp name s = Inr (None, s1)" "fs_ready dp (k + 7) s1" "txn_same s s1" "diskview s1 = diskview s"
    using dirlookup_spec [OF r ok, of devsw name, unfolded new option.case] by blast
  note c1 = contents_same [OF s1(3,4), of dp] and f1 = txn_same_fs [OF s1(3)]
  have ok1: "dir_ok s1 dp" using ok c1 by simp
  obtain s2 where s2: "dirlink_loop devsw dp (map (\<lambda>k. of_nat (16 * k)) [0..<dir_len ?xs]) (of_nat (16 * dir_len ?xs)) s1 = Inr (of_nat (16 * ?j), s2)"
    "fs_ready dp (k + 7) s2" "txn_same s1 s2" "diskview s2 = diskview s1"
    using dirlink_loop_spec [OF s1(2) ok1, of "[0..<dir_len ?xs]" devsw "of_nat (16 * dir_len ?xs)"] unfolding c1
    by (auto simp: dir_slot_def simp del: of_nat_mult split: option.splits)
  have same: "txn_same s s2" "diskview s2 = diskview s" using txn_same_trans [OF s1(3) s2(3)] s2(4) s1(4) by auto
  note c2 = contents_same [OF same, of dp] and f2 = txn_same_fs [OF same(1)]
  have ok2: "dir_ok s2 dp" using ok c2 by simp
  have jl: "?j \<le> dir_len (contents s2 dp)" using dir_slot_le c2 by simp
  note off = entry_offset [OF ok2 jl] and de = dirent_get(3) [of "ucast inum'" name]
  have j16: "16 * ?j \<le> unat (i_size (icache s dp))" using dir_slot_le [of ?xs] dir_offs_eq(3) [OF ok] by linarith
  have m0: "16 * ?j mod 512 + 15 < 512"
  proof -
    have "16 * ?j mod 512 = 16 * (?j mod 32)" using mod_mult_mult1 [of 16 ?j 32] by simp
    then show ?thesis by (simp add: mod_less_divisor)
  qed
  have nb: "nblk (unat (of_nat (16 * ?j) :: u32)) (length ?de) = 1" unfolding off(1) using de m0 by (simp add: nblk_def)
  have pre: "fs_ready dp (6 * nblk (unat (of_nat (16 * ?j) :: u32)) (length ?de) + 1 + k) s2"
    "file_ok (diskview s2) (fs_sb s2) (icache s2 dp)" "i_type (icache s2 dp) \<noteq> T_DEV"
    "unat (i_inum (icache s2 dp)) \<le> unat (sb_ninodes (fs_sb s2))"
    "unat (of_nat (16 * ?j) :: u32) + length ?de \<le> MAXFILE * 512"
    "2 * nblk (unat (of_nat (16 * ?j) :: u32)) (length ?de) \<le> card (free_blocks (diskview s2) (fs_sb s2))"
    unfolding nb using s2(2) ok2 f2 inum fr same(2) space j16 de off(1)
    by (simp_all add: dir_ok_def T_DIR_def T_DEV_def ac_simps del: of_nat_mult)
  obtain s3 where s3: "writei devsw dp (\<lambda>i. ?de ! i) (of_nat (16 * ?j)) (of_nat (length ?de)) s2 = Inr (int (length ?de), s3)"
    "fs_ready dp k s3" "fs_step dp s2 s3" "file_ok (diskview s3) (fs_sb s3) (icache s3 dp)"
    "contents s3 dp = file_write ?xs (16 * ?j) ?de" "other_files_same (fs_sb s) (diskview s) (icache s dp) (diskview s3)"
    "\<exists>a z. icache s3 dp = (icache s2 dp)\<lparr>i_addrs := a, i_size := z\<rparr>"
    using writei_spec [OF pre(1-4) off(2) pre(5,6), of devsw] unfolding c2 f2 same(2) off(1) by metis
  have "length (contents s3 dp) mod 16 = 0"
    using s3(5) de dir_offs_eq(3) [OF ok] dir_slot_le [of ?xs] ok [unfolded dir_ok_def]
    by (cases "?j = dir_len ?xs") (auto simp: file_write_def)
  then have "dir_ok s3 dp" using s3(4,7) ok2 by (auto simp: dir_ok_def)
  moreover have "dirlink devsw dp name inum' s = Inr (0, s3)"
    using s1(1) s2(1) s3(1) de f1 dir_offs_eq(1,2) [OF ok] by (simp add: dirlink_def Let_def del: of_nat_mult)
  moreover have "fs_step dp s s3" by (rule fs_step_trans [OF fs_step_txn [OF same(1)] s3(3)])
  ultimately show thesis using that s3(2,5,6) by blast
qed

section \<open>Looking up what was linked\<close>

lemma entry_write:
  assumes m: "length xs mod 16 = 0" and j: "j \<le> dir_len xs" and de: "length de = 16"
  shows "dir_len (file_write xs (16 * j) de) = max (dir_len xs) (Suc j)"
    and "entry (file_write xs (16 * j) de) i = (if i = j then de else entry xs i)"
proof -
  obtain q where q: "length xs = 16 * q" using m by (auto simp: mod_eq_0_iff_dvd)
  then have jq: "j \<le> q" "dir_len xs = q" using j by (simp_all add: dir_len_def)
  have ql: "length (file_write xs (16 * j) de) = 16 * max q (Suc j)"
    using q jq de by (auto simp: file_write_def max_def)
  then show "dir_len (file_write xs (16 * j) de) = max (dir_len xs) (Suc j)"
    using jq by (simp add: dir_len_def)
  show "entry (file_write xs (16 * j) de) i = (if i = j then de else entry xs i)"
  proof (cases i j rule: linorder_cases)
    case less
    then obtain d where "j = Suc (i + d)" using less_imp_Suc_add by blast
    then have "16 * j = 16 * i + (16 + 16 * d)" by simp
    then have "drop (16 * i) (take (16 * j) xs) = take (16 + 16 * d) (drop (16 * i) xs)" "16 + 16 * d \<le> length (drop (16 * i) xs)"
      using q jq by (simp_all add: drop_take)
    then show ?thesis using less q jq by (simp add: entry_def file_write_def)
  next
    case equal
    then show ?thesis using q jq de by (simp add: entry_def file_write_def)
  next
    case greater
    then obtain d where "i = Suc (j + d)" using less_imp_Suc_add by blast
    then have "16 * i = 16 * j + 16 + 16 * d" by simp
    then show ?thesis using greater q jq de by (simp add: entry_def file_write_def ac_simps)
  qed
qed

lemma find_cong_append:
  assumes "\<And>x. x \<in> set xs \<Longrightarrow> P x = Q x" "\<And>y. y \<in> set ys \<Longrightarrow> \<not> Q y"
  shows "find P xs = find Q (xs @ ys)"
  using assms(1)
proof (induction xs)
  case Nil
  have "find Q ys = None" using assms(2) by (auto simp: find_None_iff)
  then show ?case by simp
qed auto

lemma dir_slot_free:
  assumes "dir_slot xs < dir_len xs"
  shows "de_inum (entry xs (dir_slot xs)) = 0"
proof (cases "find (\<lambda>j. de_inum (entry xs j) = 0) [0..<dir_len xs]")
  case None then show ?thesis using assms by (simp add: dir_slot_def)
next
  case (Some j)
  then have "dir_slot xs = j" by (simp add: dir_slot_def)
  then show ?thesis using Some by (auto simp: find_Some_iff)
qed

lemma dir_find_link:
  fixes xs :: "u8 list"
  assumes m: "length xs mod 16 = 0" and de: "length de = 16"
  defines "ys \<equiv> file_write xs (16 * dir_slot xs) de"
  shows "dir_find name xs = None \<Longrightarrow> named name de \<Longrightarrow> dir_find name ys = Some (dir_slot xs)"
    and "\<not> named name' de \<Longrightarrow> dir_find name' ys = dir_find name' xs"
proof -
  let ?j = "dir_slot xs"
  note e = entry_write [OF m dir_slot_le de, folded ys_def]
  show "dir_find name ys = Some ?j" if "dir_find name xs = None" "named name de"
  proof -
    have "\<not> named name (entry ys i)" if "i < ?j" for i
      using that \<open>dir_find name xs = None\<close> dir_slot_le [of xs] e(2) [of i] by (auto simp: dir_find_def find_None_iff)
    moreover have "?j < dir_len ys" "named name (entry ys ?j)" using e that(2) by auto
    ultimately show ?thesis unfolding dir_find_def find_Some_iff by (intro exI [of _ ?j]) auto
  qed
  show "dir_find name' ys = dir_find name' xs" if nn: "\<not> named name' de"
  proof -
    let ?n = "dir_len xs"
    have "named name' (entry xs i) = named name' (entry ys i)" if "i < ?n" for i
      using nn e(2) [of i] that dir_slot_free [of xs] by (auto simp: named_def)
    moreover have "\<not> named name' (entry ys i)" if "i \<in> set [?n..<max ?n (Suc ?j)]" for i
      using nn e(2) [of i] that dir_slot_le [of xs] by auto
    moreover have "[0..<?n] @ [?n..<max ?n (Suc ?j)] = [0..<dir_len ys]"
      using e(1) upt_add_eq_append [of 0 ?n "max ?n (Suc ?j) - ?n"] by simp
    ultimately show ?thesis
      using find_cong_append [of "[0..<?n]" "\<lambda>i. named name' (entry xs i)" "\<lambda>i. named name' (entry ys i)" "[?n..<max ?n (Suc ?j)]"]
      unfolding dir_find_def by simp
  qed
qed

end
