(* ===== verification/Fs_Icache.thy ===== *)
theory Fs_Icache
  imports Fs Log_Reserve "HOL-Library.Multiset"
begin

text \<open>
  The inode cache: reference counts and identities. \<open>icrun\<close> lets the operations of \<^verbatim>\<open>fs.c\<close> run
  in any order and keeps the references that have been handed out and not given back, each with
  the device and inode number it was asked for.
\<close>

section \<open>What the operations leave alone\<close>

definition ids :: "'a fsst_scheme \<Rightarrow> nat \<Rightarrow> u32 \<times> u32 \<times> int" where
  "ids s ip = (i_dev (icache s ip), i_inum (icache s ip), i_ref (icache s ip))"

lemma ids_more:
  fixes s s' :: "'a fsst_scheme"
  assumes "logst.more s' = logst.more s"
  shows "ids s' = ids s"
proof -
  have "icache s' = icache s" using assms by (cases s; cases s'; simp)
  then show ?thesis by (simp add: ids_def fun_eq_iff)
qed

lemma ids_bio:
  fixes s s' :: "'a fsst_scheme"
  shows "bread dev n s = Inr (b, s') \<Longrightarrow> ids s' = ids s" "brelse b s = Inr s' \<Longrightarrow> ids s' = ids s"
    "log_write b s = Inr s' \<Longrightarrow> ids s' = ids s" "ids (set_data b d s) = ids s"
proof -
  show "bread dev n s = Inr (b, s') \<Longrightarrow> ids s' = ids s" by (rule ids_more [OF klog_more(2) [OF bread_more]])
  show "brelse b s = Inr s' \<Longrightarrow> ids s' = ids s" by (rule ids_more [OF klog_more(2) [OF brelse_more]])
  show "log_write b s = Inr s' \<Longrightarrow> ids s' = ids s"
    by (rule ids_more) (auto simp: log_write_def Let_def split: if_splits)
  show "ids (set_data b d s) = ids s" by (rule ids_more) simp
qed

lemma ids_upd_inode:
  assumes "\<And>x. i_dev (f x) = i_dev x \<and> i_inum (f x) = i_inum x \<and> i_ref (f x) = i_ref x"
  shows "ids (upd_inode ip f s) = ids s"
  using assms by (auto simp: ids_def upd_inode_def fun_eq_iff)

lemma ids_set_addr [simp]: "ids (set_addr ip k a s) = ids s"
  unfolding set_addr_def by (rule ids_upd_inode) simp

lemmas ids_steps = ids_bio(1-3)

lemma ids_bzero: "bzero dev n s = Inr s' \<Longrightarrow> ids s' = ids s"
  by (auto simp: bzero_def ids_bio(4) elim!: bindr_InrE dest!: ids_steps)

lemma ids_balloc: "balloc dev s = Inr (b, s') \<Longrightarrow> ids s' = ids s"
proof -
  have "balloc_loop dev bs s = Inr (b, s') \<Longrightarrow> ids s' = ids s" for bs and s :: "'a fsst_scheme"
    by (induction bs arbitrary: s)
      (auto simp: ids_bio(4) elim!: bindr_InrE dest!: ids_steps ids_bzero split: option.splits)
  then show "balloc dev s = Inr (b, s') \<Longrightarrow> ids s' = ids s" by (simp add: balloc_def)
qed

lemma ids_bfree: "bfree dev b s = Inr s' \<Longrightarrow> ids s' = ids s"
  by (auto simp: bfree_def Let_def ids_bio(4) elim!: bindr_InrE dest!: ids_steps split: if_splits)

lemma ids_iupdate: "iupdate ip s = Inr s' \<Longrightarrow> ids s' = ids s"
  by (auto simp: iupdate_def Let_def ids_bio(4) elim!: bindr_InrE dest!: ids_steps)

lemma ids_addr_alloc: "addr_alloc ip k s = Inr (a, s') \<Longrightarrow> ids s' = ids s"
  by (auto simp: addr_alloc_def Let_def elim!: bindr_InrE dest!: ids_balloc split: if_splits)

lemma ids_bmap: "bmap ip bn s = Inr (a, s') \<Longrightarrow> ids s' = ids s"
  by (auto simp: bmap_def Let_def ids_bio(4) elim!: bindr_InrE dest!: ids_steps ids_balloc ids_addr_alloc split: if_splits)

lemma ids_itrunc:
  assumes "itrunc ip s = Inr s'"
  shows "ids s' = ids s"
proof -
  have direct: "ids t' = ids t" if "forr [0..<NDIRECT] (\<lambda>i s. if i_addrs (icache s ip) i \<noteq> 0
      then bindr (bfree (i_dev (icache s ip)) (i_addrs (icache s ip) i) s) (\<lambda>s. Inr (set_addr ip i 0 s))
      else Inr s) t = Inr t'" for t t' :: "'a fsst_scheme"
    by (rule forr_pres [where f = ids, OF _ that]) (auto elim!: bindr_InrE dest!: ids_bfree split: if_splits)
  have indirect: "ids t' = ids t" if "forr [0..<NINDIRECT] (\<lambda>j s. let a = rd32 (b_data (bcache s bp)) (4 * j) in
      if a \<noteq> 0 then bfree (i_dev (icache s ip)) a s else Inr s) t = Inr t'" for bp and t t' :: "'a fsst_scheme"
    by (rule forr_pres [where f = ids, OF _ that]) (auto simp: Let_def dest!: ids_bfree split: if_splits)
  have size: "ids (upd_inode ip (\<lambda>x. x\<lparr>i_size := 0\<rparr>) t) = ids t" for t :: "'a fsst_scheme" by (rule ids_upd_inode) simp
  show ?thesis
    using assms unfolding itrunc_def
    by (auto simp: size elim!: bindr_InrE dest!: direct indirect ids_steps ids_bfree ids_iupdate split: if_splits)
qed

lemma ids_ilock:
  assumes "ilock ip s = Inr s'"
  shows "ids s' = ids s"
proof -
  have u: "ids (upd_inode ip (\<lambda>x. x\<lparr>i_lock := l\<rparr>) t) = ids t" "ids (upd_inode ip (\<lambda>x. x\<lparr>i_valid := True\<rparr>) t) = ids t"
    "ids (upd_inode ip (\<lambda>x. x\<lparr>i_type := a, i_major := b, i_minor := c, i_nlink := d, i_size := e, i_addrs := f\<rparr>) t) = ids t"
    for a b c d e f l and t :: "'a fsst_scheme" by (rule ids_upd_inode; simp)+
  show ?thesis
    using assms unfolding ilock_def
    by (auto simp: Let_def u elim!: bindr_InrE dest!: ids_steps split: if_splits)
qed

lemma ids_iunlock: "iunlock ip s = Inr s' \<Longrightarrow> ids s' = ids s"
  by (auto simp: iunlock_def ids_upd_inode split: if_splits)

lemma ids_readi_loop: "readi_loop ip off tot n s = Inr (bs, s') \<Longrightarrow> ids s' = ids s"
proof (induction "unat (n - tot)" arbitrary: off tot s bs rule: less_induct)
  case less
  show ?case
    using less(2) by (subst (asm) readi_loop.simps)
      (auto simp: Let_def elim!: bindr_InrE dest!: ids_steps ids_bmap less(1) [OF chunk_less] split: if_splits)
qed

lemma ids_writei_loop: "writei_loop ip src off tot n s = Inr (r, s') \<Longrightarrow> ids s' = ids s"
proof (induction "unat (n - tot)" arbitrary: off tot s rule: less_induct)
  case less
  show ?case
    using less(2) by (subst (asm) writei_loop.simps)
      (auto simp: Let_def ids_bio(4) elim!: bindr_InrE dest!: ids_steps ids_bmap less(1) [OF chunk_less] split: if_splits)
qed

lemma ids_readi: "readi devsw ip off n s = Inr (r, bs, s') \<Longrightarrow> i_type (icache s ip) \<noteq> T_DEV \<Longrightarrow> ids s' = ids s"
  by (auto simp: readi_def Let_def elim!: bindr_InrE dest!: ids_readi_loop split: if_splits)

lemma ids_writei: "writei devsw ip src off n s = Inr (r, s') \<Longrightarrow> i_type (icache s ip) \<noteq> T_DEV \<Longrightarrow> ids s' = ids s"
  by (auto simp: writei_def Let_def ids_upd_inode elim!: bindr_InrE dest!: ids_writei_loop ids_iupdate split: if_splits)

lemma ids_iput:
  assumes "iput ip s = Inr s'"
  shows "ids s' = (ids s)(ip := (i_dev (icache s ip), i_inum (icache s ip), i_ref (icache s ip) - 1))"
proof -
  have u: "ids (upd_inode ip (\<lambda>x. x\<lparr>i_lock := g x\<rparr>) t) = ids t" "ids (upd_inode ip (\<lambda>x. x\<lparr>i_valid := False\<rparr>) t) = ids t"
    "ids (upd_inode ip (\<lambda>x. x\<lparr>i_type := 0\<rparr>) t) = ids t" for g and t :: "'a fsst_scheme" by (rule ids_upd_inode; simp)+
  obtain t where t: "s' = upd_inode ip (\<lambda>x. x\<lparr>i_ref := i_ref x - 1\<rparr>) t" "ids t = ids s"
    using assms unfolding iput_def
    by (auto simp: Let_def u elim!: bindr_InrE dest!: ids_itrunc ids_iupdate split: if_splits)
  have "i_dev (icache t ip) = i_dev (icache s ip)" "i_inum (icache t ip) = i_inum (icache s ip)"
    "i_ref (icache t ip) = i_ref (icache s ip)" using fun_cong [OF t(2), of ip] by (simp_all add: ids_def)
  moreover have "ids s' = (ids t)(ip := (i_dev (icache t ip), i_inum (icache t ip), i_ref (icache t ip) - 1))"
    unfolding t(1) by (simp add: ids_def upd_inode_def fun_eq_iff)
  ultimately show ?thesis using t(2) by simp
qed

section \<open>iget\<close>

lemma iget_scan_spec:
  "iget_scan dev inum ic ips sl = (r, sl') \<Longrightarrow>
     (case r of
        Some ip \<Rightarrow> ip \<in> set ips \<and> 0 < i_ref (ic ip) \<and> i_dev (ic ip) = dev \<and> i_inum (ic ip) = inum
      | None \<Rightarrow> (\<forall>ip \<in> set ips. \<not> (0 < i_ref (ic ip) \<and> i_dev (ic ip) = dev \<and> i_inum (ic ip) = inum)) \<and>
          (sl' = sl \<or> (\<exists>ip \<in> set ips. sl' = Some ip \<and> i_ref (ic ip) = 0)))"
proof (induction ips arbitrary: sl)
  case (Cons ip ips)
  show ?case
  proof (cases "0 < i_ref (ic ip) \<and> i_dev (ic ip) = dev \<and> i_inum (ic ip) = inum")
    case True
    then show ?thesis using Cons.prems by auto
  next
    case False
    let ?sl = "if sl = None \<and> i_ref (ic ip) = 0 then Some ip else sl"
    have r: "iget_scan dev inum ic ips ?sl = (r, sl')" using Cons.prems False by (simp only: iget_scan.simps if_False)
    show ?thesis using Cons.IH [OF r] False by (cases r; auto split: if_splits)
  qed
qed auto

text \<open>An entry found in the cache gets one more reference; otherwise an unused one is taken.\<close>

lemma iget_ids:
  assumes "iget dev inum s = Inr (ip, s')"
  obtains "ip < NINODE" "0 < i_ref (icache s ip)" "i_dev (icache s ip) = dev" "i_inum (icache s ip) = inum"
      "ids s' = (ids s)(ip := (dev, inum, i_ref (icache s ip) + 1))"
  | "ip < NINODE" "i_ref (icache s ip) = 0" "ids s' = (ids s)(ip := (dev, inum, 1))"
      "\<forall>jp < NINODE. \<not> (0 < i_ref (icache s jp) \<and> i_dev (icache s jp) = dev \<and> i_inum (icache s jp) = inum)"
proof (cases "iget_scan dev inum (icache s) [0..<NINODE] None")
  case (Pair r sl)
  note sc = iget_scan_spec [OF Pair]
  show thesis
  proof (cases r)
    case (Some jp)
    then have jp: "jp < NINODE" "0 < i_ref (icache s jp)" "i_dev (icache s jp) = dev" "i_inum (icache s jp) = inum"
      using sc by auto
    have e: "ip = jp" "s' = upd_inode jp (\<lambda>x. x\<lparr>i_ref := i_ref x + 1\<rparr>) s" using assms Some Pair by (auto simp: iget_def)
    have "ids s' = (ids s)(ip := (dev, inum, i_ref (icache s ip) + 1))" using jp e by (auto simp: ids_def upd_inode_def)
    then show thesis using that(1) jp e(1) by blast
  next
    case None
    then obtain jp where jp: "sl = Some jp" using assms Pair by (cases sl) (auto simp: iget_def)
    have e: "ip = jp" "s' = upd_inode jp (\<lambda>x. x\<lparr>i_dev := dev, i_inum := inum, i_ref := 1, i_valid := False\<rparr>) s"
      using assms None Pair jp by (auto simp: iget_def)
    have "ids s' = (ids s)(ip := (dev, inum, 1))" using e by (auto simp: ids_def upd_inode_def)
    then show thesis using that(2) sc None jp e(1) by auto
  qed
qed

lemma iget_succeeds:
  assumes "\<exists>ip < NINODE. i_ref (icache s ip) = 0"
  shows "\<exists>ip s'. iget dev inum s = Inr (ip, s')"
proof -
  have sc: "iget_scan dev inum ic ips sl \<noteq> (None, None)" if "sl \<noteq> None \<or> (\<exists>ip \<in> set ips. i_ref (ic ip) = 0)" for ic ips sl
    using that by (induction ips arbitrary: sl) auto
  have "iget_scan dev inum (icache s) [0..<NINODE] None \<noteq> (None, None)" by (rule sc) (use assms in auto)
  then show ?thesis by (auto simp: iget_def split: option.splits prod.splits)
qed

lemma ids_ialloc:
  assumes "ialloc dev type s = Inr (ip, s')"
  obtains inum t where "ids t = ids s" "iget dev inum t = Inr (ip, s')"
proof -
  have "\<exists>inum t. ids t = ids s \<and> iget dev inum t = Inr (ip, s')" if "ialloc_loop dev type inums s = Inr (ip, s')"
    for inums and s :: "'a fsst_scheme"
    using that
  proof (induction inums arbitrary: s)
    case (Cons i js)
    obtain bp s1 where s1: "bread dev (IBLOCK (of_nat i) (fs_sb s)) s = Inr (bp, s1)" using Cons.prems by (auto simp del: of_nat_Suc elim!: bindr_InrE)
    let ?d = "b_data (bcache s1 bp)"
    show ?case
    proof (cases "d_type (dinode_get ?d (i mod IPB)) = 0")
      case True
      then obtain s2 s3 where "log_write bp (set_data bp (dinode_put ?d (i mod IPB) (zero_dinode\<lparr>d_type := type\<rparr>)) s1) = Inr s2"
        "brelse bp s2 = Inr s3" "iget dev (of_nat i) s3 = Inr (ip, s')"
        using Cons.prems s1 by (auto simp: Let_def elim!: bindr_InrE)
      then show ?thesis using ids_steps(1) [OF s1] ids_steps(2,3) ids_bio(4) by metis
    next
      case False
      then obtain s2 where s2: "brelse bp s1 = Inr s2" "ialloc_loop dev type js s2 = Inr (ip, s')"
        using Cons.prems s1 by (auto simp: Let_def elim!: bindr_InrE)
      then show ?thesis using Cons.IH [OF s2(2)] ids_steps(1) [OF s1] ids_steps(2) [OF s2(1)] by simp
    qed
  qed simp
  then show thesis using assms that unfolding ialloc_def by blast
qed

section \<open>References\<close>

inductive icrun :: "'a fsst_scheme \<Rightarrow> (nat \<times> u32 \<times> u32) multiset \<Rightarrow> bool" where
  start: "\<forall>ip. i_ref (icache s ip) = 0 \<Longrightarrow> icrun s {#}"
| iget: "icrun s M \<Longrightarrow> iget dev inum s = Inr (ip, s') \<Longrightarrow> icrun s' (add_mset (ip, dev, inum) M)"
| ialloc: "icrun s M \<Longrightarrow> ialloc dev type s = Inr (ip, s') \<Longrightarrow> icrun s' (add_mset (ip, dev, i_inum (icache s' ip)) M)"
| idup: "icrun s M \<Longrightarrow> (ip, dev, inum) \<in># M \<Longrightarrow> icrun (snd (idup ip s)) (add_mset (ip, dev, inum) M)"
| iput: "icrun s M \<Longrightarrow> r \<in># M \<Longrightarrow> iput (fst r) s = Inr s' \<Longrightarrow> icrun s' (M - {#r#})"
| iunlockput: "icrun s M \<Longrightarrow> r \<in># M \<Longrightarrow> iunlockput (fst r) s = Inr s' \<Longrightarrow> icrun s' (M - {#r#})"
| ilock: "icrun s M \<Longrightarrow> ilock ip s = Inr s' \<Longrightarrow> icrun s' M"
| iunlock: "icrun s M \<Longrightarrow> iunlock ip s = Inr s' \<Longrightarrow> icrun s' M"
| iupdate: "icrun s M \<Longrightarrow> iupdate ip s = Inr s' \<Longrightarrow> icrun s' M"
| itrunc: "icrun s M \<Longrightarrow> itrunc ip s = Inr s' \<Longrightarrow> icrun s' M"
| readi: "icrun s M \<Longrightarrow> i_type (icache s ip) \<noteq> T_DEV \<Longrightarrow> readi devsw ip off n s = Inr (r, bs, s') \<Longrightarrow> icrun s' M"
| writei: "icrun s M \<Longrightarrow> i_type (icache s ip) \<noteq> T_DEV \<Longrightarrow> writei devsw ip src off n s = Inr (r, s') \<Longrightarrow> icrun s' M"

definition refs :: "(nat \<times> u32 \<times> u32) multiset \<Rightarrow> nat \<Rightarrow> nat" where
  "refs M ip = count (image_mset fst M) ip"

definition ic_inv :: "(nat \<Rightarrow> u32 \<times> u32 \<times> int) \<Rightarrow> (nat \<times> u32 \<times> u32) multiset \<Rightarrow> bool" where
  "ic_inv f M \<longleftrightarrow> (\<forall>ip. snd (snd (f ip)) = int (refs M ip)) \<and>
     (\<forall>ip d i. (ip, d, i) \<in># M \<longrightarrow> ip < NINODE \<and> fst (f ip) = d \<and> fst (snd (f ip)) = i) \<and>
     (\<forall>ip jp d i. (ip, d, i) \<in># M \<longrightarrow> (jp, d, i) \<in># M \<longrightarrow> ip = jp)"

lemma ic_invD:
  assumes "ic_inv f M"
  shows "snd (snd (f ip)) = int (refs M ip)"
    "(ip, d, i) \<in># M \<Longrightarrow> ip < NINODE \<and> fst (f ip) = d \<and> fst (snd (f ip)) = i"
    "(ip, d, i) \<in># M \<Longrightarrow> (jp, d, i) \<in># M \<Longrightarrow> ip = jp"
  using assms unfolding ic_inv_def by blast+

lemma ic_invI:
  assumes "\<And>ip. snd (snd (f ip)) = int (refs M ip)"
    "\<And>ip d i. (ip, d, i) \<in># M \<Longrightarrow> ip < NINODE \<and> fst (f ip) = d \<and> fst (snd (f ip)) = i"
    "\<And>ip jp d i. (ip, d, i) \<in># M \<Longrightarrow> (jp, d, i) \<in># M \<Longrightarrow> ip = jp"
  shows "ic_inv f M"
  using assms unfolding ic_inv_def by blast

lemma refs_add [simp]: "refs (add_mset r M) ip = (if fst r = ip then Suc (refs M ip) else refs M ip)"
  by (simp add: refs_def)

lemma refs_pos: "0 < refs M ip \<longleftrightarrow> (\<exists>r \<in># M. fst r = ip)"
  unfolding refs_def count_greater_zero_iff by auto

lemma ic_inv_add:
  assumes inv: "ic_inv f M" and m: "(ip, dev, inum) \<in># M"
  shows "ic_inv (f(ip := (dev, inum, snd (snd (f ip)) + 1))) (add_mset (ip, dev, inum) M)"
proof (rule ic_invI)
  fix jp d i assume "(jp, d, i) \<in># add_mset (ip, dev, inum) M"
  then have j: "(jp, d, i) \<in># M" using m by auto
  show "jp < NINODE \<and> fst ((f(ip := (dev, inum, snd (snd (f ip)) + 1))) jp) = d \<and>
      fst (snd ((f(ip := (dev, inum, snd (snd (f ip)) + 1))) jp)) = i"
    using ic_invD(2) [OF inv j] ic_invD(2) [OF inv m] by auto
next
  fix jp kp d i assume "(jp, d, i) \<in># add_mset (ip, dev, inum) M" "(kp, d, i) \<in># add_mset (ip, dev, inum) M"
  then have "(jp, d, i) \<in># M" "(kp, d, i) \<in># M" using m by auto
  then show "jp = kp" by (rule ic_invD(3) [OF inv])
qed (simp add: ic_invD(1) [OF inv])

lemma ic_inv_new:
  assumes inv: "ic_inv f M" and ip: "ip < NINODE" "snd (snd (f ip)) = 0"
    and no: "\<forall>jp < NINODE. \<not> (0 < snd (snd (f jp)) \<and> fst (f jp) = dev \<and> fst (snd (f jp)) = inum)"
  shows "ic_inv (f(ip := (dev, inum, 1))) (add_mset (ip, dev, inum) M)"
proof -
  have r0: "refs M ip = 0" using ic_invD(1) [OF inv, of ip] ip(2) by simp
  have nip: "jp \<noteq> ip" if "(jp, d, i) \<in># M" for jp d i using r0 refs_pos [of M ip] that by force
  have new: "\<not> (d = dev \<and> i = inum)" if "(jp, d, i) \<in># M" for jp d i
  proof -
    have "0 < snd (snd (f jp))" using that refs_pos [of M jp] ic_invD(1) [OF inv, of jp] by force
    then show ?thesis using ic_invD(2) [OF inv that] no by blast
  qed
  show ?thesis
  proof (rule ic_invI)
    fix jp d i assume j: "(jp, d, i) \<in># add_mset (ip, dev, inum) M"
    show "jp < NINODE \<and> fst ((f(ip := (dev, inum, 1))) jp) = d \<and> fst (snd ((f(ip := (dev, inum, 1))) jp)) = i"
    proof (cases "(jp, d, i) = (ip, dev, inum)")
      case False
      then have "(jp, d, i) \<in># M" using j by auto
      then show ?thesis using ic_invD(2) [OF inv] nip by simp
    qed (use ip in simp)
  next
    fix jp kp d i assume "(jp, d, i) \<in># add_mset (ip, dev, inum) M" "(kp, d, i) \<in># add_mset (ip, dev, inum) M"
    then show "jp = kp" using new ic_invD(3) [OF inv] by auto
  qed (use r0 in \<open>auto simp: ic_invD(1) [OF inv]\<close>)
qed

lemma ic_inv_del:
  assumes inv: "ic_inv f M" and m: "r \<in># M"
  shows "ic_inv (f(fst r := (fst (f (fst r)), fst (snd (f (fst r))), snd (snd (f (fst r))) - 1))) (M - {#r#})"
proof -
  obtain N where N: "M = add_mset r N" using m by (metis insert_DiffM)
  have sub: "x \<in># M" if "x \<in># M - {#r#}" for x using that by (rule in_diffD)
  show ?thesis
  proof (rule ic_invI)
    fix ip d i assume "(ip, d, i) \<in># M - {#r#}"
    then show "ip < NINODE \<and> fst ((f(fst r := (fst (f (fst r)), fst (snd (f (fst r))), snd (snd (f (fst r))) - 1))) ip) = d \<and>
        fst (snd ((f(fst r := (fst (f (fst r)), fst (snd (f (fst r))), snd (snd (f (fst r))) - 1))) ip)) = i"
      using ic_invD(2) [OF inv sub] by auto
  next
    fix ip jp d i assume "(ip, d, i) \<in># M - {#r#}" "(jp, d, i) \<in># M - {#r#}"
    then show "ip = jp" using ic_invD(3) [OF inv sub sub] by blast
  qed (use ic_invD(1) [OF inv] N in \<open>auto simp: refs_def\<close>)
qed

lemma iget_inv:
  assumes "ic_inv (ids s) M" "iget dev inum s = Inr (ip, s')"
  shows "ic_inv (ids s') (add_mset (ip, dev, inum) M)" "i_inum (icache s' ip) = inum"
proof -
  have "ic_inv (ids s') (add_mset (ip, dev, inum) M) \<and> ids s' ip = (dev, inum, snd (snd (ids s' ip)))"
    using assms(2)
  proof (cases rule: iget_ids)
    case 1
    have "0 < refs M ip" using ic_invD(1) [OF assms(1), of ip] 1(2) by (simp add: ids_def)
    then obtain d i where r: "(ip, d, i) \<in># M" using refs_pos [of M ip] by fastforce
    have "d = dev" "i = inum" using ic_invD(2) [OF assms(1) r] 1(3,4) by (auto simp: ids_def)
    then show ?thesis using ic_inv_add [OF assms(1) r] 1(5) by (simp add: ids_def)
  next
    case 2
    then show ?thesis using ic_inv_new [OF assms(1) 2(1)] by (auto simp: ids_def)
  qed
  then show "ic_inv (ids s') (add_mset (ip, dev, inum) M)" "i_inum (icache s' ip) = inum" by (auto simp: ids_def)
qed

lemma iput_inv:
  assumes "ic_inv (ids s) M" "r \<in># M" "iput (fst r) s = Inr s'"
  shows "ic_inv (ids s') (M - {#r#})"
  using ic_inv_del [OF assms(1,2)] ids_iput [OF assms(3)] by (simp add: ids_def)

lemma icrun_inv: "icrun s M \<Longrightarrow> ic_inv (ids s) M"
proof (induction rule: icrun.induct)
  case (start s)
  then show ?case by (simp add: ic_inv_def ids_def refs_def)
next
  case (iget s M dev inum ip s')
  then show ?case using iget_inv by blast
next
  case (ialloc s M dev type ip s')
  then show ?case using iget_inv by (metis ids_ialloc)
next
  case (idup s M ip dev inum)
  then have "ids (snd (Fs.idup ip s)) = (ids s)(ip := (dev, inum, snd (snd (ids s ip)) + 1))"
    using ic_invD(2) [OF idup.IH idup.hyps(2)] by (auto simp: Fs.idup_def ids_def upd_inode_def fun_eq_iff)
  then show ?case using ic_inv_add [OF idup.IH idup.hyps(2)] by (simp only:)
next
  case (iput s M r s')
  then show ?case using iput_inv by blast
next
  case (iunlockput s M r s')
  then obtain t where "Fs.iunlock (fst r) s = Inr t" "Fs.iput (fst r) t = Inr s'"
    by (auto simp: iunlockput_def elim!: bindr_InrE)
  then show ?case using iput_inv iunlockput.IH iunlockput.hyps(2) ids_iunlock by metis
next
  case (readi s M ip devsw off n r bs s')
  then show ?case using ids_readi by metis
next
  case (writei s M ip devsw src off n r s')
  then show ?case using ids_writei by metis
next
  case (ilock s M ip s')
  then show ?case using ids_ilock by metis
next
  case (iunlock s M ip s')
  then show ?case using ids_iunlock by metis
next
  case (iupdate s M ip s')
  then show ?case using ids_iupdate by metis
next
  case (itrunc s M ip s')
  then show ?case using ids_itrunc by metis
qed

end
