(* ===== verification/Fs_Props.thy ===== *)
theory Fs_Props
  imports Fs_Dir Fs_Icache
begin

text \<open>
  The properties of the file system: files behave as lists of bytes under \<^verbatim>\<open>readi\<close> and \<^verbatim>\<open>writei\<close>,
  inodes and blocks are read back as they were written. The example state is a freshly booted
  kernel with a small disk.
\<close>

section \<open>A booted file system\<close>

lemma binit_fresh:
  fixes s :: "'a logst_scheme"
  assumes "bcache s = (\<lambda>_. zero_buf)"
  shows "cst (binit s) Map.empty" "dirty_blocks (binit s) = {}" "diskview (binit s) = (\<lambda>n. memdisk s (unat n))"
    "klog (binit s) = klog s" "logst.more (binit s) = logst.more s" "disksize (binit s) = disksize s" "mypid (binit s) = mypid s"
proof -
  have z: "bcache s b = zero_buf\<lparr>b_flags := 0, b_dev := 0, b_refcnt := 0\<rparr>" for b
    by (simp add: assms zero_buf_def)
  note b = binit_same [OF z] and ok = binit_ok [OF z]
  show "diskview (binit s) = (\<lambda>n. memdisk s (unat n))" by (rule ok(2))
  show "klog (binit s) = klog s" "logst.more (binit s) = logst.more s" using klog_more [OF binit_more(1) [of s]] by auto
  show "disksize (binit s) = disksize s" "mypid (binit s) = mypid s"
    using disksize_binit [of s] b(6) [of 0] by (simp_all add: NBUF_def MAXOPBLOCKS_def)
  have "locked_bufs (binit s) = {}" using b(4) by (auto simp: locked_bufs_def initsleeplock_def)
  then show "cst (binit s) Map.empty" using ok(1) by (simp add: cst_def)
  show "dirty_blocks (binit s) = {}" using b(1) by (auto simp: dirty_blocks_def b_dirty_def)
qed

lemma fs_more:
  fixes s s' :: "'a fsst_scheme"
  assumes "logst.more s' = logst.more s"
  shows "fs_sb s' = fs_sb s" "icache s' = icache s"
  using assms by (cases s; cases s'; simp)+

text \<open>Blocks 32 and 33 hold inodes, block 34 the bitmap; the blocks from 35 to 63 are free.\<close>

definition ex_sb :: superblock where
  "ex_sb = \<lparr>sb_size = 64, sb_nblocks = 29, sb_ninodes = 8, sb_nlog = 30, sb_logstart = 2, sb_inodestart = 32, sb_bmapstart = 34\<rparr>"

definition ex_disk :: "nat \<Rightarrow> block" where
  "ex_disk n = (if n = 34 then (\<lambda>i. if i < 4 then 255 else if i = 4 then 7 else 0) else (\<lambda>_. 0))"

definition ex_inode :: "nat \<Rightarrow> inode" where
  "ex_inode ip = \<lparr>i_dev = 1, i_inum = of_nat ip + 1, i_ref = (if ip < 2 then 1 else 0), i_lock = initsleeplock, i_valid = True,
     i_type = (if ip = 0 then T_FILE else T_DIR), i_major = 0, i_minor = 0, i_nlink = 1, i_size = 0, i_addrs = (\<lambda>_. 0)\<rparr>"

definition ex_log :: log where
  "ex_log = \<lparr>lg_start = 2, lg_size = 30, lg_outstanding = 1, lg_committing = False, lg_dev = 1,
     lg_lh = \<lparr>lh_n = 0, lh_block = (\<lambda>_. 0)\<rparr>\<rparr>"

definition ex_fs :: fsst where
  "ex_fs = binit \<lparr>mypid = 1, bcache = (\<lambda>_. zero_buf), memdisk = ex_disk, disksize = 64, dwrites = [],
     klog = ex_log, fs_sb = ex_sb, icache = ex_inode\<rparr>"

definition ex_dev :: "fsst devsw" where "ex_dev _ = \<lparr>dev_read = None, dev_write = None\<rparr>"

lemma ex_fs_simps:
  "diskview ex_fs = (\<lambda>n. ex_disk (unat n))" "fs_sb ex_fs = ex_sb" "icache ex_fs = ex_inode" "disksize ex_fs = 64"
  "klog ex_fs = ex_log" "dirty_blocks ex_fs = {}" "cst ex_fs Map.empty" "mypid ex_fs = 1"
proof -
  let ?s = "\<lparr>mypid = 1, bcache = (\<lambda>_. zero_buf), memdisk = ex_disk, disksize = 64, dwrites = [],
     klog = ex_log, fs_sb = ex_sb, icache = ex_inode\<rparr> :: fsst"
  have "bcache ?s = (\<lambda>_. zero_buf)" by simp
  note b = binit_fresh [OF this, folded ex_fs_def]
  show "diskview ex_fs = (\<lambda>n. ex_disk (unat n))" "disksize ex_fs = 64" "klog ex_fs = ex_log" "dirty_blocks ex_fs = {}"
    "cst ex_fs Map.empty" "mypid ex_fs = 1" using b by simp_all
  show "fs_sb ex_fs = ex_sb" "icache ex_fs = ex_inode" using fs_more [OF b(5)] by simp_all
qed

lemma ex_geo: "fs_geo ex_sb 64" "datastart ex_sb = 35"
  by (simp_all add: fs_geo_def datastart_def ex_sb_def BPB_def BSIZE_def IPB_def)

lemma ex_bit:
  assumes "unat b < 64"
  shows "alloc_bit (\<lambda>n. ex_disk (unat n)) ex_sb b \<longleftrightarrow> unat b < 35"
proof -
  let ?n = "unat b"
  have "unat (b div 4096 + 34) = ?n div 4096 + 34" using assms by (simp add: unat_word_ariths unat_div)
  then have "unat (BBLOCK b ex_sb) = 34" using assms by (simp add: BBLOCK_def ex_sb_def BPB_def BSIZE_def)
  then have e: "alloc_bit (\<lambda>n. ex_disk (unat n)) ex_sb b \<longleftrightarrow> bit (ex_disk 34 (?n div 8)) (?n mod 8)"
    using assms by (simp add: alloc_bit_def bm_get_bit BPB_def BSIZE_def)
  have "?n \<in> set [0..<64]" using assms by simp
  moreover have "\<forall>n \<in> set [0..<64]. bit (ex_disk 34 (n div 8)) (n mod 8) \<longleftrightarrow> n < 35"
    by (simp add: ex_disk_def upt_rec bit_word_iff_drop_bit_and)
  ultimately show ?thesis using e by blast
qed

lemma ex_disk_ok: "disk_ok (\<lambda>n. ex_disk (unat n)) ex_sb (ex_inode ip)"
proof -
  have "slot (\<lambda>n. ex_disk (unat n)) (ex_inode ip) k = 0" for k by (simp add: slot_def ex_inode_def)
  then show ?thesis using ex_bit ex_geo(2) by (simp add: disk_ok_def inode_ok_def meta_ok_def)
qed

lemma ex_ready:
  assumes "k \<le> 27"
  shows "fs_ready ip k ex_fs"
  using assms ex_disk_ok ex_geo
  by (simp add: fs_ready_def ex_fs_simps in_txn_def room_def ex_log_def NBUF_def MAXOPBLOCKS_def) (simp add: ex_inode_def)

lemma ex_free: "n \<le> 29 \<Longrightarrow> n \<le> card (free_blocks (\<lambda>n. ex_disk (unat n)) ex_sb)"
proof -
  have e: "free_blocks (\<lambda>n. ex_disk (unat n)) ex_sb = {35..63}"
    using ex_bit by (auto simp: free_blocks_def ex_sb_def word_le_nat_alt word_less_nat_alt)
  have "inj_on (of_nat :: nat \<Rightarrow> u32) {35..63}" by (auto simp: inj_on_def word_of_nat_eq_iff take_bit_nat_eq_self)
  moreover have "(of_nat :: nat \<Rightarrow> u32) ` {35..63} \<subseteq> {35..63}" by (auto simp: word_le_nat_alt unat_of_nat)
  ultimately have "card {35..63 :: nat} \<le> card {35..63 :: u32}" by (metis card_image card_mono finite)
  then show "n \<le> 29 \<Longrightarrow> n \<le> card (free_blocks (\<lambda>n. ex_disk (unat n)) ex_sb)" using e by simp
qed

section \<open>Files\<close>

text \<open>
  C5: \<^verbatim>\<open>writei\<close> implements the overwriting of a byte list. On a file that is not a device, with
  the offset within the file and the end within the maximal size, in a transaction with room
  for the blocks and with enough free blocks, it succeeds and returns the number of bytes; the
  contents become the old ones with the bytes put at the offset, extending the file if they go past
  its end; the file stays well-formed, and every other file keeps its data blocks and its inode.
\<close>

theorem writei_refines_file_write:
  fixes s :: "'a fsst_scheme"
  assumes "fs_ready ip (6 * nblk (unat off) (length bs) + 1 + k) s" "file_ok (diskview s) (fs_sb s) (icache s ip)"
    "i_type (icache s ip) \<noteq> T_DEV" "unat (i_inum (icache s ip)) \<le> unat (sb_ninodes (fs_sb s))"
    "off \<le> i_size (icache s ip)" "unat off + length bs \<le> MAXFILE * 512"
    "2 * nblk (unat off) (length bs) \<le> card (free_blocks (diskview s) (fs_sb s))"
  shows "\<exists>s'. writei devsw ip (\<lambda>i. bs ! i) off (of_nat (length bs)) s = Inr (int (length bs), s') \<and>
    contents s' ip = file_write (contents s ip) (unat off) bs \<and>
    fs_ready ip k s' \<and> file_ok (diskview s') (fs_sb s') (icache s' ip) \<and>
    other_files_same (fs_sb s) (diskview s) (icache s ip) (diskview s')"
  using writei_spec [OF assms, of devsw] by metis

lemma ex_write_hyps:
  assumes "length bs \<le> 512" "bs \<noteq> []"
  shows "fs_ready ip (6 * nblk (unat 0) (length bs) + 1 + 0) ex_fs" "file_ok (diskview ex_fs) (fs_sb ex_fs) (icache ex_fs ip)"
    "i_type (icache ex_fs ip) \<noteq> T_DEV" "(0 :: u32) \<le> i_size (icache ex_fs ip)" "unat (0 :: u32) + length bs \<le> MAXFILE * 512"
    "2 * nblk (unat 0) (length bs) \<le> card (free_blocks (diskview ex_fs) (fs_sb ex_fs))"
proof -
  have "nblk 0 (length bs) = 1" using assms by (cases bs) (auto simp: nblk_def)
  then show "fs_ready ip (6 * nblk (unat 0) (length bs) + 1 + 0) ex_fs"
    "2 * nblk (unat 0) (length bs) \<le> card (free_blocks (diskview ex_fs) (fs_sb ex_fs))"
    using ex_ready [of 7 ip] ex_free [of 2] by (simp_all add: ex_fs_simps)
  show "file_ok (diskview ex_fs) (fs_sb ex_fs) (icache ex_fs ip)"
    using ex_disk_ok [of ip] by (simp add: file_ok_def ex_fs_simps) (simp add: ex_inode_def)
  show "i_type (icache ex_fs ip) \<noteq> T_DEV" "(0 :: u32) \<le> i_size (icache ex_fs ip)" "unat (0 :: u32) + length bs \<le> MAXFILE * 512"
    using assms by (simp_all add: ex_fs_simps ex_inode_def T_FILE_def T_DIR_def T_DEV_def MAXFILE_less)
qed

lemma ex_inum: "ip < 8 \<Longrightarrow> unat (i_inum (icache ex_fs ip)) \<le> unat (sb_ninodes (fs_sb ex_fs))"
  by (simp add: ex_fs_simps ex_inode_def ex_sb_def unat_word_ariths unat_of_nat)

lemma ex_contents: "contents ex_fs ip = []"
  by (simp add: contents_def ex_fs_simps ex_inode_def)

theorem writei_refines_file_write_witness:
  "\<exists>s'. writei ex_dev 0 (\<lambda>i. [7, 8, 9] ! i) 0 3 ex_fs = Inr (3, s') \<and> contents s' 0 = [7, 8, 9]"
proof -
  let ?bs = "[7, 8, 9] :: u8 list"
  have b: "length ?bs \<le> 512" "?bs \<noteq> []" by simp_all
  note h = ex_write_hyps [OF b]
  have i: "unat (i_inum (icache ex_fs 0)) \<le> unat (sb_ninodes (fs_sb ex_fs))" by (rule ex_inum) simp
  show ?thesis
    using writei_refines_file_write [OF h(1-3) i h(4-6), of ex_dev] by (auto simp: ex_contents file_write_def)
qed

text \<open>
  C17: What \<^verbatim>\<open>writei\<close> has written at an offset of a file, \<^verbatim>\<open>readi\<close> reads back from there, and
  the bytes in front of the offset are read as they were before.
\<close>

theorem writei_readi_roundtrip:
  fixes s :: "'a fsst_scheme"
  assumes r: "fs_ready ip (6 * nblk (unat off) (length bs) + 1 + k) s" and ok: "file_ok (diskview s) (fs_sb s) (icache s ip)"
    and ty: "i_type (icache s ip) \<noteq> T_DEV" and inum: "unat (i_inum (icache s ip)) \<le> unat (sb_ninodes (fs_sb s))"
    and off: "off \<le> i_size (icache s ip)" "unat off + length bs \<le> MAXFILE * 512"
    and fr: "2 * nblk (unat off) (length bs) \<le> card (free_blocks (diskview s) (fs_sb s))"
  shows "\<exists>s1 s2 s3. writei devsw ip (\<lambda>i. bs ! i) off (of_nat (length bs)) s = Inr (int (length bs), s1) \<and>
    readi devsw ip off (of_nat (length bs)) s1 = Inr (int (length bs), bs, s2) \<and>
    readi devsw ip 0 off s1 = Inr (int (unat off), take (unat off) (contents s ip), s3)"
proof -
  obtain s1 where s1: "writei devsw ip (\<lambda>i. bs ! i) off (of_nat (length bs)) s = Inr (int (length bs), s1)"
    "fs_ready ip k s1" "file_ok (diskview s1) (fs_sb s1) (icache s1 ip)"
    "contents s1 ip = file_write (contents s ip) (unat off) bs" "\<exists>a z. icache s1 ip = (icache s ip)\<lparr>i_addrs := a, i_size := z\<rparr>"
    using writei_spec [OF assms, of devsw] by metis
  have n: "unat (of_nat (length bs) :: u32) = length bs" using off(2) by (simp add: unat_of_nat MAXFILE_less)
  have le: "unat off \<le> length (contents s ip)" using off(1) by (simp add: word_le_nat_alt)
  have "unat off + length bs \<le> length (contents s1 ip)" using le by (simp add: s1(4) file_write_def)
  then have off1: "off \<le> i_size (icache s1 ip)" by (simp add: word_le_nat_alt)
  have ty1: "i_type (icache s1 ip) \<noteq> T_DEV" using s1(5) ty by auto
  have lt: "unat off + unat (of_nat (length bs) :: u32) < 2 ^ 32" "unat (0 :: u32) + unat off < 2 ^ 32"
    using off(2) n by (simp_all add: MAXFILE_less)
  obtain s2 where "readi devsw ip off (of_nat (length bs)) s1 = Inr (int (length bs), bs, s2)"
    using readi_spec [OF s1(2,3) ty1 off1 lt(1), of devsw] file_read_write [OF le, of bs] s1(4) n by metis
  moreover obtain s3 where "readi devsw ip 0 off s1 = Inr (int (unat off), take (unat off) (contents s ip), s3)"
  proof -
    have "file_read (contents s1 ip) (unat (0 :: u32)) (unat off) = take (unat off) (contents s ip)"
      "length (take (unat off) (contents s ip)) = unat off" using le s1(4) by (simp_all add: file_read_def file_write_def)
    then show thesis using that readi_spec [OF s1(2,3) ty1 word_coorder.extremum lt(2), of devsw] by metis
  qed
  ultimately show ?thesis using s1(1) by blast
qed

theorem writei_readi_roundtrip_witness:
  "\<exists>s1 s2. writei ex_dev 0 (\<lambda>i. [7, 8, 9] ! i) 0 3 ex_fs = Inr (3, s1) \<and> readi ex_dev 0 0 3 s1 = Inr (3, [7, 8, 9], s2)"
proof -
  let ?bs = "[7, 8, 9] :: u8 list"
  have b: "length ?bs \<le> 512" "?bs \<noteq> []" by simp_all
  note h = ex_write_hyps [OF b]
  have i: "unat (i_inum (icache ex_fs 0)) \<le> unat (sb_ninodes (fs_sb ex_fs))" by (rule ex_inum) simp
  show ?thesis using writei_readi_roundtrip [OF h(1-3) i h(4-6), of ex_dev] by auto
qed

section \<open>Directories\<close>

text \<open>
  C18: A name that \<^verbatim>\<open>dirlink\<close> has entered is found by \<^verbatim>\<open>dirlookup\<close>, which then gets exactly
  the inode that was linked; all other names are found where they were before, or still not at
  all; other files are not touched. The directory may have a free entry or grow.
\<close>

theorem dirlink_dirlookup_roundtrip:
  fixes s :: "'a fsst_scheme"
  assumes r: "fs_ready dp (k + 7) s" and ok: "dir_ok s dp" and new: "dir_find name (contents s dp) = None"
    and inum: "unat (i_inum (icache s dp)) \<le> unat (sb_ninodes (fs_sb s))"
    and space: "unat (i_size (icache s dp)) + 16 \<le> MAXFILE * 512"
    and fr: "2 \<le> card (free_blocks (diskview s) (fs_sb s))" and i0: "(ucast i :: u16) \<noteq> 0"
  shows "\<exists>s1 s2 j. dirlink devsw dp name i s = Inr (0, s1) \<and> fs_ready dp k s1 \<and> dir_ok s1 dp \<and>
    dirlookup devsw dp name s1 = bindr (iget 1 (ucast (ucast i :: u16)) s2) (\<lambda>(ip, s). Inr (Some (ip, of_nat (16 * j)), s)) \<and>
    icache s2 = icache s1 \<and> diskview s2 = diskview s1 \<and>
    (\<forall>name'. name_of name' \<noteq> name_of name \<longrightarrow> dir_find name' (contents s1 dp) = dir_find name' (contents s dp)) \<and>
    other_files_same (fs_sb s) (diskview s) (icache s dp) (diskview s1)"
proof -
  let ?xs = "contents s dp" and ?de = "dirent (ucast i) (strncpy_at name 0 DIRSIZ)"
  obtain s1 where s1: "dirlink devsw dp name i s = Inr (0, s1)" "fs_ready dp k s1" "dir_ok s1 dp"
    "contents s1 dp = file_write ?xs (16 * dir_slot ?xs) ?de"
    "other_files_same (fs_sb s) (diskview s) (icache s dp) (diskview s1)"
    using dirlink_spec [OF r ok new inum space fr] by metis
  have m: "length ?xs mod 16 = 0" using ok by (simp add: dir_ok_def)
  have nd: "named name' ?de \<longleftrightarrow> name_of name = name_of name'" for name'
    using i0 by (simp add: named_def dirent_get)
  note l = dir_find_link [OF m dirent_get(3) [of "ucast i" name], folded s1(4)]
  have f: "dir_find name (contents s1 dp) = Some (dir_slot ?xs)" using l(1) [OF new] nd by blast
  have "entry (contents s1 dp) (dir_slot ?xs) = ?de"
    unfolding s1(4) using entry_write(2) [OF m dir_slot_le dirent_get(3)] by simp
  then have di: "de_inum (entry (contents s1 dp) (dir_slot ?xs)) = ucast i" by (simp add: dirent_get)
  obtain s2 where s2: "dirlookup devsw dp name s1 = bindr (iget 1 (ucast (ucast i :: u16)) s2) (\<lambda>(ip, s). Inr (Some (ip, of_nat (16 * dir_slot ?xs)), s))"
    "txn_same s1 s2" "diskview s2 = diskview s1"
    using dirlookup_spec [OF s1(2,3), of devsw name, unfolded f option.case di] by blast
  moreover have "\<forall>name'. name_of name' \<noteq> name_of name \<longrightarrow> dir_find name' (contents s1 dp) = dir_find name' ?xs"
    using l(2) nd by metis
  ultimately show ?thesis using s1 txn_same_fs(2) [OF s2(2)] by blast
qed

theorem dirlink_dirlookup_roundtrip_witness:
  "\<exists>s1 ip off s2. dirlink ex_dev 1 (\<lambda>i. if i = 0 then 97 else 0) 5 ex_fs = Inr (0, s1) \<and>
    dirlookup ex_dev 1 (\<lambda>i. if i = 0 then 97 else 0) s1 = Inr (Some (ip, off), s2) \<and> i_inum (icache s2 ip) = 5"
proof -
  let ?n = "\<lambda>i. if i = 0 then 97 else 0 :: u8"
  have r: "fs_ready 1 (0 + 7) ex_fs" using ex_ready [of 7 1] by simp
  have ok: "dir_ok ex_fs 1"
    using ex_disk_ok [of 1] by (simp add: dir_ok_def file_ok_def ex_fs_simps) (simp add: ex_inode_def)
  have new: "dir_find ?n (contents ex_fs 1) = None" by (simp add: ex_contents dir_find_def dir_len_def)
  have inum: "unat (i_inum (icache ex_fs 1)) \<le> unat (sb_ninodes (fs_sb ex_fs))" by (rule ex_inum) simp
  have rest: "unat (i_size (icache ex_fs 1)) + 16 \<le> MAXFILE * 512" "2 \<le> card (free_blocks (diskview ex_fs) (fs_sb ex_fs))"
    "(ucast (5 :: u32) :: u16) \<noteq> 0" using ex_free [of 2] by (simp_all add: ex_fs_simps MAXFILE_less) (simp add: ex_inode_def)
  obtain s1 s2 j where s1: "dirlink ex_dev 1 ?n 5 ex_fs = Inr (0, s1)"
    "dirlookup ex_dev 1 ?n s1 = bindr (iget 1 (ucast (ucast (5 :: u32) :: u16)) s2) (\<lambda>(ip, s). Inr (Some (ip, of_nat (16 * j)), s))"
    "icache s2 = icache s1"
    using dirlink_dirlookup_roundtrip [OF r ok new inum rest, of ex_dev] by blast
  have "fs_step 1 ex_fs s1" using dirlink_spec [OF r ok new inum rest(1,2), of ex_dev 5] s1(1) by (metis Inr_inject prod.inject)
  then have "i_ref (icache s2 2) = 0" using s1(3) by (simp add: fs_step_def ex_fs_simps ex_inode_def)
  then have "\<exists>ip < NINODE. i_ref (icache s2 ip) = 0" by (intro exI [of _ 2]) (simp add: NINODE_def)
  then obtain ip s3 where g: "iget 1 5 s2 = Inr (ip, s3)" using iget_succeeds by blast
  then have "i_inum (icache s3 ip) = 5" by (rule iget_ids) (auto simp: ids_def dest!: fun_cong [of _ _ ip])
  then show ?thesis using s1 g by auto
qed

section \<open>Blocks and inodes\<close>

text \<open>
  C27: As long as a block is free, \<^verbatim>\<open>balloc\<close> returns a data block that was free, marks exactly
  that block in the bitmap and clears it; \<^verbatim>\<open>bfree\<close> of the block afterwards restores the bitmap, and
  \<^verbatim>\<open>bfree\<close> of a block that is free is caught by a panic.
\<close>

theorem balloc_bfree:
  fixes s :: "'a fsst_scheme"
  assumes t: "in_txn s Map.empty" and geo: "fs_geo (fs_sb s) (disksize s)" and room: "room (k + 3) s"
    and meta: "meta_ok (diskview s) (fs_sb s)" and c: "c \<in> free_blocks (diskview s) (fs_sb s)"
  shows "\<exists>b s1 s2. balloc 1 s = Inr (b, s1) \<and> b \<in> free_blocks (diskview s) (fs_sb s) \<and> datastart (fs_sb s) \<le> unat b \<and>
    free_blocks (diskview s1) (fs_sb s) = free_blocks (diskview s) (fs_sb s) - {b} \<and> (\<forall>i < BSIZE. diskview s1 b i = 0) \<and>
    (\<forall>n. n \<noteq> b \<longrightarrow> n \<noteq> BBLOCK b (fs_sb s) \<longrightarrow> diskview s1 n = diskview s n) \<and>
    bfree 1 b s1 = Inr s2 \<and> free_blocks (diskview s2) (fs_sb s) = free_blocks (diskview s) (fs_sb s) \<and>
    bfree 1 c s = Inl (Panic ''freeing free block'')"
proof -
  let ?sb = "fs_sb s" and ?v = "diskview s"
  have c': "c < sb_size ?sb" "\<not> alloc_bit ?v ?sb c" using c by (auto simp: free_blocks_def)
  have r: "room (Suc (Suc (k + 1))) s" using room by (simp add: numeral_eq_Suc)
  obtain b s1 where b: "balloc 1 s = Inr (b, s1)" "in_txn s1 Map.empty" "txn_same s s1" "room (k + 1) s1"
    "b < sb_size ?sb" "datastart ?sb \<le> unat b" "\<not> alloc_bit ?v ?sb b" "diskview s1 = view_alloc ?sb b ?v"
    using balloc_spec [OF t _ geo r _ meta c'] by auto
  note f1 = txn_same_fs [OF b(3)]
  have bf: "b \<in> free_blocks ?v ?sb" using b(5,7) by (simp add: free_blocks_def)
  have al: "alloc_bit (diskview s1) ?sb b" unfolding b(8) using alloc_bit_alloc [OF geo b(5,6,5)] by simp
  have r1: "room (Suc k) s1" using b(4) by simp
  obtain s2 where s2: "bfree 1 b s1 = Inr s2" "diskview s2 = view_free ?sb b (diskview s1)"
    using bfree_spec [OF b(2) few_empty, unfolded f1, OF geo r1 _ b(5) al] by auto
  have "free_blocks (diskview s2) ?sb = free_blocks ?v ?sb"
    unfolding s2(2) b(8) free_blocks_def using alloc_bit_free [OF geo b(5)] alloc_bit_alloc [OF geo b(5,6)] b(5,7) by auto
  moreover have "bfree 1 c s = Inl (Panic ''freeing free block'')"
  proof -
    have n: "BBLOCK c ?sb < disksize s" using fs_geoD(7) [OF geo c'(1)] .
    obtain bp s3 where "bread 1 (BBLOCK c ?sb) s = Inr (bp, s3)" "b_data (bcache s3 bp) = ?v (BBLOCK c ?sb)"
      using fs_bread [OF t _ n room few_empty] by (metis ran_empty empty_iff)
    then show ?thesis using c'(2) by (simp add: bfree_def alloc_bit_def Let_def)
  qed
  moreover have "\<forall>i < BSIZE. diskview s1 b i = 0" "\<forall>n. n \<noteq> b \<longrightarrow> n \<noteq> BBLOCK b ?sb \<longrightarrow> diskview s1 n = ?v n"
    unfolding b(8) view_alloc_new [OF geo b(5,6)] by (simp_all add: zeroed_def view_alloc_def Let_def)
  ultimately show ?thesis using b(1,6) bf s2(1) free_alloc [OF geo bf b(6)] b(8) by metis
qed

theorem balloc_bfree_witness:
  "\<exists>b s1 s2. balloc 1 ex_fs = Inr (b, s1) \<and> 35 \<le> unat b \<and> bfree 1 b s1 = Inr s2 \<and>
    free_blocks (diskview s2) ex_sb = free_blocks (diskview ex_fs) ex_sb"
proof -
  have r: "fs_ready 0 (0 + 3) ex_fs" using ex_ready [of 3 0] by simp
  note t = fs_readyD [OF r]
  have "free_blocks (diskview ex_fs) (fs_sb ex_fs) \<noteq> {}" using ex_free [of 1] by (auto simp: ex_fs_simps)
  then obtain c where c: "c \<in> free_blocks (diskview ex_fs) (fs_sb ex_fs)" by blast
  have "meta_ok (diskview ex_fs) (fs_sb ex_fs)" using t(4) by (simp add: disk_ok_def)
  then show ?thesis using balloc_bfree [OF t(1-3) _ c] ex_geo(2) by (auto simp: ex_fs_simps(2))
qed




section \<open>The inode cache\<close>

text \<open>
  C14: Whatever calls are made in whatever order, every reference handed out by \<^verbatim>\<open>iget\<close>, \<^verbatim>\<open>ialloc\<close>
  or \<^verbatim>\<open>idup\<close> and not yet given back by \<^verbatim>\<open>iput\<close> points to a cache entry that still holds the device and
  inode number it was asked for; two references to the same inode are the same entry; and the
  reference count of every entry is the number of these references.
\<close>

theorem icache_references:
  fixes s :: "'a fsst_scheme"
  assumes "icrun s M"
  shows "((ip, dev, inum) \<in># M \<longrightarrow> ip < NINODE \<and> i_dev (icache s ip) = dev \<and> i_inum (icache s ip) = inum) \<and>
    ((ip, dev, inum) \<in># M \<longrightarrow> (jp, dev, inum) \<in># M \<longrightarrow> ip = jp) \<and>
    i_ref (icache s ip) = int (refs M ip)"
proof -
  note i = ic_invD [OF icrun_inv [OF assms]]
  show ?thesis using i(1) [of ip] i(2) [of ip dev inum] i(3) [of ip dev inum jp] by (auto simp: ids_def)
qed

definition ex_fs3 :: fsst where "ex_fs3 = ex_fs\<lparr>icache := (\<lambda>ip. (ex_inode ip)\<lparr>i_ref := 0\<rparr>)\<rparr>"

theorem icache_references_witness:
  "\<exists>(s :: fsst) ip. icrun s {#(ip, 1, 5), (ip, 1, 5)#} \<and> i_ref (icache s ip) = 2 \<and> i_inum (icache s ip) = 5"
proof -
  have 0: "icrun ex_fs3 {#}" by (rule icrun.start) (simp add: ex_fs3_def)
  have "\<exists>ip < NINODE. i_ref (icache ex_fs3 ip) = 0" by (intro exI [of _ 0]) (simp add: ex_fs3_def NINODE_def)
  then obtain ip s1 where "iget 1 5 ex_fs3 = Inr (ip, s1)" using iget_succeeds by blast
  then have 1: "icrun s1 {#(ip, 1, 5)#}" by (rule icrun.iget [OF 0])
  have 2: "icrun (snd (idup ip s1)) {#(ip, 1, 5), (ip, 1, 5)#}" by (rule icrun.idup [OF 1]) simp
  show ?thesis using icache_references [OF 2, of ip 1 5 ip] 2 by (auto simp: refs_def)
qed

end
