(* ===== verification/Ring.thy ===== *)
theory Ring
  imports Xv6_Prelude
begin

text \<open>
  Ring buffers indexed by free-running 32-bit counters, as \<^verbatim>\<open>pipe.c\<close> and the input buffer
  of \<^verbatim>\<open>console.c\<close> use them: the slot of counter \<open>c\<close> is \<open>c mod N\<close>, the number of
  elements is the (wrapping) difference of the write and the read counter. The contents as a
  list, and the two ways they change, for every size \<open>N\<close> that divides \<open>2 ^ 32\<close>.
\<close>

definition ring_list :: "nat \<Rightarrow> (nat \<Rightarrow> 'a) \<Rightarrow> u32 \<Rightarrow> u32 \<Rightarrow> 'a list" where
  "ring_list N d r w = map (\<lambda>k. d ((unat r + k) mod N)) [0..<unat (w - r)]"

lemma length_ring_list [simp]: "length (ring_list N d r w) = unat (w - r)"
  by (simp add: ring_list_def)

lemma ring_list_empty_iff: "ring_list N d r w = [] \<longleftrightarrow> r = w"
  by (auto simp: ring_list_def unat_eq_zero)

lemma unat_add_mod_dvd:
  assumes "N dvd 2 ^ 32"
  shows "unat (a + b :: u32) mod N = (unat a + unat b) mod N"
  using assms by (simp add: unat_word_ariths mod_mod_cancel)

lemma unat_counter_mod:
  assumes "N dvd 2 ^ 32"
  shows "unat (w :: u32) mod N = (unat r + unat (w - r)) mod N"
  using unat_add_mod_dvd [OF assms, of r "w - r"] by simp

lemma mod_add_neq:
  fixes a i j N :: nat
  assumes "i < j" "j < i + N"
  shows "(a + i) mod N \<noteq> (a + j) mod N"
proof
  assume "(a + i) mod N = (a + j) mod N"
  then have "N dvd (a + j) - (a + i)"
    using assms(1) by (metis add_le_cancel_left less_imp_le_nat mod_eq_dvd_iff_nat)
  then have "N \<le> j - i"
    using assms(1) by (simp add: dvd_imp_le)
  with assms show False by linarith
qed

lemma unat_suc_diff:
  fixes r w :: u32
  assumes "unat (w - r) < 2 ^ 32 - 1"
  shows "unat (w + 1 - r) = Suc (unat (w - r))"
proof -
  have "w + 1 - r = (w - r) + 1" by simp
  then show ?thesis using assms by (simp only: unat_add_no_wrap) (simp add: unat_word_ariths)
qed

lemma unat_pred_diff:
  fixes r w :: u32
  assumes "r \<noteq> w"
  shows "unat (w - r) = Suc (unat (w - (r + 1)))"
proof -
  have eq: "w - (r + 1) = w - r - 1" by simp
  have "0 < unat (w - r)" using assms by (simp add: unat_gt_0)
  moreover have "unat (w - r - 1) = unat (w - r) - 1"
    using assms by (intro unat_minus_one) simp
  ultimately show ?thesis unfolding eq by simp
qed

lemma ring_list_put:
  assumes "N dvd 2 ^ 32" "N < 2 ^ 32" "unat (w - r) < N"
  shows "ring_list N (d(unat w mod N := c)) r (w + 1) = ring_list N d r w @ [c]"
proof -
  have lt: "unat (w - r) < 2 ^ 32 - 1" using assms(2,3) by simp
  have "(d((unat r + unat (w - r)) mod N := c)) ((unat r + k) mod N) = d ((unat r + k) mod N)"
    if "k < unat (w - r)" for k
    using mod_add_neq [OF that, of N "unat r"] assms(3) that by simp
  then show ?thesis
    unfolding unat_counter_mod [OF assms(1), of w r] ring_list_def unat_suc_diff [OF lt]
    by simp
qed

lemma ring_list_get:
  assumes "N dvd 2 ^ 32" "r \<noteq> w"
  shows "ring_list N d r w = d (unat r mod N) # ring_list N d (r + 1) w"
proof -
  have "(unat r + Suc k) mod N = (unat (r + 1) + k) mod N" for k
    using unat_add_mod_dvd [OF assms(1), of r 1]
    by (metis (no_types) add.assoc mod_add_left_eq plus_1_eq_Suc unsigned_1)
  then show ?thesis
    unfolding ring_list_def unat_pred_diff [OF assms(2)]
    by (simp add: upt_conv_Cons map_Suc_upt [symmetric] del: upt_Suc)
qed

section \<open>Bounded FIFO queues\<close>

text \<open>
  The contract of a bounded queue, stated on the list of its items: \<open>put\<close> appends when
  there is room, \<open>get\<close> takes the first item. Its clients (the copy loops of the pipe and
  of the console) move several items; what they do follows from the contract.
\<close>

locale fifo =
  fixes put :: "'a \<Rightarrow> 'q \<Rightarrow> 'q"
    and get :: "'q \<Rightarrow> 'a \<times> 'q"
    and items :: "'q \<Rightarrow> 'a list"
    and cap :: nat
    and ok :: "'q \<Rightarrow> bool"
  assumes put_ok: "ok q \<Longrightarrow> length (items q) < cap \<Longrightarrow> ok (put x q)"
    and put_items: "ok q \<Longrightarrow> length (items q) < cap \<Longrightarrow> items (put x q) = items q @ [x]"
    and get_ok: "ok q \<Longrightarrow> items q \<noteq> [] \<Longrightarrow> ok (snd (get q))"
    and get_items: "ok q \<Longrightarrow> items q \<noteq> [] \<Longrightarrow> items q = fst (get q) # items (snd (get q))"
    and bounded: "ok q \<Longrightarrow> length (items q) \<le> cap"
begin

lemma put_list:
  "ok q \<Longrightarrow> length (items q) + length xs \<le> cap \<Longrightarrow>
    ok (fold put xs q) \<and> items (fold put xs q) = items q @ xs"
proof (induction xs arbitrary: q)
  case (Cons x xs)
  then have "ok (put x q)" "items (put x q) = items q @ [x]"
    by (auto intro: put_ok put_items)
  with Cons.IH [of "put x q"] Cons.prems show ?case by simp
qed simp

lemma put_length: "ok q \<Longrightarrow> length (items q) < cap \<Longrightarrow> length (items (put x q)) = Suc (length (items q))"
  by (simp add: put_items)

lemma get_length: "ok q \<Longrightarrow> items q \<noteq> [] \<Longrightarrow> length (items q) = Suc (length (items (snd (get q))))"
  by (metis get_items length_Cons)

end

end
