(* ===== verification/Pipe.thy ===== *)
theory Pipe
  imports Ring Layout
begin

text \<open>
  Pipes, \<^verbatim>\<open>pipe.c\<close>: a 512-byte ring with free-running counters, the two open flags, and
  the blocking read and write loops. \<^verbatim>\<open>p->lock\<close> is held from the start of an operation to
  its return or to the \<^verbatim>\<open>sleep\<close> that releases it, so each stretch between these points is
  one atomic step; a step ends with \<open>Return\<close> or with \<open>SleepOn\<close> a channel, and reports the
  channels it woke. \<open>pipe_step\<close> then interleaves any number of readers and writers.
\<close>

section \<open>State and operations\<close>

definition PIPESIZE :: u32 where [layout_defs]: "PIPESIZE = 512"

record pipe =
  pdata :: "nat \<Rightarrow> u8"
  nread :: u32
  nwrite :: u32
  readopen :: bool
  writeopen :: bool

text \<open>The two addresses processes sleep on: \<^verbatim>\<open>&p->nread\<close> (readers), \<^verbatim>\<open>&p->nwrite\<close> (writers).\<close>

datatype pchan = ChanNread | ChanNwrite

datatype pout = Return int | SleepOn pchan nat

text \<open>\<^verbatim>\<open>p->data[p->nwrite++ % PIPESIZE] = c\<close> and \<^verbatim>\<open>p->data[p->nread++ % PIPESIZE]\<close>.\<close>

definition pipe_put :: "u8 \<Rightarrow> pipe \<Rightarrow> pipe" where
  "pipe_put c p = p\<lparr>pdata := (pdata p)(unat (nwrite p mod PIPESIZE) := c), nwrite := nwrite p + 1\<rparr>"

definition pipe_get :: "pipe \<Rightarrow> u8 \<times> pipe" where
  "pipe_get p = (pdata p (unat (nread p mod PIPESIZE)), p\<lparr>nread := nread p + 1\<rparr>)"

text \<open>
  \<open>pipewrite killed addr n i p\<close>: the loop of \<^verbatim>\<open>pipewrite\<close> from iteration \<open>i\<close>, up to its
  return or its next \<^verbatim>\<open>sleep\<close>; a call starts it at 0 and a wake-up resumes it at the index
  where it went to sleep. Result, channels woken, pipe.
\<close>

function pipewrite ::
  "bool \<Rightarrow> (nat \<Rightarrow> u8) \<Rightarrow> int \<Rightarrow> nat \<Rightarrow> pipe \<Rightarrow> pout \<times> pchan list \<times> pipe" where
  "pipewrite killed addr n i p =
     (if int i < n then
        (if nwrite p = nread p + PIPESIZE then
           (if \<not> readopen p \<or> killed then (Return (-1), [], p)
            else (SleepOn ChanNwrite i, [ChanNread], p))
         else pipewrite killed addr n (Suc i) (pipe_put (addr i) p))
      else (Return n, [ChanNread], p))"
  by pat_completeness auto
termination
  by (relation "measure (\<lambda>(killed, addr, n, i, p). nat n - i)") auto

declare pipewrite.simps [simp del]

function piperead_copy :: "int \<Rightarrow> nat \<Rightarrow> u8 list \<Rightarrow> pipe \<Rightarrow> nat \<times> u8 list \<times> pipe" where
  "piperead_copy n i acc p =
     (if int i < n then
        (if nread p = nwrite p then (i, acc, p)
         else case pipe_get p of (c, p) \<Rightarrow> piperead_copy n (Suc i) (acc @ [c]) p)
      else (i, acc, p))"
  by pat_completeness auto
termination
  by (relation "measure (\<lambda>(n, i, acc, p). nat n - i)") auto

declare piperead_copy.simps [simp del]

text \<open>
  \<^verbatim>\<open>piperead\<close>, likewise up to its return or its \<^verbatim>\<open>sleep\<close>; the bytes are what it stored at
  \<^verbatim>\<open>addr[0..i)\<close>.
\<close>

definition piperead :: "bool \<Rightarrow> int \<Rightarrow> pipe \<Rightarrow> pout \<times> u8 list \<times> pchan list \<times> pipe" where
  "piperead killed n p =
     (if nread p = nwrite p \<and> writeopen p then
        (if killed then (Return (-1), [], [], p) else (SleepOn ChanNread 0, [], [], p))
      else case piperead_copy n 0 [] p of
        (i, bytes, p) \<Rightarrow> (Return (int i), bytes, [ChanNwrite], p))"

text \<open>\<^verbatim>\<open>pipeclose\<close>: channel woken, whether the pipe's page is freed, pipe.\<close>

definition pipeclose :: "pipe \<Rightarrow> bool \<Rightarrow> pchan \<times> bool \<times> pipe" where
  "pipeclose p writable =
     (let (ch, p) = (if writable then (ChanNread, p\<lparr>writeopen := False\<rparr>)
                     else (ChanNwrite, p\<lparr>readopen := False\<rparr>))
      in (ch, \<not> readopen p \<and> \<not> writeopen p, p))"

text \<open>The fields \<^verbatim>\<open>pipealloc\<close> stores into a new pipe; \<open>d\<close> is what its page held before.\<close>

definition pipe_init :: "(nat \<Rightarrow> u8) \<Rightarrow> pipe" where
  "pipe_init d = \<lparr>pdata = d, nread = 0, nwrite = 0, readopen = True, writeopen = True\<rparr>"

section \<open>The ring refines a queue\<close>

definition pipe_items :: "pipe \<Rightarrow> u8 list" where
  "pipe_items p = ring_list 512 (pdata p) (nread p) (nwrite p)"

definition pipe_ok :: "pipe \<Rightarrow> bool" where
  "pipe_ok p \<longleftrightarrow> unat (nwrite p - nread p) \<le> 512"

lemma pipe_items_length: "length (pipe_items p) = unat (nwrite p - nread p)"
  by (simp add: pipe_items_def)

lemma unat_mod_512: "unat (x mod PIPESIZE) = unat x mod 512"
  by (simp add: PIPESIZE_def unat_mod)

lemma pipe_items_Nil: "pipe_items p = [] \<longleftrightarrow> nread p = nwrite p"
  by (simp add: pipe_items_def ring_list_empty_iff)

lemma pipe_full_iff: "nwrite p = nread p + PIPESIZE \<longleftrightarrow> length (pipe_items p) = 512"
proof -
  have "nwrite p - nread p = 512 \<longleftrightarrow> unat (nwrite p - nread p) = 512"
    by (simp add: word_unat_eq_iff)
  then show ?thesis by (auto simp: PIPESIZE_def diff_eq_eq add.commute pipe_items_length)
qed

interpretation pipe_ring: fifo pipe_put pipe_get pipe_items 512 pipe_ok
proof unfold_locales
  fix q :: pipe and x :: u8
  assume *: "pipe_ok q" "length (pipe_items q) < 512"
  then show "pipe_items (pipe_put x q) = pipe_items q @ [x]"
    using ring_list_put [of 512 "nwrite q" "nread q" "pdata q" x]
    by (simp add: pipe_items_def pipe_put_def unat_mod_512)
  from * show "pipe_ok (pipe_put x q)"
    by (simp add: pipe_ok_def pipe_put_def unat_suc_diff pipe_items_length)
next
  fix q :: pipe
  assume *: "pipe_ok q" "pipe_items q \<noteq> []"
  then have ne: "nread q \<noteq> nwrite q" by (simp add: pipe_items_Nil)
  then show "pipe_items q = fst (pipe_get q) # pipe_items (snd (pipe_get q))"
    using ring_list_get [of 512 "nread q" "nwrite q" "pdata q"]
    by (simp add: pipe_items_def pipe_get_def unat_mod_512)
  from * ne show "pipe_ok (snd (pipe_get q))"
    using unat_pred_diff [OF ne] by (simp add: pipe_ok_def pipe_get_def)
next
  fix q :: pipe
  assume "pipe_ok q"
  then show "length (pipe_items q) \<le> 512" by (simp add: pipe_ok_def pipe_items_length)
qed

subsection \<open>What one stretch of the loops does\<close>

lemma pipe_put_flags [simp]:
  "readopen (pipe_put c p) = readopen p" "writeopen (pipe_put c p) = writeopen p"
  by (simp_all add: pipe_put_def)

lemma pipe_get_flags [simp]:
  "readopen (snd (pipe_get p)) = readopen p" "writeopen (snd (pipe_get p)) = writeopen p"
  by (simp_all add: pipe_get_def)

text \<open>
  \<open>m\<close> bytes enter the queue; then the call is complete, or the queue is full and the
  writer sleeps or gives up.
\<close>

lemma pipewrite_spec:
  assumes "pipe_ok p" "pipewrite killed addr n i p = (out, woken, p')"
  shows "\<exists>m. pipe_ok p' \<and> pipe_items p' = pipe_items p @ map addr [i..<i + m] \<and>
    readopen p' = readopen p \<and> writeopen p' = writeopen p \<and> nwrite p' = nwrite p + of_nat m \<and>
    ((out = Return n \<and> i + m = max i (nat n) \<and> woken = [ChanNread]) \<or>
     (out = Return (-1) \<and> int (i + m) < n \<and> length (pipe_items p') = 512 \<and>
       (\<not> readopen p \<or> killed) \<and> woken = []) \<or>
     (out = SleepOn ChanNwrite (i + m) \<and> int (i + m) < n \<and> length (pipe_items p') = 512 \<and>
       readopen p \<and> \<not> killed \<and> woken = [ChanNread]))"
  using assms
proof (induction killed addr n i p rule: pipewrite.induct)
  case (1 killed addr n i p)
  show ?case
  proof (cases "int i < n \<and> length (pipe_items p) \<noteq> 512")
    case True
    have room: "length (pipe_items p) < 512"
      using pipe_ring.bounded [OF "1.prems"(1)] True by linarith
    have ok': "pipe_ok (pipe_put (addr i) p)" and
      items': "pipe_items (pipe_put (addr i) p) = pipe_items p @ [addr i]"
      using pipe_ring.put_ok pipe_ring.put_items "1.prems"(1) room by blast+
    have h: "int i < n" "nwrite p \<noteq> nread p + PIPESIZE"
      using True by (simp_all add: pipe_full_iff)
    have eq: "pipewrite killed addr n (Suc i) (pipe_put (addr i) p) = (out, woken, p')"
      using "1.prems"(2) h by (simp add: pipewrite.simps [of _ _ _ i])
    obtain m where m: "pipe_ok p'"
      "pipe_items p' = (pipe_items p @ [addr i]) @ map addr [Suc i..<Suc i + m]"
      "readopen p' = readopen p \<and> writeopen p' = writeopen p \<and>
       nwrite p' = nwrite (pipe_put (addr i) p) + of_nat m"
      "(out = Return n \<and> Suc i + m = max (Suc i) (nat n) \<and> woken = [ChanNread]) \<or>
       (out = Return (-1) \<and> int (Suc i + m) < n \<and> length (pipe_items p') = 512 \<and>
         (\<not> readopen p \<or> killed) \<and> woken = []) \<or>
       (out = SleepOn ChanNwrite (Suc i + m) \<and> int (Suc i + m) < n \<and>
         length (pipe_items p') = 512 \<and> readopen p \<and> \<not> killed \<and> woken = [ChanNread])"
      using "1.IH" [OF h ok' eq] unfolding items' pipe_put_flags by blast
    have "map addr [i..<i + Suc m] = addr i # map addr [Suc i..<Suc i + m]"
      by (simp add: upt_conv_Cons del: upt_Suc)
    then have "pipe_items p' = pipe_items p @ map addr [i..<i + Suc m]"
      by (simp only: m(2) append_assoc append_Cons append_Nil)
    moreover have "Suc i + m = i + Suc m" "max (Suc i) (nat n) = max i (nat n)"
      using True by auto
    ultimately show ?thesis
      using m(1,3,4) by (intro exI [of _ "Suc m"]) (simp add: pipe_put_def)
  next
    case False
    then show ?thesis
      using "1.prems" by (intro exI [of _ 0]) (auto simp: pipewrite.simps [of _ _ _ i] pipe_full_iff split: if_splits)
  qed
qed

lemma piperead_copy_spec:
  assumes "pipe_ok p" "piperead_copy n i acc p = (j, bytes, p')"
  shows "\<exists>xs. bytes = acc @ xs \<and> pipe_items p = xs @ pipe_items p' \<and> pipe_ok p' \<and>
    length xs = min (nat n - i) (length (pipe_items p)) \<and> j = i + length xs \<and>
    readopen p' = readopen p \<and> writeopen p' = writeopen p"
  using assms
proof (induction n i acc p rule: piperead_copy.induct)
  case (1 n i acc p)
  show ?case
  proof (cases "int i < n \<and> pipe_items p \<noteq> []")
    case True
    obtain c q where cq: "pipe_get p = (c, q)" by (cases "pipe_get p")
    have items: "pipe_items p = c # pipe_items q" and ok: "pipe_ok q"
      using pipe_ring.get_items pipe_ring.get_ok "1.prems"(1) True cq by fastforce+
    have flags: "readopen q = readopen p" "writeopen q = writeopen p"
      using pipe_get_flags [of p] cq by simp_all
    have h: "int i < n" "nread p \<noteq> nwrite p"
      using True by (simp_all add: pipe_items_Nil)
    have "piperead_copy n (Suc i) (acc @ [c]) q = (j, bytes, p')"
      using "1.prems"(2) h cq by (simp add: piperead_copy.simps [of _ i])
    from "1.IH" [OF h cq [symmetric] ok this] obtain xs where
      "bytes = (acc @ [c]) @ xs" "pipe_items q = xs @ pipe_items p'" "pipe_ok p'"
      "length xs = min (nat n - Suc i) (length (pipe_items q))" "j = Suc i + length xs"
      "readopen p' = readopen q" "writeopen p' = writeopen q"
      by blast
    then show ?thesis
      using True flags by (intro exI [of _ "c # xs"]) (auto simp: items)
  next
    case False
    then show ?thesis
      using "1.prems" by (intro exI [of _ "[]"]) (auto simp: piperead_copy.simps [of _ i] pipe_items_Nil pipe_items_length split: if_splits)
  qed
qed

section \<open>Readers and writers\<close>

text \<open>
  Any number of processes share the pipe. A process is outside the pipe code, runnable
  inside \<^verbatim>\<open>pipewrite\<close> (buffer, count, next index) or \<^verbatim>\<open>piperead\<close>, or asleep there. The last
  two fields are the history: every byte a write put into the pipe and every byte a read
  took out of it, in order.
\<close>

datatype pproc = Outside
  | Writing "nat \<Rightarrow> u8" int nat
  | Reading int
  | AsleepW "nat \<Rightarrow> u8" int nat
  | AsleepR int

record psys =
  the_pipe :: pipe
  procs :: "nat \<Rightarrow> pproc"
  killedp :: "nat \<Rightarrow> bool"
  written :: "u8 list"
  taken :: "u8 list"

text \<open>\<^verbatim>\<open>wakeup(chan)\<close> makes every process asleep on the channel runnable.\<close>

fun wake1 :: "pchan list \<Rightarrow> pproc \<Rightarrow> pproc" where
  "wake1 chs (AsleepW addr n i) = (if ChanNwrite \<in> set chs then Writing addr n i else AsleepW addr n i)"
| "wake1 chs (AsleepR n) = (if ChanNread \<in> set chs then Reading n else AsleepR n)"
| "wake1 chs q = q"

fun after_write :: "(nat \<Rightarrow> u8) \<Rightarrow> int \<Rightarrow> pout \<Rightarrow> pproc" where
  "after_write addr n (Return r) = Outside"
| "after_write addr n (SleepOn ch j) = AsleepW addr n j"

fun after_read :: "int \<Rightarrow> pout \<Rightarrow> pproc" where
  "after_read n (Return r) = Outside"
| "after_read n (SleepOn ch j) = AsleepR n"

text \<open>
  A process calls \<^verbatim>\<open>pipewrite\<close> or \<^verbatim>\<open>piperead\<close> through a file of that end, which is then open,
  and an end is closed (the last reference to its file dropped) only when no process is
  inside the operation of that end, since such a process holds a reference.
\<close>

fun in_write :: "pproc \<Rightarrow> bool" where
  "in_write (Writing addr n i) = True"
| "in_write (AsleepW addr n i) = True"
| "in_write q = False"

fun in_read :: "pproc \<Rightarrow> bool" where
  "in_read (Reading n) = True"
| "in_read (AsleepR n) = True"
| "in_read q = False"

inductive pipe_step :: "psys \<Rightarrow> psys \<Rightarrow> bool" where
  call_write: "procs s i = Outside \<Longrightarrow> writeopen (the_pipe s) \<Longrightarrow>
    pipe_step s (s\<lparr>procs := (procs s)(i := Writing addr n 0)\<rparr>)"
| call_read: "procs s i = Outside \<Longrightarrow> readopen (the_pipe s) \<Longrightarrow>
    pipe_step s (s\<lparr>procs := (procs s)(i := Reading n)\<rparr>)"
| run_write: "procs s i = Writing addr n k \<Longrightarrow>
    pipewrite (killedp s i) addr n k (the_pipe s) = (out, woken, p') \<Longrightarrow>
    pipe_step s (s\<lparr>the_pipe := p',
      procs := (\<lambda>q. wake1 woken (((procs s)(i := after_write addr n out)) q)),
      written := written s @ map addr [k..<k + unat (nwrite p' - nwrite (the_pipe s))]\<rparr>)"
| run_read: "procs s i = Reading n \<Longrightarrow>
    piperead (killedp s i) n (the_pipe s) = (out, bytes, woken, p') \<Longrightarrow>
    pipe_step s (s\<lparr>the_pipe := p',
      procs := (\<lambda>q. wake1 woken (((procs s)(i := after_read n out)) q)),
      taken := taken s @ bytes\<rparr>)"
| kill: "pipe_step s (s\<lparr>killedp := (killedp s)(i := True),
      procs := (procs s)(i := wake1 [ChanNread, ChanNwrite] (procs s i))\<rparr>)"
| close_write: "(\<And>i. \<not> in_write (procs s i)) \<Longrightarrow> writeopen (the_pipe s) \<Longrightarrow>
    pipeclose (the_pipe s) True = (ch, fr, p') \<Longrightarrow>
    pipe_step s (s\<lparr>the_pipe := p', procs := (\<lambda>q. wake1 [ch] (procs s q))\<rparr>)"
| close_read: "(\<And>i. \<not> in_read (procs s i)) \<Longrightarrow> readopen (the_pipe s) \<Longrightarrow>
    pipeclose (the_pipe s) False = (ch, fr, p') \<Longrightarrow>
    pipe_step s (s\<lparr>the_pipe := p', procs := (\<lambda>q. wake1 [ch] (procs s q))\<rparr>)"

definition psys_init :: "(nat \<Rightarrow> u8) \<Rightarrow> psys" where
  "psys_init d = \<lparr>the_pipe = pipe_init d, procs = (\<lambda>_. Outside), killedp = (\<lambda>_. False),
     written = [], taken = []\<rparr>"

inductive pipe_reach :: "psys \<Rightarrow> bool" where
  start: "pipe_reach (psys_init d)"
| step: "pipe_reach s \<Longrightarrow> pipe_step s t \<Longrightarrow> pipe_reach t"

definition fifo_inv :: "psys \<Rightarrow> bool" where
  "fifo_inv s \<longleftrightarrow> pipe_ok (the_pipe s) \<and> taken s @ pipe_items (the_pipe s) = written s"

lemma piperead_spec:
  assumes "pipe_ok p" "piperead killed n p = (out, bytes, woken, p')"
  shows "pipe_ok p' \<and> pipe_items p = bytes @ pipe_items p' \<and>
    readopen p' = readopen p \<and> writeopen p' = writeopen p \<and>
    ((out = SleepOn ChanNread 0 \<and> p' = p \<and> pipe_items p = [] \<and> writeopen p \<and> \<not> killed \<and> woken = []) \<or>
     (out = Return (-1) \<and> p' = p \<and> pipe_items p = [] \<and> writeopen p \<and> killed \<and> woken = []) \<or>
     (out = Return (int (length bytes)) \<and> length bytes = min (nat n) (length (pipe_items p)) \<and>
        (pipe_items p = [] \<longrightarrow> \<not> writeopen p) \<and> woken = [ChanNwrite]))"
proof (cases "nread p = nwrite p \<and> writeopen p")
  case True
  then have "pipe_items p = []" by (simp add: pipe_items_Nil)
  then show ?thesis using assms True by (auto simp: piperead_def split: if_splits)
next
  case False
  obtain j bs q where c: "piperead_copy n 0 [] p = (j, bs, q)"
    by (cases "piperead_copy n 0 [] p") auto
  have "out = Return (int j)" "bytes = bs" "woken = [ChanNwrite]" "p' = q"
    using assms(2) c False by (auto simp: piperead_def)
  moreover from piperead_copy_spec [OF assms(1) c, unfolded append_Nil add_0 diff_zero] obtain xs
    where xs: "bs = xs" "pipe_items p = xs @ pipe_items q" "pipe_ok q" "j = length xs"
      "length xs = min (nat n) (length (pipe_items p))"
      "readopen q = readopen p" "writeopen q = writeopen p"
    by blast
  moreover have "pipe_items p = [] \<longrightarrow> \<not> writeopen p"
    using False by (simp add: pipe_items_Nil)
  ultimately show ?thesis by blast
qed

lemma pipeclose_spec:
  assumes "pipeclose p w = (ch, fr, p')"
  shows "pipe_items p' = pipe_items p \<and> pipe_ok p' = pipe_ok p \<and>
    (if w then ch = ChanNread \<and> \<not> writeopen p' \<and> readopen p' = readopen p
     else ch = ChanNwrite \<and> \<not> readopen p' \<and> writeopen p' = writeopen p)"
  using assms by (auto simp: pipeclose_def pipe_items_def pipe_ok_def split: if_splits)

lemma pipe_step_fifo: "pipe_step s t \<Longrightarrow> fifo_inv s \<Longrightarrow> fifo_inv t"
proof (induction rule: pipe_step.induct)
  case (run_write s i addr n k out woken p')
  then obtain m where m: "pipe_ok p'" "pipe_items p' = pipe_items (the_pipe s) @ map addr [k..<k + m]"
    "nwrite p' = nwrite (the_pipe s) + of_nat m"
    using pipewrite_spec [OF _ run_write.hyps(2)] unfolding fifo_inv_def by blast
  have "length (pipe_items p') = length (pipe_items (the_pipe s)) + m" by (simp add: m(2))
  then have "m \<le> 512" using pipe_ring.bounded [OF m(1)] by linarith
  then have "unat (nwrite p' - nwrite (the_pipe s)) = m"
    by (simp add: m(3) unat_of_nat)
  with m run_write.prems show ?case by (simp add: fifo_inv_def)
next
  case (run_read s i n out bytes woken p')
  then have "pipe_ok p'" "pipe_items (the_pipe s) = bytes @ pipe_items p'"
    using piperead_spec [OF _ run_read.hyps(2)] unfolding fifo_inv_def by blast+
  with run_read.prems show ?case by (simp add: fifo_inv_def)
next
  case (close_write s ch fr p')
  then show ?case using pipeclose_spec [OF close_write.hyps(3)] by (simp add: fifo_inv_def)
next
  case (close_read s ch fr p')
  then show ?case using pipeclose_spec [OF close_read.hyps(3)] by (simp add: fifo_inv_def)
qed (simp_all add: fifo_inv_def)

lemma pipe_reach_fifo: "pipe_reach s \<Longrightarrow> fifo_inv s"
proof (induction rule: pipe_reach.induct)
  case (start d)
  then show ?case by (simp add: fifo_inv_def psys_init_def pipe_init_def pipe_ok_def pipe_items_def ring_list_def)
next
  case (step s t)
  then show ?case using pipe_step_fifo by blast
qed

subsection \<open>Who may be asleep\<close>

text \<open>\<open>calm\<close>: no process has been killed.\<close>

fun pproc_ok :: "bool \<Rightarrow> pipe \<Rightarrow> pproc \<Rightarrow> bool" where
  "pproc_ok calm p Outside = True"
| "pproc_ok calm p (Writing addr n i) = writeopen p"
| "pproc_ok calm p (Reading n) = readopen p"
| "pproc_ok calm p (AsleepW addr n i) = (writeopen p \<and> readopen p \<and> length (pipe_items p) = 512)"
| "pproc_ok calm p (AsleepR n) = (readopen p \<and> writeopen p \<and> (calm \<longrightarrow> pipe_items p = []))"

definition calm :: "psys \<Rightarrow> bool" where
  "calm s \<longleftrightarrow> (\<forall>i. \<not> killedp s i)"

definition sleep_inv :: "psys \<Rightarrow> bool" where
  "sleep_inv s \<longleftrightarrow> pipe_ok (the_pipe s) \<and> (\<forall>i. pproc_ok (calm s) (the_pipe s) (procs s i))"

lemma pproc_ok_wakeI:
  assumes "pproc_ok c p q" "readopen p' = readopen p" "writeopen p' = writeopen p"
    "length (pipe_items p) = 512 \<Longrightarrow> ChanNwrite \<notin> set chs \<Longrightarrow> length (pipe_items p') = 512"
    "c' \<Longrightarrow> c" "c' \<Longrightarrow> pipe_items p = [] \<Longrightarrow> readopen p \<Longrightarrow> ChanNread \<notin> set chs \<Longrightarrow> pipe_items p' = []"
  shows "pproc_ok c' p' (wake1 chs q)"
  using assms by (cases q) auto

lemma pproc_ok_calm: "pproc_ok c p q \<Longrightarrow> (c' \<Longrightarrow> c) \<Longrightarrow> pproc_ok c' p q"
  by (cases q) auto

lemma pproc_ok_wake_same: "pproc_ok c p q \<Longrightarrow> pproc_ok c p (wake1 chs q)"
  by (cases q) auto

lemma sleep_inv_write:
  assumes inv: "sleep_inv s" and i: "procs s i = Writing addr n k"
    and w: "pipewrite (killedp s i) addr n k (the_pipe s) = (out, woken, p')"
  shows "pipe_ok p' \<and> pproc_ok (calm s) p' (wake1 woken (((procs s)(i := after_write addr n out)) j))"
proof -
  have ok: "pipe_ok (the_pipe s)" and pj: "\<And>j. pproc_ok (calm s) (the_pipe s) (procs s j)"
    using inv by (auto simp: sleep_inv_def)
  obtain m where m: "pipe_ok p'" "pipe_items p' = pipe_items (the_pipe s) @ map addr [k..<k + m]"
    "readopen p' = readopen (the_pipe s)" "writeopen p' = writeopen (the_pipe s)"
    and out: "(out = Return n \<and> k + m = max k (nat n) \<and> woken = [ChanNread]) \<or>
     (out = Return (-1) \<and> int (k + m) < n \<and> length (pipe_items p') = 512 \<and>
       (\<not> readopen (the_pipe s) \<or> killedp s i) \<and> woken = []) \<or>
     (out = SleepOn ChanNwrite (k + m) \<and> int (k + m) < n \<and> length (pipe_items p') = 512 \<and>
       readopen (the_pipe s) \<and> \<not> killedp s i \<and> woken = [ChanNread])"
    using pipewrite_spec [OF ok w] by blast
  have "writeopen p'" using pj [of i] i m by simp
  then have self: "pproc_ok (calm s) p' (wake1 woken (after_write addr n out))"
    using out m by auto
  have full: "length (pipe_items (the_pipe s)) = 512 \<Longrightarrow> length (pipe_items p') = 512"
    using m pipe_ring.bounded [OF m(1)] by simp
  have "pproc_ok (calm s) p' (wake1 woken (procs s j))"
    using m(3,4) full out by (intro pproc_ok_wakeI [OF pj]) (auto simp: calm_def)
  then show ?thesis using self m(1) by (cases "j = i") simp_all
qed

lemma sleep_inv_read:
  assumes inv: "sleep_inv s" and i: "procs s i = Reading n"
    and r: "piperead (killedp s i) n (the_pipe s) = (out, bytes, woken, p')"
  shows "pipe_ok p' \<and> pproc_ok (calm s) p' (wake1 woken (((procs s)(i := after_read n out)) j))"
proof -
  have ok: "pipe_ok (the_pipe s)" and pj: "\<And>j. pproc_ok (calm s) (the_pipe s) (procs s j)"
    using inv by (auto simp: sleep_inv_def)
  note sp = piperead_spec [OF ok r]
  have flags: "pipe_ok p'" "readopen p' = readopen (the_pipe s)" "writeopen p' = writeopen (the_pipe s)"
    using sp by blast+
  have empty: "pipe_items (the_pipe s) = [] \<Longrightarrow> pipe_items p' = []"
    using sp by (metis append_is_Nil_conv)
  have same: "ChanNwrite \<in> set woken \<or> p' = the_pipe s"
    and out: "out = SleepOn ChanNread 0 \<and> pipe_items (the_pipe s) = [] \<and> writeopen (the_pipe s) \<or>
      (\<exists>k. out = Return k)"
    using sp by (metis list.set_intros(1), blast)
  have "readopen (the_pipe s)" using pj [of i] i by simp
  then have self: "pproc_ok (calm s) p' (wake1 woken (after_read n out))"
    using out flags empty by auto
  have "pproc_ok (calm s) p' (wake1 woken (procs s j))"
    using flags same empty by (intro pproc_ok_wakeI [OF pj]) auto
  then show ?thesis using self flags by (cases "j = i") simp_all
qed

lemma pipe_step_sleep: "pipe_step s t \<Longrightarrow> sleep_inv s \<Longrightarrow> sleep_inv t"
proof (induction rule: pipe_step.induct)
  case (run_write s i addr n k out woken p')
  show ?case
    using sleep_inv_write [OF run_write.prems run_write.hyps] by (simp add: sleep_inv_def calm_def)
next
  case (run_read s i n out bytes woken p')
  show ?case
    using sleep_inv_read [OF run_read.prems run_read.hyps] by (simp add: sleep_inv_def calm_def)
next
  case (kill s i)
  then show ?case
    by (auto simp: sleep_inv_def calm_def intro: pproc_ok_calm pproc_ok_wake_same)
next
  case (close_write s ch fr p')
  have "pproc_ok (calm s) p' (wake1 [ch] (procs s j))" for j
    using pipeclose_spec [OF close_write.hyps(3)] close_write.hyps(1) [of j] close_write.prems
    by (cases "procs s j") (auto simp: sleep_inv_def dest!: spec [of _ j])
  then show ?case
    using pipeclose_spec [OF close_write.hyps(3)] close_write.prems by (simp add: sleep_inv_def calm_def)
next
  case (close_read s ch fr p')
  have "pproc_ok (calm s) p' (wake1 [ch] (procs s j))" for j
    using pipeclose_spec [OF close_read.hyps(3)] close_read.hyps(1) [of j] close_read.prems
    by (cases "procs s j") (auto simp: sleep_inv_def dest!: spec [of _ j])
  then show ?case
    using pipeclose_spec [OF close_read.hyps(3)] close_read.prems by (simp add: sleep_inv_def calm_def)
qed (auto simp: sleep_inv_def calm_def)

lemma pipe_reach_sleep: "pipe_reach s \<Longrightarrow> sleep_inv s"
proof (induction rule: pipe_reach.induct)
  case (start d)
  then show ?case by (simp add: sleep_inv_def psys_init_def pipe_init_def pipe_ok_def)
next
  case (step s t)
  then show ?case using pipe_step_sleep by blast
qed

section \<open>Properties\<close>

text \<open>
  C4: For every interleaving of reads, writes, closes and kills, the bytes taken from the pipe
  followed by the bytes still in it are exactly the bytes written to it, in order, and at most
  512 are buffered. The counters run freely through 2^32.
\<close>

theorem pipe_fifo:
  assumes "pipe_reach s"
  shows "taken s @ pipe_items (the_pipe s) = written s \<and> length (pipe_items (the_pipe s)) \<le> 512"
  using pipe_reach_fifo [OF assms] pipe_ring.bounded by (simp add: fifo_inv_def)

lemmas pipe_go = pipe_reach.step [OF _ pipe_step.call_read] pipe_reach.step [OF _ pipe_step.run_read]
  pipe_reach.step [OF _ pipe_step.call_write] pipe_reach.step [OF _ pipe_step.run_write]

text \<open>Process 1 reads ten bytes from a new pipe and goes to sleep; process 0 then writes two.\<close>

definition psys_asleep :: psys where
  "psys_asleep = (psys_init (\<lambda>_. 0))\<lparr>procs := (\<lambda>_. Outside)(1 := AsleepR 10)\<rparr>"

lemma psys_asleep_reach: "pipe_reach psys_asleep"
proof -
  let ?s = "(psys_init (\<lambda>_. 0))\<lparr>procs := (\<lambda>_. Outside)(1 := Reading 10)\<rparr>"
  have "pipe_reach ?s"
    using pipe_go(1) [OF pipe_reach.start, of "\<lambda>_. 0" 1 10] by (simp add: psys_init_def pipe_init_def)
  moreover have "pipe_step ?s psys_asleep"
    using pipe_step.run_read [of ?s 1 10 "SleepOn ChanNread 0" "[]" "[]" "pipe_init (\<lambda>_. 0)"]
    by (auto simp: psys_asleep_def psys_init_def pipe_init_def piperead_def fun_upd_def if_distrib
        cong: if_cong split: if_splits)
  ultimately show ?thesis by (rule pipe_reach.step)
qed

definition two_bytes :: "nat \<Rightarrow> u8" where
  "two_bytes i = (if i = 0 then 104 else 105)"

definition psys_written :: psys where
  "psys_written = \<lparr>the_pipe = pipe_put 105 (pipe_put 104 (pipe_init (\<lambda>_. 0))),
     procs = (\<lambda>_. Outside)(1 := Reading 10), killedp = (\<lambda>_. False), written = [104, 105], taken = []\<rparr>"

lemma psys_written_reach: "pipe_reach psys_written"
proof -
  let ?s = "psys_asleep\<lparr>procs := (procs psys_asleep)(0 := Writing two_bytes 2 0)\<rparr>"
  let ?p = "pipe_put 105 (pipe_put 104 (pipe_init (\<lambda>_. 0)))"
  have "pipe_reach ?s"
    using pipe_go(3) [OF psys_asleep_reach, of 0 two_bytes 2]
    by (simp add: psys_asleep_def psys_init_def pipe_init_def)
  moreover have "pipe_step ?s psys_written"
  proof -
    have w: "pipewrite False two_bytes 2 0 (pipe_init (\<lambda>_. 0)) = (Return 2, [ChanNread], ?p)"
      by (simp add: pipewrite.simps pipe_put_def pipe_init_def PIPESIZE_def two_bytes_def)
    have "[0..<2] = [0, 1 :: nat]" by (simp add: numeral_2_eq_2)
    then have "map two_bytes [0..<0 + unat (nwrite ?p - nwrite (pipe_init (\<lambda>_. 0)))] = [104, 105]"
      by (simp add: pipe_put_def pipe_init_def two_bytes_def)
    then have "psys_written = ?s\<lparr>the_pipe := ?p,
      procs := (\<lambda>q. wake1 [ChanNread] (((procs ?s)(0 := after_write two_bytes 2 (Return 2))) q)),
      written := written ?s @ map two_bytes [0..<0 + unat (nwrite ?p - nwrite (the_pipe ?s))]\<rparr>"
      by (simp add: psys_written_def psys_asleep_def psys_init_def fun_eq_iff)
    then show ?thesis
      using pipe_step.run_write [of ?s 0 two_bytes 2 0 "Return 2" "[ChanNread]" ?p] w
      by (simp add: psys_asleep_def psys_init_def)
  qed
  ultimately show ?thesis by (rule pipe_reach.step)
qed

theorem pipe_fifo_witness:
  "taken psys_written @ pipe_items (the_pipe psys_written) = [104, 105]"
  using pipe_fifo [OF psys_written_reach] by (simp add: psys_written_def)

text \<open>
  C21: No wake-up is lost on the way to a writer, and none on the way to a reader as long as
  no process is killed: a writer sleeps only while the pipe is full and has a reading end, a
  reader only while it is empty and has a writing end.
\<close>

theorem pipe_sleepers:
  assumes "pipe_reach s"
  shows "(procs s i = AsleepW addr n k \<longrightarrow>
       length (pipe_items (the_pipe s)) = 512 \<and> readopen (the_pipe s)) \<and>
    (calm s \<and> procs s j = AsleepR m \<longrightarrow>
       pipe_items (the_pipe s) = [] \<and> writeopen (the_pipe s))"
  using pipe_reach_sleep [OF assms] unfolding sleep_inv_def by (metis pproc_ok.simps(4,5))

theorem pipe_sleepers_witness:
  "procs psys_asleep 1 = AsleepR 10 \<and> pipe_items (the_pipe psys_asleep) = [] \<and>
   writeopen (the_pipe psys_asleep)"
  using pipe_sleepers [OF psys_asleep_reach, of 0 "\<lambda>_. 0" 0 0 1 10]
  by (simp add: calm_def psys_asleep_def psys_init_def)

text \<open>
  C39: A killed writer that finds the pipe full returns \<open>-1\<close> without waking the readers of the
  bytes it has just put there: a state is reachable in which the pipe is full, a reader is
  asleep on it, and no process is left inside \<^verbatim>\<open>pipewrite\<close> to wake it.
\<close>

theorem pipe_killed_writer_lost_wakeup:
  "\<exists>s. pipe_reach s \<and> procs s 1 = AsleepR 10 \<and> length (pipe_items (the_pipe s)) = 512 \<and>
     writeopen (the_pipe s) \<and> (\<forall>i. \<not> in_write (procs s i))"
proof -
  let ?s = "psys_asleep\<lparr>procs := (procs psys_asleep)(0 := Writing (\<lambda>_. 0) 513 0)\<rparr>"
  let ?k = "psys_asleep\<lparr>killedp := (killedp psys_asleep)(0 := True),
    procs := (procs psys_asleep)(0 := Writing (\<lambda>_. 0) 513 0)\<rparr>"
  let ?p = "the_pipe ?k"
  have "pipe_reach ?s"
    using pipe_go(3) [OF psys_asleep_reach, of 0 "\<lambda>_. 0" 513]
    by (simp add: psys_asleep_def psys_init_def pipe_init_def)
  then have k: "pipe_reach ?k"
    using pipe_reach.step [OF _ pipe_step.kill [of ?s 0]] by simp
  obtain out woken p' where w: "pipewrite True (\<lambda>_. 0) 513 0 ?p = (out, woken, p')"
    by (metis prod_cases3)
  have p: "pipe_ok ?p" "pipe_items ?p = []" "writeopen ?p"
    using pipe_reach_sleep [OF k] by (auto simp: sleep_inv_def psys_asleep_def psys_init_def pipe_init_def pipe_items_Nil)
  obtain m where m: "pipe_ok p'" "length (pipe_items p') = m" "writeopen p'"
    and out: "m = 513 \<or> m = 512 \<and> out = Return (-1) \<and> woken = []"
    using pipewrite_spec [OF p(1) w] p(2,3) by auto
  have "m \<le> 512" using m pipe_ring.bounded by blast
  with out have out: "m = 512" "out = Return (-1)" "woken = []" by auto
  let ?t = "?k\<lparr>the_pipe := p', procs := (\<lambda>q. wake1 [] (((procs ?k)(0 := Outside)) q)),
    written := written ?k @ map (\<lambda>_. 0) [0..<0 + unat (nwrite p' - nwrite ?p)]\<rparr>"
  have "pipe_reach ?t"
    using pipe_reach.step [OF k pipe_step.run_write [of ?k 0 "\<lambda>_. 0" 513 0 out woken p']] w out
    by (simp add: psys_asleep_def psys_init_def)
  moreover have "procs ?t 1 = AsleepR 10" "\<not> in_write (procs ?t i)" for i
    by (simp_all add: psys_asleep_def psys_init_def)
  ultimately show ?thesis using m out by (intro exI [of _ ?t]) simp
qed

end
