(* ===== verification/Kalloc.thy ===== *)
theory Kalloc
  imports Memory "HOL-Library.Multiset"
begin

text \<open>
  The physical page allocator, \<^verbatim>\<open>kalloc.c\<close>. Free pages form a singly linked list through
  their first four bytes (\<^verbatim>\<open>struct run\<close>), headed by \<^verbatim>\<open>kmem.freelist\<close>. The list lives in
  the same byte memory as the pages it manages, so a page on the list that somebody still
  writes to corrupts the list, exactly as in the kernel. \<^verbatim>\<open>kmem.lock\<close> is held over each
  operation, which makes it one atomic step; the lock itself is modelled in \<open>Spinlock\<close>.
\<close>

section \<open>State and operations\<close>

text \<open>
  \<open>kern_end\<close> and \<open>kern_data\<close> are the linker symbols \<^verbatim>\<open>end\<close> and \<^verbatim>\<open>data\<close> of
  \<^verbatim>\<open>kernel.ld\<close>: constants of a kernel image.
\<close>

record kmem =
  pmem :: mem
  freelist :: u32
  use_lock :: bool
  kern_end :: u32
  kern_data :: u32

definition kfree :: "u32 \<Rightarrow> kmem \<Rightarrow> kmem res" where
  "kfree v s =
     (if v mod PGSIZE \<noteq> 0 \<or> v < kern_end s \<or> PHYSTOP \<le> V2P v then Inl (Panic ''kfree'')
      else let m = memset (pmem s) v 1 PGSIZE
           in Inr (s\<lparr>pmem := wr32 m v (freelist s), freelist := v\<rparr>))"

definition kalloc :: "kmem \<Rightarrow> u32 \<times> kmem" where
  "kalloc s =
     (let r = freelist s in
      if r \<noteq> 0 then (r, s\<lparr>freelist := rd32 (pmem s) r\<rparr>) else (0, s))"

text \<open>
  The loop of \<^verbatim>\<open>freerange\<close>. It ends because every page it frees lies below
  \<^verbatim>\<open>P2V(PHYSTOP)\<close>, so that \<^verbatim>\<open>p + PGSIZE\<close> never wraps.
\<close>

lemma kfree_InrD:
  assumes "kfree v s = Inr s'"
  shows "pg_aligned v" "kern_end s \<le> v" "KERNBASE \<le> v" "unat v < 0x8E000000"
proof -
  from assms have *: "v mod 4096 = 0" "kern_end s \<le> v" "v - 0x80000000 < 0xE000000"
    by (auto simp: kfree_def PGSIZE_def PHYSTOP_def V2P_def KERNBASE_def split: if_splits)
  then show "kern_end s \<le> v" by simp
  from *(1) show "pg_aligned v"
    using unat_mod [of v 4096] by (simp add: pg_aligned_iff_mod)
  have "in_range 0x80000000 0xE000000 v"
    using *(3) by (simp add: in_range_def word_less_nat_alt)
  then have "0x80000000 \<le> unat v \<and> unat v < 0x8E000000"
    by (simp add: in_range_iff_unat)
  then show "KERNBASE \<le> v" "unat v < 0x8E000000"
    by (simp_all add: KERNBASE_def word_le_nat_alt)
qed

function freerange_loop :: "u32 \<Rightarrow> u32 \<Rightarrow> kmem \<Rightarrow> kmem res" where
  "freerange_loop p vend s =
     (if p + PGSIZE \<le> vend then bindr (kfree p s) (\<lambda>s. freerange_loop (p + PGSIZE) vend s)
      else Inr s)"
  by pat_completeness auto
termination
proof (relation "measure (\<lambda>(p, vend, s). 2 ^ 32 - unat p)", goal_cases)
  case (2 p vend s s')
  then have "unat p < 0x8E000000" by (auto dest: kfree_InrD(4))
  then have "unat (p + PGSIZE) = unat p + 4096"
    by (simp add: PGSIZE_def unat_add_no_wrap)
  with \<open>unat p < 0x8E000000\<close> show ?case by simp
qed simp

declare freerange_loop.simps [simp del]

definition freerange :: "u32 \<Rightarrow> u32 \<Rightarrow> kmem \<Rightarrow> kmem res" where
  "freerange vstart vend s = freerange_loop (PGROUNDUP vstart) vend s"

definition kinit1 :: "u32 \<Rightarrow> u32 \<Rightarrow> kmem \<Rightarrow> kmem res" where
  "kinit1 vstart vend s = freerange vstart vend (s\<lparr>use_lock := False\<rparr>)"

definition kinit2 :: "u32 \<Rightarrow> u32 \<Rightarrow> kmem \<Rightarrow> kmem res" where
  "kinit2 vstart vend s = bindr (freerange vstart vend s) (\<lambda>s. Inr (s\<lparr>use_lock := True\<rparr>))"

section \<open>The free list\<close>

text \<open>
  \<open>run_list m p xs\<close>: from \<open>p\<close>, the \<^verbatim>\<open>next\<close> words in memory \<open>m\<close> chain the pages
  \<open>xs\<close> and end in the null pointer.
\<close>

primrec run_list :: "mem \<Rightarrow> u32 \<Rightarrow> u32 list \<Rightarrow> bool" where
  "run_list m p [] \<longleftrightarrow> p = 0"
| "run_list m p (x # xs) \<longleftrightarrow> p = x \<and> x \<noteq> 0 \<and> run_list m (rd32 m x) xs"

definition page_ok :: "kmem \<Rightarrow> u32 \<Rightarrow> bool" where
  "page_ok s v \<longleftrightarrow> pg_aligned v \<and> kern_end s \<le> v \<and> KERNBASE \<le> v \<and> unat v < 0x8E000000"

definition free_pages :: "kmem \<Rightarrow> u32 list \<Rightarrow> bool" where
  "free_pages s xs \<longleftrightarrow> run_list (pmem s) (freelist s) xs \<and> distinct xs \<and> (\<forall>x\<in>set xs. page_ok s x)"

lemma page_ok_nonzero: "page_ok s v \<Longrightarrow> v \<noteq> 0"
  by (auto simp: page_ok_def KERNBASE_def)

lemma run_list_unique: "run_list m p xs \<Longrightarrow> run_list m p ys \<Longrightarrow> xs = ys"
proof (induction xs arbitrary: p ys)
  case Nil
  then show ?case by (cases ys) auto
next
  case (Cons x xs)
  then show ?case by (cases ys) auto
qed

lemma run_list_cong:
  "(\<And>x. x \<in> set xs \<Longrightarrow> rd32 m' x = rd32 m x) \<Longrightarrow> run_list m' p xs \<longleftrightarrow> run_list m p xs"
  by (induction xs arbitrary: p) auto

lemma kfree_Inr:
  assumes "page_ok s v"
  shows "kfree v s = Inr (s\<lparr>pmem := wr32 (memset (pmem s) v 1 PGSIZE) v (freelist s), freelist := v\<rparr>)"
proof -
  from assms have v: "unat v mod 4096 = 0" "kern_end s \<le> v" "0x80000000 \<le> v" "unat v < 0x8E000000"
    by (auto simp: page_ok_def pg_aligned_iff_mod KERNBASE_def)
  have "v mod 4096 = 0"
    using v(1) unat_mod [of v 4096] by (simp add: unat_eq_zero)
  moreover have "v - 0x80000000 < 0xE000000"
    using v by (simp add: word_less_nat_alt unat_sub)
  ultimately show ?thesis
    using v(2) by (auto simp: kfree_def PGSIZE_def V2P_def PHYSTOP_def KERNBASE_def not_le Let_def)
qed

text \<open>
  Freeing a page that is not on the list pushes it; the contents of every other page are
  untouched.
\<close>

lemma kfree_push:
  assumes "free_pages s xs" "page_ok s v" "v \<notin> set xs" "kfree v s = Inr s'"
  shows "free_pages s' (v # xs)"
proof -
  let ?m = "wr32 (memset (pmem s) v 1 PGSIZE) v (freelist s)"
  have v: "pg_aligned v" using assms(2) by (simp add: page_ok_def)
  have s': "s' = s\<lparr>pmem := ?m, freelist := v\<rparr>"
    using kfree_Inr [OF assms(2)] assms(4) by simp
  have keep: "?m x = pmem s x" if "PGROUNDDOWN x \<noteq> v" for x
    using that v by (simp add: wr32_other_page0 memset_page)
  have "rd32 ?m x = rd32 (pmem s) x" if "x \<in> set xs" for x
    using that assms v by (intro rd32_page_cong0 keep) (auto simp: free_pages_def page_ok_def)
  then have "run_list ?m (freelist s) xs"
    using assms(1) by (subst run_list_cong) (auto simp: free_pages_def)
  then show ?thesis
    using assms page_ok_nonzero [OF assms(2)]
    by (auto simp: s' free_pages_def page_ok_def rd32_wr32_same)
qed

lemma kalloc_empty: "free_pages s [] \<Longrightarrow> kalloc s = (0, s)"
  by (simp add: free_pages_def kalloc_def)

lemma kalloc_pop:
  assumes "free_pages s (x # xs)"
  shows "kalloc s = (x, s\<lparr>freelist := rd32 (pmem s) x\<rparr>)"
    "free_pages (s\<lparr>freelist := rd32 (pmem s) x\<rparr>) xs"
  using assms by (auto simp: free_pages_def kalloc_def page_ok_def)

text \<open>
  Freeing a page twice is not caught by \<^verbatim>\<open>kfree\<close>: the list then no longer ends, since the
  page's own \<^verbatim>\<open>next\<close> word was overwritten with a pointer to the list the page is on.
\<close>

lemma kfree_twice_pmem:
  assumes "page_ok s v" "kfree v s = Inr s1" "kfree v s1 = Inr s2"
  shows "freelist s2 = v" "rd32 (pmem s2) v = v"
proof -
  have "page_ok s1 v"
    using assms(1) kfree_Inr [OF assms(1)] assms(2) by (auto simp: page_ok_def)
  then have "s2 = s1\<lparr>pmem := wr32 (memset (pmem s1) v 1 PGSIZE) v (freelist s1), freelist := v\<rparr>"
    using kfree_Inr assms(3) by simp
  moreover have "freelist s1 = v"
    using kfree_Inr [OF assms(1)] assms(2) by auto
  ultimately show "freelist s2 = v" "rd32 (pmem s2) v = v"
    by (simp_all add: rd32_wr32_same)
qed

lemma run_list_no_cycle: "rd32 m p = p \<Longrightarrow> p \<noteq> 0 \<Longrightarrow> \<not> run_list m p xs"
  by (induction xs) auto

section \<open>The allocator's contract\<close>

text \<open>
  What the rest of the kernel relies on, as an interface: a pool of pages, an allocation
  that takes a page from the pool or returns null when the pool is empty, a release that
  puts a page back and cannot fail on a page of the machine, and the fact that writing to a
  page outside the pool leaves the pool alone.
\<close>

locale page_allocator =
  fixes alloc :: "'s \<Rightarrow> 'p \<times> 's"
    and release :: "'p \<Rightarrow> 's \<Rightarrow> 's res"
    and null :: 'p
    and store :: "'p \<Rightarrow> nat \<Rightarrow> u8 \<Rightarrow> 's \<Rightarrow> 's"
    and pool :: "'s \<Rightarrow> 'p list \<Rightarrow> bool"
    and valid :: "'s \<Rightarrow> 'p \<Rightarrow> bool"
  assumes alloc_none: "pool s [] \<Longrightarrow> alloc s = (null, s)"
    and alloc_some: "pool s (x # xs) \<Longrightarrow> \<exists>s'. alloc s = (x, s') \<and> pool s' xs \<and> valid s' = valid s"
    and release_ok: "pool s xs \<Longrightarrow> valid s v \<Longrightarrow> v \<notin> set xs \<Longrightarrow>
      \<exists>s'. release v s = Inr s' \<and> pool s' (v # xs) \<and> valid s' = valid s"
    and store_ok: "pool s xs \<Longrightarrow> valid s v \<Longrightarrow> v \<notin> set xs \<Longrightarrow>
      pool (store v k c s) xs \<and> valid (store v k c s) = valid s"
    and pool_ok: "pool s xs \<Longrightarrow> distinct xs \<and> (\<forall>x\<in>set xs. valid s x \<and> x \<noteq> null)"

text \<open>
  A client: it asks for pages, gives back pages it holds and writes to pages it holds. The
  list is what it holds.
\<close>

datatype page_req = Alloc | Release nat | Store nat nat u8

fun client_step ::
  "('s \<Rightarrow> 'p \<times> 's) \<Rightarrow> ('p \<Rightarrow> 's \<Rightarrow> 's res) \<Rightarrow> 'p \<Rightarrow> ('p \<Rightarrow> nat \<Rightarrow> u8 \<Rightarrow> 's \<Rightarrow> 's) \<Rightarrow>
    page_req \<Rightarrow> 's \<times> 'p list \<Rightarrow> ('s \<times> 'p list) res" where
  "client_step al re null st Alloc (s, held) =
     (case al s of (p, s') \<Rightarrow> Inr (s', if p = null then held else p # held))"
| "client_step al re null st (Release i) (s, held) =
     (if i < length held
      then bindr (re (held ! i) s) (\<lambda>s'. Inr (s', take i held @ drop (Suc i) held))
      else Inr (s, held))"
| "client_step al re null st (Store i k c) (s, held) =
     (if i < length held then Inr (st (held ! i) k c s, held) else Inr (s, held))"

fun client_run where
  "client_run al re null st [] c = Inr c"
| "client_run al re null st (r # rs) c =
     bindr (client_step al re null st r c) (client_run al re null st rs)"

text \<open>
  \<open>accounted\<close>: the pages the client holds and the pages in the pool are different valid
  pages and together make up \<open>M\<close>.
\<close>

context page_allocator
begin

definition accounted :: "'p multiset \<Rightarrow> 's \<times> 'p list \<Rightarrow> bool" where
  "accounted M c \<longleftrightarrow> (\<exists>xs. pool (fst c) xs \<and> distinct (snd c) \<and> set (snd c) \<inter> set xs = {} \<and>
     (\<forall>p\<in>set (snd c). valid (fst c) p) \<and> mset (snd c) + mset xs = M)"

lemma remove_nth:
  assumes "i < length held" "distinct held"
  shows "mset (take i held @ drop (Suc i) held) = mset held - {#held ! i#}"
    "held ! i \<notin> set (take i held @ drop (Suc i) held)"
    "distinct (take i held @ drop (Suc i) held)"
    "set (take i held @ drop (Suc i) held) \<subseteq> set held"
proof -
  have split: "held = take i held @ held ! i # drop (Suc i) held"
    using assms(1) by (rule id_take_nth_drop)
  let ?l = "take i held" and ?x = "held ! i" and ?r = "drop (Suc i) held"
  have "mset held = mset (?l @ ?x # ?r)" "distinct (?l @ ?x # ?r)" "set held = set (?l @ ?x # ?r)"
    using split assms(2) by metis+
  then show "mset (?l @ ?r) = mset held - {#?x#}" "?x \<notin> set (?l @ ?r)" "distinct (?l @ ?r)"
    "set (?l @ ?r) \<subseteq> set held"
    by auto
qed

lemma client_step_accounted:
  assumes "accounted M c"
  shows "\<exists>c'. client_step alloc release null store r c = Inr c' \<and> accounted M c'"
proof -
  obtain s held where c: "c = (s, held)" by (cases c)
  obtain xs where xs: "pool s xs" "distinct held" "set held \<inter> set xs = {}"
      "\<forall>p\<in>set held. valid s p" "mset held + mset xs = M"
    using assms by (auto simp: accounted_def c)
  show ?thesis
  proof (cases r)
    case Alloc
    show ?thesis
    proof (cases xs)
      case Nil
      then show ?thesis using assms xs by (auto simp: Alloc c alloc_none)
    next
      case (Cons x ys)
      obtain s' where s': "alloc s = (x, s')" "pool s' ys" "valid s' = valid s"
        using alloc_some xs(1) Cons by blast
      have x: "x \<noteq> null" "valid s x" "x \<notin> set ys"
        using pool_ok [OF xs(1)] Cons by auto
      have "accounted M (s', x # held)"
        unfolding accounted_def by (rule exI [of _ ys]) (use s' x xs Cons in auto)
      then show ?thesis by (simp add: Alloc c s'(1) x(1))
    qed
  next
    case (Release i)
    show ?thesis
    proof (cases "i < length held")
      case True
      have "held ! i \<in> set held" using True by simp
      then obtain s' where s': "release (held ! i) s = Inr s'" "pool s' (held ! i # xs)"
          "valid s' = valid s"
        using release_ok [OF xs(1), of "held ! i"] xs by blast
      have "accounted M (s', take i held @ drop (Suc i) held)"
        unfolding accounted_def
        by (rule exI [of _ "held ! i # xs"])
           (use s' xs remove_nth [OF True xs(2)] \<open>held ! i \<in> set held\<close> in auto)
      then show ?thesis by (simp add: Release c True s'(1))
    next
      case False
      then show ?thesis using assms by (simp add: Release c)
    qed
  next
    case (Store i k v)
    show ?thesis
    proof (cases "i < length held")
      case True
      then have "held ! i \<in> set held" by simp
      then have "pool (store (held ! i) k v s) xs \<and> valid (store (held ! i) k v s) = valid s"
        using xs by (intro store_ok) auto
      then have "accounted M (store (held ! i) k v s, held)"
        unfolding accounted_def by (intro exI [of _ xs]) (use xs in auto)
      then show ?thesis by (simp add: Store c True)
    next
      case False
      then show ?thesis using assms by (simp add: Store c)
    qed
  qed
qed

lemma client_run_accounted:
  "accounted M c \<Longrightarrow> \<exists>c'. client_run alloc release null store rs c = Inr c' \<and> accounted M c'"
proof (induction rs arbitrary: c)
  case (Cons r rs)
  obtain c1 where "client_step alloc release null store r c = Inr c1" "accounted M c1"
    using client_step_accounted [OF Cons.prems] by blast
  with Cons.IH show ?case by simp
qed auto

end

text \<open>The allocator of \<^verbatim>\<open>kalloc.c\<close> keeps the contract.\<close>

definition poke :: "u32 \<Rightarrow> nat \<Rightarrow> u8 \<Rightarrow> kmem \<Rightarrow> kmem" where
  "poke p k c s = s\<lparr>pmem := (pmem s)(p + of_nat (k mod 4096) := c)\<rparr>"

lemma poke_free_pages:
  assumes "free_pages s xs" "page_ok s p" "p \<notin> set xs"
  shows "free_pages (poke p k c s) xs"
proof -
  have "PGROUNDDOWN (p + of_nat (k mod 4096)) = p"
    using assms(2) by (intro PGROUNDDOWN_add) (auto simp: page_ok_def unat_of_nat)
  then have "rd32 (pmem (poke p k c s)) x = rd32 (pmem s) x" if "x \<in> set xs" for x
    using that assms by (intro rd32_page_cong0) (auto simp: poke_def free_pages_def page_ok_def)
  then show ?thesis
    using assms(1) run_list_cong [of xs "pmem (poke p k c s)" "pmem s"]
    by (auto simp: free_pages_def poke_def page_ok_def)
qed

interpretation kalloc_pool: page_allocator kalloc kfree 0 poke free_pages page_ok
proof unfold_locales
  fix s xs v
  assume a: "free_pages s xs" "page_ok s v" "v \<notin> set xs"
  obtain s' where s': "kfree v s = Inr s'"
    using kfree_Inr [OF a(2)] by blast
  moreover have "page_ok s' = page_ok s"
    using kfree_Inr [OF a(2)] s' by (auto simp: page_ok_def fun_eq_iff)
  ultimately show "\<exists>s'. kfree v s = Inr s' \<and> free_pages s' (v # xs) \<and> page_ok s' = page_ok s"
    using kfree_push [OF a s'] by blast
next
  fix s xs v k c
  assume "free_pages s xs" "page_ok s v" "v \<notin> set xs"
  then show "free_pages (poke v k c s) xs \<and> page_ok (poke v k c s) = page_ok s"
    by (intro conjI poke_free_pages) (auto simp: poke_def page_ok_def fun_eq_iff)
next
  fix s xs
  assume "free_pages s xs"
  then show "distinct xs \<and> (\<forall>x\<in>set xs. page_ok s x \<and> x \<noteq> 0)"
    using page_ok_nonzero by (auto simp: free_pages_def)
qed (auto simp: kalloc_empty kalloc_pop page_ok_def fun_eq_iff)

section \<open>Properties\<close>

text \<open>The pages between two addresses, lowest first.\<close>

definition pages_from :: "u32 \<Rightarrow> nat \<Rightarrow> u32 list" where
  "pages_from a n = map (\<lambda>i. a + of_nat i * PGSIZE) [0..<n]"

lemma pages_from_Suc: "pages_from a (Suc n) = a # pages_from (a + PGSIZE) n"
  unfolding pages_from_def upt_conv_Cons_Cons [symmetric]
  by (simp add: upt_rec [of 0] map_Suc_upt [symmetric] algebra_simps del: upt_Suc)

lemma freerange_loop_pages:
  assumes "free_pages s xs" "pg_aligned p" "kern_end s \<le> p" "KERNBASE \<le> p"
    "unat p \<le> 0x8E000000" "unat vend \<le> 0x8E000000" "n = (unat vend - unat p) div 4096"
    "\<forall>x\<in>set xs. x < p"
  shows "\<exists>s'. freerange_loop p vend s = Inr s' \<and> free_pages s' (rev (pages_from p n) @ xs)"
  using assms
proof (induction n arbitrary: p s xs)
  case 0
  have "\<not> p + PGSIZE \<le> vend"
  proof
    assume "p + PGSIZE \<le> vend"
    moreover have "unat (p + PGSIZE) = unat p + 4096"
      using "0.prems"(5) by (simp add: PGSIZE_def unat_add_no_wrap)
    ultimately show False using "0.prems" by (simp add: word_le_nat_alt)
  qed
  then show ?case
    using "0.prems" by (simp add: freerange_loop.simps pages_from_def)
next
  case (Suc n)
  then have room: "unat p + 4096 \<le> unat vend" by simp
  then have step: "unat (p + PGSIZE) = unat p + 4096"
    using Suc.prems(6) by (simp add: PGSIZE_def unat_add_no_wrap)
  have ok: "page_ok s p"
    using Suc.prems room by (simp add: page_ok_def)
  obtain s1 where s1: "kfree p s = Inr s1" using kfree_Inr [OF ok] by blast
  have "free_pages s1 (p # xs)"
    using Suc.prems ok s1 by (intro kfree_push) auto
  moreover have "kern_end s1 = kern_end s"
    using s1 kfree_Inr [OF ok] by auto
  moreover have up: "p < p + PGSIZE" "unat (p + PGSIZE) \<le> 0x8E000000"
      "n = (unat vend - unat (p + PGSIZE)) div 4096"
    using step room Suc.prems(6,7) by (simp_all add: word_less_nat_alt)
  moreover have "kern_end s \<le> p + PGSIZE" "KERNBASE \<le> p + PGSIZE" "\<forall>x\<in>set xs. x < p + PGSIZE"
    using up(1) Suc.prems(3,4,8) by auto
  ultimately obtain s' where s': "freerange_loop (p + PGSIZE) vend s1 = Inr s'"
      "free_pages s' (rev (pages_from (p + PGSIZE) n) @ p # xs)"
    using Suc.IH [of s1 "p # xs" "p + PGSIZE"] Suc.prems(2,3,4,6,8)
    by (auto simp: pg_aligned_add_PGSIZE)
  have "p + PGSIZE \<le> vend" using step room by (simp add: word_le_nat_alt)
  then have "freerange_loop p vend s = Inr s'"
    using s1 s'(1) by (simp add: freerange_loop.simps [of p])
  then show ?case using s'(2) by (auto simp: pages_from_Suc)
qed

text \<open>
  C3: whatever sequence of requests a client of the page allocator makes (asking for pages,
  giving back pages it holds, writing any bytes into pages it holds), no request panics, no
  page is ever handed out twice or lost, and the free list in memory stays a proper list:
  the pages held and the pages on the list are distinct and are together the pages that
  were there at the start.
\<close>

theorem kalloc_no_page_lost:
  assumes "free_pages s xs" "distinct held" "set held \<inter> set xs = {}" "\<forall>p\<in>set held. page_ok s p"
  shows "\<exists>s' held' xs'. client_run kalloc kfree 0 poke rs (s, held) = Inr (s', held') \<and>
    free_pages s' xs' \<and> distinct held' \<and> set held' \<inter> set xs' = {} \<and>
    mset held' + mset xs' = mset held + mset xs"
proof -
  have "kalloc_pool.accounted (mset held + mset xs) (s, held)"
    using assms by (auto simp: kalloc_pool.accounted_def)
  from kalloc_pool.client_run_accounted [OF this, of rs] obtain c' where
    c': "client_run kalloc kfree 0 poke rs (s, held) = Inr c'"
      "kalloc_pool.accounted (mset held + mset xs) c'" by blast
  from c'(2) obtain xs' where "free_pages (fst c') xs'" "distinct (snd c')"
      "set (snd c') \<inter> set xs' = {}" "mset (snd c') + mset xs' = mset held + mset xs"
    unfolding kalloc_pool.accounted_def by blast
  with c'(1) show ?thesis by (metis prod.collapse)
qed

text \<open>
  C34: \<^verbatim>\<open>freerange\<close> (and so \<^verbatim>\<open>kinit1\<close> and \<^verbatim>\<open>kinit2\<close>) terminates without a panic on a range of
  physical memory above the kernel and puts on the free list exactly the whole pages of the
  range, the highest first.
\<close>

theorem freerange_lists_pages:
  assumes "free_pages s xs" "kern_end s \<le> vstart" "KERNBASE \<le> vstart" "vstart \<le> vend"
    "unat vend \<le> 0x8E000000" "\<forall>x\<in>set xs. x < vstart"
  shows "\<exists>s'. freerange vstart vend s = Inr s' \<and>
    free_pages s' (rev (pages_from (PGROUNDUP vstart)
      ((unat vend - unat (PGROUNDUP vstart)) div 4096)) @ xs)"
proof -
  have v: "unat vstart \<le> unat vend" using assms(4) by (simp add: word_le_nat_alt)
  have up: "unat (PGROUNDUP vstart) = (unat vstart + 4095) div 4096 * 4096"
    using v assms(5) by (intro unat_PGROUNDUP) simp
  then have "unat vstart \<le> unat (PGROUNDUP vstart)"
    using div_mult_mod_eq [of "unat vstart + 4095" 4096] mod_less_divisor [of 4096 "unat vstart + 4095"]
    by linarith
  moreover have "unat (PGROUNDUP vstart) \<le> 0x8E000000"
  proof -
    have "(unat vstart + 4095) div 4096 \<le> (0x8E000000 + 4095) div 4096"
      using v assms(5) by (intro div_le_mono) simp
    then show ?thesis using up by simp
  qed
  ultimately show ?thesis
    unfolding freerange_def using assms
    by (intro freerange_loop_pages) (auto simp: word_le_nat_alt word_less_nat_alt)
qed

text \<open>
  C40: \<^verbatim>\<open>kfree\<close> does not detect a double free. Freeing the same page twice in a row succeeds
  both times and leaves a free list that is no list at all: the page's \<^verbatim>\<open>next\<close> pointer points
  to the page itself, so \<^verbatim>\<open>kalloc\<close> returns this one page for ever.
\<close>

theorem kfree_double_free:
  assumes "page_ok s v"
  shows "\<exists>s1 s2. kfree v s = Inr s1 \<and> kfree v s1 = Inr s2 \<and>
    (\<forall>xs. \<not> free_pages s2 xs) \<and> kalloc s2 = (v, s2)"
proof -
  obtain s1 where s1: "kfree v s = Inr s1" using kfree_Inr [OF assms] by blast
  have ok1: "page_ok s1 v"
    using assms kfree_Inr [OF assms] s1 by (auto simp: page_ok_def)
  obtain s2 where s2: "kfree v s1 = Inr s2" using kfree_Inr [OF ok1] by blast
  note f = kfree_twice_pmem [OF assms s1 s2]
  have "\<not> free_pages s2 xs" for xs
    using run_list_no_cycle [OF f(2) page_ok_nonzero [OF assms]] f(1) by (simp add: free_pages_def)
  moreover have "kalloc s2 = (v, s2)"
    using f page_ok_nonzero [OF assms] by (simp add: kalloc_def)
  ultimately show ?thesis using s1 s2 by blast
qed

section \<open>Witnesses\<close>

text \<open>A small machine: kernel image up to \<open>0x80100000\<close>, nothing on the free list yet.\<close>

definition kmem0 :: kmem where
  "kmem0 = \<lparr>pmem = (\<lambda>_. 0), freelist = 0, use_lock = False, kern_end = 0x80100000,
     kern_data = 0x80108000\<rparr>"

lemma kmem0_free_pages: "free_pages kmem0 []"
  by (simp add: free_pages_def kmem0_def)

lemma kmem0_page_ok: "page_ok kmem0 0x80101000" "page_ok kmem0 0x80102000"
  by (simp_all add: page_ok_def kmem0_def pg_aligned_def KERNBASE_def)

theorem kalloc_no_page_lost_witness:
  "\<exists>s' held' xs'. client_run kalloc kfree 0 poke [Release 0, Alloc, Store 0 5 7, Alloc]
      (kmem0, [0x80101000, 0x80102000]) = Inr (s', held') \<and>
    free_pages s' xs' \<and> distinct held' \<and> set held' \<inter> set xs' = {} \<and>
    mset held' + mset xs' = mset [0x80101000, 0x80102000] + mset []"
  by (rule kalloc_no_page_lost [OF kmem0_free_pages]) (simp_all add: kmem0_page_ok)

theorem freerange_lists_pages_witness:
  "\<exists>s'. freerange 0x80100800 0x80103000 kmem0 = Inr s' \<and>
    free_pages s' (rev (pages_from (PGROUNDUP 0x80100800)
      ((unat (0x80103000 :: u32) - unat (PGROUNDUP 0x80100800)) div 4096)) @ [])"
  by (rule freerange_lists_pages [OF kmem0_free_pages]) (simp_all add: kmem0_def KERNBASE_def)

theorem kfree_double_free_witness:
  "\<exists>s1 s2. kfree 0x80101000 kmem0 = Inr s1 \<and> kfree 0x80101000 s1 = Inr s2 \<and>
    (\<forall>xs. \<not> free_pages s2 xs) \<and> kalloc s2 = (0x80101000, s2)"
  by (rule kfree_double_free [OF kmem0_page_ok(1)])

end
