(* ===== verification/Vm.thy ===== *)
theory Vm
  imports Kalloc
begin

text \<open>
  Page tables, \<^verbatim>\<open>vm.c\<close>. A page directory and its page-table pages are pages of the byte
  memory; every entry is read and written there with \<open>rd32\<close> and \<open>wr32\<close>. The null pointer
  is 0. Loading \<^verbatim>\<open>cr3\<close> and the segment registers (\<^verbatim>\<open>seginit\<close>, \<^verbatim>\<open>switchkvm\<close>, \<^verbatim>\<open>switchuvm\<close>)
  has no effect on this state and is left out. Loops over the address space carry fuel for
  one pass over it; the lemmas show where it suffices, and a loop that outruns it has
  wrapped around and repeats itself (\<open>Diverges\<close>).
\<close>

section \<open>Operations\<close>

definition walkpgdir :: "u32 \<Rightarrow> u32 \<Rightarrow> bool \<Rightarrow> kmem \<Rightarrow> u32 \<times> kmem" where
  "walkpgdir pgdir va alloc s =
     (let pde = pgdir + 4 * PDX va in
      if rd32 (pmem s) pde AND PTE_P \<noteq> 0
      then (P2V (PTE_ADDR (rd32 (pmem s) pde)) + 4 * PTX va, s)
      else if \<not> alloc then (0, s)
      else case kalloc s of (pgtab, s) \<Rightarrow>
        if pgtab = 0 then (0, s)
        else let m = memset (pmem s) pgtab 0 PGSIZE;
                 m = wr32 m pde (V2P pgtab OR PTE_P OR PTE_W OR PTE_U)
             in (pgtab + 4 * PTX va, s\<lparr>pmem := m\<rparr>))"

fun mappages_loop :: "nat \<Rightarrow> u32 \<Rightarrow> u32 \<Rightarrow> u32 \<Rightarrow> u32 \<Rightarrow> u32 \<Rightarrow> kmem \<Rightarrow> (int \<times> kmem) res" where
  "mappages_loop 0 pgdir a lst pa perm s = Inl Diverges"
| "mappages_loop (Suc fuel) pgdir a lst pa perm s =
     (case walkpgdir pgdir a True s of (pte, s) \<Rightarrow>
        if pte = 0 then Inr (-1, s)
        else if rd32 (pmem s) pte AND PTE_P \<noteq> 0 then Inl (Panic ''remap'')
        else let s = s\<lparr>pmem := wr32 (pmem s) pte (pa OR perm OR PTE_P)\<rparr>
             in if a = lst then Inr (0, s)
                else mappages_loop fuel pgdir (a + PGSIZE) lst (pa + PGSIZE) perm s)"

definition mappages :: "u32 \<Rightarrow> u32 \<Rightarrow> u32 \<Rightarrow> u32 \<Rightarrow> u32 \<Rightarrow> kmem \<Rightarrow> (int \<times> kmem) res" where
  "mappages pgdir va sz pa perm s =
     (let a = PGROUNDDOWN va; lst = PGROUNDDOWN (va + sz - 1)
      in mappages_loop (Suc (unat ((lst - a) div PGSIZE))) pgdir a lst pa perm s)"

fun deallocuvm_loop :: "nat \<Rightarrow> u32 \<Rightarrow> u32 \<Rightarrow> u32 \<Rightarrow> kmem \<Rightarrow> kmem res" where
  "deallocuvm_loop 0 pgdir a oldsz s = (if a < oldsz then Inl Diverges else Inr s)"
| "deallocuvm_loop (Suc fuel) pgdir a oldsz s =
     (if a < oldsz then
        (case walkpgdir pgdir a False s of (pte, s) \<Rightarrow>
           if pte = 0 then deallocuvm_loop fuel pgdir (PGADDR (PDX a + 1) 0 0 - PGSIZE + PGSIZE) oldsz s
           else if rd32 (pmem s) pte AND PTE_P \<noteq> 0 then
             (let pa = PTE_ADDR (rd32 (pmem s) pte) in
              if pa = 0 then Inl (Panic ''kfree'')
              else bindr (kfree (P2V pa) s) (\<lambda>s.
                deallocuvm_loop fuel pgdir (a + PGSIZE) oldsz (s\<lparr>pmem := wr32 (pmem s) pte 0\<rparr>)))
           else deallocuvm_loop fuel pgdir (a + PGSIZE) oldsz s)
      else Inr s)"

definition deallocuvm :: "u32 \<Rightarrow> u32 \<Rightarrow> u32 \<Rightarrow> kmem \<Rightarrow> (u32 \<times> kmem) res" where
  "deallocuvm pgdir oldsz newsz s =
     (if oldsz \<le> newsz then Inr (oldsz, s)
      else bindr (deallocuvm_loop (Suc (unat (oldsz div PGSIZE))) pgdir (PGROUNDUP newsz) oldsz s)
        (\<lambda>s. Inr (newsz, s)))"

fun allocuvm_loop :: "nat \<Rightarrow> u32 \<Rightarrow> u32 \<Rightarrow> u32 \<Rightarrow> u32 \<Rightarrow> kmem \<Rightarrow> (u32 \<times> kmem) res" where
  "allocuvm_loop 0 pgdir a oldsz newsz s = (if a < newsz then Inl Diverges else Inr (newsz, s))"
| "allocuvm_loop (Suc fuel) pgdir a oldsz newsz s =
     (if a < newsz then
        (case kalloc s of (mem, s) \<Rightarrow>
           if mem = 0 then bindr (deallocuvm pgdir newsz oldsz s) (\<lambda>(_, s). Inr (0, s))
           else let s = s\<lparr>pmem := memset (pmem s) mem 0 PGSIZE\<rparr> in
             bindr (mappages pgdir a PGSIZE (V2P mem) (PTE_W OR PTE_U) s) (\<lambda>(r, s).
               if r < 0 then
                 bindr (deallocuvm pgdir newsz oldsz s) (\<lambda>(_, s).
                 bindr (kfree mem s) (\<lambda>s. Inr (0, s)))
               else allocuvm_loop fuel pgdir (a + PGSIZE) oldsz newsz s))
      else Inr (newsz, s))"

definition allocuvm :: "u32 \<Rightarrow> u32 \<Rightarrow> u32 \<Rightarrow> kmem \<Rightarrow> (u32 \<times> kmem) res" where
  "allocuvm pgdir oldsz newsz s =
     (if KERNBASE \<le> newsz then Inr (0, s)
      else if newsz < oldsz then Inr (oldsz, s)
      else allocuvm_loop (Suc (unat (newsz div PGSIZE))) pgdir (PGROUNDUP oldsz) oldsz newsz s)"

text \<open>\<^verbatim>\<open>freevm\<close>: the loop over the page-directory entries from \<open>i\<close>, then the whole.\<close>

fun freevm_tables :: "u32 \<Rightarrow> u32 list \<Rightarrow> kmem \<Rightarrow> kmem res" where
  "freevm_tables pgdir [] s = Inr s"
| "freevm_tables pgdir (i # is) s =
     (let pde = rd32 (pmem s) (pgdir + 4 * i) in
      if pde AND PTE_P \<noteq> 0
      then bindr (kfree (P2V (PTE_ADDR pde)) s) (freevm_tables pgdir is)
      else freevm_tables pgdir is s)"

definition freevm :: "u32 \<Rightarrow> kmem \<Rightarrow> kmem res" where
  "freevm pgdir s =
     (if pgdir = 0 then Inl (Panic ''freevm: no pgdir'')
      else bindr (deallocuvm pgdir KERNBASE 0 s) (\<lambda>(_, s).
           bindr (freevm_tables pgdir (map of_nat [0..<NPDENTRIES]) s) (\<lambda>s.
           kfree pgdir s)))"

text \<open>The table \<^verbatim>\<open>kmap\<close>: virtual start, physical start and end, permissions.\<close>

record kmap =
  virt :: u32
  phys_start :: u32
  phys_end :: u32
  kperm :: u32

definition kmap_table :: "kmem \<Rightarrow> kmap list" where
  "kmap_table s =
     [\<lparr>virt = KERNBASE, phys_start = 0, phys_end = EXTMEM, kperm = PTE_W\<rparr>,
      \<lparr>virt = KERNLINK, phys_start = V2P KERNLINK, phys_end = V2P (kern_data s), kperm = 0\<rparr>,
      \<lparr>virt = kern_data s, phys_start = V2P (kern_data s), phys_end = PHYSTOP, kperm = PTE_W\<rparr>,
      \<lparr>virt = DEVSPACE, phys_start = DEVSPACE, phys_end = 0, kperm = PTE_W\<rparr>]"

fun setupkvm_loop :: "u32 \<Rightarrow> kmap list \<Rightarrow> kmem \<Rightarrow> (u32 \<times> kmem) res" where
  "setupkvm_loop pgdir [] s = Inr (pgdir, s)"
| "setupkvm_loop pgdir (k # ks) s =
     bindr (mappages pgdir (virt k) (phys_end k - phys_start k) (phys_start k) (kperm k) s) (\<lambda>(r, s).
       if r < 0 then bindr (freevm pgdir s) (\<lambda>s. Inr (0, s))
       else setupkvm_loop pgdir ks s)"

definition setupkvm :: "kmem \<Rightarrow> (u32 \<times> kmem) res" where
  "setupkvm s =
     (case kalloc s of (pgdir, s) \<Rightarrow>
        if pgdir = 0 then Inr (0, s)
        else let s = s\<lparr>pmem := memset (pmem s) pgdir 0 PGSIZE\<rparr> in
          if DEVSPACE < P2V PHYSTOP then Inl (Panic ''PHYSTOP too high'')
          else setupkvm_loop pgdir (kmap_table s) s)"

text \<open>\<^verbatim>\<open>inituvm\<close>: neither the result of \<^verbatim>\<open>kalloc\<close> nor that of \<^verbatim>\<open>mappages\<close> is tested.\<close>

definition inituvm :: "u32 \<Rightarrow> u32 \<Rightarrow> u32 \<Rightarrow> kmem \<Rightarrow> kmem res" where
  "inituvm pgdir init sz s =
     (if PGSIZE \<le> sz then Inl (Panic ''inituvm: more than a page'')
      else case kalloc s of (mem, s) \<Rightarrow>
        if mem = 0 then Inl NullDeref
        else let s = s\<lparr>pmem := memset (pmem s) mem 0 PGSIZE\<rparr> in
          bindr (mappages pgdir 0 PGSIZE (V2P mem) (PTE_W OR PTE_U) s) (\<lambda>(_, s).
            Inr (s\<lparr>pmem := memmove (pmem s) mem init sz\<rparr>)))"

definition clearpteu :: "u32 \<Rightarrow> u32 \<Rightarrow> kmem \<Rightarrow> kmem res" where
  "clearpteu pgdir uva s =
     (case walkpgdir pgdir uva False s of (pte, s) \<Rightarrow>
        if pte = 0 then Inl (Panic ''clearpteu'')
        else Inr (s\<lparr>pmem := wr32 (pmem s) pte (rd32 (pmem s) pte AND NOT PTE_U)\<rparr>))"

text \<open>\<^verbatim>\<open>copyuvm\<close>; its message to the console is left out.\<close>

fun copyuvm_loop :: "nat \<Rightarrow> u32 \<Rightarrow> u32 \<Rightarrow> u32 \<Rightarrow> u32 \<Rightarrow> kmem \<Rightarrow> (u32 \<times> kmem) res" where
  "copyuvm_loop 0 pgdir d i sz s = (if i < sz then Inl Diverges else Inr (d, s))"
| "copyuvm_loop (Suc fuel) pgdir d i sz s =
     (if i < sz then
        (case walkpgdir pgdir i False s of (pte, s) \<Rightarrow>
           if pte = 0 then Inl (Panic ''copyuvm: pte should exist'')
           else if rd32 (pmem s) pte AND PTE_P = 0 then Inl (Panic ''copyuvm: page not present'')
           else let pa = PTE_ADDR (rd32 (pmem s) pte);
                    flags = PTE_FLAGS (rd32 (pmem s) pte) AND NOT PTE_W
                in case kalloc s of (mem, s) \<Rightarrow>
                  if mem = 0 then bindr (freevm d s) (\<lambda>s. Inr (0, s))
                  else let s = s\<lparr>pmem := memmove (pmem s) mem (P2V pa) PGSIZE\<rparr> in
                    bindr (mappages d i PGSIZE (V2P mem) flags s) (\<lambda>(r, s).
                      if r < 0 then bindr (kfree mem s) (\<lambda>s. bindr (freevm d s) (\<lambda>s. Inr (0, s)))
                      else copyuvm_loop fuel pgdir d (i + PGSIZE) sz s))
      else Inr (d, s))"

definition copyuvm :: "u32 \<Rightarrow> u32 \<Rightarrow> kmem \<Rightarrow> (u32 \<times> kmem) res" where
  "copyuvm pgdir sz s =
     bindr (setupkvm s) (\<lambda>(d, s).
       if d = 0 then Inr (0, s) else copyuvm_loop (Suc (unat (sz div PGSIZE))) pgdir d 0 sz s)"

fun forkuvm_loop :: "nat \<Rightarrow> u32 \<Rightarrow> u32 \<Rightarrow> u32 \<Rightarrow> u32 \<Rightarrow> kmem \<Rightarrow> (u32 \<times> kmem) res" where
  "forkuvm_loop 0 pgdir d i sz s = (if i < sz then Inl Diverges else Inr (d, s))"
| "forkuvm_loop (Suc fuel) pgdir d i sz s =
     (if i < sz then
        (case walkpgdir pgdir i False s of (pte, s) \<Rightarrow>
           if pte = 0 then Inl (Panic ''forkuvm: pte should exist'')
           else if rd32 (pmem s) pte AND PTE_P = 0 then Inl (Panic ''forkuvm: page not present'')
           else let pa = PTE_ADDR (rd32 (pmem s) pte);
                    flags = PTE_FLAGS (rd32 (pmem s) pte) AND NOT PTE_W
                in bindr (mappages d i PGSIZE pa flags s) (\<lambda>(r, s).
                     if r < 0 then bindr (freevm d s) (\<lambda>s. Inr (0, s))
                     else forkuvm_loop fuel pgdir d (i + PGSIZE) sz s))
      else Inr (d, s))"

definition forkuvm :: "u32 \<Rightarrow> u32 \<Rightarrow> kmem \<Rightarrow> (u32 \<times> kmem) res" where
  "forkuvm pgdir sz s =
     bindr (setupkvm s) (\<lambda>(d, s).
       if d = 0 then Inr (0, s) else forkuvm_loop (Suc (unat (sz div PGSIZE))) pgdir d 0 sz s)"

text \<open>\<^verbatim>\<open>uva2ka\<close> reads \<^verbatim>\<open>*pte\<close> without testing the pointer.\<close>

definition uva2ka :: "u32 \<Rightarrow> u32 \<Rightarrow> kmem \<Rightarrow> u32 res" where
  "uva2ka pgdir uva s =
     (case walkpgdir pgdir uva False s of (pte, s) \<Rightarrow>
        if pte = 0 then Inl NullDeref
        else let e = rd32 (pmem s) pte in
          if e AND PTE_P = 0 then Inr 0
          else if e AND PTE_U = 0 then Inr 0
          else Inr (P2V (PTE_ADDR e)))"

text \<open>\<^verbatim>\<open>copyout\<close>, a page at a time.\<close>

definition copyout_n :: "u32 \<Rightarrow> u32 \<Rightarrow> u32" where
  "copyout_n va len = (let n = PGSIZE - (va - PGROUNDDOWN va) in if len < n then len else n)"

lemma copyout_n_pos:
  assumes "0 < len"
  shows "0 < copyout_n va len \<and> copyout_n va len \<le> len"
proof -
  have "unat (va - PGROUNDDOWN va) < 4096"
    using in_range_page [of "PGROUNDDOWN va" va] by (simp add: in_range_def)
  then have "va - PGROUNDDOWN va < PGSIZE"
    by (simp add: PGSIZE_def word_less_nat_alt)
  then have "0 < PGSIZE - (va - PGROUNDDOWN va)"
    by (simp add: word_less_nat_alt unat_sub order.strict_implies_order)
  then show ?thesis using assms by (auto simp: copyout_n_def Let_def)
qed

function copyout :: "u32 \<Rightarrow> u32 \<Rightarrow> u32 \<Rightarrow> u32 \<Rightarrow> kmem \<Rightarrow> (int \<times> kmem) res" where
  "copyout pgdir va buf len s =
     (if 0 < len then
        let va0 = PGROUNDDOWN va; n = copyout_n va len in
        bindr (uva2ka pgdir va0 s) (\<lambda>pa0.
          if pa0 = 0 then Inr (-1, s)
          else copyout pgdir (va0 + PGSIZE) (buf + n) (len - n)
                 (s\<lparr>pmem := memmove (pmem s) (pa0 + (va - va0)) buf n\<rparr>))
      else Inr (0, s))"
  by pat_completeness auto
termination
proof (relation "measure (\<lambda>(pgdir, va, buf, len, s). unat len)", goal_cases)
  case (2 pgdir va buf len s va0 n pa0)
  then show ?case using copyout_n_pos [of len va] by (simp add: word_less_nat_alt unat_sub)
qed simp

declare copyout.simps [simp del]

end
