(* ===== verification/Kstate.thy ===== *)
theory Kstate
  imports Fs Pipe Vm
begin

text \<open>
  The state of the whole kernel, as the system calls see it: the storage stack of the file
  system, physical memory, the open file table, the process table and the console. Objects in
  pages from \<^verbatim>\<open>kalloc\<close> (kernel stacks, trap frames, pipes, nodes of the mapping list, page tables)
  are bytes of \<open>pmem\<close>; statically allocated tables are fields of the record. The model runs one
  processor; \<open>cur\<close> is the process it runs.
\<close>

section \<open>Processes (proc.h)\<close>

datatype procstate = UNUSED | EMBRYO | SLEEPING | RUNNABLE | RUNNING | ZOMBIE

text \<open>
  Sleep channels are addresses of kernel objects; the model names the object.
\<close>

datatype chan =
    ChProc nat
  | ChTicks
  | ChInput
  | ChNread u32
  | ChNwrite u32

record proc =
  p_sz :: u32
  p_pgdir :: u32
  p_kstack :: u32
  p_state :: procstate
  p_pid :: int
  p_parent :: "nat option"
  p_tf :: u32
  p_context :: u32
  p_chan :: "chan option"
  p_killed :: bool
  p_ofile :: "nat \<Rightarrow> nat option"
  p_cwd :: "nat option"
  p_name :: "nat \<Rightarrow> u8"
  n_upages :: u32
  p_va :: "nat \<Rightarrow> u32"
  p_pa :: "nat \<Rightarrow> u32"
  p_head :: u32
  p_tail :: u32

section \<open>Open files (file.h)\<close>

datatype ftype = FD_NONE | FD_PIPE | FD_INODE

record file_t =
  f_type :: ftype
  f_ref :: int
  f_readable :: bool
  f_writable :: bool
  f_pipe :: u32
  f_ip :: nat
  f_off :: u32

section \<open>Console input (console.c)\<close>

record input =
  in_buf :: "nat \<Rightarrow> u8"
  in_r :: u32
  in_w :: u32
  in_e :: u32

text \<open>The CGA display: the cursor in the controller's registers and the character memory.\<close>

record cga =
  cga_pos :: int
  crt :: "nat \<Rightarrow> u16"

section \<open>The kernel\<close>

text \<open>
  \<open>consout\<close> is the sequence of characters sent to the serial port so far, \<open>cr3\<close> the page directory
  in use, \<open>forkret_pc\<close> and \<open>trapret_pc\<close> the addresses of these two routines.
\<close>

record kst = fsst +
  km :: kmem
  ftable :: "nat \<Rightarrow> file_t"
  ptable :: "nat \<Rightarrow> proc"
  cur :: "nat option"
  nextpid :: int
  initproc :: nat
  ticks :: u32
  cons_input :: input
  consout :: "u8 list"
  screen :: cga
  cr3 :: u32
  kpgdir :: u32
  forkret_pc :: u32
  trapret_pc :: u32

definition upd_km :: "(kmem \<Rightarrow> kmem) \<Rightarrow> 'a kst_scheme \<Rightarrow> 'a kst_scheme" where
  "upd_km f s = s\<lparr>km := f (km s)\<rparr>"

definition upd_pmem :: "(mem \<Rightarrow> mem) \<Rightarrow> 'a kst_scheme \<Rightarrow> 'a kst_scheme" where
  "upd_pmem f s = upd_km (\<lambda>k. k\<lparr>pmem := f (pmem k)\<rparr>) s"

definition upd_proc :: "nat \<Rightarrow> (proc \<Rightarrow> proc) \<Rightarrow> 'a kst_scheme \<Rightarrow> 'a kst_scheme" where
  "upd_proc p f s = s\<lparr>ptable := (ptable s)(p := f (ptable s p))\<rparr>"

definition upd_file :: "nat \<Rightarrow> (file_t \<Rightarrow> file_t) \<Rightarrow> 'a kst_scheme \<Rightarrow> 'a kst_scheme" where
  "upd_file f g s = s\<lparr>ftable := (ftable s)(f := g (ftable s f))\<rparr>"

text \<open>Running an operation of the memory allocator or of \<^verbatim>\<open>vm.c\<close> on the kernel state.\<close>

definition in_km :: "(kmem \<Rightarrow> ('r \<times> kmem) res) \<Rightarrow> 'a kst_scheme \<Rightarrow> ('r \<times> 'a kst_scheme) res" where
  "in_km f s = bindr (f (km s)) (\<lambda>(r, k). Inr (r, s\<lparr>km := k\<rparr>))"

definition kalloc_s :: "'a kst_scheme \<Rightarrow> u32 \<times> 'a kst_scheme" where
  "kalloc_s s = (case kalloc (km s) of (v, k) \<Rightarrow> (v, s\<lparr>km := k\<rparr>))"

definition kfree_s :: "u32 \<Rightarrow> 'a kst_scheme \<Rightarrow> 'a kst_scheme res" where
  "kfree_s v s = bindr (kfree v (km s)) (\<lambda>k. Inr (s\<lparr>km := k\<rparr>))"

text \<open>The \<^verbatim>\<open>myproc()\<close> that the caller dereferences.\<close>

definition myproc :: "'a kst_scheme \<Rightarrow> nat res" where
  "myproc s = (case cur s of None \<Rightarrow> Inl NullDeref | Some p \<Rightarrow> Inr p)"

text \<open>
  \<^verbatim>\<open>switchuvm\<close> and \<^verbatim>\<open>switchkvm\<close> of \<^verbatim>\<open>vm.c\<close>; the task state segment is left out.
\<close>

definition switchuvm :: "nat \<Rightarrow> 'a kst_scheme \<Rightarrow> 'a kst_scheme res" where
  "switchuvm p s =
     (if p_kstack (ptable s p) = 0 then Inl (Panic ''switchuvm: no kstack'')
      else if p_pgdir (ptable s p) = 0 then Inl (Panic ''switchuvm: no pgdir'')
      else Inr (s\<lparr>cr3 := V2P (p_pgdir (ptable s p))\<rparr>))"

definition switchkvm :: "'a kst_scheme \<Rightarrow> 'a kst_scheme" where
  "switchkvm s = s\<lparr>cr3 := V2P (kpgdir s)\<rparr>"

section \<open>User memory\<close>

text \<open>
  The kernel reads and writes user memory through the page table of the running process: an
  address below \<^verbatim>\<open>KERNBASE\<close> is translated, and a store needs a writable page because \<^verbatim>\<open>CR0_WP\<close> is
  set. Higher addresses are the kernel's own.
\<close>

definition utrans :: "kmem \<Rightarrow> u32 \<Rightarrow> bool \<Rightarrow> u32 \<Rightarrow> u32 res" where
  "utrans k pgdir wr va =
     (if KERNBASE \<le> va then Inr va
      else case walkpgdir pgdir va False k of (pte, _) \<Rightarrow>
        if pte = 0 then Inl (PageFault va)
        else let e = rd32 (pmem k) pte in
          if e AND PTE_P = 0 \<or> wr \<and> e AND PTE_W = 0 then Inl (PageFault va)
          else Inr (P2V (PTE_ADDR e) + (va AND 0xFFF)))"

definition uread8 :: "kmem \<Rightarrow> u32 \<Rightarrow> u32 \<Rightarrow> u8 res" where
  "uread8 k pgdir va = bindr (utrans k pgdir False va) (\<lambda>a. Inr (pmem k a))"

definition uwrite8 :: "u32 \<Rightarrow> u32 \<Rightarrow> u8 \<Rightarrow> kmem \<Rightarrow> kmem res" where
  "uwrite8 pgdir va c k = bindr (utrans k pgdir True va) (\<lambda>a. Inr (k\<lparr>pmem := (pmem k)(a := c)\<rparr>))"

fun uread :: "kmem \<Rightarrow> u32 \<Rightarrow> u32 \<Rightarrow> nat \<Rightarrow> u8 list res" where
  "uread k pgdir va 0 = Inr []"
| "uread k pgdir va (Suc n) =
     bindr (uread8 k pgdir va) (\<lambda>c. bindr (uread k pgdir (va + 1) n) (\<lambda>cs. Inr (c # cs)))"

fun uwrite :: "u32 \<Rightarrow> u32 \<Rightarrow> u8 list \<Rightarrow> kmem \<Rightarrow> kmem res" where
  "uwrite pgdir va [] k = Inr k"
| "uwrite pgdir va (c # cs) k = bindr (uwrite8 pgdir va c k) (uwrite pgdir (va + 1) cs)"

definition le32 :: "u32 \<Rightarrow> u8 list" where
  "le32 v = [ucast v, ucast (drop_bit 8 v), ucast (drop_bit 16 v), ucast (drop_bit 24 v)]"

definition le16 :: "u16 \<Rightarrow> u8 list" where "le16 v = [ucast v, ucast (drop_bit 8 v)]"

definition bytes_at :: "u8 list \<Rightarrow> nat \<Rightarrow> u8" where
  "bytes_at bs i = (if i < length bs then bs ! i else 0)"

text \<open>The same in the address space of the running process.\<close>

definition cur_pgdir :: "'a kst_scheme \<Rightarrow> u32 res" where
  "cur_pgdir s = bindr (myproc s) (\<lambda>p. Inr (p_pgdir (ptable s p)))"

definition copyin :: "u32 \<Rightarrow> nat \<Rightarrow> 'a kst_scheme \<Rightarrow> u8 list res" where
  "copyin va n s = bindr (cur_pgdir s) (\<lambda>pgdir. uread (km s) pgdir va n)"

definition copyto :: "u32 \<Rightarrow> u8 list \<Rightarrow> 'a kst_scheme \<Rightarrow> 'a kst_scheme res" where
  "copyto va bs s =
     bindr (cur_pgdir s) (\<lambda>pgdir. bindr (uwrite pgdir va bs (km s)) (\<lambda>k. Inr (s\<lparr>km := k\<rparr>)))"

section \<open>Trap frames (x86.h)\<close>

text \<open>Offsets in \<^verbatim>\<open>struct trapframe\<close>, which is 76 bytes long.\<close>

definition tf_eax :: u32 where [layout_defs]: "tf_eax = 28"
definition tf_es :: u32 where [layout_defs]: "tf_es = 40"
definition tf_ds :: u32 where [layout_defs]: "tf_ds = 44"
definition tf_trapno :: u32 where [layout_defs]: "tf_trapno = 48"
definition tf_err :: u32 where [layout_defs]: "tf_err = 52"
definition tf_eip :: u32 where [layout_defs]: "tf_eip = 56"
definition tf_cs :: u32 where [layout_defs]: "tf_cs = 60"
definition tf_eflags :: u32 where [layout_defs]: "tf_eflags = 64"
definition tf_esp :: u32 where [layout_defs]: "tf_esp = 68"
definition tf_ss :: u32 where [layout_defs]: "tf_ss = 72"
definition sizeof_trapframe :: u32 where [layout_defs]: "sizeof_trapframe = 76"
definition sizeof_context :: u32 where [layout_defs]: "sizeof_context = 20"

definition kload :: "u32 \<Rightarrow> 'a kst_scheme \<Rightarrow> u32" where "kload a s = rd32 (pmem (km s)) a"

definition kstore :: "u32 \<Rightarrow> u32 \<Rightarrow> 'a kst_scheme \<Rightarrow> 'a kst_scheme" where
  "kstore a v s = upd_pmem (\<lambda>m. wr32 m a v) s"

definition kstore16 :: "u32 \<Rightarrow> u16 \<Rightarrow> 'a kst_scheme \<Rightarrow> 'a kst_scheme" where
  "kstore16 a v s = upd_pmem (\<lambda>m. wr16 m a v) s"

section \<open>Wake-ups\<close>

text \<open>\<^verbatim>\<open>wakeup1\<close>: every process asleep on the channel becomes runnable.\<close>

definition wakeup1 :: "chan \<Rightarrow> (nat \<Rightarrow> proc) \<Rightarrow> nat \<Rightarrow> proc" where
  "wakeup1 ch pt =
     (\<lambda>p. if p < NPROC \<and> p_state (pt p) = SLEEPING \<and> p_chan (pt p) = Some ch
          then (pt p)\<lparr>p_state := RUNNABLE\<rparr> else pt p)"

definition wakeup :: "chan \<Rightarrow> 'a kst_scheme \<Rightarrow> 'a kst_scheme" where
  "wakeup ch s = s\<lparr>ptable := wakeup1 ch (ptable s)\<rparr>"

end
