(* ===== verification/Spinlock.thy ===== *)
theory Spinlock
  imports Memory
begin

text \<open>
  Spin locks, \<^verbatim>\<open>spinlock.c\<close>, on a machine of several processors. An operation is split at
  the points where another processor may observe it: the atomic \<^verbatim>\<open>xchg\<close> of \<^verbatim>\<open>acquire\<close>,
  the store of \<^verbatim>\<open>lk->cpu\<close> after it, and the two stores of \<^verbatim>\<open>release\<close>. \<open>lock_step\<close>
  interleaves these pieces over all processors. The invariant gives mutual exclusion, that
  \<^verbatim>\<open>holding\<close> is exact, and that a processor inside a critical section has interrupts off.
  The other components take this as given and run each critical section as one step.
\<close>

section \<open>State and operations\<close>

text \<open>
  \<open>fl_if\<close> is the interrupt flag of the processor's own \<^verbatim>\<open>EFLAGS\<close>; the other fields are
  those of \<^verbatim>\<open>struct cpu\<close> that locking uses. Processors are named by their index in \<^verbatim>\<open>cpus[]\<close>.
\<close>

record cpu =
  apicid :: u8
  ncli :: int
  intena :: bool
  fl_if :: bool

record spinlock =
  sl_locked :: u32
  sl_cpu :: "nat option"
  sl_pcs :: "u32 list"

record machine =
  ncpu :: nat
  cpus :: "nat \<Rightarrow> cpu"
  locks :: "nat \<Rightarrow> spinlock"

definition initlock :: "spinlock \<Rightarrow> spinlock" where
  "initlock lk = lk\<lparr>sl_locked := 0, sl_cpu := None\<rparr>"

text \<open>
  \<^verbatim>\<open>mycpu\<close> of \<^verbatim>\<open>proc.c\<close>, run by processor \<open>c\<close>: \<^verbatim>\<open>lapicid()\<close> reads the identifier of the
  processor's own interrupt controller, which the loop looks up in \<^verbatim>\<open>cpus[]\<close>.
\<close>

fun mycpu_loop :: "(nat \<Rightarrow> cpu) \<Rightarrow> u8 \<Rightarrow> nat list \<Rightarrow> nat res" where
  "mycpu_loop cs lapicid [] = Inl (Panic ''unknown apicid'')"
| "mycpu_loop cs lapicid (i # is) =
     (if apicid (cs i) = lapicid then Inr i else mycpu_loop cs lapicid is)"

definition mycpu :: "nat \<Rightarrow> machine \<Rightarrow> nat res" where
  "mycpu c m =
     (if fl_if (cpus m c) then Inl (Panic ''mycpu called with interrupts enabled'')
      else mycpu_loop (cpus m) (apicid (cpus m c)) [0..<ncpu m])"

definition set_cpu :: "nat \<Rightarrow> (cpu \<Rightarrow> cpu) \<Rightarrow> machine \<Rightarrow> machine" where
  "set_cpu i f m = m\<lparr>cpus := (cpus m)(i := f (cpus m i))\<rparr>"

definition set_lock :: "nat \<Rightarrow> (spinlock \<Rightarrow> spinlock) \<Rightarrow> machine \<Rightarrow> machine" where
  "set_lock l f m = m\<lparr>locks := (locks m)(l := f (locks m l))\<rparr>"

definition cli :: "nat \<Rightarrow> machine \<Rightarrow> machine" where
  "cli c m = set_cpu c (fl_if_update (\<lambda>_. False)) m"

definition sti :: "nat \<Rightarrow> machine \<Rightarrow> machine" where
  "sti c m = set_cpu c (fl_if_update (\<lambda>_. True)) m"

definition pushcli :: "nat \<Rightarrow> machine \<Rightarrow> machine res" where
  "pushcli c m =
     (let eflags = fl_if (cpus m c); m = cli c m in
      bindr (mycpu c m) (\<lambda>i.
        let m = (if ncli (cpus m i) = 0 then set_cpu i (intena_update (\<lambda>_. eflags)) m else m) in
        Inr (set_cpu i (ncli_update (\<lambda>n. n + 1)) m)))"

definition popcli :: "nat \<Rightarrow> machine \<Rightarrow> machine res" where
  "popcli c m =
     (if fl_if (cpus m c) then Inl (Panic ''popcli - interruptible'')
      else bindr (mycpu c m) (\<lambda>i.
        let m = set_cpu i (ncli_update (\<lambda>n. n - 1)) m in
        if ncli (cpus m i) < 0 then Inl (Panic ''popcli'')
        else if ncli (cpus m i) = 0 \<and> intena (cpus m i) then Inr (sti c m) else Inr m))"

definition holding :: "nat \<Rightarrow> nat \<Rightarrow> machine \<Rightarrow> (bool \<times> machine) res" where
  "holding c l m =
     bindr (pushcli c m) (\<lambda>m.
     bindr (mycpu c m) (\<lambda>i.
     let r = (sl_locked (locks m l) \<noteq> 0 \<and> sl_cpu (locks m l) = Some i) in
     bindr (popcli c m) (\<lambda>m. Inr (r, m))))"

text \<open>\<^verbatim>\<open>getcallerpcs\<close>: the loop runs at most 10 times and pads with zeros.\<close>

fun getcallerpcs_loop :: "nat \<Rightarrow> mem \<Rightarrow> u32 \<Rightarrow> u32 list" where
  "getcallerpcs_loop 0 m ebp = []"
| "getcallerpcs_loop (Suc n) m ebp =
     (if ebp = 0 \<or> ebp < KERNBASE \<or> ebp = 0xffffffff then replicate (Suc n) 0
      else rd32 m (ebp + 4) # getcallerpcs_loop n m (rd32 m ebp))"

definition getcallerpcs :: "mem \<Rightarrow> u32 \<Rightarrow> u32 list" where
  "getcallerpcs m v = getcallerpcs_loop 10 m (v - 8)"

text \<open>
  \<^verbatim>\<open>acquire\<close> in three pieces: up to the loop, one turn of the loop (the boolean says that
  the lock was obtained), and the stores after it.
\<close>

definition acquire_begin :: "nat \<Rightarrow> nat \<Rightarrow> machine \<Rightarrow> machine res" where
  "acquire_begin c l m =
     bindr (pushcli c m) (\<lambda>m.
     bindr (holding c l m) (\<lambda>(h, m). if h then Inl (Panic ''acquire'') else Inr m))"

definition xchg_locked :: "nat \<Rightarrow> u32 \<Rightarrow> machine \<Rightarrow> u32 \<times> machine" where
  "xchg_locked l newval m =
     (sl_locked (locks m l), set_lock l (sl_locked_update (\<lambda>_. newval)) m)"

definition acquire_try :: "nat \<Rightarrow> machine \<Rightarrow> bool \<times> machine" where
  "acquire_try l m = (case xchg_locked l 1 m of (old, m) \<Rightarrow> (old = 0, m))"

definition acquire_end :: "u32 list \<Rightarrow> nat \<Rightarrow> nat \<Rightarrow> machine \<Rightarrow> machine res" where
  "acquire_end pcs c l m =
     bindr (mycpu c m) (\<lambda>i. Inr (set_lock l (\<lambda>lk. lk\<lparr>sl_cpu := Some i, sl_pcs := pcs\<rparr>) m))"

text \<open>\<^verbatim>\<open>release\<close> in two pieces: up to the barrier, and the store to \<^verbatim>\<open>locked\<close> with \<^verbatim>\<open>popcli\<close>.\<close>

definition release_begin :: "nat \<Rightarrow> nat \<Rightarrow> machine \<Rightarrow> machine res" where
  "release_begin c l m =
     bindr (holding c l m) (\<lambda>(h, m).
     if \<not> h then Inl (Panic ''release'')
     else Inr (set_lock l (\<lambda>lk. lk\<lparr>sl_pcs := (sl_pcs lk)[0 := 0], sl_cpu := None\<rparr>) m))"

definition release_end :: "nat \<Rightarrow> nat \<Rightarrow> machine \<Rightarrow> machine res" where
  "release_end c l m = popcli c (set_lock l (sl_locked_update (\<lambda>_. 0)) m)"

section \<open>Interleaving\<close>

text \<open>
  \<open>At c\<close> is where processor \<open>c\<close> stands: running ordinary code (\<open>Run\<close>), in the loop of
  \<^verbatim>\<open>acquire\<close> (\<open>Spin\<close>), after its \<^verbatim>\<open>xchg\<close> (\<open>Got\<close>), or between the stores of \<^verbatim>\<open>release\<close>
  (\<open>Rel\<close>). \<open>crit c\<close> collects the locks \<open>c\<close> has acquired and not begun to release.
\<close>

datatype lkpc = Run | Spin nat | Got nat | Rel nat

record lksys =
  mach :: machine
  at_pc :: "nat \<Rightarrow> lkpc"
  crit :: "nat \<Rightarrow> nat set"

inductive lock_step :: "lksys \<Rightarrow> lksys \<Rightarrow> bool" where
  acq: "\<lbrakk>c < ncpu (mach s); at_pc s c = Run; acquire_begin c l (mach s) = Inr m\<rbrakk>
    \<Longrightarrow> lock_step s (s\<lparr>mach := m, at_pc := (at_pc s)(c := Spin l)\<rparr>)"
| spin: "\<lbrakk>c < ncpu (mach s); at_pc s c = Spin l; acquire_try l (mach s) = (got, m)\<rbrakk>
    \<Longrightarrow> lock_step s (s\<lparr>mach := m, at_pc := (at_pc s)(c := if got then Got l else Spin l)\<rparr>)"
| got: "\<lbrakk>c < ncpu (mach s); at_pc s c = Got l; acquire_end pcs c l (mach s) = Inr m\<rbrakk>
    \<Longrightarrow> lock_step s (s\<lparr>mach := m, at_pc := (at_pc s)(c := Run),
         crit := (crit s)(c := insert l (crit s c))\<rparr>)"
| rel: "\<lbrakk>c < ncpu (mach s); at_pc s c = Run; release_begin c l (mach s) = Inr m\<rbrakk>
    \<Longrightarrow> lock_step s (s\<lparr>mach := m, at_pc := (at_pc s)(c := Rel l),
         crit := (crit s)(c := crit s c - {l})\<rparr>)"
| unlock: "\<lbrakk>c < ncpu (mach s); at_pc s c = Rel l; release_end c l (mach s) = Inr m\<rbrakk>
    \<Longrightarrow> lock_step s (s\<lparr>mach := m, at_pc := (at_pc s)(c := Run)\<rparr>)"
| intr: "\<lbrakk>c < ncpu (mach s); at_pc s c = Run; ncli (cpus (mach s) c) = 0; m = (if on then sti c (mach s) else cli c (mach s))\<rbrakk>
    \<Longrightarrow> lock_step s (s\<lparr>mach := m\<rparr>)"

text \<open>The machine after \<^verbatim>\<open>mpinit\<close>: distinct controller identifiers, every lock free.\<close>

definition lock_start :: "lksys \<Rightarrow> bool" where
  "lock_start s \<longleftrightarrow> inj_on (\<lambda>i. apicid (cpus (mach s) i)) {..<ncpu (mach s)} \<and>
     (\<forall>c. ncli (cpus (mach s) c) = 0 \<and> at_pc s c = Run \<and> crit s c = {}) \<and>
     (\<forall>l. sl_locked (locks (mach s) l) = 0 \<and> sl_cpu (locks (mach s) l) = None)"

inductive lock_reach :: "lksys \<Rightarrow> bool" where
  start: "lock_start s \<Longrightarrow> lock_reach s"
| step: "\<lbrakk>lock_reach s; lock_step s s'\<rbrakk> \<Longrightarrow> lock_reach s'"

section \<open>The operations on well-formed machines\<close>

definition distinct_apics :: "machine \<Rightarrow> bool" where
  "distinct_apics m \<longleftrightarrow> inj_on (\<lambda>i. apicid (cpus m i)) {..<ncpu m}"

lemma cpus_set_cpu [simp]: "cpus (set_cpu i f m) j = (if j = i then f (cpus m i) else cpus m j)"
  by (simp add: set_cpu_def)

lemma set_cpu_rest [simp]: "ncpu (set_cpu i f m) = ncpu m" "locks (set_cpu i f m) = locks m"
  by (simp_all add: set_cpu_def)

lemma locks_set_lock [simp]: "locks (set_lock l f m) k = (if k = l then f (locks m l) else locks m k)"
  by (simp add: set_lock_def)

lemma set_lock_rest [simp]: "ncpu (set_lock l f m) = ncpu m" "cpus (set_lock l f m) = cpus m"
  by (simp_all add: set_lock_def)

lemma mycpu_loop_find:
  assumes "c \<in> set is" "\<And>i. i \<in> set is \<Longrightarrow> apicid (cs i) = a \<longleftrightarrow> i = c"
  shows "mycpu_loop cs a is = Inr c"
  using assms by (induction "is") auto

lemma mycpu_self:
  assumes "distinct_apics m" "c < ncpu m" "\<not> fl_if (cpus m c)"
  shows "mycpu c m = Inr c"
proof -
  have "apicid (cpus m i) = apicid (cpus m c) \<longleftrightarrow> i = c" if "i < ncpu m" for i
    using assms(1,2) that by (auto simp: distinct_apics_def inj_on_def)
  then show ?thesis
    using assms by (auto simp: mycpu_def intro!: mycpu_loop_find)
qed

lemma distinct_apics_set_lock [simp]: "distinct_apics (set_lock l g m) = distinct_apics m"
  by (simp add: distinct_apics_def)

lemma distinct_apics_set_cpu:
  assumes "apicid (f (cpus m i)) = apicid (cpus m i)"
  shows "distinct_apics (set_cpu i f m) = distinct_apics m"
proof -
  have "apicid (cpus (set_cpu i f m) j) = apicid (cpus m j)" for j
    using assms by simp
  then show ?thesis by (simp add: distinct_apics_def)
qed

text \<open>The processor after \<^verbatim>\<open>pushcli\<close> and \<^verbatim>\<open>popcli\<close>.\<close>

definition cpu_push :: "cpu \<Rightarrow> cpu" where
  "cpu_push k = k\<lparr>fl_if := False, intena := (if ncli k = 0 then fl_if k else intena k),
     ncli := ncli k + 1\<rparr>"

definition cpu_pop :: "cpu \<Rightarrow> cpu" where
  "cpu_pop k = k\<lparr>fl_if := (ncli k = 1 \<and> intena k), ncli := ncli k - 1\<rparr>"

lemma pushcli_eq:
  assumes "distinct_apics m" "c < ncpu m"
  shows "pushcli c m = Inr (set_cpu c cpu_push m)"
proof -
  have "mycpu c (cli c m) = Inr c"
    using assms by (intro mycpu_self) (simp_all add: cli_def distinct_apics_set_cpu)
  then show ?thesis
    by (auto simp: pushcli_def Let_def cpu_push_def cli_def set_cpu_def fun_eq_iff)
qed

lemma popcli_eq:
  assumes "distinct_apics m" "c < ncpu m" "\<not> fl_if (cpus m c)" "1 \<le> ncli (cpus m c)"
  shows "popcli c m = Inr (set_cpu c cpu_pop m)"
  using assms mycpu_self [OF assms(1-3)]
  by (auto simp: popcli_def Let_def cpu_pop_def sti_def set_cpu_def fun_eq_iff)

lemma cpu_push_sel [simp]: "apicid (cpu_push k) = apicid k" "\<not> fl_if (cpu_push k)"
  "ncli (cpu_push k) = ncli k + 1"
  by (simp_all add: cpu_push_def)

lemma cpu_pop_sel [simp]: "apicid (cpu_pop k) = apicid k" "ncli (cpu_pop k) = ncli k - 1"
  by (simp_all add: cpu_pop_def)

lemma cpu_pop_push:
  assumes "0 \<le> ncli k" "ncli k \<noteq> 0 \<Longrightarrow> \<not> fl_if k"
  shows "cpu_pop (cpu_push k) = (if ncli k = 0 then k\<lparr>intena := fl_if k\<rparr> else k)"
  using assms by (auto simp: cpu_pop_def cpu_push_def)

lemma set_cpu_set_cpu [simp]: "set_cpu c f (set_cpu c g m) = set_cpu c (\<lambda>k. f (g k)) m"
  by (simp add: set_cpu_def)

text \<open>
  \<open>cpu_ok\<close>: interrupts are off whenever the nesting depth is positive. On such a processor
  \<^verbatim>\<open>holding\<close> only reads the lock, but for the recorded \<^verbatim>\<open>intena\<close> at depth 0.
\<close>

definition cpu_ok :: "cpu \<Rightarrow> bool" where
  "cpu_ok k \<longleftrightarrow> 0 \<le> ncli k \<and> (ncli k \<noteq> 0 \<longrightarrow> \<not> fl_if k)"

lemma cpu_ok_push: "cpu_ok k \<Longrightarrow> cpu_ok (cpu_push k)"
  by (simp add: cpu_ok_def)

lemma cpu_ok_pop: "cpu_ok k \<Longrightarrow> 1 \<le> ncli k \<Longrightarrow> cpu_ok (cpu_pop k)"
  by (auto simp: cpu_ok_def cpu_pop_def)

definition holds_lock :: "nat \<Rightarrow> spinlock \<Rightarrow> bool" where
  "holds_lock c lk \<longleftrightarrow> sl_locked lk \<noteq> 0 \<and> sl_cpu lk = Some c"

lemma holding_eq:
  assumes "distinct_apics m" "c < ncpu m" "cpu_ok (cpus m c)"
  shows "holding c l m = Inr (holds_lock c (locks m l), set_cpu c (\<lambda>k. cpu_pop (cpu_push k)) m)"
proof -
  let ?m = "set_cpu c cpu_push m"
  have d: "distinct_apics ?m" using assms by (simp add: distinct_apics_set_cpu)
  have "mycpu c ?m = Inr c" "popcli c ?m = Inr (set_cpu c cpu_pop ?m)"
    using assms mycpu_self [OF d, of c] popcli_eq [OF d, of c] by (simp_all add: cpu_ok_def)
  then show ?thesis
    using assms by (simp add: holding_def pushcli_eq holds_lock_def)
qed

lemma acquire_begin_eq:
  assumes "distinct_apics m" "c < ncpu m" "cpu_ok (cpus m c)"
  shows "acquire_begin c l m = (if holds_lock c (locks m l) then Inl (Panic ''acquire'')
    else Inr (set_cpu c cpu_push m))"
proof -
  let ?m = "set_cpu c cpu_push m"
  have "cpu_pop (cpu_push (cpu_push (cpus m c))) = cpu_push (cpus m c)"
    using assms by (subst cpu_pop_push) (auto simp: cpu_ok_def)
  then have "set_cpu c (\<lambda>k. cpu_pop (cpu_push k)) ?m = ?m"
    by (simp add: set_cpu_def)
  then show ?thesis
    using assms holding_eq [of ?m c l]
    by (simp add: acquire_begin_def pushcli_eq distinct_apics_set_cpu cpu_ok_push)
qed

section \<open>The invariant\<close>

text \<open>
  \<open>owns s c l\<close>: processor \<open>c\<close> has set \<^verbatim>\<open>locked\<close> and not cleared it yet.
\<close>

definition owns :: "lksys \<Rightarrow> nat \<Rightarrow> nat \<Rightarrow> bool" where
  "owns s c l \<longleftrightarrow> l \<in> crit s c \<or> at_pc s c = Got l \<or> at_pc s c = Rel l"

definition depth :: "lksys \<Rightarrow> nat \<Rightarrow> nat" where
  "depth s c = card (crit s c) + (if at_pc s c = Run then 0 else 1)"

definition cpu_inv :: "lksys \<Rightarrow> nat \<Rightarrow> bool" where
  "cpu_inv s c \<longleftrightarrow> cpu_ok (cpus (mach s) c) \<and> ncli (cpus (mach s) c) = int (depth s c) \<and>
     finite (crit s c) \<and> (\<forall>l. at_pc s c \<in> {Spin l, Got l, Rel l} \<longrightarrow> l \<notin> crit s c)"

definition lock_inv :: "lksys \<Rightarrow> nat \<Rightarrow> bool" where
  "lock_inv s l \<longleftrightarrow> (sl_locked (locks (mach s) l) \<noteq> 0 \<longleftrightarrow> (\<exists>c. owns s c l)) \<and>
     (\<forall>c d. owns s c l \<longrightarrow> owns s d l \<longrightarrow> c = d) \<and>
     (\<forall>c. sl_cpu (locks (mach s) l) = Some c \<longleftrightarrow> l \<in> crit s c)"

definition lk_inv :: "lksys \<Rightarrow> bool" where
  "lk_inv s \<longleftrightarrow> distinct_apics (mach s) \<and> (\<forall>c. cpu_inv s c) \<and> (\<forall>l. lock_inv s l)"

lemma lk_inv_start: "lock_start s \<Longrightarrow> lk_inv s"
  by (auto simp: lock_start_def lk_inv_def distinct_apics_def cpu_inv_def cpu_ok_def lock_inv_def
      owns_def depth_def)

lemma cpu_inv_cong:
  assumes "cpu_inv s d" "cpus (mach s') d = cpus (mach s) d" "at_pc s' d = at_pc s d"
    "crit s' d = crit s d"
  shows "cpu_inv s' d"
  using assms by (simp add: cpu_inv_def depth_def)

lemma lock_inv_cong:
  assumes "lock_inv s k" "sl_locked (locks (mach s') k) = sl_locked (locks (mach s) k)"
    "sl_cpu (locks (mach s') k) = sl_cpu (locks (mach s) k)"
    "\<And>d. owns s' d k = owns s d k" "\<And>d. k \<in> crit s' d \<longleftrightarrow> k \<in> crit s d"
  shows "lock_inv s' k"
  using assms by (simp add: lock_inv_def)

lemma lk_inv_holds:
  assumes "lk_inv s"
  shows "holds_lock c (locks (mach s) l) \<longleftrightarrow> l \<in> crit s c"
  using assms by (auto simp: lk_inv_def lock_inv_def holds_lock_def owns_def)

lemma lk_inv_acq:
  assumes inv: "lk_inv s" and "c < ncpu (mach s)" "at_pc s c = Run"
    "acquire_begin c l (mach s) = Inr m"
  shows "lk_inv (s\<lparr>mach := m, at_pc := (at_pc s)(c := Spin l)\<rparr>)" (is "lk_inv ?s")
proof -
  have m: "m = set_cpu c cpu_push (mach s)" and nl: "l \<notin> crit s c"
    using assms lk_inv_holds [OF inv, of c l]
    by (auto simp: acquire_begin_eq lk_inv_def cpu_inv_def split: if_splits)
  have "cpu_inv ?s d" for d
  proof (cases "d = c")
    case True
    then show ?thesis using assms nl m
      by (auto simp: lk_inv_def cpu_inv_def cpu_ok_push depth_def)
  next
    case False
    then show ?thesis using inv m by (auto simp: lk_inv_def intro: cpu_inv_cong [of s])
  qed
  moreover have "lock_inv ?s k" for k
    by (rule lock_inv_cong [of s]) (use inv assms(3) m in \<open>auto simp: lk_inv_def owns_def\<close>)
  ultimately show ?thesis
    using inv m by (simp add: lk_inv_def distinct_apics_set_cpu)
qed

lemma lk_inv_spin:
  assumes inv: "lk_inv s" and "at_pc s c = Spin l" "acquire_try l (mach s) = (got, m)"
  shows "lk_inv (s\<lparr>mach := m, at_pc := (at_pc s)(c := if got then Got l else Spin l)\<rparr>)"
    (is "lk_inv ?s")
proof -
  have m: "m = set_lock l (sl_locked_update (\<lambda>_. 1)) (mach s)"
    and got: "got \<longleftrightarrow> sl_locked (locks (mach s) l) = 0"
    using assms(3) by (auto simp: acquire_try_def xchg_locked_def)
  have "cpu_inv ?s d" for d
    using inv assms(2) m by (auto simp: lk_inv_def cpu_inv_def depth_def)
  moreover have "lock_inv ?s k" for k
  proof (cases "k = l")
    case True
    have "lock_inv s l" using inv by (simp add: lk_inv_def)
    moreover have "owns ?s d l \<longleftrightarrow> owns s d l \<or> (got \<and> d = c)" for d
      using assms(2) by (auto simp: owns_def)
    ultimately show ?thesis using True m got by (auto simp: lock_inv_def)
  next
    case False
    show ?thesis
      by (rule lock_inv_cong [of s k]) (use False inv assms(2) m in \<open>auto simp: lk_inv_def owns_def\<close>)
  qed
  ultimately show ?thesis using inv m by (simp add: lk_inv_def)
qed

lemma lk_inv_got:
  assumes inv: "lk_inv s" and "c < ncpu (mach s)" "at_pc s c = Got l"
    "acquire_end pcs c l (mach s) = Inr m"
  shows "lk_inv (s\<lparr>mach := m, at_pc := (at_pc s)(c := Run),
    crit := (crit s)(c := insert l (crit s c))\<rparr>)" (is "lk_inv ?s")
proof -
  have c: "cpu_inv s c" "lock_inv s l" "distinct_apics (mach s)" using inv by (auto simp: lk_inv_def)
  then have "\<not> fl_if (cpus (mach s) c)" using assms(3) by (auto simp: cpu_inv_def cpu_ok_def depth_def)
  then have m: "m = set_lock l (\<lambda>lk. lk\<lparr>sl_cpu := Some c, sl_pcs := pcs\<rparr>) (mach s)"
    using assms c by (auto simp: acquire_end_def mycpu_self)
  have "cpu_inv ?s d" for d
    using inv assms(3) m by (auto simp: lk_inv_def cpu_inv_def depth_def)
  moreover have "lock_inv ?s k" for k
  proof (cases "k = l")
    case True
    have o: "owns ?s d l \<longleftrightarrow> owns s d l" for d using assms(3) by (auto simp: owns_def)
    have "owns s c l" using assms(3) by (simp add: owns_def)
    then have "l \<notin> crit s d" if "d \<noteq> c" for d
      using c(2) that by (auto simp: lock_inv_def owns_def)
    then show ?thesis using True m c(2) o by (auto simp: lock_inv_def)
  next
    case False
    show ?thesis
      by (rule lock_inv_cong [of s k]) (use False inv assms(3) m in \<open>auto simp: lk_inv_def owns_def\<close>)
  qed
  ultimately show ?thesis using inv m by (simp add: lk_inv_def)
qed

lemma lk_inv_rel:
  assumes inv: "lk_inv s" and "c < ncpu (mach s)" "at_pc s c = Run"
    "release_begin c l (mach s) = Inr m"
  shows "lk_inv (s\<lparr>mach := m, at_pc := (at_pc s)(c := Rel l),
    crit := (crit s)(c := crit s c - {l})\<rparr>)" (is "lk_inv ?s")
proof -
  have c: "cpu_inv s c" "lock_inv s l" "distinct_apics (mach s)" using inv by (auto simp: lk_inv_def)
  then have ok: "cpu_ok (cpus (mach s) c)" by (simp add: cpu_inv_def)
  then have l: "l \<in> crit s c" and m: "m = set_lock l (\<lambda>lk. lk\<lparr>sl_pcs := (sl_pcs lk)[0 := 0], sl_cpu := None\<rparr>)
      (set_cpu c (\<lambda>k. cpu_pop (cpu_push k)) (mach s))"
    using assms c lk_inv_holds [OF inv, of c l]
    by (auto simp: release_begin_def holding_eq split: if_splits)
  have "crit s c \<noteq> {}" using l by auto
  then have "ncli (cpus (mach s) c) \<noteq> 0" using c(1) assms(3) by (simp add: cpu_inv_def depth_def)
  then have k: "cpu_pop (cpu_push (cpus (mach s) c)) = cpus (mach s) c"
    using ok by (subst cpu_pop_push) (auto simp: cpu_ok_def)
  have "cpu_inv ?s d" for d
  proof (cases "d = c")
    case True
    have "Suc (card (crit s c - {l})) = card (crit s c)"
      using c(1) l by (intro card_Suc_Diff1) (simp_all add: cpu_inv_def)
    then have "depth ?s c = depth s c" using assms(3) by (simp add: depth_def)
    then show ?thesis using True c(1) m k by (simp add: cpu_inv_def)
  next
    case False
    show ?thesis
      by (rule cpu_inv_cong [of s d]) (use False inv m in \<open>auto simp: lk_inv_def\<close>)
  qed
  moreover have "lock_inv ?s j" for j
  proof (cases "j = l")
    case True
    have o: "owns ?s d l \<longleftrightarrow> owns s d l" for d using assms(3) l by (auto simp: owns_def)
    have "l \<notin> crit s d" if "d \<noteq> c" for d
      using c(2) l that by (auto simp: lock_inv_def owns_def)
    then show ?thesis using True m c(2) o by (auto simp: lock_inv_def)
  next
    case False
    show ?thesis
      by (rule lock_inv_cong [of s j]) (use False inv assms(3) m in \<open>auto simp: lk_inv_def owns_def\<close>)
  qed
  ultimately show ?thesis using inv m k by (simp add: lk_inv_def distinct_apics_set_cpu)
qed

lemma release_end_eq:
  assumes "lk_inv s" "c < ncpu (mach s)" "at_pc s c = Rel l"
  shows "release_end c l (mach s) =
    Inr (set_cpu c cpu_pop (set_lock l (sl_locked_update (\<lambda>_. 0)) (mach s)))"
  using assms unfolding release_end_def
  by (intro popcli_eq) (auto simp: lk_inv_def cpu_inv_def cpu_ok_def depth_def)

lemma lk_inv_unlock:
  assumes inv: "lk_inv s" and "c < ncpu (mach s)" "at_pc s c = Rel l"
    "release_end c l (mach s) = Inr m"
  shows "lk_inv (s\<lparr>mach := m, at_pc := (at_pc s)(c := Run)\<rparr>)" (is "lk_inv ?s")
proof -
  have m: "m = set_cpu c cpu_pop (set_lock l (sl_locked_update (\<lambda>_. 0)) (mach s))"
    using assms release_end_eq by auto
  have c: "cpu_inv s c" "lock_inv s l" using inv by (auto simp: lk_inv_def)
  have "cpu_inv ?s d" for d
  proof (cases "d = c")
    case True
    then show ?thesis using c(1) assms(3) m by (auto simp: cpu_inv_def depth_def cpu_ok_pop)
  next
    case False
    show ?thesis
      by (rule cpu_inv_cong [of s d]) (use False inv m in \<open>auto simp: lk_inv_def\<close>)
  qed
  moreover have "lock_inv ?s k" for k
  proof (cases "k = l")
    case True
    have "\<not> owns ?s d l" for d
      using c assms(3) by (cases "d = c") (auto simp: lock_inv_def cpu_inv_def owns_def)
    moreover from this have "l \<notin> crit s d" for d by (auto simp: owns_def)
    ultimately show ?thesis using True m c(2) by (auto simp: lock_inv_def)
  next
    case False
    show ?thesis
      by (rule lock_inv_cong [of s k]) (use False inv assms(3) m in \<open>auto simp: lk_inv_def owns_def\<close>)
  qed
  ultimately show ?thesis using inv m by (simp add: lk_inv_def distinct_apics_set_cpu)
qed

lemma lk_inv_intr:
  assumes inv: "lk_inv s" and "ncli (cpus (mach s) c) = 0"
    "m = (if on then sti c (mach s) else cli c (mach s))"
  shows "lk_inv (s\<lparr>mach := m\<rparr>)"
proof -
  have m: "m = set_cpu c (fl_if_update (\<lambda>_. on)) (mach s)"
    using assms(3) by (simp add: sti_def cli_def)
  have "cpu_inv (s\<lparr>mach := m\<rparr>) d" "lock_inv (s\<lparr>mach := m\<rparr>) k" for d k
    using inv assms(2) m by (auto simp: lk_inv_def cpu_inv_def cpu_ok_def depth_def lock_inv_def owns_def)
  then show ?thesis using inv m by (simp add: lk_inv_def distinct_apics_set_cpu)
qed

lemmas lk_inv_steps = lk_inv_acq lk_inv_spin lk_inv_got lk_inv_rel lk_inv_unlock lk_inv_intr

lemma lk_inv_step: "lock_step s s' \<Longrightarrow> lk_inv s \<Longrightarrow> lk_inv s'"
  by (induction rule: lock_step.induct) (blast intro: lk_inv_steps)+

lemma lk_inv_reach: "lock_reach s \<Longrightarrow> lk_inv s"
  by (induction rule: lock_reach.induct) (auto intro: lk_inv_start lk_inv_step)

section \<open>Properties\<close>

text \<open>
  C10: Spin locks exclude each other on any number of processors. In every reachable state
  and for every processor that runs ordinary code: no other processor is in a critical
  section of a lock it holds; interrupts are off while it holds a lock, and the nesting
  depth counts its locks; \<^verbatim>\<open>holding\<close> answers exactly whether it holds the lock; \<^verbatim>\<open>release\<close>
  passes its check exactly on the locks it holds, and \<^verbatim>\<open>acquire\<close> panics exactly on those.
\<close>

theorem spinlock_mutual_exclusion:
  assumes "lock_reach s" "c < ncpu (mach s)" "at_pc s c = Run"
  shows "(\<forall>d. d \<noteq> c \<longrightarrow> crit s c \<inter> crit s d = {}) \<and>
    (crit s c \<noteq> {} \<longrightarrow> \<not> fl_if (cpus (mach s) c)) \<and>
    ncli (cpus (mach s) c) = int (card (crit s c)) \<and>
    (\<exists>m. holding c l (mach s) = Inr (l \<in> crit s c, m)) \<and>
    (l \<in> crit s c \<longleftrightarrow> (\<exists>m. release_begin c l (mach s) = Inr m)) \<and>
    (l \<in> crit s c \<longleftrightarrow> acquire_begin c l (mach s) = Inl (Panic ''acquire''))"
proof -
  have inv: "lk_inv s" using assms(1) by (rule lk_inv_reach)
  then have c: "cpu_inv s c" and li: "lock_inv s l" for l by (auto simp: lk_inv_def)
  have ok: "distinct_apics (mach s)" "cpu_ok (cpus (mach s) c)"
    using inv c by (auto simp: lk_inv_def cpu_inv_def)
  have "crit s c \<inter> crit s d = {}" if "d \<noteq> c" for d
    using li that by (auto simp: lock_inv_def owns_def)
  moreover have "ncli (cpus (mach s) c) = int (card (crit s c))"
    using c assms(3) by (simp add: cpu_inv_def depth_def)
  moreover from this have "crit s c \<noteq> {} \<longrightarrow> \<not> fl_if (cpus (mach s) c)"
    using c by (auto simp: cpu_inv_def cpu_ok_def)
  moreover have "holding c l (mach s) =
      Inr (l \<in> crit s c, set_cpu c (\<lambda>k. cpu_pop (cpu_push k)) (mach s))"
    using holding_eq ok assms(2) lk_inv_holds [OF inv] by simp
  moreover from this have "l \<in> crit s c \<longleftrightarrow> (\<exists>m. release_begin c l (mach s) = Inr m)"
    by (simp add: release_begin_def)
  moreover have "l \<in> crit s c \<longleftrightarrow> acquire_begin c l (mach s) = Inl (Panic ''acquire'')"
    using acquire_begin_eq ok assms(2) lk_inv_holds [OF inv] by simp
  ultimately show ?thesis by blast
qed

text \<open>A machine of two processors after start-up, for the witness.\<close>

definition two_cpus :: lksys where
  "two_cpus = \<lparr>mach = \<lparr>ncpu = 2,
       cpus = (\<lambda>i. \<lparr>apicid = of_nat i, ncli = 0, intena = False, fl_if = True\<rparr>),
       locks = (\<lambda>l. \<lparr>sl_locked = 0, sl_cpu = None, sl_pcs = []\<rparr>)\<rparr>,
     at_pc = (\<lambda>c. Run), crit = (\<lambda>c. {})\<rparr>"

lemma two_cpus_reach: "lock_reach two_cpus"
proof (rule lock_reach.start)
  have "{..<2 :: nat} = {0, 1}" by auto
  then show "lock_start two_cpus" by (simp add: lock_start_def two_cpus_def)
qed

lemma acquire_reach:
  assumes "lock_reach s" "c < ncpu (mach s)" "at_pc s c = Run" "sl_locked (locks (mach s) l) = 0"
  shows "\<exists>s'. lock_reach s' \<and> at_pc s' c = Run \<and> crit s' c = insert l (crit s c) \<and>
    ncpu (mach s') = ncpu (mach s)"
proof -
  have inv: "lk_inv s" using assms(1) by (rule lk_inv_reach)
  then have ok: "distinct_apics (mach s)" "cpu_ok (cpus (mach s) c)"
    by (auto simp: lk_inv_def cpu_inv_def)
  let ?m1 = "set_cpu c cpu_push (mach s)"
  let ?s1 = "s\<lparr>mach := ?m1, at_pc := (at_pc s)(c := Spin l)\<rparr>"
  have "acquire_begin c l (mach s) = Inr ?m1"
    using acquire_begin_eq [OF ok(1) assms(2) ok(2)] assms(4) by (simp add: holds_lock_def)
  then have 1: "lock_reach ?s1"
    using assms by (blast intro: lock_reach.step lock_step.acq)
  obtain m2 where t: "acquire_try l ?m1 = (True, m2)" and m2: "m2 = set_lock l (sl_locked_update (\<lambda>_. 1)) ?m1"
    using assms(4) by (simp add: acquire_try_def xchg_locked_def)
  let ?s2 = "?s1\<lparr>mach := m2, at_pc := (at_pc ?s1)(c := if True then Got l else Spin l)\<rparr>"
  have 2: "lock_reach ?s2"
    by (rule lock_reach.step [OF 1 lock_step.spin [of c]]) (use assms(2) t in simp_all)
  have "distinct_apics m2" "\<not> fl_if (cpus m2 c)" "c < ncpu m2"
    using ok assms(2) m2 by (simp_all add: distinct_apics_set_cpu)
  then obtain m3 where "acquire_end [] c l m2 = Inr m3" "ncpu m3 = ncpu m2"
    by (simp add: acquire_end_def mycpu_self)
  then have "lock_reach (?s2\<lparr>mach := m3, at_pc := (at_pc ?s2)(c := Run),
      crit := (crit ?s2)(c := insert l (crit ?s2 c))\<rparr>)"
    by (intro lock_reach.step [OF 2] lock_step.got [of c _ _ "[]"]) (use \<open>c < ncpu m2\<close> in simp_all)
  moreover have "ncpu m3 = ncpu (mach s)" using \<open>ncpu m3 = ncpu m2\<close> m2 by simp
  ultimately show ?thesis by (intro exI conjI) (assumption | simp)+
qed

theorem spinlock_mutual_exclusion_witness:
  "\<exists>s. lock_reach s \<and> crit s 0 = {0} \<and> crit s 0 \<inter> crit s 1 = {} \<and> \<not> fl_if (cpus (mach s) 0) \<and>
    acquire_begin 0 0 (mach s) = Inl (Panic ''acquire'')"
proof -
  obtain s where s: "lock_reach s" "at_pc s 0 = Run" "crit s 0 = {0}" "ncpu (mach s) = 2"
    using acquire_reach [OF two_cpus_reach, of 0 0] by (auto simp: two_cpus_def)
  then show ?thesis
    using spinlock_mutual_exclusion [of s 0 0] by auto
qed

end
