(* ===== verification/Console.thy ===== *)
theory Console
  imports Kstate Spinlock
begin

text \<open>
  The console, \<^verbatim>\<open>console.c\<close>: formatted output, the CGA display, line editing of the input, and
  the two device functions. \<^verbatim>\<open>cons.lock\<close> is held throughout each operation, which is therefore
  one step; a reader that would sleep for input stops with \<open>WouldSleep\<close>. The formatting
  functions return the characters that they pass to \<^verbatim>\<open>consputc\<close>.
\<close>

section \<open>Formatted output\<close>

definition digits :: "nat \<Rightarrow> u8" where
  "digits d = (if d < 10 then of_nat (48 + d) else of_nat (87 + d))"

text \<open>The digits in \<open>buf\<close>, least significant first.\<close>

function print_digits :: "nat \<Rightarrow> nat \<Rightarrow> u8 list" where
  "print_digits base x =
     (if base \<le> 1 then []
      else digits (x mod base) # (if x div base \<noteq> 0 then print_digits base (x div base) else []))"
  by auto
termination
  by (relation "measure snd") (auto intro!: div_less_dividend gr0I)

declare print_digits.simps [simp del]

definition printint :: "u32 \<Rightarrow> nat \<Rightarrow> bool \<Rightarrow> u8 list" where
  "printint xx base sign =
     (let sign = (sign \<and> sint xx < 0);
          x = (if sign then - xx else xx);
          buf = print_digits base (unat x)
      in rev (if sign then buf @ [45] else buf))"

text \<open>
  An argument of \<^verbatim>\<open>cprintf\<close>: a word, or a pointer to a string (\<open>None\<close> is the null pointer).
\<close>

datatype carg = CInt u32 | CStr "u8 list option"

definition carg_word :: "carg list \<Rightarrow> (u32 \<times> carg list) res" where
  "carg_word args = (case args of CInt x # args \<Rightarrow> Inr (x, args) | _ \<Rightarrow> Inl OutOfBounds)"

definition carg_string :: "carg list \<Rightarrow> (u8 list \<times> carg list) res" where
  "carg_string args = (case args of CStr p # args \<Rightarrow> Inr (case p of Some t \<Rightarrow> t
       | None \<Rightarrow> [40, 110, 117, 108, 108, 41], args) | _ \<Rightarrow> Inl OutOfBounds)"

text \<open>The format is the bytes before its NUL; 37 is the percent sign.\<close>

fun cprintf :: "u8 list \<Rightarrow> carg list \<Rightarrow> u8 list res" where
  "cprintf [] args = Inr []"
| "cprintf [c] args = Inr (if c \<noteq> 37 then [c] else [])"
| "cprintf (c # d # fmt) args =
     (if c \<noteq> 37 then bindr (cprintf (d # fmt) args) (\<lambda>t. Inr (c # t))
      else if d = 100 then
        bindr (carg_word args) (\<lambda>(x, args). bindr (cprintf fmt args) (\<lambda>t. Inr (printint x 10 True @ t)))
      else if d = 120 \<or> d = 112 then
        bindr (carg_word args) (\<lambda>(x, args). bindr (cprintf fmt args) (\<lambda>t. Inr (printint x 16 False @ t)))
      else if d = 115 then
        bindr (carg_string args) (\<lambda>(p, args). bindr (cprintf fmt args) (\<lambda>t. Inr (p @ t)))
      else if d = 37 then bindr (cprintf fmt args) (\<lambda>t. Inr (37 # t))
      else bindr (cprintf fmt args) (\<lambda>t. Inr (37 # d # t)))"

section \<open>The display\<close>

definition BACKSPACE :: u32 where [layout_defs]: "BACKSPACE = 0x100"

text \<open>
  \<^verbatim>\<open>cgaputc\<close>. The first part places the character and moves the cursor, the second scrolls.
  \<^verbatim>\<open>crt\<close> has room for 16384 characters in the 32K of CGA memory.
\<close>

definition cga_put :: "u32 \<Rightarrow> cga \<Rightarrow> cga" where
  "cga_put c g =
     (let pos = cga_pos g in
      if c = 10 then g\<lparr>cga_pos := pos + 80 - pos mod 80\<rparr>
      else if c = BACKSPACE then (if pos > 0 then g\<lparr>cga_pos := pos - 1\<rparr> else g)
      else g\<lparr>crt := (crt g)(nat pos := (ucast c AND 0xFF) OR 0x0700), cga_pos := pos + 1\<rparr>)"

definition cga_scroll :: "cga \<Rightarrow> cga" where
  "cga_scroll g =
     (if cga_pos g div 80 \<ge> 24 then
        let pos = cga_pos g - 80 in
        g\<lparr>crt := (\<lambda>i. if nat pos \<le> i \<and> i < 24 * 80 then 0
                     else if i < 23 * 80 then crt g (i + 80) else crt g i), cga_pos := pos\<rparr>
      else g)"

definition cgaputc :: "u32 \<Rightarrow> cga \<Rightarrow> cga res" where
  "cgaputc c g =
     (let g = cga_put c g in
      if cga_pos g < 0 \<or> cga_pos g > 25 * 80 then Inl (Panic ''pos under/overflow'')
      else let g = cga_scroll g in Inr (g\<lparr>crt := (crt g)(nat (cga_pos g) := 0x0720)\<rparr>))"

definition consputc :: "u32 \<Rightarrow> 'a kst_scheme \<Rightarrow> 'a kst_scheme res" where
  "consputc c s =
     bindr (cgaputc c (screen s)) (\<lambda>g.
       Inr (s\<lparr>consout := consout s @ (if c = BACKSPACE then [8, 32, 8] else [ucast c]), screen := g\<rparr>))"

definition cons_puts :: "u8 list \<Rightarrow> 'a kst_scheme \<Rightarrow> 'a kst_scheme res" where
  "cons_puts cs s = forr cs (\<lambda>c. consputc (ucast c)) s"

definition kprintf :: "string \<Rightarrow> carg list \<Rightarrow> 'a kst_scheme \<Rightarrow> 'a kst_scheme res" where
  "kprintf fmt args s = bindr (cprintf (map of_char fmt) args) (\<lambda>cs. cons_puts cs s)"

section \<open>Process listing (proc.c)\<close>

definition state_name :: "procstate \<Rightarrow> string" where
  "state_name st = (case st of UNUSED \<Rightarrow> ''unused'' | EMBRYO \<Rightarrow> ''embryo'' | SLEEPING \<Rightarrow> ''sleep ''
     | RUNNABLE \<Rightarrow> ''runble'' | RUNNING \<Rightarrow> ''run   '' | ZOMBIE \<Rightarrow> ''zombie'')"

text \<open>\<^verbatim>\<open>p->name\<close> as a C string; the array has 16 bytes.\<close>

definition proc_name :: "proc \<Rightarrow> u8 list" where
  "proc_name p = takeWhile (\<lambda>c. c \<noteq> 0) (map (p_name p) [0..<16])"

definition dump_proc :: "nat \<Rightarrow> 'a kst_scheme \<Rightarrow> 'a kst_scheme res" where
  "dump_proc i s =
     (let p = ptable s i in
      if p_state p = UNUSED then Inr s
      else bindr (kprintf ''%d %s %s'' [CInt (of_int (p_pid p)),
             CStr (Some (map of_char (state_name (p_state p)))), CStr (Some (proc_name p))] s) (\<lambda>s.
        bindr (if p_state p = SLEEPING
               then forr (takeWhile (\<lambda>pc. pc \<noteq> 0)
                      (getcallerpcs (pmem (km s)) (kload (p_context p + 12) s + 8)))
                      (\<lambda>pc. kprintf '' %p'' [CInt pc]) s
               else Inr s)
          (kprintf [CHR 0x0A] [])))"

definition procdump :: "'a kst_scheme \<Rightarrow> 'a kst_scheme res" where
  "procdump s = forr [0..<NPROC] dump_proc s"

section \<open>Input\<close>

definition INPUT_BUF :: u32 where [layout_defs]: "INPUT_BUF = 128"

definition upd_input :: "(input \<Rightarrow> input) \<Rightarrow> 'a kst_scheme \<Rightarrow> 'a kst_scheme" where
  "upd_input f s = s\<lparr>cons_input := f (cons_input s)\<rparr>"

text \<open>Kill line: the loop deletes one character per turn, at most \<open>e - w\<close> of them.\<close>

function kill_line :: "'a kst_scheme \<Rightarrow> 'a kst_scheme res" where
  "kill_line s =
     (let i = cons_input s in
      if in_e i \<noteq> in_w i \<and> in_buf i (unat ((in_e i - 1) mod INPUT_BUF)) \<noteq> 10
      then bindr (consputc BACKSPACE (upd_input (\<lambda>i. i\<lparr>in_e := in_e i - 1\<rparr>) s)) kill_line
      else Inr s)"
  by auto
termination
proof (relation "measure (\<lambda>s. unat (in_e (cons_input s) - in_w (cons_input s)))", goal_cases)
  case (2 s i s')
  then have "cons_input s' = (cons_input s)\<lparr>in_e := in_e (cons_input s) - 1\<rparr>"
    by (auto simp: consputc_def upd_input_def bindr_eq_Inr)
  moreover have "unat (in_e i - 1 - in_w i) < unat (in_e i - in_w i)"
    using 2 measure_unat [of "in_e i - in_w i"] by (simp add: algebra_simps)
  ultimately show ?case using 2 by simp
qed simp

declare kill_line.simps [simp del]

definition input_char :: "u32 \<Rightarrow> 'a kst_scheme \<Rightarrow> 'a kst_scheme res" where
  "input_char c s =
     (let i = cons_input s in
      if c \<noteq> 0 \<and> in_e i - in_r i < INPUT_BUF then
        let c = (if c = 13 then 10 else c);
            s = upd_input (\<lambda>i. i\<lparr>in_buf := (in_buf i)(unat (in_e i mod INPUT_BUF) := ucast c),
                              in_e := in_e i + 1\<rparr>) s in
        bindr (consputc c s) (\<lambda>s.
        let i = cons_input s in
        if c = 10 \<or> c = 4 \<or> in_e i = in_r i + INPUT_BUF
        then Inr (wakeup ChInput (upd_input (\<lambda>i. i\<lparr>in_w := in_e i\<rparr>) s))
        else Inr s)
      else Inr s)"

text \<open>
  \<^verbatim>\<open>consoleintr\<close> on the characters that \<^verbatim>\<open>getc\<close> returns before its first negative result; the
  flag is \<^verbatim>\<open>doprocdump\<close>.
\<close>

fun consoleintr_loop :: "u32 list \<Rightarrow> bool \<Rightarrow> 'a kst_scheme \<Rightarrow> (bool \<times> 'a kst_scheme) res" where
  "consoleintr_loop [] dump s = Inr (dump, s)"
| "consoleintr_loop (c # cs) dump s =
     (if c = 16 then consoleintr_loop cs True s
      else if c = 21 then bindr (kill_line s) (consoleintr_loop cs dump)
      else if c = 8 \<or> c = 127 then
        (if in_e (cons_input s) \<noteq> in_w (cons_input s)
         then bindr (consputc BACKSPACE (upd_input (\<lambda>i. i\<lparr>in_e := in_e i - 1\<rparr>) s)) (consoleintr_loop cs dump)
         else consoleintr_loop cs dump s)
      else bindr (input_char c s) (consoleintr_loop cs dump))"

definition consoleintr :: "u32 list \<Rightarrow> 'a kst_scheme \<Rightarrow> 'a kst_scheme res" where
  "consoleintr cs s =
     bindr (consoleintr_loop cs False s) (\<lambda>(dump, s). if dump then procdump s else Inr s)"

text \<open>
  The loop of \<^verbatim>\<open>consoleread\<close>, with \<open>n\<close> characters still wanted: whether the process was found
  killed, the bytes stored, the value of \<^verbatim>\<open>n\<close> at the end.
\<close>

fun consoleread_loop :: "nat \<Rightarrow> nat \<Rightarrow> bool \<Rightarrow> input \<Rightarrow> (bool \<times> u8 list \<times> nat \<times> input) res" where
  "consoleread_loop 0 target killed i = Inr (False, [], 0, i)"
| "consoleread_loop (Suc n) target killed i =
     (if in_r i = in_w i then
        (if killed then Inr (True, [], Suc n, i) else Inl WouldSleep)
      else
        let c = in_buf i (unat (in_r i mod INPUT_BUF)); i' = i\<lparr>in_r := in_r i + 1\<rparr> in
        if c = 4 then Inr (False, [], Suc n, if Suc n < target then i else i')
        else if c = 10 then Inr (False, [c], n, i')
        else bindr (consoleread_loop n target killed i') (\<lambda>(k, cs, n, i). Inr (k, c # cs, n, i)))"

definition consoleread :: "nat \<Rightarrow> int \<Rightarrow> 'a kst_scheme \<Rightarrow> (int \<times> u8 list \<times> 'a kst_scheme) res" where
  "consoleread ip n s =
     bindr (iunlock ip s) (\<lambda>s.
     bindr (myproc s) (\<lambda>p.
     bindr (consoleread_loop (nat n) (nat n) (p_killed (ptable s p)) (cons_input s)) (\<lambda>(killed, cs, left, i).
     bindr (ilock ip (s\<lparr>cons_input := i\<rparr>)) (\<lambda>s.
     Inr (if killed then - 1 else int (nat n) - int left, cs, s)))))"

definition consolewrite :: "nat \<Rightarrow> (nat \<Rightarrow> u8) \<Rightarrow> int \<Rightarrow> 'a kst_scheme \<Rightarrow> (int \<times> 'a kst_scheme) res" where
  "consolewrite ip buf n s =
     bindr (iunlock ip s) (\<lambda>s.
     bindr (cons_puts (map buf [0..<nat n]) s) (\<lambda>s.
     bindr (ilock ip s) (\<lambda>s. Inr (n, s))))"

text \<open>The device table after \<^verbatim>\<open>consoleinit\<close>: the console is device 1.\<close>

definition CONSOLE :: nat where [layout_defs]: "CONSOLE = 1"

definition consoleinit :: "'a kst_scheme devsw" where
  "consoleinit = (\<lambda>i. if i = CONSOLE then \<lparr>dev_read = Some consoleread, dev_write = Some consolewrite\<rparr>
     else \<lparr>dev_read = None, dev_write = None\<rparr>)"

abbreviation devsw :: "'a kst_scheme devsw" where "devsw \<equiv> consoleinit"

end
