(* ===== verification/Files.thy ===== *)
theory Files
  imports Console
begin

text \<open>
  The open file table, \<^verbatim>\<open>file.c\<close>, and \<^verbatim>\<open>pipealloc\<close> of \<^verbatim>\<open>pipe.c\<close>. File pointers are indices of
  \<^verbatim>\<open>ftable.file\<close>. A pipe lies in a page of physical memory; \<open>pipe_load\<close> and \<open>pipe_store\<close> convert
  between its bytes and the record on which the pipe operations work. An operation on a pipe
  that would sleep stops with \<open>WouldSleep\<close>; the interleaving of readers and writers is the
  subject of the pipe theory.
\<close>

section \<open>Pipes in memory\<close>

text \<open>
  \<^verbatim>\<open>struct pipe\<close>: the lock (52 bytes), the data, \<^verbatim>\<open>nread\<close>, \<^verbatim>\<open>nwrite\<close> and the two flags.
\<close>

definition pipe_load :: "mem \<Rightarrow> u32 \<Rightarrow> pipe" where
  "pipe_load m p = \<lparr>pdata = (\<lambda>i. m (p + 52 + of_nat i)), nread = rd32 m (p + 564),
     nwrite = rd32 m (p + 568), readopen = (rd32 m (p + 572) \<noteq> 0), writeopen = (rd32 m (p + 576) \<noteq> 0)\<rparr>"

definition pipe_store :: "u32 \<Rightarrow> pipe \<Rightarrow> mem \<Rightarrow> mem" where
  "pipe_store p x m =
     (let m = (\<lambda>a. if in_range (p + 52) 512 a then pdata x (unat (a - (p + 52))) else m a);
          m = wr32 m (p + 564) (nread x);
          m = wr32 m (p + 568) (nwrite x);
          m = wr32 m (p + 572) (if readopen x then 1 else 0)
      in wr32 m (p + 576) (if writeopen x then 1 else 0))"

definition pipe_chan :: "u32 \<Rightarrow> pchan \<Rightarrow> chan" where
  "pipe_chan p ch = (case ch of ChanNread \<Rightarrow> ChNread p | ChanNwrite \<Rightarrow> ChNwrite p)"

definition set_pipe :: "u32 \<Rightarrow> pipe \<Rightarrow> pchan list \<Rightarrow> 'a kst_scheme \<Rightarrow> 'a kst_scheme" where
  "set_pipe p x chs s = fold (\<lambda>ch. wakeup (pipe_chan p ch)) chs (upd_pmem (pipe_store p x) s)"

section \<open>The file table\<close>

fun filealloc_loop :: "nat list \<Rightarrow> 'a kst_scheme \<Rightarrow> nat option \<times> 'a kst_scheme" where
  "filealloc_loop [] s = (None, s)"
| "filealloc_loop (f # fs) s =
     (if f_ref (ftable s f) = 0 then (Some f, upd_file f (\<lambda>x. x\<lparr>f_ref := 1\<rparr>) s)
      else filealloc_loop fs s)"

definition filealloc :: "'a kst_scheme \<Rightarrow> nat option \<times> 'a kst_scheme" where
  "filealloc s = filealloc_loop [0..<NFILE] s"

definition filedup :: "nat \<Rightarrow> 'a kst_scheme \<Rightarrow> (nat \<times> 'a kst_scheme) res" where
  "filedup f s =
     (if f_ref (ftable s f) < 1 then Inl (Panic ''filedup'')
      else Inr (f, upd_file f (\<lambda>x. x\<lparr>f_ref := f_ref x + 1\<rparr>) s))"

text \<open>\<^verbatim>\<open>pipeclose\<close> on a pipe in memory.\<close>

definition close_pipe :: "u32 \<Rightarrow> bool \<Rightarrow> 'a kst_scheme \<Rightarrow> 'a kst_scheme res" where
  "close_pipe p writable s =
     (case pipeclose (pipe_load (pmem (km s)) p) writable of (ch, freed, x) \<Rightarrow>
        let s = set_pipe p x [ch] s in if freed then kfree_s p s else Inr s)"

definition fileclose :: "nat \<Rightarrow> 'a kst_scheme \<Rightarrow> 'a kst_scheme res" where
  "fileclose f s =
     (if f_ref (ftable s f) < 1 then Inl (Panic ''fileclose'')
      else let s = upd_file f (\<lambda>x. x\<lparr>f_ref := f_ref x - 1\<rparr>) s in
        if f_ref (ftable s f) > 0 then Inr s
        else let ff = ftable s f;
                 s = upd_file f (\<lambda>x. x\<lparr>f_ref := 0, f_type := FD_NONE\<rparr>) s in
          case f_type ff of
            FD_PIPE \<Rightarrow> close_pipe (f_pipe ff) (f_writable ff) s
          | FD_INODE \<Rightarrow> bindr (begin_op s) (\<lambda>s. bindr (iput (f_ip ff) s) end_op)
          | FD_NONE \<Rightarrow> Inr s)"

text \<open>\<^verbatim>\<open>struct stat\<close> as bytes: the shorts are padded to words.\<close>

definition stat_bytes :: "stat \<Rightarrow> u8 list" where
  "stat_bytes t = le16 (st_type t) @ [0, 0] @ le32 (st_dev t) @ le32 (st_ino t) @
     le16 (st_nlink t) @ [0, 0] @ le32 (st_size t)"

definition filestat :: "nat \<Rightarrow> u32 \<Rightarrow> 'a kst_scheme \<Rightarrow> (int \<times> 'a kst_scheme) res" where
  "filestat f st s =
     (let ff = ftable s f in
      if f_type ff = FD_INODE then
        bindr (ilock (f_ip ff) s) (\<lambda>s.
        bindr (copyto st (stat_bytes (stati (f_ip ff) s)) s) (\<lambda>s.
        bindr (iunlock (f_ip ff) s) (\<lambda>s. Inr (0, s))))
      else Inr (-1, s))"

text \<open>\<^verbatim>\<open>piperead\<close> and \<^verbatim>\<open>pipewrite\<close> on a pipe in memory, storing to and loading from \<open>addr\<close>.\<close>

definition read_pipe :: "u32 \<Rightarrow> u32 \<Rightarrow> int \<Rightarrow> 'a kst_scheme \<Rightarrow> (int \<times> 'a kst_scheme) res" where
  "read_pipe p addr n s =
     bindr (myproc s) (\<lambda>me.
     case piperead (p_killed (ptable s me)) n (pipe_load (pmem (km s)) p) of (out, bytes, chs, x) \<Rightarrow>
       case out of
         SleepOn _ _ \<Rightarrow> Inl WouldSleep
       | Return r \<Rightarrow> bindr (copyto addr bytes (set_pipe p x chs s)) (\<lambda>s. Inr (r, s)))"

definition write_pipe :: "u32 \<Rightarrow> u32 \<Rightarrow> int \<Rightarrow> 'a kst_scheme \<Rightarrow> (int \<times> 'a kst_scheme) res" where
  "write_pipe p addr n s =
     bindr (myproc s) (\<lambda>me.
     bindr (copyin addr (nat n) s) (\<lambda>bytes.
     case pipewrite (p_killed (ptable s me)) (bytes_at bytes) n 0 (pipe_load (pmem (km s)) p) of
       (out, chs, x) \<Rightarrow>
         case out of
           SleepOn _ _ \<Rightarrow> Inl WouldSleep
         | Return r \<Rightarrow> Inr (r, set_pipe p x chs s)))"

definition fileread :: "nat \<Rightarrow> u32 \<Rightarrow> int \<Rightarrow> 'a kst_scheme \<Rightarrow> (int \<times> 'a kst_scheme) res" where
  "fileread f addr n s =
     (let ff = ftable s f in
      if \<not> f_readable ff then Inr (-1, s)
      else case f_type ff of
        FD_PIPE \<Rightarrow> read_pipe (f_pipe ff) addr n s
      | FD_INODE \<Rightarrow>
          bindr (ilock (f_ip ff) s) (\<lambda>s.
          bindr (readi devsw (f_ip ff) (f_off ff) (of_int n) s) (\<lambda>(r, bytes, s).
          bindr (copyto addr bytes s) (\<lambda>s.
          let s = (if r > 0 then upd_file f (\<lambda>x. x\<lparr>f_off := f_off x + of_int r\<rparr>) s else s) in
          bindr (iunlock (f_ip ff) s) (\<lambda>s. Inr (r, s)))))
      | FD_NONE \<Rightarrow> Inl (Panic ''fileread''))"

text \<open>
  The loop of \<^verbatim>\<open>filewrite\<close>: transactions of at most 1536 bytes, from offset \<open>i\<close> of the buffer.
  Every turn that continues has written at least one byte.
\<close>

definition write_max :: int where
  "write_max = ((int MAXOPBLOCKS - 1 - 1 - 2) div 2) * 512"

definition filewrite_step :: "nat \<Rightarrow> u32 \<Rightarrow> int \<Rightarrow> int \<Rightarrow> 'a kst_scheme \<Rightarrow> (int \<times> 'a kst_scheme) res" where
  "filewrite_step f addr n1 i s =
     bindr (begin_op s) (\<lambda>s.
     bindr (ilock (f_ip (ftable s f)) s) (\<lambda>s.
     bindr (copyin (addr + of_int i) (nat n1) s) (\<lambda>bytes.
     bindr (writei devsw (f_ip (ftable s f)) (bytes_at bytes) (f_off (ftable s f)) (of_int n1) s) (\<lambda>(r, s).
     let s = (if r > 0 then upd_file f (\<lambda>x. x\<lparr>f_off := f_off x + of_int r\<rparr>) s else s) in
     bindr (iunlock (f_ip (ftable s f)) s) (\<lambda>s.
     bindr (end_op s) (\<lambda>s. Inr (r, s)))))))"

function filewrite_loop :: "nat \<Rightarrow> u32 \<Rightarrow> int \<Rightarrow> int \<Rightarrow> 'a kst_scheme \<Rightarrow> (int \<times> 'a kst_scheme) res" where
  "filewrite_loop f addr n i s =
     (if i < n then
        let n1 = (if n - i > write_max then write_max else n - i) in
        bindr (filewrite_step f addr n1 i s) (\<lambda>(r, s).
        if r < 0 then Inr (i, s)
        else if r \<noteq> n1 then Inl (Panic ''short filewrite'')
        else filewrite_loop f addr n (i + r) s)
      else Inr (i, s))"
  by auto
termination
  by (relation "measure (\<lambda>(f, addr, n, i, s). nat (n - i))")
    (auto simp: write_max_def MAXOPBLOCKS_def split: if_splits)

declare filewrite_loop.simps [simp del]

definition filewrite :: "nat \<Rightarrow> u32 \<Rightarrow> int \<Rightarrow> 'a kst_scheme \<Rightarrow> (int \<times> 'a kst_scheme) res" where
  "filewrite f addr n s =
     (let ff = ftable s f in
      if \<not> f_writable ff then Inr (-1, s)
      else case f_type ff of
        FD_PIPE \<Rightarrow> write_pipe (f_pipe ff) addr n s
      | FD_INODE \<Rightarrow> bindr (filewrite_loop f addr n 0 s) (\<lambda>(i, s). Inr (if i = n then n else -1, s))
      | FD_NONE \<Rightarrow> Inl (Panic ''filewrite''))"

section \<open>Creating a pipe\<close>

definition pipe_end :: "bool \<Rightarrow> u32 \<Rightarrow> file_t \<Rightarrow> file_t" where
  "pipe_end wr p x = x\<lparr>f_type := FD_PIPE, f_readable := \<not> wr, f_writable := wr, f_pipe := p\<rparr>"

definition close_opt :: "nat option \<Rightarrow> 'a kst_scheme \<Rightarrow> 'a kst_scheme res" where
  "close_opt f s = (case f of None \<Rightarrow> Inr s | Some f \<Rightarrow> fileclose f s)"

text \<open>
  The second file is allocated only when the first was, the page only when both were. The
  lock's \<^verbatim>\<open>name\<close> is left out.
\<close>

definition pipealloc :: "'a kst_scheme \<Rightarrow> ((nat \<times> nat) option \<times> 'a kst_scheme) res" where
  "pipealloc s =
     (let (f0, s) = filealloc s;
          (f1, s) = (if f0 = None then (None, s) else filealloc s);
          (p, s) = (if f1 = None then (0, s) else kalloc_s s)
      in case (f0, f1) of
          (Some a, Some b) \<Rightarrow>
            if p \<noteq> 0 then
              let s = kstore (p + 572) 1 s; s = kstore (p + 576) 1 s;
                  s = kstore (p + 568) 0 s; s = kstore (p + 564) 0 s;
                  s = kstore p 0 s; s = kstore (p + 8) 0 s;
                  s = upd_file a (pipe_end False p) s;
                  s = upd_file b (pipe_end True p) s
              in Inr (Some (a, b), s)
            else bindr (close_opt f0 s) (\<lambda>s. bindr (close_opt f1 s) (\<lambda>s. Inr (None, s)))
        | _ \<Rightarrow> bindr (close_opt f0 s) (\<lambda>s. bindr (close_opt f1 s) (\<lambda>s. Inr (None, s))))"

end
