(* ===== verification/Sysargs.thy ===== *)
theory Sysargs
  imports Files
begin

text \<open>
  Fetching system call arguments from user memory, \<^verbatim>\<open>syscall.c\<close>. \<open>None\<close> is the result -1.
  A fetched string is returned with its bytes: the kernel works on the caller's own copy, which
  nothing changes during the call.
\<close>

definition fetchint :: "u32 \<Rightarrow> 'a kst_scheme \<Rightarrow> u32 option res" where
  "fetchint addr s =
     bindr (myproc s) (\<lambda>p.
     let sz = p_sz (ptable s p) in
     if addr \<ge> sz \<or> addr + 4 > sz then Inr None
     else bindr (copyin addr 4 s) (\<lambda>bs. Inr (Some (rd32 (bytes_at bs) 0))))"

text \<open>The loop of \<^verbatim>\<open>fetchstr\<close> over the \<open>n\<close> addresses from \<open>a\<close> to the end of the process.\<close>

fun fetchstr_loop :: "kmem \<Rightarrow> u32 \<Rightarrow> u32 \<Rightarrow> nat \<Rightarrow> u8 list option res" where
  "fetchstr_loop k pgdir a 0 = Inr None"
| "fetchstr_loop k pgdir a (Suc n) =
     bindr (uread8 k pgdir a) (\<lambda>c.
     if c = 0 then Inr (Some [])
     else bindr (fetchstr_loop k pgdir (a + 1) n) (\<lambda>r. Inr (map_option (\<lambda>cs. c # cs) r)))"

definition fetchstr :: "u32 \<Rightarrow> 'a kst_scheme \<Rightarrow> u8 list option res" where
  "fetchstr addr s =
     bindr (myproc s) (\<lambda>p.
     let sz = p_sz (ptable s p) in
     if addr \<ge> sz then Inr None
     else fetchstr_loop (km s) (p_pgdir (ptable s p)) addr (unat (sz - addr)))"

definition argint :: "nat \<Rightarrow> 'a kst_scheme \<Rightarrow> u32 option res" where
  "argint n s =
     bindr (myproc s) (\<lambda>p. fetchint (kload (p_tf (ptable s p) + tf_esp) s + 4 + 4 * of_nat n) s)"

definition argptr :: "nat \<Rightarrow> int \<Rightarrow> 'a kst_scheme \<Rightarrow> u32 option res" where
  "argptr n len s =
     bindr (myproc s) (\<lambda>p.
     bindr (argint n s) (\<lambda>r.
     case r of
       None \<Rightarrow> Inr None
     | Some i \<Rightarrow>
         let sz = p_sz (ptable s p) in
         if len < 0 \<or> i \<ge> sz \<or> i + of_int len > sz then Inr None else Inr (Some i)))"

definition argstr :: "nat \<Rightarrow> 'a kst_scheme \<Rightarrow> u8 list option res" where
  "argstr n s =
     bindr (argint n s) (\<lambda>r. case r of None \<Rightarrow> Inr None | Some addr \<Rightarrow> fetchstr addr s)"

text \<open>Using an argument; a missing one ends the call with -1.\<close>

definition with_arg :: "'x option res \<Rightarrow> ('x \<Rightarrow> (int \<times> 's) res) \<Rightarrow> 's \<Rightarrow> (int \<times> 's) res" where
  "with_arg r f s = bindr r (\<lambda>r. case r of None \<Rightarrow> Inr (-1, s) | Some x \<Rightarrow> f x)"

text \<open>
  Looking up a path for the running process; \<^verbatim>\<open>cwd\<close> is dereferenced only for a relative path.
\<close>

definition path_cwd :: "u8 list \<Rightarrow> 'a kst_scheme \<Rightarrow> nat res" where
  "path_cwd path s =
     (if path \<noteq> [] \<and> hd path = 47 then Inr 0
      else bindr (myproc s) (\<lambda>p. case p_cwd (ptable s p) of None \<Rightarrow> Inl NullDeref | Some ip \<Rightarrow> Inr ip))"

definition knamei :: "u8 list \<Rightarrow> 'a kst_scheme \<Rightarrow> (nat option \<times> 'a kst_scheme) res" where
  "knamei path s = bindr (path_cwd path s) (\<lambda>cwd. namei devsw cwd path s)"

definition knameiparent :: "u8 list \<Rightarrow> 'a kst_scheme \<Rightarrow> (nat option \<times> (nat \<Rightarrow> u8) \<times> 'a kst_scheme) res" where
  "knameiparent path s = bindr (path_cwd path s) (\<lambda>cwd. nameiparent devsw cwd path (\<lambda>_. 0) s)"

end
