(* ===== verification/Exec.thy ===== *)
theory Exec
  imports Sysargs
begin

text \<open>
  \<^verbatim>\<open>exec\<close> of \<^verbatim>\<open>exec.c\<close> with \<^verbatim>\<open>loaduvm\<close> of \<^verbatim>\<open>vm.c\<close>: build a new address space from an ELF file, push the
  arguments, and only then replace the old image. Every failure takes the exit \<^verbatim>\<open>bad\<close>, which
  releases what was acquired.
\<close>

section \<open>ELF headers (elf.h)\<close>

definition ELF_MAGIC :: u32 where [layout_defs]: "ELF_MAGIC = 0x464C457F"
definition ELF_PROG_LOAD :: u32 where [layout_defs]: "ELF_PROG_LOAD = 1"

record elfhdr =
  e_magic :: u32
  e_entry :: u32
  e_phoff :: u32
  e_phnum :: u16

record proghdr =
  ph_type :: u32
  ph_off :: u32
  ph_vaddr :: u32
  ph_filesz :: u32
  ph_memsz :: u32

text \<open>The fields of the headers that \<^verbatim>\<open>exec\<close> uses, read from the 52 and 32 bytes of the structs.\<close>

definition elfhdr_of :: "u8 list \<Rightarrow> elfhdr" where
  "elfhdr_of bs = \<lparr>e_magic = rd32 (bytes_at bs) 0, e_entry = rd32 (bytes_at bs) 24,
     e_phoff = rd32 (bytes_at bs) 28, e_phnum = rd16 (bytes_at bs) 44\<rparr>"

definition proghdr_of :: "u8 list \<Rightarrow> proghdr" where
  "proghdr_of bs = \<lparr>ph_type = rd32 (bytes_at bs) 0, ph_off = rd32 (bytes_at bs) 4,
     ph_vaddr = rd32 (bytes_at bs) 8, ph_filesz = rd32 (bytes_at bs) 16, ph_memsz = rd32 (bytes_at bs) 20\<rparr>"

section \<open>Copying into an address space\<close>

fun store_bytes :: "mem \<Rightarrow> u32 \<Rightarrow> u8 list \<Rightarrow> mem" where
  "store_bytes m a [] = m"
| "store_bytes m a (c # cs) = store_bytes (m(a := c)) (a + 1) cs"

lemma page_rest_pos: "0 < unat (PGSIZE - (va - PGROUNDDOWN va))"
  using copyout_n_pos [where len = "0xFFFFFFFF" and va = va]
  by (auto simp: copyout_n_def Let_def unat_gt_0 split: if_splits)

text \<open>\<^verbatim>\<open>copyout\<close> of a buffer given by its bytes.\<close>

function copyout_bytes :: "u32 \<Rightarrow> u32 \<Rightarrow> u8 list \<Rightarrow> kmem \<Rightarrow> (int \<times> kmem) res" where
  "copyout_bytes pgdir va bs k =
     (if bs \<noteq> [] then
        let va0 = PGROUNDDOWN va; n = unat (PGSIZE - (va - va0)) in
        bindr (uva2ka pgdir va0 k) (\<lambda>pa0.
          if pa0 = 0 then Inr (-1, k)
          else copyout_bytes pgdir (va0 + PGSIZE) (drop n bs)
                 (k\<lparr>pmem := store_bytes (pmem k) (pa0 + (va - va0)) (take n bs)\<rparr>))
      else Inr (0, k))"
  by pat_completeness auto
termination
  by (relation "measure (\<lambda>(pgdir, va, bs, k). length bs)") (use page_rest_pos in auto)

declare copyout_bytes.simps [simp del]

text \<open>\<^verbatim>\<open>loaduvm\<close>: one turn per page of the segment.\<close>

fun loaduvm_loop :: "nat \<Rightarrow> u32 \<Rightarrow> u32 \<Rightarrow> nat \<Rightarrow> u32 \<Rightarrow> u32 \<Rightarrow> u32 \<Rightarrow> 'a kst_scheme \<Rightarrow>
    (int \<times> 'a kst_scheme) res" where
  "loaduvm_loop 0 pgdir addr ip off sz i s = (if i < sz then Inl Diverges else Inr (0, s))"
| "loaduvm_loop (Suc fuel) pgdir addr ip off sz i s =
     (if i < sz then
        (case walkpgdir pgdir (addr + i) False (km s) of (pte, _) \<Rightarrow>
           if pte = 0 then Inl (Panic ''loaduvm: address should exist'')
           else let pa = PTE_ADDR (kload pte s);
                    n = (if sz - i < PGSIZE then sz - i else PGSIZE)
                in bindr (readi devsw ip (off + i) n s) (\<lambda>(r, bytes, s).
                   let s = upd_pmem (\<lambda>m. store_bytes m (P2V pa) bytes) s in
                   if r \<noteq> sint n then Inr (-1, s)
                   else loaduvm_loop fuel pgdir addr ip off sz (i + PGSIZE) s))
      else Inr (0, s))"

definition loaduvm :: "u32 \<Rightarrow> u32 \<Rightarrow> nat \<Rightarrow> u32 \<Rightarrow> u32 \<Rightarrow> 'a kst_scheme \<Rightarrow> (int \<times> 'a kst_scheme) res" where
  "loaduvm pgdir addr ip off sz s =
     (if addr mod PGSIZE \<noteq> 0 then Inl (Panic ''loaduvm: addr must be page aligned'')
      else loaduvm_loop (Suc (unat (sz div PGSIZE))) pgdir addr ip off sz 0 s)"

section \<open>exec\<close>

text \<open>
  Loading the segments: \<open>n\<close> program headers from file offset \<open>off\<close>. \<open>None\<close> is a jump to \<^verbatim>\<open>bad\<close>.
\<close>

fun load_segments :: "nat \<Rightarrow> u32 \<Rightarrow> nat \<Rightarrow> u32 \<Rightarrow> u32 \<Rightarrow> 'a kst_scheme \<Rightarrow>
    (u32 option \<times> 'a kst_scheme) res" where
  "load_segments 0 off ip pgdir sz s = Inr (Some sz, s)"
| "load_segments (Suc n) off ip pgdir sz s =
     bindr (readi devsw ip off 32 s) (\<lambda>(r, bytes, s).
     let ph = proghdr_of bytes in
     if r \<noteq> 32 then Inr (None, s)
     else if ph_type ph \<noteq> ELF_PROG_LOAD then load_segments n (off + 32) ip pgdir sz s
     else if ph_memsz ph < ph_filesz ph then Inr (None, s)
     else if ph_vaddr ph + ph_memsz ph < ph_vaddr ph then Inr (None, s)
     else bindr (in_km (allocuvm pgdir sz (ph_vaddr ph + ph_memsz ph)) s) (\<lambda>(sz, s).
       if sz = 0 then Inr (None, s)
       else if ph_vaddr ph mod PGSIZE \<noteq> 0 then Inr (None, s)
       else bindr (loaduvm pgdir (ph_vaddr ph) ip (ph_off ph) (ph_filesz ph) s) (\<lambda>(r, s).
         if r < 0 then Inr (None, s) else load_segments n (off + 32) ip pgdir sz s)))"

definition exec_bad :: "u32 \<Rightarrow> nat option \<Rightarrow> 'a kst_scheme \<Rightarrow> (int \<times> 'a kst_scheme) res" where
  "exec_bad pgdir ip s =
     bindr (if pgdir \<noteq> 0 then in_km (\<lambda>k. bindr (freevm pgdir k) (\<lambda>k. Inr ((), k))) s else Inr ((), s)) (\<lambda>(_, s).
     case ip of
       None \<Rightarrow> Inr (-1, s)
     | Some ip \<Rightarrow> bindr (iunlockput ip s) (\<lambda>s. bindr (end_op s) (\<lambda>s. Inr (-1, s))))"

text \<open>
  The argument strings: each is copied below \<open>sp\<close>, rounded down to a word; the list collects
  \<^verbatim>\<open>ustack[3..]\<close>.
\<close>

fun push_args :: "nat \<Rightarrow> u32 \<Rightarrow> u32 \<Rightarrow> u8 list list \<Rightarrow> 'a kst_scheme \<Rightarrow>
    ((u32 \<times> u32 list) option \<times> 'a kst_scheme) res" where
  "push_args argc pgdir sp [] s = Inr (Some (sp, []), s)"
| "push_args argc pgdir sp (arg # args) s =
     (if argc \<ge> MAXARG then Inr (None, s)
      else let sp = (sp - (of_nat (length arg) + 1)) AND NOT 3 in
        bindr (in_km (copyout_bytes pgdir sp (arg @ [0])) s) (\<lambda>(r, s).
        if r < 0 then Inr (None, s)
        else bindr (push_args (Suc argc) pgdir sp args s) (\<lambda>(r, s).
          Inr (map_option (\<lambda>(sp', us). (sp', sp # us)) r, s))))"

text \<open>The last component of the path: what follows its last slash.\<close>

definition last_elem :: "u8 list \<Rightarrow> u8 list" where
  "last_elem path = rev (takeWhile (\<lambda>c. c \<noteq> 47) (rev path))"

definition set_name :: "u8 list \<Rightarrow> (nat \<Rightarrow> u8) \<Rightarrow> nat \<Rightarrow> u8" where
  "set_name t old = (\<lambda>i. if i < min 15 (length t) then t ! i
     else if i = min 15 (length t) then 0 else old i)"

definition exec_commit :: "u8 list \<Rightarrow> u32 \<Rightarrow> u32 \<Rightarrow> u32 \<Rightarrow> u32 \<Rightarrow> 'a kst_scheme \<Rightarrow> (int \<times> 'a kst_scheme) res" where
  "exec_commit path pgdir sz entry sp s =
     bindr (myproc s) (\<lambda>p.
     let oldpgdir = p_pgdir (ptable s p);
         s = upd_proc p (\<lambda>x. x\<lparr>p_name := set_name (last_elem path) (p_name x), p_pgdir := pgdir, p_sz := sz\<rparr>) s;
         s = kstore (p_tf (ptable s p) + tf_eip) entry s;
         s = kstore (p_tf (ptable s p) + tf_esp) sp s in
     bindr (switchuvm p s) (\<lambda>s.
     in_km (\<lambda>k. bindr (freevm oldpgdir k) (\<lambda>k. Inr (0, k))) s))"

text \<open>From the segments on: the stack pages, the arguments, the commit.\<close>

definition exec_stack :: "u8 list \<Rightarrow> u8 list list \<Rightarrow> u32 \<Rightarrow> u32 \<Rightarrow> u32 \<Rightarrow> 'a kst_scheme \<Rightarrow>
    (int \<times> 'a kst_scheme) res" where
  "exec_stack path argv pgdir sz entry s =
     (let sz = PGROUNDUP sz in
      bindr (in_km (allocuvm pgdir sz (sz + 2 * PGSIZE)) s) (\<lambda>(sz, s).
      if sz = 0 then exec_bad pgdir None s
      else bindr (in_km (\<lambda>k. bindr (clearpteu pgdir (sz - 2 * PGSIZE) k) (\<lambda>k. Inr ((), k))) s) (\<lambda>(_, s).
        bindr (push_args 0 pgdir sz argv s) (\<lambda>(r, s).
        case r of
          None \<Rightarrow> exec_bad pgdir None s
        | Some (sp, args) \<Rightarrow>
            let argc = of_nat (length args) :: u32;
                ustack = [0xffffffff, argc, sp - (argc + 1) * 4] @ args @ [0];
                sp = sp - (3 + argc + 1) * 4 in
            bindr (in_km (copyout_bytes pgdir sp (concat (map le32 ustack))) s) (\<lambda>(r, s).
            if r < 0 then exec_bad pgdir None s
            else exec_commit path pgdir sz entry sp s)))))"

definition exec :: "u8 list \<Rightarrow> u8 list list \<Rightarrow> 'a kst_scheme \<Rightarrow> (int \<times> 'a kst_scheme) res" where
  "exec path argv s =
     bindr (begin_op s) (\<lambda>s.
     bindr (knamei path s) (\<lambda>(r, s).
     case r of
       None \<Rightarrow> bindr (end_op s) (\<lambda>s. bindr (kprintf (''exec: fail'' @ [CHR 0x0A]) [] s) (\<lambda>s. Inr (-1, s)))
     | Some ip \<Rightarrow>
         bindr (ilock ip s) (\<lambda>s.
         bindr (readi devsw ip 0 52 s) (\<lambda>(r, bytes, s).
         let elf = elfhdr_of bytes in
         if r \<noteq> 52 \<or> e_magic elf \<noteq> ELF_MAGIC then exec_bad 0 (Some ip) s
         else bindr (in_km setupkvm s) (\<lambda>(pgdir, s).
           if pgdir = 0 then exec_bad 0 (Some ip) s
           else bindr (load_segments (unat (e_phnum elf)) (e_phoff elf) ip pgdir 0 s) (\<lambda>(r, s).
             case r of
               None \<Rightarrow> exec_bad pgdir (Some ip) s
             | Some sz \<Rightarrow>
                 bindr (iunlockput ip s) (\<lambda>s.
                 bindr (end_op s) (\<lambda>s.
                 exec_stack path argv pgdir sz (e_entry elf) s))))))))"

end
