(* ===== verification/Sysfile.thy ===== *)
theory Sysfile
  imports Exec
begin

text \<open>
  The file system calls, \<^verbatim>\<open>sysfile.c\<close>. Each takes its arguments from the stack of the running
  process and returns the value for \<^verbatim>\<open>eax\<close>.
\<close>

section \<open>File descriptors\<close>

definition argfd :: "nat \<Rightarrow> 'a kst_scheme \<Rightarrow> (nat \<times> nat) option res" where
  "argfd n s =
     bindr (myproc s) (\<lambda>p.
     bindr (argint n s) (\<lambda>r.
     case r of
       None \<Rightarrow> Inr None
     | Some fd \<Rightarrow>
         if sint fd < 0 \<or> sint fd \<ge> int NOFILE then Inr None
         else Inr (map_option (\<lambda>f. (unat fd, f)) (p_ofile (ptable s p) (unat fd)))))"

fun fdalloc_loop :: "nat list \<Rightarrow> (nat \<Rightarrow> nat option) \<Rightarrow> nat option" where
  "fdalloc_loop [] ofile = None"
| "fdalloc_loop (fd # fds) ofile = (if ofile fd = None then Some fd else fdalloc_loop fds ofile)"

definition set_ofile :: "nat \<Rightarrow> nat option \<Rightarrow> 'a kst_scheme \<Rightarrow> 'a kst_scheme res" where
  "set_ofile fd f s =
     bindr (myproc s) (\<lambda>p. Inr (upd_proc p (\<lambda>x. x\<lparr>p_ofile := (p_ofile x)(fd := f)\<rparr>) s))"

definition fdalloc :: "nat \<Rightarrow> 'a kst_scheme \<Rightarrow> (nat option \<times> 'a kst_scheme) res" where
  "fdalloc f s =
     bindr (myproc s) (\<lambda>p.
     case fdalloc_loop [0..<NOFILE] (p_ofile (ptable s p)) of
       None \<Rightarrow> Inr (None, s)
     | Some fd \<Rightarrow> bindr (set_ofile fd (Some f) s) (\<lambda>s. Inr (Some fd, s)))"

definition sys_dup :: "'a kst_scheme \<Rightarrow> (int \<times> 'a kst_scheme) res" where
  "sys_dup s =
     with_arg (argfd 0 s) (\<lambda>(_, f).
       bindr (fdalloc f s) (\<lambda>(r, s).
       case r of
         None \<Rightarrow> Inr (-1, s)
       | Some fd \<Rightarrow> bindr (filedup f s) (\<lambda>(_, s). Inr (int fd, s)))) s"

definition sys_read :: "'a kst_scheme \<Rightarrow> (int \<times> 'a kst_scheme) res" where
  "sys_read s =
     with_arg (argfd 0 s) (\<lambda>(_, f).
     with_arg (argint 2 s) (\<lambda>n.
     with_arg (argptr 1 (sint n) s) (\<lambda>p. fileread f p (sint n) s) s) s) s"

definition sys_write :: "'a kst_scheme \<Rightarrow> (int \<times> 'a kst_scheme) res" where
  "sys_write s =
     with_arg (argfd 0 s) (\<lambda>(_, f).
     with_arg (argint 2 s) (\<lambda>n.
     with_arg (argptr 1 (sint n) s) (\<lambda>p. filewrite f p (sint n) s) s) s) s"

definition sys_close :: "'a kst_scheme \<Rightarrow> (int \<times> 'a kst_scheme) res" where
  "sys_close s =
     with_arg (argfd 0 s) (\<lambda>(fd, f).
       bindr (set_ofile fd None s) (\<lambda>s. bindr (fileclose f s) (\<lambda>s. Inr (0, s)))) s"

definition sys_fstat :: "'a kst_scheme \<Rightarrow> (int \<times> 'a kst_scheme) res" where
  "sys_fstat s =
     with_arg (argfd 0 s) (\<lambda>(_, f). with_arg (argptr 1 20 s) (\<lambda>st. filestat f st s) s) s"

section \<open>Links\<close>

definition op_fail :: "'a kst_scheme \<Rightarrow> (int \<times> 'a kst_scheme) res" where
  "op_fail s = bindr (end_op s) (\<lambda>s. Inr (-1, s))"

definition add_nlink :: "nat \<Rightarrow> u16 \<Rightarrow> 'a kst_scheme \<Rightarrow> 'a kst_scheme" where
  "add_nlink ip d s = upd_inode ip (\<lambda>x. x\<lparr>i_nlink := i_nlink x + d\<rparr>) s"

text \<open>The exit \<^verbatim>\<open>bad\<close> of \<^verbatim>\<open>sys_link\<close>.\<close>

definition link_bad :: "nat \<Rightarrow> 'a kst_scheme \<Rightarrow> (int \<times> 'a kst_scheme) res" where
  "link_bad ip s =
     bindr (ilock ip s) (\<lambda>s.
     bindr (iupdate ip (add_nlink ip (-1) s)) (\<lambda>s.
     bindr (iunlockput ip s) op_fail))"

definition link_new :: "nat \<Rightarrow> u8 list \<Rightarrow> 'a kst_scheme \<Rightarrow> (int \<times> 'a kst_scheme) res" where
  "link_new ip newp s =
     bindr (knameiparent newp s) (\<lambda>(r, name, s).
     case r of
       None \<Rightarrow> link_bad ip s
     | Some dp \<Rightarrow>
         bindr (ilock dp s) (\<lambda>s.
         bindr (if i_dev (icache s dp) \<noteq> i_dev (icache s ip) then Inr (-1, s)
                else dirlink devsw dp name (i_inum (icache s ip)) s) (\<lambda>(r, s).
         if r < 0 then bindr (iunlockput dp s) (link_bad ip)
         else bindr (iunlockput dp s) (\<lambda>s.
           bindr (iput ip s) (\<lambda>s. bindr (end_op s) (\<lambda>s. Inr (0, s)))))))"

definition sys_link :: "'a kst_scheme \<Rightarrow> (int \<times> 'a kst_scheme) res" where
  "sys_link s =
     with_arg (argstr 0 s) (\<lambda>old.
     with_arg (argstr 1 s) (\<lambda>newp.
       bindr (begin_op s) (\<lambda>s.
       bindr (knamei old s) (\<lambda>(r, s).
       case r of
         None \<Rightarrow> op_fail s
       | Some ip \<Rightarrow>
           bindr (ilock ip s) (\<lambda>s.
           if i_type (icache s ip) = T_DIR then bindr (iunlockput ip s) op_fail
           else bindr (iupdate ip (add_nlink ip 1 s)) (\<lambda>s.
             bindr (iunlock ip s) (link_new ip newp)))))) s) s"

fun isdirempty_loop :: "nat \<Rightarrow> u32 list \<Rightarrow> 'a kst_scheme \<Rightarrow> (bool \<times> 'a kst_scheme) res" where
  "isdirempty_loop dp [] s = Inr (True, s)"
| "isdirempty_loop dp (off # offs) s =
     bindr (readi devsw dp off 16 s) (\<lambda>(r, de, s).
     if r \<noteq> 16 then Inl (Panic ''isdirempty: readi'')
     else if de_inum de \<noteq> 0 then Inr (False, s)
     else isdirempty_loop dp offs s)"

definition isdirempty :: "nat \<Rightarrow> 'a kst_scheme \<Rightarrow> (bool \<times> 'a kst_scheme) res" where
  "isdirempty dp s = isdirempty_loop dp (drop 2 (dir_offs (i_size (icache s dp)))) s"

definition unlink_bad :: "nat \<Rightarrow> 'a kst_scheme \<Rightarrow> (int \<times> 'a kst_scheme) res" where
  "unlink_bad dp s = bindr (iunlockput dp s) op_fail"

text \<open>The rest of \<^verbatim>\<open>sys_unlink\<close> once the entry at \<open>off\<close> of \<open>dp\<close> is found to name \<open>ip\<close>.\<close>

definition unlink_entry :: "nat \<Rightarrow> nat \<Rightarrow> u32 \<Rightarrow> 'a kst_scheme \<Rightarrow> (int \<times> 'a kst_scheme) res" where
  "unlink_entry dp ip off s =
     bindr (writei devsw dp (\<lambda>_. 0) off 16 s) (\<lambda>(r, s).
     if r \<noteq> 16 then Inl (Panic ''unlink: writei'')
     else bindr (if i_type (icache s ip) = T_DIR then iupdate dp (add_nlink dp (-1) s) else Inr s) (\<lambda>s.
       bindr (iunlockput dp s) (\<lambda>s.
       bindr (iupdate ip (add_nlink ip (-1) s)) (\<lambda>s.
       bindr (iunlockput ip s) (\<lambda>s.
       bindr (end_op s) (\<lambda>s. Inr (0, s)))))))"

definition sys_unlink :: "'a kst_scheme \<Rightarrow> (int \<times> 'a kst_scheme) res" where
  "sys_unlink s =
     with_arg (argstr 0 s) (\<lambda>path.
       bindr (begin_op s) (\<lambda>s.
       bindr (knameiparent path s) (\<lambda>(r, name, s).
       case r of
         None \<Rightarrow> op_fail s
       | Some dp \<Rightarrow>
           bindr (ilock dp s) (\<lambda>s.
           if namecmp name (bytes_at [46]) = 0 \<or> namecmp name (bytes_at [46, 46]) = 0 then unlink_bad dp s
           else bindr (dirlookup devsw dp name s) (\<lambda>(r, s).
             case r of
               None \<Rightarrow> unlink_bad dp s
             | Some (ip, off) \<Rightarrow>
                 bindr (ilock ip s) (\<lambda>s.
                 if sint (i_nlink (icache s ip)) < 1 then Inl (Panic ''unlink: nlink < 1'')
                 else bindr (if i_type (icache s ip) = T_DIR then isdirempty ip s else Inr (True, s)) (\<lambda>(emp, s).
                   if \<not> emp then bindr (iunlockput ip s) (unlink_bad dp)
                   else unlink_entry dp ip off s))))))) s"

section \<open>Creating and opening\<close>

text \<open>The entries \<^verbatim>\<open>.\<close> and \<^verbatim>\<open>..\<close> of a new directory.\<close>

definition create_dots :: "nat \<Rightarrow> nat \<Rightarrow> 'a kst_scheme \<Rightarrow> 'a kst_scheme res" where
  "create_dots dp ip s =
     bindr (iupdate dp (add_nlink dp 1 s)) (\<lambda>s.
     bindr (dirlink devsw ip (bytes_at [46]) (i_inum (icache s ip)) s) (\<lambda>(r, s).
     if r < 0 then Inl (Panic ''create dots'')
     else bindr (dirlink devsw ip (bytes_at [46, 46]) (i_inum (icache s dp)) s) (\<lambda>(r, s).
       if r < 0 then Inl (Panic ''create dots'') else Inr s)))"

definition create_new :: "nat \<Rightarrow> (nat \<Rightarrow> u8) \<Rightarrow> u16 \<Rightarrow> u16 \<Rightarrow> u16 \<Rightarrow> 'a kst_scheme \<Rightarrow>
    (nat option \<times> 'a kst_scheme) res" where
  "create_new dp name type major minor s =
     bindr (ialloc (i_dev (icache s dp)) type s) (\<lambda>(ip, s).
     bindr (ilock ip s) (\<lambda>s.
     bindr (iupdate ip (upd_inode ip (\<lambda>x. x\<lparr>i_major := major, i_minor := minor, i_nlink := 1\<rparr>) s)) (\<lambda>s.
     bindr (if type = T_DIR then create_dots dp ip s else Inr s) (\<lambda>s.
     bindr (dirlink devsw dp name (i_inum (icache s ip)) s) (\<lambda>(r, s).
     if r < 0 then Inl (Panic ''create: dirlink'')
     else bindr (iunlockput dp s) (\<lambda>s. Inr (Some ip, s)))))))"

definition create :: "u8 list \<Rightarrow> u16 \<Rightarrow> u16 \<Rightarrow> u16 \<Rightarrow> 'a kst_scheme \<Rightarrow> (nat option \<times> 'a kst_scheme) res" where
  "create path type major minor s =
     bindr (knameiparent path s) (\<lambda>(r, name, s).
     case r of
       None \<Rightarrow> Inr (None, s)
     | Some dp \<Rightarrow>
         bindr (ilock dp s) (\<lambda>s.
         bindr (dirlookup devsw dp name s) (\<lambda>(r, s).
         case r of
           Some (ip, _) \<Rightarrow>
             bindr (iunlockput dp s) (\<lambda>s.
             bindr (ilock ip s) (\<lambda>s.
             if type = T_FILE \<and> i_type (icache s ip) = T_FILE then Inr (Some ip, s)
             else bindr (iunlockput ip s) (\<lambda>s. Inr (None, s))))
         | None \<Rightarrow> create_new dp name type major minor s)))"

definition O_RDONLY :: u32 where [layout_defs]: "O_RDONLY = 0"
definition O_WRONLY :: u32 where [layout_defs]: "O_WRONLY = 1"
definition O_RDWR :: u32 where [layout_defs]: "O_RDWR = 2"
definition O_CREATE :: u32 where [layout_defs]: "O_CREATE = 0x200"

text \<open>The inode to open, locked; \<open>None\<close> when the call fails, after its transaction has ended.\<close>

definition open_inode :: "u8 list \<Rightarrow> u32 \<Rightarrow> 'a kst_scheme \<Rightarrow> (nat option \<times> 'a kst_scheme) res" where
  "open_inode path omode s =
     (if omode AND O_CREATE \<noteq> 0 then
        bindr (create path T_FILE 0 0 s) (\<lambda>(r, s).
        case r of None \<Rightarrow> bindr (end_op s) (\<lambda>s. Inr (None, s)) | Some ip \<Rightarrow> Inr (Some ip, s))
      else
        bindr (knamei path s) (\<lambda>(r, s).
        case r of
          None \<Rightarrow> bindr (end_op s) (\<lambda>s. Inr (None, s))
        | Some ip \<Rightarrow>
            bindr (ilock ip s) (\<lambda>s.
            if i_type (icache s ip) = T_DIR \<and> omode \<noteq> O_RDONLY
            then bindr (iunlockput ip s) (\<lambda>s. bindr (end_op s) (\<lambda>s. Inr (None, s)))
            else Inr (Some ip, s))))"

definition open_file :: "nat \<Rightarrow> u32 \<Rightarrow> file_t \<Rightarrow> file_t" where
  "open_file ip omode x = x\<lparr>f_type := FD_INODE, f_ip := ip, f_off := 0,
     f_readable := (omode AND O_WRONLY = 0),
     f_writable := (omode AND O_WRONLY \<noteq> 0 \<or> omode AND O_RDWR \<noteq> 0)\<rparr>"

definition sys_open :: "'a kst_scheme \<Rightarrow> (int \<times> 'a kst_scheme) res" where
  "sys_open s =
     with_arg (argstr 0 s) (\<lambda>path.
     with_arg (argint 1 s) (\<lambda>omode.
       bindr (begin_op s) (\<lambda>s.
       bindr (open_inode path omode s) (\<lambda>(r, s).
       case r of
         None \<Rightarrow> Inr (-1, s)
       | Some ip \<Rightarrow>
           case filealloc s of (fo, s) \<Rightarrow>
           bindr (case fo of None \<Rightarrow> Inr (None, s) | Some f \<Rightarrow> fdalloc f s) (\<lambda>(fdo, s).
           case (fo, fdo) of
             (Some f, Some fd) \<Rightarrow>
               bindr (iunlock ip s) (\<lambda>s.
               bindr (end_op s) (\<lambda>s. Inr (int fd, upd_file f (open_file ip omode) s)))
           | _ \<Rightarrow>
               bindr (close_opt fo s) (\<lambda>s. bindr (iunlockput ip s) op_fail))))) s) s"

definition sys_mkdir :: "'a kst_scheme \<Rightarrow> (int \<times> 'a kst_scheme) res" where
  "sys_mkdir s =
     bindr (begin_op s) (\<lambda>s.
     bindr (argstr 0 s) (\<lambda>path.
     case path of
       None \<Rightarrow> op_fail s
     | Some path \<Rightarrow>
         bindr (create path T_DIR 0 0 s) (\<lambda>(r, s).
         case r of
           None \<Rightarrow> op_fail s
         | Some ip \<Rightarrow> bindr (iunlockput ip s) (\<lambda>s. bindr (end_op s) (\<lambda>s. Inr (0, s))))))"

definition sys_mknod :: "'a kst_scheme \<Rightarrow> (int \<times> 'a kst_scheme) res" where
  "sys_mknod s =
     bindr (begin_op s) (\<lambda>s.
     bindr (argstr 0 s) (\<lambda>path. bindr (argint 1 s) (\<lambda>major. bindr (argint 2 s) (\<lambda>minor.
     case (path, major, minor) of
       (Some path, Some major, Some minor) \<Rightarrow>
         bindr (create path T_DEV (ucast major) (ucast minor) s) (\<lambda>(r, s).
         case r of
           None \<Rightarrow> op_fail s
         | Some ip \<Rightarrow> bindr (iunlockput ip s) (\<lambda>s. bindr (end_op s) (\<lambda>s. Inr (0, s))))
     | _ \<Rightarrow> op_fail s))))"

definition sys_chdir :: "'a kst_scheme \<Rightarrow> (int \<times> 'a kst_scheme) res" where
  "sys_chdir s =
     bindr (myproc s) (\<lambda>p.
     bindr (begin_op s) (\<lambda>s.
     bindr (argstr 0 s) (\<lambda>path.
     bindr (case path of None \<Rightarrow> Inr (None, s) | Some path \<Rightarrow> knamei path s) (\<lambda>(r, s).
     case r of
       None \<Rightarrow> op_fail s
     | Some ip \<Rightarrow>
         bindr (ilock ip s) (\<lambda>s.
         if i_type (icache s ip) \<noteq> T_DIR then bindr (iunlockput ip s) op_fail
         else bindr (iunlock ip s) (\<lambda>s.
           case p_cwd (ptable s p) of
             None \<Rightarrow> Inl NullDeref
           | Some old \<Rightarrow>
               bindr (iput old s) (\<lambda>s.
               bindr (end_op s) (\<lambda>s. Inr (0, upd_proc p (\<lambda>x. x\<lparr>p_cwd := Some ip\<rparr>) s)))))))))"

text \<open>The loop of \<^verbatim>\<open>sys_exec\<close> from index \<open>MAXARG - n\<close>.\<close>

fun fetch_args :: "nat \<Rightarrow> u32 \<Rightarrow> 'a kst_scheme \<Rightarrow> u8 list list option res" where
  "fetch_args 0 uargv s = Inr None"
| "fetch_args (Suc n) uargv s =
     bindr (fetchint uargv s) (\<lambda>uarg.
     case uarg of
       None \<Rightarrow> Inr None
     | Some uarg \<Rightarrow>
         if uarg = 0 then Inr (Some [])
         else bindr (fetchstr uarg s) (\<lambda>arg.
           case arg of
             None \<Rightarrow> Inr None
           | Some arg \<Rightarrow> bindr (fetch_args n (uargv + 4) s) (\<lambda>r. Inr (map_option (\<lambda>as. arg # as) r))))"

definition sys_exec :: "'a kst_scheme \<Rightarrow> (int \<times> 'a kst_scheme) res" where
  "sys_exec s =
     with_arg (argstr 0 s) (\<lambda>path.
     with_arg (argint 1 s) (\<lambda>uargv.
     with_arg (fetch_args MAXARG uargv s) (\<lambda>argv. exec path argv s) s) s) s"

definition sys_pipe :: "'a kst_scheme \<Rightarrow> (int \<times> 'a kst_scheme) res" where
  "sys_pipe s =
     with_arg (argptr 0 8 s) (\<lambda>fd.
       bindr (pipealloc s) (\<lambda>(r, s).
       case r of
         None \<Rightarrow> Inr (-1, s)
       | Some (rdf, wrf) \<Rightarrow>
           bindr (fdalloc rdf s) (\<lambda>(fd0, s).
           bindr (case fd0 of None \<Rightarrow> Inr (None, s) | Some _ \<Rightarrow> fdalloc wrf s) (\<lambda>(fd1, s).
           case (fd0, fd1) of
             (Some fd0, Some fd1) \<Rightarrow>
               bindr (copyto fd (le32 (of_nat fd0)) s) (\<lambda>s.
               bindr (copyto (fd + 4) (le32 (of_nat fd1)) s) (\<lambda>s. Inr (0, s)))
           | _ \<Rightarrow>
               bindr (case fd0 of None \<Rightarrow> Inr s | Some fd0 \<Rightarrow> set_ofile fd0 None s) (\<lambda>s.
               bindr (fileclose rdf s) (\<lambda>s. bindr (fileclose wrf s) (\<lambda>s. Inr (-1, s)))))))) s"

end
