(* ===== verification/Proc.thy ===== *)
theory Proc
  imports Sysfile
begin

text \<open>
  Processes, \<^verbatim>\<open>proc.c\<close>. Process pointers are indices of \<^verbatim>\<open>ptable.proc\<close>. \<^verbatim>\<open>ptable.lock\<close> makes each
  stretch between two context switches one step: \<open>sleep\<close>, \<open>yield\<close> and \<open>exit\<close> end where \<^verbatim>\<open>sched\<close>
  switches to the scheduler, and \<open>wait\<close> is one scan of the process table that either returns or
  goes to sleep. The checks of \<^verbatim>\<open>sched\<close> on the lock and the interrupt flag belong to the model of
  spin locks.
\<close>

section \<open>Mapping nodes (proc.h)\<close>

text \<open>Offsets in \<^verbatim>\<open>struct lazy\<close>, which is 32 bytes long.\<close>

definition lz_fd :: u32 where [layout_defs]: "lz_fd = 0"
definition lz_addr :: u32 where [layout_defs]: "lz_addr = 4"
definition lz_length :: u32 where [layout_defs]: "lz_length = 8"
definition lz_shared :: u32 where [layout_defs]: "lz_shared = 12"
definition lz_used :: u32 where [layout_defs]: "lz_used = 16"
definition lz_numPages :: u32 where [layout_defs]: "lz_numPages = 20"
definition lz_next :: u32 where [layout_defs]: "lz_next = 24"
definition lz_prev :: u32 where [layout_defs]: "lz_prev = 28"
definition sizeof_lazy :: u32 where [layout_defs]: "sizeof_lazy = 32"

text \<open>
  Every node has a page of its own, so a list without a cycle has fewer than \<open>2 ^ 20\<close> nodes.
\<close>

definition lazy_fuel :: nat where "lazy_fuel = 1048576"

text \<open>The offsets of the pages of a region: the loop \<^verbatim>\<open>for(i = 0; i < length; i += 4096)\<close>.\<close>

definition page_offs :: "u32 \<Rightarrow> u32 list" where
  "page_offs len = map (\<lambda>k. of_nat (4096 * k)) [0..<(nat (sint len) + 4095) div 4096]"

section \<open>Creating processes\<close>

fun unused_proc :: "nat list \<Rightarrow> (nat \<Rightarrow> proc) \<Rightarrow> nat option" where
  "unused_proc [] pt = None"
| "unused_proc (p # ps) pt = (if p_state (pt p) = UNUSED then Some p else unused_proc ps pt)"

text \<open>The kernel stack of a new process: trap frame, return address, context.\<close>

definition setup_kstack :: "nat \<Rightarrow> u32 \<Rightarrow> 'a kst_scheme \<Rightarrow> 'a kst_scheme" where
  "setup_kstack p kstack s =
     (let sp = kstack + KSTACKSIZE - sizeof_trapframe;
          s = upd_proc p (\<lambda>x. x\<lparr>p_tf := sp\<rparr>) s;
          sp = sp - 4;
          s = kstore sp (trapret_pc s) s;
          sp = sp - sizeof_context;
          s = upd_proc p (\<lambda>x. x\<lparr>p_context := sp\<rparr>) s;
          s = upd_pmem (\<lambda>m. memset m sp 0 sizeof_context) s
      in kstore (sp + 16) (forkret_pc s) s)"

definition allocproc :: "'a kst_scheme \<Rightarrow> (nat option \<times> 'a kst_scheme) res" where
  "allocproc s =
     (case unused_proc [0..<NPROC] (ptable s) of
        None \<Rightarrow> Inr (None, s)
      | Some p \<Rightarrow>
          let s = upd_proc p (\<lambda>x. x\<lparr>p_state := EMBRYO, p_pid := nextpid s\<rparr>) s;
              s = s\<lparr>nextpid := nextpid s + 1\<rparr> in
          case kalloc_s s of (kstack, s) \<Rightarrow>
            let s = upd_proc p (\<lambda>x. x\<lparr>p_kstack := kstack\<rparr>) s in
            if kstack = 0 then Inr (None, upd_proc p (\<lambda>x. x\<lparr>p_state := UNUSED\<rparr>) s)
            else let s = setup_kstack p kstack s in
              case kalloc_s s of (head, s) \<Rightarrow>
                if head = 0 then Inl NullDeref
                else let s = upd_pmem (\<lambda>m. memset m head 0 sizeof_lazy) s
                     in Inr (Some p, upd_proc p (\<lambda>x. x\<lparr>p_head := head, p_tail := head\<rparr>) s))"

definition userinit :: "u32 \<Rightarrow> u32 \<Rightarrow> 'a kst_scheme \<Rightarrow> 'a kst_scheme res" where
  "userinit initcode initsize s =
     bindr (allocproc s) (\<lambda>(p, s).
     case p of
       None \<Rightarrow> Inl NullDeref
     | Some p \<Rightarrow>
         bindr (in_km setupkvm (s\<lparr>initproc := p\<rparr>)) (\<lambda>(pgdir, s).
         let s = upd_proc p (\<lambda>x. x\<lparr>p_pgdir := pgdir\<rparr>) s in
         if pgdir = 0 then Inl (Panic ''userinit: out of memory?'')
         else bindr (in_km (\<lambda>k. bindr (inituvm pgdir initcode initsize k) (\<lambda>k. Inr ((), k))) s) (\<lambda>(_, s).
           let s = upd_proc p (\<lambda>x. x\<lparr>p_sz := PGSIZE\<rparr>) s;
               tf = p_tf (ptable s p);
               s = upd_pmem (\<lambda>m. memset m tf 0 sizeof_trapframe) s;
               s = kstore16 (tf + tf_cs) 27 s;
               s = kstore16 (tf + tf_ds) 35 s;
               s = kstore16 (tf + tf_es) 35 s;
               s = kstore16 (tf + tf_ss) 35 s;
               s = kstore (tf + tf_eflags) 0x200 s;
               s = kstore (tf + tf_esp) PGSIZE s;
               s = kstore (tf + tf_eip) 0 s;
               s = upd_proc p (\<lambda>x. x\<lparr>p_name := set_name (map of_char ''initcode'') (p_name x)\<rparr>) s in
           bindr (knamei [47] s) (\<lambda>(cwd, s).
           Inr (upd_proc p (\<lambda>x. x\<lparr>p_cwd := cwd, p_state := RUNNABLE\<rparr>) s)))))"

definition growproc :: "u32 \<Rightarrow> 'a kst_scheme \<Rightarrow> (int \<times> 'a kst_scheme) res" where
  "growproc n s =
     bindr (myproc s) (\<lambda>p.
     let sz = p_sz (ptable s p); pgdir = p_pgdir (ptable s p) in
     bindr (if sint n > 0 then in_km (allocuvm pgdir sz (sz + n)) s
            else if sint n < 0 then in_km (deallocuvm pgdir sz (sz + n)) s
            else Inr (sz, s)) (\<lambda>(sz, s).
     if sint n \<noteq> 0 \<and> sz = 0 then Inr (-1, s)
     else bindr (switchuvm p (upd_proc p (\<lambda>x. x\<lparr>p_sz := sz\<rparr>) s)) (\<lambda>s. Inr (0, s))))"

section \<open>fork\<close>

text \<open>The loop over the mapping list: \<open>child\<close> walks the child's list, \<open>temp\<close> the parent's.\<close>

fun fork_lazy :: "nat \<Rightarrow> u32 \<Rightarrow> u32 \<Rightarrow> mem \<Rightarrow> mem res" where
  "fork_lazy 0 child temp m = (if temp = 0 then Inr m else Inl Diverges)"
| "fork_lazy (Suc fuel) child temp m =
     (if temp = 0 then Inr m
      else let c = rd32 m (child + lz_next) in
        if c = 0 then Inl NullDeref
        else let m = memmove m c temp sizeof_lazy
             in fork_lazy fuel (rd32 m (child + lz_next)) (rd32 m (temp + lz_next)) m)"

definition fork_files :: "nat \<Rightarrow> nat \<Rightarrow> 'a kst_scheme \<Rightarrow> 'a kst_scheme res" where
  "fork_files me np s =
     forr [0..<NOFILE] (\<lambda>i s.
       case p_ofile (ptable s me) i of
         None \<Rightarrow> Inr s
       | Some f \<Rightarrow> bindr (filedup f s) (\<lambda>(f, s).
           Inr (upd_proc np (\<lambda>x. x\<lparr>p_ofile := (p_ofile x)(i := Some f)\<rparr>) s))) s"

definition fork_fill :: "nat \<Rightarrow> nat \<Rightarrow> 'a kst_scheme \<Rightarrow> (int \<times> 'a kst_scheme) res" where
  "fork_fill me np s =
     (let head = p_head (ptable s np); phead = p_head (ptable s me);
          s = upd_pmem (\<lambda>m. memmove m head phead sizeof_lazy) s in
      bindr (fork_lazy lazy_fuel head (kload (phead + lz_next) s) (pmem (km s))) (\<lambda>m.
      let s = upd_pmem (\<lambda>_. m) s;
          s = upd_proc np (\<lambda>x. x\<lparr>p_sz := p_sz (ptable s me), p_parent := Some me\<rparr>) s;
          tf = p_tf (ptable s np);
          s = upd_pmem (\<lambda>m. memmove m tf (p_tf (ptable s me)) sizeof_trapframe) s;
          s = kstore (tf + tf_eax) 0 s in
      bindr (fork_files me np s) (\<lambda>s.
      case p_cwd (ptable s me) of
        None \<Rightarrow> Inl NullDeref
      | Some cwd \<Rightarrow>
          (case idup cwd s of (cwd, s) \<Rightarrow>
           let s = upd_proc np (\<lambda>x. x\<lparr>p_cwd := Some cwd,
                     p_name := set_name (proc_name (ptable s me)) (p_name x)\<rparr>) s;
               pid = p_pid (ptable s np)
           in Inr (pid, upd_proc np (\<lambda>x. x\<lparr>p_state := RUNNABLE\<rparr>) s)))))"

definition fork :: "'a kst_scheme \<Rightarrow> (int \<times> 'a kst_scheme) res" where
  "fork s =
     bindr (myproc s) (\<lambda>me.
     bindr (allocproc s) (\<lambda>(np, s).
     case np of
       None \<Rightarrow> Inr (-1, s)
     | Some np \<Rightarrow>
         bindr (in_km (forkuvm (p_pgdir (ptable s me)) (p_sz (ptable s me))) s) (\<lambda>(pgdir, s).
         let s = upd_proc np (\<lambda>x. x\<lparr>p_pgdir := pgdir\<rparr>) s in
         if pgdir = 0 then
           bindr (kfree_s (p_kstack (ptable s np)) s) (\<lambda>s.
           Inr (-1, upd_proc np (\<lambda>x. x\<lparr>p_kstack := 0, p_state := UNUSED\<rparr>) s))
         else fork_fill me np s)))"

section \<open>Sleeping and waking\<close>

text \<open>The part of \<^verbatim>\<open>sched\<close> that concerns the process, and the switch to the scheduler.\<close>

definition sched :: "'a kst_scheme \<Rightarrow> 'a kst_scheme res" where
  "sched s =
     bindr (myproc s) (\<lambda>p.
     if p_state (ptable s p) = RUNNING then Inl (Panic ''sched running'')
     else Inr (switchkvm (s\<lparr>cur := None\<rparr>)))"

definition sleep :: "chan \<Rightarrow> 'a kst_scheme \<Rightarrow> 'a kst_scheme res" where
  "sleep ch s =
     (case cur s of
        None \<Rightarrow> Inl (Panic ''sleep'')
      | Some p \<Rightarrow> sched (upd_proc p (\<lambda>x. x\<lparr>p_chan := Some ch, p_state := SLEEPING\<rparr>) s))"

text \<open>\<^verbatim>\<open>sleep\<close> after the process runs again: \<^verbatim>\<open>p->chan = 0\<close>.\<close>

definition sleep_awake :: "'a kst_scheme \<Rightarrow> 'a kst_scheme res" where
  "sleep_awake s = bindr (myproc s) (\<lambda>p. Inr (upd_proc p (\<lambda>x. x\<lparr>p_chan := None\<rparr>) s))"

definition yield :: "'a kst_scheme \<Rightarrow> 'a kst_scheme res" where
  "yield s = bindr (myproc s) (\<lambda>p. sched (upd_proc p (\<lambda>x. x\<lparr>p_state := RUNNABLE\<rparr>) s))"

definition forkret :: "bool \<Rightarrow> 'a kst_scheme \<Rightarrow> 'a kst_scheme res" where
  "forkret first s = (if first then bindr (iinit ROOTDEV s) (initlog ROOTDEV) else Inr s)"

text \<open>
  One turn of \<^verbatim>\<open>scheduler\<close>: the first runnable process at or after a position of the table, and
  the switch to it.
\<close>

fun scheduler_scan :: "nat list \<Rightarrow> (nat \<Rightarrow> proc) \<Rightarrow> nat option" where
  "scheduler_scan [] pt = None"
| "scheduler_scan (p # ps) pt = (if p_state (pt p) = RUNNABLE then Some p else scheduler_scan ps pt)"

definition scheduler :: "nat \<Rightarrow> 'a kst_scheme \<Rightarrow> 'a kst_scheme res" where
  "scheduler i s =
     (case scheduler_scan [i..<NPROC] (ptable s) of
        None \<Rightarrow> Inr s
      | Some p \<Rightarrow>
          bindr (switchuvm p (s\<lparr>cur := Some p, mypid := p_pid (ptable s p)\<rparr>)) (\<lambda>s.
          Inr (upd_proc p (\<lambda>x. x\<lparr>p_state := RUNNING\<rparr>) s)))"

fun kill_loop :: "nat list \<Rightarrow> int \<Rightarrow> 'a kst_scheme \<Rightarrow> int \<times> 'a kst_scheme" where
  "kill_loop [] pid s = (-1, s)"
| "kill_loop (p # ps) pid s =
     (if p_pid (ptable s p) = pid then
        (0, upd_proc p (\<lambda>x. x\<lparr>p_killed := True,
               p_state := (if p_state x = SLEEPING then RUNNABLE else p_state x)\<rparr>) s)
      else kill_loop ps pid s)"

definition kill :: "int \<Rightarrow> 'a kst_scheme \<Rightarrow> int \<times> 'a kst_scheme" where
  "kill pid s = kill_loop [0..<NPROC] pid s"

section \<open>exit\<close>

text \<open>\<^verbatim>\<open>kfree(P2V(PTE_ADDR(*pte)))\<close> for the pages of a region; the entry is not cleared.\<close>

definition exit_region :: "u32 \<Rightarrow> u32 \<Rightarrow> u32 \<Rightarrow> 'a kst_scheme \<Rightarrow> 'a kst_scheme res" where
  "exit_region pgdir addr len s =
     forr (page_offs len) (\<lambda>i s.
       case walkpgdir pgdir (addr + i) False (km s) of (pte, _) \<Rightarrow>
         if pte = 0 then Inl NullDeref else kfree_s (P2V (PTE_ADDR (kload pte s))) s) s"

fun exit_lazy :: "nat \<Rightarrow> u32 \<Rightarrow> u32 \<Rightarrow> 'a kst_scheme \<Rightarrow> 'a kst_scheme res" where
  "exit_lazy 0 pgdir head s = (if head = 0 then Inr s else Inl Diverges)"
| "exit_lazy (Suc fuel) pgdir head s =
     (if head = 0 then Inr s
      else let temp = kload (head + lz_next) s in
        bindr (exit_region pgdir (kload (head + lz_addr) s) (kload (head + lz_length) s) s)
          (exit_lazy fuel pgdir temp))"

definition exit_files :: "nat \<Rightarrow> 'a kst_scheme \<Rightarrow> 'a kst_scheme res" where
  "exit_files me s =
     forr [0..<NOFILE] (\<lambda>fd s.
       case p_ofile (ptable s me) fd of
         None \<Rightarrow> Inr s
       | Some f \<Rightarrow> bindr (fileclose f s) (\<lambda>s.
           Inr (upd_proc me (\<lambda>x. x\<lparr>p_ofile := (p_ofile x)(fd := None)\<rparr>) s))) s"

text \<open>Abandoned children go to \<^verbatim>\<open>initproc\<close>, which is woken when one is a zombie.\<close>

definition reparent :: "nat \<Rightarrow> nat \<Rightarrow> nat \<Rightarrow> (nat \<Rightarrow> proc) \<Rightarrow> nat \<Rightarrow> proc" where
  "reparent me init p pt =
     (if p_parent (pt p) = Some me then
        let pt = pt(p := (pt p)\<lparr>p_parent := Some init\<rparr>) in
        if p_state (pt p) = ZOMBIE then wakeup1 (ChProc init) pt else pt
      else pt)"

definition exit_table :: "nat \<Rightarrow> nat \<Rightarrow> (nat \<Rightarrow> proc) \<Rightarrow> nat \<Rightarrow> proc" where
  "exit_table me init pt =
     (let pt = (case p_parent (pt me) of None \<Rightarrow> pt | Some par \<Rightarrow> wakeup1 (ChProc par) pt);
          pt = fold (reparent me init) [0..<NPROC] pt
      in pt(me := (pt me)\<lparr>p_state := ZOMBIE\<rparr>))"

definition exit :: "'a kst_scheme \<Rightarrow> 'a kst_scheme res" where
  "exit s =
     bindr (myproc s) (\<lambda>me.
     if me = initproc s then Inl (Panic ''init exiting'')
     else bindr (exit_lazy lazy_fuel (p_pgdir (ptable s me)) (p_head (ptable s me)) s) (\<lambda>s.
       bindr (exit_files me s) (\<lambda>s.
       bindr (begin_op s) (\<lambda>s.
       case p_cwd (ptable s me) of
         None \<Rightarrow> Inl NullDeref
       | Some cwd \<Rightarrow>
           bindr (iput cwd s) (\<lambda>s.
           bindr (end_op s) (\<lambda>s.
           let s = upd_proc me (\<lambda>x. x\<lparr>p_cwd := None\<rparr>) s in
           sched (s\<lparr>ptable := exit_table me (initproc s) (ptable s)\<rparr>)))))))"

section \<open>wait\<close>

text \<open>The scan: the first zombie child, and whether a child was seen.\<close>

fun wait_scan :: "nat \<Rightarrow> nat list \<Rightarrow> (nat \<Rightarrow> proc) \<Rightarrow> bool \<Rightarrow> nat option \<times> bool" where
  "wait_scan me [] pt havekids = (None, havekids)"
| "wait_scan me (p # ps) pt havekids =
     (if p_parent (pt p) \<noteq> Some me then wait_scan me ps pt havekids
      else if p_state (pt p) = ZOMBIE then (Some p, True)
      else wait_scan me ps pt True)"

definition reap :: "nat \<Rightarrow> 'a kst_scheme \<Rightarrow> (int \<times> 'a kst_scheme) res" where
  "reap p s =
     (let pid = p_pid (ptable s p) in
      bindr (kfree_s (p_kstack (ptable s p)) s) (\<lambda>s.
      let s = upd_proc p (\<lambda>x. x\<lparr>p_kstack := 0\<rparr>) s in
      bindr (in_km (\<lambda>k. bindr (freevm (p_pgdir (ptable s p)) k) (\<lambda>k. Inr ((), k))) s) (\<lambda>(_, s).
      Inr (pid, upd_proc p (\<lambda>x. x\<lparr>p_pid := 0, p_parent := None, p_name := (p_name x)(0 := 0),
                   p_killed := False, p_state := UNUSED\<rparr>) s))))"

text \<open>One pass of the loop; \<open>None\<close> when the process has gone to sleep.\<close>

definition wait :: "'a kst_scheme \<Rightarrow> (int option \<times> 'a kst_scheme) res" where
  "wait s =
     bindr (myproc s) (\<lambda>me.
     case wait_scan me [0..<NPROC] (ptable s) False of
       (Some p, _) \<Rightarrow> bindr (reap p s) (\<lambda>(pid, s). Inr (Some pid, s))
     | (None, havekids) \<Rightarrow>
         if \<not> havekids \<or> p_killed (ptable s me) then Inr (Some (-1), s)
         else bindr (sleep (ChProc me) s) (\<lambda>s. Inr (None, s)))"

end
