(* ===== verification/Wmap.thy ===== *)
theory Wmap
  imports Proc
begin

text \<open>
  The mapping calls of \<^verbatim>\<open>sysproc.c\<close> on the list of \<^verbatim>\<open>struct lazy\<close> nodes of a process, and its
  simple system calls. The nodes are bytes in pages from \<^verbatim>\<open>kalloc\<close>, linked by \<^verbatim>\<open>next\<close> and \<^verbatim>\<open>prev\<close>.
  A walk along the list stops with \<open>Diverges\<close> when it has taken more turns than there are pages.
\<close>

section \<open>Flags (wmap.h)\<close>

definition MAP_PRIVATE :: u32 where [layout_defs]: "MAP_PRIVATE = 1"
definition MAP_SHARED :: u32 where [layout_defs]: "MAP_SHARED = 2"
definition MAP_ANONYMOUS :: u32 where [layout_defs]: "MAP_ANONYMOUS = 4"
definition MAP_FIXED :: u32 where [layout_defs]: "MAP_FIXED = 8"
definition MREMAP_MAYMOVE :: u32 where [layout_defs]: "MREMAP_MAYMOVE = 1"

section \<open>Simple calls\<close>

definition sys_kill :: "'a kst_scheme \<Rightarrow> (int \<times> 'a kst_scheme) res" where
  "sys_kill s = with_arg (argint 0 s) (\<lambda>pid. Inr (kill (sint pid) s)) s"

definition sys_getpid :: "'a kst_scheme \<Rightarrow> (int \<times> 'a kst_scheme) res" where
  "sys_getpid s = bindr (myproc s) (\<lambda>p. Inr (p_pid (ptable s p), s))"

definition sys_sbrk :: "'a kst_scheme \<Rightarrow> (int \<times> 'a kst_scheme) res" where
  "sys_sbrk s =
     with_arg (argint 0 s) (\<lambda>n.
       bindr (myproc s) (\<lambda>p.
       let addr = p_sz (ptable s p) in
       bindr (growproc n s) (\<lambda>(r, s). Inr (if r < 0 then -1 else sint addr, s)))) s"

text \<open>
  \<^verbatim>\<open>sys_sleep\<close>: one test of its loop, \<open>None\<close> when the process has gone to sleep. The comparison
  is unsigned.
\<close>

definition sys_sleep :: "u32 \<Rightarrow> u32 \<Rightarrow> 'a kst_scheme \<Rightarrow> (int option \<times> 'a kst_scheme) res" where
  "sys_sleep n ticks0 s =
     bindr (myproc s) (\<lambda>p.
     if ticks s - ticks0 < n then
       if p_killed (ptable s p) then Inr (Some (-1), s)
       else bindr (sleep ChTicks s) (\<lambda>s. Inr (None, s))
     else Inr (Some 0, s))"

definition sys_uptime :: "'a kst_scheme \<Rightarrow> (int \<times> 'a kst_scheme) res" where
  "sys_uptime s = Inr (sint (ticks s), s)"

section \<open>Nodes\<close>

text \<open>
  These calls do not test the result of \<^verbatim>\<open>argint\<close>: a failed fetch leaves a variable without a
  value, which the model treats as a fault.
\<close>

definition argval :: "nat \<Rightarrow> 'a kst_scheme \<Rightarrow> u32 res" where
  "argval n s = bindr (argint n s) (\<lambda>r. case r of None \<Rightarrow> Inl OutOfBounds | Some v \<Rightarrow> Inr v)"

definition lazy_fill :: "u32 \<Rightarrow> u32 \<Rightarrow> u32 \<Rightarrow> u32 \<Rightarrow> u32 \<Rightarrow> 'a kst_scheme \<Rightarrow> 'a kst_scheme" where
  "lazy_fill n addr len flags fd s =
     (let s = kstore (n + lz_used) 1 s;
          s = kstore (n + lz_addr) addr s;
          s = kstore (n + lz_length) len s;
          s = kstore (n + lz_fd) (if flags AND MAP_ANONYMOUS \<noteq> 0 then -1 else fd) s
      in kstore (n + lz_shared) (if flags AND MAP_SHARED \<noteq> 0 then 1 else 0) s)"

text \<open>A new node: \<^verbatim>\<open>kalloc\<close>, untested, and \<^verbatim>\<open>memset\<close>.\<close>

definition lazy_alloc :: "'a kst_scheme \<Rightarrow> (u32 \<times> 'a kst_scheme) res" where
  "lazy_alloc s =
     (case kalloc_s s of (n, s) \<Rightarrow>
        if n = 0 then Inl NullDeref else Inr (n, upd_pmem (\<lambda>m. memset m n 0 sizeof_lazy) s))"

definition set_head :: "u32 \<Rightarrow> 'a kst_scheme \<Rightarrow> 'a kst_scheme res" where
  "set_head n s = bindr (myproc s) (\<lambda>p. Inr (upd_proc p (\<lambda>x. x\<lparr>p_head := n\<rparr>) s))"

definition set_tail :: "u32 \<Rightarrow> 'a kst_scheme \<Rightarrow> 'a kst_scheme res" where
  "set_tail n s = bindr (myproc s) (\<lambda>p. Inr (upd_proc p (\<lambda>x. x\<lparr>p_tail := n\<rparr>) s))"

text \<open>Insert a new region before the node \<open>temp\<close>; it becomes the head if \<open>first\<close>.\<close>

definition lazy_insert :: "u32 \<Rightarrow> bool \<Rightarrow> u32 \<Rightarrow> u32 \<Rightarrow> u32 \<Rightarrow> u32 \<Rightarrow> 'a kst_scheme \<Rightarrow> 'a kst_scheme res" where
  "lazy_insert temp first addr len flags fd s =
     bindr (lazy_alloc s) (\<lambda>(n, s).
     let s = lazy_fill n addr len flags fd s;
         s = kstore (n + lz_next) temp s;
         prev = kload (temp + lz_prev) s;
         s = (if prev \<noteq> 0 then
                let s = kstore (n + lz_prev) prev s; s = kstore (prev + lz_next) n s
                in kstore (temp + lz_prev) n s
              else kstore (temp + lz_prev) n s)
     in if first then set_head n s else Inr s)"

text \<open>Append a new region after the node \<open>tail\<close>.\<close>

definition lazy_append :: "u32 \<Rightarrow> u32 \<Rightarrow> u32 \<Rightarrow> u32 \<Rightarrow> u32 \<Rightarrow> 'a kst_scheme \<Rightarrow> 'a kst_scheme res" where
  "lazy_append tail addr len flags fd s =
     bindr (lazy_alloc s) (\<lambda>(n, s).
     let s = lazy_fill n addr len flags fd s in
     if tail = 0 then Inl NullDeref
     else let s = kstore (tail + lz_next) n s; s = kstore (n + lz_prev) tail s in set_tail n s)"

section \<open>wmap\<close>

text \<open>
  The first loop, for an address at or above \<^verbatim>\<open>MMAPBASE\<close>: \<open>Inl r\<close> when the call returns \<open>r\<close>,
  \<open>Inr lst\<close> when the list is exhausted.
\<close>

fun wmap_at :: "nat \<Rightarrow> u32 \<Rightarrow> u32 \<Rightarrow> u32 \<Rightarrow> u32 \<Rightarrow> u32 \<Rightarrow> u32 \<Rightarrow> 'a kst_scheme \<Rightarrow>
    ((u32 + u32) \<times> 'a kst_scheme) res" where
  "wmap_at 0 temp lst addr len flags fd s = (if temp = 0 then Inr (Inr lst, s) else Inl Diverges)"
| "wmap_at (Suc fuel) temp lst addr len flags fd s =
     (if temp = 0 then Inr (Inr lst, s)
      else let ta = kload (temp + lz_addr) s in
        if addr < ta \<and> addr + len < ta
        then bindr (lazy_insert temp (lst = 0) addr len flags fd s) (\<lambda>s. Inr (Inl addr, s))
        else if addr < ta \<and> addr + len \<ge> ta \<and> flags AND MAP_FIXED \<noteq> 0 then Inr (Inl (-1), s)
        else wmap_at fuel (kload (temp + lz_next) s) (ta + kload (temp + lz_length) s) addr len flags fd s)"

text \<open>The second loop: the first gap of more than \<open>len\<close> bytes.\<close>

fun wmap_gap :: "nat \<Rightarrow> u32 \<Rightarrow> u32 \<Rightarrow> u32 \<Rightarrow> u32 \<Rightarrow> u32 \<Rightarrow> 'a kst_scheme \<Rightarrow>
    ((u32 + u32) \<times> 'a kst_scheme) res" where
  "wmap_gap 0 temp start len flags fd s = (if temp = 0 then Inr (Inr start, s) else Inl Diverges)"
| "wmap_gap (Suc fuel) temp start len flags fd s =
     (if temp = 0 then Inr (Inr start, s)
      else let ta = kload (temp + lz_addr) s in
        if ta - start > len
        then bindr (lazy_insert temp (start = MMAPBASE) start len flags fd s) (\<lambda>s. Inr (Inl start, s))
        else wmap_gap fuel (kload (temp + lz_next) s) (ta + kload (temp + lz_length) s) len flags fd s)"

definition wmap_any :: "u32 \<Rightarrow> u32 \<Rightarrow> u32 \<Rightarrow> u32 \<Rightarrow> 'a kst_scheme \<Rightarrow> (u32 \<times> 'a kst_scheme) res" where
  "wmap_any tail len flags fd s =
     bindr (myproc s) (\<lambda>p.
     if flags AND MAP_FIXED = 0 then
       bindr (wmap_gap lazy_fuel (p_head (ptable s p)) MMAPBASE len flags fd s) (\<lambda>(r, s).
       case r of
         Inl r \<Rightarrow> Inr (r, s)
       | Inr start \<Rightarrow>
           if KERNBASE - start > len
           then bindr (lazy_append tail start len flags fd s) (\<lambda>s. Inr (start, s))
           else Inr (-1, s))
     else Inr (-1, s))"

definition wmap :: "u32 \<Rightarrow> u32 \<Rightarrow> u32 \<Rightarrow> u32 \<Rightarrow> 'a kst_scheme \<Rightarrow> (u32 \<times> 'a kst_scheme) res" where
  "wmap taddr len flags fd s =
     (let addr = PGROUNDUP taddr in
      if sint len \<le> 0 then Inr (-1, s)
      else bindr (myproc s) (\<lambda>p.
        let head = p_head (ptable s p); tail = p_tail (ptable s p) in
        if addr \<ge> MMAPBASE then
          if addr + len \<ge> KERNBASE then Inr (-1, s)
          else if head = 0 then Inl NullDeref
          else if kload (head + lz_length) s = 0
          then bindr (set_tail head (lazy_fill head addr len flags fd s)) (\<lambda>s. Inr (addr, s))
          else bindr (wmap_at lazy_fuel head 0 addr len flags fd s) (\<lambda>(r, s).
            case r of
              Inl r \<Rightarrow> Inr (r, s)
            | Inr lst \<Rightarrow>
                if addr < KERNBASE \<and> lst \<le> addr
                then bindr (lazy_append tail addr len flags fd s) (\<lambda>s. Inr (addr, s))
                else wmap_any tail len flags fd s)
        else wmap_any tail len flags fd s))"

definition sys_wmap :: "'a kst_scheme \<Rightarrow> (int \<times> 'a kst_scheme) res" where
  "sys_wmap s =
     bindr (argval 0 s) (\<lambda>addr. bindr (argval 1 s) (\<lambda>len. bindr (argval 2 s) (\<lambda>flags.
     bindr (argval 3 s) (\<lambda>fd.
     bindr (wmap addr len flags fd s) (\<lambda>(r, s). Inr (sint r, s))))))"

section \<open>wunmap\<close>

text \<open>Unlinking a node; only a node that is alone gives the process a new, empty head.\<close>

definition wunmap_unlink :: "u32 \<Rightarrow> 'a kst_scheme \<Rightarrow> 'a kst_scheme res" where
  "wunmap_unlink temp s =
     (let prev = kload (temp + lz_prev) s; nxt = kload (temp + lz_next) s in
      if prev \<noteq> 0 \<and> nxt \<noteq> 0 then
        Inr (kstore (nxt + lz_prev) prev (kstore (prev + lz_next) nxt s))
      else if prev \<noteq> 0 then Inr (kstore (prev + lz_next) nxt s)
      else if nxt \<noteq> 0 then Inr (kstore (nxt + lz_prev) prev s)
      else bindr (lazy_alloc s) (\<lambda>(n, s). set_head n s))"

definition wunmap_pte :: "u32 \<Rightarrow> u32 \<Rightarrow> (u32 \<Rightarrow> 'a kst_scheme \<Rightarrow> 'a kst_scheme res) \<Rightarrow> 'a kst_scheme \<Rightarrow>
    'a kst_scheme res" where
  "wunmap_pte pgdir va before s =
     (case walkpgdir pgdir va False (km s) of (pte, _) \<Rightarrow>
        if pte = 0 then Inl NullDeref
        else if kload pte s AND PTE_P \<noteq> 0 then
          let buf = P2V (PTE_ADDR (kload pte s)) in
          bindr (before buf s) (\<lambda>s. bindr (kfree_s buf s) (\<lambda>s. Inr (kstore pte 0 s)))
        else Inr s)"

text \<open>The pages of an anonymous or private region, and those of a shared file mapping.\<close>

definition wunmap_anon :: "u32 \<Rightarrow> u32 \<Rightarrow> u32 \<Rightarrow> 'a kst_scheme \<Rightarrow> 'a kst_scheme res" where
  "wunmap_anon pgdir addr len s =
     forr (page_offs len) (\<lambda>i. wunmap_pte pgdir (addr + i) (\<lambda>_. Inr)) s"

definition wunmap_file :: "u32 \<Rightarrow> u32 \<Rightarrow> u32 \<Rightarrow> u32 \<Rightarrow> 'a kst_scheme \<Rightarrow> 'a kst_scheme res" where
  "wunmap_file pgdir addr len fd s =
     bindr (myproc s) (\<lambda>p.
     if sint fd < 0 \<or> sint fd \<ge> int NOFILE then Inl OutOfBounds
     else let fo = p_ofile (ptable s p) (unat fd) in
       forr (page_offs len) (\<lambda>i. wunmap_pte pgdir (addr + i) (\<lambda>buf s.
         case fo of
           None \<Rightarrow> Inl NullDeref
         | Some f \<Rightarrow> bindr (filewrite f buf 4096 (upd_file f (\<lambda>x. x\<lparr>f_off := i\<rparr>) s)) (\<lambda>(_, s). Inr s))) s)"

text \<open>
  The update of \<^verbatim>\<open>va\<close> and \<^verbatim>\<open>pa\<close>: each entry with the address of the region is overwritten by an
  entry from the end. The result is \<^verbatim>\<open>removecount\<close>.
\<close>

definition wunmap_swap :: "u32 \<Rightarrow> nat \<Rightarrow> u32 \<times> proc \<Rightarrow> (u32 \<times> proc) res" where
  "wunmap_swap addr i = (\<lambda>(rc, x).
     if i \<ge> 32 then Inl OutOfBounds
     else if p_va x i = addr then
       let j = unat (n_upages x - rc) in
       if j \<ge> 32 then Inl OutOfBounds
       else Inr (rc + 1, x\<lparr>p_va := (p_va x)(i := p_va x j, j := -1),
                          p_pa := (p_pa x)(i := p_pa x j, j := -1)\<rparr>)
     else Inr (rc, x))"

definition wunmap_info :: "u32 \<Rightarrow> proc \<Rightarrow> proc res" where
  "wunmap_info addr x =
     bindr (forr [0..<unat (n_upages x)] (wunmap_swap addr) (1, x)) (\<lambda>(rc, x).
       Inr (x\<lparr>n_upages := n_upages x - (rc + 1)\<rparr>))"

definition wunmap_node :: "u32 \<Rightarrow> 'a kst_scheme \<Rightarrow> 'a kst_scheme res" where
  "wunmap_node temp s =
     bindr (myproc s) (\<lambda>p.
     let addr = kload (temp + lz_addr) s in
     bindr (wunmap_unlink temp s) (\<lambda>s.
     let pgdir = p_pgdir (ptable s p); len = kload (temp + lz_length) s; fd = kload (temp + lz_fd) s in
     bindr (if fd = -1 \<or> kload (temp + lz_shared) s = 0 then wunmap_anon pgdir addr len s
            else wunmap_file pgdir addr len fd s) (\<lambda>s.
     bindr (wunmap_info (kload (temp + lz_addr) s) (ptable s p)) (\<lambda>x.
     kfree_s temp (upd_proc p (\<lambda>_. x) s)))))"

fun wunmap_loop :: "nat \<Rightarrow> u32 \<Rightarrow> u32 \<Rightarrow> 'a kst_scheme \<Rightarrow> (int \<times> 'a kst_scheme) res" where
  "wunmap_loop 0 temp addr s = (if temp = 0 then Inr (-1, s) else Inl Diverges)"
| "wunmap_loop (Suc fuel) temp addr s =
     (if temp = 0 then Inr (-1, s)
      else if kload (temp + lz_addr) s = addr then bindr (wunmap_node temp s) (\<lambda>s. Inr (0, s))
      else wunmap_loop fuel (kload (temp + lz_next) s) addr s)"

text \<open>An \<^verbatim>\<open>int\<close> never exceeds 2147483648, so the second half of the range check is void.\<close>

definition wunmap :: "u32 \<Rightarrow> 'a kst_scheme \<Rightarrow> (int \<times> 'a kst_scheme) res" where
  "wunmap taddr s =
     (if sint taddr < 1610612736 \<or> sint taddr > 2147483648 then Inr (-1, s)
      else bindr (myproc s) (\<lambda>p. wunmap_loop lazy_fuel (p_head (ptable s p)) taddr s))"

definition sys_wunmap :: "'a kst_scheme \<Rightarrow> (int \<times> 'a kst_scheme) res" where
  "sys_wunmap s = bindr (argval 0 s) (\<lambda>taddr. wunmap taddr s)"

section \<open>wremap\<close>

text \<open>
  Moving the region of node \<open>temp\<close> to \<open>start\<close>: the first page table entry at the new address is
  overwritten.
\<close>

definition wremap_move :: "u32 \<Rightarrow> u32 \<Rightarrow> u32 \<Rightarrow> u32 \<Rightarrow> 'a kst_scheme \<Rightarrow> (u32 \<times> 'a kst_scheme) res" where
  "wremap_move temp start newsize flags s =
     bindr (myproc s) (\<lambda>p.
     let s = kstore (temp + lz_addr) start s;
         s = kstore (temp + lz_length) newsize s in
     case walkpgdir (p_pgdir (ptable s p)) start False (km s) of (pte, _) \<Rightarrow>
       if pte = 0 then Inl NullDeref
       else Inr (pte, kstore pte ((V2P start AND NOT 0xFFF) OR flags) s))"

fun va_index :: "u32 \<Rightarrow> nat list \<Rightarrow> (nat \<Rightarrow> u32) \<Rightarrow> nat option" where
  "va_index a [] va = None"
| "va_index a (i # is) va = (if va i = a then Some i else va_index a is va)"

definition set_va_pa :: "nat \<Rightarrow> u32 \<Rightarrow> u32 \<Rightarrow> 'a kst_scheme \<Rightarrow> 'a kst_scheme res" where
  "set_va_pa i a b s =
     bindr (myproc s) (\<lambda>p. Inr (upd_proc p (\<lambda>x. x\<lparr>p_va := (p_va x)(i := a), p_pa := (p_pa x)(i := b)\<rparr>) s))"

text \<open>
  The end of a turn: with more than \<open>newsize\<close> bytes below \<^verbatim>\<open>KERNBASE\<close> the region moves to \<open>start\<close>.
\<close>

definition wremap_last :: "u32 \<Rightarrow> u32 \<Rightarrow> u32 \<Rightarrow> u32 \<Rightarrow> u32 \<Rightarrow> 'a kst_scheme \<Rightarrow> (int option \<times> 'a kst_scheme) res" where
  "wremap_last temp oldaddr start newsize flags s =
     (if KERNBASE - start > newsize then
        bindr (wremap_move temp start newsize flags s) (\<lambda>(pte, s).
        bindr (myproc s) (\<lambda>p.
        case va_index oldaddr [0..<32] (p_va (ptable s p)) of
          None \<Rightarrow> Inr (Some 0, s)
        | Some i \<Rightarrow> bindr (set_va_pa i start (PTE_ADDR (kload pte s)) s) (\<lambda>s. Inr (Some 0, s))))
      else Inr (None, s))"

text \<open>
  The search for a new place. In a gap before \<open>temp2\<close> the region moves to \<open>start\<close>; the loop over
  \<^verbatim>\<open>va\<close> leaves the call in its first turn unless \<^verbatim>\<open>va[0]\<close> is the old address.
\<close>

fun wremap_loop :: "nat \<Rightarrow> u32 \<Rightarrow> u32 \<Rightarrow> u32 \<Rightarrow> u32 \<Rightarrow> u32 \<Rightarrow> u32 \<Rightarrow> 'a kst_scheme \<Rightarrow>
    (int \<times> 'a kst_scheme) res" where
  "wremap_loop 0 temp temp2 oldaddr start newsize flags s = (if temp2 = 0 then Inr (-1, s) else Inl Diverges)"
| "wremap_loop (Suc fuel) temp temp2 oldaddr start newsize flags s =
     (if temp2 = 0 then Inr (-1, s)
      else let ta = kload (temp2 + lz_addr) s in
        if ta = oldaddr
        then wremap_loop fuel temp (kload (temp2 + lz_next) s) oldaddr start newsize flags s
        else if sint ta - sint start > sint newsize then
          bindr (wremap_move temp start newsize flags s) (\<lambda>(pte, s).
          bindr (myproc s) (\<lambda>p.
          if p_va (ptable s p) 0 \<noteq> oldaddr then Inr (0, s)
          else bindr (set_va_pa 0 start (PTE_ADDR (kload pte s)) s) (\<lambda>s.
            let start = kload (temp2 + lz_addr) s + kload (temp2 + lz_length) s;
                temp2 = kload (temp2 + lz_next) s in
            bindr (wremap_last temp oldaddr start newsize flags s) (\<lambda>(r, s).
            case r of
              Some r \<Rightarrow> Inr (r, s)
            | None \<Rightarrow> wremap_loop fuel temp temp2 oldaddr start newsize flags s))))
        else bindr (wremap_last temp oldaddr start newsize flags s) (\<lambda>(r, s).
          case r of
            Some r \<Rightarrow> Inr (r, s)
          | None \<Rightarrow> wremap_loop fuel temp temp2 oldaddr start newsize flags s))"

fun wremap_find :: "nat \<Rightarrow> u32 \<Rightarrow> u32 \<Rightarrow> u32 \<Rightarrow> u32 \<Rightarrow> u32 \<Rightarrow> 'a kst_scheme \<Rightarrow> (int \<times> 'a kst_scheme) res" where
  "wremap_find 0 temp oldaddr oldsize newsize flags s = (if temp = 0 then Inr (-1, s) else Inl Diverges)"
| "wremap_find (Suc fuel) temp oldaddr oldsize newsize flags s =
     (if temp = 0 then Inr (-1, s)
      else if kload (temp + lz_addr) s = oldaddr then
        if kload (temp + lz_length) s \<noteq> oldsize then Inr (-1, s)
        else let nxt = kload (temp + lz_next) s;
                 upper = (if nxt \<noteq> 0 then kload (nxt + lz_addr) s else KERNBASE) in
          if oldaddr + newsize < upper then Inr (sint oldaddr, kstore (temp + lz_length) newsize s)
          else if flags AND MREMAP_MAYMOVE \<noteq> 0 then
            bindr (myproc s) (\<lambda>p.
            wremap_loop lazy_fuel temp (p_head (ptable s p)) oldaddr 0 newsize flags s)
          else wremap_find fuel nxt oldaddr oldsize newsize flags s
      else wremap_find fuel (kload (temp + lz_next) s) oldaddr oldsize newsize flags s)"

text \<open>
  The test of the flags, \<^verbatim>\<open>!flags & MREMAP_MAYMOVE && !flags & 0\<close>, parsed as C does.
\<close>

definition wremap_flags_bad :: "u32 \<Rightarrow> bool" where
  "wremap_flags_bad flags =
     ((if flags = 0 then 1 else 0) AND MREMAP_MAYMOVE \<noteq> 0 \<and> (if flags = 0 then 1 else 0) AND 0 \<noteq> (0 :: u32))"

definition wremap :: "u32 \<Rightarrow> u32 \<Rightarrow> u32 \<Rightarrow> u32 \<Rightarrow> 'a kst_scheme \<Rightarrow> (int \<times> 'a kst_scheme) res" where
  "wremap oldaddr oldsize newsize flags s =
     (if sint newsize \<le> 0 then Inr (-1, s)
      else if wremap_flags_bad flags then Inr (-1, s)
      else bindr (myproc s) (\<lambda>p.
        wremap_find lazy_fuel (p_head (ptable s p)) oldaddr oldsize newsize flags s))"

definition sys_wremap :: "'a kst_scheme \<Rightarrow> (int \<times> 'a kst_scheme) res" where
  "sys_wremap s =
     bindr (argval 0 s) (\<lambda>oldaddr. bindr (argval 1 s) (\<lambda>oldsize. bindr (argval 2 s) (\<lambda>newsize.
     bindr (argval 3 s) (\<lambda>flags. wremap oldaddr oldsize newsize flags s))))"

section \<open>Reports\<close>

text \<open>The user pages of a page directory in the order of \<^verbatim>\<open>sys_getpgdirinfo\<close>: address and frame.\<close>

definition table_upages :: "mem \<Rightarrow> u32 \<Rightarrow> u32 \<Rightarrow> (u32 \<times> u32) list" where
  "table_upages m pgtab i =
     map (\<lambda>j. (PGADDR i (of_nat j) 0, PTE_ADDR (rd32 m (pgtab + 4 * of_nat j))))
       (filter (\<lambda>j. rd32 m (pgtab + 4 * of_nat j) AND PTE_P \<noteq> 0 \<and> rd32 m (pgtab + 4 * of_nat j) AND PTE_U \<noteq> 0)
          [0..<NPTENTRIES])"

definition dir_upages :: "mem \<Rightarrow> u32 \<Rightarrow> (u32 \<times> u32) list" where
  "dir_upages m pgdir =
     concat (map (\<lambda>i. let pde = rd32 m (pgdir + 4 * of_nat i) in
       if pde AND PTE_P \<noteq> 0 then table_upages m (P2V (PTE_ADDR pde)) (of_nat i) else []) [0..<NPDENTRIES])"

text \<open>
  \<^verbatim>\<open>struct pgdirinfo\<close>: the count, 32 virtual addresses from offset 4, 32 physical ones from offset
  132. At most 32 pages are reported.
\<close>

definition getpgdirinfo :: "u32 \<Rightarrow> 'a kst_scheme \<Rightarrow> (int \<times> 'a kst_scheme) res" where
  "getpgdirinfo pdinfo s =
     bindr (cur_pgdir s) (\<lambda>pgdir.
     let ps = take 32 (dir_upages (pmem (km s)) pgdir) in
     bindr (forr (zip [0..<length ps] ps) (\<lambda>(c, va, pa) s.
        bindr (copyto (pdinfo + 4 + 4 * of_nat c) (le32 va) s)
          (copyto (pdinfo + 132 + 4 * of_nat c) (le32 pa))) s) (\<lambda>s.
     bindr (copyto pdinfo (le32 (of_nat (length ps))) s) (\<lambda>s. Inr (0, s))))"

definition sys_getpgdirinfo :: "'a kst_scheme \<Rightarrow> (int \<times> 'a kst_scheme) res" where
  "sys_getpgdirinfo s =
     bindr (argptr 0 260 s) (\<lambda>r. case r of None \<Rightarrow> Inl OutOfBounds | Some pdinfo \<Rightarrow> getpgdirinfo pdinfo s)"

text \<open>
  \<^verbatim>\<open>struct wmapinfo\<close>: the count, then three arrays of 16. The pointer is used as the caller gave
  it, and the index is not bounded.
\<close>

fun wmapinfo_loop :: "nat \<Rightarrow> u32 \<Rightarrow> nat \<Rightarrow> u32 \<Rightarrow> 'a kst_scheme \<Rightarrow> 'a kst_scheme res" where
  "wmapinfo_loop 0 temp c wminfo s = (if temp = 0 then Inr s else Inl Diverges)"
| "wmapinfo_loop (Suc fuel) temp c wminfo s =
     (if temp = 0 \<or> kload (temp + lz_used) s \<noteq> 1 then Inr s
      else
        bindr (copyto (wminfo + 4 + 4 * of_nat c) (le32 (kload (temp + lz_addr) s)) s) (\<lambda>s.
        bindr (copyto (wminfo + 68 + 4 * of_nat c) (le32 (kload (temp + lz_length) s)) s) (\<lambda>s.
        bindr (copyto (wminfo + 132 + 4 * of_nat c) (le32 (kload (temp + lz_numPages) s)) s) (\<lambda>s.
        bindr (copyin wminfo 4 s) (\<lambda>total.
        bindr (copyto wminfo (le32 (rd32 (bytes_at total) 0 + 1)) s) (\<lambda>s.
        wmapinfo_loop fuel (kload (temp + lz_next) s) (Suc c) wminfo s))))))"

definition getwmapinfo :: "u32 \<Rightarrow> 'a kst_scheme \<Rightarrow> (int \<times> 'a kst_scheme) res" where
  "getwmapinfo wminfo s =
     bindr (myproc s) (\<lambda>p.
     bindr (wmapinfo_loop lazy_fuel (p_head (ptable s p)) 0 wminfo s) (\<lambda>s. Inr (0, s)))"

definition sys_getwmapinfo :: "'a kst_scheme \<Rightarrow> (int \<times> 'a kst_scheme) res" where
  "sys_getwmapinfo s = bindr (argval 0 s) (\<lambda>addr. getwmapinfo addr s)"

end
