(* ===== verification/Trap.thy ===== *)
theory Trap
  imports Wmap
begin

text \<open>
  The system call table of \<^verbatim>\<open>syscall.c\<close> and \<^verbatim>\<open>trap\<close> of \<^verbatim>\<open>trap.c\<close>, with the page fault handler that
  fills lazily mapped regions. What the processor and the devices supply are arguments: the
  faulting address \<^verbatim>\<open>cr2\<close>, the characters the keyboard or the serial port delivers, and the
  number of the processor. A trap ends where the process returns to user space or where it
  leaves the processor, in \<open>exit\<close>, \<open>sleep\<close> or \<open>yield\<close>, with \<open>cur\<close> empty.
\<close>

section \<open>System calls\<close>

text \<open>\<open>None\<close>: the call does not return now, because the process sleeps or has exited.\<close>

definition ret :: "(int \<times> 'a kst_scheme) res \<Rightarrow> (int option \<times> 'a kst_scheme) res" where
  "ret r = bindr r (\<lambda>(v, s). Inr (Some v, s))"

definition syscalls :: "nat \<Rightarrow> 'a kst_scheme \<Rightarrow> (int option \<times> 'a kst_scheme) res" where
  "syscalls num s =
     (if num = 1 then ret (fork s)
      else if num = 2 then bindr (exit s) (\<lambda>s. Inr (None, s))
      else if num = 3 then wait s
      else if num = 4 then ret (sys_pipe s)
      else if num = 5 then ret (sys_read s)
      else if num = 6 then ret (sys_kill s)
      else if num = 7 then ret (sys_exec s)
      else if num = 8 then ret (sys_fstat s)
      else if num = 9 then ret (sys_chdir s)
      else if num = 10 then ret (sys_dup s)
      else if num = 11 then ret (sys_getpid s)
      else if num = 12 then ret (sys_sbrk s)
      else if num = 13 then
        bindr (argint 0 s) (\<lambda>n. case n of None \<Rightarrow> Inr (Some (-1), s) | Some n \<Rightarrow> sys_sleep n (ticks s) s)
      else if num = 14 then ret (sys_uptime s)
      else if num = 15 then ret (sys_open s)
      else if num = 16 then ret (sys_write s)
      else if num = 17 then ret (sys_mknod s)
      else if num = 18 then ret (sys_unlink s)
      else if num = 19 then ret (sys_link s)
      else if num = 20 then ret (sys_mkdir s)
      else if num = 21 then ret (sys_close s)
      else if num = 22 then ret (sys_wmap s)
      else if num = 23 then ret (sys_wunmap s)
      else if num = 24 then ret (sys_wremap s)
      else if num = 25 then ret (sys_getpgdirinfo s)
      else ret (sys_getwmapinfo s))"

definition nsyscalls :: int where "nsyscalls = 27"

definition syscall :: "'a kst_scheme \<Rightarrow> 'a kst_scheme res" where
  "syscall s =
     bindr (myproc s) (\<lambda>p.
     let num = kload (p_tf (ptable s p) + tf_eax) s in
     if sint num > 0 \<and> sint num < nsyscalls then
       bindr (syscalls (unat num) s) (\<lambda>(r, s).
       case r of
         None \<Rightarrow> Inr s
       | Some v \<Rightarrow> Inr (kstore (p_tf (ptable s p) + tf_eax) (of_int v) s))
     else
       bindr (kprintf (''%d %s: unknown sys call %d'' @ [CHR 0x0A])
         [CInt (of_int (p_pid (ptable s p))), CStr (Some (proc_name (ptable s p))), CInt num] s) (\<lambda>s.
       Inr (kstore (p_tf (ptable s p) + tf_eax) (-1) s)))"

section \<open>Page faults\<close>

definition in_region :: "u32 \<Rightarrow> u32 \<Rightarrow> 'a kst_scheme \<Rightarrow> bool" where
  "in_region fault temp s \<longleftrightarrow>
     (let addr = kload (temp + lz_addr) s; lst = addr + kload (temp + lz_length) s - 1
      in fault \<ge> addr \<and> fault \<le> lst)"

text \<open>
  A store to a present page, \<^verbatim>\<open>tf->err & 1\<close>: the entry becomes writable, on a copy of the page
  unless the region is shared. The loop goes on to the end of the list.
\<close>

definition make_writable :: "u32 \<Rightarrow> u32 \<Rightarrow> u32 \<Rightarrow> 'a kst_scheme \<Rightarrow> 'a kst_scheme res" where
  "make_writable pgdir fault temp s =
     (case walkpgdir pgdir fault False (km s) of (pte, _) \<Rightarrow>
        if pte = 0 then Inl NullDeref
        else let e = kload pte s; flags = PTE_FLAGS e OR PTE_W; buf = P2V (PTE_ADDR e) in
          if kload (temp + lz_shared) s = 0 then
            (case kalloc_s s of (mem, s) \<Rightarrow>
               if mem = 0 then Inl NullDeref
               else Inr (kstore pte (V2P mem OR flags) (upd_pmem (\<lambda>m. memmove m mem buf PGSIZE) s)))
          else Inr (kstore pte (PTE_ADDR e OR flags) s))"

fun pgfault_protect :: "nat \<Rightarrow> u32 \<Rightarrow> u32 \<Rightarrow> u32 \<Rightarrow> 'a kst_scheme \<Rightarrow> 'a kst_scheme res" where
  "pgfault_protect 0 pgdir fault temp s = (if temp = 0 then Inr s else Inl Diverges)"
| "pgfault_protect (Suc fuel) pgdir fault temp s =
     (if temp = 0 then Inr s
      else bindr (if in_region fault temp s then make_writable pgdir fault temp s else Inr s) (\<lambda>s.
        pgfault_protect fuel pgdir fault (kload (temp + lz_next) s) s))"

text \<open>The page is recorded in \<^verbatim>\<open>va\<close> and \<^verbatim>\<open>pa\<close>, which have 32 entries, without a bound check.\<close>

definition record_page :: "nat \<Rightarrow> u32 \<Rightarrow> u32 \<Rightarrow> 'a kst_scheme \<Rightarrow> 'a kst_scheme res" where
  "record_page p addr pa s =
     (let n = unat (n_upages (ptable s p)) in
      if n \<ge> 32 then Inl OutOfBounds
      else Inr (upd_proc p (\<lambda>x. x\<lparr>n_upages := n_upages x + 1, p_va := (p_va x)(n := addr),
                               p_pa := (p_pa x)(n := pa)\<rparr>) s))"

definition map_user_page :: "u32 \<Rightarrow> u32 \<Rightarrow> u32 \<Rightarrow> 'a kst_scheme \<Rightarrow> 'a kst_scheme res" where
  "map_user_page pgdir fault mem s =
     bindr (in_km (mappages pgdir fault PGSIZE (V2P mem) (PTE_W OR PTE_U)) s) (\<lambda>(_, s). Inr s)"

text \<open>An access to a missing page of the region of \<open>temp\<close>: a zeroed page, or one read from the file.\<close>

definition fill_page :: "nat \<Rightarrow> u32 \<Rightarrow> u32 \<Rightarrow> 'a kst_scheme \<Rightarrow> 'a kst_scheme res" where
  "fill_page p fault temp s =
     (let pgdir = p_pgdir (ptable s p); addr = kload (temp + lz_addr) s;
          s = kstore (temp + lz_numPages) (kload (temp + lz_numPages) s + 1) s in
      case kalloc_s s of (mem, s) \<Rightarrow>
        if mem = 0 then Inl NullDeref
        else let s = upd_pmem (\<lambda>m. memset m mem 0 PGSIZE) s in
          bindr (record_page p addr (V2P mem) s) (\<lambda>s.
          let fd = kload (temp + lz_fd) s in
          if fd = -1 then map_user_page pgdir fault mem s
          else if sint fd < 0 \<or> sint fd \<ge> int NOFILE then Inl OutOfBounds
          else case p_ofile (ptable s p) (unat fd) of
            None \<Rightarrow> Inl NullDeref
          | Some f \<Rightarrow>
              bindr (fileread f mem 4096 (upd_file f (\<lambda>x. x\<lparr>f_off := fault - addr\<rparr>) s)) (\<lambda>(_, s).
              map_user_page pgdir fault mem s)))"

fun pgfault_miss :: "nat \<Rightarrow> nat \<Rightarrow> u32 \<Rightarrow> u32 \<Rightarrow> 'a kst_scheme \<Rightarrow> (bool \<times> 'a kst_scheme) res" where
  "pgfault_miss 0 p fault temp s = (if temp = 0 then Inr (False, s) else Inl Diverges)"
| "pgfault_miss (Suc fuel) p fault temp s =
     (if temp = 0 then Inr (False, s)
      else if in_region fault temp s then bindr (fill_page p fault temp s) (\<lambda>s. Inr (True, s))
      else pgfault_miss fuel p fault (kload (temp + lz_next) s) s)"

definition pgfault :: "u32 \<Rightarrow> u32 \<Rightarrow> 'a kst_scheme \<Rightarrow> 'a kst_scheme res" where
  "pgfault err cr2 s =
     bindr (myproc s) (\<lambda>p.
     let fault = PGROUNDDOWN cr2 in
     if err AND 1 \<noteq> 0
     then pgfault_protect lazy_fuel (p_pgdir (ptable s p)) fault (p_head (ptable s p)) s
     else bindr (pgfault_miss lazy_fuel p fault (p_head (ptable s p)) s) (\<lambda>(found, s).
       if found then Inr s
       else bindr (kprintf (''Segmentation Fault'' @ [CHR 0x0A]) [] s) exit))"

section \<open>trap\<close>

definition T_SYSCALL :: u32 where [layout_defs]: "T_SYSCALL = 64"
definition T_PGFLT :: u32 where [layout_defs]: "T_PGFLT = 14"
definition T_IRQ0 :: u32 where [layout_defs]: "T_IRQ0 = 32"
definition IRQ_TIMER :: u32 where [layout_defs]: "IRQ_TIMER = 0"
definition IRQ_KBD :: u32 where [layout_defs]: "IRQ_KBD = 1"
definition IRQ_COM1 :: u32 where [layout_defs]: "IRQ_COM1 = 4"
definition IRQ_IDE :: u32 where [layout_defs]: "IRQ_IDE = 14"
definition IRQ_SPURIOUS :: u32 where [layout_defs]: "IRQ_SPURIOUS = 31"

definition killed_now :: "'a kst_scheme \<Rightarrow> bool" where
  "killed_now s = (case cur s of None \<Rightarrow> False | Some p \<Rightarrow> p_killed (ptable s p))"

definition trap_syscall :: "u32 \<Rightarrow> 'a kst_scheme \<Rightarrow> 'a kst_scheme res" where
  "trap_syscall tf s =
     bindr (myproc s) (\<lambda>p.
     if p_killed (ptable s p) then exit s
     else bindr (syscall (upd_proc p (\<lambda>x. x\<lparr>p_tf := tf\<rparr>) s)) (\<lambda>s.
       if killed_now s then exit s else Inr s))"

text \<open>The default case: a fault in the kernel is fatal, one in user space kills the process.\<close>

definition trap_unexpected :: "nat \<Rightarrow> u32 \<Rightarrow> u32 \<Rightarrow> 'a kst_scheme \<Rightarrow> 'a kst_scheme res" where
  "trap_unexpected cpu tf cr2 s =
     (let trapno = kload (tf + tf_trapno) s; eip = kload (tf + tf_eip) s in
      case cur s of
        None \<Rightarrow> Inl (Panic ''trap'')
      | Some p \<Rightarrow>
          if kload (tf + tf_cs) s AND 3 = 0 then Inl (Panic ''trap'')
          else bindr (kprintf (''pid %d %s: trap %d err %d on cpu %d eip 0x%x addr 0x%x--kill proc'' @ [CHR 0x0A])
            [CInt (of_int (p_pid (ptable s p))), CStr (Some (proc_name (ptable s p))), CInt trapno,
             CInt (kload (tf + tf_err) s), CInt (of_nat cpu), CInt eip, CInt cr2] s) (\<lambda>s.
            Inr (upd_proc p (\<lambda>x. x\<lparr>p_killed := True\<rparr>) s)))"

definition trap_dispatch :: "nat \<Rightarrow> u32 \<Rightarrow> u32 \<Rightarrow> u32 list \<Rightarrow> 'a kst_scheme \<Rightarrow> 'a kst_scheme res" where
  "trap_dispatch cpu tf cr2 chars s =
     (let trapno = kload (tf + tf_trapno) s in
      if trapno = T_IRQ0 + IRQ_TIMER then
        Inr (if cpu = 0 then wakeup ChTicks (s\<lparr>ticks := ticks s + 1\<rparr>) else s)
      else if trapno = T_IRQ0 + IRQ_IDE \<or> trapno = T_IRQ0 + IRQ_IDE + 1 then Inr s
      else if trapno = T_IRQ0 + IRQ_KBD \<or> trapno = T_IRQ0 + IRQ_COM1 then consoleintr chars s
      else if trapno = T_IRQ0 + 7 \<or> trapno = T_IRQ0 + IRQ_SPURIOUS then
        kprintf (''cpu%d: spurious interrupt at %x:%x'' @ [CHR 0x0A])
          [CInt (of_nat cpu), CInt (kload (tf + tf_cs) s AND 0xFFFF), CInt (kload (tf + tf_eip) s)] s
      else if trapno = T_PGFLT then pgfault (kload (tf + tf_err) s) cr2 s
      else trap_unexpected cpu tf cr2 s)"

definition trap :: "nat \<Rightarrow> u32 \<Rightarrow> u32 \<Rightarrow> u32 list \<Rightarrow> 'a kst_scheme \<Rightarrow> 'a kst_scheme res" where
  "trap cpu tf cr2 chars s =
     (let trapno = kload (tf + tf_trapno) s; user = (kload (tf + tf_cs) s AND 3 = 3) in
      if trapno = T_SYSCALL then trap_syscall tf s
      else bindr (trap_dispatch cpu tf cr2 chars s) (\<lambda>s.
        if killed_now s \<and> user then exit s
        else case cur s of
          None \<Rightarrow> Inr s
        | Some p \<Rightarrow>
            if p_state (ptable s p) = RUNNING \<and> trapno = T_IRQ0 + IRQ_TIMER then yield s else Inr s))"

end
