(* ===== verification/Vm_Tables.thy ===== *)
theory Vm_Tables
  imports Vm
begin

text \<open>
  Page tables as maps. \<open>pte_at\<close> reads the entry of a virtual address out of the memory,
  \<open>pt_ok\<close> is the well-formedness of a page directory (all its pages are different and none
  is free), \<open>agree_off\<close> the frame: two states agree outside some pages. The lemmas say what
  \<^verbatim>\<open>walkpgdir\<close> and \<^verbatim>\<open>mappages\<close> do to this map and to no other memory.
\<close>

section \<open>A page directory as a map\<close>

text \<open>
  The directory entry at index \<open>d\<close>, the page-table page it points to, and the entry of a
  virtual address, 0 when its page table is missing (an entry that is not present either
  way).
\<close>

definition pde_at :: "kmem \<Rightarrow> u32 \<Rightarrow> u32 \<Rightarrow> u32" where
  "pde_at s pgdir d = rd32 (pmem s) (pgdir + 4 * d)"

definition pd_present :: "kmem \<Rightarrow> u32 \<Rightarrow> u32 \<Rightarrow> bool" where
  "pd_present s pgdir d \<longleftrightarrow> pde_at s pgdir d AND PTE_P \<noteq> 0"

definition pgtab_at :: "kmem \<Rightarrow> u32 \<Rightarrow> u32 \<Rightarrow> u32" where
  "pgtab_at s pgdir d = P2V (PTE_ADDR (pde_at s pgdir d))"

definition pte_at :: "kmem \<Rightarrow> u32 \<Rightarrow> u32 \<Rightarrow> u32" where
  "pte_at s pgdir va =
     (if pd_present s pgdir (PDX va)
      then rd32 (pmem s) (pgtab_at s pgdir (PDX va) + 4 * PTX va) else 0)"

definition dir_indices :: "u32 list" where
  "dir_indices = map of_nat [0..<1024]"

definition tables :: "kmem \<Rightarrow> u32 \<Rightarrow> u32 list" where
  "tables s pgdir = map (pgtab_at s pgdir) (filter (pd_present s pgdir) dir_indices)"

text \<open>
  A well-formed page directory: the directory page, its page-table pages and the pages on
  the free list are all different and all pages the allocator deals in.
\<close>

definition pt_ok :: "kmem \<Rightarrow> u32 \<Rightarrow> u32 list \<Rightarrow> bool" where
  "pt_ok s pgdir xs \<longleftrightarrow> free_pages s xs \<and> distinct (pgdir # tables s pgdir @ xs) \<and>
     (\<forall>p\<in>set (pgdir # tables s pgdir). page_ok s p)"

lemma dir_indices_mem: "d \<in> set dir_indices \<longleftrightarrow> unat d < 1024"
proof
  assume "unat d < 1024"
  then show "d \<in> set dir_indices"
    unfolding dir_indices_def by (auto intro!: image_eqI [of _ _ "unat d"])
qed (auto simp: dir_indices_def unat_of_nat)

lemma distinct_dir_indices: "distinct dir_indices"
  unfolding dir_indices_def distinct_map
  by (auto simp: inj_on_def word_of_nat_eq_iff take_bit_eq_mod)

lemma PDX_dir_indices [simp]: "PDX va \<in> set dir_indices"
  by (simp add: dir_indices_mem)

lemma unat_4_mult: "unat d < 1024 \<Longrightarrow> unat (4 * d :: u32) = 4 * unat d"
  by (simp add: unat_word_ariths)

lemma page_off_4 [simp]: "unat d < 1024 \<Longrightarrow> page_off (4 * d)"
  by (simp add: page_off_def unat_4_mult)

lemma slot_disjoint:
  fixes a d e :: u32
  assumes "unat d < 1024" "unat e < 1024" "d \<noteq> e"
  shows "4 \<le> (a + 4 * e) - (a + 4 * d)"
proof -
  have "unat d \<noteq> unat e" using assms(3) by (simp add: word_unat_eq_iff)
  then show ?thesis
    using assms(1,2) by (simp add: word_le_nat_alt unat_sub_if' unat_4_mult) arith
qed

lemma rd32_wr32_slot [mem_simps]:
  fixes m :: mem
  assumes "unat d < 1024" "unat e < 1024"
  shows "rd32 (wr32 m (a + 4 * d) v) (a + 4 * e) = (if d = e then v else rd32 m (a + 4 * e))"
  using assms slot_disjoint by (auto simp: rd32_wr32_same intro!: rd32_wr32_other)

lemma rd32_zero_page:
  assumes "pg_aligned a" "page_off k"
  shows "rd32 (memset m a 0 PGSIZE) (a + k) = 0"
proof -
  have "rd32 (memset m a 0 PGSIZE) (a + k) = rd32 (\<lambda>_. 0) (a + k)"
    using assms by (intro rd32_page_cong) (simp_all add: memset_page)
  then show ?thesis by (simp add: rd32_def)
qed

lemma page_ok_aligned: "page_ok s p \<Longrightarrow> pg_aligned p"
  by (simp add: page_ok_def)

lemma pt_okD:
  assumes "pt_ok s pgdir xs"
  shows "free_pages s xs" "page_ok s pgdir" "pg_aligned pgdir" "pgdir \<notin> set xs"
    "d \<in> set dir_indices \<Longrightarrow> pd_present s pgdir d \<Longrightarrow> page_ok s (pgtab_at s pgdir d) \<and>
       pgtab_at s pgdir d \<noteq> pgdir \<and> pgtab_at s pgdir d \<notin> set xs"
proof -
  show "free_pages s xs" "page_ok s pgdir" "pgdir \<notin> set xs" "pg_aligned pgdir"
    using assms by (auto simp: pt_ok_def page_ok_def)
  assume "d \<in> set dir_indices" "pd_present s pgdir d"
  then have "pgtab_at s pgdir d \<in> set (tables s pgdir)" by (simp add: tables_def)
  then show "page_ok s (pgtab_at s pgdir d) \<and>
       pgtab_at s pgdir d \<noteq> pgdir \<and> pgtab_at s pgdir d \<notin> set xs"
    using assms by (auto simp: pt_ok_def)
qed

lemma pt_ok_inj:
  assumes "pt_ok s pgdir xs" "d \<in> set dir_indices" "e \<in> set dir_indices"
    "pd_present s pgdir d" "pd_present s pgdir e" "pgtab_at s pgdir d = pgtab_at s pgdir e"
  shows "d = e"
proof -
  have "distinct (tables s pgdir)" using assms(1) by (simp add: pt_ok_def)
  then have "inj_on (pgtab_at s pgdir) (set (filter (pd_present s pgdir) dir_indices))"
    unfolding tables_def by (simp add: distinct_map)
  then show ?thesis using assms by (auto dest: inj_onD)
qed

subsection \<open>States that agree outside some pages\<close>

definition agree_off :: "u32 set \<Rightarrow> kmem \<Rightarrow> kmem \<Rightarrow> bool" where
  "agree_off P s s' \<longleftrightarrow> kern_end s' = kern_end s \<and> kern_data s' = kern_data s \<and>
     (\<forall>x. PGROUNDDOWN x \<notin> P \<longrightarrow> pmem s' x = pmem s x)"

lemma agree_off_refl [simp]: "agree_off P s s"
  by (simp add: agree_off_def)

lemma agree_off_trans: "agree_off P s t \<Longrightarrow> agree_off Q t u \<Longrightarrow> P \<union> Q \<subseteq> R \<Longrightarrow> agree_off R s u"
  by (simp add: agree_off_def) (metis subsetD)

lemma agree_off_mono: "agree_off P s t \<Longrightarrow> P \<subseteq> R \<Longrightarrow> agree_off R s t"
  by (auto simp: agree_off_def)

lemma agree_off_page_ok: "agree_off P s s' \<Longrightarrow> page_ok s' = page_ok s"
  by (simp add: agree_off_def page_ok_def fun_eq_iff)

lemma agree_off_rd32:
  assumes "agree_off P s s'" "pg_aligned p" "page_off k" "p \<notin> P"
  shows "rd32 (pmem s') (p + k) = rd32 (pmem s) (p + k)"
  using assms by (intro rd32_page_cong) (auto simp: agree_off_def)

lemma agree_off_pde:
  assumes "agree_off P s s'" "pg_aligned pgdir" "pgdir \<notin> P" "unat d < 1024"
  shows "pde_at s' pgdir d = pde_at s pgdir d" "pd_present s' pgdir d = pd_present s pgdir d"
    "pgtab_at s' pgdir d = pgtab_at s pgdir d"
  using agree_off_rd32 [OF assms(1,2) page_off_4 assms(3), OF assms(4)]
  by (simp_all add: pde_at_def pd_present_def pgtab_at_def)

lemma tables_cong:
  assumes "\<And>d. d \<in> set dir_indices \<Longrightarrow> pde_at s' pgdir d = pde_at s pgdir d"
  shows "tables s' pgdir = tables s pgdir"
  unfolding tables_def pd_present_def pgtab_at_def
  using assms by (auto intro!: map_cong filter_cong)

lemma agree_off_tables:
  assumes "agree_off P s s'" "pg_aligned pgdir" "pgdir \<notin> P"
  shows "tables s' pgdir = tables s pgdir"
  using assms by (intro tables_cong agree_off_pde) (auto simp: dir_indices_mem)

lemma agree_off_free_pages:
  assumes "agree_off P s s'" "freelist s' = freelist s" "free_pages s xs" "set xs \<inter> P = {}"
  shows "free_pages s' xs"
proof -
  have "rd32 (pmem s') x = rd32 (pmem s) x" if "x \<in> set xs" for x
    using agree_off_rd32 [OF assms(1), of x 0] that assms(3,4)
    by (auto simp: free_pages_def page_ok_def)
  then show ?thesis
    using assms(2,3) run_list_cong [of xs "pmem s'" "pmem s"] agree_off_page_ok [OF assms(1)]
    by (simp add: free_pages_def)
qed

lemma agree_off_pt_ok:
  assumes "agree_off P s s'" "freelist s' = freelist s" "pt_ok s pgdir xs"
    "pgdir \<notin> P" "set xs \<inter> P = {}"
  shows "pt_ok s' pgdir xs"
  using assms pt_okD(1-3) [OF assms(3)] agree_off_free_pages [OF assms(1,2)]
  by (simp add: pt_ok_def agree_off_tables agree_off_page_ok)

lemma agree_off_pte:
  assumes "agree_off P s s'" and d: "pg_aligned pgdir" and "pgdir \<notin> P" "set (tables s pgdir) \<inter> P = {}"
  shows "pte_at s' pgdir va = pte_at s pgdir va"
proof -
  show ?thesis
  proof (cases "pd_present s pgdir (PDX va)")
    case True
    then have "pgtab_at s pgdir (PDX va) \<in> set (tables s pgdir)"
      by (simp add: tables_def)
    then have "pgtab_at s pgdir (PDX va) \<notin> P" using assms(4) by blast
    moreover have "pg_aligned (pgtab_at s pgdir (PDX va))"
      by (simp add: pgtab_at_def)
    ultimately show ?thesis
      using agree_off_rd32 [OF assms(1), of "pgtab_at s pgdir (PDX va)" "4 * PTX va"]
        agree_off_pde [OF assms(1) d assms(3)] by (simp add: pte_at_def)
  next
    case False
    then show ?thesis using agree_off_pde [OF assms(1) d assms(3)] by (simp add: pte_at_def)
  qed
qed

lemma agree_off_wr32:
  "pg_aligned p \<Longrightarrow> page_off k \<Longrightarrow> p \<in> P \<Longrightarrow> agree_off P s (s\<lparr>pmem := wr32 (pmem s) (p + k) v\<rparr>)"
  by (auto simp: agree_off_def intro!: wr32_other_page)

lemma agree_off_memset:
  "pg_aligned p \<Longrightarrow> p \<in> P \<Longrightarrow> agree_off P s (s\<lparr>pmem := memset (pmem s) p c PGSIZE\<rparr>)"
  by (auto simp: agree_off_def memset_page)

subsection \<open>Writing an entry\<close>

lemma pgtab_mem_tables:
  "pd_present s pgdir (PDX va) \<Longrightarrow> pgtab_at s pgdir (PDX va) \<in> set (tables s pgdir)"
  by (simp add: tables_def)

definition set_pte :: "kmem \<Rightarrow> u32 \<Rightarrow> u32 \<Rightarrow> u32 \<Rightarrow> kmem" where
  "set_pte s pgdir va v =
     s\<lparr>pmem := wr32 (pmem s) (pgtab_at s pgdir (PDX va) + 4 * PTX va) v\<rparr>"

lemma set_pte_agree:
  "agree_off {pgtab_at s pgdir (PDX va)} s (set_pte s pgdir va v)"
  unfolding set_pte_def by (rule agree_off_wr32) (simp_all add: pgtab_at_def)

lemma set_pte_ok:
  assumes "pt_ok s pgdir xs" "pd_present s pgdir (PDX va)"
  shows "pt_ok (set_pte s pgdir va v) pgdir xs" "tables (set_pte s pgdir va v) pgdir = tables s pgdir"
    "PDX va' = PDX va \<and> PTX va' = PTX va \<Longrightarrow> pte_at (set_pte s pgdir va v) pgdir va' = v"
    "\<not> (PDX va' = PDX va \<and> PTX va' = PTX va) \<Longrightarrow>
       pte_at (set_pte s pgdir va v) pgdir va' = pte_at s pgdir va'"
proof -
  let ?t = "pgtab_at s pgdir (PDX va)" and ?s = "set_pte s pgdir va v"
  note ag = set_pte_agree [of s pgdir va v]
  have t: "?t \<noteq> pgdir" "?t \<notin> set xs" using pt_okD(5) [OF assms(1) _ assms(2)] by auto
  then show "pt_ok ?s pgdir xs"
    using assms by (intro agree_off_pt_ok [OF ag]) (auto simp: set_pte_def)
  show "tables ?s pgdir = tables s pgdir"
    using t pt_okD(3) [OF assms(1)] by (intro agree_off_tables [OF ag]) auto
  have pd: "pd_present ?s pgdir d = pd_present s pgdir d" "pgtab_at ?s pgdir d = pgtab_at s pgdir d"
    if "unat d < 1024" for d
    using agree_off_pde [OF ag pt_okD(3) [OF assms(1)] _ that] t by auto
  show "pte_at ?s pgdir va' = v" if "PDX va' = PDX va \<and> PTX va' = PTX va"
    using that assms(2) by (simp add: pte_at_def pd) (simp add: set_pte_def rd32_wr32_same)
  show "pte_at ?s pgdir va' = pte_at s pgdir va'" if ne: "\<not> (PDX va' = PDX va \<and> PTX va' = PTX va)"
  proof (cases "pd_present s pgdir (PDX va') \<and> PDX va' \<noteq> PDX va")
    case True
    then have "pgtab_at s pgdir (PDX va') \<noteq> ?t"
      using pt_ok_inj [OF assms(1) _ _ _ assms(2)] by auto
    then have "rd32 (pmem ?s) (pgtab_at s pgdir (PDX va') + 4 * PTX va') =
        rd32 (pmem s) (pgtab_at s pgdir (PDX va') + 4 * PTX va')"
      by (intro agree_off_rd32 [OF ag]) (simp_all add: pgtab_at_def)
    then show ?thesis by (simp add: pte_at_def pd)
  next
    case False
    then show ?thesis
      using ne by (auto simp: pte_at_def pd) (auto simp: set_pte_def rd32_wr32_slot)
  qed
qed

subsection \<open>walkpgdir\<close>

lemma walkpgdir_present:
  "pd_present s pgdir (PDX va) \<Longrightarrow>
    walkpgdir pgdir va alloc s = (pgtab_at s pgdir (PDX va) + 4 * PTX va, s)"
  by (simp add: walkpgdir_def pd_present_def pde_at_def pgtab_at_def)

lemma walkpgdir_absent: "\<not> pd_present s pgdir (PDX va) \<Longrightarrow> walkpgdir pgdir va False s = (0, s)"
  by (simp add: walkpgdir_def pd_present_def pde_at_def)

lemma slot_nonzero:
  assumes "page_ok s p" "unat k < 1024"
  shows "p + 4 * k \<noteq> 0"
proof
  assume "p + 4 * k = 0"
  moreover have "PGROUNDDOWN (p + 4 * k) = p"
    using assms by (intro PGROUNDDOWN_add) (simp_all add: page_ok_def unat_4_mult)
  moreover have "PGROUNDDOWN 0 = 0" by (simp add: PGROUNDDOWN_def)
  ultimately show False using page_ok_nonzero [OF assms(1)] by metis
qed

lemma mset_map_filter_upd:
  assumes "distinct L" "d \<in> set L" "\<not> P d" "P' d"
    "\<And>e. e \<in> set L \<Longrightarrow> e \<noteq> d \<Longrightarrow> P' e = P e \<and> f' e = f e"
  shows "mset (map f' (filter P' L)) = add_mset (f' d) (mset (map f (filter P L)))"
  using assms
proof (induction L)
  case (Cons a L)
  show ?case
  proof (cases "a = d")
    case True
    then have "mset (map f' (filter P' L)) = mset (map f (filter P L))"
      using Cons.prems by (intro arg_cong [of _ _ mset] map_cong filter_cong) auto
    then show ?thesis using True Cons.prems by simp
  next
    case False
    then show ?thesis using Cons.IH Cons.prems by auto
  qed
qed simp

text \<open>The pages of a page directory and of the free list, which its operations may change.\<close>

definition pt_pages :: "kmem \<Rightarrow> u32 \<Rightarrow> u32 list \<Rightarrow> u32 set" where
  "pt_pages s pgdir xs = insert pgdir (set (tables s pgdir) \<union> set xs)"

text \<open>
  Pages move between the free list and the page-table pages only.
\<close>

definition pt_conserve :: "kmem \<Rightarrow> u32 \<Rightarrow> u32 list \<Rightarrow> kmem \<Rightarrow> u32 list \<Rightarrow> bool" where
  "pt_conserve s pgdir xs s' ys \<longleftrightarrow> set ys \<subseteq> set xs \<and>
     mset ys + mset (tables s' pgdir) = mset xs + mset (tables s pgdir)"

lemma pt_conserve_refl [simp]: "pt_conserve s pgdir xs s xs"
  by (simp add: pt_conserve_def)

lemma pt_conserve_trans:
  "pt_conserve s pgdir xs t ys \<Longrightarrow> pt_conserve t pgdir ys u zs \<Longrightarrow> pt_conserve s pgdir xs u zs"
  by (auto simp: pt_conserve_def)

lemma pt_conserve_pages:
  assumes "pt_conserve s pgdir xs s' ys"
  shows "pt_pages s' pgdir ys = pt_pages s pgdir xs"
proof -
  have "set_mset (mset ys + mset (tables s' pgdir)) = set_mset (mset xs + mset (tables s pgdir))"
    using assms by (simp add: pt_conserve_def)
  then show ?thesis by (auto simp: pt_pages_def)
qed

definition new_table :: "kmem \<Rightarrow> u32 \<Rightarrow> u32 \<Rightarrow> u32 \<Rightarrow> kmem" where
  "new_table s pgdir d t = s\<lparr>freelist := rd32 (pmem s) t,
     pmem := wr32 (memset (pmem s) t 0 PGSIZE) (pgdir + 4 * d) (V2P t OR PTE_P OR PTE_W OR PTE_U)\<rparr>"

lemma walkpgdir_new:
  assumes "free_pages s (t # ys)" "\<not> pd_present s pgdir (PDX va)"
  shows "walkpgdir pgdir va True s = (t + 4 * PTX va, new_table s pgdir (PDX va) t)"
  using assms kalloc_pop [OF assms(1)]
  by (auto simp: walkpgdir_def pd_present_def pde_at_def new_table_def free_pages_def page_ok_def)

lemma PTE_P_iff: "x AND PTE_P = 0 \<longleftrightarrow> \<not> bit x 0"
  by (simp add: PTE_P_def and_one_eq bit_0 even_iff_mod_2_eq_zero)

lemma pde_new_table:
  assumes "pg_aligned t"
  shows "PTE_ADDR (V2P t OR PTE_P OR PTE_W OR PTE_U) = V2P t"
    "(V2P t OR PTE_P OR PTE_W OR PTE_U) AND PTE_P \<noteq> 0"
proof -
  have "V2P t OR PTE_P OR PTE_W OR PTE_U = V2P t OR 7"
    by (simp add: PTE_P_def PTE_W_def PTE_U_def or.assoc)
  then show "PTE_ADDR (V2P t OR PTE_P OR PTE_W OR PTE_U) = V2P t"
    using PTE_ADDR_or_flags(1) [of "V2P t" 7] assms by simp
  show "(V2P t OR PTE_P OR PTE_W OR PTE_U) AND PTE_P \<noteq> 0"
    unfolding PTE_P_iff not_not bit_or_iff by (simp add: PTE_P_def)
qed

lemma new_table_ok:
  assumes ok: "pt_ok s pgdir (t # ys)" and d: "unat d < 1024" "\<not> pd_present s pgdir d"
  defines "s' \<equiv> new_table s pgdir d t"
  shows "agree_off {t, pgdir} s s'" "pd_present s' pgdir d" "pgtab_at s' pgdir d = t"
    "\<And>e. unat e < 1024 \<Longrightarrow> e \<noteq> d \<Longrightarrow> pde_at s' pgdir e = pde_at s pgdir e"
    "mset (tables s' pgdir) = add_mset t (mset (tables s pgdir))"
    "pt_ok s' pgdir ys" "pte_at s' pgdir va = pte_at s pgdir va"
proof -
  have fp: "free_pages s (t # ys)" and pa: "pg_aligned pgdir" "pg_aligned t" "t \<noteq> pgdir" "page_ok s t"
    using pt_okD(1,3,4) [OF ok] by (auto simp: free_pages_def page_ok_def)
  let ?m = "memset (pmem s) t 0 PGSIZE" and ?e = "V2P t OR PTE_P OR PTE_W OR PTE_U"
  have m': "pmem s' = wr32 ?m (pgdir + 4 * d) ?e" by (simp add: s'_def new_table_def)
  show ag: "agree_off {t, pgdir} s s'"
    using pa d(1) by (auto simp: agree_off_def s'_def new_table_def memset_page wr32_other_page)
  have pde: "pde_at s' pgdir e = (if e = d then ?e else pde_at s pgdir e)" if "unat e < 1024" for e
  proof -
    have "rd32 ?m (pgdir + 4 * e) = rd32 (pmem s) (pgdir + 4 * e)"
      using pa that by (intro rd32_page_cong) (auto simp: memset_page)
    then show ?thesis using d(1) that by (simp add: pde_at_def m' rd32_wr32_slot)
  qed
  show pr: "pd_present s' pgdir d" and tb: "pgtab_at s' pgdir d = t"
    using pde [OF d(1)] pde_new_table [OF pa(2)] by (simp_all add: pd_present_def pgtab_at_def)
  show other: "pde_at s' pgdir e = pde_at s pgdir e" if "unat e < 1024" "e \<noteq> d" for e
    using pde that by simp
  show tabs: "mset (tables s' pgdir) = add_mset t (mset (tables s pgdir))"
    unfolding tables_def tb [symmetric]
    using d pr other by (intro mset_map_filter_upd distinct_dir_indices)
      (auto simp: dir_indices_mem pd_present_def pgtab_at_def)
  have "mset (pgdir # tables s' pgdir @ ys) = mset (pgdir # tables s pgdir @ t # ys)"
    by (simp add: tabs)
  then have "distinct (pgdir # tables s' pgdir @ ys)" "set (tables s' pgdir) = insert t (set (tables s pgdir))"
    using ok mset_eq_imp_distinct_iff tabs unfolding pt_ok_def by (blast, metis set_mset_add_mset_insert set_mset_mset)
  moreover have "free_pages s' ys"
  proof (rule agree_off_free_pages)
    show "agree_off {t, pgdir} (s\<lparr>freelist := rd32 (pmem s) t\<rparr>) s'"
      using ag by (simp add: agree_off_def)
    show "free_pages (s\<lparr>freelist := rd32 (pmem s) t\<rparr>) ys" using kalloc_pop(2) [OF fp] .
    show "set ys \<inter> {t, pgdir} = {}" using ok by (auto simp: pt_ok_def)
  qed (simp add: s'_def new_table_def)
  ultimately show "pt_ok s' pgdir ys"
    using ok pa(4) by (auto simp: pt_ok_def agree_off_page_ok [OF ag])
  show "pte_at s' pgdir va = pte_at s pgdir va"
  proof (cases "PDX va = d")
    case True
    have "rd32 (pmem s') (t + 4 * PTX va) = rd32 ?m (t + 4 * PTX va)"
      unfolding m' using pa d(1) by (intro rd32_wr32_other_page) auto
    then show ?thesis
      using True pr tb d pa by (simp add: pte_at_def rd32_zero_page)
  next
    case False
    then have same: "pd_present s' pgdir (PDX va) = pd_present s pgdir (PDX va)"
      "pgtab_at s' pgdir (PDX va) = pgtab_at s pgdir (PDX va)"
      using other by (simp_all add: pd_present_def pgtab_at_def)
    show ?thesis
    proof (cases "pd_present s pgdir (PDX va)")
      case True
      then have "pgtab_at s pgdir (PDX va) \<noteq> t" "pgtab_at s pgdir (PDX va) \<noteq> pgdir"
        using pt_okD(5) [OF ok, of "PDX va"] by auto
      then show ?thesis
        using agree_off_rd32 [OF ag, of "pgtab_at s pgdir (PDX va)" "4 * PTX va"] same
        by (simp add: pte_at_def) (simp add: pgtab_at_def)
    qed (simp add: pte_at_def same)
  qed
qed

lemma walkpgdir_alloc:
  assumes pt: "pt_ok s pgdir xs"
  obtains (null) "walkpgdir pgdir va True s = (0, s)" "xs = []"
  | (ok) s' ys where "walkpgdir pgdir va True s = (pgtab_at s' pgdir (PDX va) + 4 * PTX va, s')"
      "pgtab_at s' pgdir (PDX va) + 4 * PTX va \<noteq> 0" "pt_ok s' pgdir ys"
      "pd_present s' pgdir (PDX va)" "\<And>va'. pte_at s' pgdir va' = pte_at s pgdir va'"
      "agree_off (pt_pages s pgdir xs) s s'" "pt_conserve s pgdir xs s' ys"
proof (cases "pd_present s pgdir (PDX va)")
  case True
  have "pgtab_at s pgdir (PDX va) + 4 * PTX va \<noteq> 0"
    using pt_okD(5) [OF pt _ True] slot_nonzero by auto
  with True show ?thesis using that(2) [of s xs] pt by (simp add: walkpgdir_present)
next
  case False
  show ?thesis
  proof (cases xs)
    case Nil
    then have "walkpgdir pgdir va True s = (0, s)"
      using False pt_okD(1) [OF pt] kalloc_empty [of s]
      by (simp add: walkpgdir_def pd_present_def pde_at_def)
    with Nil show ?thesis using that(1) by blast
  next
    case (Cons t ys)
    let ?s = "new_table s pgdir (PDX va) t"
    note nt = new_table_ok [OF pt [unfolded Cons] PDX_less False]
    have "page_ok ?s t"
      using pt_okD(5) [OF nt(6) _ nt(2)] nt(3) by simp
    show ?thesis
    proof (rule that(2) [of ?s ys])
      show "walkpgdir pgdir va True s = (pgtab_at ?s pgdir (PDX va) + 4 * PTX va, ?s)"
        using walkpgdir_new [OF _ False] pt_okD(1) [OF pt] Cons nt(3) by simp
      show "pgtab_at ?s pgdir (PDX va) + 4 * PTX va \<noteq> 0"
        using slot_nonzero [OF \<open>page_ok ?s t\<close>] nt(3) by simp
      show "agree_off (pt_pages s pgdir xs) s ?s"
        by (rule agree_off_mono [OF nt(1)]) (auto simp: pt_pages_def Cons)
      show "pt_conserve s pgdir xs ?s ys"
        using nt(5) by (auto simp: pt_conserve_def Cons)
    qed (use nt in auto)
  qed
qed

subsection \<open>mappages\<close>

text \<open>
  \<open>same_page a b\<close>: the two addresses share their page-table entry. \<open>page_seq a n\<close> are the
  \<open>n\<close> pages from \<open>a\<close> on.
\<close>

definition same_page :: "u32 \<Rightarrow> u32 \<Rightarrow> bool" where
  "same_page a b \<longleftrightarrow> PDX a = PDX b \<and> PTX a = PTX b"

lemma same_page_iff: "same_page a b \<longleftrightarrow> PGROUNDDOWN a = PGROUNDDOWN b"
proof -
  have "same_page a b \<longleftrightarrow> unat a div 4096 = unat b div 4096"
  proof -
    have "unat a div 2 ^ 22 = unat a div 4096 div 1024" "unat b div 2 ^ 22 = unat b div 4096 div 1024"
      by (simp_all add: div_mult2_eq [symmetric])
    then have "same_page a b \<longleftrightarrow> unat a div 4096 div 1024 = unat b div 4096 div 1024 \<and>
        unat a div 4096 mod 1024 = unat b div 4096 mod 1024"
      unfolding same_page_def word_unat_eq_iff unat_PDX unat_PTX by simp
    then show ?thesis by (metis div_mult_mod_eq)
  qed
  also have "\<dots> \<longleftrightarrow> PGROUNDDOWN a = PGROUNDDOWN b"
    unfolding word_unat_eq_iff unat_PGROUNDDOWN by (simp add: minus_mod_eq_mult_div)
  finally show ?thesis .
qed

lemma same_page_aligned: "pg_aligned a \<Longrightarrow> pg_aligned b \<Longrightarrow> same_page a b \<longleftrightarrow> a = b"
  by (simp add: same_page_iff PGROUNDDOWN_aligned)

lemma same_page_refl [simp]: "same_page a a"
  by (simp add: same_page_def)

lemma pte_at_same_page: "same_page a b \<Longrightarrow> pte_at s pgdir a = pte_at s pgdir b"
  by (simp add: same_page_def pte_at_def)

definition page_seq :: "u32 \<Rightarrow> nat \<Rightarrow> u32" where
  "page_seq a i = a + of_nat i * PGSIZE"

lemma page_seq_0 [simp]: "page_seq a 0 = a"
  by (simp add: page_seq_def)

lemma page_seq_Suc: "page_seq a (Suc i) = page_seq (a + PGSIZE) i"
  by (simp add: page_seq_def algebra_simps)

lemma pg_aligned_page_seq [simp]: "pg_aligned a \<Longrightarrow> pg_aligned (page_seq a i)"
  by (induction i arbitrary: a) (simp_all add: page_seq_Suc pg_aligned_add_PGSIZE)

lemma unat_page_seq: "unat a + i * 4096 < 2 ^ 32 \<Longrightarrow> unat (page_seq a i) = unat a + i * 4096"
proof -
  assume *: "unat a + i * 4096 < 2 ^ 32"
  then have "unat (of_nat i * PGSIZE) = i * 4096"
    by (simp add: PGSIZE_def unat_word_ariths unat_of_nat)
  with * show ?thesis by (simp add: page_seq_def unat_add_no_wrap)
qed

lemma page_seq_inject:
  assumes "unat a + n * 4096 \<le> 2 ^ 32" "i < n" "j < n" "page_seq a i = page_seq a j"
  shows "i = j"
proof -
  have "unat a + i * 4096 < 2 ^ 32" "unat a + j * 4096 < 2 ^ 32" using assms by auto
  then show ?thesis using assms(4) unat_page_seq by (metis add_left_cancel mult_right_cancel zero_neq_numeral)
qed

text \<open>
  What \<^verbatim>\<open>mappages\<close> did when it returned 0: the \<open>n\<close> pages from \<open>a\<close> on have the entries
  asked for and no other entry changed.
\<close>

definition mapped :: "u32 \<Rightarrow> u32 \<Rightarrow> u32 \<Rightarrow> u32 \<Rightarrow> nat \<Rightarrow> kmem \<Rightarrow> kmem \<Rightarrow> bool" where
  "mapped pgdir a pa perm n s s' \<longleftrightarrow>
     (\<forall>i<n. pte_at s' pgdir (page_seq a i) = (page_seq pa i OR perm OR PTE_P)) \<and>
     (\<forall>va. (\<forall>i<n. \<not> same_page va (page_seq a i)) \<longrightarrow> pte_at s' pgdir va = pte_at s pgdir va)"

lemma map_step:
  assumes pt: "pt_ok s pgdir xs"
  obtains (null) "walkpgdir pgdir a True s = (0, s)" "xs = []"
  | (ok) p s1 s2 ys where "walkpgdir pgdir a True s = (p, s1)" "p \<noteq> 0"
      "rd32 (pmem s1) p = pte_at s pgdir a" "s1\<lparr>pmem := wr32 (pmem s1) p v\<rparr> = s2"
      "pt_ok s2 pgdir ys" "agree_off (pt_pages s pgdir xs) s s2" "pt_conserve s pgdir xs s2 ys"
      "\<And>va. pte_at s2 pgdir va = (if same_page va a then v else pte_at s pgdir va)"
  using pt
proof (cases rule: walkpgdir_alloc [where va = a])
  case null
  then show ?thesis using that(1) by blast
next
  case (ok s1 ys)
  let ?p = "pgtab_at s1 pgdir (PDX a) + 4 * PTX a" and ?s2 = "set_pte s1 pgdir a v"
  note sp = set_pte_ok [OF ok(3,4), where v = v]
  have tp: "pgtab_at s1 pgdir (PDX a) \<in> pt_pages s pgdir xs"
    using pgtab_mem_tables [OF ok(4)] pt_conserve_pages [OF ok(7)] by (auto simp: pt_pages_def)
  show ?thesis
  proof (rule that(2) [of ?p s1 ?s2 ys])
    show "rd32 (pmem s1) ?p = pte_at s pgdir a"
      using ok(4,5) by (metis pte_at_def)
    show "agree_off (pt_pages s pgdir xs) s ?s2"
      using tp by (intro agree_off_trans [OF ok(6) set_pte_agree]) auto
    show "pt_conserve s pgdir xs ?s2 ys"
      using ok(7) sp(2) by (simp add: pt_conserve_def)
    show "pte_at ?s2 pgdir va = (if same_page va a then v else pte_at s pgdir va)" for va
      using sp(3,4) [of va] ok(5) by (simp add: same_page_def)
  qed (use ok sp in \<open>simp_all add: set_pte_def\<close>)
qed

lemma mapped_Suc:
  assumes "\<And>va. pte_at t pgdir va = (if same_page va a then pa OR perm OR PTE_P else pte_at s pgdir va)"
    and m: "mapped pgdir (a + PGSIZE) (pa + PGSIZE) perm k t s'"
    and a: "pg_aligned a" "unat a + Suc k * 4096 \<le> 2 ^ 32"
  shows "mapped pgdir a pa perm (Suc k) s s'"
proof -
  have "\<not> same_page a (page_seq (a + PGSIZE) i)" if "i < k" for i
    using page_seq_inject [OF a(2), of 0 "Suc i"] that a(1)
    by (auto simp: page_seq_Suc same_page_aligned pg_aligned_add_PGSIZE)
  then have "pte_at s' pgdir a = (pa OR perm OR PTE_P)"
    using m assms(1) by (simp add: mapped_def)
  then show ?thesis
    using m assms(1) unfolding mapped_def All_less_Suc2 page_seq_0 page_seq_Suc by auto
qed

lemma mapped_0 [simp]: "mapped pgdir a pa perm 0 s s"
  by (simp add: mapped_def)

lemma mappages_loop_spec:
  assumes "pt_ok s pgdir xs" "pg_aligned a" "unat a + Suc n * 4096 \<le> 2 ^ 32" "lst = page_seq a n" "n \<le> fuel"
  shows "(\<exists>i\<le>n. pte_at s pgdir (page_seq a i) AND PTE_P \<noteq> 0) \<and>
      mappages_loop (Suc fuel) pgdir a lst pa perm s = Inl (Panic ''remap'') \<or>
    (\<exists>r s' ys k. mappages_loop (Suc fuel) pgdir a lst pa perm s = Inr (r, s') \<and> pt_ok s' pgdir ys \<and>
      agree_off (pt_pages s pgdir xs) s s' \<and> pt_conserve s pgdir xs s' ys \<and>
      mapped pgdir a pa perm k s s' \<and> (r = 0 \<and> k = Suc n \<or> r = -1 \<and> k \<le> n \<and> ys = []))"
  using assms
proof (induction n arbitrary: s xs a pa fuel)
  case (0 s xs a pa fuel)
  show ?case
    using "0.prems"(1)
  proof (cases rule: map_step [where a = a and v = "pa OR perm OR PTE_P"])
    case null
    then show ?thesis using "0.prems"(1) by (auto intro!: exI [of _ 0])
  next
    case (ok p s1 s2 ys)
    have "mapped pgdir a pa perm (Suc 0) s s2"
      using mapped_Suc [OF ok(8)] "0.prems"(2,3) by simp
    then show ?thesis
      using ok "0.prems"(4) by auto
  qed
next
  case (Suc n s xs a pa fuel)
  show ?case
    using Suc.prems(1)
  proof (cases rule: map_step [where a = a and v = "pa OR perm OR PTE_P"])
    case null
    then show ?thesis using Suc.prems(1) by (auto intro!: exI [of _ 0])
  next
    case (ok p s1 s2 ys)
    show ?thesis
    proof (cases "pte_at s pgdir a AND PTE_P = 0")
      case False
      then show ?thesis using ok by (auto intro!: exI [of _ 0])
    next
      case True
      obtain f where f: "fuel = Suc f" using Suc.prems(5) by (cases fuel) auto
      have un: "unat (a + PGSIZE) = unat a + 4096"
        using Suc.prems(3) by (simp add: PGSIZE_def unat_add_no_wrap)
      have ne: "a \<noteq> lst"
        using page_seq_inject [OF Suc.prems(3), of 0 "Suc n"] Suc.prems(4) by auto
      have step: "mappages_loop (Suc fuel) pgdir a lst pa perm s =
          mappages_loop (Suc f) pgdir (a + PGSIZE) lst (pa + PGSIZE) perm s2"
        using ok(1-4) True ne by (simp add: f)
      note ih = Suc.IH [OF ok(5), of "a + PGSIZE" f "pa + PGSIZE"]
      have same: "pte_at s2 pgdir (page_seq a (Suc i)) = pte_at s pgdir (page_seq a (Suc i))" if "i \<le> n" for i
        using ok(8) page_seq_inject [OF Suc.prems(3), of 0 "Suc i"] that Suc.prems(2)
        by (auto simp: same_page_aligned)
      have pre: "pg_aligned (a + PGSIZE)" "unat (a + PGSIZE) + Suc n * 4096 \<le> 2 ^ 32"
        "lst = page_seq (a + PGSIZE) n" "n \<le> f"
        using Suc.prems(2-5) un f by (simp_all add: pg_aligned_add_PGSIZE page_seq_Suc)
      from ih [OF pre] consider
        (panic) i where "i \<le> n" "pte_at s2 pgdir (page_seq (a + PGSIZE) i) AND PTE_P \<noteq> 0"
          "mappages_loop (Suc f) pgdir (a + PGSIZE) lst (pa + PGSIZE) perm s2 = Inl (Panic ''remap'')"
      | (ret) r s' zs k where
          "mappages_loop (Suc f) pgdir (a + PGSIZE) lst (pa + PGSIZE) perm s2 = Inr (r, s')"
          "pt_ok s' pgdir zs" "agree_off (pt_pages s2 pgdir ys) s2 s'" "pt_conserve s2 pgdir ys s' zs"
          "mapped pgdir (a + PGSIZE) (pa + PGSIZE) perm k s2 s'"
          "r = 0 \<and> k = Suc n \<or> r = -1 \<and> k \<le> n \<and> zs = []"
        by blast
      then show ?thesis
      proof cases
        case panic
        then have "pte_at s pgdir (page_seq a (Suc i)) AND PTE_P \<noteq> 0"
          using same by (simp add: page_seq_Suc)
        with panic show ?thesis unfolding step by (intro disjI1 conjI exI [of _ "Suc i"]) auto
      next
        case ret
        have "mapped pgdir a pa perm (Suc k) s s'"
          using mapped_Suc [OF ok(8) ret(5)] ret(6) Suc.prems(2,3) by auto
        moreover have "agree_off (pt_pages s pgdir xs) s s'"
          using agree_off_trans [OF ok(6) ret(3)] pt_conserve_pages [OF ok(7)] by simp
        moreover have "pt_conserve s pgdir xs s' zs"
          using pt_conserve_trans [OF ok(7) ret(4)] .
        moreover have "r = 0 \<and> Suc k = Suc (Suc n) \<or> r = -1 \<and> Suc k \<le> Suc n \<and> zs = []"
          using ret(6) by auto
        ultimately show ?thesis unfolding step using ret(1,2) by blast
      qed
    qed
  qed
qed

definition page_span :: "u32 \<Rightarrow> u32 \<Rightarrow> nat" where
  "page_span va sz = (unat va + unat sz - 1) div 4096 - unat va div 4096"

lemma PGROUNDDOWN_mult: "unat (PGROUNDDOWN a) = unat a div 4096 * 4096"
  by (simp add: unat_PGROUNDDOWN minus_mod_eq_div_mult)

lemma page_span_last:
  assumes "0 < unat sz" "unat va + unat sz \<le> 2 ^ 32"
  shows "PGROUNDDOWN (va + sz - 1) = page_seq (PGROUNDDOWN va) (page_span va sz)"
    "unat (PGROUNDDOWN va) + Suc (page_span va sz) * 4096 \<le> 2 ^ 32"
proof -
  have s1: "unat (sz - 1) = unat sz - 1"
    using assms(1) by (simp add: unat_sub word_le_nat_alt)
  have e: "unat (va + sz - 1) = unat va + unat sz - 1"
    unfolding add_diff_eq [symmetric] using assms s1 unat_add_no_wrap [of va "sz - 1"] by simp
  let ?A = "unat va div 4096" and ?B = "(unat va + unat sz - 1) div 4096"
  have le: "?A \<le> ?B" using assms(1) by (intro div_le_mono) simp
  have "?B < 2 ^ 20" using assms by (intro div_less_iff_less_mult [THEN iffD2]) simp_all
  then have b: "?A * 4096 + Suc (?B - ?A) * 4096 \<le> 2 ^ 32" using le by simp arith
  then show "unat (PGROUNDDOWN va) + Suc (page_span va sz) * 4096 \<le> 2 ^ 32"
    by (simp add: page_span_def PGROUNDDOWN_mult)
  have "unat (page_seq (PGROUNDDOWN va) (page_span va sz)) = ?A * 4096 + (?B - ?A) * 4096"
    using b by (subst unat_page_seq) (simp_all add: page_span_def PGROUNDDOWN_mult)
  also have "\<dots> = ?B * 4096" using le by (simp add: diff_mult_distrib)
  finally show "PGROUNDDOWN (va + sz - 1) = page_seq (PGROUNDDOWN va) (page_span va sz)"
    by (simp add: word_unat_eq_iff PGROUNDDOWN_mult e)
qed

lemma page_seq_div: 
  assumes "unat a + n * 4096 < 2 ^ 32"
  shows "unat ((page_seq a n - a) div PGSIZE) = n"
proof -
  have "n * 4096 < 2 ^ 32" using assms by simp
  then have "unat (of_nat n * 4096 :: u32) = n * 4096"
    by (simp add: unat_word_ariths unat_of_nat)
  then show ?thesis by (simp add: page_seq_def unat_div PGSIZE_def)
qed

text \<open>
  \<^verbatim>\<open>mappages\<close> on a well-formed directory stops: it panics only on a page that is mapped
  already, and returns \<open>-1\<close> only when the free list is exhausted.
\<close>

lemma mappages_spec:
  assumes "pt_ok s pgdir xs" "0 < unat sz" "unat va + unat sz \<le> 2 ^ 32"
  shows "(\<exists>i\<le>page_span va sz. pte_at s pgdir (page_seq (PGROUNDDOWN va) i) AND PTE_P \<noteq> 0) \<and>
      mappages pgdir va sz pa perm s = Inl (Panic ''remap'') \<or>
    (\<exists>r s' ys k. mappages pgdir va sz pa perm s = Inr (r, s') \<and> pt_ok s' pgdir ys \<and>
      agree_off (pt_pages s pgdir xs) s s' \<and> pt_conserve s pgdir xs s' ys \<and>
      mapped pgdir (PGROUNDDOWN va) pa perm k s s' \<and>
      (r = 0 \<and> k = Suc (page_span va sz) \<or> r = -1 \<and> k \<le> page_span va sz \<and> ys = []))"
proof -
  note l = page_span_last [OF assms(2,3)]
  have "unat (PGROUNDDOWN va) + page_span va sz * 4096 < 2 ^ 32" using l(2) by simp
  from page_seq_div [OF this]
  have m: "mappages pgdir va sz pa perm s =
      mappages_loop (Suc (page_span va sz)) pgdir (PGROUNDDOWN va) (PGROUNDDOWN (va + sz - 1)) pa perm s"
    unfolding mappages_def Let_def l(1) by simp
  show ?thesis
    unfolding m by (rule mappages_loop_spec [OF assms(1) _ l(2) l(1) order.refl]) simp
qed

lemma mappages_page:
  assumes "pt_ok s pgdir xs" "pg_aligned a" "pte_at s pgdir a AND PTE_P = 0"
  obtains (full) s' where "mappages pgdir a PGSIZE pa perm s = Inr (-1, s')"
      "pt_ok s' pgdir []" "agree_off (pt_pages s pgdir xs) s s'" "pt_conserve s pgdir xs s' []"
      "\<And>va. pte_at s' pgdir va = pte_at s pgdir va"
  | (ok) s' ys where "mappages pgdir a PGSIZE pa perm s = Inr (0, s')"
      "pt_ok s' pgdir ys" "agree_off (pt_pages s pgdir xs) s s'" "pt_conserve s pgdir xs s' ys"
      "\<And>va. pte_at s' pgdir va = (if same_page va a then pa OR perm OR PTE_P else pte_at s pgdir va)"
proof -
  have b: "0 < unat PGSIZE" "unat a + unat PGSIZE \<le> 2 ^ 32"
    using pg_aligned_unat_le [OF assms(2)] by (simp_all add: PGSIZE_def)
  have "4096 dvd unat a" using assms(2) by (auto simp: pg_aligned_iff_mod)
  then obtain c where c: "unat a = 4096 * c" ..
  have sp: "page_span a PGSIZE = 0" by (simp add: page_span_def PGSIZE_def c)
  note ms = mappages_spec [OF assms(1) b, of pa perm, unfolded sp PGROUNDDOWN_aligned [OF assms(2)]]
  from ms assms(3) obtain r s' ys k where *: "mappages pgdir a PGSIZE pa perm s = Inr (r, s')"
    "pt_ok s' pgdir ys" "agree_off (pt_pages s pgdir xs) s s'" "pt_conserve s pgdir xs s' ys"
    "mapped pgdir a pa perm k s s'" "r = 0 \<and> k = Suc 0 \<or> r = -1 \<and> k = 0 \<and> ys = []"
    by auto
  from *(6) show ?thesis
  proof
    assume r: "r = 0 \<and> k = Suc 0"
    have "pte_at s' pgdir va = (if same_page va a then pa OR perm OR PTE_P else pte_at s pgdir va)" for va
      using *(5) r pte_at_same_page [of va a s' pgdir] by (auto simp: mapped_def)
    then show ?thesis using that(2) * r by blast
  next
    assume r: "r = -1 \<and> k = 0 \<and> ys = []"
    then have "pte_at s' pgdir va = pte_at s pgdir va" for va
      using *(5) by (simp add: mapped_def)
    then show ?thesis using that(1) * r by blast
  qed
qed

end
