(* ===== verification/Wmap_List.thy ===== *)
theory Wmap_List
  imports Wmap Vm_Tables
begin

text \<open>
  The list of mapped regions of a process. Each node is a \<^verbatim>\<open>struct lazy\<close> at the start of a page of
  its own; \<open>lz_list s ns\<close> says that the nodes \<open>ns\<close> are linked by \<^verbatim>\<open>next\<close> and \<^verbatim>\<open>prev\<close>. The lemmas give
  the effect of inserting and of appending a node on this list, on the fields of all nodes and on
  the rest of memory.
\<close>

section \<open>Doubly linked segments\<close>

primrec dls :: "('n \<Rightarrow> 'n) \<Rightarrow> ('n \<Rightarrow> 'n) \<Rightarrow> 'n \<Rightarrow> 'n list \<Rightarrow> 'n \<Rightarrow> bool" where
  "dls nx pv p [] q \<longleftrightarrow> True"
| "dls nx pv p (n # ns) q \<longleftrightarrow> pv n = p \<and> nx n = (if ns = [] then q else hd ns) \<and> dls nx pv n ns q"

lemma dls_append:
  "dls nx pv p (as @ bs) q \<longleftrightarrow>
     dls nx pv p as (if bs = [] then q else hd bs) \<and> dls nx pv (if as = [] then p else last as) bs q"
proof (induction as arbitrary: p)
  case (Cons a as)
  show ?case by (cases as) (use Cons in auto)
qed simp

lemma dls_cong:
  "(\<And>n. n \<in> set ns \<Longrightarrow> nx' n = nx n \<and> pv' n = pv n) \<Longrightarrow> dls nx' pv' p ns q = dls nx pv p ns q"
  by (induction ns arbitrary: p) auto

text \<open>A segment of which only the last pointer to the outside has changed.\<close>

lemma dls_relink:
  assumes "dls nx pv p as q" "as \<noteq> []" "distinct as"
    "\<And>n. n \<in> set as \<Longrightarrow> pv' n = pv n" "\<And>n. n \<in> set as \<Longrightarrow> n \<noteq> last as \<Longrightarrow> nx' n = nx n" "nx' (last as) = q'"
  shows "dls nx' pv' p as q'"
  using assms
proof (induction as arbitrary: p)
  case (Cons a as)
  show ?case
  proof (cases "as = []")
    case False
    then have "a \<noteq> last as" using Cons.prems(3) by auto
    then show ?thesis using Cons False by auto
  qed (use Cons in auto)
qed simp

lemma dls_insert:
  assumes l: "dls nx pv 0 (as @ t # bs) 0" and d: "distinct (as @ t # bs)" "x \<notin> set (as @ t # bs)"
    and x: "nx' x = t" "pv' x = (if as = [] then 0 else last as)" "pv' t = x" "nx' t = nx t" "as \<noteq> [] \<Longrightarrow> nx' (last as) = x"
    and same: "\<And>n. n \<in> set as \<Longrightarrow> pv' n = pv n" "\<And>n. n \<in> set as \<Longrightarrow> n \<noteq> last as \<Longrightarrow> nx' n = nx n"
      "\<And>n. n \<in> set bs \<Longrightarrow> nx' n = nx n \<and> pv' n = pv n"
  shows "dls nx' pv' 0 (as @ x # t # bs) 0"
proof -
  have a: "dls nx pv 0 as t" and b: "nx t = (if bs = [] then 0 else hd bs)" "dls nx pv t bs 0"
    using l by (auto simp: dls_append)
  have "dls nx' pv' 0 as x"
  proof (cases "as = []")
    case False
    then show ?thesis using dls_relink [OF a False _ same(1,2) x(5)] d(1) by simp
  qed simp
  moreover have "dls nx' pv' t bs 0" using b(2) dls_cong [of bs nx' nx pv' pv] same(3) by simp
  ultimately show ?thesis using x(1-4) b(1) by (simp add: dls_append)
qed

lemma dls_snoc:
  assumes l: "dls nx pv 0 ns 0" "ns \<noteq> []" and d: "distinct ns" "x \<notin> set ns"
    and x: "nx' x = 0" "pv' x = last ns" "nx' (last ns) = x"
    and same: "\<And>n. n \<in> set ns \<Longrightarrow> pv' n = pv n" "\<And>n. n \<in> set ns \<Longrightarrow> n \<noteq> last ns \<Longrightarrow> nx' n = nx n"
  shows "dls nx' pv' 0 (ns @ [x]) 0"
  using dls_relink [OF l d(1) same x(3)] l(2) x(1,2) by (simp add: dls_append)

section \<open>Fields of nodes\<close>

definition lz_offs :: "u32 set" where "lz_offs = {0, 4, 8, 12, 16, 20, 24, 28}"

lemma lz_offs [simp]:
  "lz_fd \<in> lz_offs" "lz_addr \<in> lz_offs" "lz_length \<in> lz_offs" "lz_shared \<in> lz_offs" "lz_used \<in> lz_offs"
  "lz_numPages \<in> lz_offs" "lz_next \<in> lz_offs" "lz_prev \<in> lz_offs"
  by (simp_all add: lz_offs_def layout_defs)

lemma lz_neq [simp]:
  "lz_fd \<noteq> lz_addr" "lz_fd \<noteq> lz_length" "lz_fd \<noteq> lz_shared" "lz_fd \<noteq> lz_used" "lz_fd \<noteq> lz_numPages" "lz_fd \<noteq> lz_next" "lz_fd \<noteq> lz_prev"
  "lz_addr \<noteq> lz_fd" "lz_addr \<noteq> lz_length" "lz_addr \<noteq> lz_shared" "lz_addr \<noteq> lz_used" "lz_addr \<noteq> lz_numPages" "lz_addr \<noteq> lz_next" "lz_addr \<noteq> lz_prev"
  "lz_length \<noteq> lz_fd" "lz_length \<noteq> lz_addr" "lz_length \<noteq> lz_shared" "lz_length \<noteq> lz_used" "lz_length \<noteq> lz_numPages" "lz_length \<noteq> lz_next" "lz_length \<noteq> lz_prev"
  "lz_shared \<noteq> lz_fd" "lz_shared \<noteq> lz_addr" "lz_shared \<noteq> lz_length" "lz_shared \<noteq> lz_used" "lz_shared \<noteq> lz_numPages" "lz_shared \<noteq> lz_next" "lz_shared \<noteq> lz_prev"
  "lz_used \<noteq> lz_fd" "lz_used \<noteq> lz_addr" "lz_used \<noteq> lz_length" "lz_used \<noteq> lz_shared" "lz_used \<noteq> lz_numPages" "lz_used \<noteq> lz_next" "lz_used \<noteq> lz_prev"
  "lz_numPages \<noteq> lz_fd" "lz_numPages \<noteq> lz_addr" "lz_numPages \<noteq> lz_length" "lz_numPages \<noteq> lz_shared" "lz_numPages \<noteq> lz_used" "lz_numPages \<noteq> lz_next" "lz_numPages \<noteq> lz_prev"
  "lz_next \<noteq> lz_fd" "lz_next \<noteq> lz_addr" "lz_next \<noteq> lz_length" "lz_next \<noteq> lz_shared" "lz_next \<noteq> lz_used" "lz_next \<noteq> lz_numPages" "lz_next \<noteq> lz_prev"
  "lz_prev \<noteq> lz_fd" "lz_prev \<noteq> lz_addr" "lz_prev \<noteq> lz_length" "lz_prev \<noteq> lz_shared" "lz_prev \<noteq> lz_used" "lz_prev \<noteq> lz_numPages" "lz_prev \<noteq> lz_next"
  by (simp_all add: layout_defs)

lemma lz_offs_page: "k \<in> lz_offs \<Longrightarrow> page_off k"
  by (auto simp: lz_offs_def page_off_def)

lemma lz_offs_apart: "k \<in> lz_offs \<Longrightarrow> l \<in> lz_offs \<Longrightarrow> k \<noteq> l \<Longrightarrow> 4 \<le> l - k \<and> 4 \<le> k - l"
  by (auto simp: lz_offs_def)

lemma node_rd_wr:
  assumes "pg_aligned a" "pg_aligned b" "k \<in> lz_offs" "l \<in> lz_offs"
  shows "rd32 (wr32 m (a + k) v) (b + l) = (if a = b \<and> k = l then v else rd32 m (b + l))"
proof (cases "a = b")
  case True
  show ?thesis
  proof (cases "k = l")
    case False
    then have "rd32 (wr32 m (a + k) v) (a + l) = rd32 m (a + l)"
      using lz_offs_apart [OF assms(3,4)] by (intro rd32_wr32_other) (auto simp: algebra_simps)
    then show ?thesis using True False by simp
  qed (use True in \<open>simp add: rd32_wr32_same\<close>)
next
  case False
  then show ?thesis using rd32_wr32_other_page [OF assms(1) lz_offs_page [OF assms(3)] assms(2) lz_offs_page [OF assms(4)]] by simp
qed

lemma memset_node_frame:
  assumes "pg_aligned x" "PGROUNDDOWN y \<noteq> x"
  shows "memset m x 0 sizeof_lazy y = m y"
proof -
  have "\<not> in_range x 4096 y" using assms by (simp add: in_range_page)
  then show ?thesis by (auto simp: memset_apply sizeof_lazy_def in_range_def)
qed

lemma in_range_node:
  assumes "l \<in> lz_offs" "j \<in> {0, 1, 2, 3}"
  shows "in_range x 32 (x + l + j)"
  using assms by (auto simp: lz_offs_def in_range_def)

lemma node_rd_memset:
  assumes "pg_aligned x" "pg_aligned b" "l \<in> lz_offs"
  shows "rd32 (memset m x 0 sizeof_lazy) (b + l) = (if b = x then 0 else rd32 m (b + l))"
proof (cases "b = x")
  case True
  have "memset m x 0 sizeof_lazy (x + l + j) = 0" if "j \<in> {0, 1, 2, 3}" for j
    using in_range_node [OF assms(3) that] by (simp add: memset_apply sizeof_lazy_def)
  from this [of 0] this [of 1] this [of 2] this [of 3] show ?thesis using True by (simp add: rd32_def)
next
  case False
  have "memset m x 0 sizeof_lazy y = m y" if "PGROUNDDOWN y = b" for y
    using that False assms(1) by (intro memset_node_frame) auto
  then have "rd32 (memset m x 0 sizeof_lazy) (b + l) = rd32 m (b + l)"
    by (rule rd32_page_cong [OF assms(2) lz_offs_page [OF assms(3)]])
  then show ?thesis using False by simp
qed

section \<open>The list of a process\<close>

definition field :: "u32 \<Rightarrow> 'a kst_scheme \<Rightarrow> u32 \<Rightarrow> u32" where "field k s n = kload (n + k) s"

definition lz_list :: "'a kst_scheme \<Rightarrow> u32 list \<Rightarrow> bool" where
  "lz_list s ns \<longleftrightarrow> ns \<noteq> [] \<and> distinct ns \<and> (\<forall>n \<in> set ns. page_ok (km s) n) \<and>
     dls (field lz_next s) (field lz_prev s) 0 ns 0"

text \<open>The contents of a node besides its links: address, length, descriptor, sharing, use, pages.\<close>

definition info :: "'a kst_scheme \<Rightarrow> u32 \<Rightarrow> u32 list" where
  "info s n = map (\<lambda>k. field k s n) [lz_addr, lz_length, lz_fd, lz_shared, lz_used, lz_numPages]"

lemma km_simps [simp]:
  "km (upd_pmem f s) = (km s)\<lparr>pmem := f (pmem (km s))\<rparr>" "km (upd_proc p g s) = km s"
  "ptable (upd_pmem f s) = ptable s" "ptable (upd_proc p g s) = (ptable s)(p := g (ptable s p))"
  "cur (upd_pmem f s) = cur s" "cur (upd_proc p g s) = cur s"
  by (simp_all add: upd_pmem_def upd_km_def upd_proc_def)

lemma kstore_simps [simp]:
  "pmem (km (kstore a v s)) = wr32 (pmem (km s)) a v" "freelist (km (kstore a v s)) = freelist (km s)"
  "kern_end (km (kstore a v s)) = kern_end (km s)" "kern_data (km (kstore a v s)) = kern_data (km s)"
  "ptable (kstore a v s) = ptable s" "cur (kstore a v s) = cur s"
  by (simp_all add: kstore_def)

lemma field_kstore:
  assumes "pg_aligned a" "pg_aligned n" "k \<in> lz_offs" "l \<in> lz_offs"
  shows "field l (kstore (a + k) v s) n = (if a = n \<and> k = l then v else field l s n)"
  using node_rd_wr [OF assms] by (simp add: field_def kload_def)

lemma field_upd_proc [simp]: "field l (upd_proc p g s) n = field l s n"
  by (simp add: field_def kload_def)

text \<open>Only kernel memory and the process table differ.\<close>

definition same_but :: "'a kst_scheme \<Rightarrow> 'a kst_scheme \<Rightarrow> bool" where
  "same_but s s' \<longleftrightarrow> (\<exists>k pt. s' = s\<lparr>km := k, ptable := pt\<rparr>)"

lemma same_but_refl [simp]: "same_but s s"
  unfolding same_but_def by (intro exI [of _ "km s"] exI [of _ "ptable s"]) simp

lemma same_but_km:
  assumes "same_but s s'"
  shows "same_but s (s'\<lparr>km := k\<rparr>)"
proof -
  obtain k' pt where "s' = s\<lparr>km := k', ptable := pt\<rparr>" using assms by (auto simp: same_but_def)
  then have "s'\<lparr>km := k\<rparr> = s\<lparr>km := k, ptable := pt\<rparr>" by simp
  then show ?thesis unfolding same_but_def by blast
qed

lemma same_but_step:
  assumes "same_but s s'"
  shows "same_but s (kstore a v s')" "same_but s (upd_proc p g s')" "same_but s (upd_pmem f s')"
proof -
  show "same_but s (kstore a v s')" "same_but s (upd_pmem f s')"
    unfolding kstore_def upd_pmem_def upd_km_def by (rule same_but_km [OF assms])+
  obtain k pt where "s' = s\<lparr>km := k, ptable := pt\<rparr>" using assms by (auto simp: same_but_def)
  then have "upd_proc p g s' = s\<lparr>km := k, ptable := pt(p := g (pt p))\<rparr>" by (simp add: upd_proc_def)
  then show "same_but s (upd_proc p g s')" by (auto simp: same_but_def)
qed

lemma same_but_trans:
  assumes "same_but s t" "same_but t u"
  shows "same_but s u"
proof -
  obtain k pt where "t = s\<lparr>km := k, ptable := pt\<rparr>" using assms(1) by (auto simp: same_but_def)
  moreover obtain k' pt' where "u = t\<lparr>km := k', ptable := pt'\<rparr>" using assms(2) by (auto simp: same_but_def)
  ultimately have "u = s\<lparr>km := k', ptable := pt'\<rparr>" by simp
  then show ?thesis unfolding same_but_def by blast
qed

lemma kstore_agree:
  assumes "pg_aligned a" "k \<in> lz_offs" "a \<in> P" "agree_off P (km s) (km s')"
  shows "agree_off P (km s) (km (kstore (a + k) v s'))"
proof -
  have "km (kstore (a + k) v s') = (km s')\<lparr>pmem := wr32 (pmem (km s')) (a + k) v\<rparr>" by (simp add: kstore_def)
  then have "agree_off P (km s') (km (kstore (a + k) v s'))"
    using agree_off_wr32 [OF assms(1) lz_offs_page [OF assms(2)] assms(3)] by simp
  then show ?thesis using agree_off_trans [OF assms(4)] by blast
qed

lemma lazy_alloc_spec:
  fixes s :: "'a kst_scheme"
  assumes f: "free_pages (km s) (x # xs)"
  obtains s' where "lazy_alloc s = Inr (x, s')" "free_pages (km s') xs" "same_but s s'" "ptable s' = ptable s" "cur s' = cur s"
    "agree_off {x} (km s) (km s')" "\<And>l n. l \<in> lz_offs \<Longrightarrow> pg_aligned n \<Longrightarrow> field l s' n = (if n = x then 0 else field l s n)"
proof -
  let ?k = "(km s)\<lparr>freelist := rd32 (pmem (km s)) x\<rparr>"
  let ?s = "upd_pmem (\<lambda>m. memset m x 0 sizeof_lazy) (s\<lparr>km := ?k\<rparr>)"
  note p = kalloc_pop [OF f]
  have x: "x \<noteq> 0" "pg_aligned x" "x \<notin> set xs" using f page_ok_nonzero by (auto simp: free_pages_def page_ok_def)
  have a: "agree_off {x} (km s) (km ?s)"
    using x(2) by (auto simp: agree_off_def memset_node_frame)
  have "agree_off {x} ?k (km ?s)" using x(2) by (auto simp: agree_off_def memset_node_frame)
  then have "free_pages (km ?s) xs" using agree_off_free_pages [OF _ _ p(2)] x(3) by simp
  moreover have "lazy_alloc s = Inr (x, ?s)" using p(1) x(1) by (simp add: lazy_alloc_def kalloc_s_def)
  moreover have "same_but s ?s" by (intro same_but_step same_but_km same_but_refl)
  moreover have "field l ?s n = (if n = x then 0 else field l s n)" if "l \<in> lz_offs" "pg_aligned n" for l n
    using node_rd_memset [OF x(2) that(2,1)] by (simp add: field_def kload_def)
  ultimately show thesis using that a by (simp add: upd_pmem_def upd_km_def)
qed

lemma lazy_fill_spec:
  fixes addr len flags fd :: u32
  assumes "pg_aligned x" "x \<in> P" "agree_off P (km s) (km s')" "same_but s s'"
  defines "t \<equiv> lazy_fill x addr len flags fd s'"
  shows "agree_off P (km s) (km t)" "same_but s t" "ptable t = ptable s'" "cur t = cur s'" "freelist (km t) = freelist (km s')"
    "\<And>l n. l \<in> lz_offs \<Longrightarrow> pg_aligned n \<Longrightarrow> n \<noteq> x \<or> l \<in> {lz_next, lz_prev, lz_numPages} \<Longrightarrow> field l t n = field l s' n"
    "field lz_addr t x = addr" "field lz_length t x = len" "field lz_fd t x = (if flags AND MAP_ANONYMOUS \<noteq> 0 then -1 else fd)"
    "field lz_shared t x = (if flags AND MAP_SHARED \<noteq> 0 then 1 else 0)" "field lz_used t x = 1"
proof -
  show "agree_off P (km s) (km t)" unfolding t_def lazy_fill_def Let_def using assms(1-3) by (intro kstore_agree) simp_all
  show "same_but s t" unfolding t_def lazy_fill_def Let_def using assms(4) by (intro same_but_step)
  show "ptable t = ptable s'" "cur t = cur s'" "freelist (km t) = freelist (km s')"
    by (simp_all add: t_def lazy_fill_def Let_def)
  show "\<And>l n. l \<in> lz_offs \<Longrightarrow> pg_aligned n \<Longrightarrow> n \<noteq> x \<or> l \<in> {lz_next, lz_prev, lz_numPages} \<Longrightarrow> field l t n = field l s' n"
    unfolding t_def lazy_fill_def Let_def using assms(1) by (auto simp: field_kstore)
  show "field lz_addr t x = addr" "field lz_length t x = len" "field lz_fd t x = (if flags AND MAP_ANONYMOUS \<noteq> 0 then -1 else fd)"
    "field lz_shared t x = (if flags AND MAP_SHARED \<noteq> 0 then 1 else 0)" "field lz_used t x = 1"
    unfolding t_def lazy_fill_def Let_def using assms(1) by (simp_all add: field_kstore)
qed

section \<open>Inserting and appending\<close>

definition lz_inv :: "'a kst_scheme \<Rightarrow> nat \<Rightarrow> u32 list \<Rightarrow> u32 list \<Rightarrow> bool" where
  "lz_inv s p ns xs \<longleftrightarrow> lz_list s ns \<and> cur s = Some p \<and> p_head (ptable s p) = hd ns \<and> p_tail (ptable s p) = last ns \<and>
     free_pages (km s) xs \<and> set ns \<inter> set xs = {}"

text \<open>The contents of a new node.\<close>

definition new_info :: "u32 \<Rightarrow> u32 \<Rightarrow> u32 \<Rightarrow> u32 \<Rightarrow> u32 list" where
  "new_info addr len flags fd =
     [addr, len, if flags AND MAP_ANONYMOUS \<noteq> 0 then -1 else fd, if flags AND MAP_SHARED \<noteq> 0 then 1 else 0, 1, 0]"

lemma lz_listD:
  assumes "lz_list s ns"
  shows "ns \<noteq> []" "distinct ns" "\<And>n. n \<in> set ns \<Longrightarrow> page_ok (km s) n" "\<And>n. n \<in> set ns \<Longrightarrow> pg_aligned n"
    "\<And>n. n \<in> set ns \<Longrightarrow> n \<noteq> 0" "dls (field lz_next s) (field lz_prev s) 0 ns 0"
  using assms page_ok_nonzero unfolding lz_list_def page_ok_def by blast+

text \<open>A node allocated and filled, not linked yet.\<close>

lemma lazy_new_spec:
  fixes s :: "'a kst_scheme" and addr len flags fd :: u32
  assumes f: "free_pages (km s) (x # xs)"
  obtains s1 s2 where "lazy_alloc s = Inr (x, s1)" "lazy_fill x addr len flags fd s1 = s2" "free_pages (km s2) xs"
    "same_but s s2" "ptable s2 = ptable s" "cur s2 = cur s" "agree_off {x} (km s) (km s2)"
    "\<And>l n. l \<in> lz_offs \<Longrightarrow> pg_aligned n \<Longrightarrow> n \<noteq> x \<Longrightarrow> field l s2 n = field l s n"
    "field lz_next s2 x = 0" "field lz_prev s2 x = 0" "info s2 x = new_info addr len flags fd"
proof -
  have x: "pg_aligned x" "x \<notin> set xs" using f by (auto simp: free_pages_def page_ok_def)
  obtain s1 where s1: "lazy_alloc s = Inr (x, s1)" "free_pages (km s1) xs" "same_but s s1" "ptable s1 = ptable s" "cur s1 = cur s"
    "agree_off {x} (km s) (km s1)" "\<And>l n. l \<in> lz_offs \<Longrightarrow> pg_aligned n \<Longrightarrow> field l s1 n = (if n = x then 0 else field l s n)"
    using lazy_alloc_spec [OF f] by blast
  note s2 = lazy_fill_spec [OF x(1) singletonI s1(6,3), where addr = addr and len = len and flags = flags and fd = fd]
  let ?s2 = "lazy_fill x addr len flags fd s1"
  have "agree_off {x} (km s1) (km ?s2)" using s2(1) s1(6) by (simp add: agree_off_def)
  then have "free_pages (km ?s2) xs" using agree_off_free_pages [OF _ s2(5) s1(2)] x(2) by simp
  moreover have "field l ?s2 n = field l s n" if "l \<in> lz_offs" "pg_aligned n" "n \<noteq> x" for l n
    using s2(6) [OF that(1,2)] s1(7) [OF that(1,2)] that(3) by simp
  moreover have "field l ?s2 x = 0" if "l \<in> {lz_next, lz_prev, lz_numPages}" for l
    using s2(6) [of l x] s1(7) [of l x] that x(1) by auto
  moreover have "info ?s2 x = new_info addr len flags fd"
    using s2(7-11) calculation(3) [of lz_numPages] by (simp add: info_def new_info_def)
  ultimately show thesis using that s1(1) s2(1,2) s2(3,4) s1(4,5) by simp
qed

lemma lz_list_agree:
  assumes "agree_off P (km s) (km s')" "dls (field lz_next s') (field lz_prev s') 0 ns 0" "distinct ns" "ns \<noteq> []"
    "\<And>n. n \<in> set ns \<Longrightarrow> page_ok (km s) n"
  shows "lz_list s' ns"
  using assms agree_off_page_ok [OF assms(1)] by (simp add: lz_list_def)

text \<open>The fields after the links of a new node before \<open>t\<close> have been set.\<close>

definition link_before :: "u32 \<Rightarrow> u32 \<Rightarrow> u32 \<Rightarrow> 'a kst_scheme \<Rightarrow> 'a kst_scheme" where
  "link_before x t prev s =
     (let s = kstore (x + lz_next) t s in
      if prev \<noteq> 0 then kstore (t + lz_prev) x (kstore (prev + lz_next) x (kstore (x + lz_prev) prev s))
      else kstore (t + lz_prev) x s)"

lemma link_before_spec:
  assumes "pg_aligned x" "pg_aligned t" "pg_aligned prev" "x \<noteq> t" "x \<noteq> prev"
  shows "\<And>l n. l \<in> lz_offs \<Longrightarrow> pg_aligned n \<Longrightarrow> field l (link_before x t prev s) n =
      (if n = x \<and> l = lz_next then t else if n = t \<and> l = lz_prev then x
       else if prev \<noteq> 0 \<and> n = prev \<and> l = lz_next then x else if prev \<noteq> 0 \<and> n = x \<and> l = lz_prev then prev
       else field l s n)"
    "agree_off ({x, t} \<union> (if prev = 0 then {} else {prev})) (km s) (km (link_before x t prev s))"
    "same_but s (link_before x t prev s)" "ptable (link_before x t prev s) = ptable s" "cur (link_before x t prev s) = cur s"
    "freelist (km (link_before x t prev s)) = freelist (km s)"
  using assms
  by (auto simp: link_before_def Let_def field_kstore intro!: kstore_agree same_but_step)

lemma lazy_insert_link:
  assumes "lazy_alloc s = Inr (x, s1)" "lazy_fill x addr len flags fd s1 = s2"
    "field lz_prev s2 t = prev" "pg_aligned x" "pg_aligned t" "x \<noteq> t" "cur s2 = Some p"
  shows "lazy_insert t first addr len flags fd s =
    Inr (if first then upd_proc p (\<lambda>y. y\<lparr>p_head := x\<rparr>) (link_before x t prev s2) else link_before x t prev s2)"
proof -
  have "kload (t + lz_prev) (kstore (x + lz_next) t s2) = prev"
    unfolding field_def [symmetric] using assms(3-6) by (simp add: field_kstore)
  then show ?thesis
    using assms(1,2,7) by (simp add: lazy_insert_def Let_def link_before_def set_head_def myproc_def)
qed

lemma lz_invD:
  assumes "lz_inv s p ns xs"
  shows "lz_list s ns" "cur s = Some p" "p_head (ptable s p) = hd ns" "p_tail (ptable s p) = last ns"
    "free_pages (km s) xs" "set ns \<inter> set xs = {}"
  using assms unfolding lz_inv_def by blast+

lemma lazy_insert_spec:
  fixes s :: "'a kst_scheme" and addr len flags fd :: u32
  assumes inv: "lz_inv s p (as @ t # bs) (x # xs)"
  obtains s' where "lazy_insert t (as = []) addr len flags fd s = Inr s'" "lz_inv s' p (as @ x # t # bs) xs"
    "\<And>n. n \<in> set (as @ t # bs) \<Longrightarrow> info s' n = info s n" "info s' x = new_info addr len flags fd" "same_but s s'"
    "agree_off (set (as @ x # t # bs)) (km s) (km s')" "\<exists>h. ptable s' = (ptable s)(p := (ptable s p)\<lparr>p_head := h\<rparr>)"
proof -
  let ?ns = "as @ t # bs" and ?P = "set (as @ x # t # bs)" and ?prev = "if as = [] then 0 else last as"
  note i = lz_invD [OF inv] and n = lz_listD [OF lz_invD(1) [OF inv]]
  have x: "pg_aligned x" "page_ok (km s) x" "x \<notin> set ?ns" "x \<notin> set xs"
    using i(5,6) by (auto simp: free_pages_def page_ok_def)
  have al: "pg_aligned t" "as \<noteq> [] \<Longrightarrow> last as \<noteq> 0" using n(4,5) by auto
  have alp: "pg_aligned ?prev" using n(4) by (auto simp: pg_aligned_def)
  have nx: "x \<noteq> t" "x \<noteq> ?prev" using x(2,3) page_ok_nonzero by auto
  obtain s1 s2 where s2: "lazy_alloc s = Inr (x, s1)" "lazy_fill x addr len flags fd s1 = s2" "free_pages (km s2) xs"
    "same_but s s2" "ptable s2 = ptable s" "cur s2 = cur s" "agree_off {x} (km s) (km s2)"
    "\<And>l n. l \<in> lz_offs \<Longrightarrow> pg_aligned n \<Longrightarrow> n \<noteq> x \<Longrightarrow> field l s2 n = field l s n"
    "field lz_next s2 x = 0" "field lz_prev s2 x = 0" "info s2 x = new_info addr len flags fd"
    using lazy_new_spec [OF i(5)] by metis
  have old: "field l s2 m = field l s m" if "l \<in> lz_offs" "m \<in> set ?ns" for l m
    using s2(8) [OF that(1) n(4) [OF that(2)]] that(2) x(3) by auto
  have "field lz_prev s t = ?prev" using n(6) by (simp add: dls_append)
  then have pv: "field lz_prev s2 t = ?prev" using old [of lz_prev t] by simp
  let ?s3 = "link_before x t ?prev s2" and ?s' = "if as = [] then upd_proc p (\<lambda>y. y\<lparr>p_head := x\<rparr>) (link_before x t ?prev s2) else link_before x t ?prev s2"
  note l = link_before_spec(1) [OF x(1) al(1) alp nx, where s = s2] and l' = link_before_spec(2-) [OF x(1) al(1) alp nx, where s = s2]
  have run: "lazy_insert t (as = []) addr len flags fd s = Inr ?s'"
    by (rule lazy_insert_link [OF s2(1,2) pv x(1) al(1) nx(1)]) (use s2(6) i(2) in simp)
  have km: "km ?s' = km ?s3" "field k ?s' m = field k ?s3 m" for k m by simp_all
  have a3: "agree_off ?P (km s2) (km ?s3)" by (rule agree_off_mono [OF l'(1)]) auto
  have a: "agree_off ?P (km s) (km ?s')" unfolding km by (rule agree_off_trans [OF s2(7) a3]) auto
  have fld: "field k ?s' m = (if m = x \<and> k = lz_next then t else if m = t \<and> k = lz_prev then x
       else if ?prev \<noteq> 0 \<and> m = ?prev \<and> k = lz_next then x else if ?prev \<noteq> 0 \<and> m = x \<and> k = lz_prev then ?prev
       else field k s2 m)" if "k \<in> lz_offs" "pg_aligned m" for k m unfolding km(2) by (rule l [OF that])
  have "last as \<in> set as" "last as \<notin> set bs" "last as \<noteq> t" if "as \<noteq> []"
    using n(2) last_in_set [OF that] by auto
  then have "dls (field lz_next ?s') (field lz_prev ?s') 0 (as @ x # t # bs) 0"
    by (intro dls_insert [OF n(6,2) x(3)]) (use fld old n(2,4) x(1,3) al s2(9,10) in auto)
  then have "lz_list ?s' (as @ x # t # bs)" by (rule lz_list_agree [OF a]) (use n(2,3) x(2,3) in auto)
  moreover have "free_pages (km ?s') xs" unfolding km
    by (rule agree_off_free_pages [OF a3 l'(5) s2(3)]) (use i(6) x(4) in auto)
  moreover have "p_head (ptable ?s' p) = hd (as @ x # t # bs)" "p_tail (ptable ?s' p) = last (as @ x # t # bs)" "cur ?s' = Some p"
    using i(2,3,4) l'(3,4) s2(5,6) by (cases as; simp)+
  ultimately have "lz_inv ?s' p (as @ x # t # bs) xs" using i(6) x(4) by (auto simp: lz_inv_def)
  moreover have "info ?s' m = info s m" if "m \<in> set ?ns" for m
    using fld old n(4) [OF that] that x(3) by (auto simp: info_def)
  moreover have "info ?s' x = new_info addr len flags fd" using fld s2(11) x(1,3) by (auto simp: info_def)
  moreover have "\<exists>h. ptable ?s' = (ptable s)(p := (ptable s p)\<lparr>p_head := h\<rparr>)"
    using l'(3) s2(5) by (intro exI [of _ "if as = [] then x else p_head (ptable s p)"]) (cases "as = []"; simp)
  moreover have "same_but s ?s'" using same_but_trans [OF s2(4) l'(2)] by (auto intro: same_but_step)
  ultimately show thesis using that run a by blast
qed

lemma lazy_append_spec:
  fixes s :: "'a kst_scheme" and addr len flags fd :: u32
  assumes inv: "lz_inv s p ns (x # xs)"
  obtains s' where "lazy_append (last ns) addr len flags fd s = Inr s'" "lz_inv s' p (ns @ [x]) xs"
    "\<And>n. n \<in> set ns \<Longrightarrow> info s' n = info s n" "info s' x = new_info addr len flags fd" "same_but s s'"
    "agree_off (set (ns @ [x])) (km s) (km s')" "\<exists>h. ptable s' = (ptable s)(p := (ptable s p)\<lparr>p_tail := h\<rparr>)"
proof -
  let ?t = "last ns" and ?P = "set (ns @ [x])"
  note i = lz_invD [OF inv] and n = lz_listD [OF lz_invD(1) [OF inv]]
  have x: "pg_aligned x" "page_ok (km s) x" "x \<notin> set ns" "x \<notin> set xs"
    using i(5,6) by (auto simp: free_pages_def page_ok_def)
  have t: "?t \<in> set ns" "pg_aligned ?t" "?t \<noteq> 0" "?t \<noteq> x" using n(1,4,5) x(3) by auto
  obtain s1 s2 where s2: "lazy_alloc s = Inr (x, s1)" "lazy_fill x addr len flags fd s1 = s2" "free_pages (km s2) xs"
    "same_but s s2" "ptable s2 = ptable s" "cur s2 = cur s" "agree_off {x} (km s) (km s2)"
    "\<And>l n. l \<in> lz_offs \<Longrightarrow> pg_aligned n \<Longrightarrow> n \<noteq> x \<Longrightarrow> field l s2 n = field l s n"
    "field lz_next s2 x = 0" "field lz_prev s2 x = 0" "info s2 x = new_info addr len flags fd"
    using lazy_new_spec [OF i(5)] by metis
  have old: "field l s2 m = field l s m" if "l \<in> lz_offs" "m \<in> set ns" for l m
    using s2(8) [OF that(1) n(4) [OF that(2)]] that(2) x(3) by auto
  let ?s3 = "kstore (x + lz_prev) ?t (kstore (?t + lz_next) x s2)" and ?u = "\<lambda>y. y\<lparr>p_tail := x\<rparr>"
  let ?s' = "upd_proc p ?u ?s3"
  have run: "lazy_append ?t addr len flags fd s = Inr ?s'"
    using s2(1,2,6) t(3) i(2) by (simp add: lazy_append_def Let_def set_tail_def myproc_def)
  have fld: "field k ?s' m = (if m = x \<and> k = lz_prev then ?t else if m = ?t \<and> k = lz_next then x else field k s2 m)"
    if "k \<in> lz_offs" "pg_aligned m" for k m using that x t by (auto simp: field_kstore)
  have a2: "agree_off ?P (km s2) (km ?s')" using t x(1) by (auto intro!: kstore_agree)
  have a: "agree_off ?P (km s) (km ?s')" by (rule agree_off_trans [OF s2(7) a2]) auto
  have "dls (field lz_next ?s') (field lz_prev ?s') 0 (ns @ [x]) 0"
    by (rule dls_snoc [OF n(6,1,2) x(3)]) (use fld old n(2,4) x(1,3) t s2(9,10) in auto)
  then have "lz_list ?s' (ns @ [x])" by (rule lz_list_agree [OF a]) (use n(2,3) x(2,3) in auto)
  moreover have "free_pages (km ?s') xs" by (rule agree_off_free_pages [OF a2 _ s2(3)]) (use i(6) x(4) in auto)
  moreover have "p_head (ptable ?s' p) = hd (ns @ [x])" "p_tail (ptable ?s' p) = last (ns @ [x])" "cur ?s' = Some p"
    using i(2,3) s2(5,6) n(1) by simp_all
  ultimately have "lz_inv ?s' p (ns @ [x]) xs" using i(6) x(4) by (auto simp: lz_inv_def)
  moreover have "info ?s' m = info s m" if "m \<in> set ns" for m
    using fld old n(4) [OF that] that x(3) by (auto simp: info_def)
  moreover have "info ?s' x = new_info addr len flags fd" using fld s2(11) x(1) t(4) by (auto simp: info_def)
  moreover have "\<exists>h. ptable ?s' = (ptable s)(p := (ptable s p)\<lparr>p_tail := h\<rparr>)" using s2(5) by auto
  moreover have "same_but s ?s'" using s2(4) by (intro same_but_step)
  ultimately show thesis using that run a by blast
qed

end
