(* ===== verification/Kernel_Example.thy ===== *)
theory Kernel_Example
  imports Kstate
begin

text \<open>
  A small concrete kernel state for evaluating the model: empty tables, one running process and a
  given kernel memory.
\<close>

definition ex_proc :: proc where
  "ex_proc = \<lparr>p_sz = 0x1000, p_pgdir = 0, p_kstack = 0, p_state = RUNNING, p_pid = 1, p_parent = None, p_tf = 0,
     p_context = 0, p_chan = None, p_killed = False, p_ofile = (\<lambda>_. None), p_cwd = None, p_name = (\<lambda>_. 0),
     n_upages = 0, p_va = (\<lambda>_. 0), p_pa = (\<lambda>_. 0), p_head = 0, p_tail = 0\<rparr>"

definition ex_kst :: "kmem \<Rightarrow> proc \<Rightarrow> kst" where
  "ex_kst k x = \<lparr>mypid = 1,
     bcache = (\<lambda>_. \<lparr>b_flags = 0, b_dev = 0, b_blockno = 0, b_lock = initsleeplock, b_refcnt = 0, b_prev = 0, b_next = 0,
       b_data = (\<lambda>_. 0)\<rparr>),
     memdisk = (\<lambda>_ _. 0), disksize = 0, dwrites = [],
     klog = \<lparr>lg_start = 2, lg_size = 30, lg_outstanding = 0, lg_committing = False, lg_dev = 1,
       lg_lh = \<lparr>lh_n = 0, lh_block = (\<lambda>_. 0)\<rparr>\<rparr>,
     fs_sb = superblock_of (\<lambda>_. 0),
     icache = (\<lambda>_. \<lparr>i_dev = 0, i_inum = 0, i_ref = 0, i_lock = initsleeplock, i_valid = False, i_type = 0, i_major = 0,
       i_minor = 0, i_nlink = 0, i_size = 0, i_addrs = (\<lambda>_. 0)\<rparr>),
     km = k,
     ftable = (\<lambda>_. \<lparr>f_type = FD_NONE, f_ref = 0, f_readable = False, f_writable = False, f_pipe = 0, f_ip = 0, f_off = 0\<rparr>),
     ptable = (\<lambda>i. if i = 1 then x else ex_proc\<lparr>p_state := UNUSED\<rparr>),
     cur = Some 1, nextpid = 2, initproc = 0, ticks = 0,
     cons_input = \<lparr>in_buf = (\<lambda>_. 0), in_r = 0, in_w = 0, in_e = 0\<rparr>, consout = [],
     screen = \<lparr>cga_pos = 0, crt = (\<lambda>_. 0)\<rparr>, cr3 = 0, kpgdir = 0, forkret_pc = 0, trapret_pc = 0\<rparr>"

lemma ex_kst_simps [simp]:
  "km (ex_kst k x) = k" "ptable (ex_kst k x) 1 = x" "ptable (ex_kst k x) (Suc 0) = x" "cur (ex_kst k x) = Some 1"
  by (simp_all add: ex_kst_def)

end
