(* ===== verification/Wmap_Props.thy ===== *)
theory Wmap_Props
  imports Wmap_List Kernel_Example
begin

text \<open>
  What \<^verbatim>\<open>wmap\<close> and \<^verbatim>\<open>wunmap\<close> do to the regions of a process. Regions are pairs of address and
  length in natural numbers, in the order of the list; \<open>wf_regs\<close> says that they are sorted,
  disjoint, not empty, and lie between \<^verbatim>\<open>MMAPBASE\<close> and \<^verbatim>\<open>KERNBASE\<close>.
\<close>

section \<open>Regions\<close>

type_synonym region = "nat \<times> nat"

definition MB :: nat where "MB = 0x60000000"
definition KB :: nat where "KB = 0x80000000"

fun wf_regs :: "nat \<Rightarrow> region list \<Rightarrow> bool" where
  "wf_regs lo [] \<longleftrightarrow> lo \<le> KB"
| "wf_regs lo ((a, l) # rs) \<longleftrightarrow> lo \<le> a \<and> 0 < l \<and> wf_regs (a + l) rs"

text \<open>The \<open>len\<close> bytes from \<open>a\<close> meet no region, and do not touch the next one.\<close>

definition clear :: "region list \<Rightarrow> nat \<Rightarrow> nat \<Rightarrow> bool" where
  "clear rs len a \<longleftrightarrow> (\<forall>(b, l) \<in> set rs. a + len < b \<or> b + l \<le> a)"

definition fits :: "region list \<Rightarrow> nat \<Rightarrow> nat \<Rightarrow> bool" where
  "fits rs len a \<longleftrightarrow> MB \<le> a \<and> a + len < KB \<and> clear rs len a"

lemma wf_regs_le: "wf_regs lo rs \<Longrightarrow> lo \<le> KB"
  by (induction lo rs rule: wf_regs.induct) auto

lemma wf_regs_mem: "wf_regs lo rs \<Longrightarrow> (b, l) \<in> set rs \<Longrightarrow> lo \<le> b \<and> 0 < l \<and> b + l \<le> KB"
  by (induction lo rs rule: wf_regs.induct) (auto dest: wf_regs_le)

lemma wf_regs_append: "wf_regs lo (rs @ ts) \<longleftrightarrow>
    wf_regs lo rs \<and> wf_regs (if rs = [] then lo else fst (last rs) + snd (last rs)) ts"
  by (induction lo rs rule: wf_regs.induct) (auto dest: wf_regs_le)

lemma wf_regs_lower: "wf_regs lo rs \<Longrightarrow> lo' \<le> lo \<Longrightarrow> wf_regs lo' rs"
  by (cases rs) auto

text \<open>The gap \<^verbatim>\<open>wmap\<close> takes: before the region at an index, or behind the last region.\<close>

fun gap :: "region list \<Rightarrow> nat \<Rightarrow> nat \<Rightarrow> nat \<times> nat + nat" where
  "gap [] st len = Inr st"
| "gap ((a, l) # rs) st len =
     (if st + len < a then Inl (0, st)
      else case gap rs (a + l) len of Inl (i, st') \<Rightarrow> Inl (Suc i, st') | Inr st' \<Rightarrow> Inr st')"

lemma gap_Inl:
  assumes "wf_regs st rs" "0 < len" "gap rs st len = Inl (i, a)"
  shows "i < length rs" "st \<le> a" "clear rs len a" "\<And>b. st \<le> b \<Longrightarrow> clear rs len b \<Longrightarrow> a \<le> b"
    "wf_regs st (take i rs @ (a, len) # drop i rs)" "a + len < KB"
proof -
  have "i < length rs \<and> st \<le> a \<and> clear rs len a \<and> (\<forall>b. st \<le> b \<longrightarrow> clear rs len b \<longrightarrow> a \<le> b) \<and>
    wf_regs st (take i rs @ (a, len) # drop i rs) \<and> a + len < KB"
    using assms
  proof (induction rs st len arbitrary: i rule: gap.induct)
    case (2 c l rs st len)
    show ?case
    proof (cases "st + len < c")
      case True
      then have e: "i = 0" "a = st" using 2(4) by auto
      have "c + l \<le> KB" using wf_regs_mem [OF 2(2)] by auto
      moreover have "clear ((c, l) # rs) len st"
        using True wf_regs_mem [of "c + l" rs] 2(2) unfolding clear_def by fastforce
      ultimately show ?thesis using e True 2(2,3) by auto
    next
      case False
      then obtain j where j: "gap rs (c + l) len = Inl (j, a)" "i = Suc j"
        using 2(4) by (auto split: sum.splits)
      have w: "wf_regs (c + l) rs" "st \<le> c" "0 < l" using 2(2) by auto
      note ih = 2(1) [OF False w(1) 2(3) j(1)]
      have "clear ((c, l) # rs) len a" using ih by (auto simp: clear_def)
      moreover have "a \<le> b" if "st \<le> b" "clear ((c, l) # rs) len b" for b
      proof -
        have "c + l \<le> b" using that(2) False that(1) by (auto simp: clear_def)
        then show ?thesis using ih that(2) by (auto simp: clear_def)
      qed
      ultimately show ?thesis using ih w j(2) by auto
    qed
  qed simp
  then show "i < length rs" "st \<le> a" "clear rs len a" "\<And>b. st \<le> b \<Longrightarrow> clear rs len b \<Longrightarrow> a \<le> b"
    "wf_regs st (take i rs @ (a, len) # drop i rs)" "a + len < KB" by auto
qed

lemma gap_Inr:
  assumes "wf_regs st rs" "gap rs st len = Inr a"
  shows "st \<le> a" "a \<le> KB" "clear rs len a" "\<And>b. st \<le> b \<Longrightarrow> clear rs len b \<Longrightarrow> a \<le> b"
    "0 < len \<Longrightarrow> a + len \<le> KB \<Longrightarrow> wf_regs st (rs @ [(a, len)])"
proof -
  have "st \<le> a \<and> a \<le> KB \<and> clear rs len a \<and> (\<forall>b. st \<le> b \<longrightarrow> clear rs len b \<longrightarrow> a \<le> b) \<and>
    (0 < len \<longrightarrow> a + len \<le> KB \<longrightarrow> wf_regs st (rs @ [(a, len)]))"
    using assms
  proof (induction rs st len rule: gap.induct)
    case (1 st len)
    then show ?case by (simp add: clear_def)
  next
    case (2 c l rs st len)
    have j: "\<not> st + len < c" "gap rs (c + l) len = Inr a" using 2(3) by (auto split: if_splits sum.splits)
    have w: "wf_regs (c + l) rs" "st \<le> c" "0 < l" using 2(2) by auto
    note ih = 2(1) [OF j(1) w(1) j(2)]
    have "clear ((c, l) # rs) len a" using ih by (auto simp: clear_def)
    moreover have "a \<le> b" if "st \<le> b" "clear ((c, l) # rs) len b" for b
    proof -
      have "c + l \<le> b" using that j(1) by (auto simp: clear_def)
      then show ?thesis using ih that(2) by (auto simp: clear_def)
    qed
    ultimately show ?case using ih w by auto
  qed
  then show "st \<le> a" "a \<le> KB" "clear rs len a" "\<And>b. st \<le> b \<Longrightarrow> clear rs len b \<Longrightarrow> a \<le> b"
    "0 < len \<Longrightarrow> a + len \<le> KB \<Longrightarrow> wf_regs st (rs @ [(a, len)])" by auto
qed

section \<open>The search for a gap\<close>

definition reg :: "'a kst_scheme \<Rightarrow> u32 \<Rightarrow> region" where
  "reg s n = (unat (field lz_addr s n), unat (field lz_length s n))"

abbreviation regs :: "'a kst_scheme \<Rightarrow> u32 list \<Rightarrow> region list" where "regs s \<equiv> map (reg s)"

definition first :: "u32 list \<Rightarrow> u32" where "first ns = (if ns = [] then 0 else hd ns)"

lemma first_simps [simp]: "first [] = 0" "first (n # ns) = n"
  by (simp_all add: first_def)

lemma next_field: "lz_list s (as @ n # bs) \<Longrightarrow> field lz_next s n = first bs"
  by (simp add: lz_list_def dls_append first_def)

lemma reg_info: "info s' n = info s n \<Longrightarrow> reg s' n = reg s n"
  by (simp add: info_def reg_def)

lemma reg_new: "info s x = new_info a len flags fd \<Longrightarrow> reg s x = (unat a, unat len)"
  by (simp add: info_def reg_def new_info_def)

lemma lz_list_length:
  assumes "lz_list s ns"
  shows "length ns \<le> lazy_fuel"
proof -
  let ?f = "\<lambda>n :: u32. unat n div 4096"
  have al: "unat n = ?f n * 4096" if "n \<in> set ns" for n
    using lz_listD(4) [OF assms that, unfolded pg_aligned_iff_mod] div_mult_mod_eq [of "unat n" 4096] by (simp only: add_0_right)
  have inj: "inj_on ?f (set ns)"
  proof (rule inj_onI)
    fix a b assume "a \<in> set ns" "b \<in> set ns" "?f a = ?f b"
    then have "unat a = unat b" using al by metis
    then show "a = b" by simp
  qed
  have "?f n < lazy_fuel" for n by (rule less_mult_imp_div_less) (simp add: lazy_fuel_def)
  then have "?f ` set ns \<subseteq> {..<lazy_fuel}" by auto
  then have "card (set ns) \<le> card {..<lazy_fuel}" using card_inj_on_le [OF inj] finite_lessThan by blast
  then show ?thesis using lz_listD(2) [OF assms] by (simp add: distinct_card)
qed

lemma unat_of_nat_KB: "a \<le> KB \<Longrightarrow> unat (of_nat a :: u32) = a"
  by (simp add: KB_def unat_of_nat)

lemma unat_KERNBASE: "unat KERNBASE = KB"
  by (simp add: KERNBASE_def KB_def)

lemma wmap_gap_spec:
  fixes s :: "'a kst_scheme"
  assumes "lz_list s (as @ bs)" "wf_regs st (regs s bs)" "MB \<le> st" "as = [] \<longleftrightarrow> st = MB" "length bs \<le> fuel"
  shows "wmap_gap fuel (first bs) (of_nat st) len flags fd s =
    (case gap (regs s bs) st (unat len) of
       Inl (i, a) \<Rightarrow> bindr (lazy_insert (bs ! i) (as @ take i bs = []) (of_nat a) len flags fd s) (\<lambda>s. Inr (Inl (of_nat a), s))
     | Inr a \<Rightarrow> Inr (Inr (of_nat a), s))"
  using assms
proof (induction bs arbitrary: as st fuel)
  case Nil
  then show ?case by (cases fuel) simp_all
next
  case (Cons n bs)
  obtain fuel' where fuel: "fuel = Suc fuel'" "length bs \<le> fuel'" using Cons.prems(5) by (cases fuel) auto
  let ?a = "unat (field lz_addr s n)" and ?l = "unat (field lz_length s n)"
  have w: "st \<le> ?a" "0 < ?l" "wf_regs (?a + ?l) (regs s bs)" using Cons.prems(2) by (auto simp: reg_def [of s n])
  have kb: "?a + ?l \<le> KB" using wf_regs_le [OF w(3)] .
  have n0: "n \<noteq> 0" using lz_listD(5) [OF Cons.prems(1)] by simp
  have st: "unat (of_nat st :: u32) = st" using w(1) kb by (intro unat_of_nat_KB) simp
  have "(of_nat st :: u32) \<le> field lz_addr s n" using w(1) st by (simp add: word_le_nat_alt)
  then have c: "len < field lz_addr s n - of_nat st \<longleftrightarrow> st + unat len < ?a"
    using w(1) st by (simp add: word_less_nat_alt unat_sub less_diff_conv add.commute)
  have M: "(of_nat st :: u32) = MMAPBASE \<longleftrightarrow> st = MB"
    using st by (auto simp: MMAPBASE_def MB_def word_unat_eq_iff)
  have nx: "kload (n + lz_next) s = first bs" using next_field [OF Cons.prems(1)] by (simp add: field_def)
  show ?case
  proof (cases "st + unat len < ?a")
    case True
    then show ?thesis using fuel c M n0 Cons.prems(4) by (simp add: Let_def field_def [symmetric] reg_def [of s n])
  next
    case False
    have "wmap_gap fuel' (first bs) (of_nat (?a + ?l)) len flags fd s =
      (case gap (regs s bs) (?a + ?l) (unat len) of
         Inl (i, a) \<Rightarrow> bindr (lazy_insert (bs ! i) ((as @ [n]) @ take i bs = []) (of_nat a) len flags fd s) (\<lambda>s. Inr (Inl (of_nat a), s))
       | Inr a \<Rightarrow> Inr (Inr (of_nat a), s))"
      by (rule Cons.IH) (use Cons.prems(1,3) w fuel(2) in auto)
    then show ?thesis
      using fuel c n0 False nx by (auto simp: Let_def field_def [symmetric] reg_def [of s n] split: sum.splits)
  qed
qed

lemma regs_insert:
  assumes "\<And>n. n \<in> set (as @ bs) \<Longrightarrow> info s' n = info s n" "info s' x = new_info a len flags fd"
  shows "regs s' (as @ x # bs) = regs s as @ (unat a, unat len) # regs s bs"
  using assms reg_info reg_new by (auto simp del: map_map)

text \<open>What a successful \<^verbatim>\<open>wmap\<close> has done: a node \<open>x\<close> for \<open>len\<close> bytes at \<open>a\<close>.\<close>

definition mapped_at :: "'a kst_scheme \<Rightarrow> nat \<Rightarrow> u32 list \<Rightarrow> u32 \<Rightarrow> u32 list \<Rightarrow> u32 list \<Rightarrow> 'a kst_scheme \<Rightarrow> u32 list \<Rightarrow> bool" where
  "mapped_at s p ns x xs c s' ns' \<longleftrightarrow> lz_inv s' p ns' xs \<and> wf_regs MB (regs s' ns') \<and> set ns' = insert x (set ns) \<and>
     info s' x = c \<and> (\<forall>n \<in> set ns. info s' n = info s n) \<and> same_but s s' \<and> agree_off (set ns') (km s) (km s')"

lemma wmap_tail_spec:
  assumes "lz_inv s p ns (x # xs)" "wf_regs MB (regs s ns)" "0 < unat len" "a + unat len < KB" "wf_regs MB (regs s ns @ [(a, unat len)])"
  obtains s' where "lazy_append (last ns) (of_nat a) len flags fd s = Inr s'" "mapped_at s p ns x xs (new_info (of_nat a) len flags fd) s' (ns @ [x])"
proof -
  obtain s' where s': "lazy_append (last ns) (of_nat a) len flags fd s = Inr s'" "lz_inv s' p (ns @ [x]) xs"
    "\<And>n. n \<in> set ns \<Longrightarrow> info s' n = info s n" "info s' x = new_info (of_nat a) len flags fd" "same_but s s'"
    "agree_off (set (ns @ [x])) (km s) (km s')"
    using lazy_append_spec [OF assms(1)] by metis
  have ua: "unat (of_nat a :: u32) = a" using assms(4) by (intro unat_of_nat_KB) simp
  have e: "regs s' (ns @ x # []) = regs s ns @ (a, unat len) # regs s []"
    using regs_insert [of ns "[]" s' s x "of_nat a" len flags fd] s'(3,4) ua by (simp del: map_append)
  have "wf_regs MB (regs s' (ns @ [x]))" unfolding e using assms(5) by simp
  then have "mapped_at s p ns x xs (new_info (of_nat a) len flags fd) s' (ns @ [x])"
    using s'(2-6) unfolding mapped_at_def by auto
  then show thesis using that s'(1) by blast
qed

lemma lazy_insert_at:
  assumes "lz_inv s p ns (x # xs)" "j < length ns"
  obtains s' where "lazy_insert (ns ! j) (take j ns = []) addr len flags fd s = Inr s'"
    "lz_inv s' p (take j ns @ x # drop j ns) xs" "set (take j ns @ x # drop j ns) = insert x (set ns)"
    "regs s' (take j ns @ x # drop j ns) = take j (regs s ns) @ (unat addr, unat len) # drop j (regs s ns)"
    "\<And>n. n \<in> set ns \<Longrightarrow> info s' n = info s n" "info s' x = new_info addr len flags fd" "same_but s s'"
    "agree_off (set (take j ns @ x # drop j ns)) (km s) (km s')"
proof -
  let ?as = "take j ns" and ?bs = "drop (Suc j) ns"
  have split: "?as @ ns ! j # ?bs = ns" using assms(2) by (rule id_take_nth_drop [symmetric])
  have inv': "lz_inv s p (?as @ ns ! j # ?bs) (x # xs)" using assms(1) by (simp only: split)
  obtain s' where s': "lazy_insert (ns ! j) (?as = []) addr len flags fd s = Inr s'" "lz_inv s' p (?as @ x # ns ! j # ?bs) xs"
    "\<And>n. n \<in> set ns \<Longrightarrow> info s' n = info s n" "info s' x = new_info addr len flags fd" "same_but s s'"
    "agree_off (set (?as @ x # ns ! j # ?bs)) (km s) (km s')"
    using lazy_insert_spec [OF inv', where addr = addr and len = len and flags = flags and fd = fd] unfolding split by blast
  have dj: "ns ! j # ?bs = drop j ns" using Cons_nth_drop_Suc [OF assms(2)] .
  have sub: "n \<in> set ns" if "n \<in> set (?as @ drop j ns)" for n using that by simp
  have "regs s' (?as @ x # drop j ns) = regs s ?as @ (unat addr, unat len) # regs s (drop j ns)"
    by (rule regs_insert [OF s'(3) [OF sub] s'(4)])
  moreover have "set (?as @ x # drop j ns) = insert x (set ns)" by (metis Un_insert_right append_take_drop_id list.simps(15) set_append)
  ultimately show thesis using that s' unfolding dj by (simp add: take_map drop_map)
qed

lemma wmap_any_spec:
  fixes s :: "'a kst_scheme"
  assumes inv: "lz_inv s p ns (x # xs)" and w: "wf_regs MB (regs s ns)" and len: "0 < unat len" and nf: "flags AND MAP_FIXED = 0"
  shows "(\<exists>a s' ns'. wmap_any (last ns) len flags fd s = Inr (of_nat a, s') \<and> fits (regs s ns) (unat len) a \<and>
      (\<forall>b. fits (regs s ns) (unat len) b \<longrightarrow> a \<le> b) \<and> mapped_at s p ns x xs (new_info (of_nat a) len flags fd) s' ns') \<or>
    (wmap_any (last ns) len flags fd s = Inr (-1, s) \<and> (\<forall>b. \<not> fits (regs s ns) (unat len) b))"
proof -
  note i = lz_invD [OF inv]
  have ns: "ns \<noteq> []" "first ns = hd ns" using lz_listD(1) [OF i(1)] by (simp_all add: first_def)
  have MM: "of_nat MB = MMAPBASE" by (simp add: MB_def MMAPBASE_def)
  have g: "wmap_gap lazy_fuel (p_head (ptable s p)) MMAPBASE len flags fd s =
    (case gap (regs s ns) MB (unat len) of
       Inl (i, a) \<Rightarrow> bindr (lazy_insert (ns ! i) (take i ns = []) (of_nat a) len flags fd s) (\<lambda>s. Inr (Inl (of_nat a), s))
     | Inr a \<Rightarrow> Inr (Inr (of_nat a), s))"
    using wmap_gap_spec [of s "[]" ns MB lazy_fuel len flags fd, unfolded append_Nil] i(1,3) w ns(2) lz_list_length [OF i(1)] by (simp add: MM)
  show ?thesis
  proof (cases "gap (regs s ns) MB (unat len)")
    case (Inl r)
    obtain j a where r: "r = (j, a)" by (cases r)
    note l = gap_Inl [OF w len Inl [unfolded r]]
    have j: "j < length ns" using l(1) by simp
    have ua: "unat (of_nat a :: u32) = a" using l(6) by (intro unat_of_nat_KB) simp
    obtain s' where s': "lazy_insert (ns ! j) (take j ns = []) (of_nat a) len flags fd s = Inr s'"
      "mapped_at s p ns x xs (new_info (of_nat a) len flags fd) s' (take j ns @ x # drop j ns)"
      using lazy_insert_at [OF inv j, of "of_nat a" len flags fd] l(5) ua unfolding mapped_at_def by metis
    have "wmap_any (last ns) len flags fd s = Inr (of_nat a, s')"
      using g Inl r s'(1) nf i(2) by (simp add: wmap_any_def myproc_def)
    moreover have "fits (regs s ns) (unat len) a" "\<forall>b. fits (regs s ns) (unat len) b \<longrightarrow> a \<le> b"
      using l(2,3,4,6) by (auto simp: fits_def)
    ultimately show ?thesis using s'(2) by blast
  next
    case (Inr a)
    note l = gap_Inr [OF w Inr]
    have ua: "unat (of_nat a :: u32) = a" using l(2) by (rule unat_of_nat_KB)
    have c: "KERNBASE - of_nat a > len \<longleftrightarrow> a + unat len < KB"
    proof -
      have "(of_nat a :: u32) \<le> KERNBASE" using l(2) ua unat_KERNBASE by (simp add: word_le_nat_alt)
      then show ?thesis using ua unat_KERNBASE by (simp add: word_less_nat_alt unat_sub less_diff_conv add.commute)
    qed
    show ?thesis
    proof (cases "a + unat len < KB")
      case True
      obtain s' where s': "lazy_append (last ns) (of_nat a) len flags fd s = Inr s'"
        "mapped_at s p ns x xs (new_info (of_nat a) len flags fd) s' (ns @ [x])"
        using wmap_tail_spec [OF inv w len True l(5) [OF len less_imp_le [OF True]], where flags = flags and fd = fd] by blast
      have "wmap_any (last ns) len flags fd s = Inr (of_nat a, s')"
        using g Inr s'(1) nf i(2) True c by (simp add: wmap_any_def myproc_def)
      moreover have "fits (regs s ns) (unat len) a" "\<forall>b. fits (regs s ns) (unat len) b \<longrightarrow> a \<le> b"
        using l(1,3,4) True by (auto simp: fits_def)
      ultimately show ?thesis using s'(2) by blast
    next
      case False
      then have "wmap_any (last ns) len flags fd s = Inr (-1, s)"
        using g Inr nf i(2) c by (simp add: wmap_any_def myproc_def)
      moreover have "\<not> fits (regs s ns) (unat len) b" for b using l(4) [of b] False by (auto simp: fits_def)
      ultimately show ?thesis by blast
    qed
  qed
qed

section \<open>A requested address\<close>

text \<open>
  The decision of the first loop of \<^verbatim>\<open>wmap\<close>: insert before the region at an index, give up, or come
  to the end of the list with the end of the last region.
\<close>

fun place :: "region list \<Rightarrow> nat \<Rightarrow> nat \<Rightarrow> nat \<Rightarrow> bool \<Rightarrow> nat option + nat" where
  "place [] lst addr len fx = Inr lst"
| "place ((a, l) # rs) lst addr len fx =
     (if addr + len < a then Inl (Some 0)
      else if addr < a \<and> fx then Inl None
      else case place rs (a + l) addr len fx of Inl (Some i) \<Rightarrow> Inl (Some (Suc i)) | r \<Rightarrow> r)"

lemma wmap_at_spec:
  fixes s :: "'a kst_scheme"
  assumes "lz_list s (as @ bs)" "wf_regs lo (regs s bs)" "as = [] \<longleftrightarrow> lst = 0" "lst \<le> KB" "length bs \<le> fuel"
    "unat addr + unat len < KB"
  shows "wmap_at fuel (first bs) (of_nat lst) addr len flags fd s =
    (case place (regs s bs) lst (unat addr) (unat len) (flags AND MAP_FIXED \<noteq> 0) of
       Inl (Some i) \<Rightarrow> bindr (lazy_insert (bs ! i) (as @ take i bs = []) addr len flags fd s) (\<lambda>s. Inr (Inl addr, s))
     | Inl None \<Rightarrow> Inr (Inl (-1), s)
     | Inr lst \<Rightarrow> Inr (Inr (of_nat lst), s))"
  using assms
proof (induction bs arbitrary: as lo lst fuel)
  case Nil
  then show ?case by (cases fuel) simp_all
next
  case (Cons n bs)
  obtain fuel' where fuel: "fuel = Suc fuel'" "length bs \<le> fuel'" using Cons.prems(5) by (cases fuel) auto
  let ?a = "unat (field lz_addr s n)" and ?l = "unat (field lz_length s n)"
  have w: "0 < ?l" "wf_regs (?a + ?l) (regs s bs)" using Cons.prems(2) by (auto simp: reg_def [of s n])
  have kb: "?a + ?l \<le> KB" using wf_regs_le [OF w(2)] .
  have n0: "n \<noteq> 0" using lz_listD(5) [OF Cons.prems(1)] by simp
  have "unat (addr + len) = unat addr + unat len" using Cons.prems(6) by (simp add: unat_word_ariths KB_def)
  then have c: "addr + len < field lz_addr s n \<longleftrightarrow> unat addr + unat len < ?a" "addr < field lz_addr s n \<longleftrightarrow> unat addr < ?a"
    by (simp_all add: word_less_nat_alt)
  have M: "(of_nat lst :: u32) = 0 \<longleftrightarrow> lst = 0" using unat_of_nat_KB [OF Cons.prems(4)] unat_eq_0 [of "of_nat lst :: u32"] by (simp only:)
  have nx: "kload (n + lz_next) s = first bs" using next_field [OF Cons.prems(1)] by (simp add: field_def)
  show ?case
  proof (cases "unat addr + unat len < ?a")
    case True
    then show ?thesis using fuel c M n0 Cons.prems(3) by (simp add: Let_def field_def [symmetric] reg_def [of s n])
  next
    case False
    have ge: "\<not> addr + len < field lz_addr s n" using False c by simp
    have "wmap_at fuel' (first bs) (of_nat (?a + ?l)) addr len flags fd s =
      (case place (regs s bs) (?a + ?l) (unat addr) (unat len) (flags AND MAP_FIXED \<noteq> 0) of
         Inl (Some i) \<Rightarrow> bindr (lazy_insert (bs ! i) ((as @ [n]) @ take i bs = []) addr len flags fd s) (\<lambda>s. Inr (Inl addr, s))
       | Inl None \<Rightarrow> Inr (Inl (-1), s)
       | Inr lst \<Rightarrow> Inr (Inr (of_nat lst), s))"
      by (rule Cons.IH) (use Cons.prems(1,6) w kb fuel(2) in auto)
    moreover have "wmap_at fuel n (of_nat lst) addr len flags fd s = (if unat addr < ?a \<and> flags AND MAP_FIXED \<noteq> 0 then Inr (Inl (-1), s)
      else wmap_at fuel' (first bs) (of_nat (?a + ?l)) addr len flags fd s)"
      using fuel(1) n0 c(2) ge nx not_less [THEN iffD1, OF ge] by (simp add: Let_def field_def [symmetric])
    ultimately show ?thesis
      using False by (auto simp: reg_def [of s n] split: sum.splits option.splits)
  qed
qed

lemma place_clear:
  assumes "wf_regs lo rs" "lo \<le> a" "lst \<le> a" "0 < len" "a + len < KB" "clear rs len a"
  shows "(\<exists>i < length rs. place rs lst a len fx = Inl (Some i) \<and> wf_regs lo (take i rs @ (a, len) # drop i rs)) \<or>
    (\<exists>lst' \<le> a. place rs lst a len fx = Inr lst' \<and> wf_regs lo (rs @ [(a, len)]))"
  using assms
proof (induction rs lst a len fx arbitrary: lo rule: place.induct)
  case (1 lst addr len fx)
  then show ?case by simp
next
  case (2 b l rs lst addr len fx)
  show ?case
  proof (cases "addr + len < b")
    case True
    then show ?thesis using 2 by (intro disjI1 exI [of _ 0]) auto
  next
    case False
    then have e: "b + l \<le> addr" using 2 by (auto simp: clear_def)
    then have nf: "\<not> (addr < b \<and> fx)" by simp
    have "clear rs len addr" using 2 by (auto simp: clear_def)
    then have "(\<exists>i < length rs. place rs (b + l) addr len fx = Inl (Some i) \<and> wf_regs (b + l) (take i rs @ (addr, len) # drop i rs)) \<or>
      (\<exists>lst' \<le> addr. place rs (b + l) addr len fx = Inr lst' \<and> wf_regs (b + l) (rs @ [(addr, len)]))"
      using 2(1) [OF False nf _ e e 2(5,6)] 2(2) by auto
    then show ?thesis
    proof (elim disjE exE conjE)
      fix i assume "i < length rs" "place rs (b + l) addr len fx = Inl (Some i)" "wf_regs (b + l) (take i rs @ (addr, len) # drop i rs)"
      then show ?thesis using False nf 2(2) by (intro disjI1 exI [of _ "Suc i"]) auto
    next
      fix lst' assume "lst' \<le> addr" "place rs (b + l) addr len fx = Inr lst'" "wf_regs (b + l) (rs @ [(addr, len)])"
      then show ?thesis using False nf 2(2) by (intro disjI2 exI [of _ lst']) auto
    qed
  qed
qed

lemma sint_pos_unat: "0 < sint (x :: u32) \<Longrightarrow> 0 < unat x"
  by (metis gr0I less_irrefl sint_0 unat_eq_0)

lemma place_skip:
  "\<forall>(b, l) \<in> set rs. b \<le> a \<Longrightarrow> a + len < c \<Longrightarrow> place (rs @ (c, l) # ts) lst a len fx = Inl (Some (length rs))"
  by (induction rs arbitrary: lst) auto

lemma wf_regs_before: "wf_regs lo (rs @ (b, l) # ts) \<Longrightarrow> (c, k) \<in> set rs \<Longrightarrow> c + k \<le> b"
proof (induction rs arbitrary: lo)
  case (Cons r rs)
  then show ?case using wf_regs_mem [of "fst r + snd r" "rs @ (b, l) # ts" b l] by (cases r) auto
qed simp

text \<open>\<^verbatim>\<open>wmap\<close> at an address in range, by the decision of its first loop.\<close>

lemma wmap_place:
  fixes s :: "'a kst_scheme"
  assumes "lz_inv s p ns xs" "wf_regs MB (regs s ns)" "0 < sint len" "a = PGROUNDUP taddr" "MMAPBASE \<le> a" "unat a + unat len < KB"
  shows "wmap taddr len flags fd s =
    (case place (regs s ns) 0 (unat a) (unat len) (flags AND MAP_FIXED \<noteq> 0) of
       Inl (Some i) \<Rightarrow> bindr (lazy_insert (ns ! i) (take i ns = []) a len flags fd s) (\<lambda>s. Inr (a, s))
     | Inl None \<Rightarrow> Inr (-1, s)
     | Inr lst \<Rightarrow> if of_nat lst \<le> a then bindr (lazy_append (last ns) a len flags fd s) (\<lambda>s. Inr (a, s))
         else wmap_any (last ns) len flags fd s)"
proof -
  note i = lz_invD [OF assms(1)]
  have ns: "ns \<noteq> []" "first ns = hd ns" using lz_listD(1) [OF i(1)] by (simp_all add: first_def)
  have len: "0 < unat len" using assms(3) by (rule sint_pos_unat)
  have am: "MB \<le> unat a" using assms(5) by (simp add: MB_def MMAPBASE_def word_le_nat_alt)
  have ak: "\<not> KERNBASE \<le> a + len" "a < KERNBASE"
    using assms(6) unat_KERNBASE by (simp_all add: word_le_nat_alt word_less_nat_alt unat_word_ariths KB_def)
  have "(fst (reg s (hd ns)), snd (reg s (hd ns))) \<in> set (regs s ns)" using ns(1) by simp
  then have "0 < snd (reg s (hd ns))" using wf_regs_mem [OF assms(2)] by blast
  then have hd: "kload (hd ns + lz_length) s \<noteq> 0" by (auto simp: reg_def field_def)
  have h0: "hd ns \<noteq> 0" using lz_listD(5) [OF i(1)] ns(1) by simp
  let ?fx = "flags AND MAP_FIXED \<noteq> 0"
  have w: "wmap_at lazy_fuel (hd ns) 0 a len flags fd s =
    (case place (regs s ns) 0 (unat a) (unat len) ?fx of
       Inl (Some i) \<Rightarrow> bindr (lazy_insert (ns ! i) (take i ns = []) a len flags fd s) (\<lambda>s. Inr (Inl a, s))
     | Inl None \<Rightarrow> Inr (Inl (-1), s)
     | Inr lst \<Rightarrow> Inr (Inr (of_nat lst), s))"
    using wmap_at_spec [of s "[]" ns MB 0 lazy_fuel a len flags fd, unfolded append_Nil] i(1) assms(2,6) ns(2) lz_list_length [OF i(1)]
    by simp
  have run: "wmap taddr len flags fd s = bindr (wmap_at lazy_fuel (hd ns) 0 a len flags fd s) (\<lambda>(r, t).
      case r of Inl r \<Rightarrow> Inr (r, t)
      | Inr lst \<Rightarrow> if a < KERNBASE \<and> lst \<le> a then bindr (lazy_append (p_tail (ptable s p)) a len flags fd t) (\<lambda>s. Inr (a, s))
          else wmap_any (p_tail (ptable s p)) len flags fd t)"
    using assms(3,5) i(2,3,4) ak(1) hd h0 unfolding wmap_def myproc_def Let_def assms(4) [symmetric] by simp
  show ?thesis unfolding run w using ak(2) i(4) by (auto simp: bindr_assoc split: sum.splits option.splits)
qed

section \<open>An example\<close>

text \<open>Two regions and two free pages.\<close>

definition put_node :: "u32 \<Rightarrow> u32 \<Rightarrow> u32 \<Rightarrow> u32 \<Rightarrow> u32 \<Rightarrow> mem \<Rightarrow> mem" where
  "put_node n addr len nxt prv m =
     fold (\<lambda>(k, v) m. wr32 m (n + k) v)
       [(lz_addr, addr), (lz_length, len), (lz_fd, -1), (lz_used, 1), (lz_next, nxt), (lz_prev, prv)] m"

definition ex_nodes :: "u32 list" where "ex_nodes = [0x80400000, 0x80401000]"

definition ex_regions :: kst where
  "ex_regions = ex_kst
     \<lparr>pmem = put_node 0x80400000 0x60000000 0x4000 0x80401000 0 (put_node 0x80401000 0x60008000 0x1000 0 0x80400000
        (wr32 (\<lambda>_. 0) 0x80402000 0x80403000)),
      freelist = 0x80402000, use_lock = True, kern_end = 0x80200000, kern_data = 0x80108000\<rparr>
     (ex_proc\<lparr>p_head := 0x80400000, p_tail := 0x80401000\<rparr>)"

lemma rd32_zero: "rd32 (\<lambda>_. 0) a = 0"
  by (simp add: rd32_def)

lemma ex_inv: "lz_inv ex_regions 1 ex_nodes [0x80402000, 0x80403000]"
  unfolding lz_inv_def lz_list_def free_pages_def
  by (simp add: ex_regions_def ex_nodes_def put_node_def field_def kload_def layout_defs rd32_wr32_same rd32_wr32_other page_ok_def pg_aligned_def rd32_zero)

lemma ex_regs: "regs ex_regions ex_nodes = [(0x60000000, 0x4000), (0x60008000, 0x1000)]"
  by (simp add: ex_regions_def ex_nodes_def put_node_def reg_def field_def kload_def layout_defs rd32_wr32_same rd32_wr32_other)

lemma ex_wf: "wf_regs MB (regs ex_regions ex_nodes)"
  by (simp only: ex_regs) (simp add: MB_def KB_def)

section \<open>The properties\<close>

text \<open>
  C12: without \<^verbatim>\<open>MAP_FIXED\<close> and without a usable address, \<^verbatim>\<open>wmap\<close> on a sorted list of disjoint regions
  between \<^verbatim>\<open>MMAPBASE\<close> and \<^verbatim>\<open>KERNBASE\<close> returns the least address at which the new region fits with
  at least one byte to spare, and the list with the new region is again sorted and disjoint, its links
  and its tail intact and every other region unchanged. If there is no such address it returns -1 and
  changes nothing.
\<close>

theorem wmap_least_gap:
  fixes s :: "'a kst_scheme"
  assumes "lz_inv s p ns (x # xs)" "wf_regs MB (regs s ns)" "0 < sint len" "PGROUNDUP taddr < MMAPBASE" "flags AND MAP_FIXED = 0"
  shows "(\<exists>a s' ns'. wmap taddr len flags fd s = Inr (of_nat a, s') \<and> fits (regs s ns) (unat len) a \<and>
      (\<forall>b. fits (regs s ns) (unat len) b \<longrightarrow> a \<le> b) \<and> mapped_at s p ns x xs (new_info (of_nat a) len flags fd) s' ns') \<or>
    (wmap taddr len flags fd s = Inr (-1, s) \<and> (\<forall>b. \<not> fits (regs s ns) (unat len) b))"
proof -
  note i = lz_invD [OF assms(1)]
  have len: "0 < unat len" using assms(3) by (rule sint_pos_unat)
  have "wmap taddr len flags fd s = wmap_any (last ns) len flags fd s"
    using assms(3) not_le [THEN iffD2, OF assms(4)] i(2,4) by (simp add: wmap_def myproc_def Let_def)
  then show ?thesis using wmap_any_spec [OF assms(1,2) len assms(5)] by simp
qed

theorem wmap_least_gap_witness:
  "\<exists>a s' ns'. wmap 0 0x4000 MAP_ANONYMOUS 0 ex_regions = Inr (of_nat a, s') \<and> fits (regs ex_regions ex_nodes) 0x4000 a"
proof -
  have "fits (regs ex_regions ex_nodes) 0x4000 0x60009000" by (simp add: ex_regs fits_def clear_def MB_def KB_def)
  then show ?thesis
    using wmap_least_gap [OF ex_inv ex_wf, where len = "0x4000" and taddr = 0 and flags = MAP_ANONYMOUS and fd = 0]
    by (auto simp: PGROUNDUP_def PGSIZE_def MMAPBASE_def MAP_ANONYMOUS_def MAP_FIXED_def)
qed

text \<open>
  C30: a region requested at an address that is clear of every mapped region, ends below \<^verbatim>\<open>KERNBASE\<close>
  and leaves a byte before the next region is mapped there, with or without \<^verbatim>\<open>MAP_FIXED\<close>, and the list
  of regions stays sorted and disjoint.
\<close>

theorem wmap_requested:
  fixes s :: "'a kst_scheme"
  assumes "lz_inv s p ns (x # xs)" "wf_regs MB (regs s ns)" "0 < sint len" "a = PGROUNDUP taddr" "MMAPBASE \<le> a"
    "unat a + unat len < KB" "clear (regs s ns) (unat len) (unat a)"
  shows "\<exists>s' ns'. wmap taddr len flags fd s = Inr (a, s') \<and> mapped_at s p ns x xs (new_info a len flags fd) s' ns'"
proof -
  note run = wmap_place [OF assms(1-6), where flags = flags and fd = fd] and len = sint_pos_unat [OF assms(3)]
  have am: "MB \<le> unat a" using assms(5) by (simp add: MB_def MMAPBASE_def word_le_nat_alt)
  let ?fx = "flags AND MAP_FIXED \<noteq> 0"
  show ?thesis
    using place_clear [OF assms(2) am le0 len assms(6,7), of ?fx]
  proof (elim disjE exE conjE)
    fix j assume j: "j < length (regs s ns)" "place (regs s ns) 0 (unat a) (unat len) ?fx = Inl (Some j)"
      "wf_regs MB (take j (regs s ns) @ (unat a, unat len) # drop j (regs s ns))"
    from j(1) have "j < length ns" by simp
    from lazy_insert_at [OF assms(1) this, of a len flags fd] obtain s' where
      s': "lazy_insert (ns ! j) (take j ns = []) a len flags fd s = Inr s'" "mapped_at s p ns x xs (new_info a len flags fd) s' (take j ns @ x # drop j ns)"
      using j(3) unfolding mapped_at_def by metis
    have "wmap taddr len flags fd s = Inr (a, s')" unfolding run j(2) using s'(1) by simp
    then show ?thesis using s'(2) by blast
  next
    fix lst assume l: "lst \<le> unat a" "place (regs s ns) 0 (unat a) (unat len) ?fx = Inr lst" "wf_regs MB (regs s ns @ [(unat a, unat len)])"
    obtain s' where s': "lazy_append (last ns) a len flags fd s = Inr s'" "mapped_at s p ns x xs (new_info a len flags fd) s' (ns @ [x])"
      using wmap_tail_spec [OF assms(1,2) len assms(6) l(3), where flags = flags and fd = fd] by auto
    have "unat (of_nat lst :: u32) = lst" using l(1) assms(6) by (intro unat_of_nat_KB) simp
    then have "of_nat lst \<le> a" using l(1) by (simp add: word_le_nat_alt)
    then have "wmap taddr len flags fd s = Inr (a, s')" unfolding run l(2) using s'(1) by simp
    then show ?thesis using s'(2) by blast
  qed
qed

theorem wmap_requested_witness:
  "\<exists>s' ns'. wmap 0x60005001 0x1000 MAP_FIXED 0 ex_regions = Inr (0x60006000, s') \<and>
     mapped_at ex_regions 1 ex_nodes 0x80402000 [0x80403000] (new_info 0x60006000 0x1000 MAP_FIXED 0) s' ns'"
  by (rule wmap_requested [OF ex_inv ex_wf]) (simp_all add: PGROUNDUP_def PGSIZE_def MMAPBASE_def KB_def ex_regs clear_def)

text \<open>
  C35: \<^verbatim>\<open>wmap\<close> does not notice that a requested address lies inside a mapped region as long as the new
  region ends before the next one: it compares the new region only with regions that begin behind it.
  The call succeeds, even with \<^verbatim>\<open>MAP_FIXED\<close>, and the process has two regions that both contain the
  requested address.
\<close>

theorem wmap_overlap:
  fixes s :: "'a kst_scheme"
  assumes "lz_inv s p (as @ n # m # bs) (x # xs)" "wf_regs MB (regs s (as @ n # m # bs))" "0 < sint len" "a = PGROUNDUP taddr"
    "reg s n = (b, l)" "b \<le> unat a" "unat a < b + l" "unat a + unat len < fst (reg s m)"
  shows "\<exists>s'. wmap taddr len flags fd s = Inr (a, s') \<and> lz_inv s' p (as @ n # x # m # bs) xs \<and>
    reg s' n = (b, l) \<and> reg s' x = (unat a, unat len) \<and> \<not> wf_regs MB (regs s' (as @ n # x # m # bs))"
proof -
  let ?ns = "as @ n # m # bs" and ?j = "Suc (length as)"
  obtain c k where m: "reg s m = (c, k)" by (cases "reg s m")
  have b: "MB \<le> b" "c + k \<le> KB" using wf_regs_mem [OF assms(2)] assms(5) m by force+
  have "unat MMAPBASE = MB" by (simp add: MMAPBASE_def MB_def)
  then have a: "MMAPBASE \<le> a" using assms(6) b(1) by (simp add: word_le_nat_alt)
  have ak: "unat a + unat len < KB" using assms(8) b(2) m by simp
  note run = wmap_place [OF assms(1-4) a ak, where flags = flags and fd = fd]
  have below: "\<forall>(d, h) \<in> set (regs s (as @ [n])). d \<le> unat a"
    using wf_regs_before [of MB "regs s as" b l] assms(2,5,6) by fastforce
  have "place (regs s ?ns) 0 (unat a) (unat len) (flags AND MAP_FIXED \<noteq> 0) = Inl (Some ?j)"
    using place_skip [OF below, of "unat len" c k "regs s bs" 0] assms(8) m by simp
  moreover have j: "?j < length ?ns" by simp
  obtain s' where s': "lazy_insert (?ns ! ?j) (take ?j ?ns = []) a len flags fd s = Inr s'"
    "lz_inv s' p (take ?j ?ns @ x # drop ?j ?ns) xs"
    "set (take ?j ?ns @ x # drop ?j ?ns) = insert x (set ?ns)"
    "regs s' (take ?j ?ns @ x # drop ?j ?ns) = take ?j (regs s ?ns) @ (unat a, unat len) # drop ?j (regs s ?ns)"
    "\<And>n. n \<in> set ?ns \<Longrightarrow> info s' n = info s n" "info s' x = new_info a len flags fd" "same_but s s'"
    "agree_off (set (take ?j ?ns @ x # drop ?j ?ns)) (km s) (km s')"
    by (rule lazy_insert_at [OF assms(1) j, of a len flags fd]) (rule that; simp only:)
  ultimately have "wmap taddr len flags fd s = Inr (a, s')" using run by simp
  moreover have r: "reg s' n = (b, l)" "reg s' x = (unat a, unat len)" using reg_info [OF s'(5) [of n]] reg_new [OF s'(6)] assms(5) by simp_all
  moreover have "\<not> wf_regs MB (regs s' (as @ n # x # m # bs))" using r assms(7) by (auto simp: wf_regs_append)
  ultimately show ?thesis using s'(2) by auto
qed

theorem wmap_overlap_witness:
  "\<exists>s'. wmap 0x60001000 0x1000 MAP_FIXED 0 ex_regions = Inr (0x60001000, s') \<and> lz_inv s' 1 ([] @ 0x80400000 # 0x80402000 # 0x80401000 # []) [0x80403000] \<and>
     reg s' 0x80400000 = (0x60000000, 0x4000) \<and> reg s' 0x80402000 = (0x60001000, 0x1000) \<and>
     \<not> wf_regs MB (regs s' ([] @ 0x80400000 # 0x80402000 # 0x80401000 # []))"
proof -
  have i: "lz_inv ex_regions 1 ([] @ 0x80400000 # 0x80401000 # []) [0x80402000, 0x80403000]"
    "regs ex_regions ([] @ 0x80400000 # 0x80401000 # []) = [(0x60000000, 0x4000), (0x60008000, 0x1000)]"
    using ex_inv ex_regs by (simp_all add: ex_nodes_def)
  then show ?thesis
    using wmap_overlap [OF i(1), where len = "0x1000" and taddr = "0x60001000" and a = "0x60001000" and flags = MAP_FIXED and fd = 0
        and b = "0x60000000" and l = "0x4000"]
    by (simp add: MB_def KB_def PGROUNDUP_def PGSIZE_def)
qed

end
