(* ===== verification/Vm_User.thy ===== *)
theory Vm_User
  imports Vm_Tables
begin

text \<open>
  User memory: growing, shrinking, freeing and sharing address spaces. The pages of an
  address space and the free pages form one multiset, \<open>uvm_pages\<close>, which the operations
  conserve (\<open>evolves\<close>); from it follow that no page is lost or owned twice, what
  \<^verbatim>\<open>setupkvm\<close> maps and that \<^verbatim>\<open>forkuvm\<close> leaves parent and child with the same pages.
\<close>

section \<open>User pages\<close>

text \<open>
  The pages below \<^verbatim>\<open>KERNBASE\<close>, and those a page directory maps there, as a multiset: a
  physical page mapped twice counts twice.
\<close>

definition user_vas :: "u32 set" where
  "user_vas = {va. pg_aligned va \<and> va < KERNBASE}"

definition upages :: "kmem \<Rightarrow> u32 \<Rightarrow> u32 multiset" where
  "upages s pgdir = image_mset (\<lambda>va. P2V (PTE_ADDR (pte_at s pgdir va)))
     (filter_mset (\<lambda>va. pte_at s pgdir va AND PTE_P \<noteq> 0) (mset_set user_vas))"

lemma image_filter_mset_cong:
  assumes "\<And>x. x \<in># M \<Longrightarrow> P x = Q x \<and> f x = g x"
  shows "image_mset f (filter_mset P M) = image_mset g (filter_mset Q M)"
proof -
  have "filter_mset P M = filter_mset Q M" using assms by (intro filter_mset_cong) auto
  then show ?thesis using assms by (auto intro!: image_mset_cong)
qed

lemma upages_cong:
  "(\<And>va. va \<in> user_vas \<Longrightarrow> pte_at s' pgdir va = pte_at s pgdir va) \<Longrightarrow> upages s' pgdir = upages s pgdir"
  unfolding upages_def by (intro image_filter_mset_cong) auto

lemma upages_split:
  assumes "a \<in> user_vas"
  shows "upages s pgdir =
    (if pte_at s pgdir a AND PTE_P \<noteq> 0 then {#P2V (PTE_ADDR (pte_at s pgdir a))#} else {#}) +
    image_mset (\<lambda>va. P2V (PTE_ADDR (pte_at s pgdir va)))
     (filter_mset (\<lambda>va. pte_at s pgdir va AND PTE_P \<noteq> 0) (mset_set (user_vas - {a})))"
proof -
  have "mset_set user_vas = add_mset a (mset_set (user_vas - {a}))"
    using assms by (intro mset_set.remove) simp_all
  then show ?thesis unfolding upages_def by simp
qed

lemma upages_update:
  assumes a: "a \<in> user_vas" and same: "\<And>va. \<not> same_page va a \<Longrightarrow> pte_at s' pgdir va = pte_at s pgdir va"
  shows "pte_at s' pgdir a AND PTE_P = 0 \<Longrightarrow> pte_at s pgdir a AND PTE_P \<noteq> 0 \<Longrightarrow>
      upages s pgdir = add_mset (P2V (PTE_ADDR (pte_at s pgdir a))) (upages s' pgdir)"
    "pte_at s' pgdir a AND PTE_P \<noteq> 0 \<Longrightarrow> pte_at s pgdir a AND PTE_P = 0 \<Longrightarrow>
      upages s' pgdir = add_mset (P2V (PTE_ADDR (pte_at s' pgdir a))) (upages s pgdir)"
proof -
  have "pte_at s' pgdir va = pte_at s pgdir va" if "va \<in># mset_set (user_vas - {a})" for va
    using that a by (intro same) (auto simp: user_vas_def same_page_aligned)
  then have "image_mset (\<lambda>va. P2V (PTE_ADDR (pte_at s' pgdir va)))
      (filter_mset (\<lambda>va. pte_at s' pgdir va AND PTE_P \<noteq> 0) (mset_set (user_vas - {a}))) =
    image_mset (\<lambda>va. P2V (PTE_ADDR (pte_at s pgdir va)))
      (filter_mset (\<lambda>va. pte_at s pgdir va AND PTE_P \<noteq> 0) (mset_set (user_vas - {a})))"
    by (intro image_filter_mset_cong) auto
  note eq = this upages_split [OF a, of s pgdir] upages_split [OF a, of s' pgdir]
  show "upages s pgdir = add_mset (P2V (PTE_ADDR (pte_at s pgdir a))) (upages s' pgdir)"
    if "pte_at s' pgdir a AND PTE_P = 0" "pte_at s pgdir a AND PTE_P \<noteq> 0"
    using that eq by simp
  show "upages s' pgdir = add_mset (P2V (PTE_ADDR (pte_at s' pgdir a))) (upages s pgdir)"
    if "pte_at s' pgdir a AND PTE_P \<noteq> 0" "pte_at s pgdir a AND PTE_P = 0"
    using that eq by simp
qed

text \<open>
  An address space with its free list: the page directory, its page-table pages, the user
  pages it maps and the free pages are all different. \<open>evolves\<close> says that an operation
  moved pages between these groups and touched no other page; it keeps \<open>uvm_ok\<close>.
\<close>

definition uvm_pages :: "kmem \<Rightarrow> u32 \<Rightarrow> u32 list \<Rightarrow> u32 multiset" where
  "uvm_pages s pgdir xs = add_mset pgdir (mset (tables s pgdir)) + upages s pgdir + mset xs"

definition uniq :: "'a multiset \<Rightarrow> bool" where
  "uniq M \<longleftrightarrow> (\<forall>p. count M p \<le> 1)"

definition uvm_ok :: "kmem \<Rightarrow> u32 \<Rightarrow> u32 list \<Rightarrow> bool" where
  "uvm_ok s pgdir xs \<longleftrightarrow> free_pages s xs \<and> KERNBASE < kern_end s \<and>
     uniq (uvm_pages s pgdir xs) \<and> (\<forall>p\<in>#uvm_pages s pgdir xs. page_ok s p)"

definition evolves :: "u32 \<Rightarrow> kmem \<Rightarrow> u32 list \<Rightarrow> kmem \<Rightarrow> u32 list \<Rightarrow> bool" where
  "evolves pgdir s xs s' ys \<longleftrightarrow> uvm_pages s' pgdir ys = uvm_pages s pgdir xs \<and>
     agree_off (set_mset (uvm_pages s pgdir xs)) s s' \<and> free_pages s' ys"

lemma uniq_mset: "uniq (mset xs) \<longleftrightarrow> distinct xs"
proof -
  have "count (mset xs) p \<le> 1 \<longleftrightarrow> count (mset xs) p = (if p \<in> set xs then 1 else 0)" for p
    by (auto simp: le_Suc_eq)
  then show ?thesis by (simp add: uniq_def distinct_count_atmost_1)
qed

lemma uniq_subset: "uniq M \<Longrightarrow> N \<subseteq># M \<Longrightarrow> uniq N"
  unfolding uniq_def by (meson le_trans mset_subset_eq_count)

lemma uniq_disjoint:
  assumes "uniq (M + N)" "p \<in># M"
  shows "p \<notin># N"
proof
  assume "p \<in># N"
  then have "1 \<le> count N p" "1 \<le> count M p"
    using assms(2) by simp_all
  moreover have "count M p + count N p \<le> 1" using assms(1) by (simp add: uniq_def)
  ultimately show False by linarith
qed

lemma uvm_okD:
  assumes "uvm_ok s pgdir xs"
  shows "pt_ok s pgdir xs" "free_pages s xs" "KERNBASE < kern_end s"
    "p \<in># upages s pgdir \<Longrightarrow> page_ok s p \<and> p \<notin> pt_pages s pgdir xs"
proof -
  have u: "uniq (uvm_pages s pgdir xs)" and ok: "\<And>p. p \<in># uvm_pages s pgdir xs \<Longrightarrow> page_ok s p"
    using assms by (auto simp: uvm_ok_def)
  show fp: "free_pages s xs" and "KERNBASE < kern_end s" using assms by (auto simp: uvm_ok_def)
  have "mset (pgdir # tables s pgdir @ xs) \<subseteq># uvm_pages s pgdir xs"
    by (simp add: uvm_pages_def)
  then have "distinct (pgdir # tables s pgdir @ xs)"
    using uniq_subset [OF u] by (metis uniq_mset)
  then show "pt_ok s pgdir xs"
    using ok fp by (simp add: pt_ok_def uvm_pages_def)
  assume p: "p \<in># upages s pgdir"
  have "uvm_pages s pgdir xs = upages s pgdir + mset (pgdir # tables s pgdir @ xs)"
    by (simp add: uvm_pages_def)
  then have "p \<notin># mset (pgdir # tables s pgdir @ xs)"
    using uniq_disjoint u p by metis
  then show "page_ok s p \<and> p \<notin> pt_pages s pgdir xs"
    using ok p by (simp add: uvm_pages_def pt_pages_def)
qed

lemma evolves_refl: "free_pages s xs \<Longrightarrow> evolves pgdir s xs s xs"
  by (simp add: evolves_def)

lemma evolves_trans:
  "evolves pgdir s xs t ys \<Longrightarrow> evolves pgdir t ys u zs \<Longrightarrow> evolves pgdir s xs u zs"
  unfolding evolves_def by (auto intro: agree_off_trans)

lemma evolves_ok:
  assumes "evolves pgdir s xs s' ys" "uvm_ok s pgdir xs"
  shows "uvm_ok s' pgdir ys"
proof -
  have ag: "agree_off (set_mset (uvm_pages s pgdir xs)) s s'" using assms(1) by (simp add: evolves_def)
  then show ?thesis
    using assms agree_off_page_ok [OF ag] by (auto simp: uvm_ok_def evolves_def agree_off_def)
qed

lemma pte_present_table: "pte_at s pgdir va AND PTE_P \<noteq> 0 \<Longrightarrow> pd_present s pgdir (PDX va)"
  by (simp add: pte_at_def split: if_splits)

lemma upages_member:
  "va \<in> user_vas \<Longrightarrow> pte_at s pgdir va AND PTE_P \<noteq> 0 \<Longrightarrow> P2V (PTE_ADDR (pte_at s pgdir va)) \<in># upages s pgdir"
  by (subst upages_split) auto

text \<open>Freeing a user page and clearing its entry.\<close>

lemma kfree_user:
  assumes ok: "uvm_ok s pgdir xs" and p: "page_ok s p" "p \<notin> pt_pages s pgdir xs" and k: "kfree p s = Inr s'"
  shows "pt_ok s' pgdir (p # xs)" "tables s' pgdir = tables s pgdir" "agree_off {p} s s'"
    "pte_at s' pgdir va = pte_at s pgdir va" "pd_present s' pgdir (PDX va) = pd_present s pgdir (PDX va)"
    "pgtab_at s' pgdir (PDX va) = pgtab_at s pgdir (PDX va)"
proof -
  note pt = uvm_okD(1) [OF ok]
  have s': "s' = s\<lparr>pmem := wr32 (memset (pmem s) p 1 PGSIZE) p (freelist s), freelist := p\<rparr>"
    using kfree_Inr [OF p(1)] k by simp
  show ag: "agree_off {p} s s'"
    using page_ok_aligned [OF p(1)] by (simp add: s' agree_off_def wr32_other_page0 memset_page)
  have ne: "pgdir \<notin> {p}" "set (tables s pgdir) \<inter> {p} = {}" using p(2) by (auto simp: pt_pages_def)
  show tb: "tables s' pgdir = tables s pgdir"
    using agree_off_tables [OF ag pt_okD(3) [OF pt] ne(1)] .
  show "pte_at s' pgdir va = pte_at s pgdir va"
    using agree_off_pte [OF ag pt_okD(3) [OF pt] ne] .
  show "pd_present s' pgdir (PDX va) = pd_present s pgdir (PDX va)"
    "pgtab_at s' pgdir (PDX va) = pgtab_at s pgdir (PDX va)"
    using agree_off_pde [OF ag pt_okD(3) [OF pt] ne(1)] by simp_all
  have "free_pages s' (p # xs)"
    using kfree_push [OF pt_okD(1) [OF pt] p(1) _ k] p(2) by (simp add: pt_pages_def)
  then show "pt_ok s' pgdir (p # xs)"
    using pt p by (auto simp: pt_ok_def tb pt_pages_def agree_off_page_ok [OF ag])
qed

lemma unmap_step:
  assumes ok: "uvm_ok s pgdir xs" and va: "va \<in> user_vas" and pr: "pte_at s pgdir va AND PTE_P \<noteq> 0"
  defines "p \<equiv> P2V (PTE_ADDR (pte_at s pgdir va))"
  obtains s1 s2 where "kfree p s = Inr s1"
    "s2 = s1\<lparr>pmem := wr32 (pmem s1) (pgtab_at s pgdir (PDX va) + 4 * PTX va) 0\<rparr>"
    "evolves pgdir s xs s2 (p # xs)"
    "\<And>v. pte_at s2 pgdir v = (if same_page v va then 0 else pte_at s pgdir v)"
proof -
  have p: "page_ok s p" "p \<notin> pt_pages s pgdir xs" and pm: "p \<in># upages s pgdir"
    using upages_member [OF va pr] uvm_okD(4) [OF ok] by (auto simp: p_def)
  obtain s1 where s1: "kfree p s = Inr s1" using kfree_Inr [OF p(1)] by blast
  note f = kfree_user [OF ok p s1]
  have pd: "pd_present s1 pgdir (PDX va)" using pte_present_table [OF pr] f(5) by simp
  let ?s2 = "set_pte s1 pgdir va 0"
  note sp = set_pte_ok [OF f(1) pd, where v = 0]
  have tbl: "pgtab_at s1 pgdir (PDX va) \<in># uvm_pages s pgdir xs"
    using pgtab_mem_tables [OF pd] f(2) by (simp add: uvm_pages_def)
  have pte: "pte_at ?s2 pgdir v = (if same_page v va then 0 else pte_at s pgdir v)" for v
    using sp(3,4) [of v] f(4) by (simp add: same_page_def)
  have "upages s pgdir = add_mset p (upages ?s2 pgdir)"
    using upages_update(1) [OF va, where s = s and s' = ?s2 and pgdir = pgdir] pte pr
    by (simp add: p_def)
  then have "uvm_pages ?s2 pgdir (p # xs) = uvm_pages s pgdir xs"
    using sp(2) f(2) by (simp add: uvm_pages_def)
  moreover have "agree_off (set_mset (uvm_pages s pgdir xs)) s ?s2"
    using tbl pm by (intro agree_off_trans [OF f(3) set_pte_agree]) (auto simp: uvm_pages_def)
  ultimately have "evolves pgdir s xs ?s2 (p # xs)"
    using pt_okD(1) [OF sp(1)] by (simp add: evolves_def)
  then show ?thesis
    using that [OF s1 _ _ pte] f(6) [of va] by (simp add: set_pte_def)
qed

subsection \<open>deallocuvm\<close>

definition va_in :: "u32 \<Rightarrow> u32 \<Rightarrow> u32 \<Rightarrow> bool" where
  "va_in lo hi va \<longleftrightarrow> lo \<le> PGROUNDDOWN va \<and> PGROUNDDOWN va < hi"

definition unmapped :: "u32 \<Rightarrow> u32 \<Rightarrow> u32 \<Rightarrow> kmem \<Rightarrow> kmem \<Rightarrow> bool" where
  "unmapped pgdir lo hi s s' \<longleftrightarrow>
     (\<forall>va. if va_in lo hi va then pte_at s' pgdir va AND PTE_P = 0
           else pte_at s' pgdir va = pte_at s pgdir va)"

lemma va_in_split:
  assumes "pg_aligned a" "pg_aligned b" "a < b"
  shows "va_in a hi va \<longleftrightarrow> (va_in a hi va \<and> PGROUNDDOWN va < b) \<or> va_in b hi va"
  using assms by (auto simp: va_in_def)

lemma unmapped_extend:
  assumes "unmapped pgdir b hi t s'" "a < b"
    and "\<And>va. va_in a hi va \<Longrightarrow> PGROUNDDOWN va < b \<Longrightarrow> pte_at t pgdir va AND PTE_P = 0"
    and "\<And>va. \<not> va_in a hi va \<Longrightarrow> pte_at t pgdir va = pte_at s pgdir va"
  shows "unmapped pgdir a hi s s'"
  unfolding unmapped_def
proof
  fix va
  show "if va_in a hi va then pte_at s' pgdir va AND PTE_P = 0 else pte_at s' pgdir va = pte_at s pgdir va"
    using assms(1) [unfolded unmapped_def, THEN spec, of va] assms(2) assms(3,4) [of va]
    by (cases "va_in b hi va") (auto simp: va_in_def not_less)
qed

lemma next_table:
  assumes "pg_aligned a" "unat a < 0x80000000"
  defines "b \<equiv> PGADDR (PDX a + 1) 0 0 - PGSIZE + PGSIZE"
  shows "pg_aligned b" "unat a + 4096 \<le> unat b" "a \<le> PGROUNDDOWN va \<Longrightarrow> PGROUNDDOWN va < b \<Longrightarrow> PDX va = PDX a"
proof -
  have d: "unat (PDX a) < 512" using assms(2) by (simp add: unat_PDX) 
  then have d1: "unat (PDX a + 1) = unat (PDX a) + 1" by (simp add: unat_add_no_wrap)
  have b: "unat b = (unat a div 2 ^ 22 + 1) * 2 ^ 22"
    using PGADDR_unat [of "PDX a + 1" 0 0] d d1 by (simp add: b_def unat_PDX)
  then show "pg_aligned b" by (simp add: pg_aligned_iff_mod)
  have "4096 dvd unat a" using assms(1) by (auto simp: pg_aligned_iff_mod)
  then obtain c where c: "unat a = 4096 * c" ..
  then have "unat a div 2 ^ 22 = c div 1024" by (simp add: div_mult_mult1)
  then have bc: "unat b = (c div 1024 + 1) * 1024 * 4096" using b by simp
  have "c + 1 \<le> (c div 1024 + 1) * 1024"
    using div_mult_mod_eq [of c 1024] mod_less_divisor [of 1024 c, OF zero_less_numeral] by (simp add: algebra_simps)
  then have "(c + 1) * 4096 \<le> (c div 1024 + 1) * 1024 * 4096" by (rule mult_le_mono1)
  then show "unat a + 4096 \<le> unat b" using c bc by simp
  assume r: "a \<le> PGROUNDDOWN va" "PGROUNDDOWN va < b"
  have "unat a \<le> unat va" using r(1) by (simp add: word_le_nat_alt unat_PGROUNDDOWN)
  moreover have "unat va < unat b"
  proof -
    have "unat va div 4096 * 4096 < (c div 1024 + 1) * 1024 * 4096"
      using r(2) bc by (simp add: word_less_nat_alt PGROUNDDOWN_mult)
    then have "unat va div 4096 < (c div 1024 + 1) * 1024" by simp
    then have "unat va < (c div 1024 + 1) * 1024 * 4096"
      by (simp add: div_less_iff_less_mult)
    then show ?thesis using bc by simp
  qed
  ultimately have "unat a div 2 ^ 22 \<le> unat va div 2 ^ 22" "unat va div 2 ^ 22 < unat a div 2 ^ 22 + 1"
    unfolding b by (blast intro: div_le_mono less_mult_imp_div_less)+
  then have "unat va div 2 ^ 22 = unat a div 2 ^ 22" by simp
  then show "PDX va = PDX a" by (simp add: word_unat_eq_iff unat_PDX)
qed

lemma same_page_of_range:
  assumes "pg_aligned a" "a \<le> PGROUNDDOWN va" "PGROUNDDOWN va < a + PGSIZE" "unat a + 4096 < 2 ^ 32"
  shows "same_page va a"
proof -
  have "unat (a + PGSIZE) = unat a + 4096" using assms(4) by (simp add: PGSIZE_def unat_add_no_wrap)
  moreover have "4096 dvd unat a" using assms(1) by (auto simp: pg_aligned_iff_mod)
  then obtain c where "unat a = 4096 * c" ..
  ultimately have "unat va div 4096 * 4096 < (c + 1) * 4096" "c * 4096 \<le> unat va div 4096 * 4096"
    using assms(2,3) by (simp_all add: word_le_nat_alt word_less_nat_alt PGROUNDDOWN_mult)
  then have "unat va div 4096 = c" by simp
  then have "PGROUNDDOWN va = a"
    using \<open>unat a = 4096 * c\<close> by (simp add: word_unat_eq_iff PGROUNDDOWN_mult)
  then show ?thesis using assms(1) by (simp add: same_page_iff PGROUNDDOWN_aligned)
qed

lemma deallocuvm_loop_spec:
  assumes "uvm_ok s pgdir xs" "pg_aligned a" "oldsz \<le> KERNBASE" "unat oldsz \<le> unat a + fuel * 4096"
  shows "\<exists>s' ys. deallocuvm_loop fuel pgdir a oldsz s = Inr s' \<and> evolves pgdir s xs s' ys \<and>
    unmapped pgdir a oldsz s s'"
proof (cases "a < oldsz")
  case False
  then have "deallocuvm_loop fuel pgdir a oldsz s = Inr s" by (cases fuel) simp_all
  moreover have "unmapped pgdir a oldsz s s" using False by (auto simp: unmapped_def va_in_def)
  ultimately show ?thesis using evolves_refl uvm_okD(2) [OF assms(1)] by blast
next
  case True
  with assms show ?thesis
  proof (induction fuel arbitrary: s xs a)
    case 0
    then show ?case by (simp add: word_less_nat_alt)
  next
    case (Suc fuel s xs a)
    have a: "unat a < 0x80000000" "a \<in> user_vas"
      using Suc.prems(2,3,5) by (simp_all add: word_less_nat_alt word_le_nat_alt KERNBASE_def user_vas_def)
    have IH: "\<exists>s' ys. deallocuvm_loop fuel pgdir b oldsz t = Inr s' \<and> evolves pgdir t zs s' ys \<and>
        unmapped pgdir b oldsz t s'"
      if "uvm_ok t pgdir zs" "pg_aligned b" "unat a + 4096 \<le> unat b" for t zs b
    proof (cases "b < oldsz")
      case False
      then have "deallocuvm_loop fuel pgdir b oldsz t = Inr t" by (cases fuel) simp_all
      moreover have "unmapped pgdir b oldsz t t" using False by (auto simp: unmapped_def va_in_def)
      ultimately show ?thesis using evolves_refl uvm_okD(2) [OF that(1)] by blast
    next
      case True
      then show ?thesis using Suc.IH [OF that(1,2) Suc.prems(3)] Suc.prems(4) that(3) by auto
    qed
    have nxt: "pg_aligned (a + PGSIZE)" "unat a + 4096 \<le> unat (a + PGSIZE)" "a < a + PGSIZE"
      using pg_aligned_add_PGSIZE [OF Suc.prems(2)] a(1) unat_add_no_wrap [of a PGSIZE]
      by (simp_all add: PGSIZE_def word_less_nat_alt)
    show ?case
    proof (cases "pd_present s pgdir (PDX a)")
      case False
      let ?b = "PGADDR (PDX a + 1) 0 0 - PGSIZE + PGSIZE"
      note nt = next_table [OF Suc.prems(2) a(1)]
      obtain s' ys where s': "deallocuvm_loop fuel pgdir ?b oldsz s = Inr s'" "evolves pgdir s xs s' ys"
          "unmapped pgdir ?b oldsz s s'"
        using IH [OF Suc.prems(1) nt(1,2)] by blast
      have "a < ?b" using nt(2) by (simp add: word_less_nat_alt)
      have "unmapped pgdir a oldsz s s'"
      proof (rule unmapped_extend [OF s'(3) \<open>a < ?b\<close>])
        fix va assume "va_in a oldsz va" "PGROUNDDOWN va < ?b"
        then have "PDX va = PDX a" using nt(3) by (simp add: va_in_def)
        then show "pte_at s pgdir va AND PTE_P = 0" using False by (simp add: pte_at_def)
      qed simp
      then show ?thesis
        using s' Suc.prems(5) walkpgdir_absent [OF False] by auto
    next
      case pd: True
      have w: "walkpgdir pgdir a False s = (pgtab_at s pgdir (PDX a) + 4 * PTX a, s)"
        using walkpgdir_present [OF pd] .
      have nz: "pgtab_at s pgdir (PDX a) + 4 * PTX a \<noteq> 0"
        using pt_okD(5) [OF uvm_okD(1) [OF Suc.prems(1)] _ pd] slot_nonzero by auto
      have e: "rd32 (pmem s) (pgtab_at s pgdir (PDX a) + 4 * PTX a) = pte_at s pgdir a"
        using pd by (simp add: pte_at_def)
      have sp: "same_page va a" if "va_in a oldsz va" "PGROUNDDOWN va < a + PGSIZE" for va
        using that a(1) Suc.prems(2) by (intro same_page_of_range) (simp_all add: va_in_def)
      show ?thesis
      proof (cases "pte_at s pgdir a AND PTE_P = 0")
        case True
        obtain s' ys where s': "deallocuvm_loop fuel pgdir (a + PGSIZE) oldsz s = Inr s'"
            "evolves pgdir s xs s' ys" "unmapped pgdir (a + PGSIZE) oldsz s s'"
          using IH [OF Suc.prems(1) nxt(1,2)] by blast
        have "unmapped pgdir a oldsz s s'"
        proof (rule unmapped_extend [OF s'(3) nxt(3)])
          fix va assume "va_in a oldsz va" "PGROUNDDOWN va < a + PGSIZE"
          from pte_at_same_page [OF sp [OF this]] show "pte_at s pgdir va AND PTE_P = 0"
            using True by simp
        qed simp
        then show ?thesis using s' Suc.prems(5) w nz e True by auto
      next
        case False
        let ?p = "P2V (PTE_ADDR (pte_at s pgdir a))"
        obtain s1 s2 where u: "kfree ?p s = Inr s1"
          "s2 = s1\<lparr>pmem := wr32 (pmem s1) (pgtab_at s pgdir (PDX a) + 4 * PTX a) 0\<rparr>"
          "evolves pgdir s xs s2 (?p # xs)"
          "\<And>v. pte_at s2 pgdir v = (if same_page v a then 0 else pte_at s pgdir v)"
          using unmap_step [OF Suc.prems(1) a(2) False] by blast
        obtain s' ys where s': "deallocuvm_loop fuel pgdir (a + PGSIZE) oldsz s2 = Inr s'"
            "evolves pgdir s2 (?p # xs) s' ys" "unmapped pgdir (a + PGSIZE) oldsz s2 s'"
          using IH [OF evolves_ok [OF u(3) Suc.prems(1)] nxt(1,2)] by blast
        have "va_in a oldsz va" if "same_page va a" for va
          using that Suc.prems(2,5) by (simp add: same_page_iff va_in_def PGROUNDDOWN_aligned)
        then have "unmapped pgdir a oldsz s s'"
          by (intro unmapped_extend [OF s'(3) nxt(3)]) (use u(4) sp in auto)
        moreover have "PTE_ADDR (pte_at s pgdir a) \<noteq> 0"
          using kfree_InrD(2) [OF u(1)] uvm_okD(3) [OF Suc.prems(1)] by (auto simp: P2V_def)
        ultimately show ?thesis
          using s'(1) evolves_trans [OF u(3) s'(2)] Suc.prems(5) w nz e False u(1,2) by auto
      qed
    qed
  qed
qed

lemma deallocuvm_spec:
  assumes "uvm_ok s pgdir xs" "oldsz \<le> KERNBASE"
  obtains (noop) "oldsz \<le> newsz" "deallocuvm pgdir oldsz newsz s = Inr (oldsz, s)"
  | (freed) s' ys where "newsz < oldsz" "deallocuvm pgdir oldsz newsz s = Inr (newsz, s')"
      "evolves pgdir s xs s' ys" "unmapped pgdir (PGROUNDUP newsz) oldsz s s'"
proof (cases "oldsz \<le> newsz")
  case True
  then show ?thesis using that(1) by (simp add: deallocuvm_def)
next
  case False
  have "unat oldsz \<le> unat (PGROUNDUP newsz) + Suc (unat (oldsz div PGSIZE)) * 4096"
    using div_mult_mod_eq [of "unat oldsz" 4096] mod_less_divisor [of 4096 "unat oldsz", OF zero_less_numeral]
    by (simp add: unat_div PGSIZE_def)
  from deallocuvm_loop_spec [OF assms(1) pg_aligned_PGROUNDUP assms(2) this]
  show ?thesis using that(2) False by (auto simp: deallocuvm_def not_le)
qed

subsection \<open>allocuvm\<close>

definition user_zero :: "kmem \<Rightarrow> u32 \<Rightarrow> u32 \<Rightarrow> bool" where
  "user_zero s pgdir va \<longleftrightarrow>
     PTE_FLAGS (pte_at s pgdir va) = (PTE_W OR PTE_U OR PTE_P) \<and>
     (\<forall>x. PGROUNDDOWN x = P2V (PTE_ADDR (pte_at s pgdir va)) \<longrightarrow> pmem s x = 0)"

lemma user_pte:
  assumes "pg_aligned x"
  shows "PTE_ADDR (V2P x OR (PTE_W OR PTE_U) OR PTE_P) = V2P x"
    "PTE_FLAGS (V2P x OR (PTE_W OR PTE_U) OR PTE_P) = (PTE_W OR PTE_U OR PTE_P)"
    "(V2P x OR (PTE_W OR PTE_U) OR PTE_P) AND PTE_P \<noteq> 0"
proof -
  have seven: "PTE_W OR PTE_U OR PTE_P = 7" by (simp add: PTE_P_def PTE_W_def PTE_U_def)
  then have "V2P x OR (PTE_W OR PTE_U) OR PTE_P = V2P x OR 7"
    by (simp only: or.assoc)
  then show "PTE_ADDR (V2P x OR (PTE_W OR PTE_U) OR PTE_P) = V2P x"
    "PTE_FLAGS (V2P x OR (PTE_W OR PTE_U) OR PTE_P) = (PTE_W OR PTE_U OR PTE_P)"
    using PTE_ADDR_or_flags [of "V2P x" 7] assms seven by simp_all
  show "(V2P x OR (PTE_W OR PTE_U) OR PTE_P) AND PTE_P \<noteq> 0"
    unfolding PTE_P_iff not_not bit_or_iff by (simp add: PTE_P_def)
qed

text \<open>One page taken off the free list and zeroed.\<close>

definition zeroed :: "kmem \<Rightarrow> u32 \<Rightarrow> kmem" where
  "zeroed s x = s\<lparr>freelist := rd32 (pmem s) x, pmem := memset (pmem s) x 0 PGSIZE\<rparr>"

lemma zeroed_ok:
  assumes ok: "uvm_ok s pgdir (x # ys)"
  shows "kalloc s = (x, s\<lparr>freelist := rd32 (pmem s) x\<rparr>)" "x \<noteq> 0" "page_ok s x" "pg_aligned x"
    "agree_off {x} s (zeroed s x)" "pt_ok (zeroed s x) pgdir ys"
    "tables (zeroed s x) pgdir = tables s pgdir" "pte_at (zeroed s x) pgdir va = pte_at s pgdir va"
    "x \<notin> pt_pages s pgdir ys"
proof -
  note pt = uvm_okD(1) [OF ok] and fp = uvm_okD(2) [OF ok]
  show "kalloc s = (x, s\<lparr>freelist := rd32 (pmem s) x\<rparr>)" using kalloc_pop(1) [OF fp] .
  show x: "page_ok s x" "pg_aligned x" "x \<noteq> 0"
    using fp page_ok_nonzero by (auto simp: free_pages_def page_ok_def)
  show nx: "x \<notin> pt_pages s pgdir ys"
    using pt by (auto simp: pt_ok_def pt_pages_def)
  show ag: "agree_off {x} s (zeroed s x)"
    using x(2) by (auto simp: agree_off_def zeroed_def memset_page)
  have ne: "pgdir \<notin> {x}" "set (tables s pgdir) \<inter> {x} = {}" using nx by (auto simp: pt_pages_def)
  show tb: "tables (zeroed s x) pgdir = tables s pgdir"
    using agree_off_tables [OF ag pt_okD(3) [OF pt] ne(1)] .
  show "pte_at (zeroed s x) pgdir va = pte_at s pgdir va"
    using agree_off_pte [OF ag pt_okD(3) [OF pt] ne] .
  have "free_pages (zeroed s x) ys"
  proof (rule agree_off_free_pages)
    show "agree_off {x} (s\<lparr>freelist := rd32 (pmem s) x\<rparr>) (zeroed s x)"
      using ag by (simp add: agree_off_def)
    show "free_pages (s\<lparr>freelist := rd32 (pmem s) x\<rparr>) ys" using kalloc_pop(2) [OF fp] .
    show "set ys \<inter> {x} = {}" using nx by (auto simp: pt_pages_def)
  qed (simp add: zeroed_def)
  then show "pt_ok (zeroed s x) pgdir ys"
    using pt by (auto simp: pt_ok_def tb agree_off_page_ok [OF ag])
qed

lemma alloc_step:
  assumes u: "uvm_ok s pgdir (x # ys)" and a: "a \<in> user_vas" and np: "pte_at s pgdir a AND PTE_P = 0"
  obtains (fail) s2 where "mappages pgdir a PGSIZE (V2P x) (PTE_W OR PTE_U) (zeroed s x) = Inr (-1, s2)"
      "uvm_ok s2 pgdir []" "add_mset x (uvm_pages s2 pgdir []) = uvm_pages s pgdir (x # ys)"
      "agree_off (pt_pages s pgdir (x # ys)) s s2" "\<And>va. pte_at s2 pgdir va = pte_at s pgdir va"
  | (good) s2 zs where "mappages pgdir a PGSIZE (V2P x) (PTE_W OR PTE_U) (zeroed s x) = Inr (0, s2)"
      "evolves pgdir s (x # ys) s2 zs" "agree_off (pt_pages s pgdir (x # ys)) s s2"
      "pt_pages s2 pgdir zs \<subseteq> pt_pages s pgdir (x # ys)"
      "\<And>va. same_page va a \<Longrightarrow> user_zero s2 pgdir va"
      "\<And>va. \<not> same_page va a \<Longrightarrow> pte_at s2 pgdir va = pte_at s pgdir va"
proof -
  note z = zeroed_ok [OF u] and al = a [unfolded user_vas_def, simplified]
  have pp: "pt_pages (zeroed s x) pgdir ys \<subseteq> pt_pages s pgdir (x # ys)"
    by (auto simp: pt_pages_def z(7))
  have sub: "pt_pages s pgdir (x # ys) \<subseteq> set_mset (uvm_pages s pgdir (x # ys))"
    by (auto simp: pt_pages_def uvm_pages_def)
  have np': "pg_aligned a" "pte_at (zeroed s x) pgdir a AND PTE_P = 0"
    using al np z(8) by simp_all
  show ?thesis
    using z(6) np'
  proof (cases rule: mappages_page [where pa = "V2P x" and perm = "PTE_W OR PTE_U"])
    case (full s2)
    have ag: "agree_off (pt_pages s pgdir (x # ys)) s s2"
      using pp by (intro agree_off_trans [OF z(5) full(3)]) (auto simp: pt_pages_def)
    have "upages s2 pgdir = upages s pgdir" using full(5) z(8) by (intro upages_cong) simp
    then have eq: "add_mset x (uvm_pages s2 pgdir []) = uvm_pages s pgdir (x # ys)"
      using full(4) by (simp add: uvm_pages_def pt_conserve_def z(7))
    then have "uniq (uvm_pages s2 pgdir [])"
      using u uniq_subset [of "uvm_pages s pgdir (x # ys)"] by (metis mset_subset_eq_add_right add_mset_add_single uvm_ok_def mset_subset_eq_add_left)
    moreover have "\<forall>p\<in>#uvm_pages s2 pgdir []. page_ok s2 p"
      using u eq [symmetric] by (auto simp: uvm_ok_def agree_off_page_ok [OF ag])
    ultimately have "uvm_ok s2 pgdir []"
      using pt_okD(1) [OF full(2)] u ag by (simp add: uvm_ok_def agree_off_def)
    then show ?thesis using that(1) full(1,5) eq ag z(8) by simp
  next
    case (ok s2 zs)
    have ag: "agree_off (pt_pages s pgdir (x # ys)) s s2"
      using pp by (intro agree_off_trans [OF z(5) ok(3)]) (auto simp: pt_pages_def)
    have pte: "pte_at s2 pgdir va = (if same_page va a then V2P x OR (PTE_W OR PTE_U) OR PTE_P else pte_at s pgdir va)" for va
      using ok(5) z(8) by simp
    have "upages s2 pgdir = add_mset x (upages s pgdir)"
      using upages_update(2) [OF a, where s = s and s' = s2 and pgdir = pgdir] pte np user_pte [OF z(4)] by simp
    then have "uvm_pages s2 pgdir zs = uvm_pages s pgdir (x # ys)"
      using ok(4) by (simp add: uvm_pages_def pt_conserve_def z(7) ac_simps)
    then have "evolves pgdir s (x # ys) s2 zs"
      using agree_off_mono [OF ag sub] pt_okD(1) [OF ok(2)] by (simp add: evolves_def)
    moreover have "user_zero s2 pgdir va" if "same_page va a" for va
    proof -
      have "pmem s2 y = 0" if "PGROUNDDOWN y = x" for y
        using that ok(3) z(9) z(4) by (simp add: agree_off_def pt_pages_def z(7)) (simp add: zeroed_def memset_page)
      then show ?thesis using that pte user_pte [OF z(4)] by (simp add: user_zero_def)
    qed
    moreover have "pt_pages s2 pgdir zs \<subseteq> pt_pages s pgdir (x # ys)"
      using pt_conserve_pages [OF ok(4)] pp by simp
    ultimately show ?thesis using that(2) ok(1) ag pte by simp
  qed
qed

text \<open>Putting back a page that belongs to no one.\<close>

lemma kfree_floating:
  assumes ok: "uvm_ok s pgdir xs" and p: "page_ok s p" "p \<notin># uvm_pages s pgdir xs"
  obtains s' where "kfree p s = Inr s'" "uvm_pages s' pgdir (p # xs) = add_mset p (uvm_pages s pgdir xs)"
    "agree_off {p} s s'" "free_pages s' (p # xs)" "\<And>va. pte_at s' pgdir va = pte_at s pgdir va"
proof -
  have np: "p \<notin> pt_pages s pgdir xs" using p(2) by (auto simp: pt_pages_def uvm_pages_def)
  obtain s' where s': "kfree p s = Inr s'" using kfree_Inr [OF p(1)] by blast
  note f = kfree_user [OF ok p(1) np s']
  have "upages s' pgdir = upages s pgdir" using f(4) by (intro upages_cong) simp
  then have "uvm_pages s' pgdir (p # xs) = add_mset p (uvm_pages s pgdir xs)"
    using f(2) by (simp add: uvm_pages_def)
  then show ?thesis using that s' f(3,4) pt_okD(1) [OF f(1)] by blast
qed

definition va_fresh :: "kmem \<Rightarrow> u32 \<Rightarrow> u32 \<Rightarrow> u32 \<Rightarrow> bool" where
  "va_fresh s pgdir lo hi \<longleftrightarrow> (\<forall>va. va_in lo hi va \<longrightarrow> pte_at s pgdir va AND PTE_P = 0)"

text \<open>The two outcomes of growing an address space from \<open>lo\<close> to \<open>hi\<close>.\<close>

definition grown :: "u32 \<Rightarrow> u32 \<Rightarrow> u32 \<Rightarrow> kmem \<Rightarrow> u32 list \<Rightarrow> kmem \<Rightarrow> bool" where
  "grown pgdir lo hi s xs s' \<longleftrightarrow> agree_off (pt_pages s pgdir xs) s s' \<and>
     (\<forall>va. if va_in lo hi va then user_zero s' pgdir va else pte_at s' pgdir va = pte_at s pgdir va)"

definition not_grown :: "u32 \<Rightarrow> u32 \<Rightarrow> u32 \<Rightarrow> kmem \<Rightarrow> kmem \<Rightarrow> bool" where
  "not_grown pgdir lo hi s s' \<longleftrightarrow>
     (\<forall>va. if va_in lo hi va then pte_at s' pgdir va AND PTE_P = 0 else pte_at s' pgdir va = pte_at s pgdir va)"

lemma allocuvm_fail:
  assumes ok: "uvm_ok s pgdir xs" and sz: "newsz < KERNBASE" "oldsz < newsz"
  obtains r s' ys where "deallocuvm pgdir newsz oldsz s = Inr (r, s')" "evolves pgdir s xs s' ys"
    "not_grown pgdir (PGROUNDUP oldsz) newsz s s'"
proof -
  have le: "newsz \<le> KERNBASE" using sz(1) by simp
  show ?thesis
    using ok le
  proof (cases rule: deallocuvm_spec [where newsz = oldsz])
    case (freed s' ys)
    then show ?thesis using that by (simp add: not_grown_def unmapped_def)
  qed (use sz(2) in simp)
qed

lemma le_PGROUNDUP: "unat a + 4095 < 2 ^ 32 \<Longrightarrow> a \<le> PGROUNDUP a"
proof -
  assume "unat a + 4095 < 2 ^ 32"
  moreover have "unat a \<le> (unat a + 4095) div 4096 * 4096"
    using div_mult_mod_eq [of "unat a + 4095" 4096]
      mod_less_divisor [of 4096 "unat a + 4095", OF zero_less_numeral] by linarith
  ultimately show ?thesis by (simp add: word_le_nat_alt unat_PGROUNDUP)
qed

lemma not_grown_trans:
  assumes "not_grown pgdir lo hi t u" "\<And>va. \<not> va_in lo hi va \<Longrightarrow> pte_at t pgdir va = pte_at s pgdir va"
  shows "not_grown pgdir lo hi s u"
  using assms by (auto simp: not_grown_def)

lemma va_in_next:
  assumes "pg_aligned a" "unat a < 0x80000000" "a < hi"
  shows "va_in a hi va \<longleftrightarrow> same_page va a \<or> va_in (a + PGSIZE) hi va" "va_in (a + PGSIZE) hi va \<Longrightarrow> \<not> same_page va a"
proof -
  have un: "unat (a + PGSIZE) = unat a + 4096" using assms(2) by (simp add: PGSIZE_def unat_add_no_wrap)
  then have lt: "a < a + PGSIZE" by (simp add: word_less_nat_alt)
  have "same_page va a" if "a \<le> PGROUNDDOWN va" "PGROUNDDOWN va < a + PGSIZE"
    using that assms(1,2) by (intro same_page_of_range) simp_all
  moreover have "same_page va a \<Longrightarrow> PGROUNDDOWN va = a"
    using assms(1) by (simp add: same_page_iff PGROUNDDOWN_aligned)
  ultimately show "va_in a hi va \<longleftrightarrow> same_page va a \<or> va_in (a + PGSIZE) hi va"
    "va_in (a + PGSIZE) hi va \<Longrightarrow> \<not> same_page va a"
    using assms(3) lt by (auto simp: va_in_def intro: leI)
qed

lemma user_zero_same_page: "same_page va a \<Longrightarrow> user_zero s pgdir va \<longleftrightarrow> user_zero s pgdir a"
  by (simp add: user_zero_def pte_at_same_page [of va a])

lemma user_zero_present: "user_zero s pgdir va \<Longrightarrow> pte_at s pgdir va AND PTE_P \<noteq> 0"
proof -
  assume "user_zero s pgdir va"
  then have "bit (PTE_FLAGS (pte_at s pgdir va)) 0"
    unfolding user_zero_def by (simp only: bit_or_iff) (simp add: PTE_P_def)
  then show ?thesis unfolding PTE_P_iff PTE_FLAGS_def by (simp add: bit_and_iff)
qed

lemma user_zero_frame:
  assumes "uvm_ok s pgdir xs" "a \<in> user_vas" "user_zero s pgdir a"
    "agree_off (pt_pages s pgdir xs) s s'" "pte_at s' pgdir a = pte_at s pgdir a"
  shows "user_zero s' pgdir a"
proof -
  have "P2V (PTE_ADDR (pte_at s pgdir a)) \<notin> pt_pages s pgdir xs"
    using uvm_okD(4) [OF assms(1)] upages_member [OF assms(2) user_zero_present [OF assms(3)]] by blast
  then show ?thesis using assms(3-5) by (simp add: user_zero_def agree_off_def)
qed

text \<open>The two ways an iteration goes on: undoing everything, or one page more.\<close>

lemma alloc_undo:
  assumes ok: "uvm_ok s pgdir (x # ys)" and ok2: "uvm_ok s2 pgdir []"
    and pages: "add_mset x (uvm_pages s2 pgdir []) = uvm_pages s pgdir (x # ys)"
    and ag: "agree_off (pt_pages s pgdir (x # ys)) s s2" and pte: "\<And>va. pte_at s2 pgdir va = pte_at s pgdir va"
    and sz: "newsz < KERNBASE" "oldsz < newsz"
  obtains r s3 s4 ws where "deallocuvm pgdir newsz oldsz s2 = Inr (r, s3)" "kfree x s3 = Inr s4"
    "evolves pgdir s (x # ys) s4 ws" "not_grown pgdir (PGROUNDUP oldsz) newsz s s4"
proof -
  obtain r s3 ws where d: "deallocuvm pgdir newsz oldsz s2 = Inr (r, s3)" "evolves pgdir s2 [] s3 ws"
      "not_grown pgdir (PGROUNDUP oldsz) newsz s2 s3"
    by (rule allocuvm_fail [OF ok2 sz])
  have ok3: "uvm_ok s3 pgdir ws" using evolves_ok [OF d(2) ok2] .
  have up: "uvm_pages s3 pgdir ws = uvm_pages s2 pgdir []"
    and ag3: "agree_off (set_mset (uvm_pages s2 pgdir [])) s2 s3"
    using d(2) by (simp_all add: evolves_def)
  have pok: "page_ok s3 x"
    using agree_off_page_ok [OF ag] agree_off_page_ok [OF ag3] zeroed_ok(3) [OF ok] by simp
  have "uniq (uvm_pages s pgdir (x # ys))" using ok by (simp add: uvm_ok_def)
  then have "x \<notin># uvm_pages s3 pgdir ws"
    using uniq_disjoint [of "{#x#}" "uvm_pages s2 pgdir []" x] pages up by simp
  from kfree_floating [OF ok3 pok this] obtain s4 where s4: "kfree x s3 = Inr s4"
    "uvm_pages s4 pgdir (x # ws) = uvm_pages s pgdir (x # ys)" "agree_off {x} s3 s4"
    "free_pages s4 (x # ws)" "\<And>va. pte_at s4 pgdir va = pte_at s3 pgdir va"
    using up pages by metis
  have "agree_off (set_mset (uvm_pages s pgdir (x # ys))) s s4"
  proof (rule agree_off_trans [OF ag agree_off_trans [OF ag3 s4(3) subset_refl]])
    show "pt_pages s pgdir (x # ys) \<union> (set_mset (uvm_pages s2 pgdir []) \<union> {x})
        \<subseteq> set_mset (uvm_pages s pgdir (x # ys))"
      unfolding pages [symmetric] using pages by (auto simp: pt_pages_def uvm_pages_def)
  qed
  then have "evolves pgdir s (x # ys) s4 (x # ws)" using s4(2,4) by (simp add: evolves_def)
  moreover have "not_grown pgdir (PGROUNDUP oldsz) newsz s s4"
    using d(3) s4(5) pte by (simp add: not_grown_def)
  ultimately show ?thesis using that d(1) s4(1) by blast
qed

lemma grown_step:
  assumes ok2: "uvm_ok s2 pgdir zs" and a: "pg_aligned a" "unat a < 0x80000000" "a < newsz" "a \<in> user_vas"
    and ag: "agree_off (pt_pages s pgdir xs) s s2" "pt_pages s2 pgdir zs \<subseteq> pt_pages s pgdir xs"
    and z: "user_zero s2 pgdir a"
    and pte: "\<And>va. \<not> same_page va a \<Longrightarrow> pte_at s2 pgdir va = pte_at s pgdir va"
    and g: "grown pgdir (a + PGSIZE) newsz s2 zs s'"
  shows "grown pgdir a newsz s xs s'"
proof -
  note nx = va_in_next [OF a(1-3)]
  have ag2: "agree_off (pt_pages s2 pgdir zs) s2 s'"
    and gr: "if va_in (a + PGSIZE) newsz va then user_zero s' pgdir va
      else pte_at s' pgdir va = pte_at s2 pgdir va" for va
    using g by (simp_all add: grown_def)
  have "pte_at s' pgdir a = pte_at s2 pgdir a"
    using gr [of a] nx(2) [of a] by (auto split: if_splits)
  then have za: "user_zero s' pgdir a" by (rule user_zero_frame [OF ok2 a(4) z ag2])
  have "if va_in a newsz va then user_zero s' pgdir va else pte_at s' pgdir va = pte_at s pgdir va" for va
    using gr [of va] nx [of va] pte [of va] user_zero_same_page [of va a s' pgdir] za
    by (cases "same_page va a") auto
  moreover have "agree_off (pt_pages s pgdir xs) s s'"
    using ag by (intro agree_off_trans [OF ag(1) ag2]) auto
  ultimately show ?thesis by (simp add: grown_def)
qed

lemma allocuvm_loop_spec:
  assumes "uvm_ok s pgdir xs" "pg_aligned a" "PGROUNDUP oldsz \<le> a" "newsz < KERNBASE" "oldsz \<le> newsz"
    "unat newsz \<le> unat a + fuel * 4096" "va_fresh s pgdir a newsz"
  shows "\<exists>r s' ys. allocuvm_loop fuel pgdir a oldsz newsz s = Inr (r, s') \<and> evolves pgdir s xs s' ys \<and>
    (r = newsz \<and> grown pgdir a newsz s xs s' \<or>
     r = 0 \<and> a < newsz \<and> not_grown pgdir (PGROUNDUP oldsz) newsz s s')"
  using assms
proof (induction fuel arbitrary: s xs a)
  case (0 s xs a)
  then have "\<not> a < newsz" by (simp add: word_less_nat_alt)
  then show ?case
    using evolves_refl [OF uvm_okD(2) [OF "0.prems"(1)]] by (auto simp: grown_def va_in_def)
next
  case (Suc fuel s xs a)
  show ?case
  proof (cases "a < newsz")
    case False
    then show ?thesis
      using evolves_refl [OF uvm_okD(2) [OF Suc.prems(1)]] by (auto simp: grown_def va_in_def)
  next
    case lt: True
    have a: "unat a < 0x80000000" "a \<in> user_vas"
      using Suc.prems(2,4) lt by (simp_all add: word_less_nat_alt KERNBASE_def user_vas_def)
    have np: "pte_at s pgdir a AND PTE_P = 0"
      using Suc.prems(2,7) lt by (simp add: va_fresh_def va_in_def PGROUNDDOWN_aligned)
    have "unat oldsz + 4095 < 2 ^ 32"
      using Suc.prems(4,5) by (simp add: word_less_nat_alt word_le_nat_alt KERNBASE_def)
    from le_PGROUNDUP [OF this] have lt': "oldsz < newsz" using Suc.prems(3) lt by simp
    have next_a: "unat (a + PGSIZE) = unat a + 4096" "pg_aligned (a + PGSIZE)" "PGROUNDUP oldsz \<le> a + PGSIZE"
      using a(1) pg_aligned_add_PGSIZE [OF Suc.prems(2)] unat_add_no_wrap [of a PGSIZE] Suc.prems(3)
      by (simp_all add: PGSIZE_def word_le_nat_alt)
    show ?thesis
    proof (cases xs)
      case Nil
      obtain r s' ys where "deallocuvm pgdir newsz oldsz s = Inr (r, s')" "evolves pgdir s xs s' ys"
          "not_grown pgdir (PGROUNDUP oldsz) newsz s s'"
        by (rule allocuvm_fail [OF Suc.prems(1,4) lt'])
      then show ?thesis using kalloc_empty uvm_okD(2) [OF Suc.prems(1)] Nil lt by auto
    next
      case (Cons x ys)
      note ok = Suc.prems(1) [unfolded Cons]
      note z = zeroed_ok(1,2) [OF ok]
      show ?thesis
        using ok a(2) np
      proof (cases rule: alloc_step)
        case (fail s2)
        obtain r s3 s4 ws where "deallocuvm pgdir newsz oldsz s2 = Inr (r, s3)" "kfree x s3 = Inr s4"
            "evolves pgdir s (x # ys) s4 ws" "not_grown pgdir (PGROUNDUP oldsz) newsz s s4"
          by (rule alloc_undo [OF ok fail(2-5) Suc.prems(4) lt'])
        then show ?thesis using lt z fail(1) Cons by (auto simp: zeroed_def)
      next
        case (good s2 zs)
        have ok2: "uvm_ok s2 pgdir zs" using evolves_ok [OF good(2) ok] .
        have "va_fresh s2 pgdir (a + PGSIZE) newsz"
          using Suc.prems(7) good(6) va_in_next [OF Suc.prems(2) a(1) lt] by (auto simp: va_fresh_def)
        from Suc.IH [OF ok2 next_a(2,3) Suc.prems(4,5) _ this] obtain r s' ws where r:
          "allocuvm_loop fuel pgdir (a + PGSIZE) oldsz newsz s2 = Inr (r, s')" "evolves pgdir s2 zs s' ws"
          "r = newsz \<and> grown pgdir (a + PGSIZE) newsz s2 zs s' \<or>
           r = 0 \<and> a + PGSIZE < newsz \<and> not_grown pgdir (PGROUNDUP oldsz) newsz s2 s'"
          using Suc.prems(6) next_a(1) by auto
        have step: "allocuvm_loop (Suc fuel) pgdir a oldsz newsz s = Inr (r, s')"
          using lt z good(1) r(1) by (simp add: zeroed_def)
        have out: "\<not> same_page va a" if "\<not> va_in (PGROUNDUP oldsz) newsz va" for va
          using that lt Suc.prems(2,3) by (auto simp: same_page_iff va_in_def PGROUNDDOWN_aligned)
        have "grown pgdir (a + PGSIZE) newsz s2 zs s' \<Longrightarrow> grown pgdir a newsz s xs s'"
          using grown_step [OF ok2 Suc.prems(2) a(1) lt a(2) good(3,4) good(5) [OF same_page_refl] good(6)] Cons
          by simp
        moreover have "not_grown pgdir (PGROUNDUP oldsz) newsz s2 s' \<Longrightarrow> not_grown pgdir (PGROUNDUP oldsz) newsz s s'"
          using not_grown_trans good(6) out by blast
        ultimately show ?thesis using r(3) step evolves_trans [OF good(2) r(2)] lt Cons by blast
      qed
    qed
  qed
qed

lemma allocuvm_spec:
  assumes ok: "uvm_ok s pgdir xs" and sz: "newsz < KERNBASE" "oldsz \<le> newsz"
    and fr: "va_fresh s pgdir (PGROUNDUP oldsz) newsz"
  shows "\<exists>r s' ys. allocuvm pgdir oldsz newsz s = Inr (r, s') \<and> evolves pgdir s xs s' ys \<and>
    (r = newsz \<and> grown pgdir (PGROUNDUP oldsz) newsz s xs s' \<or>
     r = 0 \<and> not_grown pgdir (PGROUNDUP oldsz) newsz s s')"
proof -
  have "unat newsz \<le> unat (PGROUNDUP oldsz) + Suc (unat (newsz div PGSIZE)) * 4096"
    using div_mult_mod_eq [of "unat newsz" 4096] mod_less_divisor [of 4096 "unat newsz", OF zero_less_numeral]
    by (simp add: unat_div PGSIZE_def)
  from allocuvm_loop_spec [OF ok pg_aligned_PGROUNDUP order.refl sz this fr]
  have "\<exists>r s' ys. allocuvm_loop (Suc (unat (newsz div PGSIZE))) pgdir (PGROUNDUP oldsz) oldsz newsz s = Inr (r, s') \<and>
     evolves pgdir s xs s' ys \<and> (r = newsz \<and> grown pgdir (PGROUNDUP oldsz) newsz s xs s' \<or>
     r = 0 \<and> not_grown pgdir (PGROUNDUP oldsz) newsz s s')"
    by blast
  moreover have "allocuvm pgdir oldsz newsz s =
      allocuvm_loop (Suc (unat (newsz div PGSIZE))) pgdir (PGROUNDUP oldsz) oldsz newsz s"
    using sz unfolding allocuvm_def by (simp only: not_le [symmetric] not_less if_False) simp
  ultimately show ?thesis by simp
qed

subsection \<open>freevm\<close>

lemma kfree_agree:
  assumes "free_pages s xs" "page_ok s p" "p \<notin> set xs"
  obtains s' where "kfree p s = Inr s'" "free_pages s' (p # xs)" "agree_off {p} s s'"
proof -
  obtain s' where s': "kfree p s = Inr s'" using kfree_Inr [OF assms(2)] by blast
  have "agree_off {p} s s'"
    using kfree_Inr [OF assms(2)] s' page_ok_aligned [OF assms(2)]
    by (auto simp: agree_off_def wr32_other_page0 memset_page)
  then show ?thesis using that s' kfree_push [OF assms s'] by blast
qed

lemma freevm_tables_spec:
  assumes "free_pages s xs" "pg_aligned pgdir" "\<And>i. i \<in> set L \<Longrightarrow> unat i < 1024"
    "T = map (pgtab_at s pgdir) (filter (pd_present s pgdir) L)"
    "distinct (T @ xs)" "pgdir \<notin> set T" "\<And>t. t \<in> set T \<Longrightarrow> page_ok s t"
  shows "\<exists>s'. freevm_tables pgdir L s = Inr s' \<and> free_pages s' (rev T @ xs) \<and> agree_off (set T) s s'"
  using assms
proof (induction L arbitrary: s xs T)
  case (Cons i L)
  show ?case
  proof (cases "pd_present s pgdir i")
    case True
    let ?t = "pgtab_at s pgdir i"
    obtain T' where T: "T = ?t # T'" "T' = map (pgtab_at s pgdir) (filter (pd_present s pgdir) L)"
      using Cons.prems(4) True by simp
    obtain s1 where s1: "kfree ?t s = Inr s1" "free_pages s1 (?t # xs)" "agree_off {?t} s s1"
      using kfree_agree [OF Cons.prems(1), of ?t] Cons.prems(5,7) T by auto
    have "pgtab_at s1 pgdir j = pgtab_at s pgdir j \<and> pd_present s1 pgdir j = pd_present s pgdir j"
      if "j \<in> set L" for j
      using agree_off_pde [OF s1(3) Cons.prems(2)] Cons.prems(3) [of j] that Cons.prems(6) T by auto
    then have "T' = map (pgtab_at s1 pgdir) (filter (pd_present s1 pgdir) L)"
      unfolding T(2) by (intro map_cong filter_cong) auto
    then obtain s' where s': "freevm_tables pgdir L s1 = Inr s'" "free_pages s' (rev T' @ ?t # xs)"
        "agree_off (set T') s1 s'"
      using Cons.IH [OF s1(2) Cons.prems(2) _ _ _ _, of T'] Cons.prems(3,5-7) T(1) agree_off_page_ok [OF s1(3)]
      by auto
    have "agree_off (set T) s s'" using T(1) by (intro agree_off_trans [OF s1(3) s'(3)]) auto
    then show ?thesis
      using s' s1(1) True T(1) by (auto simp: pd_present_def pde_at_def pgtab_at_def)
  next
    case False
    then show ?thesis
      using Cons by (auto simp: pd_present_def pde_at_def)
  qed
qed simp

lemma upages_empty: "(\<And>va. va \<in> user_vas \<Longrightarrow> pte_at s pgdir va AND PTE_P = 0) \<Longrightarrow> upages s pgdir = {#}"
  unfolding upages_def by (simp add: mset_set_empty_iff)

lemma freevm_spec:
  assumes ok: "uvm_ok s pgdir xs"
  shows "\<exists>s' ys. freevm pgdir s = Inr s' \<and> free_pages s' ys \<and> mset ys = uvm_pages s pgdir xs \<and>
    agree_off (set_mset (uvm_pages s pgdir xs)) s s'"
proof -
  have nz: "pgdir \<noteq> 0" using page_ok_nonzero pt_okD(2) [OF uvm_okD(1) [OF ok]] by blast
  obtain s1 ys where d: "deallocuvm pgdir KERNBASE 0 s = Inr (0, s1)" "evolves pgdir s xs s1 ys"
      "unmapped pgdir (PGROUNDUP 0) KERNBASE s s1"
    using deallocuvm_spec [OF ok order.refl, of 0] by (auto simp: KERNBASE_def)
  have ok1: "uvm_ok s1 pgdir ys" using evolves_ok [OF d(2) ok] .
  note pt = uvm_okD(1) [OF ok1]
  have "pte_at s1 pgdir va AND PTE_P = 0" if "va \<in> user_vas" for va
    using d(3) that by (simp add: unmapped_def va_in_def user_vas_def PGROUNDDOWN_aligned PGROUNDUP_def PGSIZE_def)
  then have "upages s1 pgdir = {#}" by (rule upages_empty)
  then have pages: "mset (pgdir # tables s1 pgdir @ ys) = uvm_pages s pgdir xs"
    using d(2) by (simp add: evolves_def uvm_pages_def)
  obtain s2 where s2: "freevm_tables pgdir dir_indices s1 = Inr s2" "free_pages s2 (rev (tables s1 pgdir) @ ys)"
      "agree_off (set (tables s1 pgdir)) s1 s2"
    using freevm_tables_spec [OF pt_okD(1,3) [OF pt], of dir_indices "tables s1 pgdir"] pt
    by (auto simp: pt_ok_def tables_def dir_indices_mem)
  obtain s3 where s3: "kfree pgdir s2 = Inr s3" "free_pages s3 (pgdir # rev (tables s1 pgdir) @ ys)"
      "agree_off {pgdir} s2 s3"
    using kfree_agree [OF s2(2), of pgdir] pt agree_off_page_ok [OF s2(3)] by (auto simp: pt_ok_def)
  have "agree_off (set_mset (uvm_pages s pgdir xs)) s s3"
  proof (rule agree_off_trans [OF _ agree_off_trans [OF s2(3) s3(3) subset_refl]])
    show "agree_off (set_mset (uvm_pages s pgdir xs)) s s1" using d(2) by (simp add: evolves_def)
  qed (use pages [symmetric] in auto)
  moreover have "freevm pgdir s = Inr s3"
    using nz d(1) s2(1) s3(1) by (simp add: freevm_def dir_indices_def NPDENTRIES_def)
  ultimately show ?thesis using s3(2) pages by (intro exI [of _ s3]) auto
qed

section \<open>The kernel mapping\<close>

text \<open>
  \<open>in_kmap k va\<close>: the page of \<open>va\<close> is in the range of the table entry \<open>k\<close>, and
  \<open>kmap_pte\<close> the page-table entry the table asks for there.
\<close>

definition kmap_size :: "kmap \<Rightarrow> u32" where
  "kmap_size k = phys_end k - phys_start k"

definition in_kmap :: "kmap \<Rightarrow> u32 \<Rightarrow> bool" where
  "in_kmap k va \<longleftrightarrow> unat (virt k) \<le> unat (PGROUNDDOWN va) \<and>
     unat (PGROUNDDOWN va) < unat (virt k) + unat (kmap_size k)"

definition kmap_pte :: "kmap \<Rightarrow> u32 \<Rightarrow> u32" where
  "kmap_pte k va = ((phys_start k + (PGROUNDDOWN va - virt k)) OR kperm k OR PTE_P)"

definition kmap_ok :: "kmap \<Rightarrow> bool" where
  "kmap_ok k \<longleftrightarrow> pg_aligned (virt k) \<and> 0 < unat (kmap_size k) \<and>
     unat (virt k) + unat (kmap_size k) \<le> 2 ^ 32 \<and> KERNBASE \<le> virt k"

lemma in_kmap_seq:
  assumes "kmap_ok k"
  shows "in_kmap k va \<longleftrightarrow> (\<exists>i\<le>page_span (virt k) (kmap_size k). same_page va (page_seq (virt k) i))"
    "same_page va (page_seq (virt k) i) \<Longrightarrow> (page_seq (phys_start k) i OR kperm k OR PTE_P) = kmap_pte k va"
proof -
  let ?v = "virt k" and ?n = "page_span (virt k) (kmap_size k)" and ?z = "unat (kmap_size k)"
  have k: "pg_aligned ?v" "0 < ?z" "unat ?v + ?z \<le> 2 ^ 32" using assms by (auto simp: kmap_ok_def)
  have "4096 dvd unat ?v" using k(1) by (auto simp: pg_aligned_iff_mod)
  then obtain c where c: "unat ?v = 4096 * c" ..
  have n: "c + ?n = (4096 * c + ?z - 1) div 4096"
    using c k(2) div_le_mono [of "4096 * c" "4096 * c + ?z - 1" 4096] by (simp add: page_span_def)
  have seq: "same_page va (page_seq ?v i) \<longleftrightarrow> PGROUNDDOWN va = page_seq ?v i" for i
    using k(1) by (simp add: same_page_iff PGROUNDDOWN_aligned)
  have un: "unat (page_seq ?v i) = (c + i) * 4096" if "i \<le> ?n" for i
  proof -
    have "(c + i) * 4096 \<le> (c + ?n) * 4096" using that by simp
    also have "\<dots> \<le> 4096 * c + ?z - 1" unfolding n by simp
    also have "\<dots> < 2 ^ 32" using k(2,3) c by simp
    finally show ?thesis using unat_page_seq [of ?v i] c by simp
  qed
  show "in_kmap k va \<longleftrightarrow> (\<exists>i\<le>?n. same_page va (page_seq ?v i))"
  proof
    assume "in_kmap k va"
    then have d: "c \<le> unat va div 4096" "unat va div 4096 * 4096 < 4096 * c + ?z"
      using c by (simp_all add: in_kmap_def PGROUNDDOWN_mult)
    then have "unat va div 4096 * 4096 div 4096 \<le> (4096 * c + ?z - 1) div 4096"
      by (intro div_le_mono) simp
    then have i: "unat va div 4096 - c \<le> ?n" using n d(1) by simp
    then have "PGROUNDDOWN va = page_seq ?v (unat va div 4096 - c)"
      using un d(1) by (simp add: word_unat_eq_iff PGROUNDDOWN_mult)
    then show "\<exists>i\<le>?n. same_page va (page_seq ?v i)" using i seq by blast
  next
    assume "\<exists>i\<le>?n. same_page va (page_seq ?v i)"
    then obtain i where i: "i \<le> ?n" "PGROUNDDOWN va = page_seq ?v i" using seq by blast
    have "(c + i) * 4096 \<le> (c + ?n) * 4096" using i(1) by simp
    also have "\<dots> \<le> 4096 * c + ?z - 1" unfolding n by simp
    finally show "in_kmap k va" using un [OF i(1)] i(2) c k(2) by (simp add: in_kmap_def)
  qed
  assume "same_page va (page_seq ?v i)"
  then show "(page_seq (phys_start k) i OR kperm k OR PTE_P) = kmap_pte k va"
    unfolding seq by (simp add: kmap_pte_def page_seq_def)
qed

definition kmapped :: "u32 \<Rightarrow> kmap list \<Rightarrow> kmem \<Rightarrow> kmem \<Rightarrow> bool" where
  "kmapped pgdir ks s s' \<longleftrightarrow>
     (\<forall>va. (\<forall>k\<in>set ks. in_kmap k va \<longrightarrow> pte_at s' pgdir va = kmap_pte k va) \<and>
           ((\<forall>k\<in>set ks. \<not> in_kmap k va) \<longrightarrow> pte_at s' pgdir va = pte_at s pgdir va))"

lemma tables_length: "length (tables s pgdir) \<le> 1024"
  using length_filter_le [of "pd_present s pgdir" dir_indices] by (simp add: tables_def dir_indices_def)

lemma pt_conserve_length:
  assumes "pt_conserve s pgdir xs s' ys"
  shows "length ys + length (tables s' pgdir) = length xs + length (tables s pgdir)"
proof -
  have "size (mset ys + mset (tables s' pgdir)) = size (mset xs + mset (tables s pgdir))"
    using assms by (simp add: pt_conserve_def)
  then show ?thesis by simp
qed

text \<open>One entry of the table.\<close>

lemma kmap_step:
  assumes ok: "uvm_ok s pgdir xs" and k: "kmap_ok k"
    and fr: "\<And>va. in_kmap k va \<Longrightarrow> pte_at s pgdir va AND PTE_P = 0"
  obtains r s' ys where "mappages pgdir (virt k) (kmap_size k) (phys_start k) (kperm k) s = Inr (r, s')"
    "evolves pgdir s xs s' ys" "upages s' pgdir = upages s pgdir"
    "r = -1 \<and> length xs + length (tables s pgdir) \<le> 1024 \<or> r = 0 \<and> kmapped pgdir [k] s s'"
proof -
  let ?n = "page_span (virt k) (kmap_size k)"
  have k': "pg_aligned (virt k)" "0 < unat (kmap_size k)" "unat (virt k) + unat (kmap_size k) \<le> 2 ^ 32"
    using k by (auto simp: kmap_ok_def)
  note seq = in_kmap_seq [OF k]
  have "pte_at s pgdir (page_seq (virt k) i) AND PTE_P = 0" if "i \<le> ?n" for i
    using fr seq(1) that same_page_refl by blast
  then obtain r s' ys j where m: "mappages pgdir (virt k) (kmap_size k) (phys_start k) (kperm k) s = Inr (r, s')"
      "pt_ok s' pgdir ys" "agree_off (pt_pages s pgdir xs) s s'" "pt_conserve s pgdir xs s' ys"
      "mapped pgdir (virt k) (phys_start k) (kperm k) j s s'" "j \<le> Suc ?n"
      "r = 0 \<and> j = Suc ?n \<or> r = -1 \<and> ys = []"
    using mappages_spec [OF uvm_okD(1) [OF ok] k'(2,3), of "phys_start k" "kperm k"]
    unfolding PGROUNDDOWN_aligned [OF k'(1)] by (metis le_Suc_eq order_refl)
  have "pte_at s' pgdir va = pte_at s pgdir va" if va: "va \<in> user_vas" for va
  proof -
    have "\<not> in_kmap k va"
      using va k by (simp add: user_vas_def in_kmap_def kmap_ok_def PGROUNDDOWN_aligned word_le_nat_alt word_less_nat_alt)
    then show ?thesis using m(5,6) seq(1) [of va] by (auto simp: mapped_def)
  qed
  then have up: "upages s' pgdir = upages s pgdir" by (rule upages_cong)
  have "uvm_pages s' pgdir ys = uvm_pages s pgdir xs"
    using m(4) up by (simp add: uvm_pages_def pt_conserve_def ac_simps)
  moreover have "agree_off (set_mset (uvm_pages s pgdir xs)) s s'"
    by (rule agree_off_mono [OF m(3)]) (auto simp: pt_pages_def uvm_pages_def)
  ultimately have ev: "evolves pgdir s xs s' ys" using pt_okD(1) [OF m(2)] by (simp add: evolves_def)
  have "kmapped pgdir [k] s s'" if j: "j = Suc ?n"
  proof -
    have "pte_at s' pgdir va = kmap_pte k va" if i: "i \<le> ?n" "same_page va (page_seq (virt k) i)" for va i
      using m(5) j i seq(2) [OF i(2)] pte_at_same_page [OF i(2), of s' pgdir] by (simp add: mapped_def)
    then show ?thesis using m(5) j seq(1) by (auto simp: kmapped_def mapped_def)
  qed
  moreover have "length xs + length (tables s pgdir) \<le> 1024" if "ys = []"
    using pt_conserve_length [OF m(4)] tables_length [of s' pgdir] that by simp
  ultimately show ?thesis using that m(1,7) ev up by blast
qed

fun kmaps_disjoint :: "kmap list \<Rightarrow> bool" where
  "kmaps_disjoint [] \<longleftrightarrow> True"
| "kmaps_disjoint (k # ks) \<longleftrightarrow>
     (\<forall>k'\<in>set ks. unat (virt k) + unat (kmap_size k) \<le> unat (virt k')) \<and> kmaps_disjoint ks"

lemma kmapped_Cons:
  assumes "kmapped pgdir [k] s t" "kmapped pgdir ks t u"
    "\<And>k' va. k' \<in> set ks \<Longrightarrow> in_kmap k va \<Longrightarrow> \<not> in_kmap k' va"
  shows "kmapped pgdir (k # ks) s u"
  using assms by (auto simp: kmapped_def)

lemma setupkvm_loop_spec:
  assumes "uvm_ok s pgdir xs" "upages s pgdir = {#}" "\<And>k. k \<in> set ks \<Longrightarrow> kmap_ok k" "kmaps_disjoint ks"
    "\<And>k va. k \<in> set ks \<Longrightarrow> in_kmap k va \<Longrightarrow> pte_at s pgdir va AND PTE_P = 0"
  shows "\<exists>r s' ys. setupkvm_loop pgdir ks s = Inr (r, s') \<and>
    (r = pgdir \<and> evolves pgdir s xs s' ys \<and> upages s' pgdir = {#} \<and> kmapped pgdir ks s s' \<or>
     r = 0 \<and> free_pages s' ys \<and> mset ys = uvm_pages s pgdir xs \<and>
       length xs + length (tables s pgdir) \<le> 1024 \<and> agree_off (set_mset (uvm_pages s pgdir xs)) s s')"
  using assms
proof (induction ks arbitrary: s xs)
  case Nil
  then show ?case using evolves_refl [OF uvm_okD(2) [OF Nil.prems(1)]] by (auto simp: kmapped_def)
next
  case (Cons k ks)
  have kk: "k \<in> set (k # ks)" by simp
  obtain r s1 ys where m: "mappages pgdir (virt k) (kmap_size k) (phys_start k) (kperm k) s = Inr (r, s1)"
      "evolves pgdir s xs s1 ys" "upages s1 pgdir = {#}"
      "r = -1 \<and> length xs + length (tables s pgdir) \<le> 1024 \<or> r = 0 \<and> kmapped pgdir [k] s s1"
    using kmap_step [OF Cons.prems(1) Cons.prems(3,5) [OF kk]] Cons.prems(2) by metis
  have ok1: "uvm_ok s1 pgdir ys" using evolves_ok [OF m(2) Cons.prems(1)] .
  have up: "uvm_pages s1 pgdir ys = uvm_pages s pgdir xs"
    and ag: "agree_off (set_mset (uvm_pages s pgdir xs)) s s1" using m(2) by (simp_all add: evolves_def)
  have "size (uvm_pages s1 pgdir ys) = size (uvm_pages s pgdir xs)" using up by simp
  then have len: "length ys + length (tables s1 pgdir) = length xs + length (tables s pgdir)"
    using m(3) Cons.prems(2) by (simp add: uvm_pages_def)
  show ?case
  proof (cases "r = -1")
    case True
    obtain s2 zs where "freevm pgdir s1 = Inr s2" "free_pages s2 zs" "mset zs = uvm_pages s pgdir xs"
        "agree_off (set_mset (uvm_pages s pgdir xs)) s1 s2"
      using freevm_spec [OF ok1] up by auto
    then show ?thesis using m(1,4) True agree_off_trans [OF ag]
      by (auto simp: kmap_size_def [symmetric] intro!: exI [of _ zs])
  next
    case False
    then have r: "r = 0" "kmapped pgdir [k] s s1" using m(4) by auto
    have disj: "\<not> in_kmap k' va" if "k' \<in> set ks" "in_kmap k va" for k' va
      using Cons.prems(4) that by (auto simp: in_kmap_def)
    have "pte_at s1 pgdir va AND PTE_P = 0" if "k' \<in> set ks" "in_kmap k' va" for k' va
    proof -
      have "\<not> in_kmap k va" using disj that by blast
      then show ?thesis using r(2) that Cons.prems(5) [of k' va] by (simp add: kmapped_def)
    qed
    then obtain q s' zs where "setupkvm_loop pgdir ks s1 = Inr (q, s')"
      and q: "q = pgdir \<and> evolves pgdir s1 ys s' zs \<and> upages s' pgdir = {#} \<and> kmapped pgdir ks s1 s' \<or>
        q = 0 \<and> free_pages s' zs \<and> mset zs = uvm_pages s pgdir xs \<and>
          length xs + length (tables s pgdir) \<le> 1024 \<and> agree_off (set_mset (uvm_pages s pgdir xs)) s1 s'"
      using Cons.IH [OF ok1 m(3)] Cons.prems(3,4) up len by fastforce
    then have step: "setupkvm_loop pgdir (k # ks) s = Inr (q, s')"
      using m(1) r(1) by (simp add: kmap_size_def)
    from q show ?thesis
      using step evolves_trans [OF m(2)] kmapped_Cons [OF r(2) _ disj] agree_off_trans [OF ag] by blast
  qed
qed

text \<open>
  The layout of a kernel image linked by \<^verbatim>\<open>kernel.ld\<close>: \<^verbatim>\<open>data\<close> starts a page above the link
  address, \<^verbatim>\<open>end\<close> follows it and both lie in physical memory.
\<close>

definition kernel_layout :: "kmem \<Rightarrow> bool" where
  "kernel_layout s \<longleftrightarrow> pg_aligned (kern_data s) \<and> KERNLINK < kern_data s \<and>
     kern_data s \<le> kern_end s \<and> kern_end s < P2V PHYSTOP"

lemma kmap_table_ok:
  assumes "kernel_layout s"
  shows "\<And>k. k \<in> set (kmap_table s) \<Longrightarrow> kmap_ok k" "kmaps_disjoint (kmap_table s)"
proof -
  have d: "pg_aligned (kern_data s)" "0x80100000 < unat (kern_data s)" "unat (kern_data s) < 0x8E000000"
    using assms by (auto simp: kernel_layout_def KERNLINK_def KERNBASE_def EXTMEM_def P2V_def PHYSTOP_def
        word_less_nat_alt word_le_nat_alt)
  have v: "unat (kern_data s - 0x80000000) = unat (kern_data s) - 0x80000000"
    using d by (subst unat_sub) (simp_all add: word_le_nat_alt)
  have z1: "unat (kern_data s - 0x80000000 - 0x100000) = unat (kern_data s) - 0x80100000"
    using d v by (subst unat_sub) (simp_all add: word_le_nat_alt)
  have z2: "unat (0xE000000 - (kern_data s - 0x80000000)) = 0x8E000000 - unat (kern_data s)"
    using d v by (subst unat_sub) (simp_all add: word_le_nat_alt)
  have al: "pg_aligned 0x80000000" "pg_aligned 0x80100000" "pg_aligned 0xFE000000"
    by (simp_all add: pg_aligned_def)
  note defs = kmap_table_def kmap_ok_def kmap_size_def V2P_def layout_defs
  show "kmap_ok k" if "k \<in> set (kmap_table s)" for k
    using that d z1 z2 al by (auto simp: defs word_le_nat_alt)
  show "kmaps_disjoint (kmap_table s)"
    using d z1 z2 by (auto simp: defs)
qed

lemma kmap_table_frame: "kern_data s' = kern_data s \<Longrightarrow> kmap_table s' = kmap_table s"
  by (simp add: kmap_table_def)

lemma pte_at_zero_dir: "\<not> pd_present s pgdir (PDX va) \<Longrightarrow> pte_at s pgdir va = 0"
  by (simp add: pte_at_def)

lemma zeroed_dir:
  assumes fp: "free_pages s (x # ys)" and ke: "KERNBASE < kern_end s"
  shows "kalloc s = (x, s\<lparr>freelist := rd32 (pmem s) x\<rparr>)" "x \<noteq> 0" "uvm_ok (zeroed s x) x ys"
    "uvm_pages (zeroed s x) x ys = mset (x # ys)" "upages (zeroed s x) x = {#}"
    "pte_at (zeroed s x) x va = 0" "agree_off {x} s (zeroed s x)"
proof -
  have x: "page_ok s x" "pg_aligned x" "x \<noteq> 0" "x \<notin> set ys"
    using fp page_ok_nonzero by (auto simp: free_pages_def page_ok_def)
  then show "x \<noteq> 0" by blast
  show "kalloc s = (x, s\<lparr>freelist := rd32 (pmem s) x\<rparr>)" using kalloc_pop(1) [OF fp] .
  show ag: "agree_off {x} s (zeroed s x)"
    using x(2) by (auto simp: agree_off_def zeroed_def memset_page)
  have "pde_at (zeroed s x) x d = 0" if "unat d < 1024" for d
    using that x(2) by (simp add: pde_at_def zeroed_def rd32_zero_page)
  then have np: "\<not> pd_present (zeroed s x) x d" if "unat d < 1024" for d
    using that by (simp add: pd_present_def)
  then show pte: "pte_at (zeroed s x) x va = 0" for va by (simp add: pte_at_zero_dir)
  show up: "upages (zeroed s x) x = {#}" using pte by (intro upages_empty) simp
  have "tables (zeroed s x) x = []"
    using np by (simp add: tables_def filter_empty_conv dir_indices_mem)
  then show pages: "uvm_pages (zeroed s x) x ys = mset (x # ys)" using up by (simp add: uvm_pages_def)
  have "free_pages (zeroed s x) ys"
  proof (rule agree_off_free_pages)
    show "agree_off {x} (s\<lparr>freelist := rd32 (pmem s) x\<rparr>) (zeroed s x)"
      using ag by (simp add: agree_off_def)
    show "free_pages (s\<lparr>freelist := rd32 (pmem s) x\<rparr>) ys" using kalloc_pop(2) [OF fp] .
  qed (use x(4) in \<open>simp_all add: zeroed_def\<close>)
  then show "uvm_ok (zeroed s x) x ys"
    using fp ke pages unfolding uvm_ok_def pages uniq_mset
    by (auto simp: free_pages_def agree_off_page_ok [OF ag]) (simp add: zeroed_def)
qed

lemma setupkvm_spec:
  assumes fp: "free_pages s xs" and lay: "kernel_layout s"
  shows "\<exists>r s' ys. setupkvm s = Inr (r, s') \<and>
    (r = 0 \<and> free_pages s' ys \<and> mset ys = mset xs \<and> length xs \<le> 1025 \<or>
     r \<noteq> 0 \<and> uvm_ok s' r ys \<and> uvm_pages s' r ys = mset xs \<and> upages s' r = {#} \<and>
     (\<forall>va. (\<forall>k\<in>set (kmap_table s). in_kmap k va \<longrightarrow> pte_at s' r va = kmap_pte k va) \<and>
       ((\<forall>k\<in>set (kmap_table s). \<not> in_kmap k va) \<longrightarrow> pte_at s' r va = 0))) \<and>
    agree_off (set xs) s s'"
proof (cases xs)
  case Nil
  then show ?thesis using fp by (auto simp: setupkvm_def kalloc_empty)
next
  case (Cons x ys)
  have "KERNBASE < KERNLINK" by (simp add: KERNLINK_def KERNBASE_def EXTMEM_def)
  then have ke: "KERNBASE < kern_end s" using lay by (auto simp: kernel_layout_def)
  note z = zeroed_dir [OF fp [unfolded Cons] ke]
  have kt: "kmap_table (zeroed s x) = kmap_table s" by (simp add: kmap_table_def zeroed_def)
  have "\<not> DEVSPACE < P2V PHYSTOP" by (simp add: DEVSPACE_def P2V_def PHYSTOP_def KERNBASE_def)
  then have run: "setupkvm s = setupkvm_loop x (kmap_table s) (zeroed s x)"
    using z(1,2) kt by (simp add: setupkvm_def zeroed_def)
  obtain r s' zs where l: "setupkvm_loop x (kmap_table s) (zeroed s x) = Inr (r, s')"
    and r: "r = x \<and> evolves x (zeroed s x) ys s' zs \<and> upages s' x = {#} \<and> kmapped x (kmap_table s) (zeroed s x) s' \<or>
     r = 0 \<and> free_pages s' zs \<and> mset zs = mset (x # ys) \<and> length ys \<le> 1024 \<and>
       agree_off (set_mset (mset (x # ys))) (zeroed s x) s'"
    using setupkvm_loop_spec [OF z(3,5) kmap_table_ok [OF lay]] z(4,6) by fastforce
  have sub: "{x} \<union> set_mset (mset (x # ys)) \<subseteq> set xs" by (simp add: Cons)
  from r show ?thesis
  proof
    assume a: "r = x \<and> evolves x (zeroed s x) ys s' zs \<and> upages s' x = {#} \<and> kmapped x (kmap_table s) (zeroed s x) s'"
    then have "agree_off (set xs) s s'"
      using agree_off_trans [OF z(7) _ sub] z(4) by (simp add: evolves_def)
    moreover have "uvm_ok s' x zs" "uvm_pages s' x zs = mset xs"
      using a evolves_ok [OF _ z(3)] z(4) Cons by (auto simp: evolves_def)
    ultimately show ?thesis
      using a run l z(2,6) by (auto simp: kmapped_def)
  next
    assume a: "r = 0 \<and> free_pages s' zs \<and> mset zs = mset (x # ys) \<and> length ys \<le> 1024 \<and> agree_off (set_mset (mset (x # ys))) (zeroed s x) s'"
    then have "agree_off (set xs) s s'" using agree_off_trans [OF z(7) _ sub] by blast
    then show ?thesis using a run l Cons by auto
  qed
qed

section \<open>Sharing pages: forkuvm\<close>

text \<open>The entry \<^verbatim>\<open>forkuvm\<close> gives the child for a page of the parent: the same page, not writable.\<close>

definition shared_pte :: "u32 \<Rightarrow> u32" where
  "shared_pte e = (PTE_ADDR e OR (PTE_FLAGS e AND NOT PTE_W) OR PTE_P)"

lemma mappages_page_enough:
  assumes "pt_ok s pgdir xs" "pg_aligned a" "pte_at s pgdir a AND PTE_P = 0"
    "1024 < length xs + length (tables s pgdir)"
  obtains s' ys where "mappages pgdir a PGSIZE pa perm s = Inr (0, s')"
      "pt_ok s' pgdir ys" "agree_off (pt_pages s pgdir xs) s s'" "pt_conserve s pgdir xs s' ys"
      "\<And>va. pte_at s' pgdir va = (if same_page va a then pa OR perm OR PTE_P else pte_at s pgdir va)"
  using assms(1-3)
proof (cases rule: mappages_page [where pa = pa and perm = perm])
  case (full s')
  then show ?thesis
    using pt_conserve_length [OF full(4)] tables_length [of s' pgdir] assms(4) by simp
next
  case (ok s' ys)
  then show ?thesis by (rule that)
qed

definition forked :: "u32 \<Rightarrow> u32 \<Rightarrow> u32 \<Rightarrow> u32 \<Rightarrow> kmem \<Rightarrow> kmem \<Rightarrow> bool" where
  "forked pgdir d lo sz s s' \<longleftrightarrow>
     (\<forall>va. pte_at s' d va = (if va_in lo sz va then shared_pte (pte_at s pgdir va) else pte_at s d va))"

lemma forkuvm_loop_spec:
  assumes "pt_ok s d xs" "pg_aligned pgdir" "pgdir \<notin> pt_pages s d xs" "set (tables s pgdir) \<inter> pt_pages s d xs = {}"
    "\<And>t. t \<in> set (tables s pgdir) \<Longrightarrow> page_ok s t"
    "pg_aligned i" "sz \<le> KERNBASE" "unat sz \<le> unat i + fuel * 4096" "va_fresh s d i sz"
    "\<And>va. va_in i sz va \<Longrightarrow> pte_at s pgdir va AND PTE_P \<noteq> 0" "1024 < length xs + length (tables s d)"
  shows "\<exists>s' ys. forkuvm_loop fuel pgdir d i sz s = Inr (d, s') \<and> pt_ok s' d ys \<and>
    agree_off (pt_pages s d xs) s s' \<and> pt_conserve s d xs s' ys \<and> forked pgdir d i sz s s'"
  using assms
proof (induction fuel arbitrary: s xs i)
  case (0 s xs i)
  then have "\<not> i < sz" by (simp add: word_less_nat_alt)
  then show ?case using "0.prems"(1) by (auto simp: forked_def va_in_def)
next
  case (Suc fuel s xs i)
  show ?case
  proof (cases "i < sz")
    case False
    then show ?thesis using Suc.prems(1) by (auto simp: forked_def va_in_def)
  next
    case lt: True
    have i: "unat i < 0x80000000"
      using Suc.prems(7) lt by (simp add: word_less_nat_alt word_le_nat_alt KERNBASE_def)
    have in_i: "va_in i sz i" using lt Suc.prems(6) by (simp add: va_in_def PGROUNDDOWN_aligned)
    note pr = Suc.prems(10) [OF in_i] and nx = va_in_next [OF Suc.prems(6) i lt]
    have pd: "pd_present s pgdir (PDX i)" using pte_present_table [OF pr] .
    have nz: "pgtab_at s pgdir (PDX i) + 4 * PTX i \<noteq> 0"
      using Suc.prems(5) [OF pgtab_mem_tables [OF pd]] slot_nonzero by simp
    have e: "rd32 (pmem s) (pgtab_at s pgdir (PDX i) + 4 * PTX i) = pte_at s pgdir i"
      using pd by (simp add: pte_at_def)
    let ?e = "pte_at s pgdir i"
    have np: "pte_at s d i AND PTE_P = 0" using Suc.prems(9) in_i by (simp add: va_fresh_def)
    obtain s1 ys where m:
      "mappages d i PGSIZE (PTE_ADDR ?e) (PTE_FLAGS ?e AND NOT PTE_W) s = Inr (0, s1)"
      "pt_ok s1 d ys" "agree_off (pt_pages s d xs) s s1" "pt_conserve s d xs s1 ys"
      "\<And>va. pte_at s1 d va = (if same_page va i then shared_pte ?e else pte_at s d va)"
      by (rule mappages_page_enough [OF Suc.prems(1,6) np Suc.prems(11),
            of "PTE_ADDR ?e" "PTE_FLAGS ?e AND NOT PTE_W"]) (auto simp: shared_pte_def)
    note pp = pt_conserve_pages [OF m(4)]
    have parent: "pte_at s1 pgdir va = pte_at s pgdir va" for va
      using agree_off_pte [OF m(3) Suc.prems(2-4)] .
    have tb: "tables s1 pgdir = tables s pgdir" using agree_off_tables [OF m(3) Suc.prems(2,3)] .
    have "\<exists>s' zs. forkuvm_loop fuel pgdir d (i + PGSIZE) sz s1 = Inr (d, s') \<and> pt_ok s' d zs \<and>
        agree_off (pt_pages s1 d ys) s1 s' \<and> pt_conserve s1 d ys s' zs \<and> forked pgdir d (i + PGSIZE) sz s1 s'"
    proof (rule Suc.IH [OF m(2) Suc.prems(2)])
      show "unat sz \<le> unat (i + PGSIZE) + fuel * 4096"
        using Suc.prems(8) i unat_add_no_wrap [of i PGSIZE] by (simp add: PGSIZE_def)
      show "va_fresh s1 d (i + PGSIZE) sz" using Suc.prems(9) nx m(5) by (auto simp: va_fresh_def)
      show "1024 < length ys + length (tables s1 d)"
        using Suc.prems(11) pt_conserve_length [OF m(4)] by simp
      show "page_ok s1 t" if "t \<in> set (tables s1 pgdir)" for t
        using Suc.prems(5) that tb agree_off_page_ok [OF m(3)] by simp
    qed (use Suc.prems pp tb parent nx pg_aligned_add_PGSIZE in auto)
    then obtain s' zs where s': "forkuvm_loop fuel pgdir d (i + PGSIZE) sz s1 = Inr (d, s')" "pt_ok s' d zs"
      "agree_off (pt_pages s1 d ys) s1 s'" "pt_conserve s1 d ys s' zs" "forked pgdir d (i + PGSIZE) sz s1 s'"
      by blast
    have "forked pgdir d i sz s s'"
      unfolding forked_def
    proof
      fix va
      show "pte_at s' d va = (if va_in i sz va then shared_pte (pte_at s pgdir va) else pte_at s d va)"
        using s'(5) [unfolded forked_def, THEN spec, of va] nx [of va] m(5) [of va] parent [of va]
          pte_at_same_page [of va i s pgdir] by (cases "same_page va i") auto
    qed
    moreover have "forkuvm_loop (Suc fuel) pgdir d i sz s = Inr (d, s')"
      using lt walkpgdir_present [OF pd, of False] nz e pr m(1) s'(1) by simp
    ultimately show ?thesis
      using s'(2) agree_off_trans [OF m(3) s'(3)] pp pt_conserve_trans [OF m(4) s'(4)] by auto
  qed
qed

lemma forkuvm_spec:
  assumes ok: "uvm_ok s pgdir xs" and lay: "kernel_layout s" and mem: "1025 < length xs" and sz: "sz \<le> KERNBASE"
    and pr: "\<And>va. va_in 0 sz va \<Longrightarrow> pte_at s pgdir va AND PTE_P \<noteq> 0"
  shows "\<exists>d s' ys. forkuvm pgdir sz s = Inr (d, s') \<and> d \<noteq> 0 \<and> pt_ok s' d ys \<and> set ys \<subseteq> set xs \<and>
    pt_pages s' d ys = set xs \<and> agree_off (set xs) s s' \<and>
    (\<forall>va. va_in 0 sz va \<longrightarrow> pte_at s' d va = shared_pte (pte_at s pgdir va))"
proof -
  obtain d s1 ys where k: "setupkvm s = Inr (d, s1)" "d \<noteq> 0" "uvm_ok s1 d ys" "uvm_pages s1 d ys = mset xs"
      "upages s1 d = {#}" "agree_off (set xs) s s1"
    and kz: "\<And>va. (\<forall>k\<in>set (kmap_table s). \<not> in_kmap k va) \<Longrightarrow> pte_at s1 d va = 0"
    using setupkvm_spec [OF uvm_okD(2) [OF ok] lay] mem by auto
  have "set_mset (uvm_pages s1 d ys) = set xs" using k(4) by simp
  then have pp: "pt_pages s1 d ys = set xs" using k(5) by (auto simp: pt_pages_def uvm_pages_def)
  have par: "pgdir \<notin> set xs" "set (tables s pgdir) \<inter> set xs = {}" "pg_aligned pgdir"
    "\<And>t. t \<in> set (tables s pgdir) \<Longrightarrow> page_ok s t"
    using uvm_okD(1) [OF ok] by (auto simp: pt_ok_def page_ok_def)
  have tb: "tables s1 pgdir = tables s pgdir" using agree_off_tables [OF k(6) par(3,1)] .
  have pte: "pte_at s1 pgdir va = pte_at s pgdir va" for va using agree_off_pte [OF k(6) par(3,1,2)] .
  have "size (uvm_pages s1 d ys) = length xs" using k(4) by simp
  then have len: "1024 < length ys + length (tables s1 d)" using mem k(5) by (simp add: uvm_pages_def)
  have "va_fresh s1 d 0 sz"
    unfolding va_fresh_def
  proof (intro allI impI)
    fix va assume "va_in 0 sz va"
    then have "unat (PGROUNDDOWN va) < unat KERNBASE"
      using sz by (simp add: va_in_def word_less_nat_alt word_le_nat_alt)
    then have "\<forall>k\<in>set (kmap_table s). \<not> in_kmap k va"
      using kmap_table_ok(1) [OF lay] by (fastforce simp: in_kmap_def kmap_ok_def word_le_nat_alt)
    then show "pte_at s1 d va AND PTE_P = 0" using kz by simp
  qed
  moreover have "unat sz \<le> unat 0 + Suc (unat (sz div PGSIZE)) * 4096"
    using div_mult_mod_eq [of "unat sz" 4096] mod_less_divisor [of 4096 "unat sz", OF zero_less_numeral]
    by (simp add: unat_div PGSIZE_def)
  ultimately obtain s' zs where "forkuvm_loop (Suc (unat (sz div PGSIZE))) pgdir d 0 sz s1 = Inr (d, s')"
      "pt_ok s' d zs" "agree_off (set xs) s1 s'" "pt_conserve s1 d ys s' zs" "forked pgdir d 0 sz s1 s'"
    using forkuvm_loop_spec [OF uvm_okD(1) [OF k(3)] par(3) _ _ _ _ sz _ _ _ len, of 0 "Suc (unat (sz div PGSIZE))"]
      par pp tb pr pte agree_off_page_ok [OF k(6)] by (auto simp: pg_aligned_def)
  note f = this
  have "set ys \<subseteq> set xs" using k(4) by (metis mset_subset_eq_add_right set_mset_mono set_mset_mset uvm_pages_def)
  then have "set zs \<subseteq> set xs" using f(4) by (auto simp: pt_conserve_def)
  moreover have "agree_off (set xs) s s'" using agree_off_trans [OF k(6) f(3)] by simp
  moreover have "pt_pages s' d zs = set xs" using pt_conserve_pages [OF f(4)] pp by simp
  ultimately show ?thesis
    using k(1,2) f(1,2,5) pte by (intro exI [of _ d] exI [of _ s'] exI [of _ zs]) (simp add: forkuvm_def forked_def)
qed

subsection \<open>copyout\<close>

text \<open>The kernel address of a user address, and the pages user code may access.\<close>

definition uaddr :: "kmem \<Rightarrow> u32 \<Rightarrow> u32 \<Rightarrow> u32" where
  "uaddr s pgdir va = P2V (PTE_ADDR (pte_at s pgdir va)) + (va - PGROUNDDOWN va)"

definition user_ok :: "kmem \<Rightarrow> u32 \<Rightarrow> u32 \<Rightarrow> bool" where
  "user_ok s pgdir va \<longleftrightarrow> pte_at s pgdir va AND PTE_P \<noteq> 0 \<and> pte_at s pgdir va AND PTE_U \<noteq> 0 \<and> va < KERNBASE"

lemma page_offset_less: "unat (va - PGROUNDDOWN va) < 4096"
  using in_range_page [of "PGROUNDDOWN va" va] by (simp add: in_range_def)

lemma PGROUNDDOWN_uaddr: "PGROUNDDOWN (uaddr s pgdir va) = P2V (PTE_ADDR (pte_at s pgdir va))"
  unfolding uaddr_def by (rule PGROUNDDOWN_add) (simp_all add: page_offset_less)

lemma pte_at_rounddown: "pte_at s pgdir (PGROUNDDOWN va) = pte_at s pgdir va"
  by (rule pte_at_same_page) (simp add: same_page_iff PGROUNDDOWN_aligned)

lemma user_ok_page:
  assumes "user_ok s pgdir va"
  shows "PGROUNDDOWN va \<in> user_vas" "P2V (PTE_ADDR (pte_at s pgdir va)) \<in># upages s pgdir"
proof -
  show *: "PGROUNDDOWN va \<in> user_vas"
    using assms unat_PGROUNDDOWN [of va] by (auto simp: user_ok_def user_vas_def word_less_nat_alt)
  show "P2V (PTE_ADDR (pte_at s pgdir va)) \<in># upages s pgdir"
    using upages_member [OF *, of s pgdir] assms by (simp add: user_ok_def pte_at_rounddown)
qed

lemma upages_inj:
  assumes u: "uniq (upages s pgdir)" and a: "a \<in> user_vas" "pte_at s pgdir a AND PTE_P \<noteq> 0"
    and b: "b \<in> user_vas" "pte_at s pgdir b AND PTE_P \<noteq> 0"
    and eq: "PTE_ADDR (pte_at s pgdir a) = PTE_ADDR (pte_at s pgdir b)"
  shows "a = b"
proof (rule ccontr)
  assume "a \<noteq> b"
  let ?p = "P2V (PTE_ADDR (pte_at s pgdir a))"
  let ?R = "image_mset (\<lambda>va. P2V (PTE_ADDR (pte_at s pgdir va)))
     (filter_mset (\<lambda>va. pte_at s pgdir va AND PTE_P \<noteq> 0) (mset_set (user_vas - {a})))"
  have "?p \<in># ?R" using b eq \<open>a \<noteq> b\<close> by (auto intro!: image_eqI [of _ _ b])
  moreover have "upages s pgdir = {#?p#} + ?R" using upages_split [OF a(1), of s pgdir] a(2) by simp
  ultimately show False using uniq_disjoint [of "{#?p#}" ?R ?p] u by simp
qed

lemma uvm_uniq_upages: "uvm_ok s pgdir xs \<Longrightarrow> uniq (upages s pgdir)"
  unfolding uvm_ok_def using uniq_subset [of "uvm_pages s pgdir xs" "upages s pgdir"]
  by (simp add: uvm_pages_def)

lemma uva2ka_user:
  assumes ok: "uvm_ok s pgdir xs" and u: "user_ok s pgdir va"
  shows "uva2ka pgdir (PGROUNDDOWN va) s = Inr (P2V (PTE_ADDR (pte_at s pgdir va)))"
    "P2V (PTE_ADDR (pte_at s pgdir va)) \<noteq> 0"
proof -
  have "pte_at s pgdir (PGROUNDDOWN va) AND PTE_P \<noteq> 0" using u by (simp add: user_ok_def pte_at_rounddown)
  note pd = pte_present_table [OF this]
  have "pgtab_at s pgdir (PDX (PGROUNDDOWN va)) + 4 * PTX (PGROUNDDOWN va) \<noteq> 0"
    using pt_okD(5) [OF uvm_okD(1) [OF ok] _ pd] slot_nonzero by auto
  moreover have "rd32 (pmem s) (pgtab_at s pgdir (PDX (PGROUNDDOWN va)) + 4 * PTX (PGROUNDDOWN va)) = pte_at s pgdir va"
    using pd pte_at_rounddown [of s pgdir va] by (simp add: pte_at_def)
  ultimately show "uva2ka pgdir (PGROUNDDOWN va) s = Inr (P2V (PTE_ADDR (pte_at s pgdir va)))"
    using u walkpgdir_present [OF pd, of False] by (simp add: uva2ka_def user_ok_def)
  show "P2V (PTE_ADDR (pte_at s pgdir va)) \<noteq> 0"
    using uvm_okD(4) [OF ok user_ok_page(2) [OF u]] page_ok_nonzero by blast
qed

lemma memmove_user_page:
  assumes ok: "uvm_ok s pgdir xs" and p: "p \<in># upages s pgdir"
    and n: "unat off + unat n \<le> 4096" "unat buf + unat n < 2 ^ 32"
  defines "s' \<equiv> s\<lparr>pmem := memmove (pmem s) (p + off) buf n\<rparr>"
  shows "pmem s' = copy_spec (pmem s) (p + off) buf (unat n)" "agree_off {p} s s'"
    "uvm_ok s' pgdir xs" "pte_at s' pgdir va = pte_at s pgdir va"
proof -
  note pk = uvm_okD(4) [OF ok p]
  have pa: "pg_aligned p" "unat p < 0x8E000000" using pk by (auto simp: page_ok_def)
  have "unat (p + off) = unat p + unat off" using pa n(1) by (intro unat_add_no_wrap) simp
  then have "unat (p + off) + unat n < 2 ^ 32" using pa(2) n(1) by simp
  from memmove_copy_spec [OF n(2) this, of "pmem s"]
  show m: "pmem s' = copy_spec (pmem s) (p + off) buf (unat n)" by (simp add: s'_def)
  have "PGROUNDDOWN x = p" if "in_range (p + off) (unat n) x" for x
  proof -
    have k: "unat (x - (p + off)) < unat n" using that by (simp add: in_range_def)
    then have "unat (off + (x - (p + off))) < 4096"
      using n(1) by (subst unat_add_no_wrap) simp_all
    then show ?thesis using PGROUNDDOWN_add [OF pa(1), of "off + (x - (p + off))"] by simp
  qed
  then show ag: "agree_off {p} s s'" using m by (auto simp: agree_off_def copy_spec_def s'_def)
  have off: "pgdir \<notin> {p}" "set (tables s pgdir) \<inter> {p} = {}" "set xs \<inter> {p} = {}" "freelist s' = freelist s"
    using pk by (auto simp: pt_pages_def s'_def)
  note al = pt_okD(3) [OF uvm_okD(1) [OF ok]]
  show pte: "pte_at s' pgdir va = pte_at s pgdir va" for va
    using agree_off_pte [OF ag al off(1,2)] .
  then have up: "upages s' pgdir = upages s pgdir" by (intro upages_cong) simp
  have "uvm_pages s' pgdir xs = uvm_pages s pgdir xs"
    using agree_off_tables [OF ag al off(1)] up by (simp add: uvm_pages_def)
  then show "uvm_ok s' pgdir xs"
    using ok agree_off_free_pages [OF ag off(4) uvm_okD(2) [OF ok] off(3)] agree_off_page_ok [OF ag]
    by (simp add: uvm_ok_def s'_def)
qed

text \<open>
  What \<^verbatim>\<open>copyout\<close> did: the \<open>n\<close> bytes at \<open>buf\<close> are at the user addresses from \<open>va\<close> on, and no
  other byte of memory changed.
\<close>

definition copied :: "u32 \<Rightarrow> u32 \<Rightarrow> u32 \<Rightarrow> nat \<Rightarrow> kmem \<Rightarrow> kmem \<Rightarrow> bool" where
  "copied pgdir va buf n s s' \<longleftrightarrow>
     (\<forall>i<n. pmem s' (uaddr s pgdir (va + of_nat i)) = pmem s (buf + of_nat i)) \<and>
     (\<forall>x. (\<forall>i<n. x \<noteq> uaddr s pgdir (va + of_nat i)) \<longrightarrow> pmem s' x = pmem s x)"

lemma copied_append:
  assumes c1: "copied pgdir va buf n s t" and c2: "copied pgdir (va + of_nat n) (buf + of_nat n) m t s'"
    and pte: "\<And>v. pte_at t pgdir v = pte_at s pgdir v"
    and far: "\<And>i j. i < n \<Longrightarrow> j < m \<Longrightarrow> uaddr s pgdir (va + of_nat i) \<noteq> uaddr s pgdir (va + of_nat (n + j))"
    and src: "\<And>i j. i < n \<Longrightarrow> j < m \<Longrightarrow> buf + of_nat (n + j) \<noteq> uaddr s pgdir (va + of_nat i)"
  shows "copied pgdir va buf (n + m) s s'"
proof -
  have ua: "uaddr t pgdir v = uaddr s pgdir v" for v by (simp add: uaddr_def pte)
  have in1: "pmem s' (uaddr s pgdir (va + of_nat i)) = pmem s (buf + of_nat i)" if i: "i < n" for i
  proof -
    have "pmem s' (uaddr s pgdir (va + of_nat i)) = pmem t (uaddr s pgdir (va + of_nat i))"
      using c2 far [OF i] unfolding copied_def ua by (simp add: add.assoc)
    then show ?thesis using c1 i by (simp add: copied_def)
  qed
  have in2: "pmem s' (uaddr s pgdir (va + of_nat (n + j))) = pmem s (buf + of_nat (n + j))" if j: "j < m" for j
  proof -
    have "pmem s' (uaddr s pgdir (va + of_nat (n + j))) = pmem t (buf + of_nat (n + j))"
      using c2 j unfolding copied_def ua by (simp add: add.assoc)
    then show ?thesis using c1 src [OF _ j] by (simp add: copied_def)
  qed
  have "pmem s' (uaddr s pgdir (va + of_nat i)) = pmem s (buf + of_nat i)" if "i < n + m" for i
    using in1 [of i] in2 [of "i - n"] that by (cases "i < n") auto
  moreover have "pmem s' x = pmem s x" if x: "\<forall>i<n + m. x \<noteq> uaddr s pgdir (va + of_nat i)" for x
  proof -
    have "pmem s' x = pmem t x"
      using c2 x unfolding copied_def ua by (metis add_less_cancel_left of_nat_add add.assoc)
    also have "\<dots> = pmem s x" using c1 x unfolding copied_def by (metis trans_less_add1)
    finally show ?thesis .
  qed
  ultimately show ?thesis by (simp add: copied_def)
qed

text \<open>The part of a copy that falls into one page.\<close>

lemma uaddr_in_page:
  assumes "unat (va - PGROUNDDOWN va) + i < 4096"
  shows "PGROUNDDOWN (va + of_nat i) = PGROUNDDOWN va" "uaddr s pgdir (va + of_nat i) = uaddr s pgdir va + of_nat i"
proof -
  have "unat (va - PGROUNDDOWN va + of_nat i) < 4096"
    using assms by (simp add: unat_word_ariths unat_of_nat)
  from PGROUNDDOWN_add [OF pg_aligned_PGROUNDDOWN this, of va]
  show r: "PGROUNDDOWN (va + of_nat i) = PGROUNDDOWN va" by simp
  then have "pte_at s pgdir (va + of_nat i) = pte_at s pgdir va"
    by (intro pte_at_same_page) (simp add: same_page_iff)
  then show "uaddr s pgdir (va + of_nat i) = uaddr s pgdir va + of_nat i" using r by (simp add: uaddr_def)
qed

lemma copyout_n_bounds:
  "unat (va - PGROUNDDOWN va) + unat (copyout_n va len) \<le> 4096"
  "copyout_n va len \<noteq> len \<Longrightarrow> va + copyout_n va len = PGROUNDDOWN va + PGSIZE"
proof -
  let ?o = "va - PGROUNDDOWN va"
  have o: "?o \<le> PGSIZE" using page_offset_less [of va] by (simp add: word_le_nat_alt PGSIZE_def)
  have "unat (PGSIZE - ?o) = 4096 - unat ?o" using unat_sub [OF o] by (simp add: PGSIZE_def)
  then show "unat ?o + unat (copyout_n va len) \<le> 4096"
    using page_offset_less [of va] by (auto simp: copyout_n_def Let_def word_less_nat_alt)
  show "copyout_n va len \<noteq> len \<Longrightarrow> va + copyout_n va len = PGROUNDDOWN va + PGSIZE"
    by (auto simp: copyout_n_def Let_def split: if_splits)
qed

lemma copied_page:
  assumes ok: "uvm_ok s pgdir xs" and u: "user_ok s pgdir va"
    and n: "unat (va - PGROUNDDOWN va) + unat n \<le> 4096" "unat buf + unat n < 2 ^ 32"
  shows "copied pgdir va buf (unat n) s
    (s\<lparr>pmem := memmove (pmem s) (P2V (PTE_ADDR (pte_at s pgdir va)) + (va - PGROUNDDOWN va)) buf n\<rparr>)"
proof -
  let ?s = "s\<lparr>pmem := memmove (pmem s) (P2V (PTE_ADDR (pte_at s pgdir va)) + (va - PGROUNDDOWN va)) buf n\<rparr>"
  have m: "pmem ?s x = (if in_range (uaddr s pgdir va) (unat n) x then pmem s (buf + (x - uaddr s pgdir va)) else pmem s x)" for x
    unfolding memmove_user_page(1) [OF ok user_ok_page(2) [OF u] n] copy_spec_def uaddr_def ..
  have ua: "uaddr s pgdir (va + of_nat i) = uaddr s pgdir va + of_nat i" if "i < unat n" for i
    using that n(1) by (intro uaddr_in_page) simp
  have un: "unat (of_nat i :: u32) = i" if "i < unat n" for i
    using that n(1) by (simp add: unat_of_nat)
  have "\<exists>i<unat n. x = uaddr s pgdir va + of_nat i" if "in_range (uaddr s pgdir va) (unat n) x" for x
    using that by (intro exI [of _ "unat (x - uaddr s pgdir va)"]) (simp add: in_range_def)
  then show ?thesis
    unfolding copied_def m using ua un by (auto simp: in_range_def)
qed

lemma PGROUNDDOWN_less: "unat w < unat (PGROUNDDOWN w) + 4096"
  using mod_less_divisor [of 4096 "unat w", OF zero_less_numeral] mod_less_eq_dividend [of "unat w" 4096]
  unfolding unat_PGROUNDDOWN by linarith

lemma uaddr_neq:
  assumes ok: "uvm_ok s pgdir xs" and u: "user_ok s pgdir v" "user_ok s pgdir w" and ne: "PGROUNDDOWN v \<noteq> PGROUNDDOWN w"
  shows "uaddr s pgdir v \<noteq> uaddr s pgdir w"
proof
  assume "uaddr s pgdir v = uaddr s pgdir w"
  then have "PTE_ADDR (pte_at s pgdir v) = PTE_ADDR (pte_at s pgdir w)"
    using PGROUNDDOWN_uaddr [of s pgdir v] PGROUNDDOWN_uaddr [of s pgdir w] by simp
  then show False
    using upages_inj [OF uvm_uniq_upages [OF ok] user_ok_page(1) [OF u(1)] _ user_ok_page(1) [OF u(2)]] u ne
    by (simp add: pte_at_rounddown user_ok_def)
qed

lemma copyout_disjoint:
  assumes ok: "uvm_ok s pgdir xs" and len: "unat va + len \<le> 0x80000000"
    and u: "\<And>i. i < len \<Longrightarrow> user_ok s pgdir (va + of_nat i)"
    and b: "\<And>i. i < len \<Longrightarrow> PGROUNDDOWN (buf + of_nat i) \<notin># upages s pgdir"
    and n: "unat (va - PGROUNDDOWN va) + n \<le> 4096" "PGROUNDDOWN va + PGSIZE = va + of_nat n"
    and ij: "i < n" "n + j < len"
  shows "uaddr s pgdir (va + of_nat i) \<noteq> uaddr s pgdir (va + of_nat (n + j))"
    "buf + of_nat (n + j) \<noteq> uaddr s pgdir (va + of_nat i)"
proof -
  have "i < len" using ij by simp
  note ui = u [OF \<open>i < len\<close>] u [OF ij(2)]
  have "PGROUNDDOWN (va + of_nat i) = PGROUNDDOWN va" using ij n by (intro uaddr_in_page(1)) simp
  moreover have "unat (va + of_nat (n + j)) = unat va + (n + j)" "unat (va + of_nat n) = unat va + n"
    using len ij by (intro unat_add_of_nat, simp)+
  moreover have "unat (PGROUNDDOWN va) \<le> unat va" by (simp add: unat_PGROUNDDOWN)
  then have "unat (PGROUNDDOWN va + PGSIZE) = unat (PGROUNDDOWN va) + 4096"
    using len unat_add_no_wrap [of "PGROUNDDOWN va" PGSIZE] by (simp add: PGSIZE_def)
  ultimately have "PGROUNDDOWN (va + of_nat (n + j)) \<noteq> PGROUNDDOWN (va + of_nat i)"
    using n(2) PGROUNDDOWN_less [of "va + of_nat (n + j)"] by auto
  then show "uaddr s pgdir (va + of_nat i) \<noteq> uaddr s pgdir (va + of_nat (n + j))"
    using uaddr_neq [OF ok ui] by simp
  show "buf + of_nat (n + j) \<noteq> uaddr s pgdir (va + of_nat i)"
    using b [OF ij(2)] user_ok_page(2) [OF ui(1)] PGROUNDDOWN_uaddr [of s pgdir "va + of_nat i"] by metis
qed

lemma copyout_spec:
  assumes "uvm_ok s pgdir xs" "unat va + unat len \<le> 0x80000000" "unat buf + unat len < 2 ^ 32"
    "\<And>i. i < unat len \<Longrightarrow> user_ok s pgdir (va + of_nat i)"
    "\<And>i. i < unat len \<Longrightarrow> PGROUNDDOWN (buf + of_nat i) \<notin># upages s pgdir"
  shows "\<exists>s'. copyout pgdir va buf len s = Inr (0, s') \<and> uvm_ok s' pgdir xs \<and> copied pgdir va buf (unat len) s s'"
  using assms
proof (induction pgdir va buf len s rule: copyout.induct)
  case (1 pgdir va buf len s)
  show ?case
  proof (cases "0 < len")
    case False
    then show ?thesis
      using "1.prems"(1) by (subst copyout.simps) (simp add: copied_def word_gt_0)
  next
    case True
    let ?n = "copyout_n va len" and ?p = "P2V (PTE_ADDR (pte_at s pgdir va))"
    let ?t = "s\<lparr>pmem := memmove (pmem s) (?p + (va - PGROUNDDOWN va)) buf ?n\<rparr>"
    have n: "0 < unat ?n" "unat ?n \<le> unat len"
      using copyout_n_pos [OF True, of va] by (simp_all add: word_less_nat_alt word_le_nat_alt)
    have nb: "unat (va - PGROUNDDOWN va) + unat ?n \<le> 4096" "unat buf + unat ?n < 2 ^ 32"
      using copyout_n_bounds(1) "1.prems"(3) n by auto
    have u: "user_ok s pgdir va" using "1.prems"(4) [of 0] n by simp
    note k = uva2ka_user [OF "1.prems"(1) u]
    note t = memmove_user_page(3,4) [OF "1.prems"(1) user_ok_page(2) [OF u] nb]
    have c1: "copied pgdir va buf (unat ?n) s ?t" using copied_page [OF "1.prems"(1) u nb] .
    have step: "copyout pgdir va buf len s = copyout pgdir (PGROUNDDOWN va + PGSIZE) (buf + ?n) (len - ?n) ?t"
      using True k by (subst copyout.simps) (simp add: Let_def)
    have ll: "unat (len - ?n) = unat len - unat ?n" using n(2) by (intro unat_sub_le) (simp add: word_le_nat_alt)
    show ?thesis
    proof (cases "?n = len")
      case True
      then show ?thesis using step c1 t(1) by (subst (asm) copyout.simps [of _ _ _ "len - ?n"]) simp
    next
      case False
      have va': "PGROUNDDOWN va + PGSIZE = va + of_nat (unat ?n)"
        using copyout_n_bounds(2) [OF False] by simp
      have up: "upages ?t pgdir = upages s pgdir" using t(2) by (intro upages_cong) simp
      have uo: "user_ok ?t pgdir v = user_ok s pgdir v" for v by (simp add: user_ok_def t(2))
      have unv: "unat (va + of_nat (unat ?n)) = unat va + unat ?n" "unat (buf + ?n) = unat buf + unat ?n"
        using "1.prems"(2,3) n by (simp_all add: unat_add_no_wrap)
      have rest: "va + of_nat (unat ?n) + of_nat j = va + of_nat (unat ?n + j)"
        "buf + ?n + of_nat j = buf + of_nat (unat ?n + j)" for j by (simp_all add: add.assoc)
      have "\<exists>s'. copyout pgdir (PGROUNDDOWN va + PGSIZE) (buf + ?n) (len - ?n) ?t = Inr (0, s') \<and>
          uvm_ok s' pgdir xs \<and> copied pgdir (PGROUNDDOWN va + PGSIZE) (buf + ?n) (unat (len - ?n)) ?t s'"
      proof (rule "1.IH" [OF True refl refl k t(1)])
        show "unat (PGROUNDDOWN va + PGSIZE) + unat (len - ?n) \<le> 0x80000000"
          unfolding va' unv ll using "1.prems"(2) n by simp
        show "unat (buf + ?n) + unat (len - ?n) < 2 ^ 32" unfolding unv ll using "1.prems"(3) n by simp
        fix i assume "i < unat (len - ?n)"
        then have i: "unat ?n + i < unat len" using ll by simp
        show "user_ok ?t pgdir (PGROUNDDOWN va + PGSIZE + of_nat i)"
          unfolding uo va' rest by (rule "1.prems"(4) [OF i])
        show "PGROUNDDOWN (buf + ?n + of_nat i) \<notin># upages ?t pgdir"
          unfolding up rest by (rule "1.prems"(5) [OF i])
      qed
      then obtain s' where s': "copyout pgdir va buf len s = Inr (0, s')" "uvm_ok s' pgdir xs"
        "copied pgdir (va + of_nat (unat ?n)) (buf + of_nat (unat ?n)) (unat len - unat ?n) ?t s'"
        using step ll unfolding va' by auto
      have "copied pgdir va buf (unat ?n + (unat len - unat ?n)) s s'"
        using copyout_disjoint [OF "1.prems"(1,2,4,5) nb(1) va']
        by (intro copied_append [OF c1 s'(3) t(2)]) simp_all
      then show ?thesis using s'(1,2) n(2) by auto
    qed
  qed
qed

end
