(* ===== verification/Vm_Props.thy ===== *)
theory Vm_Props
  imports Vm_User
begin


lemma user_va_no_kmap:
  assumes "kernel_layout s" "va < KERNBASE" "k \<in> set (kmap_table s)"
  shows "\<not> in_kmap k va"
proof -
  have "unat (PGROUNDDOWN va) < unat KERNBASE"
    using assms(2) unat_PGROUNDDOWN [of va] by (simp add: word_less_nat_alt)
  moreover have "unat KERNBASE \<le> unat (virt k)"
    using kmap_table_ok(1) [OF assms(1,3)] by (simp add: kmap_ok_def word_le_nat_alt)
  ultimately show ?thesis by (simp add: in_kmap_def)
qed

section \<open>Properties\<close>

subsection \<open>A booted machine\<close>

text \<open>
  The states the properties are instantiated at: a kernel image with 16 MB of memory handed
  to the allocator by \<^verbatim>\<open>freerange\<close>, the kernel page table built there, and a process of one
  page.
\<close>

definition kernel_image :: kmem where
  "kernel_image = \<lparr>pmem = (\<lambda>_. 0), freelist = 0, use_lock = False, kern_end = 0x80115000,
     kern_data = 0x80108000\<rparr>"

definition boot_kmem :: kmem where
  "boot_kmem = (case freerange 0x80400000 0x81400000 kernel_image of Inr s \<Rightarrow> s | Inl e \<Rightarrow> kernel_image)"

definition boot_vm :: "u32 \<times> kmem" where
  "boot_vm = (case setupkvm boot_kmem of Inr r \<Rightarrow> r | Inl e \<Rightarrow> (0, boot_kmem))"

definition boot_proc :: "u32 \<times> kmem" where
  "boot_proc = (case allocuvm (fst boot_vm) 0 PGSIZE (snd boot_vm) of
     Inr (r, s) \<Rightarrow> (fst boot_vm, s) | Inl e \<Rightarrow> boot_vm)"

lemma freerange_loop_image:
  "freerange_loop p vend s = Inr s' \<Longrightarrow> kern_end s' = kern_end s \<and> kern_data s' = kern_data s"
proof (induction p vend s arbitrary: s' rule: freerange_loop.induct)
  case (1 p vend s)
  have kf: "kern_end t = kern_end s \<and> kern_data t = kern_data s" if "kfree p s = Inr t" for t
    using that by (auto simp: kfree_def Let_def split: if_splits)
  from "1.prems" consider "\<not> p + PGSIZE \<le> vend" "s' = s"
    | t where "p + PGSIZE \<le> vend" "kfree p s = Inr t" "freerange_loop (p + PGSIZE) vend t = Inr s'"
    by (subst (asm) freerange_loop.simps) (auto split: if_splits)
  then show ?case
  proof cases
    case (2 t)
    then show ?thesis using "1.IH" [OF 2] kf by simp
  qed simp
qed

lemma boot_kmem_free: "free_pages boot_kmem (rev (pages_from 0x80400000 4096))" "kernel_layout boot_kmem"
proof -
  have "PGROUNDUP 0x80400000 = 0x80400000" by (simp add: PGROUNDUP_def PGSIZE_def)
  moreover have "free_pages kernel_image []" by (simp add: free_pages_def kernel_image_def)
  then obtain s where s: "freerange_loop 0x80400000 0x81400000 kernel_image = Inr s"
      "free_pages s (rev (pages_from 0x80400000 4096) @ [])"
    using freerange_loop_pages [of kernel_image "[]" "0x80400000" "0x81400000" 4096]
    by (auto simp: kernel_image_def pg_aligned_def KERNBASE_def)
  ultimately have b: "boot_kmem = s" by (simp add: boot_kmem_def freerange_def)
  then show "free_pages boot_kmem (rev (pages_from 0x80400000 4096))" using s(2) by simp
  show "kernel_layout boot_kmem"
    using freerange_loop_image [OF s(1)] b
    by (simp add: kernel_layout_def kernel_image_def pg_aligned_def KERNLINK_def KERNBASE_def EXTMEM_def
        P2V_def PHYSTOP_def)
qed

lemma length_pages_from [simp]: "length (pages_from a n) = n"
  by (simp add: pages_from_def)

lemma boot_vm_ok:
  obtains ys where "uvm_ok (snd boot_vm) (fst boot_vm) ys"
    "upages (snd boot_vm) (fst boot_vm) = {#}" "length ys + length (tables (snd boot_vm) (fst boot_vm)) = 4095"
    "kernel_layout (snd boot_vm)" "\<And>va. va < KERNBASE \<Longrightarrow> pte_at (snd boot_vm) (fst boot_vm) va = 0"
proof -
  obtain r s ys where k: "setupkvm boot_kmem = Inr (r, s)" "uvm_ok s r ys"
      "uvm_pages s r ys = mset (rev (pages_from 0x80400000 4096))" "upages s r = {#}"
      "agree_off (set (rev (pages_from 0x80400000 4096))) boot_kmem s"
    and z: "\<And>va. (\<forall>k\<in>set (kmap_table boot_kmem). \<not> in_kmap k va) \<Longrightarrow> pte_at s r va = 0"
    using setupkvm_spec [OF boot_kmem_free] by auto
  have b: "boot_vm = (r, s)" using k(1) by (simp add: boot_vm_def)
  have "size (uvm_pages s r ys) = 4096" using k(3) by simp
  then have "length ys + length (tables s r) = 4095" using k(4) by (simp add: uvm_pages_def)
  moreover have "kernel_layout s" using k(5) boot_kmem_free(2) by (simp add: kernel_layout_def agree_off_def)
  moreover have "pte_at s r va = 0" if "va < KERNBASE" for va
    using z user_va_no_kmap [OF boot_kmem_free(2) that] by blast
  ultimately show ?thesis using k(2,4) by (intro that [of ys]) (simp_all add: b)
qed

lemma allocuvm_page_enough:
  assumes ok: "uvm_ok s pgdir xs" and mem: "1025 < length xs" and np: "pte_at s pgdir 0 AND PTE_P = 0"
  obtains s' ys where "allocuvm pgdir 0 PGSIZE s = Inr (PGSIZE, s')" "evolves pgdir s xs s' ys"
    "grown pgdir 0 PGSIZE s xs s'"
proof -
  have fr: "va_fresh s pgdir (PGROUNDUP 0) PGSIZE"
  proof -
    have "pte_at s pgdir va AND PTE_P = 0" if "va_in 0 PGSIZE va" for va
    proof -
      have "same_page va 0" using that by (intro same_page_of_range) (simp_all add: va_in_def pg_aligned_def)
      then show ?thesis using np pte_at_same_page by metis
    qed
    then show ?thesis by (simp add: va_fresh_def PGROUNDUP_def PGSIZE_def)
  qed
  obtain x ys where xs: "xs = x # ys" using mem by (cases xs) auto
  have u0: "0 \<in> user_vas" by (simp add: user_vas_def pg_aligned_def KERNBASE_def)
  obtain s2 where m: "mappages pgdir 0 PGSIZE (V2P x) (PTE_W OR PTE_U) (zeroed s x) = Inr (0, s2)"
    using ok [unfolded xs] u0 np
  proof (cases rule: alloc_step)
    case (fail s2)
    have "size (add_mset x (uvm_pages s2 pgdir [])) = size (uvm_pages s pgdir (x # ys))"
      using fail(3) by simp
    moreover have "upages s2 pgdir = upages s pgdir" using fail(5) by (intro upages_cong) simp
    ultimately show ?thesis
      using tables_length [of s2 pgdir] mem xs by (simp add: uvm_pages_def)
  qed
  note z = zeroed_ok(1,2) [OF ok [unfolded xs]]
  have lp: "allocuvm pgdir 0 PGSIZE s = Inr (PGSIZE, s2)"
    using z m by (simp add: allocuvm_def PGSIZE_def KERNBASE_def PGROUNDUP_def zeroed_def)
  have "PGSIZE < KERNBASE" "0 \<le> PGSIZE" by (simp_all add: PGSIZE_def KERNBASE_def)
  from allocuvm_spec [OF ok this fr] lp obtain zs where "evolves pgdir s xs s2 zs"
      "grown pgdir (PGROUNDUP 0) PGSIZE s xs s2"
    by (auto simp: PGSIZE_def)
  then show ?thesis using that lp by (simp add: PGROUNDUP_def PGSIZE_def)
qed

lemma boot_proc_ok:
  obtains xs where "uvm_ok (snd boot_proc) (fst boot_proc) xs" "1025 < length xs" "kernel_layout (snd boot_proc)"
    "\<And>va. va_in 0 PGSIZE va \<Longrightarrow> user_zero (snd boot_proc) (fst boot_proc) va"
proof -
  let ?d = "fst boot_vm" and ?s = "snd boot_vm"
  obtain ys where b: "uvm_ok ?s ?d ys" "upages ?s ?d = {#}" "length ys + length (tables ?s ?d) = 4095"
      "kernel_layout ?s" "\<And>va. va < KERNBASE \<Longrightarrow> pte_at ?s ?d va = 0"
    using boot_vm_ok by blast
  have enough: "1025 < length ys" using b(3) tables_length [of ?s ?d] by simp
  have "pte_at ?s ?d 0 AND PTE_P = 0" using b(5) [of 0] by (simp add: KERNBASE_def)
  from allocuvm_page_enough [OF b(1) enough this] obtain s' zs where
    a: "allocuvm ?d 0 PGSIZE ?s = Inr (PGSIZE, s')" "evolves ?d ?s ys s' zs" "grown ?d 0 PGSIZE ?s ys s'"
    by blast
  have p: "boot_proc = (?d, s')" using a(1) by (simp add: boot_proc_def)
  have "size (uvm_pages s' ?d zs) = size (uvm_pages ?s ?d ys)" using a(2) by (simp add: evolves_def)
  moreover have "size (upages s' ?d) \<le> 1"
  proof -
    have "pte_at s' ?d va AND PTE_P = 0" if "va \<in> user_vas" "va \<noteq> 0" for va
    proof -
      have "\<not> va_in 0 PGSIZE va"
      proof
        assume "va_in 0 PGSIZE va"
        then have "same_page va 0" by (intro same_page_of_range) (simp_all add: va_in_def pg_aligned_def)
        then show False using that by (simp add: user_vas_def same_page_aligned pg_aligned_def)
      qed
      then show ?thesis using a(3) b(5) that by (simp add: grown_def user_vas_def)
    qed
    then have "{va \<in> user_vas. pte_at s' ?d va AND PTE_P \<noteq> 0} \<subseteq> {0}" by auto
    then have "card {va \<in> user_vas. pte_at s' ?d va AND PTE_P \<noteq> 0} \<le> card {0 :: u32}" by (intro card_mono) auto
    then show ?thesis by (simp add: upages_def)
  qed
  ultimately have "1025 < length zs"
    using b(2,3) tables_length [of s' ?d] by (simp add: uvm_pages_def)
  moreover have "kernel_layout s'" using a(2) b(4) by (simp add: evolves_def agree_off_def kernel_layout_def)
  moreover have "user_zero s' ?d va" if "va_in 0 PGSIZE va" for va using a(3) that by (simp add: grown_def)
  ultimately show ?thesis
    using evolves_ok [OF a(2) b(1)] by (intro that [of zs]) (simp_all add: p)
qed

subsection \<open>The properties\<close>



text \<open>
  C24: \<^verbatim>\<open>mappages\<close> on a well-formed page directory always stops. When it returns 0, exactly
  the pages of the range have the entries asked for and all others are unchanged; it returns
  \<open>-1\<close> only when the free list is empty, leaving a well-formed directory; it panics
  \<^verbatim>\<open>remap\<close> only when a page of the range was present. Memory outside the page tables and
  the free pages is untouched and no page is lost.
\<close>

theorem mappages_correct:
  assumes "pt_ok s pgdir xs" "0 < unat sz" "unat va + unat sz \<le> 2 ^ 32"
  shows "(\<exists>i\<le>page_span va sz. pte_at s pgdir (page_seq (PGROUNDDOWN va) i) AND PTE_P \<noteq> 0) \<and>
      mappages pgdir va sz pa perm s = Inl (Panic ''remap'') \<or>
    (\<exists>r s' ys k. mappages pgdir va sz pa perm s = Inr (r, s') \<and> pt_ok s' pgdir ys \<and>
      agree_off (pt_pages s pgdir xs) s s' \<and>
      mset ys + mset (tables s' pgdir) = mset xs + mset (tables s pgdir) \<and>
      mapped pgdir (PGROUNDDOWN va) pa perm k s s' \<and>
      (r = 0 \<and> k = Suc (page_span va sz) \<or> r = -1 \<and> k \<le> page_span va sz \<and> ys = []))"
  using mappages_spec [OF assms] unfolding pt_conserve_def by blast

theorem mappages_correct_witness:
  "\<exists>xs r s' ys k. pt_ok (snd boot_vm) (fst boot_vm) xs \<and>
    mappages (fst boot_vm) 0x60000000 0x2001 0x500000 PTE_U (snd boot_vm) = Inr (r, s') \<and>
    pt_ok s' (fst boot_vm) ys \<and> mapped (fst boot_vm) (PGROUNDDOWN 0x60000000) 0x500000 PTE_U k (snd boot_vm) s' \<and>
    (r = 0 \<and> k = 3 \<or> r = -1 \<and> k \<le> 2 \<and> ys = [])"
proof -
  obtain xs where x: "uvm_ok (snd boot_vm) (fst boot_vm) xs"
    and z: "\<And>va. va < KERNBASE \<Longrightarrow> pte_at (snd boot_vm) (fst boot_vm) va = 0"
    using boot_vm_ok by blast
  have sp: "page_span 0x60000000 0x2001 = 2" by (simp add: page_span_def)
  have "pte_at (snd boot_vm) (fst boot_vm) (page_seq (PGROUNDDOWN 0x60000000) i) = 0" if "i \<le> 2" for i
  proof -
    have "i = 0 \<or> i = 1 \<or> i = 2" using that by auto
    then show ?thesis by (intro z) (auto simp: page_seq_def PGROUNDDOWN_def PGSIZE_def KERNBASE_def)
  qed
  then show ?thesis
    using mappages_correct [OF uvm_okD(1) [OF x], of "0x2001" "0x60000000" "0x500000" PTE_U] uvm_okD(1) [OF x]
    unfolding sp by auto
qed

text \<open>
  C19: \<^verbatim>\<open>allocuvm\<close> stops without a panic when the addresses to be added are not mapped yet. It
  returns the new size, and then exactly the pages between the sizes are added, each a fresh
  page full of zeros, writable and accessible to user code, while the memory of all pages
  mapped before is unchanged; or it returns 0 and has undone its work. Either way the pages
  of the address space and of the free list together are the pages that were there before:
  none is lost and none is mapped twice.
\<close>

theorem allocuvm_grows:
  assumes "uvm_ok s pgdir xs" "newsz < KERNBASE" "oldsz \<le> newsz" "va_fresh s pgdir (PGROUNDUP oldsz) newsz"
  shows "\<exists>r s' ys. allocuvm pgdir oldsz newsz s = Inr (r, s') \<and> uvm_ok s' pgdir ys \<and>
    uvm_pages s' pgdir ys = uvm_pages s pgdir xs \<and>
    (r = newsz \<and> grown pgdir (PGROUNDUP oldsz) newsz s xs s' \<or>
     r = 0 \<and> not_grown pgdir (PGROUNDUP oldsz) newsz s s')"
  using allocuvm_spec [OF assms] evolves_ok [OF _ assms(1)] unfolding evolves_def by metis

theorem allocuvm_grows_witness:
  "\<exists>xs r s' ys. uvm_ok (snd boot_vm) (fst boot_vm) xs \<and>
    allocuvm (fst boot_vm) 0 0x5000 (snd boot_vm) = Inr (r, s') \<and> uvm_ok s' (fst boot_vm) ys \<and>
    uvm_pages s' (fst boot_vm) ys = uvm_pages (snd boot_vm) (fst boot_vm) xs"
proof -
  obtain xs where x: "uvm_ok (snd boot_vm) (fst boot_vm) xs"
    and z: "\<And>va. va < KERNBASE \<Longrightarrow> pte_at (snd boot_vm) (fst boot_vm) va = 0"
    using boot_vm_ok by blast
  have "va_fresh (snd boot_vm) (fst boot_vm) (PGROUNDUP 0) 0x5000"
    unfolding va_fresh_def
  proof (intro allI impI)
    fix va assume "va_in (PGROUNDUP 0) 0x5000 va"
    then have "unat va div 4096 * 4096 < 0x5000"
      by (simp add: va_in_def word_less_nat_alt PGROUNDDOWN_mult)
    then have "unat va < 0x80000000" by simp
    then show "pte_at (snd boot_vm) (fst boot_vm) va AND PTE_P = 0"
      using z by (simp add: KERNBASE_def word_less_nat_alt)
  qed
  then show ?thesis
    using allocuvm_grows [OF x, of "0x5000" 0] x by (auto simp: KERNBASE_def)
qed

text \<open>
  C7: \<^verbatim>\<open>freevm\<close> on an address space that owns its pages never panics and gives back every one
  of them: the free list then holds the old free pages, all user pages, all page-table pages
  and the page directory, each once.
\<close>

theorem freevm_returns_every_page:
  assumes "uvm_ok s pgdir xs"
  shows "\<exists>s' ys. freevm pgdir s = Inr s' \<and> free_pages s' ys \<and>
    mset ys = add_mset pgdir (mset (tables s pgdir)) + upages s pgdir + mset xs"
  using freevm_spec [OF assms] unfolding uvm_pages_def by blast

theorem freevm_returns_every_page_witness:
  "\<exists>xs s' ys. uvm_ok (snd boot_proc) (fst boot_proc) xs \<and> freevm (fst boot_proc) (snd boot_proc) = Inr s' \<and>
    free_pages s' ys \<and> mset ys = add_mset (fst boot_proc) (mset (tables (snd boot_proc) (fst boot_proc))) +
      upages (snd boot_proc) (fst boot_proc) + mset xs"
proof -
  obtain xs where x: "uvm_ok (snd boot_proc) (fst boot_proc) xs" by (rule boot_proc_ok)
  then show ?thesis using freevm_returns_every_page [OF x] by blast
qed

lemma PTE_ADDR_shared: "PTE_ADDR (shared_pte e) = PTE_ADDR e"
proof -
  have "unat (PTE_FLAGS e AND NOT PTE_W OR PTE_P) < 4096"
  proof -
    have "PTE_FLAGS e AND NOT PTE_W OR PTE_P = take_bit 12 (PTE_FLAGS e AND NOT PTE_W OR PTE_P)"
      by (rule bit_word_eqI) (auto simp: PTE_FLAGS_def mask12 PTE_P_def bit_simps)
    then show ?thesis using unat_take_bit_12 [of "PTE_FLAGS e AND NOT PTE_W OR PTE_P"] by simp
  qed
  then show ?thesis
    using PTE_ADDR_or_flags(1) [of "PTE_ADDR e"] by (simp add: shared_pte_def)
qed

lemma shared_pte_not_writable: "shared_pte e AND PTE_W = 0"
  unfolding shared_pte_def
  by (rule bit_word_eqI) (auto simp: PTE_W_def PTE_P_def PTE_ADDR_def bit_simps)

text \<open>
  C37: \<^verbatim>\<open>forkuvm\<close> gives the child the parent's own pages without counting references, so the
  parent's \<^verbatim>\<open>freevm\<close> puts pages on the free list that the child still maps: after a fork
  and the parent's release, every page of the child below \<open>sz\<close> is free memory, which the
  next \<^verbatim>\<open>kalloc\<close> hands to somebody else.
\<close>

theorem forkuvm_shares_freed_pages:
  assumes ok: "uvm_ok s pgdir xs" and lay: "kernel_layout s" and mem: "1025 < length xs" and sz: "sz \<le> KERNBASE"
    and pr: "\<forall>va. va_in 0 sz va \<longrightarrow> pte_at s pgdir va AND PTE_P \<noteq> 0"
  shows "\<exists>d s1 s2 ys. forkuvm pgdir sz s = Inr (d, s1) \<and> d \<noteq> 0 \<and> freevm pgdir s1 = Inr s2 \<and> free_pages s2 ys \<and>
    (\<forall>va. va_in 0 sz va \<longrightarrow> pte_at s2 d va AND PTE_P \<noteq> 0 \<and> P2V (PTE_ADDR (pte_at s2 d va)) \<in> set ys)"
proof -
  obtain d s1 ys where f: "forkuvm pgdir sz s = Inr (d, s1)" "d \<noteq> 0" "pt_ok s1 d ys" "set ys \<subseteq> set xs"
      "pt_pages s1 d ys = set xs" "agree_off (set xs) s s1"
    and ch: "\<And>va. va_in 0 sz va \<Longrightarrow> pte_at s1 d va = shared_pte (pte_at s pgdir va)"
    using forkuvm_spec [OF ok lay mem sz] pr by metis
  have par: "pgdir \<notin> set xs" "set (tables s pgdir) \<inter> set xs = {}" "pg_aligned pgdir"
    using uvm_okD(1) [OF ok] by (auto simp: pt_ok_def page_ok_def)
  have tb: "tables s1 pgdir = tables s pgdir" using agree_off_tables [OF f(6) par(3,1)] .
  have pte: "pte_at s1 pgdir va = pte_at s pgdir va" for va using agree_off_pte [OF f(6) par(3,1,2)] .
  then have up: "upages s1 pgdir = upages s pgdir" by (intro upages_cong) simp
  have dist: "distinct (d # tables s1 d @ ys)" "free_pages s1 ys" using f(3) by (simp_all add: pt_ok_def)
  have "mset_set (set ys) = mset ys" "mset_set (set xs) = mset xs"
    using dist uvm_okD(2) [OF ok] by (simp_all add: free_pages_def mset_set_set)
  then have "mset ys \<subseteq># mset xs"
    using subset_imp_msubset_mset_set [OF f(4)] by (metis finite_set)
  then have sub: "uvm_pages s1 pgdir ys \<subseteq># uvm_pages s pgdir xs"
    by (simp add: uvm_pages_def tb up)
  have ok1: "uvm_ok s1 pgdir ys"
    using ok uniq_subset [OF _ sub] mset_subset_eqD [OF sub] dist(2) f(6) agree_off_page_ok [OF f(6)]
    by (auto simp: uvm_ok_def agree_off_def)
  obtain s2 zs where r: "freevm pgdir s1 = Inr s2" "free_pages s2 zs" "mset zs = uvm_pages s1 pgdir ys"
      "agree_off (set_mset (uvm_pages s1 pgdir ys)) s1 s2"
    using freevm_spec [OF ok1] by blast
  have off: "x \<notin># uvm_pages s1 pgdir ys" if "x = d \<or> x \<in> set (tables s1 d)" for x
  proof -
    have "x \<in> set xs" "x \<notin> set ys" using that f(5) dist(1) by (auto simp: pt_pages_def)
    moreover have "x \<notin># upages s pgdir"
      using uvm_okD(4) [OF ok, of x] \<open>x \<in> set xs\<close> by (auto simp: pt_pages_def)
    ultimately show ?thesis using par by (auto simp: uvm_pages_def tb up)
  qed
  have child: "pte_at s2 d va = pte_at s1 d va" for va
    using off by (intro agree_off_pte [OF r(4) pt_okD(3) [OF f(3)]]) auto
  have "pte_at s2 d va AND PTE_P \<noteq> 0 \<and> P2V (PTE_ADDR (pte_at s2 d va)) \<in> set zs" if va: "va_in 0 sz va" for va
  proof -
    have "PGROUNDDOWN va \<in> user_vas" using va sz by (simp add: user_vas_def va_in_def)
    moreover have "pte_at s pgdir (PGROUNDDOWN va) = pte_at s pgdir va"
      by (rule pte_at_same_page) (simp add: same_page_iff PGROUNDDOWN_aligned)
    ultimately have "P2V (PTE_ADDR (pte_at s pgdir va)) \<in># upages s1 pgdir"
      using upages_member [of "PGROUNDDOWN va" s pgdir] pr va up by simp
    then have "P2V (PTE_ADDR (pte_at s pgdir va)) \<in># mset zs" using r(3) by (simp add: uvm_pages_def)
    moreover have "shared_pte (pte_at s pgdir va) AND PTE_P \<noteq> 0"
      unfolding PTE_P_iff not_not shared_pte_def bit_or_iff by (simp add: PTE_P_def)
    ultimately show ?thesis using child ch [OF va] by (simp add: PTE_ADDR_shared)
  qed
  then show ?thesis using f(1,2) r(1,2) by blast
qed

theorem forkuvm_shares_freed_pages_witness:
  "\<exists>d s1 s2 ys. forkuvm (fst boot_proc) PGSIZE (snd boot_proc) = Inr (d, s1) \<and> freevm (fst boot_proc) s1 = Inr s2 \<and>
    free_pages s2 ys \<and> P2V (PTE_ADDR (pte_at s2 d 0)) \<in> set ys"
proof -
  obtain xs where x: "uvm_ok (snd boot_proc) (fst boot_proc) xs" "1025 < length xs" "kernel_layout (snd boot_proc)"
    "\<And>va. va_in 0 PGSIZE va \<Longrightarrow> user_zero (snd boot_proc) (fst boot_proc) va"
    using boot_proc_ok by blast
  have "va_in 0 PGSIZE 0" by (simp add: va_in_def PGROUNDDOWN_def PGSIZE_def)
  moreover have "PGSIZE \<le> KERNBASE" by (simp add: PGSIZE_def KERNBASE_def)
  ultimately show ?thesis
    using forkuvm_shares_freed_pages [OF x(1,3,2), of PGSIZE] x(4) user_zero_present by blast
qed

text \<open>
  C25: \<^verbatim>\<open>copyout\<close> to mapped user addresses, over any number of pages, returns 0 after copying: the
  bytes at \<open>buf\<close> are then what user code reads at \<open>va\<close>, through its page table, and no other
  byte of memory has changed.
\<close>

theorem copyout_correct:
  assumes "uvm_ok s pgdir xs" "unat va + unat len \<le> 0x80000000" "unat buf + unat len < 2 ^ 32"
    "\<forall>i<unat len. user_ok s pgdir (va + of_nat i)"
    "\<forall>i<unat len. PGROUNDDOWN (buf + of_nat i) \<notin># upages s pgdir"
  shows "\<exists>s'. copyout pgdir va buf len s = Inr (0, s') \<and> uvm_ok s' pgdir xs \<and>
    (\<forall>i<unat len. pmem s' (uaddr s pgdir (va + of_nat i)) = pmem s (buf + of_nat i)) \<and>
    (\<forall>x. (\<forall>i<unat len. x \<noteq> uaddr s pgdir (va + of_nat i)) \<longrightarrow> pmem s' x = pmem s x)"
  using copyout_spec [OF assms(1-3)] assms(4,5) unfolding copied_def by simp

lemma user_zero_user_ok:
  assumes "user_zero s pgdir va" "va < KERNBASE"
  shows "user_ok s pgdir va"
proof -
  have "PTE_FLAGS (pte_at s pgdir va) = 7"
    using assms(1) by (simp add: user_zero_def PTE_P_def PTE_W_def PTE_U_def)
  then have "bit (pte_at s pgdir va AND 0xFFF) 2" by (simp add: PTE_FLAGS_def bit_numeral_rec)
  then have "bit (pte_at s pgdir va AND PTE_U) 2"
    by (simp add: PTE_U_def bit_and_iff bit_numeral_rec)
  then have "pte_at s pgdir va AND PTE_U \<noteq> 0" by (metis bit_0_eq bot_apply bot_bool_def)
  then show ?thesis using assms user_zero_present by (simp add: user_ok_def)
qed

theorem copyout_correct_witness:
  "\<exists>s'. copyout (fst boot_proc) 10 0x80000000 5 (snd boot_proc) = Inr (0, s') \<and>
    pmem s' (uaddr (snd boot_proc) (fst boot_proc) (10 + of_nat 4)) = pmem (snd boot_proc) (0x80000000 + of_nat 4)"
proof -
  obtain xs where x: "uvm_ok (snd boot_proc) (fst boot_proc) xs" "kernel_layout (snd boot_proc)"
    "\<And>va. va_in 0 PGSIZE va \<Longrightarrow> user_zero (snd boot_proc) (fst boot_proc) va"
    using boot_proc_ok by blast
  have u: "user_ok (snd boot_proc) (fst boot_proc) (10 + of_nat i)" if "i < 5" for i
  proof -
    have "unat (10 + of_nat i :: u32) = 10 + i" using that by (simp add: unat_word_ariths unat_of_nat)
    then show ?thesis using that
      by (intro user_zero_user_ok x(3)) (simp_all add: va_in_def word_less_nat_alt KERNBASE_def PGROUNDDOWN_mult PGSIZE_def)
  qed
  have "PGROUNDDOWN (0x80000000 + of_nat i) \<notin># upages (snd boot_proc) (fst boot_proc)" if "i < 5" for i
  proof -
    have "PGROUNDDOWN (0x80000000 + of_nat i) = 0x80000000"
      using that by (intro PGROUNDDOWN_add) (simp_all add: pg_aligned_def unat_of_nat)
    then show ?thesis using uvm_okD(4) [OF x(1), of "0x80000000"] uvm_okD(3) [OF x(1)] by (auto simp: page_ok_def KERNBASE_def)
  qed
  then show ?thesis
    using copyout_correct [OF x(1), of 10 5 "0x80000000"] u by (auto dest!: spec [of _ 4])
qed

end
