(* ===== verification/Trap_Props.thy ===== *)
theory Trap_Props
  imports Trap Wmap_Props Vm_Props
begin

text \<open>
  The page fault handler on the regions of a process: a fault on an untouched page of an anonymous
  region finds the region in the list and maps one zeroed page.
\<close>

section \<open>Address spaces and writes elsewhere\<close>

lemma uvm_frame:
  assumes ag: "agree_off P s s'" and fl: "freelist s' = freelist s" and ok: "uvm_ok s pgdir xs"
    and d: "set_mset (uvm_pages s pgdir xs) \<inter> P = {}"
  shows "uvm_ok s' pgdir xs" "uvm_pages s' pgdir xs = uvm_pages s pgdir xs" "pte_at s' pgdir va = pte_at s pgdir va"
proof -
  note pt = uvm_okD(1) [OF ok]
  have ne: "pgdir \<notin> P" "set (tables s pgdir) \<inter> P = {}" "set xs \<inter> P = {}" using d by (auto simp: uvm_pages_def)
  have pte: "pte_at s' pgdir va = pte_at s pgdir va" for va using agree_off_pte [OF ag pt_okD(3) [OF pt] ne(1,2)] .
  then show "pte_at s' pgdir va = pte_at s pgdir va" .
  have "upages s' pgdir = upages s pgdir" using pte by (intro upages_cong) simp
  then show up: "uvm_pages s' pgdir xs = uvm_pages s pgdir xs"
    using agree_off_tables [OF ag pt_okD(3) [OF pt] ne(1)] by (simp add: uvm_pages_def)
  show "uvm_ok s' pgdir xs"
    using ok agree_off_free_pages [OF ag fl uvm_okD(2) [OF ok] ne(3)] ag
    by (simp add: uvm_ok_def up agree_off_page_ok [OF ag]) (simp add: agree_off_def)
qed

section \<open>The search for the region\<close>

lemma in_region_iff:
  assumes "wf_regs lo [reg s n]"
  shows "in_region a n s \<longleftrightarrow> fst (reg s n) \<le> unat a \<and> unat a < fst (reg s n) + snd (reg s n)"
proof -
  let ?a = "field lz_addr s n" and ?l = "field lz_length s n"
  have l: "0 < unat ?l" "unat ?a + unat ?l \<le> KB" using assms by (auto simp: reg_def)
  have "unat (?a + ?l) = unat ?a + unat ?l" using l(2) by (simp add: unat_word_ariths KB_def)
  then have "unat (?a + ?l - 1) = unat ?a + unat ?l - 1" using l(1) by (subst unat_sub) (simp_all add: word_le_nat_alt)
  then show ?thesis using l(1) by (auto simp: in_region_def Let_def reg_def field_def word_le_nat_alt)
qed

lemma pgfault_miss_skip:
  assumes "lz_list s (cs @ as @ n # bs)" "\<And>m. m \<in> set as \<Longrightarrow> \<not> in_region a m s" "in_region a n s" "length as < fuel"
  shows "pgfault_miss fuel p a (first (as @ n # bs)) s = bindr (fill_page p a n s) (\<lambda>s. Inr (True, s))"
  using assms
proof (induction as arbitrary: cs fuel)
  case Nil
  have "n \<noteq> 0" using lz_listD(5) [OF Nil(1)] by simp
  then show ?case using Nil by (cases fuel) simp_all
next
  case (Cons m as)
  obtain f where f: "fuel = Suc f" "length as < f" using Cons.prems(4) by (cases fuel) auto
  have "m \<noteq> 0" using lz_listD(5) [OF Cons.prems(1)] by simp
  moreover have "kload (m + lz_next) s = first (as @ n # bs)"
    using next_field [of s cs m "as @ n # bs"] Cons.prems(1) by (simp add: field_def)
  moreover have "pgfault_miss f p a (first (as @ n # bs)) s = bindr (fill_page p a n s) (\<lambda>s. Inr (True, s))"
    using Cons.IH [of "cs @ [m]" f] Cons.prems f(2) by simp
  ultimately show ?case using Cons.prems(2) [of m] f(1) by simp
qed

section \<open>Filling a page\<close>

text \<open>A node outside the pages of the address space, and the pages of all nodes.\<close>

lemma field_agree:
  assumes "agree_off P (km s) (km s')" "pg_aligned n" "n \<notin> P" "l \<in> lz_offs"
  shows "field l s' n = field l s n"
  using agree_off_rd32 [OF assms(1,2) lz_offs_page [OF assms(4)] assms(3)] by (simp add: field_def kload_def)

lemma lz_list_fields:
  assumes "lz_list s ns" "page_ok (km s') = page_ok (km s)"
    "\<And>n l. n \<in> set ns \<Longrightarrow> l \<in> {lz_next, lz_prev} \<Longrightarrow> field l s' n = field l s n"
  shows "lz_list s' ns"
  using assms dls_cong [of ns "field lz_next s'" "field lz_next s" "field lz_prev s'" "field lz_prev s"] by (simp add: lz_list_def)

text \<open>The record of the page in the process.\<close>

definition page_recorded :: "u32 \<Rightarrow> u32 \<Rightarrow> proc \<Rightarrow> proc" where
  "page_recorded a pa x = x\<lparr>n_upages := n_upages x + 1, p_va := (p_va x)(unat (n_upages x) := a),
     p_pa := (p_pa x)(unat (n_upages x) := pa)\<rparr>"

lemma fill_page_anon:
  fixes s :: "'a kst_scheme"
  assumes n: "page_ok (km s) n" "n \<notin># uvm_pages (km s) pgdir (x # ys)" and ok: "uvm_ok (km s) pgdir (x # ys)"
    and pg: "p_pgdir (ptable s p) = pgdir" "unat (n_upages (ptable s p)) < 32" and an: "field lz_fd s n = -1"
  defines "s1 \<equiv> kstore (n + lz_numPages) (field lz_numPages s n + 1) s"
  shows "fill_page p a n s =
    bindr (mappages pgdir a PGSIZE (V2P x) (PTE_W OR PTE_U) (zeroed (km s1) x)) (\<lambda>(_, k).
      Inr ((upd_proc p (page_recorded (field lz_addr s n) (V2P x)) s)\<lparr>km := k\<rparr>))"
    "uvm_ok (km s1) pgdir (x # ys)" "uvm_pages (km s1) pgdir (x # ys) = uvm_pages (km s) pgdir (x # ys)"
    "pte_at (km s1) pgdir va = pte_at (km s) pgdir va" "agree_off {n} (km s) (km s1)"
proof -
  have al: "pg_aligned n" using n(1) by (simp add: page_ok_def)
  show ag: "agree_off {n} (km s) (km s1)" unfolding s1_def using kstore_agree [OF al, of lz_numPages "{n}" s s] by simp
  have fl: "freelist (km s1) = freelist (km s)" by (simp add: s1_def)
  have dj: "set_mset (uvm_pages (km s) pgdir (x # ys)) \<inter> {n} = {}" using n(2) by simp
  note f = uvm_frame [OF ag fl ok dj]
  show ok1: "uvm_ok (km s1) pgdir (x # ys)" and "uvm_pages (km s1) pgdir (x # ys) = uvm_pages (km s) pgdir (x # ys)"
    "pte_at (km s1) pgdir va = pte_at (km s) pgdir va" using f by simp_all
  note z = zeroed_ok [OF ok1]
  have nx: "n \<noteq> x" using n(2) by (auto simp: uvm_pages_def)
  let ?s2 = "s1\<lparr>km := zeroed (km s1) x\<rparr>" and ?r = "page_recorded (field lz_addr s n) (V2P x)"
  have al2: "kalloc_s s1 = (x, s1\<lparr>km := (km s1)\<lparr>freelist := rd32 (pmem (km s1)) x\<rparr>\<rparr>)"
    using z(1) by (simp add: kalloc_s_def)
  have ms: "upd_pmem (\<lambda>m. memset m x 0 PGSIZE) (s1\<lparr>km := (km s1)\<lparr>freelist := rd32 (pmem (km s1)) x\<rparr>\<rparr>) = ?s2"
    by (simp add: upd_pmem_def upd_km_def zeroed_def)
  have rec: "record_page p (field lz_addr s n) (V2P x) ?s2 = Inr (upd_proc p ?r ?s2)"
    using pg(2) by (simp add: record_page_def page_recorded_def s1_def upd_proc_def kstore_def upd_pmem_def upd_km_def Let_def)
  have fd: "kload (n + lz_fd) (upd_proc p ?r ?s2) = -1"
  proof -
    have "field lz_fd ?s2 n = field lz_fd s1 n" using z(5) nx al by (intro field_agree [where P = "{x}"]) simp_all
    then show ?thesis using an al by (simp add: s1_def field_kstore field_def [symmetric])
  qed
  have run: "map_user_page pgdir a x (upd_proc p ?r ?s2) = bindr (mappages pgdir a PGSIZE (V2P x) (PTE_W OR PTE_U) (zeroed (km s1) x)) (\<lambda>(_, k).
      Inr ((upd_proc p ?r s)\<lparr>km := k\<rparr>))"
    by (simp add: map_user_page_def in_km_def bindr_assoc case_prod_beta' upd_proc_def s1_def kstore_def upd_pmem_def upd_km_def)
  show "fill_page p a n s = bindr (mappages pgdir a PGSIZE (V2P x) (PTE_W OR PTE_U) (zeroed (km s1) x)) (\<lambda>(_, k).
      Inr ((upd_proc p ?r s)\<lparr>km := k\<rparr>))"
    unfolding fill_page_def Let_def field_def [symmetric] s1_def [symmetric] al2 using z(2) ms rec fd run pg(1) by (simp add: field_def)
qed

text \<open>\<^verbatim>\<open>pgfault\<close> goes to the node whose region holds the page.\<close>

lemma pgfault_region:
  fixes s :: "'a kst_scheme"
  assumes "cur s = Some p" "lz_list s ns" "p_head (ptable s p) = hd ns" "wf_regs MB (regs s ns)" "n \<in> set ns"
    "reg s n = (b, l)" "b \<le> unat (PGROUNDDOWN cr2)" "unat (PGROUNDDOWN cr2) < b + l" "err AND 1 = 0"
  shows "pgfault err cr2 s = fill_page p (PGROUNDDOWN cr2) n s"
proof -
  let ?a = "PGROUNDDOWN cr2"
  obtain as bs where ns: "ns = as @ n # bs" using split_list [OF assms(5)] by blast
  have w: "wf_regs MB [reg s m]" if "m \<in> set ns" for m
  proof -
    have "(fst (reg s m), snd (reg s m)) \<in> set (regs s ns)" using that by simp
    from wf_regs_mem [OF assms(4) this] show ?thesis by (cases "reg s m") auto
  qed
  have "\<not> in_region ?a m s" if "m \<in> set as" for m
  proof -
    have "(fst (reg s m), snd (reg s m)) \<in> set (regs s as)" using that by simp
    then have "fst (reg s m) + snd (reg s m) \<le> b" using wf_regs_before [of MB "regs s as" b l "regs s bs"] assms(4,6) ns by simp
    then show ?thesis using in_region_iff [OF w, of m] that ns assms(7) by simp
  qed
  moreover have "in_region ?a n s" using in_region_iff [OF w [OF assms(5)]] assms(6-8) by simp
  moreover have "length as < lazy_fuel" using lz_list_length [OF assms(2)] ns by simp
  moreover have "first (as @ n # bs) = hd ns" by (simp add: ns first_def)
  ultimately have "pgfault_miss lazy_fuel p ?a (hd ns) s = bindr (fill_page p ?a n s) (\<lambda>s. Inr (True, s))"
    using pgfault_miss_skip [of s "[]" as n bs ?a lazy_fuel p] assms(2) ns by simp
  then show ?thesis using assms(1,3,9) by (simp add: pgfault_def myproc_def bindr_assoc) (simp add: bindr_def split: sum.splits)
qed

section \<open>The property\<close>

text \<open>
  C11: a fault on a missing page that lies in an anonymous region of the process finds the region and maps
  exactly that page, zeroed, writable and accessible to user code; every other page table entry, the list
  of regions and the regions stay as they are, and no page is lost or handed out twice. Only when the
  free list runs out while a page table is needed is the page not mapped: the result of \<^verbatim>\<open>mappages\<close> is
  not looked at, the page taken for it belongs to no one, and the process faults again on return.
\<close>

theorem pgfault_maps_zero_page:
  fixes s :: "'a kst_scheme"
  assumes "cur s = Some p" "lz_list s ns" "p_head (ptable s p) = hd ns" "wf_regs MB (regs s ns)" "n \<in> set ns"
    "reg s n = (b, l)" "b \<le> unat (PGROUNDDOWN cr2)" "unat (PGROUNDDOWN cr2) < b + l" "err AND 1 = 0" "field lz_fd s n = -1"
    and pgdir: "p_pgdir (ptable s p) = pgdir" "unat (n_upages (ptable s p)) < 32" and ok: "uvm_ok (km s) pgdir (x # ys)"
    and dj: "set ns \<inter> set_mset (uvm_pages (km s) pgdir (x # ys)) = {}" and miss: "pte_at (km s) pgdir cr2 AND PTE_P = 0"
  shows "\<exists>s'. pgfault err cr2 s = Inr s' \<and> lz_list s' ns \<and> regs s' ns = regs s ns \<and>
    (\<forall>va. \<not> same_page va cr2 \<longrightarrow> pte_at (km s') pgdir va = pte_at (km s) pgdir va) \<and>
    ((\<exists>zs. user_zero (km s') pgdir cr2 \<and> uvm_ok (km s') pgdir zs \<and>
        uvm_pages (km s') pgdir zs = uvm_pages (km s) pgdir (x # ys)) \<or>
     (pte_at (km s') pgdir cr2 = pte_at (km s) pgdir cr2 \<and> uvm_ok (km s') pgdir [] \<and>
        add_mset x (uvm_pages (km s') pgdir []) = uvm_pages (km s) pgdir (x # ys)))"
proof -
  let ?a = "PGROUNDDOWN cr2" and ?s1 = "kstore (n + lz_numPages) (field lz_numPages s n + 1) s"
  have pok: "page_ok (km s) m" "pg_aligned m" "m \<notin># uvm_pages (km s) pgdir (x # ys)" if "m \<in> set ns" for m
    using lz_listD(3,4) [OF assms(2) that] that dj by auto
  note f = fill_page_anon [OF pok(1) [OF assms(5)] pok(3) [OF assms(5)] ok pgdir assms(10)]
  have kb: "b + l \<le> KB" using wf_regs_mem [OF assms(4), of b l] assms(5,6) by (metis image_eqI set_map)
  have a: "?a \<in> user_vas" using assms(8) kb unat_KERNBASE by (simp add: user_vas_def word_less_nat_alt)
  have np: "pte_at (km ?s1) pgdir ?a AND PTE_P = 0" using miss by (simp add: f(4) pte_at_rounddown)
  have sp: "same_page va ?a \<longleftrightarrow> same_page va cr2" for va by (simp add: same_page_iff PGROUNDDOWN_aligned)
  let ?r = "\<lambda>k. (upd_proc p (page_recorded (field lz_addr s n) (V2P x)) s)\<lparr>km := k\<rparr>"
  have keep: "lz_list (?r k) ns" "regs (?r k) ns = regs s ns" if k: "agree_off (pt_pages (km ?s1) pgdir (x # ys)) (km ?s1) k" for k
  proof -
    have sub: "pt_pages (km ?s1) pgdir (x # ys) \<subseteq> set_mset (uvm_pages (km s) pgdir (x # ys))"
      unfolding f(3) [symmetric] by (auto simp: pt_pages_def uvm_pages_def)
    have fld: "field j (?r k) m = field j s m" if "m \<in> set ns" "j \<in> lz_offs" "j \<noteq> lz_numPages" for m j
    proof -
      have "field j (?r k) m = field j ?s1 m"
        using field_agree [of "pt_pages (km ?s1) pgdir (x # ys)" ?s1 "?r k" m j] k pok(2,3) [OF that(1)] sub that(2) by auto
      then show ?thesis using field_kstore [OF pok(2) [OF assms(5)] pok(2) [OF that(1)] _ that(2), of lz_numPages] that(3) by auto
    qed
    have "page_ok k = page_ok (km s)" using agree_off_page_ok [OF k] agree_off_page_ok [OF f(5)] by simp
    then show "lz_list (?r k) ns" using fld by (intro lz_list_fields [OF assms(2)]) auto
    show "regs (?r k) ns = regs s ns" using fld by (simp add: reg_def)
  qed
  show ?thesis
    using f(2) a np
  proof (cases rule: alloc_step)
    case (fail s2)
    have "pgfault err cr2 s = Inr (?r s2)" using fail(1) f(1) pgfault_region [OF assms(1-9)] by simp
    then show ?thesis using keep [OF fail(4)] fail(2,3,5) f(3,4) by (intro exI [of _ "?r s2"]) simp
  next
    case (good s2 zs)
    have "pgfault err cr2 s = Inr (?r s2)" using good(1) f(1) pgfault_region [OF assms(1-9)] by simp
    moreover have "uvm_ok s2 pgdir zs" "uvm_pages s2 pgdir zs = uvm_pages (km s) pgdir (x # ys)"
      using evolves_ok [OF good(2) f(2)] good(2) f(3) by (simp_all add: evolves_def)
    ultimately show ?thesis using keep [OF good(3)] good(5,6) f(4) sp by (intro exI [of _ "?r s2"]) auto
  qed
qed

section \<open>An example\<close>

text \<open>A process with the page directory of \<open>boot_vm\<close> and one anonymous region of four pages.\<close>

definition ex_node :: u32 where "ex_node = fst (kalloc (snd boot_vm))"

definition ex_fault :: kst where
  "ex_fault = ex_kst (snd (kalloc (snd boot_vm))\<lparr>pmem := put_node ex_node 0x60000000 0x4000 0 0 (pmem (snd (kalloc (snd boot_vm))))\<rparr>)
     (ex_proc\<lparr>p_pgdir := fst boot_vm, p_head := ex_node, p_tail := ex_node\<rparr>)"

lemma uvm_take:
  assumes ok: "uvm_ok s pgdir (n # xs)"
  shows "uvm_ok (s\<lparr>freelist := rd32 (pmem s) n\<rparr>) pgdir xs" "n \<notin># uvm_pages (s\<lparr>freelist := rd32 (pmem s) n\<rparr>) pgdir xs"
    "pte_at (s\<lparr>freelist := rd32 (pmem s) n\<rparr>) pgdir va = pte_at s pgdir va"
    "add_mset n (uvm_pages (s\<lparr>freelist := rd32 (pmem s) n\<rparr>) pgdir xs) = uvm_pages s pgdir (n # xs)"
proof -
  let ?t = "s\<lparr>freelist := rd32 (pmem s) n\<rparr>"
  have ag: "agree_off {} s ?t" by (simp add: agree_off_def)
  have pte: "pte_at ?t pgdir va = pte_at s pgdir va" for va using agree_off_pte [OF ag pt_okD(3) [OF uvm_okD(1) [OF ok]]] by simp
  then show "pte_at ?t pgdir va = pte_at s pgdir va" .
  show eq: "add_mset n (uvm_pages ?t pgdir xs) = uvm_pages s pgdir (n # xs)"
    using agree_off_tables [OF ag pt_okD(3) [OF uvm_okD(1) [OF ok]]] upages_cong [OF pte] by (simp add: uvm_pages_def)
  have "uniq (add_mset n (uvm_pages ?t pgdir xs))" using ok by (simp add: uvm_ok_def eq)
  then show "n \<notin># uvm_pages ?t pgdir xs" using uniq_disjoint [of "{#n#}" "uvm_pages ?t pgdir xs" n] by simp
  have "uniq (uvm_pages ?t pgdir xs)" using \<open>uniq (add_mset n (uvm_pages ?t pgdir xs))\<close> by (rule uniq_subset) simp
  moreover have "\<forall>p \<in># uvm_pages ?t pgdir xs. page_ok s p" using ok eq [symmetric] by (simp add: uvm_ok_def)
  ultimately show "uvm_ok ?t pgdir xs"
    using ok kalloc_pop(2) [OF uvm_okD(2) [OF ok]] agree_off_page_ok [OF ag] by (simp add: uvm_ok_def)
qed

lemma put_node_frame:
  assumes "pg_aligned n"
  shows "agree_off {n} s (s\<lparr>pmem := put_node n addr len nxt prv (pmem s)\<rparr>)"
proof -
  have off: "page_off k" if "k \<in> {lz_addr, lz_length, lz_fd, lz_used, lz_next, lz_prev}" for k
    using that by (auto intro!: lz_offs_page)
  show ?thesis using assms off by (auto simp: agree_off_def put_node_def wr32_other_page)
qed

lemma put_node_field:
  assumes "pg_aligned n"
  shows "rd32 (put_node n addr len nxt prv m) (n + lz_addr) = addr" "rd32 (put_node n addr len nxt prv m) (n + lz_length) = len"
    "rd32 (put_node n addr len nxt prv m) (n + lz_fd) = -1" "rd32 (put_node n addr len nxt prv m) (n + lz_next) = nxt"
    "rd32 (put_node n addr len nxt prv m) (n + lz_prev) = prv"
  using assms by (simp_all add: put_node_def node_rd_wr)

theorem pgfault_maps_zero_page_witness:
  "\<exists>s'. pgfault 0 0x60001234 ex_fault = Inr s' \<and> lz_list s' [ex_node] \<and> regs s' [ex_node] = [(0x60000000, 0x4000)]"
proof -
  let ?d = "fst boot_vm" and ?s = "snd boot_vm"
  obtain zs where b: "uvm_ok ?s ?d zs" "length zs + length (tables ?s ?d) = 4095" "\<And>va. va < KERNBASE \<Longrightarrow> pte_at ?s ?d va = 0"
    using boot_vm_ok by blast
  have "2 < length zs" using b(2) tables_length [of ?s ?d] by simp
  then obtain n ws where ws: "zs = n # ws" "1 < length ws" by (cases zs) auto
  then obtain x ys where zs: "zs = n # x # ys" by (cases ws) auto
  note ok = b(1) [unfolded zs]
  have n: "page_ok ?s n" "pg_aligned n" using uvm_okD(2) [OF ok] by (auto simp: free_pages_def page_ok_def)
  let ?t = "?s\<lparr>freelist := rd32 (pmem ?s) n\<rparr>"
  have kn: "kalloc ?s = (n, ?t)" using kalloc_pop(1) [OF uvm_okD(2) [OF ok]] .
  then have en: "ex_node = n" by (simp add: ex_node_def)
  let ?k = "?t\<lparr>pmem := put_node n 0x60000000 0x4000 0 0 (pmem ?t)\<rparr>"
  have k: "km ex_fault = ?k" "p_pgdir (ptable ex_fault 1) = ?d" "p_head (ptable ex_fault 1) = n" "n_upages (ptable ex_fault 1) = 0" "cur ex_fault = Some 1"
    using kn by (simp_all add: ex_fault_def en ex_proc_def)
  note t = uvm_take [OF ok] and ag = put_node_frame [OF n(2), of ?t "0x60000000" "0x4000" 0 0]
  have dj: "set_mset (uvm_pages ?t ?d (x # ys)) \<inter> {n} = {}" using t(2) by simp
  note u = uvm_frame [OF ag _ t(1) dj, simplified]
  have fld: "field lz_addr ex_fault n = 0x60000000" "field lz_length ex_fault n = 0x4000" "field lz_fd ex_fault n = -1"
    "field lz_next ex_fault n = 0" "field lz_prev ex_fault n = 0"
    using put_node_field [OF n(2)] k(1) by (simp_all add: field_def kload_def)
  have r: "reg ex_fault n = (0x60000000, 0x4000)" using fld by (simp add: reg_def)
  have l: "lz_list ex_fault [n]" using fld n k(1) by (simp add: lz_list_def page_ok_def)
  have "pte_at (km ex_fault) ?d 0x60001234 AND PTE_P = 0" using u(3) t(3) b(3) [of "0x60001234"] k(1) by (simp add: KERNBASE_def)
  then show ?thesis
    using pgfault_maps_zero_page [where s = ex_fault and p = 1 and ns = "[n]" and n = n and pgdir = ?d and x = x and ys = ys
        and ?cr2.0 = "0x60001234" and err = 0 and b = "0x60000000" and l = "0x4000"] k l r fld u(1,2) t(2)
    by (auto simp: en MB_def KB_def PGROUNDDOWN_def PGSIZE_def)
qed

end
