(* ===== verification/Wmap_Unmap.thy ===== *)
theory Wmap_Unmap
  imports Trap_Props
begin

text \<open>
  What \<^verbatim>\<open>wunmap\<close> does to a region with a region before it and one behind it: the pages that were touched
  go back to the free list, their entries are cleared, and the node leaves the list. The other
  cases leave the process with a dangling pointer or a wrong page count.
\<close>

section \<open>The pages of a region\<close>

lemma unmap_page:
  fixes s :: "'a kst_scheme"
  assumes ok: "uvm_ok (km s) pgdir xs" and va: "va \<in> user_vas" and pd: "pd_present (km s) pgdir (PDX va)"
  obtains k ys where "wunmap_pte pgdir va (\<lambda>_. Inr) s = Inr (s\<lparr>km := k\<rparr>)" "evolves pgdir (km s) xs k ys"
    "\<And>v. pte_at k pgdir v = (if same_page v va \<and> pte_at (km s) pgdir va AND PTE_P \<noteq> 0 then 0 else pte_at (km s) pgdir v)"
    "\<And>v. pd_present k pgdir (PDX v) = pd_present (km s) pgdir (PDX v)"
proof -
  let ?k = "km s" and ?t = "pgtab_at (km s) pgdir (PDX va)"
  have al: "va \<in> user_vas" "pg_aligned va" using va by (simp_all add: user_vas_def)
  note pt = uvm_okD(1) [OF ok]
  have tm: "?t \<in> set (tables ?k pgdir)" using pgtab_mem_tables [OF pd] .
  then have tok: "page_ok ?k ?t" using pt by (simp add: pt_ok_def)
  have w: "walkpgdir pgdir va False ?k = (?t + 4 * PTX va, ?k)" and nz: "?t + 4 * PTX va \<noteq> 0"
    and e: "rd32 (pmem ?k) (?t + 4 * PTX va) = pte_at ?k pgdir va"
    using walkpgdir_present [OF pd] slot_nonzero [OF tok, of "PTX va"] pd by (simp_all add: pte_at_def)
  show thesis
  proof (cases "pte_at ?k pgdir va AND PTE_P = 0")
    case True
    then have "wunmap_pte pgdir va (\<lambda>_. Inr) s = Inr (s\<lparr>km := ?k\<rparr>)" using w nz e by (simp add: wunmap_pte_def kload_def)
    then show thesis using that [of ?k xs] evolves_refl [OF uvm_okD(2) [OF ok]] True by simp
  next
    case False
    let ?p = "P2V (PTE_ADDR (pte_at ?k pgdir va))"
    from unmap_step [OF ok va False] obtain s1 s2 where u: "kfree ?p ?k = Inr s1"
      "s2 = s1\<lparr>pmem := wr32 (pmem s1) (?t + 4 * PTX va) 0\<rparr>" "evolves pgdir ?k xs s2 (?p # xs)"
      "\<And>v. pte_at s2 pgdir v = (if same_page v va then 0 else pte_at ?k pgdir v)" by blast
    have "?p \<in># upages ?k pgdir" using upages_member [OF va False] .
    note p = uvm_okD(4) [OF ok this, THEN conjunct1] uvm_okD(4) [OF ok this, THEN conjunct2]
    note f = kfree_user [OF ok p u(1)]
    have "pg_aligned ?t" "pgdir \<noteq> ?t" using tm pt by (auto simp: pt_ok_def pgtab_at_def)
    then have "agree_off {?t} s1 s2" unfolding u(2) by (intro agree_off_wr32) simp_all
    then have "pd_present s2 pgdir (PDX v) = pd_present s1 pgdir (PDX v)" for v
      using agree_off_pde(2) [OF _ pt_okD(3) [OF pt], of "{?t}" s1 s2 "PDX v"] \<open>pgdir \<noteq> ?t\<close> by simp
    then have "pd_present s2 pgdir (PDX v) = pd_present ?k pgdir (PDX v)" for v using f(5) by simp
    moreover have "wunmap_pte pgdir va (\<lambda>_. Inr) s = Inr (s\<lparr>km := s2\<rparr>)"
      using w nz e u(1,2) False by (simp add: wunmap_pte_def kload_def kfree_s_def kstore_def upd_pmem_def upd_km_def)
    ultimately show thesis using that u(3,4) False by simp
  qed
qed

lemma unmap_pages:
  fixes s :: "'a kst_scheme"
  assumes "uvm_ok (km s) pgdir xs" "\<And>i. i \<in> set is \<Longrightarrow> addr + i \<in> user_vas"
    "\<And>i. i \<in> set is \<Longrightarrow> pd_present (km s) pgdir (PDX (addr + i))"
  shows "\<exists>k ys. forr is (\<lambda>i. wunmap_pte pgdir (addr + i) (\<lambda>_. Inr)) s = Inr (s\<lparr>km := k\<rparr>) \<and> evolves pgdir (km s) xs k ys \<and>
    (\<forall>v. (\<exists>i \<in> set is. same_page v (addr + i)) \<longrightarrow> pte_at k pgdir v AND PTE_P = 0) \<and>
    (\<forall>v. \<not> (\<exists>i \<in> set is. same_page v (addr + i)) \<longrightarrow> pte_at k pgdir v = pte_at (km s) pgdir v)"
  using assms
proof (induction "is" arbitrary: s xs)
  case Nil
  then show ?case using evolves_refl [OF uvm_okD(2) [OF Nil(1)]] by (intro exI [of _ "km s"] exI [of _ xs]) simp
next
  case (Cons i "is")
  obtain k ys where k: "wunmap_pte pgdir (addr + i) (\<lambda>_. Inr) s = Inr (s\<lparr>km := k\<rparr>)" "evolves pgdir (km s) xs k ys"
    "\<And>v. pte_at k pgdir v = (if same_page v (addr + i) \<and> pte_at (km s) pgdir (addr + i) AND PTE_P \<noteq> 0 then 0 else pte_at (km s) pgdir v)"
    "\<And>v. pd_present k pgdir (PDX v) = pd_present (km s) pgdir (PDX v)"
    using unmap_page [OF Cons.prems(1), of "addr + i"] Cons.prems(2,3) by (metis list.set_intros(1))
  have gone: "pte_at k pgdir v AND PTE_P = 0" if "same_page v (addr + i)" for v
    using k(3) [of v] that pte_at_same_page [OF that, of "km s" pgdir] by auto
  have "\<exists>k' zs. forr is (\<lambda>i. wunmap_pte pgdir (addr + i) (\<lambda>_. Inr)) (s\<lparr>km := k\<rparr>) = Inr (s\<lparr>km := k\<rparr>\<lparr>km := k'\<rparr>) \<and>
    evolves pgdir k ys k' zs \<and> (\<forall>v. (\<exists>i \<in> set is. same_page v (addr + i)) \<longrightarrow> pte_at k' pgdir v AND PTE_P = 0) \<and>
    (\<forall>v. \<not> (\<exists>i \<in> set is. same_page v (addr + i)) \<longrightarrow> pte_at k' pgdir v = pte_at k pgdir v)"
    using Cons.IH [of "s\<lparr>km := k\<rparr>" ys] evolves_ok [OF k(2) Cons.prems(1)] Cons.prems(2,3) k(4) by simp
  then obtain k' zs where k': "forr is (\<lambda>i. wunmap_pte pgdir (addr + i) (\<lambda>_. Inr)) (s\<lparr>km := k\<rparr>) = Inr (s\<lparr>km := k'\<rparr>)"
    "evolves pgdir k ys k' zs" "\<And>v. (\<exists>i \<in> set is. same_page v (addr + i)) \<Longrightarrow> pte_at k' pgdir v AND PTE_P = 0"
    "\<And>v. \<not> (\<exists>i \<in> set is. same_page v (addr + i)) \<Longrightarrow> pte_at k' pgdir v = pte_at k pgdir v" by auto
  have "pte_at k' pgdir v AND PTE_P = 0" if "\<exists>j \<in> set (i # is). same_page v (addr + j)" for v
    using that gone [of v] k'(3,4) [of v] by (cases "\<exists>j \<in> set is. same_page v (addr + j)") auto
  moreover have "pte_at k' pgdir v = pte_at (km s) pgdir v" if "\<not> (\<exists>j \<in> set (i # is). same_page v (addr + j))" for v
    using that k'(4) [of v] k(3) [of v] by auto
  ultimately show ?case using k(1) k'(1) evolves_trans [OF k(2) k'(2)] by (intro exI [of _ k'] exI [of _ zs]) auto
qed

section \<open>The record of pages\<close>

lemma wunmap_swaps:
  assumes "unat (n_upages x) \<le> 32" "j \<le> unat (n_upages x)" "1 \<le> unat rc" "unat rc \<le> j + 1"
  shows "\<exists>rc' va' pa'. forr [j..<unat (n_upages x)] (wunmap_swap a) (rc, x\<lparr>p_va := va, p_pa := pa\<rparr>) = Inr (rc', x\<lparr>p_va := va', p_pa := pa'\<rparr>) \<and>
    1 \<le> unat rc' \<and> unat rc' \<le> unat (n_upages x) + 1"
  using assms(2-)
proof (induction "unat (n_upages x) - j" arbitrary: j rc va pa)
  case 0
  have e: "[j..<unat (n_upages x)] = []" "unat rc \<le> unat (n_upages x) + 1" using 0 by simp_all
  show ?case unfolding e(1) forr.simps using 0(3) e(2) by blast
next
  case (Suc m)
  let ?n = "unat (n_upages x)" and ?y = "x\<lparr>p_va := va, p_pa := pa\<rparr>"
  have j: "j < ?n" "j < 32" "[j..<?n] = j # [Suc j..<?n]" using Suc(2) assms(1) by (simp_all add: upt_rec)
  have m: "m = ?n - Suc j" using Suc(2) by simp
  have "\<exists>rc' va' pa'. wunmap_swap a j (rc, ?y) = Inr (rc', x\<lparr>p_va := va', p_pa := pa'\<rparr>) \<and> 1 \<le> unat rc' \<and> unat rc' \<le> Suc j + 1"
  proof (cases "va j = a")
    case True
    have "unat (rc + 1) = unat rc + 1" using Suc(5) j(2) by (simp add: unat_word_ariths)
    moreover have "unat (n_upages x - rc) = ?n - unat rc" using Suc(5) j by (simp add: unat_sub word_le_nat_alt)
    moreover have "\<not> 32 \<le> ?n - unat rc" using Suc(4) assms(1) j by linarith
    ultimately show ?thesis using True Suc(4,5) j
      by (intro exI [of _ "rc + 1"] exI [of _ "va(j := va (?n - unat rc), ?n - unat rc := -1)"]
        exI [of _ "pa(j := pa (?n - unat rc), ?n - unat rc := -1)"]) (simp add: wunmap_swap_def Let_def)
  next
    case False
    then show ?thesis using Suc(4,5) j by (intro exI [of _ rc] exI [of _ va] exI [of _ pa]) (simp add: wunmap_swap_def)
  qed
  then obtain rc' va' pa' where r: "wunmap_swap a j (rc, ?y) = Inr (rc', x\<lparr>p_va := va', p_pa := pa'\<rparr>)" "1 \<le> unat rc'" "unat rc' \<le> Suc j + 1"
    by blast
  show ?case using Suc(1) [OF m _ r(2,3)] j r(1) by simp
qed

text \<open>The number of recorded pages drops by at least two, whatever was recorded.\<close>

lemma wunmap_info_spec:
  assumes "unat (n_upages x) \<le> 32"
  obtains c va pa where "wunmap_info a x = Inr (x\<lparr>n_upages := n_upages x - of_nat c, p_va := va, p_pa := pa\<rparr>)" "2 \<le> c" "c \<le> unat (n_upages x) + 2"
proof -
  obtain rc va pa where r: "forr [0..<unat (n_upages x)] (wunmap_swap a) (1, x) = Inr (rc, x\<lparr>p_va := va, p_pa := pa\<rparr>)" "1 \<le> unat rc"
    "unat rc \<le> unat (n_upages x) + 1"
    using wunmap_swaps [OF assms, where va = "p_va x" and pa = "p_pa x" and j = 0 and rc = 1 and a = a] by auto
  have "wunmap_info a x = Inr (x\<lparr>n_upages := n_upages x - of_nat (Suc (unat rc)), p_va := va, p_pa := pa\<rparr>)"
    using r(1) by (simp add: wunmap_info_def)
  then show thesis by (rule that) (use r(2,3) in simp_all)
qed

section \<open>Leaving the list\<close>

lemma dls_remove:
  assumes l: "dls nx pv 0 (as @ n # bs) 0" "as \<noteq> []" "bs \<noteq> []" and d: "distinct (as @ n # bs)"
    and x: "nx' (last as) = hd bs" "pv' (hd bs) = last as" "nx' (hd bs) = nx (hd bs)"
    and same: "\<And>m. m \<in> set as \<Longrightarrow> pv' m = pv m" "\<And>m. m \<in> set as \<Longrightarrow> m \<noteq> last as \<Longrightarrow> nx' m = nx m"
      "\<And>m. m \<in> set (tl bs) \<Longrightarrow> nx' m = nx m \<and> pv' m = pv m"
  shows "dls nx' pv' 0 (as @ bs) 0"
proof -
  obtain b cs where bs: "bs = b # cs" using l(3) by (cases bs) auto
  have a: "dls nx pv 0 as n" and b: "nx b = (if cs = [] then 0 else hd cs)" "dls nx pv b cs 0"
    using l by (auto simp: dls_append bs)
  have "dls nx' pv' 0 as b" using dls_relink [OF a l(2) _ same(1,2) x(1)] d by (simp add: bs)
  moreover have "dls nx' pv' b cs 0" using b(2) dls_cong [of cs nx' nx pv' pv] same(3) by (simp add: bs)
  ultimately show ?thesis using b(1) x(2,3) l(2) by (simp add: dls_append bs)
qed

lemma wunmap_unlink_inner:
  fixes s :: "'a kst_scheme"
  assumes l: "lz_list s (as @ n # bs)" and ne: "as \<noteq> []" "bs \<noteq> []"
  defines "s1 \<equiv> kstore (hd bs + lz_prev) (last as) (kstore (last as + lz_next) (hd bs) s)"
  shows "wunmap_unlink n s = Inr s1" "lz_list s1 (as @ bs)" "agree_off {last as, hd bs} (km s) (km s1)"
    "\<And>m j. pg_aligned m \<Longrightarrow> j \<in> lz_offs \<Longrightarrow> j \<notin> {lz_next, lz_prev} \<Longrightarrow> field j s1 m = field j s m"
proof -
  note D = lz_listD [OF l]
  have mem: "last as \<in> set (as @ n # bs)" "hd bs \<in> set (as @ n # bs)" "n \<in> set (as @ n # bs)" using ne by simp_all
  note al = D(4) [OF mem(1)] D(4) [OF mem(2)] D(4) [OF mem(3)]
  have links: "field lz_prev s n = last as" "field lz_next s n = hd bs" using D(6) ne by (simp_all add: dls_append)
  have nz: "last as \<noteq> 0" "hd bs \<noteq> 0" using D(5) mem by blast+
  show "wunmap_unlink n s = Inr s1" using links nz by (simp add: wunmap_unlink_def field_def s1_def Let_def)
  have fld: "field j s1 m = (if m = hd bs \<and> j = lz_prev then last as else if m = last as \<and> j = lz_next then hd bs else field j s m)"
    if "pg_aligned m" "j \<in> lz_offs" for m j
    using al that by (auto simp: s1_def field_kstore)
  then show "\<And>m j. pg_aligned m \<Longrightarrow> j \<in> lz_offs \<Longrightarrow> j \<notin> {lz_next, lz_prev} \<Longrightarrow> field j s1 m = field j s m" by simp
  obtain b cs where bs: "bs = b # cs" using ne(2) by (cases bs) auto
  have la: "last as \<in> set as" using ne(1) by simp
  then have sep: "last as \<noteq> b" "b \<notin> set as" "last as \<notin> set cs" "b \<notin> set cs" using D(2) unfolding bs by auto
  have "dls (field lz_next s1) (field lz_prev s1) 0 (as @ bs) 0"
  proof (rule dls_remove [OF D(6) ne D(2)])
    show "field lz_next s1 (last as) = hd bs" "field lz_prev s1 (hd bs) = last as" "field lz_next s1 (hd bs) = field lz_next s (hd bs)"
      using fld [OF al(1)] fld [OF al(2)] sep(1) by (simp_all add: bs)
    show "field lz_prev s1 m = field lz_prev s m" if "m \<in> set as" for m using fld [OF D(4) [of m]] that sep(2) by (auto simp: bs)
    show "field lz_next s1 m = field lz_next s m" if "m \<in> set as" "m \<noteq> last as" for m using fld [OF D(4) [of m]] that by simp
    show "field lz_next s1 m = field lz_next s m \<and> field lz_prev s1 m = field lz_prev s m" if "m \<in> set (tl bs)" for m
      using fld [OF D(4) [of m]] that sep(3,4) by (auto simp: bs)
  qed
  moreover show ag: "agree_off {last as, hd bs} (km s) (km s1)" unfolding s1_def using al by (intro kstore_agree) simp_all
  ultimately show "lz_list s1 (as @ bs)" using D(2,3) ne agree_off_page_ok [OF ag] by (auto simp: lz_list_def)
qed

lemma wunmap_loop_skip:
  assumes "lz_list s (cs @ as @ n # bs)" "\<And>m. m \<in> set as \<Longrightarrow> field lz_addr s m \<noteq> a" "field lz_addr s n = a" "length as < fuel"
  shows "wunmap_loop fuel (first (as @ n # bs)) a s = bindr (wunmap_node n s) (\<lambda>s. Inr (0, s))"
  using assms
proof (induction as arbitrary: cs fuel)
  case Nil
  have "n \<noteq> 0" using lz_listD(5) [OF Nil(1)] by simp
  then show ?case using Nil by (cases fuel) (simp_all add: field_def)
next
  case (Cons m as)
  obtain f where f: "fuel = Suc f" "length as < f" using Cons.prems(4) by (cases fuel) auto
  have "m \<noteq> 0" using lz_listD(5) [OF Cons.prems(1)] by simp
  moreover have "kload (m + lz_next) s = first (as @ n # bs)"
    using next_field [of s cs m "as @ n # bs"] Cons.prems(1) by (simp add: field_def)
  moreover have "wunmap_loop f (first (as @ n # bs)) a s = bindr (wunmap_node n s) (\<lambda>s. Inr (0, s))"
    using Cons.IH [of "cs @ [m]" f] Cons.prems f(2) by simp
  ultimately show ?case using Cons.prems(2) [of m] f(1) by (simp add: field_def)
qed

text \<open>The pages of a region are those its loop visits.\<close>

lemma page_offs_region:
  assumes "pg_aligned a" "0 < unat len" "unat a + unat len \<le> KB" "unat len < KB"
  shows "i \<in> set (page_offs len) \<Longrightarrow> a + i \<in> user_vas \<and> va_in a (a + len) (a + i)"
    "(\<exists>i \<in> set (page_offs len). same_page v (a + i)) \<longleftrightarrow> va_in a (a + len) v"
proof -
  have "sint len = int (unat len)" using sint_small [of "unat len"] assms(4) by (simp add: KB_def)
  then have offs: "page_offs len = map (\<lambda>k. of_nat (4096 * k)) [0..<(unat len + 4095) div 4096]" by (simp add: page_offs_def)
  have bound: "k < (unat len + 4095) div 4096 \<longleftrightarrow> 4096 * k < unat len" for k by (auto simp: less_eq_div_iff_mult_less_eq Suc_le_eq [symmetric]) 
  have end': "unat (a + len) = unat a + unat len" using assms(3) by (simp add: unat_word_ariths KB_def)
  have el: "unat (a + of_nat (4096 * k)) = unat a + 4096 * k" "pg_aligned (a + of_nat (4096 * k))" if "4096 * k < unat len" for k
  proof -
    have "unat (of_nat (4096 * k) :: u32) = 4096 * k" using that assms(4) by (intro unat_of_nat_KB) simp
    then show u: "unat (a + of_nat (4096 * k)) = unat a + 4096 * k" using that assms(3) by (simp add: unat_word_ariths KB_def)
    have "(unat a + 4096 * k) mod 4096 = 0" using assms(1) by (simp add: pg_aligned_iff_mod)
    then show "pg_aligned (a + of_nat (4096 * k))" unfolding pg_aligned_iff_mod u .
  qed
  show 1: "a + i \<in> user_vas \<and> va_in a (a + len) (a + i)" if i: "i \<in> set (page_offs len)" for i
  proof -
    obtain k where k: "i = of_nat (4096 * k)" "4096 * k < unat len" using i by (auto simp: offs bound simp del: of_nat_mult)
    note e = el [OF k(2), folded k(1)]
    show ?thesis using e PGROUNDDOWN_aligned [OF e(2)] k(2) assms(3) end' unat_KERNBASE
      by (simp add: user_vas_def va_in_def word_le_nat_alt word_less_nat_alt)
  qed
  show "(\<exists>i \<in> set (page_offs len). same_page v (a + i)) \<longleftrightarrow> va_in a (a + len) v"
  proof
    assume "\<exists>i \<in> set (page_offs len). same_page v (a + i)"
    then show "va_in a (a + len) v" using 1 by (auto simp: same_page_iff va_in_def)
  next
    assume v: "va_in a (a + len) v"
    let ?w = "PGROUNDDOWN v"
    have w: "unat a \<le> unat ?w" "unat ?w < unat a + unat len" using v end' by (simp_all add: va_in_def word_le_nat_alt word_less_nat_alt)
    have "4096 dvd unat ?w - unat a" using assms(1) pg_aligned_PGROUNDDOWN [of v] by (auto simp: pg_aligned_iff_mod intro: dvd_diff_nat)
    then obtain k where k: "unat ?w - unat a = 4096 * k" ..
    then have kl: "4096 * k < unat len" using w by linarith
    have "unat (a + of_nat (4096 * k)) = unat ?w" using el(1) [OF kl] k w(1) by linarith
    then have "a + of_nat (4096 * k) = ?w" by (simp only: word_unat_eq_iff)
    moreover have "of_nat (4096 * k) \<in> set (page_offs len)" unfolding offs using bound [of k] kl by (simp del: of_nat_mult)
    ultimately show "\<exists>i \<in> set (page_offs len). same_page v (a + i)" by (intro bexI [of _ "of_nat (4096 * k)"]) (auto simp: same_page_iff PGROUNDDOWN_aligned)
  qed
qed

lemma wunmap_anon_spec:
  fixes s :: "'a kst_scheme"
  assumes ok: "uvm_ok (km s) pgdir xs" and a: "pg_aligned a" "0 < unat len" "unat a + unat len \<le> KB" "unat len < KB"
    and pd: "\<And>va. va_in a (a + len) va \<Longrightarrow> pd_present (km s) pgdir (PDX va)"
  obtains k ys where "wunmap_anon pgdir a len s = Inr (s\<lparr>km := k\<rparr>)" "evolves pgdir (km s) xs k ys" "unmapped pgdir a (a + len) (km s) k"
proof -
  note po = page_offs_region [OF a]
  have u: "a + i \<in> user_vas" "pd_present (km s) pgdir (PDX (a + i))" if "i \<in> set (page_offs len)" for i using po(1) [OF that] pd by blast+
  show thesis
    using unmap_pages [OF ok u, of "page_offs len"] that unfolding po(2) wunmap_anon_def unmapped_def by auto
qed

text \<open>Giving a page that is no part of the address space to the free list.\<close>

lemma uvm_give:
  assumes ok: "uvm_ok k pgdir ys" and n: "page_ok k n" "n \<notin># uvm_pages k pgdir ys"
  obtains k' where "kfree n k = Inr k'" "uvm_pages k' pgdir (n # ys) = add_mset n (uvm_pages k pgdir ys)" "agree_off {n} k k'"
    "uvm_ok k' pgdir (n # ys)" "\<And>va. pte_at k' pgdir va = pte_at k pgdir va"
proof -
  obtain k' where k': "kfree n k = Inr k'" "uvm_pages k' pgdir (n # ys) = add_mset n (uvm_pages k pgdir ys)" "agree_off {n} k k'"
    "free_pages k' (n # ys)" "\<And>va. pte_at k' pgdir va = pte_at k pgdir va"
    using kfree_floating [OF ok n] by blast
  have "uniq (add_mset n (uvm_pages k pgdir ys))" using ok n(2) by (auto simp: uvm_ok_def uniq_def not_in_iff)
  then have "uvm_ok k' pgdir (n # ys)"
    using ok n(1) k'(2,3,4) agree_off_page_ok [OF k'(3)] by (simp add: uvm_ok_def agree_off_def)
  then show thesis using that k' by blast
qed

section \<open>The properties\<close>

lemma wf_regs_drop: "wf_regs lo (rs @ r # ts) \<Longrightarrow> wf_regs lo (rs @ ts)"
proof (induction rs arbitrary: lo)
  case Nil
  then show ?case by (cases r) (auto intro: wf_regs_lower)
next
  case (Cons q rs)
  then show ?case by (cases q) auto
qed

text \<open>The state of a process whose regions, page table and free pages have no page in common.\<close>

definition regions_ok :: "'a kst_scheme \<Rightarrow> nat \<Rightarrow> u32 \<Rightarrow> u32 list \<Rightarrow> u32 list \<Rightarrow> bool" where
  "regions_ok s p pgdir ns xs \<longleftrightarrow> lz_inv s p ns xs \<and> wf_regs MB (regs s ns) \<and> p_pgdir (ptable s p) = pgdir \<and>
     uvm_ok (km s) pgdir xs \<and> set ns \<inter> set_mset (uvm_pages (km s) pgdir xs) = {}"

lemma wunmap_node_inner:
  fixes s :: "'a kst_scheme"
  assumes ok: "regions_ok s p pgdir (as @ n # bs) xs" and ne: "as \<noteq> []" "bs \<noteq> []"
    and a: "pg_aligned (field lz_addr s n)" "field lz_fd s n = -1 \<or> field lz_shared s n = 0" "unat (n_upages (ptable s p)) \<le> 32"
    and pd: "\<And>va. va_in (field lz_addr s n) (field lz_addr s n + field lz_length s n) va \<Longrightarrow> pd_present (km s) pgdir (PDX va)"
  obtains s' ys c where "wunmap_node n s = Inr s'" "regions_ok s' p pgdir (as @ bs) (n # ys)" "regs s' (as @ bs) = regs s (as @ bs)"
    "unmapped pgdir (field lz_addr s n) (field lz_addr s n + field lz_length s n) (km s) (km s')"
    "uvm_pages (km s') pgdir (n # ys) = add_mset n (uvm_pages (km s) pgdir xs)"
    "n_upages (ptable s' p) = n_upages (ptable s p) - of_nat c" "2 \<le> c" "c \<le> unat (n_upages (ptable s p)) + 2"
proof -
  let ?ns = "as @ n # bs" and ?a = "field lz_addr s n" and ?l = "field lz_length s n"
  have inv: "lz_inv s p ?ns xs" and wf: "wf_regs MB (regs s ?ns)" and pg: "p_pgdir (ptable s p) = pgdir"
    and uv: "uvm_ok (km s) pgdir xs" and dj: "set ?ns \<inter> set_mset (uvm_pages (km s) pgdir xs) = {}"
    using ok by (simp_all add: regions_ok_def)
  note I = lz_invD [OF inv] and D = lz_listD [OF lz_invD(1) [OF inv]] and u = wunmap_unlink_inner [OF lz_invD(1) [OF inv] ne]
  define s1 where "s1 = kstore (hd bs + lz_prev) (last as) (kstore (last as + lz_next) (hd bs) s)"
  note u = u [folded s1_def]
  have same: "ptable s1 = ptable s" "cur s1 = cur s" "freelist (km s1) = freelist (km s)" by (simp_all add: s1_def)
  have out: "m \<notin># uvm_pages (km s) pgdir xs" if "m \<in> set ?ns" for m using dj that by blast
  have "set_mset (uvm_pages (km s) pgdir xs) \<inter> {last as, hd bs} = {}" using out [of "last as"] out [of "hd bs"] ne by auto
  note fr = uvm_frame [OF u(3) same(3) uv this]
  have pd1: "pd_present (km s1) pgdir (PDX va) = pd_present (km s) pgdir (PDX va)" for va
    using agree_off_pde(2) [OF u(3) pt_okD(3) [OF uvm_okD(1) [OF uv]], of "PDX va"] out [of "last as"] out [of "hd bs"] ne
    by (auto simp: uvm_pages_def)
  have rg: "MB \<le> unat ?a" "0 < unat ?l" "unat ?a + unat ?l \<le> KB" using wf_regs_mem [OF wf, of "unat ?a" "unat ?l"] by (auto simp: reg_def)
  have lk: "unat ?l < KB" using rg(1,3) by (simp add: MB_def)
  obtain k ys where k: "wunmap_anon pgdir ?a ?l s1 = Inr (s1\<lparr>km := k\<rparr>)" "evolves pgdir (km s1) xs k ys" "unmapped pgdir ?a (?a + ?l) (km s1) k"
    using wunmap_anon_spec [OF fr(1) a(1) rg(2,3) lk] pd unfolding pd1 by blast
  obtain c va pa where c: "wunmap_info ?a (ptable s p) = Inr ((ptable s p)\<lparr>n_upages := n_upages (ptable s p) - of_nat c, p_va := va, p_pa := pa\<rparr>)"
    "2 \<le> c" "c \<le> unat (n_upages (ptable s p)) + 2"
    using wunmap_info_spec [OF a(3)] by blast
  have nm: "n \<in> set ?ns" by simp
  note al = D(4) [OF nm]
  have nu: "n \<notin># uvm_pages k pgdir ys" using out [OF nm] k(2) fr(2) by (auto simp: evolves_def)
  have pk: "page_ok k n" using D(3) [OF nm] agree_off_page_ok [OF u(3)] k(2) agree_off_page_ok by (metis evolves_def)
  obtain k' where k': "kfree n k = Inr k'" "uvm_pages k' pgdir (n # ys) = add_mset n (uvm_pages k pgdir ys)" "agree_off {n} k k'"
    "uvm_ok k' pgdir (n # ys)" "\<And>va. pte_at k' pgdir va = pte_at k pgdir va"
    using uvm_give [OF evolves_ok [OF k(2) fr(1)] pk nu] by blast
  let ?x = "(ptable s p)\<lparr>n_upages := n_upages (ptable s p) - of_nat c, p_va := va, p_pa := pa\<rparr>"
  define s' where "s' = (upd_proc p (\<lambda>_. ?x) s1)\<lparr>km := k'\<rparr>"
  let ?P = "set_mset (uvm_pages (km s1) pgdir xs)"
  have ag: "agree_off (insert n ?P) (km s1) k'" using k(2) k'(3) by (auto simp: evolves_def intro: agree_off_trans)
  have fld: "field j s' m = field j s1 m" if "m \<in> set (as @ bs)" "j \<in> lz_offs" for m j
    using field_agree [of "insert n ?P" s1 s' m j] ag that D(2,4) out [of m] fr(2) by (auto simp: s'_def)
  have fk: "field j (s1\<lparr>km := k\<rparr>) n = field j s n" if "j \<in> lz_offs" "j \<notin> {lz_next, lz_prev}" for j
    using field_agree [of ?P s1 "s1\<lparr>km := k\<rparr>" n j] k(2) that al out [OF nm] fr(2) u(4) [OF al that] by (auto simp: evolves_def)
  have ld: "kload (n + lz_addr) s = ?a" "kload (n + lz_length) s1 = ?l" "kload (n + lz_fd) s1 = field lz_fd s n" "kload (n + lz_shared) s1 = field lz_shared s n"
    "kload (n + lz_addr) (s1\<lparr>km := k\<rparr>) = ?a"
    using u(4) [OF al, of lz_length] u(4) [OF al, of lz_fd] u(4) [OF al, of lz_shared] fk [of lz_addr] by (simp_all add: field_def)
  have run: "wunmap_node n s = Inr s'"
    using u(1) k(1) c(1) k'(1) a(2) I(2) pg same(1) ld by (simp add: wunmap_node_def myproc_def Let_def kfree_s_def s'_def upd_proc_def)
  have rs: "regs s' (as @ bs) = regs s (as @ bs)" using fld u(4) D(4) by (auto simp: reg_def)
  have ok': "page_ok k' = page_ok (km s1)" using agree_off_page_ok [OF ag] .
  have pages: "uvm_pages k' pgdir (n # ys) = add_mset n (uvm_pages (km s) pgdir xs)" using k'(2) k(2) fr(2) by (simp add: evolves_def)
  have dis: "m \<notin># uvm_pages k' pgdir (n # ys)" if "m \<in> set (as @ bs)" for m using pages out [of m] D(2) that by auto
  have sub: "set (n # ys) \<subseteq> set_mset (uvm_pages k' pgdir (n # ys))" by (auto simp: uvm_pages_def)
  have "lz_list s' (as @ bs)" by (rule lz_list_fields [OF u(2)]) (use fld ok' in \<open>auto simp: s'_def\<close>)
  then have inv': "lz_inv s' p (as @ bs) (n # ys)"
    unfolding lz_inv_def using I(2-4) same uvm_okD(2) [OF k'(4)] ne dis sub by (simp add: s'_def upd_proc_def) blast
  have "wf_regs MB (regs s' (as @ bs))" unfolding rs using wf_regs_drop [of MB "regs s as" "reg s n" "regs s bs"] wf by simp
  then have ro: "regions_ok s' p pgdir (as @ bs) (n # ys)"
    using inv' k'(4) dis pg same(1) unfolding regions_ok_def by (auto simp: s'_def upd_proc_def)
  have "unmapped pgdir ?a (?a + ?l) (km s) (km s')" using k(3) k'(5) fr(3) by (simp add: unmapped_def s'_def)
  then show thesis using that [OF run ro rs] pages c(2,3) same(1) by (simp add: s'_def upd_proc_def)
qed

lemma wf_regs_starts:
  assumes "wf_regs lo (rs @ (b, l) # ts)" "(c, k) \<in> set rs"
  shows "c \<noteq> b"
  using wf_regs_before [OF assms] wf_regs_mem [OF assms(1), of c k] assms(2) by auto

lemma wunmap_to_node:
  fixes s :: "'a kst_scheme"
  assumes ok: "regions_ok s p pgdir (as @ n # bs) xs" and a: "field lz_addr s n = a"
  shows "wunmap a s = bindr (wunmap_node n s) (\<lambda>s. Inr (0, s))"
proof -
  have inv: "lz_inv s p (as @ n # bs) xs" and wf: "wf_regs MB (regs s (as @ n # bs))" using ok by (simp_all add: regions_ok_def)
  note I = lz_invD [OF inv]
  let ?l = "unat (field lz_length s n)"
  have r: "MB \<le> unat a" "0 < ?l" "unat a + ?l \<le> KB" using wf_regs_mem [OF wf, of "unat a" ?l] a by (auto simp: reg_def)
  have "field lz_addr s m \<noteq> a" if "m \<in> set as" for m
    using wf_regs_starts [of MB "regs s as" "unat a" ?l "regs s bs" "unat (field lz_addr s m)" "unat (field lz_length s m)"] wf a that
    by (auto simp: reg_def image_iff)
  moreover have "length as < lazy_fuel" using lz_list_length [OF I(1)] by simp
  moreover have "first (as @ n # bs) = p_head (ptable s p)" using I(3) by (simp add: first_def)
  ultimately have "wunmap_loop lazy_fuel (p_head (ptable s p)) a s = bindr (wunmap_node n s) (\<lambda>s. Inr (0, s))"
    using wunmap_loop_skip [of s "[]" as n bs a lazy_fuel] I(1) a by simp
  moreover have sa: "sint a = int (unat a)" using sint_small [of "unat a"] r by (simp add: KB_def)
  have "\<not> sint a < 1610612736" "\<not> sint a > 2147483648" unfolding sa using r unfolding MB_def KB_def by linarith+
  ultimately show ?thesis using I(2) by (simp add: wunmap_def myproc_def)
qed

text \<open>
  C13: \<^verbatim>\<open>wunmap\<close> of a page-aligned anonymous or private region that has a region before it and one behind
  it, and whose page tables exist, removes exactly this region: its touched pages go back to the free
  list and their entries are cleared, every other entry and region is unchanged, the list stays linked
  and sorted, the page of the node is freed as well, and no page is lost.
\<close>

theorem wunmap_removes_region:
  fixes s :: "'a kst_scheme"
  assumes ok: "regions_ok s p pgdir (as @ n # bs) xs" and ne: "as \<noteq> []" "bs \<noteq> []"
    and a: "field lz_addr s n = a" "field lz_length s n = len" "pg_aligned a" "field lz_fd s n = -1 \<or> field lz_shared s n = 0"
      "unat (n_upages (ptable s p)) \<le> 32"
    and pd: "\<And>va. va_in a (a + len) va \<Longrightarrow> pd_present (km s) pgdir (PDX va)"
  shows "\<exists>s' ys. wunmap a s = Inr (0, s') \<and> regions_ok s' p pgdir (as @ bs) (n # ys) \<and> regs s' (as @ bs) = regs s (as @ bs) \<and>
    unmapped pgdir a (a + len) (km s) (km s') \<and> uvm_pages (km s') pgdir (n # ys) = add_mset n (uvm_pages (km s) pgdir xs)"
proof -
  obtain s' ys where s': "wunmap_node n s = Inr s'" "regions_ok s' p pgdir (as @ bs) (n # ys)" "regs s' (as @ bs) = regs s (as @ bs)"
    "unmapped pgdir a (a + len) (km s) (km s')" "uvm_pages (km s') pgdir (n # ys) = add_mset n (uvm_pages (km s) pgdir xs)"
    using wunmap_node_inner [OF ok ne] a pd by (metis (no_types, lifting))
  have "wunmap a s = bindr (wunmap_node n s) (\<lambda>s. Inr (0, s))" using wunmap_to_node [OF ok a(1)] .
  then show ?thesis using s' by auto
qed

lemma unat_minus1: "unat (-1 :: u32) = 4294967295"
  by (simp add: unsigned_minus_1_eq_mask mask_eq_exp_minus_1)

text \<open>A page fault in a process that has recorded 32 pages or more.\<close>

lemma fill_page_full:
  assumes "free_pages (km s) (x # xs)" "32 \<le> unat (n_upages (ptable s p))"
  shows "fill_page p a n s = Inl OutOfBounds"
proof -
  let ?s = "kstore (n + lz_numPages) (kload (n + lz_numPages) s + 1) s"
  have "freelist (km s) = x" "x \<noteq> 0" using assms(1) page_ok_nonzero by (auto simp: free_pages_def)
  then obtain t where "kalloc_s ?s = (x, t)" "ptable t = ptable s" by (simp add: kalloc_s_def kalloc_def)
  then show ?thesis using assms(2) \<open>x \<noteq> 0\<close> by (simp add: fill_page_def Let_def record_page_def)
qed

text \<open>
  C36: \<^verbatim>\<open>wunmap\<close> lowers the number of recorded pages by at least two, so that with at most one page recorded
  the unsigned counter wraps around. The next page fault in another region of the process, which is
  perfectly legal, then writes outside the 32 entries of \<^verbatim>\<open>va\<close> and \<^verbatim>\<open>pa\<close>.
\<close>

theorem wunmap_corrupts_page_count:
  fixes s :: "'a kst_scheme"
  assumes ok: "regions_ok s p pgdir (as @ n # bs) xs" and ne: "as \<noteq> []" "bs \<noteq> []"
    and a: "field lz_addr s n = a" "field lz_length s n = len" "pg_aligned a" "field lz_fd s n = -1 \<or> field lz_shared s n = 0"
      "unat (n_upages (ptable s p)) \<le> 1"
    and pd: "\<And>va. va_in a (a + len) va \<Longrightarrow> pd_present (km s) pgdir (PDX va)"
    and m: "m \<in> set (as @ bs)" "reg s m = (b, l)" "b \<le> unat (PGROUNDDOWN cr2)" "unat (PGROUNDDOWN cr2) < b + l"
  shows "\<exists>s'. wunmap a s = Inr (0, s') \<and> pgfault 0 cr2 s' = Inl OutOfBounds"
proof -
  have "unat (n_upages (ptable s p)) \<le> 32" using a(5) by simp
  then obtain s' ys c where s': "wunmap_node n s = Inr s'" "regions_ok s' p pgdir (as @ bs) (n # ys)" "regs s' (as @ bs) = regs s (as @ bs)"
    and c: "n_upages (ptable s' p) = n_upages (ptable s p) - of_nat c" "2 \<le> c" "c \<le> unat (n_upages (ptable s p)) + 2"
    using wunmap_node_inner [OF ok ne] a pd by (metis (no_types, lifting))
  have "wunmap a s = Inr (0, s')" using wunmap_to_node [OF ok a(1)] s'(1) by simp
  moreover have "pgfault 0 cr2 s' = fill_page p (PGROUNDDOWN cr2) m s'"
  proof (rule pgfault_region)
    show "cur s' = Some p" "lz_list s' (as @ bs)" "p_head (ptable s' p) = hd (as @ bs)" "wf_regs MB (regs s' (as @ bs))"
      using s'(2) lz_invD by (auto simp: regions_ok_def)
    show "reg s' m = (b, l)" using s'(3) m(1,2) by (metis map_eq_conv)
  qed (use m in simp_all)
  moreover have "free_pages (km s') (n # ys)" using s'(2) lz_invD(5) by (auto simp: regions_ok_def)
  moreover have "32 \<le> unat (n_upages (ptable s' p))"
  proof -
    have "n_upages (ptable s p) = 0 \<or> n_upages (ptable s p) = 1" using a(5) by (auto simp: le_Suc_eq word_unat_eq_iff)
    moreover have "c = 2 \<or> c = 3" using c(2,3) a(5) by linarith
    ultimately show ?thesis using c(1,3) by (elim disjE) (simp_all add: unat_minus1)
  qed
  ultimately show ?thesis using fill_page_full by metis
qed

section \<open>An example\<close>

text \<open>
  A process with one page mapped at \<open>0x60010000\<close>, in the second of three regions of one page each.
\<close>

definition ex_page :: "int \<times> kmem" where
  "ex_page = (case kalloc (snd boot_vm) of (x, k) \<Rightarrow>
     case mappages (fst boot_vm) 0x60010000 PGSIZE (V2P x) (PTE_W OR PTE_U) (k\<lparr>pmem := memset (pmem k) x 0 PGSIZE\<rparr>) of
       Inl _ \<Rightarrow> (0, k) | Inr r \<Rightarrow> r)"

definition ex_n1 :: u32 where "ex_n1 = fst (kalloc (snd ex_page))"
definition ex_k1 :: kmem where "ex_k1 = snd (kalloc (snd ex_page))"
definition ex_n2 :: u32 where "ex_n2 = fst (kalloc ex_k1)"
definition ex_k2 :: kmem where "ex_k2 = snd (kalloc ex_k1)"
definition ex_n3 :: u32 where "ex_n3 = fst (kalloc ex_k2)"
definition ex_k3 :: kmem where "ex_k3 = snd (kalloc ex_k2)"

definition ex_three :: kst where
  "ex_three = ex_kst (ex_k3\<lparr>pmem := put_node ex_n1 0x60000000 0x1000 ex_n2 0 (put_node ex_n2 0x60010000 0x1000 ex_n3 ex_n1
       (put_node ex_n3 0x60020000 0x1000 0 ex_n2 (pmem ex_k3)))\<rparr>)
     (ex_proc\<lparr>p_pgdir := fst boot_vm, p_head := ex_n1, p_tail := ex_n3\<rparr>)"

lemma ex_page_ok:
  obtains zs where "uvm_ok (snd ex_page) (fst boot_vm) zs" "2 < length zs" "pd_present (snd ex_page) (fst boot_vm) (PDX 0x60010000)"
proof -
  let ?d = "fst boot_vm" and ?s = "snd boot_vm"
  obtain zs where b: "uvm_ok ?s ?d zs" "length zs + length (tables ?s ?d) = 4095" "\<And>va. va < KERNBASE \<Longrightarrow> pte_at ?s ?d va = 0"
    "upages ?s ?d = {#}"
    using boot_vm_ok by blast
  have len: "1030 < length zs" using b(2) tables_length [of ?s ?d] by simp
  then obtain x ys where zs: "zs = x # ys" by (cases zs) auto
  have a: "0x60010000 \<in> user_vas" by (simp add: user_vas_def pg_aligned_def KERNBASE_def)
  have np: "pte_at ?s ?d 0x60010000 AND PTE_P = 0" using b(3) [of "0x60010000"] by (simp add: KERNBASE_def)
  note z = zeroed_ok [OF b(1) [unfolded zs]]
  show thesis
    using b(1) [unfolded zs] a np
  proof (cases rule: alloc_step)
    case (fail s2)
    have "size (add_mset x (uvm_pages s2 ?d [])) = size (uvm_pages ?s ?d (x # ys))" using fail(3) by simp
    moreover have "upages s2 ?d = upages ?s ?d" using fail(5) by (intro upages_cong) simp
    ultimately show thesis using tables_length [of s2 ?d] len zs by (simp add: uvm_pages_def)
  next
    case (good s2 ws)
    have e: "snd ex_page = s2" using z(1) good(1) by (simp add: ex_page_def zeroed_def)
    have "user_zero s2 ?d 0x60010000" using good(5) by simp
    then have pr: "pd_present s2 ?d (PDX 0x60010000)" using user_zero_present pte_present_table by blast
    have "size (uvm_pages s2 ?d ws) = size (uvm_pages ?s ?d zs)" using good(2) zs by (simp add: evolves_def)
    moreover have "size (upages s2 ?d) \<le> 1"
    proof -
      have "upages s2 ?d = add_mset (P2V (PTE_ADDR (pte_at s2 ?d 0x60010000))) (upages ?s ?d)"
        using upages_update(2) [OF a good(6) user_zero_present] \<open>user_zero s2 ?d 0x60010000\<close> np by blast
      then show ?thesis using b(4) by simp
    qed
    ultimately have "2 < length ws" using b(2,4) tables_length [of s2 ?d] by (simp add: uvm_pages_def)
    then show thesis using that evolves_ok [OF good(2) b(1) [unfolded zs]] pr unfolding e by blast
  qed
qed

lemma put_node_other:
  assumes "pg_aligned n" "pg_aligned m" "n \<noteq> m" "j \<in> lz_offs"
  shows "rd32 (put_node n addr len nxt prv f) (m + j) = rd32 f (m + j)"
  using assms by (simp add: put_node_def node_rd_wr)

lemma put_node_agree:
  assumes "pg_aligned n" "n \<in> P" "agree_off P s (s\<lparr>pmem := f\<rparr>)"
  shows "agree_off P s (s\<lparr>pmem := put_node n addr len nxt prv f\<rparr>)"
  using agree_off_trans [OF assms(3) put_node_frame [OF assms(1), of "s\<lparr>pmem := f\<rparr>" addr len nxt prv]] assms(2) by simp

lemma ex_three_ok:
  obtains xs where "regions_ok ex_three 1 (fst boot_vm) ([ex_n1] @ ex_n2 # [ex_n3]) xs"
    "\<And>va. va_in 0x60010000 (0x60010000 + 0x1000) va \<Longrightarrow> pd_present (km ex_three) (fst boot_vm) (PDX va)"
    "field lz_addr ex_three ex_n2 = 0x60010000" "field lz_length ex_three ex_n2 = 0x1000" "field lz_fd ex_three ex_n2 = -1"
    "reg ex_three ex_n1 = (0x60000000, 0x1000)" "reg ex_three ex_n3 = (0x60020000, 0x1000)"
proof -
  let ?d = "fst boot_vm" and ?k = "snd ex_page" and ?P = "{ex_n1, ex_n2, ex_n3}"
  obtain zs where z: "uvm_ok ?k ?d zs" "2 < length zs" "pd_present ?k ?d (PDX 0x60010000)" using ex_page_ok by blast
  then obtain n1 n2 n3 xs where zs: "zs = n1 # n2 # n3 # xs" by (auto simp: numeral_2_eq_2 Suc_le_eq [symmetric] Suc_le_length_iff)
  note t1 = uvm_take [OF z(1) [unfolded zs]]
  have e1: "ex_n1 = n1" "ex_k1 = ?k\<lparr>freelist := rd32 (pmem ?k) n1\<rparr>"
    using kalloc_pop(1) [OF uvm_okD(2) [OF z(1) [unfolded zs]]] by (simp_all add: ex_n1_def ex_k1_def)
  note t1 = t1 [folded e1(2)] and t2 = uvm_take [OF t1(1) [folded e1(2)]]
  have e2: "ex_n2 = n2" "ex_k2 = ex_k1\<lparr>freelist := rd32 (pmem ex_k1) n2\<rparr>"
    using kalloc_pop(1) [OF uvm_okD(2) [OF t1(1)]] by (simp_all add: ex_n2_def ex_k2_def)
  note t2 = t2 [folded e2(2)] and t3 = uvm_take [OF t2(1) [folded e2(2)]]
  have e3: "ex_n3 = n3" "ex_k3 = ex_k2\<lparr>freelist := rd32 (pmem ex_k2) n3\<rparr>"
    using kalloc_pop(1) [OF uvm_okD(2) [OF t2(1)]] by (simp_all add: ex_n3_def ex_k3_def)
  note t3 = t3 [folded e3(2)]
  have fp: "free_pages ?k (n1 # n2 # n3 # xs)" using uvm_okD(2) [OF z(1)] zs by simp
  then have al: "pg_aligned ex_n1" "pg_aligned ex_n2" "pg_aligned ex_n3" "distinct [ex_n1, ex_n2, ex_n3]" "page_ok ?k ex_n1" "page_ok ?k ex_n2" "page_ok ?k ex_n3"
    by (auto simp: free_pages_def page_ok_def e1 e2 e3)
  have pm: "pmem ex_k3 = pmem ?k" by (simp add: e1 e2 e3)
  have ag: "agree_off ?P ex_k3 (km ex_three)"
    unfolding ex_three_def ex_kst_simps using al by (intro put_node_agree) simp_all
  have "n1 \<notin># uvm_pages ex_k3 ?d xs" "n2 \<notin># uvm_pages ex_k3 ?d xs" using t1(2) t2(2) unfolding t2(4) [symmetric] t3(4) [symmetric] by simp_all
  then have out: "set_mset (uvm_pages ex_k3 ?d xs) \<inter> ?P = {}" using t3(2) by (simp add: e1(1) e2(1) e3(1))
  have fl: "freelist (km ex_three) = freelist ex_k3" by (simp add: ex_three_def)
  note u = uvm_frame [OF ag fl t3(1) out]
  have pok: "page_ok (km ex_three) = page_ok ?k" using agree_off_page_ok [OF ag] by (simp add: page_ok_def fun_eq_iff e1 e2 e3)
  have f1: "field lz_addr ex_three ex_n1 = 0x60000000" "field lz_length ex_three ex_n1 = 0x1000" "field lz_next ex_three ex_n1 = ex_n2" "field lz_prev ex_three ex_n1 = 0"
    using al put_node_field [OF al(1)] by (simp_all add: field_def kload_def ex_three_def)
  have f2: "field lz_addr ex_three ex_n2 = 0x60010000" "field lz_length ex_three ex_n2 = 0x1000" "field lz_next ex_three ex_n2 = ex_n3" "field lz_prev ex_three ex_n2 = ex_n1"
    "field lz_fd ex_three ex_n2 = -1"
    using al put_node_field [OF al(2)] put_node_other [OF al(1,2)] by (simp_all add: field_def kload_def ex_three_def)
  have f3: "field lz_addr ex_three ex_n3 = 0x60020000" "field lz_length ex_three ex_n3 = 0x1000" "field lz_next ex_three ex_n3 = 0" "field lz_prev ex_three ex_n3 = ex_n2"
    using al put_node_field [OF al(3)] put_node_other [OF al(1,3)] put_node_other [OF al(2,3)] by (simp_all add: field_def kload_def ex_three_def)
  have "lz_list ex_three [ex_n1, ex_n2, ex_n3]" using al f1 f2 f3 pok by (simp add: lz_list_def)
  moreover have "free_pages (km ex_three) xs" "set [ex_n1, ex_n2, ex_n3] \<inter> set xs = {}" using uvm_okD(2) [OF u(1)] fp by (auto simp: free_pages_def e1 e2 e3)
  ultimately have "lz_inv ex_three 1 [ex_n1, ex_n2, ex_n3] xs" by (simp add: lz_inv_def ex_three_def)
  moreover have "wf_regs MB (regs ex_three [ex_n1, ex_n2, ex_n3])" using f1 f2 f3 by (simp add: reg_def MB_def KB_def)
  ultimately have "regions_ok ex_three 1 ?d ([ex_n1] @ ex_n2 # [ex_n3]) xs"
    using u(1,2) out by (auto simp: regions_ok_def ex_three_def)
  moreover have "pd_present (km ex_three) ?d (PDX va)" if "va_in 0x60010000 (0x60010000 + 0x1000) va" for va
  proof -
    have "same_page va 0x60010000" using that by (intro same_page_of_range) (simp_all add: va_in_def pg_aligned_def PGSIZE_def)
    then have "PDX va = PDX 0x60010000" by (simp add: same_page_def)
    moreover have "?d \<notin> ?P" using out by (auto simp: uvm_pages_def)
    ultimately show ?thesis
      using z(3) agree_off_pde(2) [OF ag pt_okD(3) [OF uvm_okD(1) [OF z(1)]], of "PDX 0x60010000"] pm by (simp add: pd_present_def pde_at_def)
  qed
  ultimately show thesis using that f1 f2 f3 by (simp add: reg_def)
qed

theorem wunmap_removes_region_witness:
  "\<exists>s'. wunmap 0x60010000 ex_three = Inr (0, s') \<and> regs s' [ex_n1, ex_n3] = [(0x60000000, 0x1000), (0x60020000, 0x1000)]"
proof -
  obtain xs where e: "regions_ok ex_three 1 (fst boot_vm) ([ex_n1] @ ex_n2 # [ex_n3]) xs"
    "\<And>va. va_in 0x60010000 (0x60010000 + 0x1000) va \<Longrightarrow> pd_present (km ex_three) (fst boot_vm) (PDX va)"
    "field lz_addr ex_three ex_n2 = 0x60010000" "field lz_length ex_three ex_n2 = 0x1000" "field lz_fd ex_three ex_n2 = -1"
    "reg ex_three ex_n1 = (0x60000000, 0x1000)" "reg ex_three ex_n3 = (0x60020000, 0x1000)"
    using ex_three_ok by blast
  have "unat (n_upages (ptable ex_three 1)) \<le> 32" by (simp add: ex_three_def ex_proc_def)
  from wunmap_removes_region [OF e(1) _ _ e(3,4) _ disjI1 [OF e(5)] this e(2)] show ?thesis using e(6,7) by (auto simp: pg_aligned_def)
qed

theorem wunmap_corrupts_page_count_witness:
  "\<exists>s'. wunmap 0x60010000 ex_three = Inr (0, s') \<and> pgfault 0 0x60000123 s' = Inl OutOfBounds"
proof -
  obtain xs where e: "regions_ok ex_three 1 (fst boot_vm) ([ex_n1] @ ex_n2 # [ex_n3]) xs"
    "\<And>va. va_in 0x60010000 (0x60010000 + 0x1000) va \<Longrightarrow> pd_present (km ex_three) (fst boot_vm) (PDX va)"
    "field lz_addr ex_three ex_n2 = 0x60010000" "field lz_length ex_three ex_n2 = 0x1000" "field lz_fd ex_three ex_n2 = -1"
    "reg ex_three ex_n1 = (0x60000000, 0x1000)" "reg ex_three ex_n3 = (0x60020000, 0x1000)"
    using ex_three_ok by blast
  have "unat (n_upages (ptable ex_three 1)) \<le> 1" by (simp add: ex_three_def ex_proc_def)
  from wunmap_corrupts_page_count [OF e(1) _ _ e(3,4) _ disjI1 [OF e(5)] this e(2) _ e(6), of "0x60000123"] show ?thesis
    by (simp add: pg_aligned_def PGROUNDDOWN_def PGSIZE_def)
qed

end
