(* ===== verification/User_Lib.thy ===== *)
theory User_Lib
  imports Xv6_Prelude
begin

text \<open>
  The library of user programs: \<^verbatim>\<open>ulib.c\<close> and \<^verbatim>\<open>printf.c\<close>, and the view a simple program has of the system
  calls. A C string is the list of its characters before the NUL, and a pointer into a string is the
  rest of the string from there on; \<open>NUL\<close> stands for the terminating character.
\<close>

section \<open>System calls as a program sees them\<close>

text \<open>
  What \<^verbatim>\<open>read\<close> will deliver on a descriptor: one entry per call, \<open>None\<close> for an error. A call never returns
  more than it was asked for; the rest of an entry is left for the next call. At the end of the list
  and for an empty entry \<^verbatim>\<open>read\<close> returns 0.
\<close>

type_synonym input_seq = "string option list"

fun read_u :: "nat \<Rightarrow> input_seq \<Rightarrow> string option \<times> input_seq" where
  "read_u n [] = (Some [], [])"
| "read_u n (None # cs) = (None, cs)"
| "read_u n (Some c # cs) = (if length c \<le> n then (Some c, cs) else (Some (take n c), Some (drop n c) # cs))"

text \<open>
  The world of a program: the data of open descriptors, the files that can be opened, the descriptors on
  which \<^verbatim>\<open>write\<close> fails, and what was written so far. A program either runs on (\<open>Inr\<close>) or has called
  \<^verbatim>\<open>exit\<close> (\<open>Inl\<close>); \<open>None\<close> is a use of an argument that \<^verbatim>\<open>printf\<close> was not given.
\<close>

record uworld =
  u_in :: "nat \<Rightarrow> input_seq"
  u_files :: "string \<Rightarrow> input_seq option"
  u_next :: nat
  u_broken :: "nat set"
  u_out :: "(nat \<times> string) list"

type_synonym 'a prog = "uworld \<Rightarrow> (uworld + 'a \<times> uworld) option"

definition bindp :: "'a prog \<Rightarrow> ('a \<Rightarrow> 'b prog) \<Rightarrow> 'b prog" where
  "bindp m f = (\<lambda>w. case m w of None \<Rightarrow> None | Some (Inl w) \<Rightarrow> Some (Inl w) | Some (Inr (x, w)) \<Rightarrow> f x w)"

definition retp :: "'a \<Rightarrow> 'a prog" where "retp x = (\<lambda>w. Some (Inr (x, w)))"

definition exit_u :: "'a prog" where "exit_u = (\<lambda>w. Some (Inl w))"

definition write_u :: "nat \<Rightarrow> string \<Rightarrow> int prog" where
  "write_u fd cs = (\<lambda>w. if fd \<in> u_broken w then Some (Inr (-1, w))
     else Some (Inr (int (length cs), w\<lparr>u_out := u_out w @ [(fd, cs)]\<rparr>)))"

definition read_fd :: "nat \<Rightarrow> nat \<Rightarrow> string option prog" where
  "read_fd fd n = (\<lambda>w. case read_u n (u_in w fd) of (r, cs) \<Rightarrow> Some (Inr (r, w\<lparr>u_in := (u_in w)(fd := cs)\<rparr>)))"

definition open_u :: "string \<Rightarrow> nat option prog" where
  "open_u name = (\<lambda>w. case u_files w name of
     None \<Rightarrow> Some (Inr (None, w))
   | Some cs \<Rightarrow> Some (Inr (Some (u_next w), w\<lparr>u_in := (u_in w)(u_next w := cs), u_next := u_next w + 1\<rparr>)))"

definition close_u :: "nat \<Rightarrow> unit prog" where
  "close_u fd = (\<lambda>w. Some (Inr ((), w\<lparr>u_in := (u_in w)(fd := [])\<rparr>)))"

lemma bindp_simps [simp]:
  "m w = Some (Inr (x, w')) \<Longrightarrow> bindp m f w = f x w'" "m w = Some (Inl w') \<Longrightarrow> bindp m f w = Some (Inl w')"
  "retp x w = Some (Inr (x, w))" "exit_u w = Some (Inl w)"
  by (simp_all add: bindp_def retp_def exit_u_def)

section \<open>ulib.c\<close>

definition NUL :: char where "NUL = CHR 0x00"

definition chr_at :: "string \<Rightarrow> nat \<Rightarrow> char" where "chr_at s i = (if i < length s then s ! i else NUL)"

fun strcmp_u :: "string \<Rightarrow> string \<Rightarrow> int" where
  "strcmp_u p q =
     (if p \<noteq> [] \<and> q \<noteq> [] \<and> hd p = hd q then strcmp_u (tl p) (tl q)
      else of_char (chr_at p 0) - of_char (chr_at q 0))"

declare strcmp_u.simps [simp del]

text \<open>\<^verbatim>\<open>strchr\<close>: the rest of the string from the first occurrence on.\<close>

fun strchr_u :: "string \<Rightarrow> char \<Rightarrow> string option" where
  "strchr_u [] c = None"
| "strchr_u (x # s) c = (if x = c then Some (x # s) else strchr_u s c)"

text \<open>\<^verbatim>\<open>gets\<close> reads one character at a time, until a line ends, the buffer is full or there is no more input.\<close>

fun gets_loop :: "nat \<Rightarrow> input_seq \<Rightarrow> string \<times> input_seq" where
  "gets_loop 0 cs = ([], cs)"
| "gets_loop (Suc n) cs =
     (case read_u 1 cs of
        (Some [c], cs) \<Rightarrow> if c = CHR 0x0A \<or> c = CHR 0x0D then ([c], cs) else (case gets_loop n cs of (t, cs) \<Rightarrow> (c # t, cs))
      | (_, cs) \<Rightarrow> ([], cs))"

definition gets_u :: "nat \<Rightarrow> input_seq \<Rightarrow> string \<times> input_seq" where
  "gets_u nmax cs = gets_loop (nmax - 1) cs"

text \<open>\<^verbatim>\<open>atoi\<close>, with the wrap-around of an \<^verbatim>\<open>int\<close>.\<close>

definition is_digit :: "char \<Rightarrow> bool" where "is_digit c \<longleftrightarrow> 48 \<le> (of_char c :: nat) \<and> (of_char c :: nat) \<le> 57"

fun atoi_loop :: "u32 \<Rightarrow> string \<Rightarrow> u32" where
  "atoi_loop n [] = n"
| "atoi_loop n (c # s) = (if is_digit c then atoi_loop (n * 10 + of_char c - 48) s else n)"

definition atoi :: "string \<Rightarrow> u32" where "atoi s = atoi_loop 0 s"

text \<open>The C string at the beginning of a character array.\<close>

definition c_str :: "string \<Rightarrow> string" where "c_str s = takeWhile (\<lambda>c. c \<noteq> NUL) s"

section \<open>printf.c\<close>

definition digits_u :: "nat \<Rightarrow> char" where
  "digits_u d = (if d < 10 then char_of (48 + d) else char_of (55 + d))"

text \<open>The digits, least significant first, and the sign behind them.\<close>

function print_digits_u :: "nat \<Rightarrow> nat \<Rightarrow> string" where
  "print_digits_u base x =
     (if base \<le> 1 then []
      else digits_u (x mod base) # (if x div base \<noteq> 0 then print_digits_u base (x div base) else []))"
  by auto
termination
  by (relation "measure snd") (auto intro!: div_less_dividend gr0I)

declare print_digits_u.simps [simp del]

definition printint_u :: "u32 \<Rightarrow> nat \<Rightarrow> bool \<Rightarrow> string" where
  "printint_u xx base sg =
     (let neg = (sg \<and> sint xx < 0);
          x = (if neg then - xx else xx);
          buf = print_digits_u base (unat x)
      in rev (if neg then buf @ ''-'' else buf))"

text \<open>An argument of \<^verbatim>\<open>printf\<close>: a word or a pointer to a string.\<close>

datatype uarg = UInt u32 | UStr "string option"

definition uarg_word :: "uarg list \<Rightarrow> (u32 \<times> uarg list) option" where
  "uarg_word args = (case args of UInt x # args \<Rightarrow> Some (x, args) | _ \<Rightarrow> None)"

definition uarg_string :: "uarg list \<Rightarrow> (string \<times> uarg list) option" where
  "uarg_string args =
     (case args of UStr (Some t) # args \<Rightarrow> Some (t, args) | UStr None # args \<Rightarrow> Some (''(null)'', args) | _ \<Rightarrow> None)"

text \<open>
  The characters that \<^verbatim>\<open>printf\<close> writes one by one; the format ends before its NUL.
\<close>

fun format_u :: "string \<Rightarrow> uarg list \<Rightarrow> string option" where
  "format_u [] args = Some []"
| "format_u [c] args = Some (if c \<noteq> CHR ''%'' then [c] else [])"
| "format_u (c # d # fmt) args =
     (if c \<noteq> CHR ''%'' then map_option ((#) c) (format_u (d # fmt) args)
      else if d = CHR ''d'' then
        (case uarg_word args of None \<Rightarrow> None | Some (x, args) \<Rightarrow> map_option ((@) (printint_u x 10 True)) (format_u fmt args))
      else if d = CHR ''x'' \<or> d = CHR ''p'' then
        (case uarg_word args of None \<Rightarrow> None | Some (x, args) \<Rightarrow> map_option ((@) (printint_u x 16 False)) (format_u fmt args))
      else if d = CHR ''s'' then
        (case uarg_string args of None \<Rightarrow> None | Some (t, args) \<Rightarrow> map_option ((@) t) (format_u fmt args))
      else if d = CHR ''c'' then
        (case uarg_word args of None \<Rightarrow> None | Some (x, args) \<Rightarrow> map_option ((#) (char_of (unat (x AND 0xFF)))) (format_u fmt args))
      else if d = CHR ''%'' then map_option ((#) d) (format_u fmt args)
      else map_option (\<lambda>t. CHR ''%'' # d # t) (format_u fmt args))"

fun put_chars :: "nat \<Rightarrow> string \<Rightarrow> unit prog" where
  "put_chars fd [] = retp ()"
| "put_chars fd (c # cs) = bindp (write_u fd [c]) (\<lambda>_. put_chars fd cs)"

definition printf :: "nat \<Rightarrow> string \<Rightarrow> uarg list \<Rightarrow> unit prog" where
  "printf fd fmt args = (\<lambda>w. case format_u fmt args of None \<Rightarrow> None | Some cs \<Rightarrow> put_chars fd cs w)"

section \<open>Printing and reading numbers\<close>

lemma of_char_digit: "d < 10 \<Longrightarrow> (of_char (digits_u d) :: nat) = 48 + d" "d < 10 \<Longrightarrow> is_digit (digits_u d)"
  by (simp_all add: digits_u_def is_digit_def)

lemma of_char_u32: "(of_char c :: u32) = of_nat (of_char c)"
  by (simp add: of_char_def horner_sum_simps) 

lemma atoi_append: "\<forall>c \<in> set s. is_digit c \<Longrightarrow> atoi_loop n (s @ t) = atoi_loop (atoi_loop n s) t"
  by (induction s arbitrary: n) auto

lemma print_digits_digit: "c \<in> set (print_digits_u 10 x) \<Longrightarrow> is_digit c"
proof (induction x rule: less_induct)
  case (less x)
  have e: "print_digits_u 10 x = digits_u (x mod 10) # (if x div 10 \<noteq> 0 then print_digits_u 10 (x div 10) else [])"
    by (subst print_digits_u.simps) simp
  have "is_digit (digits_u (x mod 10))" by (simp add: of_char_digit)
  then show ?case using less(1) [of "x div 10"] less(2) unfolding e by (auto split: if_splits)
qed

lemma atoi_digits: "atoi_loop 0 (rev (print_digits_u 10 x)) = of_nat x"
proof (induction x rule: less_induct)
  case (less x)
  have e: "print_digits_u 10 x = digits_u (x mod 10) # (if x div 10 \<noteq> 0 then print_digits_u 10 (x div 10) else [])"
    by (subst print_digits_u.simps) simp
  have d: "(of_char (digits_u (x mod 10)) :: u32) - 48 = of_nat (x mod 10)" "is_digit (digits_u (x mod 10))"
    by (simp_all add: of_char_u32 of_char_digit)
  show ?case
  proof (cases "x div 10 = 0")
    case True
    then have "x mod 10 = x" by simp
    then show ?thesis using e True d by (simp add: diff_add_eq)
  next
    case False
    then have "x div 10 < x" by simp
    note ih = less [OF this]
    have "\<forall>c \<in> set (rev (print_digits_u 10 (x div 10))). is_digit c" using print_digits_digit [of _ "x div 10"] by auto
    then have "atoi_loop 0 (rev (print_digits_u 10 x)) = of_nat (x div 10) * 10 + of_nat (x mod 10)"
      using e False ih d by (simp add: atoi_append add_diff_eq [symmetric])
    also have "\<dots> = of_nat (x div 10 * 10 + x mod 10)" by (simp only: of_nat_add of_nat_mult of_nat_numeral)
    finally show ?thesis by (simp only: div_mult_mod_eq)
  qed
qed

text \<open>
  C31: \<^verbatim>\<open>atoi\<close> reads back the number that \<^verbatim>\<open>printf\<close> prints in base 10, for every 32-bit value printed as
  unsigned and for every non-negative one printed as signed; a negative number is read as 0, since
  \<^verbatim>\<open>atoi\<close> stops at the sign.
\<close>

theorem atoi_printint: "atoi (printint_u x 10 sg) = (if sg \<and> sint x < 0 then 0 else x)"
proof (cases "sg \<and> sint x < 0")
  case True
  then have "printint_u x 10 sg = CHR ''-'' # rev (print_digits_u 10 (unat (- x)))" by (simp add: printint_u_def Let_def)
  then show ?thesis using True by (simp add: atoi_def is_digit_def)
next
  case False
  then have "printint_u x 10 sg = rev (print_digits_u 10 (unat x))" unfolding printint_u_def Let_def by (simp only: if_False)
  then show ?thesis using atoi_digits [of "unat x"] unfolding if_not_P [OF False] by (simp add: atoi_def)
qed

end
