(* ===== verification/Text_Tools.thy ===== *)
theory Text_Tools
  imports User_Lib
begin

text \<open>
  The small programs that read files or the command line: \<^verbatim>\<open>cat\<close>, \<^verbatim>\<open>wc\<close>, \<^verbatim>\<open>grep\<close>, \<^verbatim>\<open>echo\<close>, \<^verbatim>\<open>mkdir\<close>, \<^verbatim>\<open>rm\<close>,
  \<^verbatim>\<open>ln\<close> and \<^verbatim>\<open>kill\<close>. The loops over the input end because every \<^verbatim>\<open>read\<close> that returns something leaves less
  behind. The matcher of \<^verbatim>\<open>grep\<close> is compared with the languages of its patterns.
\<close>

section \<open>Reading to the end\<close>

definition in_size :: "input_seq \<Rightarrow> nat" where
  "in_size cs = sum_list (map (\<lambda>c. case c of None \<Rightarrow> 1 | Some t \<Rightarrow> Suc (length t)) cs)"

lemma in_size_simps [simp]:
  "in_size [] = 0" "in_size (None # cs) = Suc (in_size cs)" "in_size (Some t # cs) = Suc (length t + in_size cs)"
  by (simp_all add: in_size_def)

lemma read_u_less: "read_u n cs = (Some t, cs') \<Longrightarrow> t \<noteq> [] \<Longrightarrow> in_size cs' < in_size cs"
  by (induction n cs rule: read_u.induct) (auto split: if_splits)

section \<open>cat\<close>

text \<open>The loop of \<^verbatim>\<open>cat\<close>: \<open>Inl\<close> if it ends with an error, with the text written so far.\<close>

function cat_loop :: "nat \<Rightarrow> nat \<Rightarrow> uworld \<Rightarrow> (string \<times> uworld) + uworld" where
  "cat_loop fd out w =
     (case read_u 512 (u_in w fd) of
        (None, cs) \<Rightarrow> Inl (''cat: read error'' @ [CHR 0x0A], w\<lparr>u_in := (u_in w)(fd := cs)\<rparr>)
      | (Some t, cs) \<Rightarrow>
          let w = w\<lparr>u_in := (u_in w)(fd := cs)\<rparr> in
          if t = [] then Inr w
          else if out \<in> u_broken w then Inl (''cat: write error'' @ [CHR 0x0A], w)
          else cat_loop fd out (w\<lparr>u_out := u_out w @ [(out, t)]\<rparr>))"
  by auto
termination
  by (relation "measure (\<lambda>(fd, out, w). in_size (u_in w fd))") (auto dest: read_u_less [OF sym])

declare cat_loop.simps [simp del]

definition cat :: "nat \<Rightarrow> unit prog" where
  "cat fd = (\<lambda>w. case cat_loop fd 1 w of
     Inl (msg, w) \<Rightarrow> bindp (printf 1 msg []) (\<lambda>_. exit_u) w
   | Inr w \<Rightarrow> retp () w)"

text \<open>The loop over the files of the command line, shared by \<^verbatim>\<open>cat\<close>, \<^verbatim>\<open>wc\<close> and \<^verbatim>\<open>grep\<close>.\<close>

fun each_file :: "string \<Rightarrow> (string \<Rightarrow> nat \<Rightarrow> unit prog) \<Rightarrow> string list \<Rightarrow> unit prog" where
  "each_file name f [] = exit_u"
| "each_file name f (a # args) =
     bindp (open_u a) (\<lambda>fd. case fd of
       None \<Rightarrow> bindp (printf 1 (name @ '': cannot open %s'' @ [CHR 0x0A]) [UStr (Some a)]) (\<lambda>_. exit_u)
     | Some fd \<Rightarrow> bindp (f a fd) (\<lambda>_. bindp (close_u fd) (\<lambda>_. each_file name f args)))"

definition cat_main :: "string list \<Rightarrow> unit prog" where
  "cat_main args = (if args = [] then bindp (cat 0) (\<lambda>_. exit_u) else each_file ''cat'' (\<lambda>_. cat) args)"

section \<open>wc\<close>

text \<open>The counters: lines, words, characters, and whether the last character was inside a word.\<close>

type_synonym counts = "u32 \<times> u32 \<times> u32 \<times> bool"

definition is_space :: "char \<Rightarrow> bool" where
  "is_space ch = (strchr_u ('' '' @ [CHR 0x0D, CHR 0x09, CHR 0x0A, CHR 0x0B]) ch \<noteq> None)"

definition wc_char :: "char \<Rightarrow> counts \<Rightarrow> counts" where
  "wc_char ch = (\<lambda>(l, w, c, inword).
     let c = c + 1; l = (if ch = CHR 0x0A then l + 1 else l) in
     if is_space ch then (l, w, c, False) else if \<not> inword then (l, w + 1, c, True) else (l, w, c, inword))"

function wc_loop :: "counts \<Rightarrow> input_seq \<Rightarrow> counts option \<times> input_seq" where
  "wc_loop k cs =
     (case read_u 512 cs of
        (None, cs) \<Rightarrow> (None, cs)
      | (Some t, cs) \<Rightarrow> if t = [] then (Some k, cs) else wc_loop (fold wc_char t k) cs)"
  by auto
termination
  by (relation "measure (\<lambda>(k, cs). in_size cs)") (auto dest: read_u_less [OF sym])

declare wc_loop.simps [simp del]

definition wc :: "nat \<Rightarrow> string \<Rightarrow> unit prog" where
  "wc fd name = (\<lambda>wd. case wc_loop (0, 0, 0, False) (u_in wd fd) of
     (None, cs) \<Rightarrow> bindp (printf 1 (''wc: read error'' @ [CHR 0x0A]) []) (\<lambda>_. exit_u) (wd\<lparr>u_in := (u_in wd)(fd := cs)\<rparr>)
   | (Some (l, w, c, _), cs) \<Rightarrow>
       printf 1 (''%d %d %d %s'' @ [CHR 0x0A]) [UInt l, UInt w, UInt c, UStr (Some name)] (wd\<lparr>u_in := (u_in wd)(fd := cs)\<rparr>))"

definition wc_main :: "string list \<Rightarrow> unit prog" where
  "wc_main args = (if args = [] then bindp (wc 0 '''') (\<lambda>_. exit_u) else each_file ''wc'' (\<lambda>a fd. wc fd a) args)"

section \<open>grep\<close>

text \<open>The matcher: a pattern and a text are the rest of the string their pointers stand at.\<close>

fun matchhere :: "string \<Rightarrow> string \<Rightarrow> bool"
and matchstar :: "char \<Rightarrow> string \<Rightarrow> string \<Rightarrow> bool" where
  "matchhere [] text = True"
| "matchhere [c] text =
     (if c = CHR ''$'' then text = []
      else if text \<noteq> [] \<and> (c = CHR ''.'' \<or> c = hd text) then matchhere [] (tl text) else False)"
| "matchhere (c # d # re) text =
     (if d = CHR ''*'' then matchstar c re text
      else if text \<noteq> [] \<and> (c = CHR ''.'' \<or> c = hd text) then matchhere (d # re) (tl text) else False)"
| "matchstar c re [] = matchhere re []"
| "matchstar c re (x # text) = (matchhere re (x # text) \<or> ((x = c \<or> c = CHR ''.'') \<and> matchstar c re text))"

fun match_from :: "string \<Rightarrow> string \<Rightarrow> bool" where
  "match_from re [] = matchhere re []"
| "match_from re (x # text) = (matchhere re (x # text) \<or> match_from re text)"

definition match :: "string \<Rightarrow> string \<Rightarrow> bool" where
  "match re text = (if re \<noteq> [] \<and> hd re = CHR ''^'' then matchhere (tl re) text else match_from re text)"

text \<open>
  The lines in the buffer: the matching ones, and the text from \<^verbatim>\<open>p\<close> on. The buffer ends in a NUL, and
  \<^verbatim>\<open>strchr\<close> and the matcher stop at a NUL in the data as well.
\<close>

lemma strchr_drop: "strchr_u s c = Some q \<Longrightarrow> length q \<le> length s \<and> q \<noteq> []"
  by (induction s) (auto split: if_splits)

function grep_lines :: "string \<Rightarrow> string \<Rightarrow> string list \<times> string" where
  "grep_lines pattern p =
     (case strchr_u (c_str p) (CHR 0x0A) of
        None \<Rightarrow> ([], p)
      | Some q \<Rightarrow>
          let n = length (c_str p) - length q; line = take n p;
              (ls, rest) = grep_lines pattern (drop (Suc n) p)
          in (if match pattern line then (line @ [CHR 0x0A]) # ls else ls, rest))"
  by auto
termination
proof (relation "measure (\<lambda>(pattern, p). length p)", goal_cases)
  case (2 pattern p q n line)
  then have "length q \<le> length (c_str p)" "q \<noteq> []" using strchr_drop by metis+
  moreover have "length (c_str p) \<le> length p" by (simp add: c_str_def length_takeWhile_le)
  ultimately show ?case by (cases p) (auto simp: c_str_def)
qed simp

declare grep_lines.simps [simp del]

text \<open>The loop: \<open>b\<close> is the text kept in front of the next read. Without a newline in the buffer it is dropped.\<close>

function grep_loop :: "string \<Rightarrow> string \<Rightarrow> input_seq \<Rightarrow> string list \<times> input_seq" where
  "grep_loop pattern b cs =
     (case read_u (1024 - length b - 1) cs of
        (None, cs) \<Rightarrow> ([], cs)
      | (Some t, cs) \<Rightarrow>
          if t = [] then ([], cs)
          else let buf = b @ t; (ls, p) = grep_lines pattern buf;
                   b = (if p = buf then [] else p); (ms, cs) = grep_loop pattern b cs
               in (ls @ ms, cs))"
  by auto
termination
  by (relation "measure (\<lambda>(pattern, b, cs). in_size cs)") (auto dest: read_u_less [OF sym])

declare grep_loop.simps [simp del]

definition write_lines :: "nat \<Rightarrow> string list \<Rightarrow> uworld \<Rightarrow> uworld" where
  "write_lines fd ls w = (if fd \<in> u_broken w then w else w\<lparr>u_out := u_out w @ map (Pair fd) ls\<rparr>)"

definition grep :: "string \<Rightarrow> nat \<Rightarrow> unit prog" where
  "grep pattern fd = (\<lambda>w. case grep_loop pattern [] (u_in w fd) of
     (ls, cs) \<Rightarrow> Some (Inr ((), write_lines 1 ls (w\<lparr>u_in := (u_in w)(fd := cs)\<rparr>))))"

definition grep_main :: "string list \<Rightarrow> unit prog" where
  "grep_main args = (case args of
     [] \<Rightarrow> bindp (printf 2 (''usage: grep pattern [file ...]'' @ [CHR 0x0A]) []) (\<lambda>_. exit_u)
   | [pattern] \<Rightarrow> bindp (grep pattern 0) (\<lambda>_. exit_u)
   | pattern # files \<Rightarrow> each_file ''grep'' (\<lambda>_. grep pattern) files)"

section \<open>Other commands\<close>

text \<open>
  \<^verbatim>\<open>echo\<close>, and the commands that make one system call per argument; the call is an argument of the
  definition, as a function from the argument to the result.
\<close>

fun echo_args :: "string list \<Rightarrow> unit prog" where
  "echo_args [] = exit_u"
| "echo_args (a # args) =
     bindp (printf 1 ''%s%s'' [UStr (Some a), UStr (Some (if args \<noteq> [] then '' '' else [CHR 0x0A]))]) (\<lambda>_. echo_args args)"

definition echo_main :: "string list \<Rightarrow> unit prog" where "echo_main args = echo_args args"

fun each_call :: "(string \<Rightarrow> int prog) \<Rightarrow> string \<Rightarrow> string list \<Rightarrow> unit prog" where
  "each_call call msg [] = exit_u"
| "each_call call msg (a # args) =
     bindp (call a) (\<lambda>r. if r < 0 then bindp (printf 2 msg [UStr (Some a)]) (\<lambda>_. exit_u) else each_call call msg args)"

definition mkdir_main :: "(string \<Rightarrow> int prog) \<Rightarrow> string list \<Rightarrow> unit prog" where
  "mkdir_main mkdir args =
     (if args = [] then bindp (printf 2 (''Usage: mkdir files...'' @ [CHR 0x0A]) []) (\<lambda>_. exit_u)
      else each_call mkdir (''mkdir: %s failed to create'' @ [CHR 0x0A]) args)"

definition rm_main :: "(string \<Rightarrow> int prog) \<Rightarrow> string list \<Rightarrow> unit prog" where
  "rm_main unlink args =
     (if args = [] then bindp (printf 2 (''Usage: rm files...'' @ [CHR 0x0A]) []) (\<lambda>_. exit_u)
      else each_call unlink (''rm: %s failed to delete'' @ [CHR 0x0A]) args)"

definition ln_main :: "(string \<Rightarrow> string \<Rightarrow> int prog) \<Rightarrow> string list \<Rightarrow> unit prog" where
  "ln_main link args = (case args of
     [a, b] \<Rightarrow> bindp (link a b) (\<lambda>r.
       if r < 0 then bindp (printf 2 (''link %s %s: failed'' @ [CHR 0x0A]) [UStr (Some a), UStr (Some b)]) (\<lambda>_. exit_u)
       else exit_u)
   | _ \<Rightarrow> bindp (printf 2 (''Usage: ln old new'' @ [CHR 0x0A]) []) (\<lambda>_. exit_u))"

fun kill_args :: "(u32 \<Rightarrow> int prog) \<Rightarrow> string list \<Rightarrow> unit prog" where
  "kill_args kill [] = exit_u"
| "kill_args kill (a # args) = bindp (kill (atoi a)) (\<lambda>_. kill_args kill args)"

definition kill_main :: "(u32 \<Rightarrow> int prog) \<Rightarrow> string list \<Rightarrow> unit prog" where
  "kill_main kill args =
     (if args = [] then bindp (printf 2 (''usage: kill pid...'' @ [CHR 0x0A]) []) (\<lambda>_. exit_u) else kill_args kill args)"

section \<open>What a pattern means\<close>

text \<open>A pattern is a sequence of characters or dots, each perhaps repeated, with an optional end marker.\<close>

datatype atom = Lit char | Any
datatype item = One atom | Many atom

fun atom_ok :: "atom \<Rightarrow> char \<Rightarrow> bool" where
  "atom_ok (Lit c) x = (x = c)"
| "atom_ok Any x = True"

definition atom_of :: "char \<Rightarrow> atom" where "atom_of c = (if c = CHR ''.'' then Any else Lit c)"

fun pattern_of :: "string \<Rightarrow> item list \<times> bool" where
  "pattern_of [] = ([], False)"
| "pattern_of [c] = (if c = CHR ''$'' then ([], True) else ([One (atom_of c)], False))"
| "pattern_of (c # d # re) =
     (if d = CHR ''*'' then apfst ((#) (Many (atom_of c))) (pattern_of re)
      else apfst ((#) (One (atom_of c))) (pattern_of (d # re)))"

primrec lang :: "item list \<Rightarrow> string set" where
  "lang [] = {[]}"
| "lang (i # its) = (case i of
     One a \<Rightarrow> {x # t | x t. atom_ok a x \<and> t \<in> lang its}
   | Many a \<Rightarrow> {u @ t | u t. (\<forall>x \<in> set u. atom_ok a x) \<and> t \<in> lang its})"

text \<open>A text begins with a match of the pattern, which ends the text if the pattern ends in a dollar sign.\<close>

definition begins :: "item list \<times> bool \<Rightarrow> string \<Rightarrow> bool" where
  "begins p text \<longleftrightarrow> (\<exists>u v. text = u @ v \<and> u \<in> lang (fst p) \<and> (snd p \<longrightarrow> v = []))"

lemma atom_ok_of: "atom_ok (atom_of c) x \<longleftrightarrow> c = CHR ''.'' \<or> c = x"
  by (auto simp: atom_of_def)

lemma beginsI: "u \<in> lang (fst p) \<Longrightarrow> (snd p \<Longrightarrow> v = []) \<Longrightarrow> begins p (u @ v)"
  unfolding begins_def by blast

lemma beginsE:
  assumes "begins p t"
  obtains u v where "t = u @ v" "u \<in> lang (fst p)" "snd p \<Longrightarrow> v = []"
  using assms unfolding begins_def by blast

lemma begins_One: "begins (apfst ((#) (One a)) p) t \<longleftrightarrow> (\<exists>x w. t = x # w \<and> atom_ok a x \<and> begins p w)"
proof
  assume "begins (apfst ((#) (One a)) p) t"
  then obtain u v where e: "t = u @ v" "u \<in> lang (One a # fst p)" "snd p \<Longrightarrow> v = []" by (rule beginsE) simp_all
  then obtain x w where "u = x # w" "atom_ok a x" "w \<in> lang (fst p)" by auto
  then show "\<exists>x w. t = x # w \<and> atom_ok a x \<and> begins p w" using e beginsI [of w p v] by auto
next
  assume "\<exists>x w. t = x # w \<and> atom_ok a x \<and> begins p w"
  then obtain x u v where "t = (x # u) @ v" "atom_ok a x" "u \<in> lang (fst p)" "snd p \<Longrightarrow> v = []" by (auto elim!: beginsE)
  then show "begins (apfst ((#) (One a)) p) t" using beginsI [of "x # u" "apfst ((#) (One a)) p" v] by simp
qed

lemma begins_Many: "begins (apfst ((#) (Many a)) p) t \<longleftrightarrow> (\<exists>y w. t = y @ w \<and> (\<forall>x \<in> set y. atom_ok a x) \<and> begins p w)"
proof
  assume "begins (apfst ((#) (Many a)) p) t"
  then obtain u v where e: "t = u @ v" "u \<in> lang (Many a # fst p)" "snd p \<Longrightarrow> v = []" by (rule beginsE) simp_all
  then obtain y w where "u = y @ w" "\<forall>x \<in> set y. atom_ok a x" "w \<in> lang (fst p)" by auto
  then show "\<exists>y w. t = y @ w \<and> (\<forall>x \<in> set y. atom_ok a x) \<and> begins p w" using e beginsI [of w p v] by auto
next
  assume "\<exists>y w. t = y @ w \<and> (\<forall>x \<in> set y. atom_ok a x) \<and> begins p w"
  then obtain y u v where "t = (y @ u) @ v" "\<forall>x \<in> set y. atom_ok a x" "u \<in> lang (fst p)" "snd p \<Longrightarrow> v = []" by (auto elim!: beginsE)
  then show "begins (apfst ((#) (Many a)) p) t" using beginsI [of "y @ u" "apfst ((#) (Many a)) p" v] by auto
qed

lemma begins_Many_Nil: "begins (apfst ((#) (Many a)) p) [] \<longleftrightarrow> begins p []"
  by (auto simp: begins_Many)

lemma begins_Many_Cons:
  "begins (apfst ((#) (Many a)) p) (x # t) \<longleftrightarrow> begins p (x # t) \<or> atom_ok a x \<and> begins (apfst ((#) (Many a)) p) t"
proof
  assume "begins (apfst ((#) (Many a)) p) (x # t)"
  then obtain y w where y: "x # t = y @ w" "\<forall>x \<in> set y. atom_ok a x" "begins p w" unfolding begins_Many by blast
  show "begins p (x # t) \<or> atom_ok a x \<and> begins (apfst ((#) (Many a)) p) t"
  proof (cases y)
    case (Cons z y')
    then have "begins (apfst ((#) (Many a)) p) t" unfolding begins_Many using y by (intro exI [of _ y'] exI [of _ w]) simp
    then show ?thesis using Cons y by simp
  qed (use y in simp)
next
  assume "begins p (x # t) \<or> atom_ok a x \<and> begins (apfst ((#) (Many a)) p) t"
  then show "begins (apfst ((#) (Many a)) p) (x # t)"
  proof (elim disjE conjE)
    assume "begins p (x # t)"
    then show ?thesis unfolding begins_Many by (intro exI [of _ "[]"] exI [of _ "x # t"]) simp
  next
    assume "atom_ok a x" "begins (apfst ((#) (Many a)) p) t"
    then obtain y w where "t = y @ w" "\<forall>x \<in> set (x # y). atom_ok a x" "begins p w" unfolding begins_Many by auto
    then show ?thesis unfolding begins_Many by (intro exI [of _ "x # y"] exI [of _ w]) simp
  qed
qed

lemma matchhere_begins:
  "matchhere re text \<longleftrightarrow> begins (pattern_of re) text"
  "matchstar c re text \<longleftrightarrow> begins (apfst ((#) (Many (atom_of c))) (pattern_of re)) text"
proof (induction re "text" and c re "text" rule: matchhere_matchstar.induct)
  case 1
  then show ?case by (simp add: begins_def)
next
  case (2 c t)
  have "begins ([One (atom_of c)], False) t \<longleftrightarrow> (\<exists>x u. t = x # u \<and> atom_ok (atom_of c) x)"
    using begins_One [of "atom_of c" "([], False)" t] by (simp add: begins_def)
  then show ?case by (cases t) (auto simp: begins_def atom_ok_of)
next
  case (3 c d re t)
  then show ?case by (cases t) (auto simp: begins_One atom_ok_of)
next
  case (4 c re)
  then show ?case by (simp add: begins_Many_Nil)
next
  case (5 c re x t)
  then show ?case by (auto simp: begins_Many_Cons atom_ok_of)
qed

lemma match_from_begins: "match_from re text \<longleftrightarrow> (\<exists>pre t. text = pre @ t \<and> begins (pattern_of re) t)"
proof (induction "text")
  case Nil
  then show ?case by (simp add: matchhere_begins)
next
  case (Cons x t)
  have "(\<exists>pre u. x # t = pre @ u \<and> begins (pattern_of re) u) \<longleftrightarrow>
    begins (pattern_of re) (x # t) \<or> (\<exists>pre u. t = pre @ u \<and> begins (pattern_of re) u)"
    by (metis append_Cons append_Nil append_eq_Cons_conv)
  then show ?case using Cons by (simp add: matchhere_begins)
qed

text \<open>
  C16: the matcher of \<^verbatim>\<open>grep\<close> accepts a line exactly when some part of it belongs to the language of the
  pattern: a sequence of characters and dots, where a star repeats the one before it any number of
  times, a leading \<^verbatim>\<open>^\<close> ties the part to the beginning and a trailing \<^verbatim>\<open>$\<close> to the end of the line.
\<close>

theorem match_language:
  "match re text \<longleftrightarrow>
    (let anchored = (re \<noteq> [] \<and> hd re = CHR ''^''); p = pattern_of (if anchored then tl re else re) in
     \<exists>pre u post. text = pre @ u @ post \<and> u \<in> lang (fst p) \<and> (if anchored then pre = [] else True) \<and> (if snd p then post = [] else True))"
  unfolding match_def Let_def by (auto simp: matchhere_begins match_from_begins begins_def)

text \<open>A line that arrives in two reads: its first part is dropped and the rest is taken for a line.\<close>

lemma grep_short_read:
  "grep_loop ''^b'' [] [Some ''a'', Some (''b'' @ [CHR 0x0A])] = ([''b'' @ [CHR 0x0A]], [])"
  by (simp add: grep_loop.simps grep_lines.simps c_str_def NUL_def match_def)

end
