(* ===== verification/Sh.thy ===== *)
theory Sh
  imports User_Lib "HOL-Library.Sublist"
begin

text \<open>
  The shell, \<^verbatim>\<open>sh.c\<close>: its parser, the tree of commands, and the system calls that running a command makes.
  A pointer into the line is the rest of the line from there on, so a token is a pair of such rests,
  the second a part of the first. \<^verbatim>\<open>nulterminate\<close> stores a NUL at the end of each token; a position is the
  number of characters behind it.
\<close>

section \<open>Commands\<close>

text \<open>A redirection keeps its file, the mode for \<^verbatim>\<open>open\<close> and the descriptor.\<close>

datatype cmd =
    EXEC "(string \<times> string) list"
  | REDIR cmd "string \<times> string" u32 nat
  | PIPE cmd cmd
  | LIST cmd cmd
  | BACK cmd

text \<open>A \<^verbatim>\<open>panic\<close> of the shell with its message. The parser has fuel; \<open>OutOfFuel\<close> is shown never to arise.\<close>

datatype perr = Syntax string | OutOfFuel

definition MAXARGS :: nat where "MAXARGS = 10"

definition O_RD :: u32 where "O_RD = 0"
definition O_WR_CREATE :: u32 where "O_WR_CREATE = 0x201"

section \<open>Tokens\<close>

definition whitespace :: string where "whitespace = '' '' @ [CHR 0x09, CHR 0x0D, CHR 0x0A, CHR 0x0B]"

definition symbols :: string where "symbols = ''<|>&;()''"

definition is_ws :: "char \<Rightarrow> bool" where "is_ws c = (strchr_u whitespace c \<noteq> None)"

definition is_sym :: "char \<Rightarrow> bool" where "is_sym c = (strchr_u symbols c \<noteq> None)"

definition wordc :: "char \<Rightarrow> bool" where "wordc c = (\<not> is_ws c \<and> \<not> is_sym c)"

definition skip :: "string \<Rightarrow> string" where "skip s = dropWhile is_ws s"

text \<open>\<^verbatim>\<open>gettoken\<close>: the kind of token, its beginning, its end, and the rest.\<close>

definition gettoken :: "string \<Rightarrow> char \<times> string \<times> string \<times> string" where
  "gettoken s =
     (let q = skip s in
      case q of
        [] \<Rightarrow> (NUL, q, q, q)
      | c # r \<Rightarrow>
          if c \<in> set ''|();&<'' then (c, q, r, skip r)
          else if c = CHR ''>'' then
            if r \<noteq> [] \<and> hd r = CHR ''>'' then (CHR ''+'', q, tl r, skip (tl r)) else (CHR ''>'', q, r, skip r)
          else let e = dropWhile wordc q in (CHR ''a'', q, e, skip e))"

definition peek :: "string \<Rightarrow> string \<Rightarrow> string \<times> bool" where
  "peek toks s = (let s = skip s in (s, s \<noteq> [] \<and> hd s \<in> set toks))"

text \<open>The rest behind one token.\<close>

definition next_tok :: "string \<Rightarrow> string" where "next_tok s = (case gettoken s of (_, _, _, s) \<Rightarrow> s)"

lemma skip_le: "length (skip s) \<le> length s"
  by (simp add: skip_def length_dropWhile_le)

lemma skip_Nil [simp]: "skip [] = []"
  by (simp add: skip_def)

lemma skip_suffix: "suffix (skip s) s"
  by (simp add: skip_def suffix_dropWhile)

lemma gettoken_suffix:
  assumes "gettoken s = (tok, q, e, r)"
  shows "suffix q s" "suffix e q" "suffix r e"
proof -
  have q: "q = skip s" using assms unfolding gettoken_def Let_def by (auto split: list.splits if_splits)
  then show "suffix q s" using skip_suffix by simp
  show "suffix e q" "suffix r e"
  proof -
    consider "q = []" "e = []" "r = []" | c t where "q = c # t" "e = t" "r = skip t" | c t where "q = c # t" "e = tl t" "r = skip (tl t)"
      | "e = dropWhile wordc q" "r = skip e"
      using assms q unfolding gettoken_def Let_def by (cases "skip s") (auto split: if_splits)
    then have "suffix e q \<and> suffix r e"
    proof cases
      case (3 c t)
      then show ?thesis using skip_suffix suffix_tl [of t] suffix_ConsI by metis
    qed (auto simp: skip_suffix suffix_dropWhile intro: suffix_ConsI)
    then show "suffix e q" "suffix r e" by simp_all
  qed
qed

lemma skip_hd: "skip s = c # r \<Longrightarrow> \<not> is_ws c"
  unfolding skip_def by (metis hd_dropWhile list.discI list.sel(1))

lemma gettoken_less:
  assumes "gettoken s = (tok, q, e, r)" "tok \<noteq> NUL"
  shows "length r < length s"
proof (cases "skip s")
  case Nil
  then show ?thesis using assms by (simp add: gettoken_def)
next
  case (Cons c t)
  have s: "length t < length s" using skip_le [of s] Cons by simp
  have w: "length (dropWhile wordc (c # t)) \<le> length t" if "c \<notin> set ''|();&<''" "c \<noteq> CHR ''>''"
  proof -
    have "\<not> is_sym c" using that by (auto simp: is_sym_def symbols_def)
    then show ?thesis using skip_hd [OF Cons] length_dropWhile_le [of wordc t] by (simp add: wordc_def)
  qed
  consider "r = skip t" | "r = skip (tl t)" | "r = skip (dropWhile wordc (c # t))" "c \<notin> set ''|();&<''" "c \<noteq> CHR ''>''"
    using assms(1) unfolding gettoken_def Let_def Cons by (auto split: if_splits)
  then have "length r \<le> length t"
  proof cases
    case 2
    then show ?thesis using skip_le [of "tl t"] by simp
  next
    case 3
    then show ?thesis using skip_le [of "dropWhile wordc (c # t)"] w by simp
  qed (simp add: skip_le)
  then show ?thesis using s by simp
qed

section \<open>The parser\<close>

definition redircmd :: "char \<Rightarrow> cmd \<Rightarrow> string \<times> string \<Rightarrow> cmd" where
  "redircmd tok c f = (if tok = CHR ''<'' then REDIR c f O_RD 0 else REDIR c f O_WR_CREATE 1)"

function parseredirs :: "cmd \<Rightarrow> string \<Rightarrow> perr + cmd \<times> string" where
  "parseredirs c s =
     (case peek ''<>'' s of (s, b) \<Rightarrow>
        if \<not> b then Inr (c, s)
        else case gettoken s of (tok, _, _, s) \<Rightarrow>
          case gettoken s of (t, q, e, s) \<Rightarrow>
            if t \<noteq> CHR ''a'' then Inl (Syntax ''missing file for redirection'')
            else parseredirs (redircmd tok c (q, e)) s)"
  by auto
termination
proof (relation "measure (\<lambda>(c, s). length s)", goal_cases)
  case (2 c s s1 b tok y q0 z e0 s2 t u q v e s3)
  have "length s3 < length s2" using gettoken_less [of s2 t q e s3] 2 by (auto simp: NUL_def)
  moreover have "suffix s2 s1" using gettoken_suffix [of s1 tok q0 e0 s2] 2 by (metis suffix_order.trans)
  then have "length s2 \<le> length s1" by (rule suffix_length_le)
  moreover have "length s1 \<le> length s" using 2 skip_le [of s] by (auto simp: peek_def Let_def)
  ultimately show ?case using 2 by simp
qed simp

declare parseredirs.simps [simp del]

text \<open>
  The arguments go into the \<^verbatim>\<open>EXEC\<close> node, which the redirections found so far already surround.
\<close>

fun add_arg :: "string \<times> string \<Rightarrow> cmd \<Rightarrow> cmd" where
  "add_arg a (EXEC as) = EXEC (as @ [a])"
| "add_arg a (REDIR c f md fd) = REDIR (add_arg a c) f md fd"
| "add_arg a c = c"

lemma parseredirs_suffix: "parseredirs c s = Inr (c', r) \<Longrightarrow> suffix r s"
proof (induction c s rule: parseredirs.induct)
  case (1 c s)
  obtain s1 b where p: "peek ''<>'' s = (s1, b)" by fastforce
  have s1: "suffix s1 s" using p skip_suffix [of s] by (auto simp: peek_def Let_def)
  show ?case
  proof (cases b)
    case False
    then show ?thesis using 1(2) p s1 by (subst (asm) parseredirs.simps) simp
  next
    case True
    obtain tok q0 e0 s2 where g: "gettoken s1 = (tok, q0, e0, s2)" by (metis prod_cases4)
    obtain t q e s3 where h: "gettoken s2 = (t, q, e, s3)" by (metis prod_cases4)
    have t: "t = CHR ''a''" "parseredirs (redircmd tok c (q, e)) s3 = Inr (c', r)"
      using 1(2) p True g h by (subst (asm) parseredirs.simps, simp split: if_splits)+
    have "suffix r s3" using 1(1) [OF p [symmetric] _ g [symmetric] refl refl h [symmetric] refl refl] True t by simp
    moreover have "suffix s3 s2" "suffix s2 s1" using gettoken_suffix [OF g] gettoken_suffix [OF h] by (metis suffix_order.trans)+
    ultimately show ?thesis using s1 by (metis suffix_order.trans)
  qed
qed

function parse_args :: "nat \<Rightarrow> cmd \<Rightarrow> string \<Rightarrow> perr + cmd \<times> string" where
  "parse_args argc ret s =
     (case peek ''|)&;'' s of (s, b) \<Rightarrow>
        if b then Inr (ret, s)
        else case gettoken s of (tok, q, e, s) \<Rightarrow>
          if tok = NUL then Inr (ret, s)
          else if tok \<noteq> CHR ''a'' then Inl (Syntax ''syntax'')
          else if argc + 1 \<ge> MAXARGS then Inl (Syntax ''too many args'')
          else case parseredirs (add_arg (q, e) ret) s of
            Inl err \<Rightarrow> Inl err
          | Inr (ret, s) \<Rightarrow> parse_args (argc + 1) ret s)"
  by auto
termination
proof (relation "measure (\<lambda>(argc, ret, s). length s)", goal_cases)
  case (2 argc ret s s1 b tok y q z e s2 x ret' s3)
  have "length s2 < length s1" using gettoken_less [of s1 tok q e s2] 2 by auto
  moreover have "length s1 \<le> length s" using 2 skip_le [of s] by (auto simp: peek_def Let_def)
  moreover have "length s3 \<le> length s2" using 2 parseredirs_suffix suffix_length_le by metis
  ultimately show ?case by simp
qed simp

declare parse_args.simps [simp del]

function back_loop :: "cmd \<Rightarrow> string \<Rightarrow> cmd \<times> string" where
  "back_loop c s = (case peek ''&'' s of (s, b) \<Rightarrow> if b then back_loop (BACK c) (next_tok s) else (c, s))"
  by auto
termination
proof (relation "measure (\<lambda>(c, s). length s)", goal_cases)
  case (2 c s s1 b)
  then have s1: "s1 \<noteq> []" "hd s1 = CHR ''&''" "length s1 \<le> length s" using skip_le [of s] by (auto simp: peek_def Let_def)
  obtain tok q e r where g: "gettoken s1 = (tok, q, e, r)" by (metis prod_cases4)
  have "\<not> is_ws (CHR ''&'')" by (simp add: is_ws_def whitespace_def)
  then have "skip s1 = s1" using s1 by (cases s1) (simp_all add: skip_def)
  then have "tok \<noteq> NUL" using g s1 by (cases s1) (auto simp: gettoken_def NUL_def)
  then show ?case using gettoken_less [OF g] s1 by (simp add: next_tok_def g)
qed simp

declare back_loop.simps [simp del]

text \<open>
  The mutually recursive procedures, each call with one unit of fuel less. A token is consumed on each
  round of calls, so that four units for each character are enough.
\<close>

fun parseline :: "nat \<Rightarrow> string \<Rightarrow> perr + cmd \<times> string"
and parsepipe :: "nat \<Rightarrow> string \<Rightarrow> perr + cmd \<times> string"
and parseexec :: "nat \<Rightarrow> string \<Rightarrow> perr + cmd \<times> string"
and parseblock :: "nat \<Rightarrow> string \<Rightarrow> perr + cmd \<times> string" where
  "parseline 0 s = Inl OutOfFuel"
| "parseline (Suc n) s =
     (case parsepipe n s of
        Inl err \<Rightarrow> Inl err
      | Inr (c, s) \<Rightarrow>
          case back_loop c s of (c, s) \<Rightarrow>
            case peek '';'' s of (s, b) \<Rightarrow>
              if b then (case parseline n (next_tok s) of Inl err \<Rightarrow> Inl err | Inr (d, s) \<Rightarrow> Inr (LIST c d, s))
              else Inr (c, s))"
| "parsepipe 0 s = Inl OutOfFuel"
| "parsepipe (Suc n) s =
     (case parseexec n s of
        Inl err \<Rightarrow> Inl err
      | Inr (c, s) \<Rightarrow>
          case peek ''|'' s of (s, b) \<Rightarrow>
            if b then (case parsepipe n (next_tok s) of Inl err \<Rightarrow> Inl err | Inr (d, s) \<Rightarrow> Inr (PIPE c d, s))
            else Inr (c, s))"
| "parseexec 0 s = Inl OutOfFuel"
| "parseexec (Suc n) s =
     (case peek ''('' s of (s, b) \<Rightarrow>
        if b then parseblock n s
        else case parseredirs (EXEC []) s of Inl err \<Rightarrow> Inl err | Inr (ret, s) \<Rightarrow> parse_args 0 ret s)"
| "parseblock 0 s = Inl OutOfFuel"
| "parseblock (Suc n) s =
     (case peek ''('' s of (s, b) \<Rightarrow>
        if \<not> b then Inl (Syntax ''parseblock'')
        else case parseline n (next_tok s) of
          Inl err \<Rightarrow> Inl err
        | Inr (c, s) \<Rightarrow>
            case peek '')'' s of (s, b) \<Rightarrow>
              if \<not> b then Inl (Syntax ''syntax - missing )'') else parseredirs c (next_tok s))"

definition parsecmd :: "string \<Rightarrow> perr + cmd" where
  "parsecmd s =
     (let s = c_str s in
      case parseline (4 * length s + 4) s of
        Inl err \<Rightarrow> Inl err
      | Inr (c, r) \<Rightarrow>
          let r = fst (peek [] r) in
          if r \<noteq> [] then Inl (Syntax (''leftovers: '' @ r @ [CHR 0x0A] @ ''syntax'')) else Inr c)"

section \<open>Ends of tokens\<close>

fun tokens :: "cmd \<Rightarrow> (string \<times> string) list" where
  "tokens (EXEC as) = as"
| "tokens (REDIR c f md fd) = tokens c @ [f]"
| "tokens (PIPE l r) = tokens l @ tokens r"
| "tokens (LIST l r) = tokens l @ tokens r"
| "tokens (BACK c) = tokens c"

text \<open>\<^verbatim>\<open>nulterminate\<close>: the positions at which it stores a NUL, and the string a pointer then stands for.\<close>

definition nulterminate :: "cmd \<Rightarrow> nat list" where "nulterminate c = map (\<lambda>(q, e). length e) (tokens c)"

fun term_str :: "nat list \<Rightarrow> string \<Rightarrow> string" where
  "term_str ns [] = []"
| "term_str ns (x # s) = (if length (x # s) \<in> set ns then [] else x # term_str ns s)"

section \<open>Running a command\<close>

text \<open>
  The system calls of a process: a descriptor is a number or an end of the pipe just made. \<open>Try a no yes\<close>
  goes on with \<open>no\<close> if the call fails; \<open>Exec argv no\<close> goes on only if \<^verbatim>\<open>exec\<close> fails; \<open>Fork c no p\<close> has the child,
  what follows a failure, and the parent.
\<close>

datatype fdref = Fd nat | PipeR | PipeW
datatype act = Close fdref | Open string u32 | Pipe | Dup fdref | Wait | Print string | Chdir string

datatype script =
    Exit
  | Do act script
  | Try act script script
  | Exec "string list" script
  | Fork script script script

definition sh_panic :: "string \<Rightarrow> script" where "sh_panic msg = Do (Print (msg @ [CHR 0x0A])) Exit"

definition fork1 :: "script \<Rightarrow> script \<Rightarrow> script" where "fork1 child parent = Fork child (sh_panic ''fork'') parent"

fun runcmd :: "nat list \<Rightarrow> cmd \<Rightarrow> script" where
  "runcmd ns (EXEC as) =
     (let argv = map (\<lambda>(q, e). term_str ns q) as in
      if argv = [] then Exit
      else Exec argv (Do (Print (''exec '' @ hd argv @ '' failed'' @ [CHR 0x0A])) Exit))"
| "runcmd ns (REDIR c f md fd) =
     (let file = term_str ns (fst f) in
      Do (Close (Fd fd)) (Try (Open file md) (Do (Print (''open '' @ file @ '' failed'' @ [CHR 0x0A])) Exit) (runcmd ns c)))"
| "runcmd ns (LIST l r) = fork1 (runcmd ns l) (Do Wait (runcmd ns r))"
| "runcmd ns (PIPE l r) =
     Try Pipe (sh_panic ''pipe'')
       (fork1 (Do (Close (Fd 1)) (Do (Dup PipeW) (Do (Close PipeR) (Do (Close PipeW) (runcmd ns l)))))
       (fork1 (Do (Close (Fd 0)) (Do (Dup PipeR) (Do (Close PipeR) (Do (Close PipeW) (runcmd ns r)))))
         (Do (Close PipeR) (Do (Close PipeW) (Do Wait (Do Wait Exit))))))"
| "runcmd ns (BACK c) = fork1 (runcmd ns c) Exit"

text \<open>The child of the shell's main loop.\<close>

definition run_line :: "string \<Rightarrow> script" where
  "run_line buf = (case parsecmd buf of
     Inl (Syntax msg) \<Rightarrow> sh_panic msg
   | Inl OutOfFuel \<Rightarrow> Exit
   | Inr c \<Rightarrow> runcmd (nulterminate c) c)"

text \<open>\<^verbatim>\<open>getcmd\<close>: a line of at most 99 characters, \<open>None\<close> at the end of the input.\<close>

definition getcmd :: "input_seq \<Rightarrow> string option \<times> input_seq" where
  "getcmd cs = (case gets_u 100 cs of (buf, cs) \<Rightarrow> (if c_str buf = [] then None else Some (c_str buf), cs))"

text \<open>One turn of the main loop on a line, and the loop for at most \<open>n\<close> lines.\<close>

definition sh_turn :: "string \<Rightarrow> script \<Rightarrow> script" where
  "sh_turn buf rest =
     (if chr_at buf 0 = CHR ''c'' \<and> chr_at buf 1 = CHR ''d'' \<and> chr_at buf 2 = CHR '' '' then
        let dir = drop 3 (butlast buf) in
        Try (Chdir dir) (Do (Print (''cannot cd '' @ dir @ [CHR 0x0A])) rest) rest
      else fork1 (run_line buf) (Do Wait rest))"

fun sh_main :: "nat \<Rightarrow> input_seq \<Rightarrow> script" where
  "sh_main 0 cs = Exit"
| "sh_main (Suc n) cs =
     Do (Print ''$ '') (case getcmd cs of (None, _) \<Rightarrow> Exit | (Some buf, cs) \<Rightarrow> sh_turn buf (sh_main n cs))"

end
