(* ===== verification/Sh_Props.thy ===== *)
theory Sh_Props
  imports Sh
begin

text \<open>
  What the shell's parser guarantees: it ends on every line, and the tokens of a command are words of
  the line, which \<^verbatim>\<open>nulterminate\<close> cuts off exactly.
\<close>

section \<open>The parser ends\<close>

lemma peek_le: "peek ts s = (s', b) \<Longrightarrow> length s' \<le> length s"
  using skip_le by (auto simp: peek_def Let_def)

lemma peek_suffix: "peek ts s = (s', b) \<Longrightarrow> suffix s' s"
  using skip_suffix by (auto simp: peek_def Let_def)

lemma next_tok_suffix: "suffix (next_tok s) s"
proof -
  obtain tok q e r where "gettoken s = (tok, q, e, r)" by (metis prod_cases4)
  then show ?thesis using gettoken_suffix [of s tok q e r] suffix_order.trans by (simp add: next_tok_def)
qed

lemma peek_next:
  assumes "peek ts s = (s', True)" "NUL \<notin> set ts"
  shows "length (next_tok s') < length s"
proof -
  have s': "s' = skip s" "s' \<noteq> []" "hd s' \<in> set ts" using assms by (auto simp: peek_def Let_def)
  have "\<not> is_ws (hd s')" using skip_hd [of s "hd s'" "tl s'"] s' by simp
  then have "skip s' = s'" using s' by (cases s') (simp_all add: skip_def)
  moreover obtain tok q e r where g: "gettoken s' = (tok, q, e, r)" by (metis prod_cases4)
  ultimately have "tok = NUL \<Longrightarrow> hd s' = NUL"
    using s'(2) by (cases s') (simp_all add: gettoken_def NUL_def Let_def split: if_splits)
  then have "tok \<noteq> NUL" using s'(3) assms(2) by metis
  then have "length (next_tok s') < length s'" using gettoken_less [OF g] by (simp add: next_tok_def g)
  then show ?thesis using skip_le [of s] s'(1) by simp
qed

lemma parse_args_suffix: "parse_args k c s = Inr (c', r) \<Longrightarrow> suffix r s"
proof (induction k c s rule: parse_args.induct)
  case (1 k c s)
  obtain s1 b where p: "peek ''|)&;'' s = (s1, b)" by fastforce
  obtain t q e s2 where g: "gettoken s1 = (t, q, e, s2)" by (metis prod_cases4)
  have s2: "suffix s1 s" "suffix s2 s1" using peek_suffix [OF p] gettoken_suffix [OF g] by (blast intro: suffix_order.trans)+
  show ?case
  proof (cases "b \<or> t = NUL")
    case True
    then show ?thesis using 1(2) p g s2 by (subst (asm) parse_args.simps) (auto split: if_splits intro: suffix_order.trans)
  next
    case False
    then obtain c2 s3 where r: "parseredirs (add_arg (q, e) c) s2 = Inr (c2, s3)" "parse_args (k + 1) c2 s3 = Inr (c', r)"
        "t = CHR ''a''" "\<not> MAXARGS \<le> k + 1"
      using 1(2) p g by (subst (asm) parse_args.simps) (auto split: if_splits sum.splits)
    have "suffix r s3" using 1(1) [OF p [symmetric] _ g [symmetric] refl refl _ _ _ r(1) refl r(2)] False r by simp
    then show ?thesis using parseredirs_suffix [OF r(1)] s2 by (metis suffix_order.trans)
  qed
qed

lemma back_loop_suffix: "back_loop c s = (c', r) \<Longrightarrow> suffix r s"
proof (induction c s rule: back_loop.induct)
  case (1 c s)
  obtain s1 b where p: "peek ''&'' s = (s1, b)" by fastforce
  show ?case
    using 1(2) 1(1) [OF p [symmetric]] p peek_suffix [OF p] next_tok_suffix [of s1]
    by (subst (asm) back_loop.simps) (auto split: if_splits intro: suffix_order.trans)
qed

text \<open>A call of each of the procedures that returns a command, one level down.\<close>

lemma parseline_Inr:
  assumes "parseline (Suc n) s = Inr (c, r)"
  obtains c1 s1 c2 s2 s3 where "parsepipe n s = Inr (c1, s1)" "back_loop c1 s1 = (c2, s2)" "peek '';'' s2 = (s3, False)" "c = c2" "r = s3"
    | c1 s1 c2 s2 s3 d where "parsepipe n s = Inr (c1, s1)" "back_loop c1 s1 = (c2, s2)" "peek '';'' s2 = (s3, True)"
        "parseline n (next_tok s3) = Inr (d, r)" "c = LIST c2 d"
  using assms by (auto split: sum.splits prod.splits if_splits)

lemma parsepipe_Inr:
  assumes "parsepipe (Suc n) s = Inr (c, r)"
  obtains s1 where "parseexec n s = Inr (c, s1)" "peek ''|'' s1 = (r, False)"
    | c1 s1 s3 d where "parseexec n s = Inr (c1, s1)" "peek ''|'' s1 = (s3, True)"
        "parsepipe n (next_tok s3) = Inr (d, r)" "c = PIPE c1 d"
  using assms by (auto split: sum.splits prod.splits if_splits)

lemma parseexec_Inr:
  assumes "parseexec (Suc n) s = Inr (c, r)"
  obtains s1 where "peek ''('' s = (s1, True)" "parseblock n s1 = Inr (c, r)"
    | s1 c1 s2 where "peek ''('' s = (s1, False)" "parseredirs (EXEC []) s1 = Inr (c1, s2)" "parse_args 0 c1 s2 = Inr (c, r)"
  using assms by (auto split: sum.splits prod.splits if_splits)

lemma parseblock_Inr:
  assumes "parseblock (Suc n) s = Inr (c, r)"
  obtains s1 c1 s2 s3 where "peek ''('' s = (s1, True)" "parseline n (next_tok s1) = Inr (c1, s2)"
    "peek '')'' s2 = (s3, True)" "parseredirs c1 (next_tok s3) = Inr (c, r)"
  using assms by (auto split: sum.splits prod.splits if_splits)

lemma next_peek_suffix: "peek ts s = (s', b) \<Longrightarrow> suffix (next_tok s') s"
  using peek_suffix next_tok_suffix suffix_order.trans by metis

lemma parse_suffix:
  "(\<forall>s c r. parseline n s = Inr (c, r) \<longrightarrow> suffix r s) \<and> (\<forall>s c r. parsepipe n s = Inr (c, r) \<longrightarrow> suffix r s) \<and>
   (\<forall>s c r. parseexec n s = Inr (c, r) \<longrightarrow> suffix r s) \<and> (\<forall>s c r. parseblock n s = Inr (c, r) \<longrightarrow> suffix r s)"
proof (induction n)
  case (Suc n)
  note tr = suffix_order.trans
  show ?case
  proof (intro conjI allI impI, goal_cases)
    case (1 s c r)
    then show ?case
      by (cases rule: parseline_Inr) (use Suc in \<open>meson tr back_loop_suffix peek_suffix next_peek_suffix\<close>)+
  next
    case (2 s c r)
    then show ?case by (cases rule: parsepipe_Inr) (use Suc in \<open>meson tr peek_suffix next_peek_suffix\<close>)+
  next
    case (3 s c r)
    then show ?case
      by (cases rule: parseexec_Inr) (use Suc in \<open>meson tr peek_suffix parseredirs_suffix parse_args_suffix\<close>)+
  next
    case (4 s c r)
    then show ?case by (cases rule: parseblock_Inr) (use Suc in \<open>meson tr next_peek_suffix parseredirs_suffix\<close>)
  qed
qed simp

lemma parseredirs_fuel: "parseredirs c s \<noteq> Inl OutOfFuel"
proof (induction c s rule: parseredirs.induct)
  case (1 c s)
  then show ?case by (subst parseredirs.simps) (auto split: prod.splits)
qed

lemma parse_args_fuel: "parse_args k c s \<noteq> Inl OutOfFuel"
proof (induction k c s rule: parse_args.induct)
  case (1 k c s)
  then show ?case using parseredirs_fuel by (subst parse_args.simps) (auto split: prod.splits sum.splits)
qed

lemma parse_fuel:
  "(\<forall>s. 4 * length s + 4 \<le> n \<longrightarrow> parseline n s \<noteq> Inl OutOfFuel) \<and> (\<forall>s. 4 * length s + 3 \<le> n \<longrightarrow> parsepipe n s \<noteq> Inl OutOfFuel) \<and>
   (\<forall>s. 4 * length s + 2 \<le> n \<longrightarrow> parseexec n s \<noteq> Inl OutOfFuel) \<and> (\<forall>s. 4 * length s + 1 \<le> n \<longrightarrow> parseblock n s \<noteq> Inl OutOfFuel)"
proof (induction n)
  case (Suc n)
  have len: "length r \<le> length s" if "parsepipe n s = Inr (c, r) \<or> parseexec n s = Inr (c, r)" for s c r
    using that parse_suffix [of n] suffix_length_le by blast
  show ?case
  proof (intro conjI allI impI, goal_cases)
    case (1 s)
    have "4 * length (next_tok s3) + 4 \<le> n"
      if "parsepipe n s = Inr (c1, s1)" "back_loop c1 s1 = (c2, s2)" "peek '';'' s2 = (s3, True)" for c1 s1 c2 s2 s3
      using peek_next [OF that(3)] suffix_length_le [OF back_loop_suffix [OF that(2)]] len [of s c1 s1] that(1) 1
      by (simp add: NUL_def)
    then show ?case using Suc 1 by (auto split: sum.splits prod.splits)
  next
    case (2 s)
    have "4 * length (next_tok s3) + 3 \<le> n" if "parseexec n s = Inr (c1, s1)" "peek ''|'' s1 = (s3, True)" for c1 s1 s3
      using peek_next [OF that(2)] len [of s c1 s1] that(1) 2 by (simp add: NUL_def)
    then show ?case using Suc 2 by (auto split: sum.splits prod.splits)
  next
    case (3 s)
    have "parseblock n s1 \<noteq> Inl OutOfFuel" if "peek ''('' s = (s1, b)" for s1 b
      using Suc peek_le [OF that] 3 by simp
    then show ?case using parseredirs_fuel parse_args_fuel by (auto split: sum.splits prod.splits)
  next
    case (4 s)
    have "4 * length (next_tok s1) + 4 \<le> n" if "peek ''('' s = (s1, True)" for s1
      using peek_next [OF that] 4 by (simp add: NUL_def)
    then show ?case using Suc 4 parseredirs_fuel by (auto split: sum.splits prod.splits)
  qed
qed simp

section \<open>Tokens of a command\<close>

definition tok_ok :: "string \<Rightarrow> string \<times> string \<Rightarrow> bool" where
  "tok_ok s t \<longleftrightarrow> suffix (fst t) s \<and> (\<exists>w. fst t = w @ snd t \<and> w \<noteq> [] \<and> (\<forall>x\<in>set w. wordc x)) \<and>
     (snd t = [] \<or> \<not> wordc (hd (snd t)))"

definition toks_ok :: "string \<Rightarrow> cmd \<Rightarrow> bool" where "toks_ok s c \<longleftrightarrow> (\<forall>t\<in>set (tokens c). tok_ok s t)"

lemma toks_ok_simps [simp]:
  "toks_ok s (EXEC as) \<longleftrightarrow> (\<forall>t\<in>set as. tok_ok s t)"
  "toks_ok s (REDIR c f md fd) \<longleftrightarrow> toks_ok s c \<and> tok_ok s f"
  "toks_ok s (PIPE l r) \<longleftrightarrow> toks_ok s l \<and> toks_ok s r"
  "toks_ok s (LIST l r) \<longleftrightarrow> toks_ok s l \<and> toks_ok s r"
  "toks_ok s (BACK c) \<longleftrightarrow> toks_ok s c"
  by (auto simp: toks_ok_def)

lemma toks_ok_redircmd [simp]: "toks_ok s (redircmd tok c f) \<longleftrightarrow> toks_ok s c \<and> tok_ok s f"
  by (simp add: redircmd_def)

lemma toks_ok_add_arg: "toks_ok s c \<Longrightarrow> tok_ok s t \<Longrightarrow> toks_ok s (add_arg t c)"
  by (induction t c rule: add_arg.induct) auto

lemma gettoken_ok:
  assumes "gettoken s = (CHR ''a'', q, e, r)" "suffix s s0"
  shows "tok_ok s0 (q, e)"
proof -
  have q: "q = skip s" using assms unfolding gettoken_def Let_def by (auto split: list.splits if_splits)
  have "q \<noteq> []" using assms(1) q by (auto simp: gettoken_def NUL_def)
  then obtain c t where ct: "q = c # t" by (cases q) auto
  have c: "c \<notin> set ''|();&<''" "c \<noteq> CHR ''>''" "e = dropWhile wordc q"
    using assms(1) unfolding gettoken_def Let_def q [symmetric] ct by (auto split: if_splits)
  have "\<not> is_sym c" using c by (auto simp: is_sym_def symbols_def)
  then have "wordc c" using skip_hd [of s c t] q ct by (simp add: wordc_def)
  then have "takeWhile wordc q \<noteq> []" using ct by simp
  moreover have "q = takeWhile wordc q @ e" using c by simp
  moreover have "\<forall>x\<in>set (takeWhile wordc q). wordc x" using set_takeWhileD by fast
  moreover have "e = [] \<or> \<not> wordc (hd e)" using c hd_dropWhile by blast
  moreover have "suffix q s0" using assms(2) skip_suffix q suffix_order.trans by blast
  ultimately show ?thesis unfolding tok_ok_def fst_conv snd_conv by blast
qed

lemma parseredirs_ok: "parseredirs c s = Inr (c', r) \<Longrightarrow> suffix s s0 \<Longrightarrow> toks_ok s0 c \<Longrightarrow> toks_ok s0 c'"
proof (induction c s rule: parseredirs.induct)
  case (1 c s)
  obtain s1 b where p: "peek ''<>'' s = (s1, b)" by fastforce
  show ?case
  proof (cases b)
    case False
    then show ?thesis using 1(2,4) p by (subst (asm) parseredirs.simps) simp
  next
    case True
    obtain tok q0 e0 s2 where g: "gettoken s1 = (tok, q0, e0, s2)" by (metis prod_cases4)
    obtain t q e s3 where h: "gettoken s2 = (t, q, e, s3)" by (metis prod_cases4)
    have t: "t = CHR ''a''" "parseredirs (redircmd tok c (q, e)) s3 = Inr (c', r)"
      using 1(2) p True g h by (subst (asm) parseredirs.simps, simp split: if_splits)+
    have s: "suffix s2 s0" "suffix s3 s0"
      using gettoken_suffix [OF g] gettoken_suffix [OF h] peek_suffix [OF p] 1(3) by (meson suffix_order.trans)+
    show ?thesis
      using 1(1) [OF p [symmetric] _ g [symmetric] refl refl h [symmetric] refl refl] True t s 1(4) gettoken_ok [of s2 q e s3 s0] h
      by simp
  qed
qed

lemma parse_args_ok: "parse_args k c s = Inr (c', r) \<Longrightarrow> suffix s s0 \<Longrightarrow> toks_ok s0 c \<Longrightarrow> toks_ok s0 c'"
proof (induction k c s rule: parse_args.induct)
  case (1 k c s)
  obtain s1 b where p: "peek ''|)&;'' s = (s1, b)" by fastforce
  obtain t q e s2 where g: "gettoken s1 = (t, q, e, s2)" by (metis prod_cases4)
  show ?case
  proof (cases "b \<or> t = NUL")
    case True
    then show ?thesis using 1(2,4) p g by (subst (asm) parse_args.simps) (auto split: if_splits)
  next
    case False
    then obtain c2 s3 where r: "parseredirs (add_arg (q, e) c) s2 = Inr (c2, s3)" "parse_args (k + 1) c2 s3 = Inr (c', r)"
        "t = CHR ''a''" "\<not> MAXARGS \<le> k + 1"
      using 1(2) p g by (subst (asm) parse_args.simps) (auto split: if_splits sum.splits)
    have s: "suffix s1 s0" "suffix s2 s0" "suffix s3 s0"
      using peek_suffix [OF p] gettoken_suffix [OF g] parseredirs_suffix [OF r(1)] 1(3) by (meson suffix_order.trans)+
    have "toks_ok s0 c2"
      using parseredirs_ok [OF r(1) s(2)] toks_ok_add_arg [OF 1(4)] gettoken_ok [of s1 q e s2 s0] g r(3) s(1) by simp
    then show ?thesis using 1(1) [OF p [symmetric] _ g [symmetric] refl refl _ _ _ r(1) refl r(2)] False r s by simp
  qed
qed

lemma back_loop_ok: "back_loop c s = (c', r) \<Longrightarrow> toks_ok s0 c \<Longrightarrow> toks_ok s0 c'"
proof (induction c s rule: back_loop.induct)
  case (1 c s)
  then show ?case by (subst (asm) (2) back_loop.simps) (auto split: if_splits prod.splits)
qed

lemma parse_ok:
  "(\<forall>s c r. parseline n s = Inr (c, r) \<longrightarrow> suffix s s0 \<longrightarrow> toks_ok s0 c) \<and>
   (\<forall>s c r. parsepipe n s = Inr (c, r) \<longrightarrow> suffix s s0 \<longrightarrow> toks_ok s0 c) \<and>
   (\<forall>s c r. parseexec n s = Inr (c, r) \<longrightarrow> suffix s s0 \<longrightarrow> toks_ok s0 c) \<and>
   (\<forall>s c r. parseblock n s = Inr (c, r) \<longrightarrow> suffix s s0 \<longrightarrow> toks_ok s0 c)"
proof (induction n)
  case (Suc n)
  note tr = suffix_order.trans
  note suf = parse_suffix [of n, THEN conjunct1, rule_format] parse_suffix [of n, THEN conjunct2, THEN conjunct1, rule_format]
    parse_suffix [of n, THEN conjunct2, THEN conjunct2, THEN conjunct1, rule_format]
  show ?case
  proof (intro conjI allI impI, goal_cases)
    case (1 s c r)
    from 1(1) show ?case
    proof (cases rule: parseline_Inr)
      case (2 c1 s1 c2 s2 s3 d)
      then have "suffix (next_tok s3) s0" using suf(2) back_loop_suffix next_peek_suffix 1(2) by (meson tr)
      then show ?thesis using Suc 2 1(2) back_loop_ok by (metis toks_ok_simps(4))
    qed (use Suc 1 back_loop_ok in metis)
  next
    case (2 s c r)
    from 2(1) show ?case
    proof (cases rule: parsepipe_Inr)
      case (2 c1 s1 s3 d)
      then have "suffix (next_tok s3) s0" using suf(3) next_peek_suffix \<open>suffix s s0\<close> by (meson tr)
      then show ?thesis using Suc 2 \<open>suffix s s0\<close> by (metis toks_ok_simps(3))
    qed (use Suc 2 in metis)
  next
    case (3 s c r)
    from 3(1) show ?case
    proof (cases rule: parseexec_Inr)
      case (1 s1)
      then show ?thesis using Suc peek_suffix 3(2) by (meson tr)
    next
      case (2 s1 c1 s2)
      have "suffix s1 s0" using peek_suffix [OF 2(1)] 3(2) by (rule tr)
      then show ?thesis using 2 parseredirs_ok [OF 2(2)] parse_args_ok [OF 2(3)] parseredirs_suffix [OF 2(2)] tr
        by (metis toks_ok_simps(1) empty_iff empty_set)
    qed
  next
    case (4 s c r)
    from 4(1) show ?case
    proof (cases rule: parseblock_Inr)
      case (1 s1 c1 s2 s3)
      have a: "suffix (next_tok s1) s0" using next_peek_suffix [OF 1(1)] 4(2) by (rule tr)
      then have "suffix (next_tok s3) s0" using suf(1) [OF 1(2)] next_peek_suffix [OF 1(3)] by (meson tr)
      then show ?thesis using parseredirs_ok [OF 1(4)] Suc a 1(2) by metis
    qed
  qed
qed simp

lemma suffix_same: "suffix a s \<Longrightarrow> suffix b s \<Longrightarrow> length a = length b \<Longrightarrow> a = b"
  by (auto simp: suffix_def)

lemma term_str_word:
  assumes "suffix (w @ e) s" "\<forall>x\<in>set w. wordc x" "length e \<in> set ns"
    and "\<forall>n\<in>set ns. \<exists>e'. length e' = n \<and> suffix e' s \<and> (e' = [] \<or> \<not> wordc (hd e'))"
  shows "term_str ns (w @ e) = w"
  using assms(1,2)
proof (induction w)
  case Nil
  then show ?case using assms(3) by (cases e) auto
next
  case (Cons x w)
  have "Suc (length w + length e) \<notin> set ns"
  proof
    assume "Suc (length w + length e) \<in> set ns"
    then obtain e' where e': "length e' = length (x # w @ e)" "suffix e' s" "e' = [] \<or> \<not> wordc (hd e')"
      using assms(4) by force
    then have "e' = x # w @ e" using suffix_same Cons(2) by (metis append_Cons)
    then show False using e'(3) Cons(3) by simp
  qed
  moreover have "suffix (w @ e) s" using Cons(2) suffix_order.trans suffix_ConsI by (metis append_Cons suffix_order.refl)
  ultimately show ?case using Cons by simp
qed

lemma cut_token:
  assumes "toks_ok s c" "(q, e) \<in> set (tokens c)"
  shows "\<exists>w. q = w @ e \<and> w \<noteq> [] \<and> (\<forall>x\<in>set w. wordc x) \<and> term_str (nulterminate c) q = w"
proof -
  have ok: "tok_ok s (q, e)" using assms by (auto simp: toks_ok_def)
  then obtain w where w: "q = w @ e" "w \<noteq> []" "\<forall>x\<in>set w. wordc x" "suffix q s" by (auto simp: tok_ok_def)
  have "\<exists>e'. length e' = n \<and> suffix e' s \<and> (e' = [] \<or> \<not> wordc (hd e'))" if n: "n \<in> set (nulterminate c)" for n
  proof -
    obtain q' e' where t: "(q', e') \<in> set (tokens c)" "n = length e'" using n by (auto simp: nulterminate_def)
    then have "tok_ok s (q', e')" using assms(1) by (simp add: toks_ok_def)
    then show ?thesis using t(2) suffix_appendD unfolding tok_ok_def fst_conv snd_conv by metis
  qed
  moreover have "length e \<in> set (nulterminate c)" using assms(2) by (force simp: nulterminate_def)
  ultimately have "term_str (nulterminate c) q = w" using term_str_word [of w e s] w by simp
  then show ?thesis using w by blast
qed

lemma parsecmd_ok:
  assumes "parsecmd s = Inr c"
  shows "toks_ok (c_str s) c"
proof -
  obtain r where "parseline (4 * length (c_str s) + 4) (c_str s) = Inr (c, r)"
    using assms by (auto simp: parsecmd_def Let_def split: sum.splits if_splits)
  then show ?thesis
    using parse_ok [of "4 * length (c_str s) + 4" "c_str s", THEN conjunct1, rule_format, OF _ suffix_order.refl] by simp
qed

text \<open>
  C26: The parser of the shell ends on every line, and when it accepts a line, each argument and file
  name of the command is a nonempty run of characters of the line that are neither white space nor
  symbols, and the string that the program gets, cut off by the NULs of \<^verbatim>\<open>nulterminate\<close>, is exactly that
  run: no NUL of another token cuts it short, and it does not run on into what follows.
\<close>

theorem sh_arguments:
  "parsecmd s \<noteq> Inl OutOfFuel \<and>
   (\<forall>c q e. parsecmd s = Inr c \<longrightarrow> (q, e) \<in> set (tokens c) \<longrightarrow>
     (\<exists>w. q = w @ e \<and> suffix q (c_str s) \<and> w \<noteq> [] \<and> (\<forall>x\<in>set w. wordc x) \<and> term_str (nulterminate c) q = w))"
proof (intro conjI allI impI)
  show "parsecmd s \<noteq> Inl OutOfFuel"
    using parse_fuel [of "4 * length (c_str s) + 4"] by (auto simp: parsecmd_def Let_def split: sum.splits)
next
  fix c q e
  assume c: "parsecmd s = Inr c" "(q, e) \<in> set (tokens c)"
  have "suffix q (c_str s)" using parsecmd_ok [OF c(1)] c(2) by (auto simp: toks_ok_def tok_ok_def)
  then show "\<exists>w. q = w @ e \<and> suffix q (c_str s) \<and> w \<noteq> [] \<and> (\<forall>x\<in>set w. wordc x) \<and> term_str (nulterminate c) q = w"
    using cut_token [OF parsecmd_ok [OF c(1)] c(2)] by blast
qed

theorem sh_arguments_witness:
  "\<exists>c q e. parsecmd ''ls -l >out'' = Inr c \<and> (q, e) \<in> set (tokens c) \<and> q = ''ls -l >out'' \<and> term_str (nulterminate c) q = ''ls''"
proof -
  let ?c = "REDIR (EXEC [(''ls -l >out'', '' -l >out''), (''-l >out'', '' >out'')]) (''out'', []) O_WR_CREATE 1"
  have p: "parsecmd ''ls -l >out'' = Inr ?c" by code_simp
  have "\<exists>w. ''ls -l >out'' = w @ '' -l >out'' \<and> term_str (nulterminate ?c) ''ls -l >out'' = w"
    using conjunct2 [OF sh_arguments [of "''ls -l >out''"], rule_format, OF p, of "''ls -l >out''" "'' -l >out''"] by auto
  then have "term_str (nulterminate ?c) ''ls -l >out'' = ''ls''" by auto
  then show ?thesis using p by (intro exI [of _ ?c] exI [of _ "''ls -l >out''"] exI [of _ "'' -l >out''"]) simp
qed

end
