(* ===== verification/Sh_Trip.thy ===== *)
theory Sh_Trip
  imports Sh_Props
begin

text \<open>
  The shell's grammar, seen from the other side: each command can be written as a line, with parentheses
  where they are needed, and the parser reads that line as that command.
\<close>

section \<open>Writing commands\<close>

text \<open>A command with its strings, and the same of a command of the parser, with the string of each token.\<close>

datatype tree =
    TExec "string list"
  | TRedir tree string bool
  | TPipe tree tree
  | TList tree tree
  | TBack tree

fun tree_of :: "(string \<times> string \<Rightarrow> string) \<Rightarrow> cmd \<Rightarrow> tree" where
  "tree_of f (EXEC as) = TExec (map f as)"
| "tree_of f (REDIR c t md fd) = TRedir (tree_of f c) (f t) (fd = 1)"
| "tree_of f (PIPE l r) = TPipe (tree_of f l) (tree_of f r)"
| "tree_of f (LIST l r) = TList (tree_of f l) (tree_of f r)"
| "tree_of f (BACK c) = TBack (tree_of f c)"

fun level :: "tree \<Rightarrow> nat" where
  "level (TList _ _) = 0"
| "level (TBack _) = 1"
| "level (TPipe _ _) = 2"
| "level _ = 3"

text \<open>
  \<open>show_tree k a\<close> is a text of \<open>a\<close> for \<^verbatim>\<open>parseline\<close>, the loop for \<^verbatim>\<open>&\<close>, \<^verbatim>\<open>parsepipe\<close> and \<^verbatim>\<open>parseexec\<close>, for \<open>k\<close> from 0
  to 3, in parentheses where the grammar needs them.
\<close>

definition paren :: "bool \<Rightarrow> string \<Rightarrow> string" where
  "paren b s = (if b then ''('' @ s @ '')'' else s)"

fun show_tree :: "tree \<Rightarrow> string" where
  "show_tree (TExec ws) = concat (map ((#) (CHR '' '')) ws)"
| "show_tree (TRedir a w out) = paren (level a < 3) (show_tree a) @ (if out then ''>'' else ''<'') @ w"
| "show_tree (TPipe l r) = paren (level l < 3) (show_tree l) @ ''|'' @ paren (level r < 2) (show_tree r)"
| "show_tree (TBack a) = paren (level a < 1) (show_tree a) @ ''&''"
| "show_tree (TList l r) = paren (level l < 1) (show_tree l) @ '';'' @ show_tree r"

definition word :: "string \<Rightarrow> bool" where "word w \<longleftrightarrow> w \<noteq> [] \<and> (\<forall>x\<in>set w. wordc x \<and> x \<noteq> NUL)"

fun tree_ok :: "tree \<Rightarrow> bool" where
  "tree_ok (TExec ws) \<longleftrightarrow> length ws < MAXARGS \<and> (\<forall>w\<in>set ws. word w)"
| "tree_ok (TRedir a w out) \<longleftrightarrow> tree_ok a \<and> word w"
| "tree_ok (TPipe l r) \<longleftrightarrow> tree_ok l \<and> tree_ok r"
| "tree_ok (TList l r) \<longleftrightarrow> tree_ok l \<and> tree_ok r"
| "tree_ok (TBack a) \<longleftrightarrow> tree_ok a"

section \<open>White space\<close>

lemma skip_skip [simp]: "skip (skip s) = skip s"
  by (induction s) (auto simp: skip_def)

lemma peek_skip [simp]: "peek ts (skip s) = peek ts s"
  by (simp add: peek_def)

lemma parseredirs_skip [simp]: "parseredirs c (skip s) = parseredirs c s"
  by (subst (1 2) parseredirs.simps) simp

lemma back_loop_skip [simp]: "back_loop c (skip s) = back_loop c s"
  by (subst (1 2) back_loop.simps) simp

lemma parse_skip [simp]:
  "parseexec n (skip s) = parseexec n s" "parsepipe n (skip s) = parsepipe n s" "parseline n (skip s) = parseline n s"
proof -
  show e: "parseexec n (skip s) = parseexec n s" for n by (cases n) simp_all
  show p: "parsepipe n (skip s) = parsepipe n s" for n by (cases n) (simp_all add: e)
  show "parseline n (skip s) = parseline n s" by (cases n) (simp_all add: p)
qed

text \<open>What may follow a word, and what may follow a command of each kind.\<close>

definition ends :: "string \<Rightarrow> string \<Rightarrow> bool" where
  "ends ts r \<longleftrightarrow> skip r = [] \<or> hd (skip r) \<in> set ts"

lemma peek_ends:
  assumes "ends ts r" "set us \<inter> set ts = {}"
  shows "peek us r = (skip r, False)"
  using assms by (auto simp: ends_def peek_def Let_def)

lemma ends_mono: "ends ts r \<Longrightarrow> set ts \<subseteq> set us \<Longrightarrow> ends us r"
  by (auto simp: ends_def)

lemma symbol_facts: "x \<in> set ''<>|)&;('' \<Longrightarrow> \<not> is_ws x \<and> \<not> wordc x"
  by (auto simp: wordc_def is_ws_def whitespace_def is_sym_def symbols_def)

lemma skip_symbol [simp]: "x \<in> set ''<>|)&;('' \<Longrightarrow> skip (x # r) = x # r"
  using symbol_facts by (simp add: skip_def)

lemma ends_Cons: "x \<in> set ts \<Longrightarrow> x \<in> set ''<>|)&;('' \<Longrightarrow> ends ts (x # r)"
  by (simp add: ends_def del: insert_iff list.set)

lemma ends_word:
  assumes "ends ''<>|)&;'' r"
  shows "r = [] \<or> \<not> wordc (hd r)"
proof (cases r)
  case (Cons x r')
  show ?thesis
  proof (cases "is_ws x")
    case True
    then show ?thesis using Cons by (simp add: wordc_def)
  next
    case False
    then have "skip r = r" using Cons by (simp add: skip_def)
    then have "x \<in> set ''<>|)&;(''" using assms Cons by (auto simp: ends_def)
    then show ?thesis using symbol_facts Cons by simp
  qed
qed simp

lemma wordc_facts: "wordc x \<Longrightarrow> \<not> is_ws x \<and> x \<notin> set ''<|>&;()''"
  by (auto simp: wordc_def is_sym_def symbols_def)

lemma word_skip:
  assumes "word w"
  shows "skip (w @ r) = w @ r" "w @ r \<noteq> []" "hd (w @ r) \<notin> set ''<|>&;()''"
  using assms wordc_facts by (cases w; auto simp: word_def skip_def)+

lemma gettoken_word:
  assumes "word w" "r = [] \<or> \<not> wordc (hd r)"
  shows "gettoken (w @ r) = (CHR ''a'', w @ r, r, skip r)"
proof -
  obtain x w' where w: "w = x # w'" "wordc x" using assms(1) by (cases w) (auto simp: word_def)
  have d: "dropWhile wordc (w @ r) = r"
    using assms by (subst dropWhile_append2) (auto simp: word_def dropWhile_eq_self_iff)
  have x: "x \<notin> set ''|();&<''" "x \<noteq> CHR ''>''" using wordc_facts [OF w(2)] by auto
  have "skip (w @ r) = x # w' @ r" using word_skip(1) [OF assms(1)] w(1) by simp
  then have "gettoken (w @ r) = (let e = dropWhile wordc (x # w' @ r) in (CHR ''a'', x # w' @ r, e, skip e))"
    using x by (simp add: gettoken_def Let_def del: dropWhile.simps)
  then show ?thesis using d w(1) by (simp add: Let_def)
qed

lemma gettoken_symbol:
  assumes "x \<in> set ''|();&<''"
  shows "gettoken (x # r) = (x, x # r, r, skip r)"
proof -
  have "skip (x # r) = x # r" using assms by (intro skip_symbol) auto
  then show ?thesis using assms by (simp add: gettoken_def)
qed

lemma next_tok_symbol: "x \<in> set ''|();&<'' \<Longrightarrow> next_tok (x # r) = skip r"
  by (simp add: next_tok_def gettoken_symbol del: insert_iff list.set)

section \<open>Redirections and words\<close>

definition tokstr :: "string \<times> string \<Rightarrow> string" where
  "tokstr t = take (length (fst t) - length (snd t)) (fst t)"

lemma tokstr_word [simp]: "tokstr (w @ r, r) = w"
  by (simp add: tokstr_def)

lemma parseredirs_ends: "ends ''|)&;'' r \<Longrightarrow> parseredirs c r = Inr (c, skip r)"
  by (subst parseredirs.simps) (simp add: peek_ends)

lemma parseredirs_word:
  assumes "word w"
  shows "parseredirs c (w @ r) = Inr (c, w @ r)"
proof -
  have "peek ''<>'' (w @ r) = (w @ r, False)" using word_skip [OF assms, of r] by (simp add: peek_def)
  then show ?thesis by (subst parseredirs.simps) simp
qed

lemma parseredirs_redir:
  assumes "word w" "r = [] \<or> \<not> wordc (hd r)"
  shows "parseredirs c ((if out then ''>'' else ''<'') @ w @ r) =
    parseredirs (redircmd (if out then CHR ''>'' else CHR ''<'') c (w @ r, r)) r"
proof -
  let ?x = "if out then CHR ''>'' else CHR ''<''"
  have w: "skip (w @ r) = w @ r" "w @ r \<noteq> []" "hd (w @ r) \<noteq> CHR ''>''" using word_skip [OF assms(1), of r] by auto
  have s: "skip (?x # w @ r) = ?x # w @ r" by (rule skip_symbol) simp
  have "gettoken (?x # w @ r) = (?x, ?x # w @ r, w @ r, w @ r)"
    unfolding gettoken_def s using w by (simp add: Let_def)
  moreover have "peek ''<>'' (?x # w @ r) = (?x # w @ r, True)" by (simp add: peek_def s)
  ultimately have "parseredirs c (?x # w @ r) = parseredirs (redircmd ?x c (w @ r, r)) (skip r)"
    by (subst parseredirs.simps) (simp add: gettoken_word [OF assms])
  then show ?thesis by (cases out) simp_all
qed

lemma parse_args_ends: "ends ''|)&;'' r \<Longrightarrow> parse_args k c r = Inr (c, skip r)"
  by (subst parse_args.simps) (cases "skip r", simp_all add: peek_def ends_def gettoken_def)

lemma parse_args_word:
  assumes "word w" "r = [] \<or> \<not> wordc (hd r)" "Suc k < MAXARGS"
  shows "parse_args k c (w @ r) =
    (case parseredirs (add_arg (w @ r, r) c) r of Inl err \<Rightarrow> Inl err | Inr (c, s) \<Rightarrow> parse_args (Suc k) c s)"
proof -
  have "peek ''|)&;'' (w @ r) = (w @ r, False)" using word_skip [OF assms(1), of r] by (simp add: peek_def)
  then show ?thesis using assms(3)
    by (subst parse_args.simps) (simp add: gettoken_word [OF assms(1,2)] NUL_def split: sum.split)
qed

text \<open>Redirections, and then the arguments, as \<^verbatim>\<open>parseexec\<close> has them.\<close>

definition redirs_then :: "(cmd \<Rightarrow> string \<Rightarrow> perr + cmd \<times> string) \<Rightarrow> cmd \<Rightarrow> string \<Rightarrow> perr + cmd \<times> string" where
  "redirs_then F c s = (case parseredirs c s of Inl err \<Rightarrow> Inl err | Inr (c, s) \<Rightarrow> F c s)"

lemma redirs_then_words:
  assumes "\<forall>w\<in>set ws. word w" "k + length ws < MAXARGS" "ends ''<>|)&;'' r"
  shows "\<exists>bs. redirs_then (parse_args k) (EXEC as) (concat (map ((#) (CHR '' '')) ws) @ r) =
      redirs_then (parse_args (k + length ws)) (EXEC bs) r \<and> map tokstr bs = map tokstr as @ ws"
  using assms(1,2)
proof (induction ws arbitrary: k as)
  case Nil
  then show ?case by auto
next
  case (Cons w ws)
  let ?r = "concat (map ((#) (CHR '' '')) ws) @ r"
  have r: "?r = [] \<or> \<not> wordc (hd ?r)"
    using ends_word [OF assms(3)] by (cases ws) (simp_all add: wordc_def is_ws_def whitespace_def)
  have sp: "skip ('' '' @ w @ ?r) = skip (w @ ?r)" by (simp add: skip_def is_ws_def whitespace_def)
  have "parseredirs (EXEC as) ('' '' @ w @ ?r) = Inr (EXEC as, w @ ?r)"
    using parseredirs_word [of w "EXEC as" ?r] Cons(2) sp by (metis parseredirs_skip list.set_intros(1))
  then have "redirs_then (parse_args k) (EXEC as) ('' '' @ w @ ?r) = redirs_then (parse_args (k + 1)) (EXEC (as @ [(w @ ?r, ?r)])) ?r"
    using parse_args_word [OF _ r] Cons(2,3) by (simp add: redirs_then_def)
  moreover obtain bs where "redirs_then (parse_args (k + 1)) (EXEC (as @ [(w @ ?r, ?r)])) ?r =
      redirs_then (parse_args (k + 1 + length ws)) (EXEC bs) r" "map tokstr bs = map tokstr (as @ [(w @ ?r, ?r)]) @ ws"
    using Cons(1) [of "k + 1"] Cons(2,3) by fastforce
  ultimately show ?case by (intro exI [of _ bs]) simp
qed

section \<open>Commands\<close>

text \<open>The text of a command at each level of the grammar.\<close>

definition pr :: "nat \<Rightarrow> tree \<Rightarrow> string" where "pr k a = paren (level a < k) (show_tree a)"

definition reads_line :: "tree \<Rightarrow> bool" where
  "reads_line a \<longleftrightarrow> (\<forall>n r. ends '')'' r \<longrightarrow> 4 * length (pr 0 a @ r) + 4 \<le> n \<longrightarrow>
     (\<exists>c. parseline n (pr 0 a @ r) = Inr (c, skip r) \<and> tree_of tokstr c = a))"

definition reads_back :: "tree \<Rightarrow> bool" where
  "reads_back a \<longleftrightarrow> (\<forall>n r. ends '')&;'' r \<longrightarrow> 4 * length (pr 1 a @ r) + 3 \<le> n \<longrightarrow>
     (\<exists>c0 s c. parsepipe n (pr 1 a @ r) = Inr (c0, s) \<and> back_loop c0 s = back_loop c r \<and> tree_of tokstr c = a))"

definition reads_pipe :: "tree \<Rightarrow> bool" where
  "reads_pipe a \<longleftrightarrow> (\<forall>n r. ends '')&;'' r \<longrightarrow> 4 * length (pr 2 a @ r) + 3 \<le> n \<longrightarrow>
     (\<exists>c. parsepipe n (pr 2 a @ r) = Inr (c, skip r) \<and> tree_of tokstr c = a))"

definition reads_exec :: "tree \<Rightarrow> bool" where
  "reads_exec a \<longleftrightarrow> (\<forall>n r. ends ''<>|)&;'' r \<longrightarrow> 4 * length (pr 3 a @ r) + 2 \<le> n \<longrightarrow>
     (\<exists>c F. parseexec n (pr 3 a @ r) = redirs_then F c r \<and> tree_of tokstr c = a \<and>
       (\<forall>c s. ends ''|)&;'' s \<longrightarrow> F c (skip s) = Inr (c, skip s))))"

lemmas reads_defs = reads_line_def reads_back_def reads_pipe_def reads_exec_def

lemma reads_exec_ends:
  assumes "reads_exec a" "ends ''|)&;'' r" "4 * length (pr 3 a @ r) + 2 \<le> n"
  shows "\<exists>c. parseexec n (pr 3 a @ r) = Inr (c, skip r) \<and> tree_of tokstr c = a"
proof -
  have "ends ''<>|)&;'' r" using assms(2) by (rule ends_mono) auto
  then obtain c F where c: "parseexec n (pr 3 a @ r) = redirs_then F c r" "tree_of tokstr c = a"
      "\<And>c s. ends ''|)&;'' s \<Longrightarrow> F c (skip s) = Inr (c, skip s)"
    using assms(1,3) unfolding reads_exec_def by blast
  have "redirs_then F c r = Inr (c, skip r)" using c(3) [OF assms(2)] by (simp add: redirs_then_def parseredirs_ends [OF assms(2)])
  then show ?thesis using c by auto
qed

lemma pipe_of_exec:
  assumes "reads_exec a" "level a \<noteq> 2"
  shows "reads_pipe a"
  unfolding reads_pipe_def
proof (intro allI impI)
  fix n r
  assume r: "ends '')&;'' r" and n: "4 * length (pr 2 a @ r) + 3 \<le> n"
  obtain m where m: "n = Suc m" using n by (cases n) auto
  have pr: "pr 2 a = pr 3 a" using assms(2) by (simp add: pr_def paren_def)
  obtain c where "parseexec m (pr 3 a @ r) = Inr (c, skip r)" "tree_of tokstr c = a"
    using reads_exec_ends [OF assms(1) ends_mono [OF r], of m] n pr m by auto
  then show "\<exists>c. parsepipe n (pr 2 a @ r) = Inr (c, skip r) \<and> tree_of tokstr c = a"
    using peek_ends [OF r, of "''|''"] by (simp add: pr m)
qed

lemma back_of_pipe:
  assumes "reads_pipe a" "level a \<noteq> 1"
  shows "reads_back a"
proof -
  have "pr 1 a = pr 2 a" using assms(2) by (simp add: pr_def paren_def)
  then show ?thesis using assms(1) unfolding reads_back_def reads_pipe_def by (metis back_loop_skip)
qed

lemma line_of_back:
  assumes "reads_back a" "level a \<noteq> 0"
  shows "reads_line a"
  unfolding reads_line_def
proof (intro allI impI)
  fix n r
  assume r: "ends '')'' r" and n: "4 * length (pr 0 a @ r) + 4 \<le> n"
  obtain m where m: "n = Suc m" using n by (cases n) auto
  have pr: "pr 0 a = pr 1 a" using assms(2) by (simp add: pr_def paren_def)
  have "ends '')&;'' r" using r by (rule ends_mono) auto
  moreover have "4 * length (pr 1 a @ r) + 3 \<le> m" using n unfolding pr m by simp
  ultimately obtain c0 s c where c: "parsepipe m (pr 1 a @ r) = Inr (c0, s)" "back_loop c0 s = back_loop c r" "tree_of tokstr c = a"
    using assms(1) unfolding reads_back_def by blast
  have "back_loop c r = (c, skip r)" using peek_ends [OF r, of "''&''"] by (subst back_loop.simps) simp
  then show "\<exists>c. parseline n (pr 0 a @ r) = Inr (c, skip r) \<and> tree_of tokstr c = a"
    using c peek_ends [OF r, of "'';''"] by (simp add: pr m)
qed

lemma exec_of_line:
  assumes "reads_line a" "level a \<noteq> 3"
  shows "reads_exec a"
  unfolding reads_exec_def
proof (intro allI impI)
  fix n r
  assume n: "4 * length (pr 3 a @ r) + 2 \<le> n"
  have l: "level a < 3" using assms(2) by (cases a rule: level.cases) auto
  have pr: "pr 3 a @ r = CHR ''('' # pr 0 a @ CHR '')'' # r" using l by (simp add: pr_def paren_def)
  define m where "m = n - 2"
  have m: "n = Suc (Suc m)" "4 * length (pr 0 a @ CHR '')'' # r) + 4 \<le> m" using n unfolding pr m_def by simp_all
  obtain c where c: "parseline m (pr 0 a @ CHR '')'' # r) = Inr (c, CHR '')'' # r)" "tree_of tokstr c = a"
    using assms(1) m(2) ends_Cons [of "CHR '')''" "'')''" r] unfolding reads_line_def by fastforce
  have "parseexec n (pr 3 a @ r) = parseredirs c r"
    unfolding pr m(1) by (simp add: peek_def Let_def next_tok_symbol c)
  then have "parseexec n (pr 3 a @ r) = redirs_then (\<lambda>c s. Inr (c, s)) c r"
    by (simp add: redirs_then_def split: sum.splits)
  then show "\<exists>c F. parseexec n (pr 3 a @ r) = redirs_then F c r \<and> tree_of tokstr c = a \<and>
       (\<forall>c s. ends ''|)&;'' s \<longrightarrow> F c (skip s) = Inr (c, skip s))"
    using c(2) by (intro exI [of _ c] exI [of _ "\<lambda>c s. Inr (c, s)"]) simp
qed

lemma reads_TPipe:
  assumes "reads_exec a" "reads_pipe b"
  shows "reads_pipe (TPipe a b)"
  unfolding reads_pipe_def
proof (intro allI impI)
  fix n r
  assume r: "ends '')&;'' r" and n: "4 * length (pr 2 (TPipe a b) @ r) + 3 \<le> n"
  let ?t = "pr 2 b @ r"
  have pr: "pr 2 (TPipe a b) @ r = pr 3 a @ CHR ''|'' # ?t" by (simp add: pr_def paren_def)
  obtain m where m: "n = Suc m" using n by (cases n) auto
  have f: "4 * length (pr 3 a @ CHR ''|'' # ?t) + 2 \<le> m" "4 * length ?t + 3 \<le> m" using n unfolding pr m by simp_all
  obtain c where c: "parseexec m (pr 3 a @ CHR ''|'' # ?t) = Inr (c, skip (CHR ''|'' # ?t))" "tree_of tokstr c = a"
    using reads_exec_ends [OF assms(1) ends_Cons f(1)] by auto
  obtain d where d: "parsepipe m ?t = Inr (d, skip r)" "tree_of tokstr d = b"
    using assms(2) r f(2) unfolding reads_pipe_def by blast
  show "\<exists>c. parsepipe n (pr 2 (TPipe a b) @ r) = Inr (c, skip r) \<and> tree_of tokstr c = TPipe a b"
    unfolding pr m using c d by (simp add: peek_def next_tok_symbol)
qed

lemma reads_TBack:
  assumes "reads_back a"
  shows "reads_back (TBack a)"
  unfolding reads_back_def
proof (intro allI impI)
  fix n r
  assume n: "4 * length (pr 1 (TBack a) @ r) + 3 \<le> n"
  have pr: "pr 1 (TBack a) @ r = pr 1 a @ CHR ''&'' # r" by (simp add: pr_def paren_def)
  have "ends '')&;'' (CHR ''&'' # r)" by (rule ends_Cons) simp_all
  then obtain c0 s c where c: "parsepipe n (pr 1 a @ CHR ''&'' # r) = Inr (c0, s)" "back_loop c0 s = back_loop c (CHR ''&'' # r)"
      "tree_of tokstr c = a"
    using assms n unfolding reads_back_def pr by blast
  have "back_loop c (CHR ''&'' # r) = back_loop (BACK c) (skip r)"
    by (subst back_loop.simps) (simp add: peek_def next_tok_symbol)
  then have "back_loop c0 s = back_loop (BACK c) r" using c(2) by simp
  then show "\<exists>c0 s c. parsepipe n (pr 1 (TBack a) @ r) = Inr (c0, s) \<and> back_loop c0 s = back_loop c r \<and> tree_of tokstr c = TBack a"
    unfolding pr using c by (intro exI [of _ c0] exI [of _ s] exI [of _ "BACK c"]) simp
qed

lemma reads_TList:
  assumes "reads_back a" "reads_line b"
  shows "reads_line (TList a b)"
  unfolding reads_line_def
proof (intro allI impI)
  fix n r
  assume r: "ends '')'' r" and n: "4 * length (pr 0 (TList a b) @ r) + 4 \<le> n"
  let ?t = "pr 0 b @ r"
  have pr: "pr 0 (TList a b) @ r = pr 1 a @ CHR '';'' # ?t" by (simp add: pr_def paren_def)
  obtain m where m: "n = Suc m" using n by (cases n) auto
  have f: "4 * length (pr 1 a @ CHR '';'' # ?t) + 3 \<le> m" "4 * length ?t + 4 \<le> m" using n unfolding pr m by simp_all
  have "ends '')&;'' (CHR '';'' # ?t)" by (rule ends_Cons) simp_all
  then obtain c0 s c where c: "parsepipe m (pr 1 a @ CHR '';'' # ?t) = Inr (c0, s)" "back_loop c0 s = back_loop c (CHR '';'' # ?t)"
      "tree_of tokstr c = a"
    using assms(1) f(1) unfolding reads_back_def by blast
  have "back_loop c (CHR '';'' # ?t) = (c, CHR '';'' # ?t)" by (subst back_loop.simps) (simp add: peek_def)
  then have b: "back_loop c0 s = (c, CHR '';'' # ?t)" using c(2) by simp
  obtain d where d: "parseline m ?t = Inr (d, skip r)" "tree_of tokstr d = b"
    using assms(2) r f(2) unfolding reads_line_def by blast
  show "\<exists>c. parseline n (pr 0 (TList a b) @ r) = Inr (c, skip r) \<and> tree_of tokstr c = TList a b"
    unfolding pr m using c(1,3) b d by (simp add: peek_def next_tok_symbol)
qed

lemma reads_TExec:
  assumes "\<forall>w\<in>set ws. word w" "length ws < MAXARGS"
  shows "reads_exec (TExec ws)"
  unfolding reads_exec_def
proof (intro allI impI)
  fix n r
  assume r: "ends ''<>|)&;'' r" and n: "4 * length (pr 3 (TExec ws) @ r) + 2 \<le> n"
  let ?t = "concat (map ((#) (CHR '' '')) ws)"
  have pr: "pr 3 (TExec ws) = ?t" unfolding pr_def paren_def by (simp only: show_tree.simps level.simps less_irrefl if_False)
  obtain m where m: "n = Suc m" using n by (cases n) auto
  have p: "peek ''('' (?t @ r) = (skip (?t @ r), False)"
  proof (cases ws)
    case Nil
    then show ?thesis using peek_ends [OF r] by simp
  next
    case (Cons w ws')
    have "skip (?t @ r) = skip (w @ concat (map ((#) (CHR '' '')) ws') @ r)"
      using Cons by (simp add: skip_def is_ws_def whitespace_def)
    then show ?thesis using word_skip [of w] assms(1) Cons by (simp add: peek_def Let_def)
  qed
  obtain bs where bs: "redirs_then (parse_args 0) (EXEC []) (?t @ r) = redirs_then (parse_args (length ws)) (EXEC bs) r"
      "map tokstr bs = ws"
    using redirs_then_words [OF assms(1) _ r, of 0 "[]"] assms(2) by auto
  have "parseexec n (pr 3 (TExec ws) @ r) = redirs_then (parse_args (length ws)) (EXEC bs) r"
    unfolding pr m using p bs(1) by (simp add: redirs_then_def)
  moreover have "parse_args (length ws) c (skip s) = Inr (c, skip s)" if "ends ''|)&;'' s" for c s
    using parse_args_ends [of "skip s"] that by (simp add: ends_def)
  ultimately show "\<exists>c F. parseexec n (pr 3 (TExec ws) @ r) = redirs_then F c r \<and> tree_of tokstr c = TExec ws \<and>
       (\<forall>c s. ends ''|)&;'' s \<longrightarrow> F c (skip s) = Inr (c, skip s))"
    using bs(2) by (intro exI [of _ "EXEC bs"] exI [of _ "parse_args (length ws)"]) simp
qed

lemma reads_TRedir:
  assumes "reads_exec a" "word w"
  shows "reads_exec (TRedir a w out)"
  unfolding reads_exec_def
proof (intro allI impI)
  fix n r
  assume r: "ends ''<>|)&;'' r" and n: "4 * length (pr 3 (TRedir a w out) @ r) + 2 \<le> n"
  let ?x = "if out then CHR ''>'' else CHR ''<''" and ?t = "(if out then ''>'' else ''<'') @ w @ r"
  have pr: "pr 3 (TRedir a w out) @ r = pr 3 a @ ?t" by (simp add: pr_def paren_def)
  have "ends ''<>|)&;'' ?t" using ends_Cons [of ?x "''<>|)&;''" "w @ r"] by (cases out) simp_all
  then obtain c F where c: "parseexec n (pr 3 a @ ?t) = redirs_then F c ?t" "tree_of tokstr c = a"
      "\<forall>c s. ends ''|)&;'' s \<longrightarrow> F c (skip s) = Inr (c, skip s)"
    using assms(1) n unfolding reads_exec_def pr by blast
  have "redirs_then F c ?t = redirs_then F (redircmd ?x c (w @ r, r)) r"
    unfolding redirs_then_def using parseredirs_redir [OF assms(2) ends_word [OF r], of c out] by simp
  moreover have "tree_of tokstr (redircmd ?x c (w @ r, r)) = TRedir a w out" using c(2) by (cases out) (simp_all add: redircmd_def)
  ultimately show "\<exists>c F. parseexec n (pr 3 (TRedir a w out) @ r) = redirs_then F c r \<and> tree_of tokstr c = TRedir a w out \<and>
       (\<forall>c s. ends ''|)&;'' s \<longrightarrow> F c (skip s) = Inr (c, skip s))"
    unfolding pr using c by metis
qed

lemma reads_all: "tree_ok a \<Longrightarrow> reads_line a \<and> reads_back a \<and> reads_pipe a \<and> reads_exec a"
proof (induction a)
  case (TExec ws)
  then have "reads_exec (TExec ws)" using reads_TExec by simp
  then show ?case using pipe_of_exec back_of_pipe line_of_back by simp
next
  case (TRedir a w out)
  then have "reads_exec (TRedir a w out)" using reads_TRedir by simp
  then show ?case using pipe_of_exec back_of_pipe line_of_back by simp
next
  case (TPipe a b)
  then have "reads_pipe (TPipe a b)" using reads_TPipe by simp
  then show ?case using exec_of_line back_of_pipe line_of_back by simp
next
  case (TList a b)
  then have "reads_line (TList a b)" using reads_TList by simp
  then show ?case using exec_of_line back_of_pipe pipe_of_exec by simp
next
  case (TBack a)
  then have "reads_back (TBack a)" using reads_TBack by simp
  then show ?case using exec_of_line line_of_back pipe_of_exec by simp
qed

section \<open>The round trip\<close>

lemma show_tree_no_NUL: "tree_ok a \<Longrightarrow> NUL \<notin> set (show_tree a)"
  by (induction a) (auto simp: paren_def word_def NUL_def)

lemma tree_of_cong: "(\<And>t. t \<in> set (tokens c) \<Longrightarrow> f t = g t) \<Longrightarrow> tree_of f c = tree_of g c"
  by (induction c) auto

lemma tree_of_cut:
  assumes "toks_ok s c"
  shows "tree_of (\<lambda>t. term_str (nulterminate c) (fst t)) c = tree_of tokstr c"
proof (rule tree_of_cong)
  fix t
  assume "t \<in> set (tokens c)"
  then obtain w e where "t = (w @ e, e)" "term_str (nulterminate c) (w @ e) = w"
    using cut_token [OF assms, of "fst t" "snd t"] by (metis prod.collapse)
  then show "term_str (nulterminate c) (fst t) = tokstr t" by simp
qed

text \<open>
  C8: Every command, with words for its arguments and file names and at most nine arguments for a
  program, can be written on a line, and the shell's parser reads that line, white space at its end
  included, as this very command: the tree that \<^verbatim>\<open>runcmd\<close> is given has its structure and its strings.
\<close>

theorem sh_round_trip:
  assumes "tree_ok a" "\<forall>x\<in>set ws. is_ws x"
  shows "\<exists>c. parsecmd (show_tree a @ ws) = Inr c \<and> tree_of (\<lambda>t. term_str (nulterminate c) (fst t)) c = a"
proof -
  have "\<not> is_ws NUL" by (simp add: is_ws_def whitespace_def NUL_def)
  then have "NUL \<notin> set (show_tree a @ ws)" using show_tree_no_NUL [OF assms(1)] assms(2) by auto
  then have cs: "c_str (show_tree a @ ws) = show_tree a @ ws" unfolding c_str_def by (auto simp: takeWhile_eq_all_conv)
  have sk: "skip ws = []" using assms(2) by (simp add: skip_def dropWhile_eq_Nil_conv)
  have "pr 0 a = show_tree a" by (simp add: pr_def paren_def)
  then obtain c where c: "parseline (4 * length (show_tree a @ ws) + 4) (show_tree a @ ws) = Inr (c, skip ws)" "tree_of tokstr c = a"
    using reads_all [OF assms(1)] sk unfolding reads_line_def by (metis ends_def order_refl)
  then have "parsecmd (show_tree a @ ws) = Inr c" unfolding parsecmd_def cs by (simp add: sk peek_def)
  then show ?thesis using tree_of_cut [OF parsecmd_ok] c(2) by metis
qed

theorem sh_round_trip_witness:
  "\<exists>c. parsecmd (''( ls -l; cat|( wc&)>o)<i'' @ [CHR 0x0A]) = Inr c \<and>
     tree_of (\<lambda>t. term_str (nulterminate c) (fst t)) c = TRedir (TList (TExec [''ls'', ''-l''])
       (TPipe (TExec [''cat'']) (TRedir (TBack (TExec [''wc''])) ''o'' True))) ''i'' False"
proof -
  let ?a = "TRedir (TList (TExec [''ls'', ''-l'']) (TPipe (TExec [''cat'']) (TRedir (TBack (TExec [''wc''])) ''o'' True))) ''i'' False"
  have "tree_ok ?a" by code_simp
  moreover have "show_tree ?a = ''( ls -l; cat|( wc&)>o)<i''" by code_simp
  ultimately show ?thesis using sh_round_trip [of ?a "[CHR 0x0A]"] by (simp add: is_ws_def whitespace_def)
qed

end
