(* ===== verification/Console_Props.thy ===== *)
theory Console_Props
  imports Console Ring Kernel_Example
begin

text \<open>
  The line discipline of the console. The ring of \<^verbatim>\<open>console.c\<close> with its three counters is two lists:
  what has been entered and not yet read, and the line being edited. Typing and reading are functions
  on these lists.
\<close>

section \<open>Two lists in a ring\<close>

definition entered :: "input \<Rightarrow> u8 list" where
  "entered i = ring_list 128 (in_buf i) (in_r i) (in_w i)"

definition editing :: "input \<Rightarrow> u8 list" where
  "editing i = ring_list 128 (in_buf i) (in_w i) (in_e i)"

definition ring_ok :: "input \<Rightarrow> bool" where
  "ring_ok i \<longleftrightarrow> unat (in_w i - in_r i) + unat (in_e i - in_w i) \<le> 128"

lemma ring_length: "ring_ok i \<Longrightarrow> unat (in_e i - in_r i) = unat (in_w i - in_r i) + unat (in_e i - in_w i)"
  using unat_add_no_wrap [of "in_w i - in_r i" "in_e i - in_w i"] by (simp add: ring_ok_def)

lemma ring_split:
  assumes "unat (w - r) + unat (e - w) < 2 ^ 32"
  shows "ring_list 128 d r e = ring_list 128 d r w @ ring_list 128 d w e"
proof -
  have n: "unat (e - r) = unat (w - r) + unat (e - w)" using unat_add_no_wrap [OF assms] by simp
  have k: "(unat w + k) mod 128 = (unat r + (unat (w - r) + k)) mod 128" for k
    using unat_counter_mod [of 128 w r] mod_add_left_eq [of "unat w" 128 k] mod_add_left_eq [of "unat r + unat (w - r)" 128 k]
    by (simp add: add.assoc)
  have "ring_list 128 d w e = map (\<lambda>k. d ((unat r + k) mod 128)) [unat (w - r)..<unat (w - r) + unat (e - w)]"
    unfolding ring_list_def k
    by (rule nth_equalityI) (simp_all add: algebra_simps)
  moreover have "[0..<unat (e - r)] = [0..<unat (w - r)] @ [unat (w - r)..<unat (w - r) + unat (e - w)]"
    unfolding n by (rule upt_add_eq_append) simp
  ultimately show ?thesis by (simp add: ring_list_def)
qed

lemma ring_whole: "ring_ok i \<Longrightarrow> ring_list 128 (in_buf i) (in_r i) (in_e i) = entered i @ editing i"
  unfolding entered_def editing_def by (rule ring_split) (simp add: ring_ok_def)

lemma ring_put:
  fixes c :: u8
  assumes "ring_ok i" "unat (in_e i - in_r i) < 128"
  defines "j \<equiv> i\<lparr>in_buf := (in_buf i)(unat (in_e i mod INPUT_BUF) := c), in_e := in_e i + 1\<rparr>"
  shows "ring_ok j" "entered j = entered i" "editing j = editing i @ [c]"
proof -
  let ?d = "(in_buf i)(unat (in_e i mod INPUT_BUF) := c)"
  have m: "unat (in_e i mod INPUT_BUF) = unat (in_e i) mod 128" by (simp add: unat_mod INPUT_BUF_def)
  have l: "unat (in_w i - in_r i) + unat (in_e i - in_w i) < 128" using ring_length [OF assms(1)] assms(2) by simp
  then have e: "unat (in_e i + 1 - in_w i) = Suc (unat (in_e i - in_w i))" by (intro unat_suc_diff) simp
  show ok: "ring_ok j" using l e by (simp add: ring_ok_def j_def)
  have "ring_list 128 ?d (in_r i) (in_e i + 1) = ring_list 128 (in_buf i) (in_r i) (in_e i) @ [c]"
    unfolding m by (rule ring_list_put) (use assms(2) in simp_all)
  then have "entered j @ editing j = entered i @ editing i @ [c]"
    using ring_whole [OF ok] ring_whole [OF assms(1)] by (simp add: j_def)
  moreover have "length (entered j) = length (entered i)" by (simp add: entered_def j_def)
  ultimately show "entered j = entered i" "editing j = editing i @ [c]" by simp_all
qed

lemma ring_back:
  assumes "ring_ok i" "in_e i \<noteq> in_w i"
  defines "j \<equiv> i\<lparr>in_e := in_e i - 1\<rparr>"
  shows "ring_ok j" "entered j = entered i" "editing j = butlast (editing i)"
    and "in_buf i (unat ((in_e i - 1) mod INPUT_BUF)) = last (editing i)"
proof -
  have e: "unat (in_e i - in_w i) = Suc (unat (in_e i - 1 - in_w i))"
    using unat_pred_diff [of "in_w i" "in_e i"] assms(2) by (simp add: algebra_simps)
  show "ring_ok j" using assms(1) e by (simp add: ring_ok_def j_def)
  show "entered j = entered i" by (simp add: entered_def j_def)
  show "editing j = butlast (editing i)" unfolding editing_def ring_list_def j_def using e by (simp add: map_butlast [symmetric])
  have "unat ((in_e i - 1) mod INPUT_BUF) = unat (in_e i - 1) mod 128" by (simp add: unat_mod INPUT_BUF_def)
  also have "\<dots> = (unat (in_w i) + unat (in_e i - 1 - in_w i)) mod 128" by (rule unat_counter_mod) simp
  finally show "in_buf i (unat ((in_e i - 1) mod INPUT_BUF)) = last (editing i)"
    unfolding editing_def ring_list_def using e by (simp add: last_map)
qed

lemma ring_commit:
  assumes "ring_ok i"
  defines "j \<equiv> i\<lparr>in_w := in_e i\<rparr>"
  shows "ring_ok j" "entered j = entered i @ editing i" "editing j = []"
proof -
  show "ring_ok j" using assms ring_length [of i] by (simp add: ring_ok_def)
  show "entered j = entered i @ editing i" using ring_whole [OF assms(1)] by (simp add: entered_def j_def)
  show "editing j = []" by (simp add: editing_def ring_list_def j_def)
qed

lemma ring_get:
  assumes "ring_ok i" "in_r i \<noteq> in_w i"
  defines "j \<equiv> i\<lparr>in_r := in_r i + 1\<rparr>"
  shows "ring_ok j" "entered i = in_buf i (unat (in_r i mod INPUT_BUF)) # entered j" "editing j = editing i"
proof -
  show "ring_ok j" using assms(1) unat_pred_diff [OF assms(2)] by (simp add: ring_ok_def j_def)
  have "unat (in_r i mod INPUT_BUF) = unat (in_r i) mod 128" by (simp add: unat_mod INPUT_BUF_def)
  then show "entered i = in_buf i (unat (in_r i mod INPUT_BUF)) # entered j"
    using ring_list_get [OF _ assms(2), of 128] by (simp add: entered_def j_def)
  show "editing j = editing i" by (simp add: editing_def j_def)
qed

section \<open>The display\<close>

definition screen_ok :: "cga \<Rightarrow> bool" where "screen_ok g \<longleftrightarrow> 0 \<le> cga_pos g \<and> cga_pos g < 24 * 80"

lemma cgaputc_ok:
  assumes "screen_ok g"
  shows "\<exists>g'. cgaputc c g = Inr g' \<and> screen_ok g'"
proof -
  have "cga_pos g div 80 \<le> 23" using assms unfolding screen_ok_def by presburger
  then have "cga_pos g - cga_pos g mod 80 \<le> 1840" by (simp add: minus_mod_eq_mult_div)
  then have "0 \<le> cga_pos (cga_put c g)" "cga_pos (cga_put c g) \<le> 24 * 80"
    using assms by (auto simp: screen_ok_def cga_put_def Let_def)
  then show ?thesis by (auto simp: cgaputc_def Let_def cga_scroll_def screen_ok_def)
qed

lemma consputc_ok:
  assumes "screen_ok (screen s)"
  shows "\<exists>s'. consputc c s = Inr s' \<and> screen_ok (screen s') \<and> cons_input s' = cons_input s"
  using cgaputc_ok [OF assms, of c] by (auto simp: consputc_def)

section \<open>Typing\<close>

text \<open>The effect of a character: entered text and line, as lists.\<close>

fun typed :: "u32 \<Rightarrow> u8 list \<times> u8 list \<Rightarrow> u8 list \<times> u8 list" where
  "typed c (a, l) =
     (if c = 16 then (a, l)
      else if c = 21 then (a, rev (dropWhile (\<lambda>b. b \<noteq> 10) (rev l)))
      else if c = 8 \<or> c = 127 then (a, butlast l)
      else if c \<noteq> 0 \<and> length a + length l < 128 then
        let l = l @ [ucast (if c = 13 then 10 else c)] in
        if c = 13 \<or> c = 10 \<or> c = 4 \<or> length a + length l = 128 then (a @ l, []) else (a, l)
      else (a, l))"

definition cons_ok :: "'a kst_scheme \<Rightarrow> bool" where
  "cons_ok s \<longleftrightarrow> ring_ok (cons_input s) \<and> screen_ok (screen s)"

definition lists :: "'a kst_scheme \<Rightarrow> u8 list \<times> u8 list" where
  "lists s = (entered (cons_input s), editing (cons_input s))"

lemma backspace_spec:
  assumes "cons_ok s" "in_e (cons_input s) \<noteq> in_w (cons_input s)"
  shows "\<exists>s'. consputc BACKSPACE (upd_input (\<lambda>i. i\<lparr>in_e := in_e i - 1\<rparr>) s) = Inr s' \<and> cons_ok s' \<and>
    lists s' = (fst (lists s), butlast (snd (lists s)))"
proof -
  let ?s = "upd_input (\<lambda>i. i\<lparr>in_e := in_e i - 1\<rparr>) s"
  obtain s' where "consputc BACKSPACE ?s = Inr s'" "screen_ok (screen s')" "cons_input s' = cons_input ?s"
    using consputc_ok [of ?s BACKSPACE] assms(1) by (auto simp: upd_input_def cons_ok_def)
  then show ?thesis using ring_back [of "cons_input s"] assms by (auto simp: cons_ok_def lists_def upd_input_def)
qed

lemma editing_empty: "in_e i = in_w i \<longleftrightarrow> editing i = []"
  using ring_list_empty_iff [of 128 "in_buf i" "in_w i" "in_e i"] by (auto simp: editing_def)

lemma kill_line_spec:
  "cons_ok s \<Longrightarrow> \<exists>s'. kill_line s = Inr s' \<and> cons_ok s' \<and>
    lists s' = (fst (lists s), rev (dropWhile (\<lambda>b. b \<noteq> 10) (rev (snd (lists s)))))"
proof (induction s rule: kill_line.induct)
  case (1 s)
  let ?i = "cons_input s"
  show ?case
  proof (cases "in_e ?i \<noteq> in_w ?i \<and> in_buf ?i (unat ((in_e ?i - 1) mod INPUT_BUF)) \<noteq> 10")
    case True
    obtain s' where s': "consputc BACKSPACE (upd_input (\<lambda>i. i\<lparr>in_e := in_e i - 1\<rparr>) s) = Inr s'" "cons_ok s'"
        "lists s' = (fst (lists s), butlast (snd (lists s)))"
      using backspace_spec [OF 1(2)] True by blast
    have l: "editing ?i \<noteq> []" "last (editing ?i) \<noteq> 10"
      using True ring_back(4) [of ?i] 1(2) editing_empty [of ?i] by (auto simp: cons_ok_def)
    then have rv: "rev (editing ?i) = last (editing ?i) # rev (butlast (editing ?i))"
      by (metis append_butlast_last_id rev.simps(2) rev_swap)
    have "dropWhile (\<lambda>b. b \<noteq> 10) (rev (editing ?i)) = dropWhile (\<lambda>b. b \<noteq> 10) (rev (butlast (editing ?i)))"
      unfolding rv using l(2) by simp
    then show ?thesis
      using 1(1) [OF refl True s'(1) s'(2)] s' True by (subst kill_line.simps) (auto simp: lists_def)
  next
    case False
    have "rev (dropWhile (\<lambda>b. b \<noteq> 10) (rev (editing ?i))) = editing ?i"
    proof (cases "editing ?i = []")
      case False
      then have "last (editing ?i) = 10"
        using \<open>\<not> (in_e ?i \<noteq> in_w ?i \<and> _)\<close> ring_back(4) [of ?i] 1(2) editing_empty [of ?i] by (auto simp: cons_ok_def)
      then have "rev (editing ?i) = 10 # rev (butlast (editing ?i))"
        using False by (metis append_butlast_last_id rev.simps(2) rev_swap)
      then show ?thesis by (metis (mono_tags, lifting) dropWhile.simps(2) rev_rev_ident)
    qed simp
    then show ?thesis using False 1(2) by (subst kill_line.simps) (auto simp: lists_def Let_def)
  qed
qed

lemma input_char_spec:
  assumes "cons_ok s" "c \<noteq> 16" "c \<noteq> 21" "c \<noteq> 8" "c \<noteq> 127"
  shows "\<exists>s'. input_char c s = Inr s' \<and> cons_ok s' \<and> lists s' = typed c (lists s)"
proof -
  let ?i = "cons_input s"
  have n: "unat (in_e ?i - in_r ?i) = length (entered ?i) + length (editing ?i)"
    using ring_length assms(1) by (simp add: cons_ok_def entered_def editing_def)
  have n128: "in_e ?i - in_r ?i < INPUT_BUF \<longleftrightarrow> length (entered ?i) + length (editing ?i) < 128"
    unfolding n [symmetric] by (simp add: word_less_nat_alt INPUT_BUF_def)
  show ?thesis
  proof (cases "c \<noteq> 0 \<and> in_e ?i - in_r ?i < INPUT_BUF")
    case False
    then show ?thesis using assms n128 by (auto simp: input_char_def lists_def)
  next
    case True
    let ?c = "if c = 13 then 10 else c"
    let ?j = "?i\<lparr>in_buf := (in_buf ?i)(unat (in_e ?i mod INPUT_BUF) := ucast ?c), in_e := in_e ?i + 1\<rparr>"
    let ?s = "upd_input (\<lambda>i. i\<lparr>in_buf := (in_buf i)(unat (in_e i mod INPUT_BUF) := ucast ?c), in_e := in_e i + 1\<rparr>) s"
    have j: "ring_ok ?j" "entered ?j = entered ?i" "editing ?j = editing ?i @ [ucast ?c]"
      using ring_put [of ?i "ucast ?c"] assms(1) True n n128 by (simp_all add: cons_ok_def)
    obtain s1 where s1: "consputc ?c ?s = Inr s1" "screen_ok (screen s1)" "cons_input s1 = ?j"
      using consputc_ok [of ?s ?c] assms(1) by (auto simp: upd_input_def cons_ok_def)
    have full: "in_e ?j = in_r ?j + INPUT_BUF \<longleftrightarrow> length (entered ?j) + length (editing ?j) = 128"
    proof -
      have "in_e ?j = in_r ?j + INPUT_BUF \<longleftrightarrow> in_e ?j - in_r ?j = INPUT_BUF" by (auto simp: algebra_simps)
      also have "\<dots> \<longleftrightarrow> unat (in_e ?j - in_r ?j) = 128" by (simp add: word_unat_eq_iff INPUT_BUF_def)
      also have "\<dots> \<longleftrightarrow> length (entered ?j) + length (editing ?j) = 128"
        using ring_length [OF j(1)] by (simp add: entered_def editing_def)
      finally show ?thesis .
    qed
    let ?full = "?c = 10 \<or> ?c = 4 \<or> in_e ?j = in_r ?j + INPUT_BUF"
    have run: "input_char c s = Inr (if ?full then wakeup ChInput (upd_input (\<lambda>i. i\<lparr>in_w := in_e i\<rparr>) s1) else s1)"
      unfolding input_char_def Let_def using True s1 by (simp add: Let_def)
    show ?thesis
    proof (cases ?full)
      case True
      have "cons_ok (wakeup ChInput (upd_input (\<lambda>i. i\<lparr>in_w := in_e i\<rparr>) s1))"
        using ring_commit(1) [OF j(1)] s1 by (simp add: cons_ok_def upd_input_def wakeup_def)
      moreover have "lists (wakeup ChInput (upd_input (\<lambda>i. i\<lparr>in_w := in_e i\<rparr>) s1)) = (entered ?i @ editing ?i @ [ucast ?c], [])"
        using ring_commit(2,3) [OF j(1)] s1 j by (simp add: lists_def upd_input_def wakeup_def)
      ultimately show ?thesis using run True full assms n128 j \<open>c \<noteq> 0 \<and> _\<close>
        by (auto simp: lists_def Let_def split: if_splits)
    next
      case False
      then show ?thesis using run full assms n128 j s1 \<open>c \<noteq> 0 \<and> _\<close>
        by (auto simp: cons_ok_def lists_def Let_def split: if_splits)
    qed
  qed
qed

lemma consoleintr_loop_spec:
  "cons_ok s \<Longrightarrow> \<exists>d' s'. consoleintr_loop cs d s = Inr (d', s') \<and> cons_ok s' \<and> lists s' = fold typed cs (lists s)"
proof (induction cs arbitrary: d s)
  case (Cons c cs)
  consider "c = 16" | "c = 21" | "c = 8 \<or> c = 127" | "c \<noteq> 16" "c \<noteq> 21" "c \<noteq> 8" "c \<noteq> 127" by blast
  then show ?case
  proof cases
    case 1
    then show ?thesis using Cons(1) [OF Cons(2), of True] by (simp add: lists_def)
  next
    case 2
    then obtain s' where "kill_line s = Inr s'" "cons_ok s'" "lists s' = typed c (lists s)"
      using kill_line_spec [OF Cons(2)] by (auto simp: lists_def)
    then show ?thesis using Cons(1) [of s' d] 2 by simp
  next
    case 3
    show ?thesis
    proof (cases "in_e (cons_input s) = in_w (cons_input s)")
      case True
      then have "typed c (lists s) = lists s" using 3 editing_empty by (auto simp: lists_def)
      then show ?thesis using Cons(1) [OF Cons(2), of d] 3 True by auto
    next
      case False
      then obtain s' where s': "consputc BACKSPACE (upd_input (\<lambda>i. i\<lparr>in_e := in_e i - 1\<rparr>) s) = Inr s'" "cons_ok s'"
          "lists s' = typed c (lists s)"
        using backspace_spec [OF Cons(2)] 3 by (auto simp: lists_def)
      show ?thesis using Cons(1) [OF s'(2), of d] 3 False s' by auto
    qed
  next
    case 4
    then obtain s' where "input_char c s = Inr s'" "cons_ok s'" "lists s' = typed c (lists s)"
      using input_char_spec [OF Cons(2)] by blast
    then show ?thesis using Cons(1) [of s' d] 4 by simp
  qed
qed simp

section \<open>Reading\<close>

text \<open>
  What a read of \<open>n\<close> characters takes from the entered text: it stops behind a newline and at a
  control-D, which stays for the next read unless it came first. \<open>None\<close>: there is not enough text.
\<close>

definition take_line :: "bool \<Rightarrow> nat \<Rightarrow> u8 list \<Rightarrow> (u8 list \<times> u8 list) option" where
  "take_line first n a =
     (let t = takeWhile (\<lambda>c. c \<noteq> 10 \<and> c \<noteq> 4) (take n a) in
      if length t = n then Some (t, drop n a)
      else case drop (length t) a of
        [] \<Rightarrow> None
      | c # r \<Rightarrow> if c = 10 then Some (t @ [c], r) else Some (t, if first \<and> t = [] then r else c # r))"

lemma take_line_0 [simp]: "take_line first 0 a = Some ([], a)"
  by (simp add: take_line_def)

lemma take_line_Nil [simp]: "take_line first (Suc n) [] = None"
  by (simp add: take_line_def)

lemma take_line_Cons [simp]:
  "take_line first (Suc n) (c # a) =
     (if c = 10 then Some ([c], a)
      else if c = 4 then Some ([], if first then a else c # a)
      else map_option (\<lambda>(t, r). (c # t, r)) (take_line False n a))"
  by (simp add: take_line_def Let_def split: list.splits)

lemma consoleread_loop_spec:
  "ring_ok i \<Longrightarrow> n \<le> target \<Longrightarrow>
    (case take_line (n = target) n (entered i) of
       None \<Rightarrow> \<not> killed \<longrightarrow> consoleread_loop n target killed i = Inl WouldSleep
     | Some (t, r) \<Rightarrow> \<exists>j. consoleread_loop n target killed i = Inr (False, t, n - length t, j) \<and>
         ring_ok j \<and> entered j = r \<and> editing j = editing i)"
proof (induction n target killed i rule: consoleread_loop.induct)
  case (2 n target killed i)
  show ?case
  proof (cases "in_r i = in_w i")
    case True
    then have "entered i = []" by (simp add: entered_def ring_list_empty_iff)
    then show ?thesis using True by simp
  next
    case False
    let ?c = "in_buf i (unat (in_r i mod INPUT_BUF))" and ?j = "i\<lparr>in_r := in_r i + 1\<rparr>"
    note g = ring_get [OF 2(2) False]
    show ?thesis
    proof (cases "?c = 10 \<or> ?c = 4")
      case True
      then show ?thesis using g False 2(2,3) by (auto simp: Let_def)
    next
      case c: False
      have "case take_line (n = target) n (entered ?j) of
          None \<Rightarrow> \<not> killed \<longrightarrow> consoleread_loop n target killed ?j = Inl WouldSleep
        | Some (t, r) \<Rightarrow> \<exists>k. consoleread_loop n target killed ?j = Inr (False, t, n - length t, k) \<and>
            ring_ok k \<and> entered k = r \<and> editing k = editing ?j"
        using 2(1) [OF False refl refl] c g(1) 2(3) by simp
      moreover have "(n = target) = False" using 2(3) by simp
      ultimately show ?thesis using False c g by (auto simp: Let_def split: option.splits)
    qed
  qed
qed simp

text \<open>
  C15: The console as a line discipline. Whatever characters are typed, the interrupt handler does not
  stop, the ring never holds more than 128 characters, and its contents are those of two lists: the
  entered text, and the line that backspace and control-U edit and that a newline, a control-D or a
  full ring enters. A read of \<open>n\<close> characters then takes from the entered text up to a newline or a
  control-D and leaves the rest and the line being edited, or goes to sleep when there is not enough.
\<close>

theorem console_line_discipline:
  assumes "cons_ok s"
  shows "\<exists>d s'. consoleintr_loop cs False s = Inr (d, s') \<and> cons_ok s' \<and> lists s' = fold typed cs (lists s) \<and>
    (case take_line True n (fst (fold typed cs (lists s))) of
       None \<Rightarrow> consoleread_loop n n False (cons_input s') = Inl WouldSleep
     | Some (t, r) \<Rightarrow> \<exists>i. consoleread_loop n n False (cons_input s') = Inr (False, t, n - length t, i) \<and>
         ring_ok i \<and> entered i = r \<and> editing i = snd (fold typed cs (lists s)))"
proof -
  obtain d s' where s': "consoleintr_loop cs False s = Inr (d, s')" "cons_ok s'" "lists s' = fold typed cs (lists s)"
    using consoleintr_loop_spec [OF assms] by blast
  have "ring_ok (cons_input s')" using s'(2) by (simp add: cons_ok_def)
  note rd = consoleread_loop_spec [where killed = False and target = n and n = n, OF this order_refl, simplified]
  have l: "fold typed cs (lists s) = (entered (cons_input s'), editing (cons_input s'))" using s'(3) by (simp add: lists_def)
  show ?thesis unfolding l fst_conv snd_conv
    using s'(1,2) rd by (intro exI [of _ d] exI [of _ s'] conjI) (auto simp: lists_def split: option.splits)
qed

definition ex_kmem :: kmem where
  "ex_kmem = \<lparr>pmem = (\<lambda>_. 0), freelist = 0, use_lock = True, kern_end = 0, kern_data = 0\<rparr>"

theorem console_line_discipline_witness:
  "\<exists>d s' i. consoleintr_loop [97, 98, 8, 99, 13, 100] False (ex_kst ex_kmem ex_proc) = Inr (d, s') \<and>
     consoleread_loop 10 10 False (cons_input s') = Inr (False, [97, 99, 10], 7, i) \<and> editing i = [100]"
proof -
  let ?s = "ex_kst ex_kmem ex_proc"
  have ok: "cons_ok ?s" by (simp add: cons_ok_def ex_kst_def ring_ok_def screen_ok_def)
  have l: "lists ?s = ([], [])" by (simp add: lists_def entered_def editing_def ring_list_def ex_kst_def)
  have f: "fold typed [97, 98, 8, 99, 13, 100] ([], []) = ([97, 99, 10], [100])" by simp
  have "take_line True 10 [97, 99, 10] = Some ([97, 99, 10], [])" by (simp add: take_line_def)
  then show ?thesis using console_line_discipline [OF ok, of "[97, 98, 8, 99, 13, 100]" 10] unfolding l f by auto
qed

end
