(* ===== verification/Calm.thy ===== *)
theory Calm
  imports Trap
begin

text \<open>
  Operations that leave the process table and the reference counts of open files alone, except that
  they may wake sleeping processes. Most of the kernel is of this kind: the whole storage stack, the
  console, paths, the copying of user memory, \<^verbatim>\<open>exec\<close> and the mapping calls. \<open>calm s t\<close> relates the state
  before and after; \<open>calmr\<close> says that an operation, if it returns, returns such a state. The rules
  follow the structure of the code, so that each operation is verified by applying them.
\<close>

section \<open>Calm changes\<close>

definition woken :: "proc \<Rightarrow> proc \<Rightarrow> bool" where
  "woken x y \<longleftrightarrow> p_parent y = p_parent x \<and> p_pid y = p_pid x \<and> p_chan y = p_chan x \<and> p_ofile y = p_ofile x \<and>
     (p_state y = p_state x \<or> p_state x = SLEEPING \<and> p_state y = RUNNABLE)"

definition calm :: "'a kst_scheme \<Rightarrow> 'a kst_scheme \<Rightarrow> bool" where
  "calm s t \<longleftrightarrow> cur t = cur s \<and> nextpid t = nextpid s \<and> initproc t = initproc s \<and>
     (\<forall>f. f_ref (ftable t f) = f_ref (ftable s f)) \<and> (\<forall>p. woken (ptable s p) (ptable t p))"

definition calmr :: "('y \<Rightarrow> 'a kst_scheme) \<Rightarrow> 'a kst_scheme \<Rightarrow> 'y res \<Rightarrow> bool" where
  "calmr g s r \<longleftrightarrow> (\<forall>y. r = Inr y \<longrightarrow> calm s (g y))"

abbreviation (input) st1 :: "'a kst_scheme \<Rightarrow> 'a kst_scheme" where "st1 \<equiv> (\<lambda>t. t)"
abbreviation (input) st2 :: "'b \<times> 'a kst_scheme \<Rightarrow> 'a kst_scheme" where "st2 \<equiv> snd"
abbreviation (input) st3 :: "'b \<times> 'c \<times> 'a kst_scheme \<Rightarrow> 'a kst_scheme" where "st3 \<equiv> (\<lambda>y. snd (snd y))"

named_theorems calm_vcg \<open>calm operations\<close>

lemma woken_refl [simp]: "woken x x"
  by (simp add: woken_def)

lemma woken_trans: "woken x y \<Longrightarrow> woken y z \<Longrightarrow> woken x z"
  by (auto simp: woken_def)

lemma calm_refl [simp]: "calm s s"
  by (simp add: calm_def)

lemma calm_trans: "calm s t \<Longrightarrow> calm t u \<Longrightarrow> calm s u"
  unfolding calm_def by (auto intro: woken_trans)

lemma calmr_step: "calm s t \<Longrightarrow> calmr g t r \<Longrightarrow> calmr g s r"
  unfolding calmr_def using calm_trans by blast

lemma calmr_D1: "calmr st1 s r \<Longrightarrow> r = Inr t \<Longrightarrow> calm s t"
  and calmr_D2: "calmr st2 s q \<Longrightarrow> q = Inr (x, t) \<Longrightarrow> calm s t"
  by (auto simp: calmr_def)

section \<open>Rules for the structure of the code\<close>

lemma calm_Inl [calm_vcg]: "calmr g s (Inl e)"
  by (simp add: calmr_def)

lemma calm_Inr1 [calm_vcg]: "calm s t \<Longrightarrow> calmr st1 s (Inr t)"
  and calm_Inr2 [calm_vcg]: "calm s t \<Longrightarrow> calmr st2 s (Inr (x, t))"
  and calm_Inr3 [calm_vcg]: "calm s t \<Longrightarrow> calmr st3 s (Inr (x, y, t))"
  by (simp_all add: calmr_def)

lemma calm_bind1 [calm_vcg]: "calmr st1 s r \<Longrightarrow> (\<And>t. calm s t \<Longrightarrow> calmr g s (f t)) \<Longrightarrow> calmr g s (bindr r f)"
  by (auto simp: calmr_def bindr_eq_Inr)

lemma calm_bind2 [calm_vcg]:
  "calmr st2 s r \<Longrightarrow> (\<And>x t. calm s t \<Longrightarrow> calmr g s (f x t)) \<Longrightarrow> calmr g s (bindr r (\<lambda>(x, t). f x t))"
  by (auto simp: calmr_def bindr_eq_Inr)

lemma calm_bind3 [calm_vcg]:
  "calmr st3 s r \<Longrightarrow> (\<And>x y t. calm s t \<Longrightarrow> calmr g s (f x y t)) \<Longrightarrow> calmr g s (bindr r (\<lambda>(x, y, t). f x y t))"
  by (auto simp: calmr_def bindr_eq_Inr)

lemma calm_if [calm_vcg]: "calmr g s a \<Longrightarrow> calmr g s b \<Longrightarrow> calmr g s (if c then a else b)"
  by simp

lemma calm_option [calm_vcg]:
  "calmr g s a \<Longrightarrow> (\<And>x. calmr g s (f x)) \<Longrightarrow> calmr g s (case r of None \<Rightarrow> a | Some x \<Rightarrow> f x)"
  by (cases r) simp_all

lemma calm_ftype [calm_vcg]:
  "calmr g s a \<Longrightarrow> calmr g s b \<Longrightarrow> calmr g s c \<Longrightarrow> calmr g s (case t of FD_NONE \<Rightarrow> a | FD_PIPE \<Rightarrow> b | FD_INODE \<Rightarrow> c)"
  by (cases t) simp_all

lemma calm_case2 [calm_vcg]:
  "calm s (snd y) \<Longrightarrow> (\<And>x t. calm s t \<Longrightarrow> calmr g s (f x t)) \<Longrightarrow> calmr g s (case y of (x, t) \<Rightarrow> f x t)"
  by (cases y) simp

lemma calm_cond [calm_vcg]: "calm s t \<Longrightarrow> calm s u \<Longrightarrow> calm s (if c then t else u)"
  by simp

lemma calm_snd_cond [calm_vcg]: "calm s (snd x) \<Longrightarrow> calm s (snd y) \<Longrightarrow> calm s (snd (if c then x else y))"
  by simp

text \<open>Results without a state, and pairs of other values: tried last.\<close>

lemma calm_bind0: "(\<And>x. calmr g s (f x)) \<Longrightarrow> calmr g s (bindr r f)"
  by (auto simp: calmr_def bindr_eq_Inr)

lemma calm_case0: "(\<And>x z. calmr g s (f x z)) \<Longrightarrow> calmr g s (case y of (x, z) \<Rightarrow> f x z)"
  by (cases y) simp

lemmas calm_last = calm_bind0 calm_case0

lemma calm_forr [calm_vcg]:
  assumes "calm s t" "\<And>i t. calm s t \<Longrightarrow> calmr st1 s (body i t)"
  shows "calmr st1 s (forr is body t)"
  using assms(1)
proof (induction "is" arbitrary: t)
  case (Cons i "is")
  show ?case unfolding forr.simps by (rule calm_bind1 [OF assms(2) [OF Cons(2)] Cons(1)])
qed (simp add: calm_Inr1)

section \<open>The storage stack\<close>

lemma calm_upd_buf [calm_vcg]: "calm s t \<Longrightarrow> calm s (upd_buf b f t)"
  and calm_set_data [calm_vcg]: "calm s t \<Longrightarrow> calm s (set_data b d t)"
  and calm_pin_buf [calm_vcg]: "calm s t \<Longrightarrow> calm s (pin_buf b t)"
  and calm_memdisk [calm_vcg]: "calm s t \<Longrightarrow> calm s (t\<lparr>memdisk := m\<rparr>)"
  and calm_dwrites [calm_vcg]: "calm s t \<Longrightarrow> calm s (t\<lparr>dwrites := w\<rparr>)"
  and calm_upd_log [calm_vcg]: "calm s t \<Longrightarrow> calm s (upd_log g t)"
  and calm_clear_lh [calm_vcg]: "calm s t \<Longrightarrow> calm s (clear_lh t)"
  and calm_upd_inode [calm_vcg]: "calm s t \<Longrightarrow> calm s (upd_inode ip h t)"
  and calm_set_addr [calm_vcg]: "calm s t \<Longrightarrow> calm s (set_addr ip k a t)"
  by (simp_all add: calm_def upd_buf_def set_data_def pin_buf_def upd_log_def clear_lh_def upd_inode_def set_addr_def)

lemma calm_brelse_front [calm_vcg]: "calm s t \<Longrightarrow> calm s (brelse_front b t)"
  unfolding brelse_front_def Let_def by (assumption | rule calm_vcg)+

lemma calm_lock_buf [calm_vcg]: "calm s t \<Longrightarrow> calmr st2 s (lock_buf b t)"
  unfolding lock_buf_def Let_def by (assumption | rule calm_vcg | rule calm_last)+

lemma calm_iderw [calm_vcg]: "calm s t \<Longrightarrow> calmr st1 s (iderw b t)"
  unfolding iderw_def Let_def by (assumption | rule calm_vcg | rule calm_last)+

lemma calm_bget [calm_vcg]: "calm s t \<Longrightarrow> calmr st2 s (bget dev n t)"
  unfolding bget_def Let_def by (assumption | rule calm_vcg | rule calm_last)+

lemma calm_bread [calm_vcg]: "calm s t \<Longrightarrow> calmr st2 s (bread dev n t)"
  unfolding bread_def Let_def by (assumption | rule calm_vcg | rule calm_last)+

lemma calm_bwrite [calm_vcg]: "calm s t \<Longrightarrow> calmr st1 s (bwrite b t)"
  unfolding bwrite_def Let_def by (assumption | rule calm_vcg | rule calm_last)+

lemma calm_brelse [calm_vcg]: "calm s t \<Longrightarrow> calmr st1 s (brelse b t)"
  unfolding brelse_def Let_def by (assumption | rule calm_vcg | rule calm_last)+

lemma calm_log_write [calm_vcg]: "calm s t \<Longrightarrow> calmr st1 s (log_write b t)"
  unfolding log_write_def Let_def by (assumption | rule calm_vcg | rule calm_last)+

lemma calm_write_log [calm_vcg]: "calm s t \<Longrightarrow> calmr st1 s (write_log t)"
  unfolding write_log_def Let_def by (assumption | rule calm_vcg | rule calm_last)+

lemma calm_write_head [calm_vcg]: "calm s t \<Longrightarrow> calmr st1 s (write_head t)"
  unfolding write_head_def Let_def by (assumption | rule calm_vcg | rule calm_last)+

lemma calm_install_trans [calm_vcg]: "calm s t \<Longrightarrow> calmr st1 s (install_trans t)"
  unfolding install_trans_def Let_def by (assumption | rule calm_vcg | rule calm_last)+

lemma calm_commit [calm_vcg]: "calm s t \<Longrightarrow> calmr st1 s (commit t)"
  unfolding commit_def Let_def by (assumption | rule calm_vcg | rule calm_last)+

lemma calm_begin_op [calm_vcg]: "calm s t \<Longrightarrow> calmr st1 s (begin_op t)"
  unfolding begin_op_def Let_def by (assumption | rule calm_vcg | rule calm_last)+

lemma calm_end_op [calm_vcg]: "calm s t \<Longrightarrow> calmr st1 s (end_op t)"
  unfolding end_op_def Let_def by (assumption | rule calm_vcg | rule calm_last)+

section \<open>The file system\<close>

lemma calm_bzero [calm_vcg]: "calm s t \<Longrightarrow> calmr st1 s (bzero dev n t)"
  unfolding bzero_def Let_def by (assumption | rule calm_vcg | rule calm_last)+

lemma calm_balloc_loop [calm_vcg]: "calm s t \<Longrightarrow> calmr st2 s (balloc_loop dev bs t)"
proof (induction bs arbitrary: t)
  case (Cons x bs)
  note [calm_vcg] = Cons
  show ?case unfolding balloc_loop.simps Let_def by (assumption | rule calm_vcg | rule calm_last)+
qed (simp add: calm_Inl)

lemma calm_balloc [calm_vcg]: "calm s t \<Longrightarrow> calmr st2 s (balloc dev t)"
  unfolding balloc_def Let_def by (assumption | rule calm_vcg | rule calm_last)+

lemma calm_bfree [calm_vcg]: "calm s t \<Longrightarrow> calmr st1 s (bfree dev b t)"
  unfolding bfree_def Let_def by (assumption | rule calm_vcg | rule calm_last)+

lemma calm_idup [calm_vcg]: "calm s t \<Longrightarrow> calm s (snd (idup ip t))"
  by (simp add: idup_def calm_upd_inode)

lemma calm_idup_Inr [calm_vcg]: "calm s t \<Longrightarrow> calmr st2 s (Inr (idup ip t))"
  by (simp add: idup_def calm_upd_inode calm_Inr2)

lemma calm_iget [calm_vcg]: "calm s t \<Longrightarrow> calmr st2 s (iget dev inum t)"
  unfolding iget_def by (auto split: prod.splits option.splits intro!: calm_vcg)

lemma calm_ialloc_loop [calm_vcg]: "calm s t \<Longrightarrow> calmr st2 s (ialloc_loop dev ty ns t)"
proof (induction ns arbitrary: t)
  case (Cons x ns)
  note [calm_vcg] = Cons
  show ?case unfolding ialloc_loop.simps Let_def by (assumption | rule calm_vcg | rule calm_last)+
qed (simp add: calm_Inl)

lemma calm_ialloc [calm_vcg]: "calm s t \<Longrightarrow> calmr st2 s (ialloc dev ty t)"
  unfolding ialloc_def Let_def by (assumption | rule calm_vcg | rule calm_last)+

lemma calm_iupdate [calm_vcg]: "calm s t \<Longrightarrow> calmr st1 s (iupdate ip t)"
  unfolding iupdate_def Let_def by (assumption | rule calm_vcg | rule calm_last)+

lemma calm_ilock [calm_vcg]: "calm s t \<Longrightarrow> calmr st1 s (ilock ip t)"
  unfolding ilock_def Let_def by (assumption | rule calm_vcg | rule calm_last)+

lemma calm_iunlock [calm_vcg]: "calm s t \<Longrightarrow> calmr st1 s (iunlock ip t)"
  unfolding iunlock_def Let_def by (assumption | rule calm_vcg | rule calm_last)+

lemma calm_addr_alloc [calm_vcg]: "calm s t \<Longrightarrow> calmr st2 s (addr_alloc ip k t)"
  unfolding addr_alloc_def Let_def by (assumption | rule calm_vcg | rule calm_last)+

lemma calm_bmap [calm_vcg]: "calm s t \<Longrightarrow> calmr st2 s (bmap ip n t)"
  unfolding bmap_def Let_def by (assumption | rule calm_vcg | rule calm_last)+

lemma calm_itrunc [calm_vcg]: "calm s t \<Longrightarrow> calmr st1 s (itrunc ip t)"
  unfolding itrunc_def Let_def by (assumption | rule calm_vcg | rule calm_last)+

lemma calm_iput [calm_vcg]: "calm s t \<Longrightarrow> calmr st1 s (iput ip t)"
  unfolding iput_def Let_def by (assumption | rule calm_vcg | rule calm_last)+

lemma calm_iunlockput [calm_vcg]: "calm s t \<Longrightarrow> calmr st1 s (iunlockput ip t)"
  unfolding iunlockput_def Let_def by (assumption | rule calm_vcg | rule calm_last)+

lemma calm_readi_loop [calm_vcg]: "calm s t \<Longrightarrow> calmr st2 s (readi_loop ip off tot n t)"
proof (induction "unat (n - tot)" arbitrary: off tot t rule: less_induct)
  case less
  show ?case
  proof (cases "tot < n")
    case True
    note [calm_vcg] = less(1) [OF chunk_less [OF True]] less(2)
    show ?thesis unfolding readi_loop.simps [of ip off tot] Let_def if_P [OF True] by (assumption | rule calm_vcg | rule calm_last)+
  qed (simp add: readi_loop.simps calm_Inr2 less(2))
qed

lemma calm_writei_loop [calm_vcg]: "calm s t \<Longrightarrow> calmr st2 s (writei_loop ip src off tot n t)"
proof (induction "unat (n - tot)" arbitrary: off tot t rule: less_induct)
  case less
  show ?case
  proof (cases "tot < n")
    case True
    note [calm_vcg] = less(1) [OF chunk_less [OF True]] less(2)
    show ?thesis unfolding writei_loop.simps [of ip src off tot] Let_def if_P [OF True] by (assumption | rule calm_vcg | rule calm_last)+
  qed (simp add: writei_loop.simps calm_Inr2 less(2))
qed

section \<open>Kernel memory and the console\<close>

lemma calm_km [calm_vcg]: "calm s t \<Longrightarrow> calm s (t\<lparr>km := k\<rparr>)"
  and calm_upd_km [calm_vcg]: "calm s t \<Longrightarrow> calm s (upd_km g t)"
  and calm_upd_pmem [calm_vcg]: "calm s t \<Longrightarrow> calm s (upd_pmem h t)"
  and calm_kstore [calm_vcg]: "calm s t \<Longrightarrow> calm s (kstore a v t)"
  and calm_kstore16 [calm_vcg]: "calm s t \<Longrightarrow> calm s (kstore16 a w t)"
  and calm_input [calm_vcg]: "calm s t \<Longrightarrow> calm s (t\<lparr>cons_input := i\<rparr>)"
  and calm_upd_input [calm_vcg]: "calm s t \<Longrightarrow> calm s (upd_input j t)"
  and calm_screen [calm_vcg]: "calm s t \<Longrightarrow> calm s (t\<lparr>screen := c\<rparr>)"
  and calm_consout [calm_vcg]: "calm s t \<Longrightarrow> calm s (t\<lparr>consout := l\<rparr>)"
  and calm_ticks [calm_vcg]: "calm s t \<Longrightarrow> calm s (t\<lparr>ticks := n\<rparr>)"
  and calm_cr3 [calm_vcg]: "calm s t \<Longrightarrow> calm s (t\<lparr>cr3 := n\<rparr>)"
  by (simp_all add: calm_def upd_km_def upd_pmem_def kstore_def kstore16_def upd_input_def)

lemma calm_kalloc_s [calm_vcg]: "calm s t \<Longrightarrow> calm s (snd (kalloc_s t))"
  by (simp add: kalloc_s_def calm_km split: prod.split)

lemma calm_upd_proc [calm_vcg]:
  assumes "calm s t" "\<And>x. woken x (f x)"
  shows "calm s (upd_proc p f t)"
  using assms unfolding calm_def upd_proc_def by (auto intro: woken_trans)

lemma calm_upd_file [calm_vcg]:
  assumes "calm s t" "\<And>x. f_ref (g x) = f_ref x"
  shows "calm s (upd_file f g t)"
  using assms by (simp add: calm_def upd_file_def)

lemma woken_wakeup1: "woken (pt p) (wakeup1 ch pt p)"
  by (simp add: wakeup1_def woken_def)

lemma calm_wakeup [calm_vcg]: "calm s t \<Longrightarrow> calm s (wakeup ch t)"
  using woken_trans woken_wakeup1 unfolding calm_def wakeup_def by simp blast

lemma calm_kfree_s [calm_vcg]: "calm s t \<Longrightarrow> calmr st1 s (kfree_s v t)"
  unfolding kfree_s_def Let_def by (assumption | rule calm_vcg | rule calm_last)+

lemma calm_in_km [calm_vcg]: "calm s t \<Longrightarrow> calmr st2 s (in_km f t)"
  unfolding in_km_def Let_def by (assumption | rule calm_vcg | rule calm_last)+

lemma calm_copyto [calm_vcg]: "calm s t \<Longrightarrow> calmr st1 s (copyto va bs t)"
  unfolding copyto_def Let_def by (assumption | rule calm_vcg | rule calm_last)+

lemma calm_switchuvm [calm_vcg]: "calm s t \<Longrightarrow> calmr st1 s (switchuvm p t)"
  unfolding switchuvm_def Let_def by (assumption | rule calm_vcg | rule calm_last)+

lemma calm_consputc [calm_vcg]: "calm s t \<Longrightarrow> calmr st1 s (consputc c t)"
  unfolding consputc_def Let_def by (assumption | rule calm_vcg | rule calm_last)+

lemma calm_cons_puts [calm_vcg]: "calm s t \<Longrightarrow> calmr st1 s (cons_puts cs t)"
  unfolding cons_puts_def Let_def by (assumption | rule calm_vcg | rule calm_last)+

lemma calm_kprintf [calm_vcg]: "calm s t \<Longrightarrow> calmr st1 s (kprintf fmt args t)"
  unfolding kprintf_def Let_def by (assumption | rule calm_vcg | rule calm_last)+

lemma calm_dump_proc [calm_vcg]: "calm s t \<Longrightarrow> calmr st1 s (dump_proc i t)"
  unfolding dump_proc_def Let_def by (assumption | rule calm_vcg | rule calm_last)+

lemma calm_procdump [calm_vcg]: "calm s t \<Longrightarrow> calmr st1 s (procdump t)"
  unfolding procdump_def Let_def by (assumption | rule calm_vcg | rule calm_last)+

lemma calm_kill_line [calm_vcg]: "calm s t \<Longrightarrow> calmr st1 s (kill_line t)"
proof (induction t rule: kill_line.induct)
  case (1 t)
  let ?i = "cons_input t" and ?u = "upd_input (\<lambda>i. i\<lparr>in_e := in_e i - 1\<rparr>) t"
  show ?case
  proof (cases "in_e ?i \<noteq> in_w ?i \<and> in_buf ?i (unat ((in_e ?i - 1) mod INPUT_BUF)) \<noteq> 10")
    case True
    have c: "calmr st1 s (consputc BACKSPACE ?u)" by (intro calm_consputc calm_upd_input 1(2))
    have "calmr st1 s (bindr (consputc BACKSPACE ?u) kill_line)"
      using 1(1) [OF refl True] calmr_D1 [OF c] by (auto simp: calmr_def bindr_eq_Inr)
    then show ?thesis using True by (subst kill_line.simps) (simp add: Let_def)
  qed (use 1(2) in \<open>subst kill_line.simps, auto simp: Let_def calm_Inr1\<close>)
qed

lemma calm_input_char [calm_vcg]: "calm s t \<Longrightarrow> calmr st1 s (input_char c t)"
  unfolding input_char_def Let_def by (assumption | rule calm_vcg | rule calm_last)+

lemma calm_consoleintr_loop [calm_vcg]: "calm s t \<Longrightarrow> calmr st2 s (consoleintr_loop cs d t)"
proof (induction cs arbitrary: d t)
  case (Cons c cs)
  note [calm_vcg] = Cons
  show ?case unfolding consoleintr_loop.simps by (assumption | rule calm_vcg | rule calm_last)+
qed (simp add: calm_Inr2)

lemma calm_consoleintr [calm_vcg]: "calm s t \<Longrightarrow> calmr st1 s (consoleintr cs t)"
  unfolding consoleintr_def Let_def by (assumption | rule calm_vcg | rule calm_last)+

lemma calm_consoleread [calm_vcg]: "calm s t \<Longrightarrow> calmr st3 s (consoleread ip n t)"
  unfolding consoleread_def by (assumption | rule calm_vcg | rule calm_last)+

lemma calm_consolewrite [calm_vcg]: "calm s t \<Longrightarrow> calmr st2 s (consolewrite ip buf n t)"
  unfolding consolewrite_def by (assumption | rule calm_vcg | rule calm_last)+

section \<open>Files and paths\<close>

lemma calm_dev_read [calm_vcg]:
  "calm s t \<Longrightarrow> calmr st3 s (case dev_read (devsw k) of None \<Rightarrow> Inr (- 1, [], t) | Some rd \<Rightarrow> rd ip n t)"
  by (simp add: consoleinit_def calm_consoleread calm_Inr3)

lemma calm_dev_write [calm_vcg]:
  "calm s t \<Longrightarrow> calmr st2 s (case dev_write (devsw k) of None \<Rightarrow> Inr (- 1, t) | Some wr \<Rightarrow> wr ip src n t)"
  by (simp add: consoleinit_def calm_consolewrite calm_Inr2)

lemma calm_readi [calm_vcg]: "calm s t \<Longrightarrow> calmr st3 s (readi devsw ip off n t)"
  unfolding readi_def Let_def by (assumption | rule calm_vcg | rule calm_last)+

lemma calm_writei [calm_vcg]: "calm s t \<Longrightarrow> calmr st2 s (writei devsw ip src off n t)"
  unfolding writei_def Let_def by (assumption | rule calm_vcg | rule calm_last)+

lemma calm_dirlookup_loop [calm_vcg]: "calm s t \<Longrightarrow> calmr st2 s (dirlookup_loop devsw dp name offs t)"
proof (induction offs arbitrary: t)
  case (Cons x offs)
  note [calm_vcg] = Cons
  show ?case unfolding dirlookup_loop.simps Let_def by (assumption | rule calm_vcg | rule calm_last)+
qed (simp add: calm_Inr2)

lemma calm_dirlookup [calm_vcg]: "calm s t \<Longrightarrow> calmr st2 s (dirlookup devsw dp name t)"
  unfolding dirlookup_def Let_def by (assumption | rule calm_vcg | rule calm_last)+

lemma calm_dirlink_loop [calm_vcg]: "calm s t \<Longrightarrow> calmr st2 s (dirlink_loop devsw dp offs past t)"
proof (induction offs arbitrary: t)
  case (Cons x offs)
  note [calm_vcg] = Cons
  show ?case unfolding dirlink_loop.simps Let_def by (assumption | rule calm_vcg | rule calm_last)+
qed (simp add: calm_Inr2)

lemma calm_option_pair [calm_vcg]:
  "calmr g s a \<Longrightarrow> (\<And>x y. calmr g s (f x y)) \<Longrightarrow> calmr g s (case r of None \<Rightarrow> a | Some (x, y) \<Rightarrow> f x y)"
  by (cases r) (simp_all split: prod.split)

lemma calm_dirlink [calm_vcg]: "calm s t \<Longrightarrow> calmr st2 s (dirlink devsw dp name inum t)"
  unfolding dirlink_def Let_def by (assumption | rule calm_vcg | rule calm_last)+

lemma calm_namex_loop [calm_vcg]: "calm s t \<Longrightarrow> calmr st3 s (namex_loop devsw ip path np name t)"
proof (induction "length path" arbitrary: ip path name t rule: less_induct)
  case less
  show ?case
  proof (cases "skipelem path name")
    case None
    then show ?thesis using less(2) by (simp add: namex_loop.simps [of _ ip path] calm_vcg)
  next
    case (Some pn)
    obtain path' name' where pn: "pn = (path', name')" by fastforce
    note [calm_vcg] = less(1) [OF skipelem_shorter [OF Some [unfolded pn]]] less(2)
    show ?thesis unfolding namex_loop.simps [of _ ip path] Some pn option.case prod.case by (assumption | rule calm_vcg | rule calm_last)+
  qed
qed

lemma calm_namex [calm_vcg]: "calm s t \<Longrightarrow> calmr st3 s (namex devsw cwd path np name t)"
  unfolding namex_def Let_def by (assumption | rule calm_vcg | rule calm_last)+

lemma calm_namei [calm_vcg]: "calm s t \<Longrightarrow> calmr st2 s (namei devsw cwd path t)"
  unfolding namei_def Let_def by (assumption | rule calm_vcg | rule calm_last)+

lemma calm_nameiparent [calm_vcg]: "calm s t \<Longrightarrow> calmr st3 s (nameiparent devsw cwd path name t)"
  unfolding nameiparent_def Let_def by (assumption | rule calm_vcg | rule calm_last)+

lemma calm_knamei [calm_vcg]: "calm s t \<Longrightarrow> calmr st2 s (knamei path t)"
  unfolding knamei_def Let_def by (assumption | rule calm_vcg | rule calm_last)+

lemma calm_knameiparent [calm_vcg]: "calm s t \<Longrightarrow> calmr st3 s (knameiparent path t)"
  unfolding knameiparent_def Let_def by (assumption | rule calm_vcg | rule calm_last)+

lemma calm_set_pipe [calm_vcg]: "calm s t \<Longrightarrow> calm s (set_pipe p x chs t)"
proof -
  have "calm s u \<Longrightarrow> calm s (fold (\<lambda>ch. wakeup (pipe_chan p ch)) chs u)" for u
    by (induction chs arbitrary: u) (auto intro: calm_wakeup)
  then show "calm s t \<Longrightarrow> ?thesis" unfolding set_pipe_def by (blast intro: calm_upd_pmem)
qed

lemma calm_outcome [calm_vcg]:
  "(\<And>c n. calmr g s (f c n)) \<Longrightarrow> (\<And>r. calmr g s (h r)) \<Longrightarrow> calmr g s (case out of SleepOn c n \<Rightarrow> f c n | Return r \<Rightarrow> h r)"
  by (cases out) simp_all

lemma calm_close_pipe [calm_vcg]: "calm s t \<Longrightarrow> calmr st1 s (close_pipe p w t)"
  unfolding close_pipe_def Let_def by (assumption | rule calm_vcg | rule calm_last)+

lemma calm_filestat [calm_vcg]: "calm s t \<Longrightarrow> calmr st2 s (filestat f st t)"
  unfolding filestat_def Let_def by (assumption | rule calm_vcg | rule calm_last | (simp add: woken_def; fail))+

lemma calm_read_pipe [calm_vcg]: "calm s t \<Longrightarrow> calmr st2 s (read_pipe p addr n t)"
  unfolding read_pipe_def Let_def by (assumption | rule calm_vcg | rule calm_last | (simp add: woken_def; fail))+

lemma calm_write_pipe [calm_vcg]: "calm s t \<Longrightarrow> calmr st2 s (write_pipe p addr n t)"
  unfolding write_pipe_def Let_def by (assumption | rule calm_vcg | rule calm_last | (simp add: woken_def; fail))+

lemma calm_fileread [calm_vcg]: "calm s t \<Longrightarrow> calmr st2 s (fileread f addr n t)"
  unfolding fileread_def Let_def by (assumption | rule calm_vcg | rule calm_last | (simp add: woken_def; fail))+

lemma calm_filewrite_step [calm_vcg]: "calm s t \<Longrightarrow> calmr st2 s (filewrite_step f addr m i t)"
  unfolding filewrite_step_def Let_def by (assumption | rule calm_vcg | rule calm_last | (simp add: woken_def; fail))+

lemma calm_filewrite_loop [calm_vcg]: "calm s t \<Longrightarrow> calmr st2 s (filewrite_loop f addr n i t)"
proof (induction f addr n i t rule: filewrite_loop.induct)
  case (1 f addr n i t)
  let ?m = "if n - i > write_max then write_max else n - i"
  show ?case
  proof (cases "i < n")
    case True
    have c: "calmr st2 s (filewrite_step f addr ?m i t)" by (rule calm_filewrite_step [OF 1(2)])
    have "calmr st2 s (if r < 0 then Inr (i, u) else if r \<noteq> ?m then Inl (Panic ''short filewrite'') else filewrite_loop f addr n (i + r) u)"
      if "filewrite_step f addr ?m i t = Inr (r, u)" for r u
      using 1(1) [OF True refl that refl] calmr_D2 [OF c that] by (simp add: calm_Inl calm_Inr2)
    then have "calmr st2 s (bindr (filewrite_step f addr ?m i t) (\<lambda>(r, u). if r < 0 then Inr (i, u)
        else if r \<noteq> ?m then Inl (Panic ''short filewrite'') else filewrite_loop f addr n (i + r) u))"
      by (cases "filewrite_step f addr ?m i t") (auto simp: calm_Inl)
    then show ?thesis using True by (subst filewrite_loop.simps) (simp add: Let_def)
  qed (use 1(2) in \<open>subst filewrite_loop.simps, simp add: calm_Inr2\<close>)
qed

lemma calm_filewrite [calm_vcg]: "calm s t \<Longrightarrow> calmr st2 s (filewrite f addr n t)"
  unfolding filewrite_def Let_def by (assumption | rule calm_vcg | rule calm_last)+

end
