(* ===== verification/Calm_Calls.thy ===== *)
theory Calm_Calls
  imports Calm
begin

text \<open>
  The system calls that are calm: \<^verbatim>\<open>exec\<close>, the calls on paths, reading and writing, and the mapping calls;
  and the page fault handler up to the exit of a faulting process.
\<close>

section \<open>exec\<close>

lemma calm_loaduvm_loop [calm_vcg]: "calm s t \<Longrightarrow> calmr st2 s (loaduvm_loop fuel pgdir addr ip off sz i t)"
proof (induction fuel arbitrary: pgdir addr ip off sz i t)
  case (Suc fuel)
  note [calm_vcg] = Suc
  show ?case unfolding loaduvm_loop.simps Let_def by (assumption | rule calm_vcg | rule calm_last | (simp add: woken_def; fail))+
qed (simp add: calm_Inl calm_Inr2)

lemma calm_loaduvm [calm_vcg]: "calm s t \<Longrightarrow> calmr st2 s (loaduvm pgdir addr ip off sz t)"
  unfolding loaduvm_def Let_def by (assumption | rule calm_vcg | rule calm_last | (simp add: woken_def; fail))+

lemma calm_load_segments [calm_vcg]: "calm s t \<Longrightarrow> calmr st2 s (load_segments n off ip pgdir sz t)"
proof (induction n arbitrary: off sz t)
  case (Suc n)
  note [calm_vcg] = Suc
  show ?case unfolding load_segments.simps Let_def by (assumption | rule calm_vcg | rule calm_last | (simp add: woken_def; fail))+
qed (simp add: calm_Inr2)

lemma calm_exec_bad [calm_vcg]: "calm s t \<Longrightarrow> calmr st2 s (exec_bad pgdir ip t)"
  unfolding exec_bad_def Let_def by (assumption | rule calm_vcg | rule calm_last | (simp add: woken_def; fail))+

lemma calm_push_args [calm_vcg]: "calm s t \<Longrightarrow> calmr st2 s (push_args argc pgdir sp args t)"
proof (induction args arbitrary: argc sp t)
  case (Cons a args)
  note [calm_vcg] = Cons
  show ?case unfolding push_args.simps Let_def by (assumption | rule calm_vcg | rule calm_last | (simp add: woken_def; fail))+
qed (simp add: calm_Inr2)

lemma calm_exec_commit [calm_vcg]: "calm s t \<Longrightarrow> calmr st2 s (exec_commit path pgdir sz entry sp t)"
  unfolding exec_commit_def Let_def by (assumption | rule calm_vcg | rule calm_last | (simp add: woken_def; fail))+

lemma calm_exec_stack [calm_vcg]: "calm s t \<Longrightarrow> calmr st2 s (exec_stack path argv pgdir sz entry t)"
  unfolding exec_stack_def Let_def by (assumption | rule calm_vcg | rule calm_last | (simp add: woken_def; fail))+

lemma calm_exec [calm_vcg]: "calm s t \<Longrightarrow> calmr st2 s (exec path argv t)"
  unfolding exec_def Let_def by (assumption | rule calm_vcg | rule calm_last | (simp add: woken_def; fail))+

section \<open>File system calls\<close>

lemma calm_with_arg [calm_vcg]: "calm s t \<Longrightarrow> (\<And>x. calmr st2 s (f x)) \<Longrightarrow> calmr st2 s (with_arg r f t)"
  unfolding with_arg_def by (intro calm_bind0 calm_option calm_Inr2)

lemma calm_with_arg_pair [calm_vcg]:
  "calm s t \<Longrightarrow> (\<And>x y. calmr st2 s (f x y)) \<Longrightarrow> calmr st2 s (with_arg r (\<lambda>(x, y). f x y) t)"
  by (rule calm_with_arg) (auto split: prod.split)

lemma calm_sum [calm_vcg]:
  "(\<And>x. calmr g s (f x)) \<Longrightarrow> (\<And>x. calmr g s (h x)) \<Longrightarrow> calmr g s (case r of Inl x \<Rightarrow> f x | Inr x \<Rightarrow> h x)"
  by (cases r) simp_all

lemma calm_add_nlink [calm_vcg]: "calm s t \<Longrightarrow> calm s (add_nlink ip d t)"
  by (simp add: add_nlink_def calm_upd_inode)

lemma calm_sys_read [calm_vcg]: "calm s t \<Longrightarrow> calmr st2 s (sys_read t)"
  unfolding sys_read_def Let_def by (assumption | rule calm_vcg | rule calm_last | (simp add: woken_def; fail))+

lemma calm_sys_write [calm_vcg]: "calm s t \<Longrightarrow> calmr st2 s (sys_write t)"
  unfolding sys_write_def Let_def by (assumption | rule calm_vcg | rule calm_last | (simp add: woken_def; fail))+

lemma calm_sys_fstat [calm_vcg]: "calm s t \<Longrightarrow> calmr st2 s (sys_fstat t)"
  unfolding sys_fstat_def Let_def by (assumption | rule calm_vcg | rule calm_last | (simp add: woken_def; fail))+

lemma calm_op_fail [calm_vcg]: "calm s t \<Longrightarrow> calmr st2 s (op_fail t)"
  unfolding op_fail_def Let_def by (assumption | rule calm_vcg | rule calm_last | (simp add: woken_def; fail))+

lemma calm_link_bad [calm_vcg]: "calm s t \<Longrightarrow> calmr st2 s (link_bad ip t)"
  unfolding link_bad_def Let_def by (assumption | rule calm_vcg | rule calm_last | (simp add: woken_def; fail))+

lemma calm_link_new [calm_vcg]: "calm s t \<Longrightarrow> calmr st2 s (link_new ip newp t)"
  unfolding link_new_def Let_def by (assumption | rule calm_vcg | rule calm_last | (simp add: woken_def; fail))+

lemma calm_sys_link [calm_vcg]: "calm s t \<Longrightarrow> calmr st2 s (sys_link t)"
  unfolding sys_link_def Let_def by (assumption | rule calm_vcg | rule calm_last | (simp add: woken_def; fail))+

lemma calm_isdirempty_loop [calm_vcg]: "calm s t \<Longrightarrow> calmr st2 s (isdirempty_loop dp offs t)"
proof (induction offs arbitrary: t)
  case (Cons x offs)
  note [calm_vcg] = Cons
  show ?case unfolding isdirempty_loop.simps Let_def by (assumption | rule calm_vcg | rule calm_last | (simp add: woken_def; fail))+
qed (simp add: calm_Inr2)

lemma calm_isdirempty [calm_vcg]: "calm s t \<Longrightarrow> calmr st2 s (isdirempty dp t)"
  unfolding isdirempty_def Let_def by (assumption | rule calm_vcg | rule calm_last | (simp add: woken_def; fail))+

lemma calm_unlink_bad [calm_vcg]: "calm s t \<Longrightarrow> calmr st2 s (unlink_bad dp t)"
  unfolding unlink_bad_def Let_def by (assumption | rule calm_vcg | rule calm_last | (simp add: woken_def; fail))+

lemma calm_unlink_entry [calm_vcg]: "calm s t \<Longrightarrow> calmr st2 s (unlink_entry dp ip off t)"
  unfolding unlink_entry_def Let_def by (assumption | rule calm_vcg | rule calm_last | (simp add: woken_def; fail))+

lemma calm_sys_unlink [calm_vcg]: "calm s t \<Longrightarrow> calmr st2 s (sys_unlink t)"
  unfolding sys_unlink_def Let_def by (assumption | rule calm_vcg | rule calm_last | (simp add: woken_def; fail))+

lemma calm_create_dots [calm_vcg]: "calm s t \<Longrightarrow> calmr st1 s (create_dots dp ip t)"
  unfolding create_dots_def Let_def by (assumption | rule calm_vcg | rule calm_last | (simp add: woken_def; fail))+

lemma calm_create_new [calm_vcg]: "calm s t \<Longrightarrow> calmr st2 s (create_new dp name ty major minor t)"
  unfolding create_new_def Let_def by (assumption | rule calm_vcg | rule calm_last | (simp add: woken_def; fail))+

lemma calm_create [calm_vcg]: "calm s t \<Longrightarrow> calmr st2 s (create path ty major minor t)"
  unfolding create_def Let_def by (assumption | rule calm_vcg | rule calm_last | (simp add: woken_def; fail))+

lemma calm_open_inode [calm_vcg]: "calm s t \<Longrightarrow> calmr st2 s (open_inode path omode t)"
  unfolding open_inode_def Let_def by (assumption | rule calm_vcg | rule calm_last | (simp add: woken_def; fail))+

lemma calm_sys_mkdir [calm_vcg]: "calm s t \<Longrightarrow> calmr st2 s (sys_mkdir t)"
  unfolding sys_mkdir_def Let_def by (assumption | rule calm_vcg | rule calm_last | (simp add: woken_def; fail))+

lemma calm_sys_mknod [calm_vcg]: "calm s t \<Longrightarrow> calmr st2 s (sys_mknod t)"
  unfolding sys_mknod_def Let_def by (assumption | rule calm_vcg | rule calm_last | (simp add: woken_def; fail))+

lemma calm_sys_chdir [calm_vcg]: "calm s t \<Longrightarrow> calmr st2 s (sys_chdir t)"
  unfolding sys_chdir_def Let_def by (assumption | rule calm_vcg | rule calm_last | (simp add: woken_def; fail))+

lemma calm_sys_exec [calm_vcg]: "calm s t \<Longrightarrow> calmr st2 s (sys_exec t)"
  unfolding sys_exec_def Let_def by (assumption | rule calm_vcg | rule calm_last | (simp add: woken_def; fail))+

section \<open>Memory\<close>

lemma calm_growproc [calm_vcg]: "calm s t \<Longrightarrow> calmr st2 s (growproc n t)"
  unfolding growproc_def Let_def by (assumption | rule calm_vcg | rule calm_last | (simp add: woken_def; fail))+

lemma calm_sys_getpid [calm_vcg]: "calm s t \<Longrightarrow> calmr st2 s (sys_getpid t)"
  unfolding sys_getpid_def Let_def by (assumption | rule calm_vcg | rule calm_last | (simp add: woken_def; fail))+

lemma calm_sys_sbrk [calm_vcg]: "calm s t \<Longrightarrow> calmr st2 s (sys_sbrk t)"
  unfolding sys_sbrk_def Let_def by (assumption | rule calm_vcg | rule calm_last | (simp add: woken_def; fail))+

lemma calm_sys_uptime [calm_vcg]: "calm s t \<Longrightarrow> calmr st2 s (sys_uptime t)"
  unfolding sys_uptime_def Let_def by (assumption | rule calm_vcg | rule calm_last | (simp add: woken_def; fail))+

lemma calm_lazy_fill [calm_vcg]: "calm s t \<Longrightarrow> calm s (lazy_fill n addr len flags fd t)"
  unfolding lazy_fill_def Let_def by (assumption | rule calm_vcg | rule calm_last | (simp add: woken_def; fail))+

lemma calm_lazy_alloc [calm_vcg]: "calm s t \<Longrightarrow> calmr st2 s (lazy_alloc t)"
  unfolding lazy_alloc_def Let_def by (assumption | rule calm_vcg | rule calm_last | (simp add: woken_def; fail))+

lemma calm_set_head [calm_vcg]: "calm s t \<Longrightarrow> calmr st1 s (set_head n t)"
  unfolding set_head_def Let_def by (assumption | rule calm_vcg | rule calm_last | (simp add: woken_def; fail))+

lemma calm_set_tail [calm_vcg]: "calm s t \<Longrightarrow> calmr st1 s (set_tail n t)"
  unfolding set_tail_def Let_def by (assumption | rule calm_vcg | rule calm_last | (simp add: woken_def; fail))+

lemma calm_lazy_insert [calm_vcg]: "calm s t \<Longrightarrow> calmr st1 s (lazy_insert temp b addr len flags fd t)"
  unfolding lazy_insert_def Let_def by (assumption | rule calm_vcg | rule calm_last | (simp add: woken_def; fail))+

lemma calm_lazy_append [calm_vcg]: "calm s t \<Longrightarrow> calmr st1 s (lazy_append tail addr len flags fd t)"
  unfolding lazy_append_def Let_def by (assumption | rule calm_vcg | rule calm_last | (simp add: woken_def; fail))+

lemma calm_wmap_at [calm_vcg]: "calm s t \<Longrightarrow> calmr st2 s (wmap_at fuel temp lst addr len flags fd t)"
proof (induction fuel arbitrary: temp lst addr len flags fd t)
  case (Suc fuel)
  note [calm_vcg] = Suc
  show ?case unfolding wmap_at.simps Let_def by (assumption | rule calm_vcg | rule calm_last | (simp add: woken_def; fail))+
qed (simp add: calm_Inl calm_Inr2)

lemma calm_wmap_gap [calm_vcg]: "calm s t \<Longrightarrow> calmr st2 s (wmap_gap fuel temp start len flags fd t)"
proof (induction fuel arbitrary: temp start len flags fd t)
  case (Suc fuel)
  note [calm_vcg] = Suc
  show ?case unfolding wmap_gap.simps Let_def by (assumption | rule calm_vcg | rule calm_last | (simp add: woken_def; fail))+
qed (simp add: calm_Inl calm_Inr2)

lemma calm_wmap_any [calm_vcg]: "calm s t \<Longrightarrow> calmr st2 s (wmap_any tail len flags fd t)"
  unfolding wmap_any_def Let_def by (assumption | rule calm_vcg | rule calm_last | (simp add: woken_def; fail))+

lemma calm_wmap [calm_vcg]: "calm s t \<Longrightarrow> calmr st2 s (wmap addr len flags fd t)"
  unfolding wmap_def Let_def by (assumption | rule calm_vcg | rule calm_last | (simp add: woken_def; fail))+

lemma calm_sys_wmap [calm_vcg]: "calm s t \<Longrightarrow> calmr st2 s (sys_wmap t)"
  unfolding sys_wmap_def Let_def by (assumption | rule calm_vcg | rule calm_last | (simp add: woken_def; fail))+

lemma calm_wunmap_unlink [calm_vcg]: "calm s t \<Longrightarrow> calmr st1 s (wunmap_unlink temp t)"
  unfolding wunmap_unlink_def Let_def by (assumption | rule calm_vcg | rule calm_last | (simp add: woken_def; fail))+

lemma calm_wunmap_pte [calm_vcg]:
  assumes "calm s t" "\<And>buf t. calm s t \<Longrightarrow> calmr st1 s (f buf t)"
  shows "calmr st1 s (wunmap_pte pgdir va f t)"
  using assms unfolding wunmap_pte_def Let_def by (auto split: prod.split intro!: calm_vcg)

lemma calm_wunmap_anon [calm_vcg]: "calm s t \<Longrightarrow> calmr st1 s (wunmap_anon pgdir addr len t)"
  unfolding wunmap_anon_def Let_def by (assumption | rule calm_vcg | rule calm_last | (simp add: woken_def; fail))+

lemma calm_wunmap_file [calm_vcg]: "calm s t \<Longrightarrow> calmr st1 s (wunmap_file pgdir addr len fd t)"
  unfolding wunmap_file_def Let_def by (assumption | rule calm_vcg | rule calm_last | (simp add: woken_def; fail))+

lemma wunmap_swaps_woken:
  "forr is (wunmap_swap addr) (rc, y) = Inr (rc', x) \<Longrightarrow> woken y x"
proof (induction "is" arbitrary: rc y)
  case (Cons i "is")
  then obtain rc1 y1 where y1: "wunmap_swap addr i (rc, y) = Inr (rc1, y1)" "woken y1 x" by (auto simp: bindr_eq_Inr)
  then have "woken y y1" by (auto simp: wunmap_swap_def Let_def woken_def split: if_splits)
  then show ?case using y1(2) by (rule woken_trans)
qed simp

lemma wunmap_info_woken:
  assumes "wunmap_info addr y = Inr x"
  shows "woken y x"
proof -
  obtain rc x1 where "forr [0..<unat (n_upages y)] (wunmap_swap addr) (1, y) = Inr (rc, x1)" "x = x1\<lparr>n_upages := n_upages x1 - (rc + 1)\<rparr>"
    using assms by (auto simp: wunmap_info_def bindr_eq_Inr)
  then show ?thesis using wunmap_swaps_woken [of _ addr 1 y rc x1] by (simp add: woken_def)
qed

lemma calm_wunmap_info [calm_vcg]:
  assumes "calm s t" "\<And>u. calm s u \<Longrightarrow> calmr g s (f u)"
  shows "calmr g s (bindr (wunmap_info addr (ptable t p)) (\<lambda>x. f (upd_proc p (\<lambda>_. x) t)))"
proof (cases "wunmap_info addr (ptable t p)")
  case (Inr x)
  have "calm t (upd_proc p (\<lambda>_. x) t)" using wunmap_info_woken [OF Inr] by (simp add: calm_def upd_proc_def)
  then show ?thesis using assms(2) [OF calm_trans [OF assms(1)]] Inr by simp
qed (simp add: calm_Inl)

lemma calm_wunmap_node [calm_vcg]: "calm s t \<Longrightarrow> calmr st1 s (wunmap_node temp t)"
  unfolding wunmap_node_def Let_def by (assumption | rule calm_vcg | rule calm_last | (simp add: woken_def; fail))+

lemma calm_wunmap_loop [calm_vcg]: "calm s t \<Longrightarrow> calmr st2 s (wunmap_loop fuel temp addr t)"
proof (induction fuel arbitrary: temp addr t)
  case (Suc fuel)
  note [calm_vcg] = Suc
  show ?case unfolding wunmap_loop.simps Let_def by (assumption | rule calm_vcg | rule calm_last | (simp add: woken_def; fail))+
qed (simp add: calm_Inl calm_Inr2)

lemma calm_wunmap [calm_vcg]: "calm s t \<Longrightarrow> calmr st2 s (wunmap addr t)"
  unfolding wunmap_def Let_def by (assumption | rule calm_vcg | rule calm_last | (simp add: woken_def; fail))+

lemma calm_sys_wunmap [calm_vcg]: "calm s t \<Longrightarrow> calmr st2 s (sys_wunmap t)"
  unfolding sys_wunmap_def Let_def by (assumption | rule calm_vcg | rule calm_last | (simp add: woken_def; fail))+

lemma calm_wremap_move [calm_vcg]: "calm s t \<Longrightarrow> calmr st2 s (wremap_move temp start newsize flags t)"
  unfolding wremap_move_def Let_def by (assumption | rule calm_vcg | rule calm_last | (simp add: woken_def; fail))+

lemma calm_set_va_pa [calm_vcg]: "calm s t \<Longrightarrow> calmr st1 s (set_va_pa i a b t)"
  unfolding set_va_pa_def Let_def by (assumption | rule calm_vcg | rule calm_last | (simp add: woken_def; fail))+

lemma calm_wremap_last [calm_vcg]: "calm s t \<Longrightarrow> calmr st2 s (wremap_last temp oldaddr start newsize flags t)"
  unfolding wremap_last_def Let_def by (assumption | rule calm_vcg | rule calm_last | (simp add: woken_def; fail))+

lemma calm_wremap_loop [calm_vcg]: "calm s t \<Longrightarrow> calmr st2 s (wremap_loop fuel temp temp2 oldaddr start newsize flags t)"
proof (induction fuel arbitrary: temp temp2 oldaddr start newsize flags t)
  case (Suc fuel)
  note [calm_vcg] = Suc
  show ?case unfolding wremap_loop.simps Let_def by (assumption | rule calm_vcg | rule calm_last | (simp add: woken_def; fail))+
qed (simp add: calm_Inl calm_Inr2)

lemma calm_wremap_find [calm_vcg]: "calm s t \<Longrightarrow> calmr st2 s (wremap_find fuel temp oldaddr oldsize newsize flags t)"
proof (induction fuel arbitrary: temp oldaddr oldsize newsize flags t)
  case (Suc fuel)
  note [calm_vcg] = Suc
  show ?case unfolding wremap_find.simps Let_def by (assumption | rule calm_vcg | rule calm_last | (simp add: woken_def; fail))+
qed (simp add: calm_Inl calm_Inr2)

lemma calm_case_fun [calm_vcg]: "(\<And>x y z. calmr g s (f x y z t)) \<Longrightarrow> calmr g s ((case i of (x, y, z) \<Rightarrow> f x y z) t)"
  by (cases i) simp

lemma calm_wremap [calm_vcg]: "calm s t \<Longrightarrow> calmr st2 s (wremap oldaddr oldsize newsize flags t)"
  unfolding wremap_def Let_def by (assumption | rule calm_vcg | rule calm_last | (simp add: woken_def; fail))+

lemma calm_sys_wremap [calm_vcg]: "calm s t \<Longrightarrow> calmr st2 s (sys_wremap t)"
  unfolding sys_wremap_def Let_def by (assumption | rule calm_vcg | rule calm_last | (simp add: woken_def; fail))+

lemma calm_getpgdirinfo [calm_vcg]: "calm s t \<Longrightarrow> calmr st2 s (getpgdirinfo a t)"
  unfolding getpgdirinfo_def Let_def by (assumption | rule calm_vcg | rule calm_last | (simp add: woken_def; fail))+

lemma calm_sys_getpgdirinfo [calm_vcg]: "calm s t \<Longrightarrow> calmr st2 s (sys_getpgdirinfo t)"
  unfolding sys_getpgdirinfo_def Let_def by (assumption | rule calm_vcg | rule calm_last | (simp add: woken_def; fail))+

lemma calm_wmapinfo_loop [calm_vcg]: "calm s t \<Longrightarrow> calmr st1 s (wmapinfo_loop fuel temp c wminfo t)"
proof (induction fuel arbitrary: temp c wminfo t)
  case (Suc fuel)
  note [calm_vcg] = Suc
  show ?case unfolding wmapinfo_loop.simps Let_def by (assumption | rule calm_vcg | rule calm_last | (simp add: woken_def; fail))+
qed (simp add: calm_Inl calm_Inr1)

lemma calm_getwmapinfo [calm_vcg]: "calm s t \<Longrightarrow> calmr st2 s (getwmapinfo a t)"
  unfolding getwmapinfo_def Let_def by (assumption | rule calm_vcg | rule calm_last | (simp add: woken_def; fail))+

lemma calm_sys_getwmapinfo [calm_vcg]: "calm s t \<Longrightarrow> calmr st2 s (sys_getwmapinfo t)"
  unfolding sys_getwmapinfo_def Let_def by (assumption | rule calm_vcg | rule calm_last | (simp add: woken_def; fail))+

section \<open>Page faults\<close>

lemma calm_make_writable [calm_vcg]: "calm s t \<Longrightarrow> calmr st1 s (make_writable pgdir fault temp t)"
  unfolding make_writable_def Let_def by (assumption | rule calm_vcg | rule calm_last | (simp add: woken_def; fail))+

lemma calm_pgfault_protect [calm_vcg]: "calm s t \<Longrightarrow> calmr st1 s (pgfault_protect fuel pgdir fault temp t)"
proof (induction fuel arbitrary: pgdir fault temp t)
  case (Suc fuel)
  note [calm_vcg] = Suc
  show ?case unfolding pgfault_protect.simps Let_def by (assumption | rule calm_vcg | rule calm_last | (simp add: woken_def; fail))+
qed (simp add: calm_Inl calm_Inr1)

lemma calm_record_page [calm_vcg]: "calm s t \<Longrightarrow> calmr st1 s (record_page p addr pa t)"
  unfolding record_page_def Let_def by (assumption | rule calm_vcg | rule calm_last | (simp add: woken_def; fail))+

lemma calm_map_user_page [calm_vcg]: "calm s t \<Longrightarrow> calmr st1 s (map_user_page pgdir fault m t)"
  unfolding map_user_page_def Let_def by (assumption | rule calm_vcg | rule calm_last | (simp add: woken_def; fail))+

lemma calm_fill_page [calm_vcg]: "calm s t \<Longrightarrow> calmr st1 s (fill_page p fault temp t)"
  unfolding fill_page_def Let_def by (assumption | rule calm_vcg | rule calm_last | (simp add: woken_def; fail))+

lemma calm_pgfault_miss [calm_vcg]: "calm s t \<Longrightarrow> calmr st2 s (pgfault_miss fuel p fault temp t)"
proof (induction fuel arbitrary: p fault temp t)
  case (Suc fuel)
  note [calm_vcg] = Suc
  show ?case unfolding pgfault_miss.simps Let_def by (assumption | rule calm_vcg | rule calm_last | (simp add: woken_def; fail))+
qed (simp add: calm_Inl calm_Inr2)

lemma calm_trap_unexpected [calm_vcg]: "calm s t \<Longrightarrow> calmr st1 s (trap_unexpected cpu tf cr2 t)"
  unfolding trap_unexpected_def Let_def by (assumption | rule calm_vcg | rule calm_last | (simp add: woken_def; fail))+

end
