(* ===== verification/Tables.thy ===== *)
theory Tables
  imports Calm_Calls
begin

text \<open>
  The invariant of the process table and of the open file table. \<open>procs_ok\<close>: the process that runs is
  the only one in state \<^verbatim>\<open>RUNNING\<close>; process ids are distinct; every process but the first has a live
  parent; and nobody waits in \<^verbatim>\<open>wait\<close> without a child, or with a child to reap. \<open>files_ok\<close>: the reference
  count of each open file is the number of descriptors that refer to it.
\<close>

section \<open>The process table\<close>

definition live :: "proc \<Rightarrow> bool" where
  "live x \<longleftrightarrow> p_state x \<noteq> UNUSED \<and> p_state x \<noteq> EMBRYO \<and> p_state x \<noteq> ZOMBIE"

definition running_ok :: "nat option \<Rightarrow> (nat \<Rightarrow> proc) \<Rightarrow> bool" where
  "running_ok c pt \<longleftrightarrow> (\<forall>p. c = Some p \<longrightarrow> p < NPROC \<and> p_state (pt p) = RUNNING) \<and>
     (\<forall>p<NPROC. p_state (pt p) = RUNNING \<longrightarrow> c = Some p)"

definition pids_ok :: "int \<Rightarrow> (nat \<Rightarrow> proc) \<Rightarrow> bool" where
  "pids_ok n pt \<longleftrightarrow> 1 \<le> n \<and> (\<forall>p<NPROC. p_state (pt p) \<noteq> UNUSED \<longrightarrow> 0 < p_pid (pt p) \<and> p_pid (pt p) < n) \<and>
     (\<forall>p<NPROC. \<forall>q<NPROC. p \<noteq> q \<longrightarrow> p_state (pt p) \<noteq> UNUSED \<longrightarrow> p_state (pt q) \<noteq> UNUSED \<longrightarrow> p_pid (pt p) \<noteq> p_pid (pt q))"

definition parents_ok :: "nat \<Rightarrow> (nat \<Rightarrow> proc) \<Rightarrow> bool" where
  "parents_ok init pt \<longleftrightarrow> init < NPROC \<and> live (pt init) \<and> p_parent (pt init) = None \<and>
     (\<forall>p<NPROC. p_state (pt p) \<noteq> EMBRYO) \<and>
     (\<forall>p<NPROC. p_state (pt p) = UNUSED \<longrightarrow> p_parent (pt p) = None) \<and>
     (\<forall>p<NPROC. p_state (pt p) \<noteq> UNUSED \<longrightarrow> p \<noteq> init \<longrightarrow> (\<exists>q<NPROC. p_parent (pt p) = Some q \<and> q \<noteq> p \<and> live (pt q)))"

definition waits :: "(nat \<Rightarrow> proc) \<Rightarrow> nat \<Rightarrow> bool" where
  "waits pt q \<longleftrightarrow> p_state (pt q) = SLEEPING \<and> p_chan (pt q) = Some (ChProc q)"

definition waiters_ok :: "(nat \<Rightarrow> proc) \<Rightarrow> bool" where
  "waiters_ok pt \<longleftrightarrow> (\<forall>q<NPROC. waits pt q \<longrightarrow> (\<exists>p<NPROC. p_parent (pt p) = Some q) \<and>
     (\<forall>p<NPROC. p_parent (pt p) = Some q \<longrightarrow> p_state (pt p) \<noteq> ZOMBIE))"

definition procs_ok :: "'a kst_scheme \<Rightarrow> bool" where
  "procs_ok s \<longleftrightarrow> running_ok (cur s) (ptable s) \<and> pids_ok (nextpid s) (ptable s) \<and>
     parents_ok (initproc s) (ptable s) \<and> waiters_ok (ptable s)"

text \<open>Changes that concern only open files, or wake processes.\<close>

definition quiet :: "'a kst_scheme \<Rightarrow> 'a kst_scheme \<Rightarrow> bool" where
  "quiet s t \<longleftrightarrow> cur t = cur s \<and> nextpid t = nextpid s \<and> initproc t = initproc s \<and>
     (\<forall>p. woken ((ptable s p)\<lparr>p_ofile := Map.empty\<rparr>) ((ptable t p)\<lparr>p_ofile := Map.empty\<rparr>))"

lemma quietD:
  assumes "quiet s t"
  shows "cur t = cur s" "nextpid t = nextpid s" "initproc t = initproc s"
    "p_parent (ptable t p) = p_parent (ptable s p)" "p_pid (ptable t p) = p_pid (ptable s p)"
    "p_chan (ptable t p) = p_chan (ptable s p)"
    "p_state (ptable t p) = p_state (ptable s p) \<or> p_state (ptable s p) = SLEEPING \<and> p_state (ptable t p) = RUNNABLE"
  using assms by (simp_all add: quiet_def woken_def)

lemma calm_quiet: "calm s t \<Longrightarrow> quiet s t"
  by (simp add: calm_def quiet_def woken_def)

lemma quiet_trans: "quiet s t \<Longrightarrow> quiet t u \<Longrightarrow> quiet s u"
  unfolding quiet_def by (auto intro: woken_trans)

lemma quiet_refl [simp]: "quiet s s"
  by (simp add: quiet_def)

lemma quiet_state:
  assumes "quiet s t"
  shows "p_state (ptable t p) = UNUSED \<longleftrightarrow> p_state (ptable s p) = UNUSED"
    "p_state (ptable t p) = ZOMBIE \<longleftrightarrow> p_state (ptable s p) = ZOMBIE"
    "p_state (ptable t p) = EMBRYO \<longleftrightarrow> p_state (ptable s p) = EMBRYO"
    "p_state (ptable t p) = RUNNING \<longleftrightarrow> p_state (ptable s p) = RUNNING"
    "live (ptable t p) \<longleftrightarrow> live (ptable s p)" "waits (ptable t) p \<Longrightarrow> waits (ptable s) p"
  using quietD(6,7) [OF assms, of p] by (auto simp: live_def waits_def)

lemma quiet_procs:
  assumes "quiet s t" "procs_ok s"
  shows "procs_ok t"
proof -
  note q = quietD(1-5) [OF assms(1)] quiet_state(1-5) [OF assms(1)]
  have "running_ok (cur t) (ptable t) = running_ok (cur s) (ptable s)" unfolding running_ok_def q by (rule refl)
  moreover have "pids_ok (nextpid t) (ptable t) = pids_ok (nextpid s) (ptable s)" unfolding pids_ok_def q by (rule refl)
  moreover have "parents_ok (initproc t) (ptable t) = parents_ok (initproc s) (ptable s)"
    unfolding parents_ok_def q by (rule refl)
  moreover have "waiters_ok (ptable t)" unfolding waiters_ok_def q
  proof (intro allI impI)
    fix p
    assume "p < NPROC" "waits (ptable t) p"
    then show "(\<exists>pa<NPROC. p_parent (ptable s pa) = Some p) \<and>
        (\<forall>pa<NPROC. p_parent (ptable s pa) = Some p \<longrightarrow> p_state (ptable s pa) \<noteq> ZOMBIE)"
      using assms(2) quiet_state(2,6) [OF assms(1)] unfolding procs_ok_def waiters_ok_def by metis
  qed
  ultimately show ?thesis using assms(2) by (simp add: procs_ok_def)
qed

lemma calm_procs: "calm s t \<Longrightarrow> procs_ok s \<Longrightarrow> procs_ok t"
  by (rule quiet_procs [OF calm_quiet])

section \<open>The file table\<close>

definition refs :: "(nat \<Rightarrow> proc) \<Rightarrow> nat \<Rightarrow> (nat \<times> nat) set" where
  "refs pt f = {(p, fd). p < NPROC \<and> fd < NOFILE \<and> p_ofile (pt p) fd = Some f}"

text \<open>
  \<open>e f\<close> counts the references to \<open>f\<close> that the running call holds, less those already in a descriptor
  and not yet counted.
\<close>

definition files_ok :: "(nat \<Rightarrow> int) \<Rightarrow> 'a kst_scheme \<Rightarrow> bool" where
  "files_ok e s \<longleftrightarrow> (\<forall>f. f_ref (ftable s f) = int (card (refs (ptable s) f)) + e f) \<and>
     (\<forall>p<NPROC. p_state (ptable s p) = UNUSED \<or> p_state (ptable s p) = ZOMBIE \<longrightarrow> (\<forall>fd<NOFILE. p_ofile (ptable s p) fd = None))"

abbreviation no_refs :: "nat \<Rightarrow> int" where "no_refs \<equiv> (\<lambda>_. 0)"

lemma finite_refs [simp]: "finite (refs pt f)"
proof -
  have "refs pt f \<subseteq> {..<NPROC} \<times> {..<NOFILE}" by (auto simp: refs_def)
  then show ?thesis by (rule finite_subset) simp
qed

lemma refs_cong: "(\<And>p. p < NPROC \<Longrightarrow> p_ofile (pt' p) = p_ofile (pt p)) \<Longrightarrow> refs pt' f = refs pt f"
  by (auto simp: refs_def)

lemma calm_files:
  assumes "calm s t" "files_ok e s"
  shows "files_ok e t"
proof -
  have w: "woken (ptable s p) (ptable t p)" for p using assms(1) by (simp add: calm_def)
  then have o: "p_ofile (ptable t p) = p_ofile (ptable s p)" for p by (simp add: woken_def)
  have "refs (ptable t) f = refs (ptable s) f" for f by (rule refs_cong) (rule o)
  then show ?thesis using assms quiet_state(1,2) [OF calm_quiet [OF assms(1)]] unfolding files_ok_def o by (simp add: calm_def)
qed

lemma card_refs_set:
  fixes pt :: "nat \<Rightarrow> proc"
  assumes "p < NPROC" "fd < NOFILE"
  defines "old \<equiv> p_ofile (pt p) fd"
  shows "int (card (refs (pt(p := (pt p)\<lparr>p_ofile := (p_ofile (pt p))(fd := v)\<rparr>)) f)) =
    int (card (refs pt f)) - (if old = Some f then 1 else 0) + (if v = Some f then 1 else 0)"
proof -
  let ?R = "refs pt f" and ?pt = "pt(p := (pt p)\<lparr>p_ofile := (p_ofile (pt p))(fd := v)\<rparr>)"
  have r: "refs ?pt f = (if v = Some f then insert (p, fd) (?R - {(p, fd)}) else ?R - {(p, fd)})"
    using assms(1,2) by (auto simp: refs_def split: if_splits)
  have m: "(p, fd) \<in> ?R \<longleftrightarrow> old = Some f" using assms by (simp add: refs_def)
  have pos: "old = Some f \<Longrightarrow> 1 \<le> card ?R" using m by (metis card_0_eq empty_iff finite_refs less_one not_le)
  have d: "card (?R - {(p, fd)}) = card ?R - (if old = Some f then 1 else 0)" using m by (simp add: card_Diff_singleton_if)
  have c: "card (insert (p, fd) (?R - {(p, fd)})) = Suc (card (?R - {(p, fd)}))"
    by (rule card_insert_disjoint) simp_all
  show ?thesis
  proof (cases "v = Some f")
    case True
    have "card (refs ?pt f) = Suc (card (?R - {(p, fd)}))" unfolding trans [OF r if_P [OF True]] by (rule c)
    then have "int (card (refs ?pt f)) = int (card ?R) - (if old = Some f then 1 else 0) + 1"
      unfolding d using pos by (cases "old = Some f") auto
    then show ?thesis using True by simp
  next
    case False
    have "card (refs ?pt f) = card (?R - {(p, fd)})" unfolding trans [OF r if_not_P [OF False]] by (rule refl)
    then have "int (card (refs ?pt f)) = int (card ?R) - (if old = Some f then 1 else 0)"
      unfolding d using pos by (cases "old = Some f") auto
    then show ?thesis using False by simp
  qed
qed

lemma files_set:
  assumes "files_ok e s" "p < NPROC" "fd < NOFILE" "v = None \<or> p_state (ptable s p) \<noteq> UNUSED \<and> p_state (ptable s p) \<noteq> ZOMBIE"
  shows "files_ok (\<lambda>f. e f + (if p_ofile (ptable s p) fd = Some f then 1 else 0) - (if v = Some f then 1 else 0))
    (upd_proc p (\<lambda>x. x\<lparr>p_ofile := (p_ofile x)(fd := v)\<rparr>) s)"
proof -
  let ?t = "upd_proc p (\<lambda>x. x\<lparr>p_ofile := (p_ofile x)(fd := v)\<rparr>) s"
  have pt: "ptable ?t = (ptable s)(p := (ptable s p)\<lparr>p_ofile := (p_ofile (ptable s p))(fd := v)\<rparr>)" "ftable ?t = ftable s"
    by (simp_all add: upd_proc_def)
  have "f_ref (ftable s f) = int (card (refs (ptable s) f)) + e f" for f using assms(1) by (simp add: files_ok_def)
  then show ?thesis unfolding files_ok_def pt card_refs_set [OF assms(2,3)]
    using assms(1,4) by (simp add: files_ok_def) blast
qed

definition ref_inc :: "nat \<Rightarrow> int \<Rightarrow> 'a kst_scheme \<Rightarrow> 'a kst_scheme" where
  "ref_inc f d s = upd_file f (\<lambda>x. x\<lparr>f_ref := f_ref x + d\<rparr>) s"

lemma files_ref_inc: "files_ok e s \<Longrightarrow> files_ok (e(f := e f + d)) (ref_inc f d s)"
  by (auto simp: files_ok_def ref_inc_def upd_file_def)

lemma procs_ref_inc [simp]: "procs_ok (ref_inc f d s) = procs_ok s"
  "ptable (ref_inc f d s) = ptable s" "cur (ref_inc f d s) = cur s"
  "nextpid (ref_inc f d s) = nextpid s" "initproc (ref_inc f d s) = initproc s"
  by (simp_all add: procs_ok_def ref_inc_def upd_file_def)

section \<open>Both tables\<close>

definition tables_ok :: "(nat \<Rightarrow> int) \<Rightarrow> 'a kst_scheme \<Rightarrow> bool" where
  "tables_ok e s \<longleftrightarrow> procs_ok s \<and> files_ok e s"

lemma tables_calm: "calm s t \<Longrightarrow> tables_ok e s \<Longrightarrow> tables_ok e t"
  using calm_procs calm_files unfolding tables_ok_def by blast

lemma tables_calm1: "op s = Inr t \<Longrightarrow> calmr st1 s (op s) \<Longrightarrow> tables_ok e s \<Longrightarrow> tables_ok e t"
  by (auto simp: calmr_def intro: tables_calm)

lemma tables_calm2: "op s = Inr (r, t) \<Longrightarrow> calmr st2 s (op s) \<Longrightarrow> tables_ok e s \<Longrightarrow> tables_ok e t"
  by (auto simp: calmr_def intro: tables_calm)

lemma calm_cur: "calm s t \<Longrightarrow> cur t = cur s"
  and calm_ofile: "calm s t \<Longrightarrow> p_ofile (ptable t p) = p_ofile (ptable s p)"
  and calm_initproc: "calm s t \<Longrightarrow> initproc t = initproc s"
  by (simp_all add: calm_def woken_def)

lemma tables_ref_inc: "tables_ok e s \<Longrightarrow> tables_ok (e(f := e f + d)) (ref_inc f d s)"
  by (simp add: tables_ok_def files_ref_inc)

lemma tables_running:
  assumes "tables_ok e s" "cur s = Some p"
  shows "p < NPROC" "p_state (ptable s p) = RUNNING"
  using assms by (simp_all add: tables_ok_def procs_ok_def running_ok_def)

lemma quiet_set_ofile: "quiet s (upd_proc p (\<lambda>x. x\<lparr>p_ofile := g x\<rparr>) s)"
  by (simp add: quiet_def upd_proc_def woken_def)

lemma tables_set_ofile:
  assumes "tables_ok e s" "cur s = Some p" "fd < NOFILE"
  shows "tables_ok (\<lambda>f. e f + (if p_ofile (ptable s p) fd = Some f then 1 else 0) - (if v = Some f then 1 else 0))
    (upd_proc p (\<lambda>x. x\<lparr>p_ofile := (p_ofile x)(fd := v)\<rparr>) s)"
  using assms(1) tables_running [OF assms(1,2)] files_set [OF _ _ assms(3), of e s p v]
    quiet_procs [OF quiet_set_ofile [of s p "\<lambda>x. (p_ofile x)(fd := v)"]]
  by (simp add: tables_ok_def)

section \<open>Operations on open files\<close>

lemma filedup_eq: "filedup f s = Inr (g, t) \<Longrightarrow> g = f \<and> t = ref_inc f 1 s"
  by (auto simp: filedup_def ref_inc_def split: if_splits)

lemma filealloc_eq:
  "filealloc s = (r, t) \<Longrightarrow> case r of None \<Rightarrow> t = s | Some f \<Rightarrow> t = ref_inc f 1 s"
proof -
  have "filealloc_loop fs s = (r, t) \<Longrightarrow> case r of None \<Rightarrow> t = s | Some f \<Rightarrow> t = ref_inc f 1 s" for fs
    by (induction fs) (auto simp: ref_inc_def upd_file_def split: if_splits)
  then show "filealloc s = (r, t) \<Longrightarrow> ?thesis" by (simp add: filealloc_def)
qed

lemma fileclose_calm:
  assumes "fileclose f s = Inr t"
  shows "calm (ref_inc f (-1) s) t"
proof -
  let ?s1 = "upd_file f (\<lambda>x. x\<lparr>f_ref := f_ref x - 1\<rparr>) s"
  have s1: "?s1 = ref_inc f (-1) s" by (simp add: ref_inc_def)
  have ref: "\<not> f_ref (ftable s f) < 1" using assms by (auto simp: fileclose_def)
  show ?thesis
  proof (cases "f_ref (ftable ?s1 f) > 0")
    case True
    then show ?thesis using assms ref s1 by (simp add: fileclose_def Let_def)
  next
    case False
    let ?ff = "ftable ?s1 f" and ?s2 = "upd_file f (\<lambda>x. x\<lparr>f_ref := 0, f_type := FD_NONE\<rparr>) ?s1"
    have c2: "calm ?s1 ?s2" using False ref by (auto simp: calm_def upd_file_def)
    have "calmr st1 ?s1 (case f_type ?ff of FD_NONE \<Rightarrow> Inr ?s2 | FD_PIPE \<Rightarrow> close_pipe (f_pipe ?ff) (f_writable ?ff) ?s2
        | FD_INODE \<Rightarrow> bindr (begin_op ?s2) (\<lambda>s. bindr (iput (f_ip ?ff) s) end_op))"
      by (rule calm_vcg c2 | assumption)+
    moreover have "fileclose f s = (case f_type ?ff of FD_NONE \<Rightarrow> Inr ?s2 | FD_PIPE \<Rightarrow> close_pipe (f_pipe ?ff) (f_writable ?ff) ?s2
        | FD_INODE \<Rightarrow> bindr (begin_op ?s2) (\<lambda>s. bindr (iput (f_ip ?ff) s) end_op))"
      using ref False by (simp add: fileclose_def Let_def)
    ultimately show ?thesis using calmr_D1 assms s1 by metis
  qed
qed

lemma tables_fileclose:
  assumes "fileclose f s = Inr t" "tables_ok e s"
  shows "tables_ok (e(f := e f - 1)) t" "cur t = cur s" "initproc t = initproc s" "p_ofile (ptable t p) = p_ofile (ptable s p)"
  using tables_calm [OF fileclose_calm [OF assms(1)] tables_ref_inc [OF assms(2)]] fileclose_calm [OF assms(1)]
  by (simp_all add: calm_cur calm_ofile calm_initproc)

lemma set_ofile_eq: "set_ofile fd v s = Inr t \<Longrightarrow> \<exists>p. cur s = Some p \<and> t = upd_proc p (\<lambda>x. x\<lparr>p_ofile := (p_ofile x)(fd := v)\<rparr>) s"
  by (auto simp: set_ofile_def myproc_def bindr_eq_Inr split: option.splits)

lemma fdalloc_loop_eq: "fdalloc_loop fds ofile = Some fd \<Longrightarrow> fd \<in> set fds \<and> ofile fd = None"
  by (induction fds) (auto split: if_splits)

lemma tables_fdalloc:
  assumes "fdalloc f s = Inr (r, t)" "tables_ok e s"
  shows "case r of None \<Rightarrow> t = s
    | Some fd \<Rightarrow> fd < NOFILE \<and> cur t = cur s \<and> (\<forall>p. cur s = Some p \<longrightarrow> p_ofile (ptable t p) fd = Some f) \<and> tables_ok (e(f := e f - 1)) t"
proof -
  obtain p where p: "cur s = Some p" using assms(1) by (auto simp: fdalloc_def myproc_def bindr_eq_Inr split: option.splits)
  show ?thesis
  proof (cases "fdalloc_loop [0..<NOFILE] (p_ofile (ptable s p))")
    case None
    then show ?thesis using assms(1) p by (simp add: fdalloc_def myproc_def)
  next
    case (Some fd)
    let ?t = "upd_proc p (\<lambda>x. x\<lparr>p_ofile := (p_ofile x)(fd := Some f)\<rparr>) s"
    have fd: "fd < NOFILE" "p_ofile (ptable s p) fd = None" using fdalloc_loop_eq [OF Some] by auto
    have r: "r = Some fd" "t = ?t" using assms(1) p Some by (auto simp: fdalloc_def myproc_def set_ofile_def)
    have "(\<lambda>g. e g + (if p_ofile (ptable s p) fd = Some g then 1 else 0) - (if Some f = Some g then 1 else 0)) = e(f := e f - 1)"
      using fd(2) by auto
    then have "tables_ok (e(f := e f - 1)) ?t" using tables_set_ofile [OF assms(2) p fd(1), of "Some f"] by simp
    then show ?thesis using fd(1) p unfolding r by (simp add: upd_proc_def)
  qed
qed

end
