(* ===== verification/Tables_Files.thy ===== *)
theory Tables_Files
  imports Tables
begin

text \<open>
  The calls on file descriptors keep the tables consistent: \<^verbatim>\<open>dup\<close>, \<^verbatim>\<open>close\<close>, \<^verbatim>\<open>open\<close> and \<^verbatim>\<open>pipe\<close>. In between, a call
  may hold references that no descriptor has yet, or has counted too few.
\<close>

lemma with_arg_Inr:
  assumes "with_arg r f s = Inr (v, t)"
  obtains "r = Inr None" "v = -1" "t = s" | x where "r = Inr (Some x)" "f x = Inr (v, t)"
proof -
  obtain x where "r = Inr x" "(case x of None \<Rightarrow> Inr (-1, s) | Some y \<Rightarrow> f y) = Inr (v, t)"
    using assms by (auto simp: with_arg_def bindr_eq_Inr)
  then show ?thesis using that by (cases x) auto
qed

lemma sint_nonneg:
  fixes x :: u32
  assumes "0 \<le> sint x"
  shows "sint x = int (unat x)"
proof -
  have "sint x < 2 ^ 31" using sint_lt [of x] by simp
  then have "take_bit 32 (sint x) = sint x" using assms by (intro take_bit_int_eq_self) simp_all
  then show ?thesis using uint_sint [of x] by simp
qed

lemma argfd_Some:
  assumes "argfd n s = Inr (Some (fd, f))"
  shows "\<exists>p. cur s = Some p \<and> fd < NOFILE \<and> p_ofile (ptable s p) fd = Some f"
proof -
  obtain p r where p: "cur s = Some p" "argint n s = Inr (Some r)" "\<not> (sint r < 0 \<or> sint r \<ge> int NOFILE)" "fd = unat r"
      "p_ofile (ptable s p) fd = Some f"
    using assms by (auto simp: argfd_def myproc_def bindr_eq_Inr split: option.splits if_splits)
  then have "sint r = int (unat r)" by (intro sint_nonneg) simp
  then have "int (unat r) < int NOFILE" using p(3) by linarith
  then show ?thesis using p by (simp only: of_nat_less_iff) blast
qed

lemma tables_sys_dup:
  assumes "sys_dup s = Inr (v, t)" "tables_ok no_refs s"
  shows "tables_ok no_refs t"
  using assms(1) unfolding sys_dup_def
proof (cases rule: with_arg_Inr)
  case (2 x)
  obtain fd0 f where x: "x = (fd0, f)" by fastforce
  obtain r u where u: "fdalloc f s = Inr (r, u)"
    and k: "(case r of None \<Rightarrow> Inr (-1, u) | Some fd \<Rightarrow> bindr (filedup f u) (\<lambda>(_, s). Inr (int fd, s))) = Inr (v, t)"
    using 2 by (auto simp: x bindr_eq_Inr)
  note a = tables_fdalloc [OF u assms(2)]
  show ?thesis
  proof (cases r)
    case None
    then show ?thesis using a k assms(2) by simp
  next
    case (Some fd)
    then have "t = ref_inc f 1 u" using k filedup_eq by (auto simp: bindr_eq_Inr)
    moreover have "tables_ok (no_refs(f := - 1)) u" using a Some by simp
    ultimately show ?thesis using tables_ref_inc [of "no_refs(f := - 1)" u f 1] by (simp add: fun_upd_idem)
  qed
qed (use assms(2) in simp)

lemma tables_sys_close:
  assumes "sys_close s = Inr (v, t)" "tables_ok no_refs s"
  shows "tables_ok no_refs t"
  using assms(1) unfolding sys_close_def
proof (cases rule: with_arg_Inr)
  case (2 x)
  obtain fd f where x: "x = (fd, f)" by fastforce
  obtain p where p: "cur s = Some p" "fd < NOFILE" "p_ofile (ptable s p) fd = Some f" using argfd_Some 2(1) x by blast
  let ?u = "upd_proc p (\<lambda>x. x\<lparr>p_ofile := (p_ofile x)(fd := None)\<rparr>) s"
  have "fileclose f ?u = Inr t" using 2(2) p by (auto simp: x bindr_eq_Inr dest!: set_ofile_eq)
  moreover have "(\<lambda>g. no_refs g + (if p_ofile (ptable s p) fd = Some g then 1 else 0) - (if None = Some g then 1 else 0)) = no_refs(f := 1)"
    using p(3) by auto
  then have "tables_ok (no_refs(f := 1)) ?u" using tables_set_ofile [OF assms(2) p(1,2), of None] by simp
  ultimately show ?thesis using tables_fileclose(1) [of f ?u t "no_refs(f := 1)"] by (simp add: fun_upd_idem)
qed (use assms(2) in simp)

lemma tables_close_opt:
  assumes "close_opt fo s = Inr t" "tables_ok (case fo of None \<Rightarrow> e | Some f \<Rightarrow> e(f := e f + 1)) s"
  shows "tables_ok e t" "cur t = cur s"
proof -
  show "tables_ok e t"
  proof (cases fo)
    case (Some f)
    then show ?thesis using assms tables_fileclose(1) [of f s t "e(f := e f + 1)"] by (simp add: close_opt_def fun_upd_idem)
  qed (use assms in \<open>simp add: close_opt_def\<close>)
  show "cur t = cur s" using assms tables_fileclose(2) [of _ s t] by (auto simp: close_opt_def split: option.splits)
qed

lemma tables_filealloc:
  assumes "filealloc s = (fo, t)" "tables_ok e s"
  shows "tables_ok (case fo of None \<Rightarrow> e | Some f \<Rightarrow> e(f := e f + 1)) t" "cur t = cur s"
  using filealloc_eq [OF assms(1)] assms(2) by (auto simp: tables_ref_inc split: option.splits)

lemma tables_sys_open:
  assumes "sys_open s = Inr (v, t)" "tables_ok no_refs s"
  shows "tables_ok no_refs t"
  using assms(1) unfolding sys_open_def
proof (cases rule: with_arg_Inr)
  case (2 path)
  from 2(2) show ?thesis
  proof (cases rule: with_arg_Inr)
    case (2 omode)
    have c: "calmr st2 s (bindr (begin_op s) (open_inode path omode))" by (rule calm_vcg calm_refl | assumption)+
    obtain r s1 where s1: "bindr (begin_op s) (open_inode path omode) = Inr (r, s1)"
      and k1: "(case r of None \<Rightarrow> Inr (-1, s1) | Some ip \<Rightarrow> case filealloc s1 of (fo, s) \<Rightarrow>
           bindr (case fo of None \<Rightarrow> Inr (None, s) | Some f \<Rightarrow> fdalloc f s) (\<lambda>(fdo, s). case (fo, fdo) of
             (Some f, Some fd) \<Rightarrow> bindr (iunlock ip s) (\<lambda>s. bindr (end_op s) (\<lambda>s. Inr (int fd, upd_file f (open_file ip omode) s)))
           | _ \<Rightarrow> bindr (close_opt fo s) (\<lambda>s. bindr (iunlockput ip s) op_fail))) = Inr (v, t)"
      using 2(2) by (auto simp: bindr_eq_Inr)
    have t1: "tables_ok no_refs s1" using tables_calm [OF calmr_D2 [OF c s1] assms(2)] .
    show ?thesis
    proof (cases r)
      case None
      then show ?thesis using k1 t1 by simp
    next
      case (Some ip)
      obtain fo s2 where s2: "filealloc s1 = (fo, s2)" by fastforce
      note t2 = tables_filealloc [OF s2 t1]
      obtain fdo s3 where s3: "(case fo of None \<Rightarrow> Inr (None, s2) | Some f \<Rightarrow> fdalloc f s2) = Inr (fdo, s3)"
        and k3: "(case (fo, fdo) of
             (Some f, Some fd) \<Rightarrow> bindr (iunlock ip s3) (\<lambda>s. bindr (end_op s) (\<lambda>s. Inr (int fd, upd_file f (open_file ip omode) s)))
           | _ \<Rightarrow> bindr (close_opt fo s3) (\<lambda>s. bindr (iunlockput ip s) op_fail)) = Inr (v, t)"
        using k1 Some s2 by (auto simp: bindr_eq_Inr)
      show ?thesis
      proof (cases "\<exists>f fd. fo = Some f \<and> fdo = Some fd")
        case True
        then obtain f fd where f: "fo = Some f" "fdo = Some fd" by blast
        have "tables_ok no_refs s3" using tables_fdalloc [of f s2 fdo s3 "no_refs(f := 1)"] s3 t2(1) f by (simp add: fun_upd_idem)
        moreover have "calmr st2 s3 (bindr (iunlock ip s3) (\<lambda>s. bindr (end_op s) (\<lambda>s. Inr (int fd, upd_file f (open_file ip omode) s))))"
          by (rule calm_vcg calm_refl | assumption | (simp add: open_file_def; fail))+
        ultimately show ?thesis using k3 f tables_calm calmr_D2 by fastforce
      next
        case False
        have t3: "tables_ok (case fo of None \<Rightarrow> no_refs | Some f \<Rightarrow> no_refs(f := no_refs f + 1)) s3"
          using s3 t2(1) tables_fdalloc [of _ s2 None s3] False by (cases fo; cases fdo) auto
        have k: "bindr (close_opt fo s3) (\<lambda>s. bindr (iunlockput ip s) op_fail) = Inr (v, t)"
          using k3 False by (cases fo; cases fdo) auto
        then obtain s4 where s4: "close_opt fo s3 = Inr s4" "bindr (iunlockput ip s4) op_fail = Inr (v, t)"
          by (auto simp: bindr_eq_Inr)
        have "calmr st2 s4 (bindr (iunlockput ip s4) op_fail)" by (rule calm_vcg calm_refl | assumption)+
        then show ?thesis using tables_calm [OF calmr_D2 [OF _ s4(2)]] tables_close_opt(1) [OF s4(1) t3] by blast
      qed
    qed
  qed (use assms(2) in simp)
qed (use assms(2) in simp)

lemma tables_pipealloc:
  assumes "pipealloc s = Inr (r, t)" "tables_ok no_refs s"
  shows "tables_ok (case r of None \<Rightarrow> no_refs | Some (a, b) \<Rightarrow> (no_refs(a := 1))(b := (no_refs(a := 1)) b + 1)) t" "cur t = cur s"
proof -
  obtain f0 s0 where s0: "filealloc s = (f0, s0)" by fastforce
  define f1 s1 where "f1 = fst (if f0 = None then (None, s0) else filealloc s0)"
    and "s1 = snd (if f0 = None then (None, s0) else filealloc s0)"
  then have s1: "(if f0 = None then (None, s0) else filealloc s0) = (f1, s1)" by simp
  define p s2 where "p = fst (if f1 = None then (0, s1) else kalloc_s s1)"
    and "s2 = snd (if f1 = None then (0, s1) else kalloc_s s1)"
  then have s2: "(if f1 = None then (0, s1) else kalloc_s s1) = (p, s2)" by simp
  let ?e0 = "case f0 of None \<Rightarrow> no_refs | Some a \<Rightarrow> no_refs(a := 1)"
  let ?e1 = "case f1 of None \<Rightarrow> ?e0 | Some b \<Rightarrow> ?e0(b := ?e0 b + 1)"
  have t0: "tables_ok ?e0 s0" "cur s0 = cur s" using tables_filealloc [OF s0 assms(2)] by (simp_all cong: option.case_cong)
  have t1: "tables_ok ?e1 s1" "cur s1 = cur s"
    using tables_filealloc [of s0 f1 s1 ?e0] s1 t0 by (auto split: if_splits)
  have c2: "calm s1 s2" using calm_kalloc_s [OF calm_refl [of s1]] unfolding s2_def by simp
  have t2: "tables_ok ?e1 s2" "cur s2 = cur s" using tables_calm [OF c2 t1(1)] calm_cur [OF c2] t1(2) by simp_all
  have closed: "tables_ok no_refs u \<and> cur u = cur s"
    if "bindr (close_opt f0 s2) (\<lambda>s. bindr (close_opt f1 s) (\<lambda>s. Inr (None, s))) = Inr (r, u)" for u
  proof -
    let ?e = "case f1 of None \<Rightarrow> no_refs | Some b \<Rightarrow> no_refs(b := no_refs b + 1)"
    have "?e1 = (case f0 of None \<Rightarrow> ?e | Some a \<Rightarrow> ?e(a := ?e a + 1))" by (cases f0; cases f1) auto
    then show ?thesis using that tables_close_opt [of f0 s2 _ ?e] tables_close_opt [of f1 _ u no_refs] t2
      by (auto simp: bindr_eq_Inr)
  qed
  have run: "pipealloc s = (case (f0, f1) of (Some a, Some b) \<Rightarrow>
      if p \<noteq> 0 then Inr (Some (a, b), upd_file b (pipe_end True p) (upd_file a (pipe_end False p)
        (kstore (p + 8) 0 (kstore p 0 (kstore (p + 564) 0 (kstore (p + 568) 0 (kstore (p + 576) 1 (kstore (p + 572) 1 s2))))))))
      else bindr (close_opt f0 s2) (\<lambda>s. bindr (close_opt f1 s) (\<lambda>s. Inr (None, s)))
    | _ \<Rightarrow> bindr (close_opt f0 s2) (\<lambda>s. bindr (close_opt f1 s) (\<lambda>s. Inr (None, s))))"
    unfolding pipealloc_def s0 Let_def prod.case s1 s2 by (simp cong: option.case_cong)
  have "tables_ok (case r of None \<Rightarrow> no_refs | Some (a, b) \<Rightarrow> (no_refs(a := 1))(b := (no_refs(a := 1)) b + 1)) t \<and> cur t = cur s"
  proof (cases "\<exists>a b. f0 = Some a \<and> f1 = Some b \<and> p \<noteq> 0")
    case True
    then obtain a b where ab: "f0 = Some a" "f1 = Some b" "p \<noteq> 0" by blast
    let ?t = "upd_file b (pipe_end True p) (upd_file a (pipe_end False p)
        (kstore (p + 8) 0 (kstore p 0 (kstore (p + 564) 0 (kstore (p + 568) 0 (kstore (p + 576) 1 (kstore (p + 572) 1 s2)))))))"
    have "calm s2 ?t" by (rule calm_upd_file calm_kstore calm_refl | simp add: pipe_end_def)+
    moreover have "t = ?t" using assms(1) ab by (simp add: run)
    ultimately have c: "calm s2 t" by simp
    moreover have "r = Some (a, b)" using assms(1) ab by (simp add: run)
    ultimately show ?thesis using tables_calm [OF c t2(1)] calm_cur [OF c] t2(2) ab by simp
  next
    case False
    then have "bindr (close_opt f0 s2) (\<lambda>s. bindr (close_opt f1 s) (\<lambda>s. Inr (None, s))) = Inr (r, t)"
      using assms(1) unfolding run by (cases f0; cases f1) auto
    moreover from this have "r = None" by (auto simp: bindr_eq_Inr)
    ultimately show ?thesis using closed by simp
  qed
  then show "tables_ok (case r of None \<Rightarrow> no_refs | Some (a, b) \<Rightarrow> (no_refs(a := 1))(b := (no_refs(a := 1)) b + 1)) t"
    "cur t = cur s" by simp_all
qed

lemma tables_close_both:
  assumes "bindr (fileclose a s) (\<lambda>s. bindr (fileclose b s) (\<lambda>s. Inr (- 1, s))) = Inr (v, t)"
    and "tables_ok ((no_refs(a := 1))(b := (no_refs(a := 1)) b + 1)) s"
  shows "tables_ok no_refs t"
proof -
  let ?e = "(no_refs(a := 1))(b := (no_refs(a := 1)) b + 1) :: nat \<Rightarrow> int"
  obtain u where u: "fileclose a s = Inr u" "fileclose b u = Inr t" using assms(1) by (auto simp: bindr_eq_Inr)
  have "?e(a := ?e a - 1) = no_refs(b := 1)" by auto
  then have "tables_ok (no_refs(b := 1)) u" using tables_fileclose(1) [OF u(1) assms(2)] by simp
  then have "tables_ok ((no_refs(b := 1))(b := (no_refs(b := 1)) b - 1)) t" by (rule tables_fileclose(1) [OF u(2)])
  then show ?thesis by (simp add: fun_upd_idem)
qed

lemma tables_sys_pipe:
  assumes "sys_pipe s = Inr (v, t)" "tables_ok no_refs s"
  shows "tables_ok no_refs t"
  using assms(1) unfolding sys_pipe_def
proof (cases rule: with_arg_Inr)
  case (2 fd)
  obtain r s1 where s1: "pipealloc s = Inr (r, s1)" using 2(2) by (auto simp: bindr_eq_Inr)
  note t1 = tables_pipealloc [OF s1 assms(2)]
  show ?thesis
  proof (cases r)
    case None
    then show ?thesis using 2(2) s1 t1 by simp
  next
    case (Some ab)
    obtain a b where ab: "r = Some (a, b)" using Some by (cases ab) simp
    let ?e = "(no_refs(a := 1))(b := (no_refs(a := 1)) b + 1) :: nat \<Rightarrow> int"
    have e: "tables_ok ?e s1" using t1(1) ab by simp
    obtain fd0 s2 where s2: "fdalloc a s1 = Inr (fd0, s2)" using 2(2) s1 ab by (auto simp: bindr_eq_Inr)
    obtain fd1 s3 where s3: "(case fd0 of None \<Rightarrow> Inr (None, s2) | Some _ \<Rightarrow> fdalloc b s2) = Inr (fd1, s3)"
      and k: "(case (fd0, fd1) of (Some fd0, Some fd1) \<Rightarrow>
               bindr (copyto fd (le32 (of_nat fd0)) s3) (\<lambda>s. bindr (copyto (fd + 4) (le32 (of_nat fd1)) s) (\<lambda>s. Inr (0, s)))
           | _ \<Rightarrow> bindr (case fd0 of None \<Rightarrow> Inr s3 | Some fd0 \<Rightarrow> set_ofile fd0 None s3) (\<lambda>s.
               bindr (fileclose a s) (\<lambda>s. bindr (fileclose b s) (\<lambda>s. Inr (-1, s))))) = Inr (v, t)"
      using 2(2) s1 ab s2 by (auto simp: bindr_eq_Inr)
    have eb: "?e(a := ?e a - 1) = no_refs(b := 1)" by auto
    show ?thesis
    proof (cases fd0)
      case None
      then have "s3 = s1" using s2 s3 tables_fdalloc [OF s2 e] by simp
      then show ?thesis using k None e tables_close_both by simp
    next
      case (Some x)
      have x: "x < NOFILE" "cur s2 = cur s1" "\<And>p. cur s1 = Some p \<Longrightarrow> p_ofile (ptable s2 p) x = Some a" "tables_ok (no_refs(b := 1)) s2"
        using tables_fdalloc [OF s2 e] Some eb by auto
      have fb: "fdalloc b s2 = Inr (fd1, s3)" using s3 Some by simp
      show ?thesis
      proof (cases fd1)
        case None
        then have s3: "s3 = s2" using tables_fdalloc [OF fb x(4)] by simp
        obtain s4 where s4: "set_ofile x None s2 = Inr s4" "bindr (fileclose a s4) (\<lambda>s. bindr (fileclose b s) (\<lambda>s. Inr (-1, s))) = Inr (v, t)"
          using k Some None s3 by (auto simp: bindr_eq_Inr)
        obtain p where p: "cur s2 = Some p" "s4 = upd_proc p (\<lambda>y. y\<lparr>p_ofile := (p_ofile y)(x := None)\<rparr>) s2"
          using set_ofile_eq [OF s4(1)] by blast
        have "(\<lambda>f. (no_refs(b := 1)) f + (if p_ofile (ptable s2 p) x = Some f then 1 else 0) - (if None = Some f then 1 else 0)) = ?e"
          using x(2,3) p(1) by auto
        then have "tables_ok ?e s4" using tables_set_ofile [OF x(4) p(1) x(1), of None] p(2) by simp
        then show ?thesis using tables_close_both s4(2) by simp
      next
        case (Some y)
        have "tables_ok no_refs s3" using tables_fdalloc [OF fb x(4)] Some by (simp add: fun_upd_idem)
        moreover have "calmr st2 s3 (bindr (copyto fd (le32 (of_nat x)) s3) (\<lambda>s. bindr (copyto (fd + 4) (le32 (of_nat y)) s) (\<lambda>s. Inr (0, s))))"
          by (rule calm_vcg calm_refl | assumption)+
        ultimately show ?thesis using k \<open>fd0 = Some x\<close> Some tables_calm calmr_D2 by fastforce
      qed
    qed
  qed
qed (use assms(2) in simp)

end
