(* ===== verification/Tables_Procs.thy ===== *)
theory Tables_Procs
  imports Tables_Files
begin

text \<open>
  The operations on processes keep the tables consistent: the scheduler, \<^verbatim>\<open>yield\<close>, \<^verbatim>\<open>sleep\<close>, \<^verbatim>\<open>kill\<close>, \<^verbatim>\<open>fork\<close>, \<^verbatim>\<open>exit\<close>, \<^verbatim>\<open>wait\<close>.
\<close>

section \<open>Changing the state of a live process\<close>

lemma live_upd:
  assumes "p_parent x = p_parent (pt p)" "p_pid x = p_pid (pt p)" "live x" "live (pt p)"
  shows "pids_ok n pt \<Longrightarrow> pids_ok n (pt(p := x))" "parents_ok init pt \<Longrightarrow> parents_ok init (pt(p := x))"
proof -
  have s: "p_state ((pt(p := x)) q) = UNUSED \<longleftrightarrow> p_state (pt q) = UNUSED" "p_state ((pt(p := x)) q) = EMBRYO \<longleftrightarrow> p_state (pt q) = EMBRYO"
    "p_parent ((pt(p := x)) q) = p_parent (pt q)" "p_pid ((pt(p := x)) q) = p_pid (pt q)" "live ((pt(p := x)) q) = live (pt q)" for q
    using assms by (auto simp: live_def)
  show "pids_ok n pt \<Longrightarrow> pids_ok n (pt(p := x))" unfolding pids_ok_def s .
  show "parents_ok init pt \<Longrightarrow> parents_ok init (pt(p := x))" unfolding parents_ok_def s .
qed

lemma waiters_upd:
  assumes "waiters_ok pt" "p_parent x = p_parent (pt p)" "p_state x = ZOMBIE \<longrightarrow> p_state (pt p) = ZOMBIE"
    "waits (pt(p := x)) p \<longrightarrow> (\<exists>q<NPROC. p_parent (pt q) = Some p) \<and> (\<forall>q<NPROC. p_parent (pt q) = Some p \<longrightarrow> p_state (pt q) \<noteq> ZOMBIE)"
  shows "waiters_ok (pt(p := x))"
  unfolding waiters_ok_def
proof (intro allI impI)
  fix q
  assume q: "q < NPROC" "waits (pt(p := x)) q"
  have pa: "p_parent ((pt(p := x)) r) = p_parent (pt r)" for r using assms(2) by simp
  have z: "p_state ((pt(p := x)) r) = ZOMBIE \<Longrightarrow> p_state (pt r) = ZOMBIE" for r using assms(3) by (cases "r = p") auto
  have "(\<exists>r<NPROC. p_parent (pt r) = Some q) \<and> (\<forall>r<NPROC. p_parent (pt r) = Some q \<longrightarrow> p_state (pt r) \<noteq> ZOMBIE)"
  proof (cases "q = p")
    case False
    then have "waits pt q" using q(2) by (simp add: waits_def)
    then show ?thesis using assms(1) q(1) unfolding waiters_ok_def by blast
  qed (use assms(4) q(2) in blast)
  then show "(\<exists>r<NPROC. p_parent ((pt(p := x)) r) = Some q) \<and>
      (\<forall>r<NPROC. p_parent ((pt(p := x)) r) = Some q \<longrightarrow> p_state ((pt(p := x)) r) \<noteq> ZOMBIE)"
    unfolding pa using z by blast
qed

lemma files_upd:
  assumes "files_ok e s" "ftable t = ftable s" "ptable t = (ptable s)(p := x)" "p_ofile x = p_ofile (ptable s p)"
    "p_state x = UNUSED \<or> p_state x = ZOMBIE \<longrightarrow> (\<forall>fd<NOFILE. p_ofile x fd = None)"
  shows "files_ok e t"
proof -
  have "refs ((ptable s)(p := x)) f = refs (ptable s) f" for f by (rule refs_cong) (use assms(4) in simp)
  then show ?thesis using assms(1,5) unfolding files_ok_def assms(2,3) by simp
qed

lemma running_ok_upd:
  assumes "running_ok c pt" "c \<noteq> Some p" "p_state x \<noteq> RUNNING"
  shows "running_ok c (pt(p := x))"
proof -
  have "q < NPROC \<and> p_state ((pt(p := x)) q) = RUNNING" if "c = Some q" for q
    using assms(1,2) that unfolding running_ok_def by auto
  moreover have "c = Some q" if "q < NPROC" "p_state ((pt(p := x)) q) = RUNNING" for q
  proof -
    have "q \<noteq> p" using that(2) assms(3) by auto
    then have "p_state (pt q) = RUNNING" using that(2) by simp
    then show ?thesis using assms(1) that(1) unfolding running_ok_def by blast
  qed
  ultimately show ?thesis unfolding running_ok_def by blast
qed

lemma parents_okD:
  assumes "parents_ok init pt"
  shows "init < NPROC" "live (pt init)" "p_parent (pt init) = None" "p < NPROC \<Longrightarrow> p_state (pt p) \<noteq> EMBRYO"
    "p < NPROC \<Longrightarrow> p_state (pt p) = UNUSED \<Longrightarrow> p_parent (pt p) = None"
    "p < NPROC \<Longrightarrow> p_state (pt p) \<noteq> UNUSED \<Longrightarrow> p \<noteq> init \<Longrightarrow> \<exists>q<NPROC. p_parent (pt p) = Some q \<and> q \<noteq> p \<and> live (pt q)"
  using assms unfolding parents_ok_def by blast+

lemma parents_okI:
  assumes "init < NPROC" "live (pt init)" "p_parent (pt init) = None" "\<And>p. p < NPROC \<Longrightarrow> p_state (pt p) \<noteq> EMBRYO"
    "\<And>p. p < NPROC \<Longrightarrow> p_state (pt p) = UNUSED \<Longrightarrow> p_parent (pt p) = None"
    "\<And>p. p < NPROC \<Longrightarrow> p_state (pt p) \<noteq> UNUSED \<Longrightarrow> p \<noteq> init \<Longrightarrow> \<exists>q<NPROC. p_parent (pt p) = Some q \<and> q \<noteq> p \<and> live (pt q)"
  shows "parents_ok init pt"
  using assms unfolding parents_ok_def by blast

section \<open>Leaving and entering the processor\<close>

lemma sched_eq:
  assumes "sched s = Inr t"
  shows "\<exists>p. cur s = Some p \<and> p_state (ptable s p) \<noteq> RUNNING \<and> cur t = None \<and> ptable t = ptable s \<and> ftable t = ftable s \<and>
    nextpid t = nextpid s \<and> initproc t = initproc s"
  using assms by (auto simp: sched_def myproc_def switchkvm_def bindr_eq_Inr split: option.splits if_splits)

lemma running_live: "p_state x = RUNNING \<Longrightarrow> live x"
  by (simp add: live_def)

lemma tables_leave:
  assumes "tables_ok e s" "cur s = Some p" "sched (upd_proc p f s) = Inr t"
    "p_parent (f (ptable s p)) = p_parent (ptable s p)" "p_pid (f (ptable s p)) = p_pid (ptable s p)"
    "p_ofile (f (ptable s p)) = p_ofile (ptable s p)" "live (f (ptable s p))"
    "waits ((ptable s)(p := f (ptable s p))) p \<longrightarrow> (\<exists>q<NPROC. p_parent (ptable s q) = Some p) \<and>
       (\<forall>q<NPROC. p_parent (ptable s q) = Some p \<longrightarrow> p_state (ptable s q) \<noteq> ZOMBIE)"
  shows "tables_ok e t"
proof -
  let ?x = "f (ptable s p)"
  have t: "cur t = None" "ptable t = (ptable s)(p := ?x)" "ftable t = ftable s" "nextpid t = nextpid s" "initproc t = initproc s"
    "p_state ?x \<noteq> RUNNING"
    using sched_eq [OF assms(3)] assms(2) by (auto simp: upd_proc_def)
  have p: "p < NPROC" "p_state (ptable s p) = RUNNING" "live (ptable s p)"
    using tables_running [OF assms(1,2)] running_live by auto
  have ok: "running_ok (cur s) (ptable s)" "pids_ok (nextpid s) (ptable s)" "parents_ok (initproc s) (ptable s)" "waiters_ok (ptable s)"
      "files_ok e s"
    using assms(1) by (simp_all add: tables_ok_def procs_ok_def)
  have "running_ok None ((ptable s)(p := ?x))" using ok(1) t(6) assms(2) by (auto simp: running_ok_def)
  moreover have "waiters_ok ((ptable s)(p := ?x))"
    using waiters_upd [OF ok(4) assms(4) _ assms(8)] assms(7) by (simp add: live_def)
  moreover have "files_ok e t" using files_upd [OF ok(5) t(3,2) assms(6)] assms(7) by (simp add: live_def)
  ultimately show ?thesis
    using live_upd [of ?x "ptable s" p, OF assms(4,5,7) p(3)] ok t unfolding tables_ok_def procs_ok_def by simp
qed

lemma tables_yield: "yield s = Inr t \<Longrightarrow> tables_ok e s \<Longrightarrow> tables_ok e t"
proof -
  assume a: "yield s = Inr t" "tables_ok e s"
  then obtain p where p: "cur s = Some p" "sched (upd_proc p (\<lambda>x. x\<lparr>p_state := RUNNABLE\<rparr>) s) = Inr t"
    by (auto simp: yield_def myproc_def bindr_eq_Inr split: option.splits)
  show ?thesis by (rule tables_leave [OF a(2) p]) (simp_all add: live_def waits_def)
qed

lemma tables_sleep:
  assumes "sleep ch s = Inr t" "tables_ok e s"
    "\<And>p. cur s = Some p \<Longrightarrow> ch = ChProc p \<Longrightarrow> (\<exists>q<NPROC. p_parent (ptable s q) = Some p) \<and>
       (\<forall>q<NPROC. p_parent (ptable s q) = Some p \<longrightarrow> p_state (ptable s q) \<noteq> ZOMBIE)"
  shows "tables_ok e t"
proof -
  obtain p where p: "cur s = Some p" "sched (upd_proc p (\<lambda>x. x\<lparr>p_chan := Some ch, p_state := SLEEPING\<rparr>) s) = Inr t"
    using assms(1) by (auto simp: sleep_def split: option.splits)
  show ?thesis by (rule tables_leave [OF assms(2) p]) (use assms(3) [OF p(1)] in \<open>auto simp: live_def waits_def\<close>)
qed

lemma scheduler_scan_Some: "scheduler_scan ps pt = Some p \<Longrightarrow> p \<in> set ps \<and> p_state (pt p) = RUNNABLE"
  by (induction ps) (auto split: if_splits)

lemma tables_scheduler:
  assumes "scheduler i s = Inr t" "tables_ok e s" "cur s = None"
  shows "tables_ok e t"
proof (cases "scheduler_scan [i..<NPROC] (ptable s)")
  case None
  then show ?thesis using assms by (simp add: scheduler_def)
next
  case (Some p)
  let ?x = "(ptable s p)\<lparr>p_state := RUNNING\<rparr>"
  have p: "p < NPROC" "p_state (ptable s p) = RUNNABLE" using scheduler_scan_Some [OF Some] by auto
  have t: "cur t = Some p" "ptable t = (ptable s)(p := ?x)" "ftable t = ftable s" "nextpid t = nextpid s" "initproc t = initproc s"
    using assms(1) Some by (auto simp: scheduler_def switchuvm_def upd_proc_def bindr_eq_Inr split: if_splits)
  have ok: "running_ok (cur s) (ptable s)" "pids_ok (nextpid s) (ptable s)" "parents_ok (initproc s) (ptable s)" "waiters_ok (ptable s)"
      "files_ok e s"
    using assms(2) by (simp_all add: tables_ok_def procs_ok_def)
  have "running_ok (Some p) ((ptable s)(p := ?x))" using ok(1) p assms(3) by (auto simp: running_ok_def)
  moreover have "waiters_ok ((ptable s)(p := ?x))" by (rule waiters_upd [OF ok(4)]) (simp_all add: waits_def)
  moreover have "files_ok e t" using files_upd [OF ok(5) t(3,2)] by simp
  ultimately show ?thesis
    using live_upd [of ?x "ptable s" p] p ok t unfolding tables_ok_def procs_ok_def by (simp add: live_def)
qed

lemma calm_kill: "calm s t \<Longrightarrow> calm s (snd (kill pid t))"
proof -
  have "calm s t \<Longrightarrow> calm s (snd (kill_loop ps pid t))" for ps
    by (induction ps) (auto intro!: calm_upd_proc simp: woken_def)
  then show "calm s t \<Longrightarrow> ?thesis" by (simp add: kill_def)
qed

lemma calm_sys_kill [calm_vcg]: "calm s t \<Longrightarrow> calmr st2 s (sys_kill t)"
  unfolding sys_kill_def by (rule calm_with_arg) (auto simp: calmr_def intro: calm_kill)

section \<open>wait\<close>

lemma wait_scan_Some: "wait_scan me ps pt h = (Some p, h') \<Longrightarrow> p \<in> set ps \<and> p_parent (pt p) = Some me \<and> p_state (pt p) = ZOMBIE"
  by (induction ps arbitrary: h) (auto split: if_splits)

lemma wait_scan_None:
  "wait_scan me ps pt h = (None, h') \<Longrightarrow> (\<forall>p\<in>set ps. p_parent (pt p) = Some me \<longrightarrow> p_state (pt p) \<noteq> ZOMBIE) \<and>
     (h' \<longrightarrow> h \<or> (\<exists>p\<in>set ps. p_parent (pt p) = Some me))"
  by (induction ps arbitrary: h) (auto split: if_splits)

lemma tables_free_slot:
  assumes "tables_ok e s" "p < NPROC" "p_state (ptable s p) = ZOMBIE"
    "p_state (f (ptable s p)) = UNUSED" "p_parent (f (ptable s p)) = None" "p_ofile (f (ptable s p)) = p_ofile (ptable s p)"
  shows "tables_ok e (upd_proc p f s)"
proof -
  let ?x = "f (ptable s p)" and ?pt = "(ptable s)(p := f (ptable s p))"
  have t: "cur (upd_proc p f s) = cur s" "ptable (upd_proc p f s) = ?pt" "ftable (upd_proc p f s) = ftable s"
    "nextpid (upd_proc p f s) = nextpid s" "initproc (upd_proc p f s) = initproc s" by (simp_all add: upd_proc_def)
  have ok: "running_ok (cur s) (ptable s)" "pids_ok (nextpid s) (ptable s)" "parents_ok (initproc s) (ptable s)" "waiters_ok (ptable s)"
      "files_ok e s"
    using assms(1) by (simp_all add: tables_ok_def procs_ok_def)
  have nc: "cur s \<noteq> Some p" using tables_running(2) [OF assms(1)] assms(3) by force
  have 1: "running_ok (cur s) ?pt"
    by (rule running_ok_upd [OF ok(1)]) (use nc assms(4) in simp_all)
  have 2: "pids_ok (nextpid s) ?pt" using ok(2) assms(4) by (auto simp: pids_ok_def)
  have ne: "initproc s \<noteq> p" using ok(3) assms(3) unfolding parents_ok_def live_def by force
  note pok = parents_okD [OF ok(3)]
  have 3: "parents_ok (initproc s) ?pt"
  proof (rule parents_okI)
    fix q
    assume q: "q < NPROC"
    show "p_state (?pt q) \<noteq> EMBRYO" using pok(4) [OF q] assms(4) by simp
    show "p_parent (?pt q) = None" if "p_state (?pt q) = UNUSED" using pok(5) [OF q] that assms(5) by (simp split: if_splits)
    assume u: "p_state (?pt q) \<noteq> UNUSED" "q \<noteq> initproc s"
    then have "q \<noteq> p" "p_state (ptable s q) \<noteq> UNUSED" using assms(4) by (auto split: if_splits)
    moreover obtain r where r: "r < NPROC" "p_parent (ptable s q) = Some r" "r \<noteq> q" "live (ptable s r)" using pok(6) [OF q calculation(2) u(2)] by blast
    moreover have "r \<noteq> p" using r(4) assms(3) by (auto simp: live_def)
    ultimately show "\<exists>r<NPROC. p_parent (?pt q) = Some r \<and> r \<noteq> q \<and> live (?pt r)" by auto
  qed (use pok(1-3) ne in simp_all)
  have "waiters_ok ?pt" unfolding waiters_ok_def
  proof (intro allI impI)
    fix q
    assume q: "q < NPROC" "waits ?pt q"
    then have "waits (ptable s) q" using assms(4) by (auto simp: waits_def split: if_splits)
    then obtain r where r: "r < NPROC" "p_parent (ptable s r) = Some q" "\<forall>r<NPROC. p_parent (ptable s r) = Some q \<longrightarrow> p_state (ptable s r) \<noteq> ZOMBIE"
      using ok(4) q(1) unfolding waiters_ok_def by blast
    then have "r \<noteq> p" using assms(3) by auto
    then show "(\<exists>r<NPROC. p_parent (?pt r) = Some q) \<and> (\<forall>r<NPROC. p_parent (?pt r) = Some q \<longrightarrow> p_state (?pt r) \<noteq> ZOMBIE)"
      using r assms(4) by auto
  qed
  moreover have "files_ok e (upd_proc p f s)"
    by (rule files_upd [OF ok(5) t(3,2) assms(6)]) (use ok(5) assms(2,3,6) in \<open>simp add: files_ok_def\<close>)
  ultimately show ?thesis using 1 2 3 unfolding tables_ok_def procs_ok_def t by simp
qed

lemma tables_reap:
  assumes "reap p s = Inr (v, t)" "tables_ok e s" "p < NPROC" "p_state (ptable s p) = ZOMBIE"
  shows "tables_ok e t"
proof -
  let ?f = "\<lambda>x. x\<lparr>p_pid := 0, p_parent := None, p_name := (p_name x)(0 := 0), p_killed := False, p_state := UNUSED\<rparr>"
  obtain s1 s2 where s: "kfree_s (p_kstack (ptable s p)) s = Inr s1"
    "in_km (\<lambda>k. bindr (freevm (p_pgdir (ptable s1 p)) k) (\<lambda>k. Inr ((), k))) (upd_proc p (\<lambda>x. x\<lparr>p_kstack := 0\<rparr>) s1) = Inr ((), s2)"
    "t = upd_proc p ?f s2"
    using assms(1) by (auto simp: reap_def bindr_eq_Inr Let_def upd_proc_def)
  have "calm s s1" by (rule calmr_D1 [OF calm_kfree_s s(1)]) simp
  then have "calm s (upd_proc p (\<lambda>x. x\<lparr>p_kstack := 0\<rparr>) s1)" by (rule calm_upd_proc) (simp add: woken_def)
  from calm_in_km [OF this] have c: "calm s s2" using s(2) by (fastforce simp: calmr_def)
  then have "p_state (ptable s2 p) = ZOMBIE" using quiet_state(2) [OF calm_quiet [OF c]] assms(4) by simp
  from tables_free_slot [OF tables_calm [OF c assms(2)] assms(3) this, of ?f] show ?thesis unfolding s(3) by simp
qed

lemma tables_wait:
  assumes "wait s = Inr (v, t)" "tables_ok e s"
  shows "tables_ok e t"
proof -
  obtain me where me: "cur s = Some me" using assms(1) by (auto simp: wait_def myproc_def bindr_eq_Inr split: option.splits)
  obtain r h where r: "wait_scan me [0..<NPROC] (ptable s) False = (r, h)" by force
  show ?thesis
  proof (cases r)
    case (Some p)
    then have "p < NPROC" "p_state (ptable s p) = ZOMBIE" using wait_scan_Some [OF r [unfolded Some]] by auto
    moreover obtain pid where "reap p s = Inr (pid, t)" using assms(1) me r Some by (auto simp: wait_def myproc_def bindr_eq_Inr)
    ultimately show ?thesis using tables_reap assms(2) by blast
  next
    case None
    note n = wait_scan_None [OF r [unfolded None]]
    show ?thesis
    proof (cases "\<not> h \<or> p_killed (ptable s me)")
      case True
      then show ?thesis using assms me r None by (simp add: wait_def myproc_def)
    next
      case False
      then have "sleep (ChProc me) s = Inr t" using assms(1) me r None by (auto simp: wait_def myproc_def bindr_eq_Inr)
      then show ?thesis by (rule tables_sleep [OF _ assms(2)]) (use n False me in auto)
    qed
  qed
qed

lemma tables_sleep_awake:
  assumes "sleep_awake s = Inr t" "tables_ok e s"
  shows "tables_ok e t"
proof -
  obtain p where p: "cur s = Some p" "t = upd_proc p (\<lambda>x. x\<lparr>p_chan := None\<rparr>) s"
    using assms(1) by (auto simp: sleep_awake_def myproc_def bindr_eq_Inr split: option.splits)
  let ?x = "(ptable s p)\<lparr>p_chan := None\<rparr>"
  have t: "cur t = cur s" "ptable t = (ptable s)(p := ?x)" "ftable t = ftable s" "nextpid t = nextpid s" "initproc t = initproc s"
    using p(2) by (simp_all add: upd_proc_def)
  have ok: "running_ok (cur s) (ptable s)" "pids_ok (nextpid s) (ptable s)" "parents_ok (initproc s) (ptable s)" "waiters_ok (ptable s)"
      "files_ok e s"
    using assms(2) by (simp_all add: tables_ok_def procs_ok_def)
  have l: "live (ptable s p)" "live ?x" using tables_running [OF assms(2) p(1)] by (simp_all add: live_def)
  have st: "p_state (((ptable s)(p := ?x)) q) = p_state (ptable s q)" for q by simp
  have "running_ok (cur s) ((ptable s)(p := ?x))" using ok(1) unfolding running_ok_def st .
  moreover have "waiters_ok ((ptable s)(p := ?x))" by (rule waiters_upd [OF ok(4)]) (simp_all add: waits_def)
  moreover have "files_ok e t" using files_upd [OF ok(5) t(3,2)] l(2) by (simp add: live_def)
  ultimately show ?thesis using live_upd [of ?x "ptable s" p, OF _ _ l(2,1)] ok t unfolding tables_ok_def procs_ok_def by simp
qed

end
