(* ===== verification/Tables_Fork.thy ===== *)
theory Tables_Fork
  imports Tables_Procs
begin

text \<open>
  \<^verbatim>\<open>fork\<close> keeps the tables consistent: the new slot gets a fresh process id, a live parent and one
  more reference to every file of the parent.
\<close>

section \<open>allocproc\<close>

definition born :: "nat \<Rightarrow> 'a kst_scheme \<Rightarrow> 'a kst_scheme \<Rightarrow> bool" where
  "born np s t \<longleftrightarrow> np < NPROC \<and> p_state (ptable s np) = UNUSED \<and> cur t = cur s \<and> initproc t = initproc s \<and>
     nextpid t = nextpid s + 1 \<and> ftable t = ftable s \<and> ptable t = (ptable s)(np := ptable t np) \<and>
     p_parent (ptable t np) = p_parent (ptable s np) \<and> p_ofile (ptable t np) = p_ofile (ptable s np) \<and>
     p_pid (ptable t np) = nextpid s"

lemma unused_proc_Some: "unused_proc ps pt = Some p \<Longrightarrow> p \<in> set ps \<and> p_state (pt p) = UNUSED"
  by (induction ps) (auto split: if_splits)

lemma kalloc_s_tables: "kalloc_s s = (v, t) \<Longrightarrow> \<exists>k. t = s\<lparr>km := k\<rparr>"
  by (auto simp: kalloc_s_def split: prod.splits)

lemma born_alloc:
  assumes "born p s t" "kalloc_s t = (v, u)"
  shows "born p s u"
proof -
  obtain k where "u = t\<lparr>km := k\<rparr>" using kalloc_s_tables [OF assms(2)] by blast
  then show ?thesis using assms(1) by (simp add: born_def)
qed

lemma born_upd_pmem: "born p s t \<Longrightarrow> born p s (upd_pmem h t)"
  and born_kstore: "born p s t \<Longrightarrow> born p s (kstore a w t)"
  by (simp_all add: born_def upd_pmem_def upd_km_def kstore_def)

lemma born_upd_proc:
  assumes "born p s t" "p_parent (g (ptable t p)) = p_parent (ptable t p)" "p_ofile (g (ptable t p)) = p_ofile (ptable t p)"
    "p_pid (g (ptable t p)) = p_pid (ptable t p)"
  shows "born p s (upd_proc p g t)"
proof -
  have "(ptable t)(p := x) = (ptable s)(p := x)" for x using assms(1) unfolding born_def by (metis fun_upd_upd)
  then show ?thesis using assms unfolding born_def upd_proc_def by simp
qed

lemmas born_intros = born_upd_pmem born_kstore born_upd_proc

lemma born_setup_kstack: "born p s t \<Longrightarrow> born p s (setup_kstack p a t)"
  unfolding setup_kstack_def Let_def by (intro born_intros) simp_all

lemma allocproc_born:
  assumes "allocproc s = Inr (r, t)"
  shows "case r of None \<Rightarrow> t = s \<or> (\<exists>p u. born p s u \<and> t = upd_proc p (\<lambda>x. x\<lparr>p_state := UNUSED\<rparr>) u) | Some p \<Rightarrow> born p s t"
proof (cases "unused_proc [0..<NPROC] (ptable s)")
  case None
  then show ?thesis using assms by (auto simp: allocproc_def)
next
  case (Some p)
  let ?s1 = "(upd_proc p (\<lambda>x. x\<lparr>p_state := EMBRYO, p_pid := nextpid s\<rparr>) s)\<lparr>nextpid := nextpid s + 1\<rparr>"
  have b1: "born p s ?s1" using unused_proc_Some [OF Some] by (simp add: born_def upd_proc_def)
  obtain kstack s2 where k: "kalloc_s ?s1 = (kstack, s2)" by force
  let ?s3 = "upd_proc p (\<lambda>x. x\<lparr>p_kstack := kstack\<rparr>) s2"
  have b3: "born p s ?s3" by (rule born_upd_proc [OF born_alloc [OF b1 k]]) simp_all
  obtain head s4 where h: "kalloc_s (setup_kstack p kstack ?s3) = (head, s4)" by force
  have b4: "born p s s4" by (rule born_alloc [OF born_setup_kstack [OF b3] h])
  let ?s5 = "upd_proc p (\<lambda>x. x\<lparr>p_head := head, p_tail := head\<rparr>) (upd_pmem (\<lambda>m. memset m head 0 sizeof_lazy) s4)"
  have b5: "born p s ?s5" by (rule born_upd_proc [OF born_upd_pmem [OF b4]]) simp_all
  have n: "nextpid (upd_proc p (\<lambda>x. x\<lparr>p_state := EMBRYO, p_pid := nextpid s\<rparr>) s) = nextpid s" by (simp add: upd_proc_def)
  have eq: "allocproc s = (if kstack = 0 then Inr (None, upd_proc p (\<lambda>x. x\<lparr>p_state := UNUSED\<rparr>) ?s3)
      else if head = 0 then Inl NullDeref else Inr (Some p, ?s5))"
    using Some k h by (simp add: allocproc_def n Let_def)
  show ?thesis using assms b3 b5 unfolding eq by (auto split: if_splits)
qed

lemma pids_ok_dead: "pids_ok n pt \<Longrightarrow> n \<le> n' \<Longrightarrow> p_state x = UNUSED \<Longrightarrow> pids_ok n' (pt(p := x))"
  unfolding pids_ok_def by (auto intro: less_le_trans)

lemma pids_ok_new:
  assumes "pids_ok n pt" "p_pid x = n"
  shows "pids_ok (n + 1) (pt(p := x))"
proof -
  have lt: "q < NPROC \<Longrightarrow> p_state (pt q) \<noteq> UNUSED \<Longrightarrow> 0 < p_pid (pt q) \<and> p_pid (pt q) < n" for q using assms(1) by (simp add: pids_ok_def)
  have ne: "p_pid ((pt(p := x)) q) \<noteq> p_pid ((pt(p := x)) r)"
    if "q < NPROC" "r < NPROC" "q \<noteq> r" "p_state ((pt(p := x)) q) \<noteq> UNUSED" "p_state ((pt(p := x)) r) \<noteq> UNUSED" for q r
    using that lt [of q] lt [of r] assms by (auto simp: pids_ok_def)
  have b: "0 < p_pid ((pt(p := x)) q) \<and> p_pid ((pt(p := x)) q) < n + 1" if "q < NPROC" "p_state ((pt(p := x)) q) \<noteq> UNUSED" for q
    using that lt [of q] assms by (auto simp: pids_ok_def)
  show ?thesis using assms(1) ne b unfolding pids_ok_def by auto
qed

lemma born_upd:
  assumes "born np s t"
  shows "cur (upd_proc np f t) = cur s" "initproc (upd_proc np f t) = initproc s" "nextpid (upd_proc np f t) = nextpid s + 1"
    "ftable (upd_proc np f t) = ftable s" "ptable (upd_proc np f t) = (ptable s)(np := f (ptable t np))"
proof -
  have "(ptable t)(np := x) = (ptable s)(np := x)" for x using assms unfolding born_def by (metis fun_upd_upd)
  then show "ptable (upd_proc np f t) = (ptable s)(np := f (ptable t np))" by (simp add: upd_proc_def)
qed (use assms in \<open>simp_all add: born_def upd_proc_def\<close>)

lemma tables_unborn:
  assumes "tables_ok e s" "born np s t" "p_state (f (ptable t np)) = UNUSED" "p_parent (f (ptable t np)) = p_parent (ptable t np)"
    "p_ofile (f (ptable t np)) = p_ofile (ptable t np)"
  shows "tables_ok e (upd_proc np f t)"
proof -
  let ?x = "f (ptable t np)" and ?pt = "(ptable s)(np := f (ptable t np))"
  have b: "np < NPROC" "p_state (ptable s np) = UNUSED" "p_parent ?x = p_parent (ptable s np)" "p_ofile ?x = p_ofile (ptable s np)"
    using assms(2,4,5) by (simp_all add: born_def)
  have ok: "running_ok (cur s) (ptable s)" "pids_ok (nextpid s) (ptable s)" "parents_ok (initproc s) (ptable s)" "waiters_ok (ptable s)"
      "files_ok e s"
    using assms(1) by (simp_all add: tables_ok_def procs_ok_def)
  have s: "p_state (?pt q) = p_state (ptable s q)" "p_parent (?pt q) = p_parent (ptable s q)" "live (?pt q) = live (ptable s q)" for q
    using assms(3) b by (auto simp: live_def)
  have "running_ok (cur s) ?pt" using ok(1) unfolding running_ok_def s .
  moreover have "parents_ok (initproc s) ?pt" using ok(3) unfolding parents_ok_def s .
  moreover have "pids_ok (nextpid s + 1) ?pt" by (rule pids_ok_dead [OF ok(2)]) (simp_all add: assms(3))
  moreover have "waiters_ok ?pt" by (rule waiters_upd [OF ok(4) b(3)]) (simp_all add: assms(3) waits_def)
  moreover have "files_ok e (upd_proc np f t)"
    by (rule files_upd [OF ok(5) born_upd(4,5) [OF assms(2), of f] b(4)]) (use ok(5) b in \<open>simp add: files_ok_def\<close>)
  ultimately show ?thesis unfolding tables_ok_def procs_ok_def born_upd [OF assms(2)] by simp
qed

abbreviation child_of :: "nat \<Rightarrow> proc \<Rightarrow> proc" where
  "child_of me \<equiv> (\<lambda>x. x\<lparr>p_state := RUNNABLE, p_parent := Some me\<rparr>)"

lemma tables_born:
  assumes "tables_ok e s" "born np s t" "cur s = Some me"
  shows "tables_ok e (upd_proc np (child_of me) t)"
proof -
  let ?x = "child_of me (ptable t np)" and ?pt = "(ptable s)(np := child_of me (ptable t np))"
  have b: "np < NPROC" "p_state (ptable s np) = UNUSED" "p_ofile ?x = p_ofile (ptable s np)" "p_pid ?x = nextpid s"
    using assms(2) by (simp_all add: born_def)
  have ok: "running_ok (cur s) (ptable s)" "pids_ok (nextpid s) (ptable s)" "parents_ok (initproc s) (ptable s)" "waiters_ok (ptable s)"
      "files_ok e s"
    using assms(1) by (simp_all add: tables_ok_def procs_ok_def)
  note me = tables_running [OF assms(1,3)] and pok = parents_okD [OF ok(3)]
  have ne: "me \<noteq> np" "initproc s \<noteq> np" "p_parent (ptable s np) = None" using me b pok(2) pok(5) [OF b(1,2)] by (auto simp: live_def)
  have "running_ok (cur s) ?pt" by (rule running_ok_upd [OF ok(1)]) (use assms(3) ne in simp_all)
  moreover have "pids_ok (nextpid s + 1) ?pt" by (rule pids_ok_new [OF ok(2) b(4)])
  moreover have "parents_ok (initproc s) ?pt"
  proof (rule parents_okI)
    fix q
    assume q: "q < NPROC"
    show "p_state (?pt q) \<noteq> EMBRYO" using pok(4) [OF q] by simp
    show "p_parent (?pt q) = None" if "p_state (?pt q) = UNUSED" using pok(5) [OF q] that by (simp split: if_splits)
    assume u: "p_state (?pt q) \<noteq> UNUSED" "q \<noteq> initproc s"
    show "\<exists>r<NPROC. p_parent (?pt q) = Some r \<and> r \<noteq> q \<and> live (?pt r)"
    proof (cases "q = np")
      case False
      then obtain r where r: "r < NPROC" "p_parent (ptable s q) = Some r" "r \<noteq> q" "live (ptable s r)" using pok(6) [OF q _ u(2)] u(1) by auto
      then show ?thesis using False b(2) by (auto simp: live_def)
    qed (use me ne in \<open>auto simp: live_def\<close>)
  qed (use pok(1-3) ne in simp_all)
  moreover have "waiters_ok ?pt" unfolding waiters_ok_def
  proof (intro allI impI)
    fix q
    assume q: "q < NPROC" "waits ?pt q"
    then have w: "waits (ptable s) q" by (auto simp: waits_def split: if_splits)
    then obtain r where r: "r < NPROC" "p_parent (ptable s r) = Some q" "\<forall>r<NPROC. p_parent (ptable s r) = Some q \<longrightarrow> p_state (ptable s r) \<noteq> ZOMBIE"
      using ok(4) q(1) unfolding waiters_ok_def by blast
    then have "r \<noteq> np" using ne(3) by auto
    then show "(\<exists>r<NPROC. p_parent (?pt r) = Some q) \<and> (\<forall>r<NPROC. p_parent (?pt r) = Some q \<longrightarrow> p_state (?pt r) \<noteq> ZOMBIE)"
      using r by auto
  qed
  moreover have "files_ok e (upd_proc np (child_of me) t)"
    by (rule files_upd [OF ok(5) born_upd(4,5) [OF assms(2), of "child_of me"] b(3)]) simp
  ultimately show ?thesis unfolding tables_ok_def procs_ok_def born_upd [OF assms(2)] by simp
qed

section \<open>fork\<close>

lemma forr_upt_keeps:
  assumes "forr [0..<n] body s = Inr t" "P 0 s" "\<And>i u v. i < n \<Longrightarrow> P i u \<Longrightarrow> body i u = Inr v \<Longrightarrow> P (Suc i) v"
  shows "P n t"
  using assms
proof (induction n arbitrary: t)
  case (Suc n)
  then obtain u where "forr [0..<n] body s = Inr u" "body n u = Inr t" by (auto simp: forr_append bindr_eq_Inr)
  moreover from this have "P n u" using Suc by auto
  ultimately show ?case using Suc.prems(3) by blast
qed simp

lemma calm_upd_both:
  assumes "calm s t" "\<And>x y. woken x y \<Longrightarrow> woken (f x) (f y)"
  shows "calm (upd_proc p f s) (upd_proc p f t)"
  using assms by (simp add: calm_def upd_proc_def)

lemma tables_child_calm:
  assumes "tables_ok e (upd_proc np (child_of me) s)" "calm s t"
  shows "tables_ok e (upd_proc np (child_of me) t)"
  by (rule tables_calm [OF calm_upd_both [OF assms(2)] assms(1)]) (simp add: woken_def)

lemma tables_child_upd:
  assumes "tables_ok e (upd_proc np (child_of me) s)" "\<And>x. woken (child_of me x) (child_of me (g x))"
  shows "tables_ok e (upd_proc np (child_of me) (upd_proc np g s))"
  by (rule tables_calm [OF _ assms(1)]) (simp add: calm_def upd_proc_def assms(2))

definition fork_inv :: "nat \<Rightarrow> nat \<Rightarrow> nat \<Rightarrow> 'a kst_scheme \<Rightarrow> bool" where
  "fork_inv me np i s \<longleftrightarrow> np < NPROC \<and> tables_ok no_refs (upd_proc np (child_of me) s) \<and> p_parent (ptable s np) = Some me \<and>
     (\<forall>fd. i \<le> fd \<longrightarrow> fd < NOFILE \<longrightarrow> p_ofile (ptable s np) fd = None)"

lemma fork_inv_step:
  assumes "fork_inv me np i s" "i < NOFILE"
  shows "fork_inv me np (Suc i) (upd_proc np (\<lambda>x. x\<lparr>p_ofile := (p_ofile x)(i := Some f)\<rparr>) (ref_inc f 1 s))"
proof -
  let ?S = "upd_proc np (child_of me) s" and ?g = "\<lambda>x. x\<lparr>p_ofile := (p_ofile x)(i := Some f)\<rparr>"
  have a: "np < NPROC" "tables_ok no_refs ?S" "p_ofile (ptable s np) i = None" using assms by (simp_all add: fork_inv_def)
  have eq: "upd_proc np (child_of me) (upd_proc np ?g (ref_inc f 1 s)) = upd_proc np ?g (ref_inc f 1 ?S)"
    by (cases "ptable s np") (simp add: upd_proc_def ref_inc_def upd_file_def)
  have t: "tables_ok (no_refs(f := 1)) (ref_inc f 1 ?S)" using tables_ref_inc [OF a(2), of f 1] by simp
  have st: "p_state (ptable (ref_inc f 1 ?S) np) = RUNNABLE" "p_ofile (ptable (ref_inc f 1 ?S) np) i = None"
    using a(3) by (simp_all add: upd_proc_def)
  have "files_ok (\<lambda>g. (no_refs(f := 1)) g + (if None = Some g then 1 else 0) - (if Some f = Some g then 1 else 0)) (upd_proc np ?g (ref_inc f 1 ?S))"
    using files_set [OF _ a(1) assms(2), of "no_refs(f := 1)" "ref_inc f 1 ?S" "Some f"] t st by (simp add: tables_ok_def)
  moreover have "(\<lambda>g. (no_refs(f := 1)) g + (if None = Some g then 1 else 0) - (if Some f = Some g then 1 else 0)) = no_refs" by auto
  moreover have "procs_ok (upd_proc np ?g (ref_inc f 1 ?S))"
    by (rule quiet_procs [OF quiet_set_ofile]) (use t in \<open>simp add: tables_ok_def\<close>)
  ultimately have "tables_ok no_refs (upd_proc np ?g (ref_inc f 1 ?S))" by (simp add: tables_ok_def)
  then show ?thesis using assms(1) unfolding fork_inv_def eq by (simp add: upd_proc_def)
qed

lemma fork_files_inv:
  assumes "fork_files me np s = Inr t" "fork_inv me np 0 s"
  shows "fork_inv me np NOFILE t"
  using assms(1) unfolding fork_files_def
proof (rule forr_upt_keeps [where P = "fork_inv me np"])
  fix i u v
  assume a: "i < NOFILE" "fork_inv me np i u" "(case p_ofile (ptable u me) i of None \<Rightarrow> Inr u
      | Some f \<Rightarrow> bindr (filedup f u) (\<lambda>(f, s). Inr (upd_proc np (\<lambda>x. x\<lparr>p_ofile := (p_ofile x)(i := Some f)\<rparr>) s))) = Inr v"
  show "fork_inv me np (Suc i) v"
  proof (cases "p_ofile (ptable u me) i")
    case None
    then show ?thesis using a by (auto simp: fork_inv_def)
  next
    case (Some f)
    then have "v = upd_proc np (\<lambda>x. x\<lparr>p_ofile := (p_ofile x)(i := Some f)\<rparr>) (ref_inc f 1 u)"
      using a(3) filedup_eq by (fastforce simp: bindr_eq_Inr)
    then show ?thesis using fork_inv_step [OF a(2,1)] by simp
  qed
qed (rule assms(2))

lemma fork_inv_calm:
  assumes "fork_inv me np i s" "calm s t"
  shows "fork_inv me np i t"
  using assms(1) tables_child_calm [OF _ assms(2)] assms(2) by (simp add: fork_inv_def calm_def woken_def)

lemma fork_inv_done:
  assumes "fork_inv me np i s"
  shows "tables_ok no_refs (upd_proc np (\<lambda>x. x\<lparr>p_state := RUNNABLE\<rparr>) s)"
proof -
  have "upd_proc np (\<lambda>x. x\<lparr>p_state := RUNNABLE\<rparr>) s = upd_proc np (child_of me) s"
    using assms by (cases "ptable s np") (simp add: fork_inv_def upd_proc_def)
  then show ?thesis using assms by (simp add: fork_inv_def)
qed

text \<open>What holds of every result of an operation that may fail.\<close>

definition okr :: "('y \<Rightarrow> bool) \<Rightarrow> 'y res \<Rightarrow> bool" where
  "okr P r \<longleftrightarrow> (\<forall>y. r = Inr y \<longrightarrow> P y)"

lemma okr_bind: "okr Q r \<Longrightarrow> (\<And>x. Q x \<Longrightarrow> okr P (f x)) \<Longrightarrow> okr P (bindr r f)"
  by (auto simp: okr_def bindr_eq_Inr)

lemma okr_True: "okr (\<lambda>_. True) r"
  by (simp add: okr_def)

lemma okr_simps [simp]: "okr P (Inl e)" "okr P (Inr y) = P y"
  by (simp_all add: okr_def)

lemma fork_inv_start:
  assumes "tables_ok no_refs (upd_proc np (child_of me) s)" "np < NPROC" "\<And>fd. fd < NOFILE \<Longrightarrow> p_ofile (ptable s np) fd = None"
  shows "fork_inv me np 0 (upd_proc np (\<lambda>x. x\<lparr>p_sz := n, p_parent := Some me\<rparr>) s)"
  using assms(2,3) tables_child_upd [OF assms(1), of "\<lambda>x. x\<lparr>p_sz := n, p_parent := Some me\<rparr>"]
  by (simp add: fork_inv_def upd_proc_def woken_def)

lemma okr_fork_files: "fork_inv me np 0 s \<Longrightarrow> okr (fork_inv me np NOFILE) (fork_files me np s)"
  unfolding okr_def by (blast intro: fork_files_inv)

lemma fork_fill_last:
  assumes "fork_inv me np NOFILE s"
  shows "okr (\<lambda>y. tables_ok no_refs (snd y)) (case p_cwd (ptable s me) of None \<Rightarrow> Inl NullDeref
      | Some cwd \<Rightarrow> (case idup cwd s of (cwd, s) \<Rightarrow>
          Inr (p_pid (ptable (upd_proc np (\<lambda>x. x\<lparr>p_cwd := Some cwd, p_name := set_name (proc_name (ptable s me)) (p_name x)\<rparr>) s) np),
               upd_proc np (\<lambda>x. x\<lparr>p_state := RUNNABLE\<rparr>)
                 (upd_proc np (\<lambda>x. x\<lparr>p_cwd := Some cwd, p_name := set_name (proc_name (ptable s me)) (p_name x)\<rparr>) s))))"
proof (cases "p_cwd (ptable s me)")
  case (Some cwd)
  obtain c u where u: "idup cwd s = (c, u)" by force
  let ?g = "\<lambda>x. x\<lparr>p_cwd := Some c, p_name := set_name (proc_name (ptable u me)) (p_name x)\<rparr>"
  have "calm s u" using calm_idup [OF calm_refl, of s cwd] u by simp
  then have "calm s (upd_proc np ?g u)" by (rule calm_upd_proc) (simp add: woken_def)
  from fork_inv_done [OF fork_inv_calm [OF assms this]] show ?thesis using Some u by simp
qed simp

lemma tables_fork_fill:
  assumes "tables_ok no_refs (upd_proc np (child_of me) s)" "np < NPROC" "\<And>fd. fd < NOFILE \<Longrightarrow> p_ofile (ptable s np) fd = None"
  shows "okr (\<lambda>y. tables_ok no_refs (snd y)) (fork_fill me np s)"
proof -
  have 1: "fork_inv me np 0 (upd_proc np (\<lambda>x. x\<lparr>p_sz := n, p_parent := Some me\<rparr>) (upd_pmem h (upd_pmem g s)))" for n g h
    by (rule fork_inv_start) (use assms tables_child_calm [OF assms(1)] in \<open>simp_all add: calm_upd_pmem, simp add: upd_pmem_def upd_km_def\<close>)
  have 2: "fork_inv me np 0 (kstore a w (upd_pmem f (upd_proc np (\<lambda>x. x\<lparr>p_sz := n, p_parent := Some me\<rparr>) (upd_pmem h (upd_pmem g s)))))" for a w f n g h
    by (rule fork_inv_calm [OF 1 calm_kstore [OF calm_upd_pmem [OF calm_refl]]])
  show ?thesis unfolding fork_fill_def Let_def
    by (rule okr_bind [OF okr_True], rule okr_bind [OF okr_fork_files [OF 2]]) (rule fork_fill_last)
qed

lemma tables_fork:
  assumes "fork s = Inr (v, t)" "tables_ok no_refs s"
  shows "tables_ok no_refs t"
proof -
  obtain me where me: "cur s = Some me" using assms(1) by (auto simp: fork_def myproc_def bindr_eq_Inr split: option.splits)
  obtain r u where r: "allocproc s = Inr (r, u)" using assms(1) by (auto simp: fork_def bindr_eq_Inr)
  show ?thesis
  proof (cases r)
    case None
    then have "t = u" using assms(1) me r by (simp add: fork_def myproc_def)
    then show ?thesis using allocproc_born [OF r] None assms(2) tables_unborn [OF assms(2)] by auto
  next
    case (Some np)
    then have b: "born np s u" using allocproc_born [OF r] by simp
    obtain pgdir u1 where k: "in_km (forkuvm (p_pgdir (ptable u me)) (p_sz (ptable u me))) u = Inr (pgdir, u1)"
      using assms(1) me r Some by (auto simp: fork_def myproc_def bindr_eq_Inr)
    let ?u2 = "upd_proc np (\<lambda>x. x\<lparr>p_pgdir := pgdir\<rparr>) u1"
    have "calm u u1" using calm_in_km [OF calm_refl] k by (fastforce simp: calmr_def)
    then have c: "calm u ?u2" by (rule calm_upd_proc) (simp add: woken_def)
    have np: "np < NPROC" "\<And>fd. fd < NOFILE \<Longrightarrow> p_ofile (ptable ?u2 np) fd = None"
      using b assms(2) calm_ofile [OF c] by (simp_all add: born_def tables_ok_def files_ok_def)
    show ?thesis
    proof (cases "pgdir = 0")
      case True
      obtain u3 where u3: "kfree_s (p_kstack (ptable ?u2 np)) ?u2 = Inr u3" "t = upd_proc np (\<lambda>x. x\<lparr>p_kstack := 0, p_state := UNUSED\<rparr>) u3"
        using assms(1) me r Some k True by (auto simp: fork_def myproc_def bindr_eq_Inr Let_def)
      have "calm u u3" by (rule calmr_D1 [OF calm_kfree_s [OF c] u3(1)])
      from calm_upd_both [OF this, of "\<lambda>x. x\<lparr>p_kstack := 0, p_state := UNUSED\<rparr>" np]
      have "calm (upd_proc np (\<lambda>x. x\<lparr>p_kstack := 0, p_state := UNUSED\<rparr>) u) t" unfolding u3(2) by (simp add: woken_def)
      then show ?thesis by (rule tables_calm) (rule tables_unborn [OF assms(2) b], simp_all)
    next
      case False
      then have "fork_fill me np ?u2 = Inr (v, t)" using assms(1) me r Some k by (simp add: fork_def myproc_def Let_def)
      then show ?thesis using tables_fork_fill [OF tables_child_calm [OF tables_born [OF assms(2) b me] c] np] by (simp add: okr_def)
    qed
  qed
qed

end
