(* ===== verification/Tables_Trap.thy ===== *)
theory Tables_Trap
  imports Tables_Fork
begin

text \<open>
  \<^verbatim>\<open>exit\<close>, the system calls and \<^verbatim>\<open>trap\<close> keep the tables consistent, and so does every run of the
  kernel.
\<close>

section \<open>The process table in exit\<close>

text \<open>The loop over the children: those of the slots \<open>ps\<close> have gone to \<open>init\<close>.\<close>

definition adopted :: "nat \<Rightarrow> nat \<Rightarrow> nat set \<Rightarrow> (nat \<Rightarrow> proc) \<Rightarrow> (nat \<Rightarrow> proc) \<Rightarrow> bool" where
  "adopted me init ps pt pt' \<longleftrightarrow>
     (\<forall>q. woken ((pt q)\<lparr>p_parent := if q \<in> ps \<and> p_parent (pt q) = Some me then Some init else p_parent (pt q)\<rparr>) (pt' q)) \<and>
     ((\<exists>q\<in>ps. p_parent (pt q) = Some me \<and> p_state (pt q) = ZOMBIE) \<longrightarrow> \<not> waits pt' init)"

lemma wakeup1_waits: "init < NPROC \<Longrightarrow> \<not> waits (wakeup1 (ChProc init) pt) init"
  by (simp add: waits_def wakeup1_def)

lemma woken_waits: "woken (pt q) (pt' q) \<Longrightarrow> waits pt' q \<Longrightarrow> waits pt q"
  by (auto simp: woken_def waits_def)

lemma reparent_woken:
  assumes "p_parent (pt p) = Some me"
  shows "woken ((pt q)\<lparr>p_parent := if q = p then Some init else p_parent (pt q)\<rparr>) (reparent me init p pt q)"
proof (cases "p_state (pt p) = ZOMBIE")
  case True
  then show ?thesis using assms woken_wakeup1 [of "pt(p := (pt p)\<lparr>p_parent := Some init\<rparr>)" q "ChProc init"]
    by (auto simp: reparent_def Let_def woken_def)
next
  case False
  then show ?thesis using assms by (auto simp: reparent_def Let_def woken_def)
qed

lemma reparent_waits: "waits (reparent me init p pt) q \<Longrightarrow> waits pt q"
  by (auto simp: reparent_def Let_def waits_def wakeup1_def split: if_splits)

lemma adopted_step:
  assumes "adopted me init ps pt pt'" "p \<notin> ps" "init < NPROC"
  shows "adopted me init (insert p ps) pt (reparent me init p pt')"
proof -
  have w: "woken ((pt q)\<lparr>p_parent := if q \<in> ps \<and> p_parent (pt q) = Some me then Some init else p_parent (pt q)\<rparr>) (pt' q)" for q
    using assms(1) by (simp add: adopted_def)
  have p: "p_parent (pt' p) = p_parent (pt p)" "p_state (pt' p) = ZOMBIE \<longleftrightarrow> p_state (pt p) = ZOMBIE" using w [of p] assms(2) by (auto simp: woken_def)
  have "woken ((pt q)\<lparr>p_parent := if q \<in> insert p ps \<and> p_parent (pt q) = Some me then Some init else p_parent (pt q)\<rparr>)
      (reparent me init p pt' q)" for q
  proof (cases "p_parent (pt p) = Some me")
    case True
    then show ?thesis using w [of q] reparent_woken [of pt' p me q init] p(1) by (cases "q = p") (auto simp: woken_def)
  next
    case False
    then have "q \<in> insert p ps \<and> p_parent (pt q) = Some me \<longleftrightarrow> q \<in> ps \<and> p_parent (pt q) = Some me" by auto
    then show ?thesis using w [of q] False p(1) by (simp add: reparent_def)
  qed
  moreover have "\<not> waits (reparent me init p pt') init" if "q \<in> insert p ps" "p_parent (pt q) = Some me" "p_state (pt q) = ZOMBIE" for q
  proof (cases "q = p")
    case True
    then show ?thesis using that p assms(3) by (simp add: reparent_def Let_def wakeup1_waits)
  next
    case False
    then have "\<not> waits pt' init" using that assms(1) unfolding adopted_def by blast
    then show ?thesis using reparent_waits by blast
  qed
  ultimately show ?thesis unfolding adopted_def by blast
qed

lemma adopted_fold: "init < NPROC \<Longrightarrow> adopted me init {..<n} pt (fold (reparent me init) [0..<n] pt)"
proof (induction n)
  case (Suc n)
  then show ?case using adopted_step [of me init "{..<n}" pt "fold (reparent me init) [0..<n] pt" n] by (simp add: lessThan_Suc)
qed (simp add: adopted_def)

text \<open>The table that \<^verbatim>\<open>exit\<close> leaves.\<close>

lemma exit_table_facts:
  assumes "parents_ok init pt" "me < NPROC" "live (pt me)" "me \<noteq> init"
  defines "pt' \<equiv> exit_table me init pt"
  shows "p_state (pt' me) = ZOMBIE" "p_parent (pt' me) = p_parent (pt me)"
    "q \<noteq> me \<Longrightarrow> p_state (pt' q) = p_state (pt q) \<or> p_state (pt q) = SLEEPING \<and> p_state (pt' q) = RUNNABLE"
    "q < NPROC \<Longrightarrow> p_parent (pt' q) = (if p_parent (pt q) = Some me then Some init else p_parent (pt q))"
    "p_pid (pt' q) = p_pid (pt q)" "p_ofile (pt' q) = p_ofile (pt q)" "waits pt' q \<Longrightarrow> waits pt q"
    "p_parent (pt me) = Some q \<Longrightarrow> \<not> waits pt' q"
    "q < NPROC \<Longrightarrow> p_parent (pt q) = Some me \<Longrightarrow> p_state (pt q) = ZOMBIE \<Longrightarrow> \<not> waits pt' init"
proof -
  note pok = parents_okD [OF assms(1)]
  obtain par where par: "par < NPROC" "p_parent (pt me) = Some par" "par \<noteq> me" using pok(6) [OF assms(2) _ assms(4)] assms(3) by (auto simp: live_def)
  let ?p1 = "wakeup1 (ChProc par) pt" let ?p2 = "fold (reparent me init) [0..<NPROC] ?p1"
  have eq: "pt' = ?p2(me := (?p2 me)\<lparr>p_state := ZOMBIE\<rparr>)" using par(2) by (simp add: pt'_def exit_table_def Let_def)
  have w1: "woken (pt r) (?p1 r)" for r by (rule woken_wakeup1)
  have ad: "adopted me init {..<NPROC} ?p1 ?p2" by (rule adopted_fold [OF pok(1)])
  have w2: "woken ((?p1 r)\<lparr>p_parent := if r \<in> {..<NPROC} \<and> p_parent (?p1 r) = Some me then Some init else p_parent (?p1 r)\<rparr>) (?p2 r)" for r
    using ad unfolding adopted_def by blast
  have w: "woken ((pt r)\<lparr>p_parent := if r < NPROC \<and> p_parent (pt r) = Some me then Some init else p_parent (pt r)\<rparr>) (?p2 r)" for r
    using w1 [of r] w2 [of r] by (auto simp: woken_def)
  have m: "waits pt' r \<Longrightarrow> waits ?p2 r" for r by (auto simp: eq waits_def split: if_splits)
  have m1: "waits ?p2 r \<Longrightarrow> waits ?p1 r" for r using w2 [of r] by (auto simp: waits_def woken_def)
  show "p_state (pt' me) = ZOMBIE" by (simp add: eq)
  show "p_parent (pt' me) = p_parent (pt me)" using w [of me] par by (simp add: eq woken_def)
  show "p_state (pt' q) = p_state (pt q) \<or> p_state (pt q) = SLEEPING \<and> p_state (pt' q) = RUNNABLE" if "q \<noteq> me"
    using w [of q] that by (simp add: eq woken_def)
  show "p_parent (pt' q) = (if p_parent (pt q) = Some me then Some init else p_parent (pt q))" if "q < NPROC"
    using w [of q] that by (cases "q = me") (simp_all add: eq woken_def)
  show "p_pid (pt' q) = p_pid (pt q)" "p_ofile (pt' q) = p_ofile (pt q)" using w [of q] by (cases "q = me"; simp add: eq woken_def)+
  show "waits pt q" if "waits pt' q" using woken_waits [of pt q ?p1] w1 m1 [OF m [OF that]] by blast
  show "\<not> waits pt' q" if "p_parent (pt me) = Some q" using that par m m1 wakeup1_waits [OF par(1), of pt] by auto
  have z: "p_state (pt q) = ZOMBIE \<Longrightarrow> p_state (?p1 q) = ZOMBIE" "p_parent (?p1 q) = p_parent (pt q)" using w1 [of q] by (auto simp: woken_def)
  show "\<not> waits pt' init" if "q < NPROC" "p_parent (pt q) = Some me" "p_state (pt q) = ZOMBIE"
    using ad m [of init] that z unfolding adopted_def by auto
qed

lemma exit_table_procs:
  assumes "procs_ok s" "cur s = Some me" "me \<noteq> initproc s" "cur t = None" "nextpid t = nextpid s" "initproc t = initproc s"
    "ptable t = exit_table me (initproc s) (ptable s)"
  shows "procs_ok t"
proof -
  let ?pt = "ptable s" and ?init = "initproc s" and ?pt' = "exit_table me (initproc s) (ptable s)"
  have ok: "running_ok (Some me) ?pt" "pids_ok (nextpid s) ?pt" "parents_ok ?init ?pt" "waiters_ok ?pt"
    using assms(1,2) by (simp_all add: procs_ok_def)
  have me: "me < NPROC" "p_state (?pt me) = RUNNING" using ok(1) by (simp_all add: running_ok_def)
  note pok = parents_okD [OF ok(3)] and x = exit_table_facts [OF ok(3) me(1) running_live [OF me(2)] assms(3)]
  have un: "p_state (?pt' q) = UNUSED \<longleftrightarrow> p_state (?pt q) = UNUSED" "p_state (?pt' q) = EMBRYO \<longleftrightarrow> p_state (?pt q) = EMBRYO" for q
    using x(1) x(3) [of q] me(2) by (cases "q = me"; force)+
  have lv: "q \<noteq> me \<Longrightarrow> live (?pt' q) = live (?pt q)" for q using x(3) [of q] by (auto simp: live_def)
  have "running_ok None ?pt'" unfolding running_ok_def
  proof (intro conjI allI impI)
    fix q
    assume q: "q < NPROC" "p_state (?pt' q) = RUNNING"
    then have "q \<noteq> me" using x(1) by auto
    then have "p_state (?pt q) = RUNNING" using x(3) [of q] q(2) by auto
    then show "None = Some q" using ok(1) q(1) \<open>q \<noteq> me\<close> by (auto simp: running_ok_def)
  qed simp_all
  moreover have "pids_ok (nextpid s) ?pt'" using ok(2) unfolding pids_ok_def un x(5) .
  moreover have "parents_ok ?init ?pt'"
  proof (rule parents_okI)
    fix q
    assume q: "q < NPROC"
    show "p_state (?pt' q) \<noteq> EMBRYO" using pok(4) [OF q] un by simp
    show "p_parent (?pt' q) = None" if "p_state (?pt' q) = UNUSED" using pok(5) [OF q] that un x(4) [OF q] by simp
    assume u: "p_state (?pt' q) \<noteq> UNUSED" "q \<noteq> ?init"
    then obtain r where r: "r < NPROC" "p_parent (?pt q) = Some r" "r \<noteq> q" "live (?pt r)" using pok(6) [OF q _ u(2)] un by auto
    show "\<exists>r<NPROC. p_parent (?pt' q) = Some r \<and> r \<noteq> q \<and> live (?pt' r)"
    proof (cases "r = me")
      case True
      then show ?thesis using x(4) [OF q] r(2) u(2) pok(1,2) lv [of ?init] assms(3) by auto
    next
      case False
      then show ?thesis using x(4) [OF q] r lv [of r] by auto
    qed
  qed (use pok(1-3) x(4) [OF pok(1)] lv [of ?init] assms(3) in simp_all)
  moreover have "waiters_ok ?pt'" unfolding waiters_ok_def
  proof (intro allI impI)
    fix q
    assume q: "q < NPROC" "waits ?pt' q"
    have qm: "q \<noteq> me" using q(2) x(1) by (auto simp: waits_def)
    obtain r where r: "r < NPROC" "p_parent (?pt r) = Some q" "\<forall>r<NPROC. p_parent (?pt r) = Some q \<longrightarrow> p_state (?pt r) \<noteq> ZOMBIE"
      using ok(4) q(1) x(7) [OF q(2)] unfolding waiters_ok_def by blast
    have "p_state (?pt' c) \<noteq> ZOMBIE" if c: "c < NPROC" "p_parent (?pt' c) = Some q" for c
    proof
      assume z: "p_state (?pt' c) = ZOMBIE"
      have "c \<noteq> me" using c(2) x(2) x(8) q(2) by auto
      then have z': "p_state (?pt c) = ZOMBIE" using z x(3) [of c] by auto
      show False using c z' x(4) [OF c(1)] x(9) [OF c(1)] r(3) q(2) by (auto split: if_splits)
    qed
    then show "(\<exists>r<NPROC. p_parent (?pt' r) = Some q) \<and> (\<forall>r<NPROC. p_parent (?pt' r) = Some q \<longrightarrow> p_state (?pt' r) \<noteq> ZOMBIE)"
      using r(1,2) x(4) [OF r(1)] qm by auto
  qed
  ultimately show ?thesis unfolding procs_ok_def assms(4-7) by simp
qed

lemma exit_table_tables:
  assumes "tables_ok no_refs s" "cur s = Some me" "me \<noteq> initproc s" "\<And>fd. fd < NOFILE \<Longrightarrow> p_ofile (ptable s me) fd = None"
    "sched (s\<lparr>ptable := exit_table me (initproc s) (ptable s)\<rparr>) = Inr t"
  shows "tables_ok no_refs t"
proof -
  let ?pt' = "exit_table me (initproc s) (ptable s)"
  have t: "cur t = None" "nextpid t = nextpid s" "initproc t = initproc s" "ptable t = ?pt'" "ftable t = ftable s"
    using sched_eq [OF assms(5)] by auto
  have p: "procs_ok s" "files_ok no_refs s" "parents_ok (initproc s) (ptable s)" using assms(1) by (simp_all add: tables_ok_def procs_ok_def)
  have me: "me < NPROC" "live (ptable s me)" using tables_running [OF assms(1,2)] running_live by auto
  note x = exit_table_facts [OF p(3) me assms(3)]
  have "refs ?pt' f = refs (ptable s) f" for f by (rule refs_cong) (rule x(6))
  moreover have "p_ofile (ptable s q) fd = None" if "q < NPROC" "p_state (?pt' q) = UNUSED \<or> p_state (?pt' q) = ZOMBIE" "fd < NOFILE" for q fd
  proof (cases "q = me")
    case False
    then have "p_state (ptable s q) = UNUSED \<or> p_state (ptable s q) = ZOMBIE" using x(3) [of q] that(2) by auto
    then show ?thesis using p(2) that(1,3) unfolding files_ok_def by blast
  qed (simp add: assms(4) that(3))
  ultimately have "files_ok no_refs t" using p(2) unfolding files_ok_def t x(6) by simp
  then show ?thesis using exit_table_procs [OF p(1) assms(2,3) t(1-4)] by (simp add: tables_ok_def)
qed

section \<open>exit\<close>

lemma calm_exit_region [calm_vcg]: "calm s t \<Longrightarrow> calmr st1 s (exit_region pgdir addr len t)"
  unfolding exit_region_def Let_def by (assumption | rule calm_vcg | rule calm_last)+

lemma calm_exit_lazy [calm_vcg]: "calm s t \<Longrightarrow> calmr st1 s (exit_lazy fuel pgdir head t)"
proof (induction fuel arbitrary: head t)
  case (Suc fuel)
  note [calm_vcg] = Suc
  show ?case unfolding exit_lazy.simps Let_def by (assumption | rule calm_vcg | rule calm_last)+
qed (simp add: calm_Inl calm_Inr1)

definition exit_inv :: "nat \<Rightarrow> nat \<Rightarrow> nat \<Rightarrow> 'a kst_scheme \<Rightarrow> bool" where
  "exit_inv me init k s \<longleftrightarrow> tables_ok no_refs s \<and> cur s = Some me \<and> initproc s = init \<and> (\<forall>fd<k. p_ofile (ptable s me) fd = None)"

lemma exit_inv_calm: "exit_inv me init k s \<Longrightarrow> calm s t \<Longrightarrow> exit_inv me init k t"
  using tables_calm [of s t no_refs] by (simp add: exit_inv_def calm_cur calm_ofile calm_initproc)

lemma exit_inv_step:
  assumes "exit_inv me init fd s" "fd < NOFILE" "p_ofile (ptable s me) fd = Some f" "fileclose f s = Inr u"
  shows "exit_inv me init (Suc fd) (upd_proc me (\<lambda>x. x\<lparr>p_ofile := (p_ofile x)(fd := None)\<rparr>) u)"
proof -
  have a: "tables_ok no_refs s" "cur s = Some me" using assms(1) by (simp_all add: exit_inv_def)
  note u = tables_fileclose [OF assms(4) a(1)]
  have c: "cur u = Some me" using u(2) a(2) by simp
  have "(\<lambda>g. (no_refs(f := no_refs f - 1)) g + (if p_ofile (ptable u me) fd = Some g then 1 else 0) - (if None = Some g then 1 else 0)) = no_refs"
    using u(4) assms(3) by auto
  then have "tables_ok no_refs (upd_proc me (\<lambda>x. x\<lparr>p_ofile := (p_ofile x)(fd := None)\<rparr>) u)"
    using tables_set_ofile [OF u(1) c assms(2), of None] by simp
  then show ?thesis using assms(1) u(2,3,4) by (auto simp: exit_inv_def upd_proc_def less_Suc_eq)
qed

lemma exit_files_inv:
  assumes "exit_files me s = Inr t" "exit_inv me init 0 s"
  shows "exit_inv me init NOFILE t"
  using assms(1) unfolding exit_files_def
proof (rule forr_upt_keeps [where P = "exit_inv me init"])
  fix i u v
  assume a: "i < NOFILE" "exit_inv me init i u" "(case p_ofile (ptable u me) i of None \<Rightarrow> Inr u
      | Some f \<Rightarrow> bindr (fileclose f u) (\<lambda>s. Inr (upd_proc me (\<lambda>x. x\<lparr>p_ofile := (p_ofile x)(i := None)\<rparr>) s))) = Inr v"
  show "exit_inv me init (Suc i) v"
  proof (cases "p_ofile (ptable u me) i")
    case None
    then show ?thesis using a by (auto simp: exit_inv_def less_Suc_eq)
  next
    case (Some f)
    then show ?thesis using a(3) exit_inv_step [OF a(2,1) Some] by (auto simp: bindr_eq_Inr)
  qed
qed (rule assms(2))

lemma tables_exit:
  assumes "exit s = Inr t" "tables_ok no_refs s"
  shows "tables_ok no_refs t"
proof -
  obtain me where me: "cur s = Some me" using assms(1) by (auto simp: exit_def myproc_def bindr_eq_Inr split: option.splits)
  obtain s1 s2 s3 cwd s4 s5 where r: "me \<noteq> initproc s" "exit_lazy lazy_fuel (p_pgdir (ptable s me)) (p_head (ptable s me)) s = Inr s1"
    "exit_files me s1 = Inr s2" "begin_op s2 = Inr s3" "iput cwd s3 = Inr s4" "end_op s4 = Inr s5"
    "sched ((upd_proc me (\<lambda>x. x\<lparr>p_cwd := None\<rparr>) s5)\<lparr>ptable := exit_table me (initproc (upd_proc me (\<lambda>x. x\<lparr>p_cwd := None\<rparr>) s5))
       (ptable (upd_proc me (\<lambda>x. x\<lparr>p_cwd := None\<rparr>) s5))\<rparr>) = Inr t"
    using assms(1) me by (auto simp: exit_def myproc_def bindr_eq_Inr Let_def split: if_splits option.splits)
  have i0: "exit_inv me (initproc s) 0 s" using assms(2) me by (simp add: exit_inv_def)
  have "calm s s1" by (rule calmr_D1 [OF calm_exit_lazy [OF calm_refl] r(2)])
  from exit_files_inv [OF r(3) exit_inv_calm [OF i0 this]] have i2: "exit_inv me (initproc s) NOFILE s2" .
  have "calm s2 s3" by (rule calmr_D1 [OF calm_begin_op [OF calm_refl] r(4)])
  then have "calm s2 s4" by (rule calmr_D1 [OF calm_iput r(5)])
  then have "calm s2 s5" by (rule calmr_D1 [OF calm_end_op r(6)])
  then have "calm s2 (upd_proc me (\<lambda>x. x\<lparr>p_cwd := None\<rparr>) s5)" by (rule calm_upd_proc) (simp add: woken_def)
  from exit_inv_calm [OF i2 this] show ?thesis
    using exit_table_tables [OF _ _ _ _ r(7)] r(1) unfolding exit_inv_def by simp
qed

section \<open>System calls and traps\<close>

lemma tables_sys_sleep: "sys_sleep n t0 s = Inr (v, t) \<Longrightarrow> tables_ok e s \<Longrightarrow> tables_ok e t"
  by (auto simp: sys_sleep_def bindr_eq_Inr split: if_splits dest: tables_sleep)

definition keeps :: "('y \<Rightarrow> 'a kst_scheme) \<Rightarrow> 'a kst_scheme \<Rightarrow> 'y res \<Rightarrow> bool" where
  "keeps g s r \<longleftrightarrow> (tables_ok no_refs s \<longrightarrow> okr (\<lambda>y. tables_ok no_refs (g y)) r)"

lemma keeps_calm: "calmr g s r \<Longrightarrow> keeps g s r"
  by (auto simp: keeps_def okr_def calmr_def intro: tables_calm)

lemma keeps_ret: "keeps st2 s r \<Longrightarrow> keeps st2 s (ret r)"
  by (auto simp: keeps_def okr_def ret_def bindr_eq_Inr)

lemma keeps_ret_calm: "calmr st2 s r \<Longrightarrow> keeps st2 s (ret r)"
  by (rule keeps_ret [OF keeps_calm])

lemma keeps_calls:
  "keeps st2 s (ret (fork s))" "keeps st2 s (wait s)" "keeps st2 s (ret (sys_pipe s))" "keeps st2 s (ret (sys_dup s))"
  "keeps st2 s (ret (sys_open s))" "keeps st2 s (ret (sys_close s))" "keeps st2 s (sys_sleep n t0 s)"
  "keeps st2 s (bindr (exit s) (\<lambda>s. Inr (None, s)))"
  by (auto simp: keeps_def okr_def ret_def bindr_eq_Inr
    intro: tables_fork tables_wait tables_sys_pipe tables_sys_dup tables_sys_open tables_sys_close tables_sys_sleep tables_exit)

lemma keeps_if: "keeps g s a \<Longrightarrow> keeps g s b \<Longrightarrow> keeps g s (if c then a else b)"
  by simp

lemma keeps_sleep_call:
  "keeps st2 s (bindr (argint 0 s) (\<lambda>n. case n of None \<Rightarrow> Inr (Some (-1), s) | Some n \<Rightarrow> sys_sleep n (ticks s) s))"
  by (auto simp: keeps_def okr_def bindr_eq_Inr split: option.splits intro: tables_sys_sleep)

lemma keeps_syscalls: "keeps st2 s (syscalls num s)"
  unfolding syscalls_def
  by (intro keeps_if keeps_calls keeps_sleep_call) (rule keeps_ret_calm, rule calm_vcg, rule calm_refl)+

lemma tables_syscall:
  assumes "syscall s = Inr t" "tables_ok no_refs s"
  shows "tables_ok no_refs t"
proof -
  obtain p where p: "cur s = Some p" using assms(1) by (auto simp: syscall_def myproc_def bindr_eq_Inr split: option.splits)
  let ?num = "kload (p_tf (ptable s p) + tf_eax) s"
  show ?thesis
  proof (cases "sint ?num > 0 \<and> sint ?num < nsyscalls")
    case True
    then obtain r u where r: "syscalls (unat ?num) s = Inr (r, u)"
        "t = u \<or> (\<exists>v. t = kstore (p_tf (ptable u p) + tf_eax) v u)"
      using assms(1) p by (auto simp: syscall_def myproc_def bindr_eq_Inr Let_def split: option.splits)
    have u: "tables_ok no_refs u" using keeps_syscalls [of s "unat ?num"] assms(2) r(1) by (simp add: keeps_def okr_def)
    have "calm u t" using r(2) calm_kstore [OF calm_refl] by auto
    then show ?thesis using u by (rule tables_calm)
  next
    case False
    have "syscall s = bindr (kprintf (''%d %s: unknown sys call %d'' @ [CHR 0x0A])
         [CInt (of_int (p_pid (ptable s p))), CStr (Some (proc_name (ptable s p))), CInt ?num] s) (\<lambda>s.
       Inr (kstore (p_tf (ptable s p) + tf_eax) (-1) s))" (is "_ = ?r") using p False by (auto simp: syscall_def myproc_def Let_def)
    moreover have "calmr st1 s ?r" by (rule calm_bind1 calm_kprintf calm_refl calm_Inr1 calm_kstore | assumption)+
    ultimately show ?thesis using calmr_D1 assms tables_calm by metis
  qed
qed

lemma tables_pgfault:
  assumes "pgfault err cr2 s = Inr t" "tables_ok no_refs s"
  shows "tables_ok no_refs t"
proof -
  obtain p where p: "cur s = Some p" using assms(1) by (auto simp: pgfault_def myproc_def bindr_eq_Inr split: option.splits)
  let ?f = "PGROUNDDOWN cr2" and ?h = "p_head (ptable s p)"
  show ?thesis
  proof (cases "err AND 1 \<noteq> 0")
    case True
    then have "pgfault_protect lazy_fuel (p_pgdir (ptable s p)) ?f ?h s = Inr t" using assms(1) p by (simp add: pgfault_def myproc_def Let_def)
    from tables_calm [OF calmr_D1 [OF calm_pgfault_protect [OF calm_refl] this] assms(2)] show ?thesis .
  next
    case False
    then obtain b u where u: "pgfault_miss lazy_fuel p ?f ?h s = Inr (b, u)"
        "if b then t = u else bindr (kprintf (''Segmentation Fault'' @ [CHR 0x0A]) [] u) exit = Inr t"
      using assms(1) p by (auto simp: pgfault_def myproc_def bindr_eq_Inr Let_def split: if_splits)
    have c: "calm s u" using calm_pgfault_miss [OF calm_refl, of s lazy_fuel p ?f ?h] u(1) by (simp add: calmr_def)
    show ?thesis
    proof (cases b)
      case False
      then obtain w where w: "kprintf (''Segmentation Fault'' @ [CHR 0x0A]) [] u = Inr w" "exit w = Inr t" using u(2) by (auto simp: bindr_eq_Inr)
      from tables_exit [OF w(2) tables_calm [OF calmr_D1 [OF calm_kprintf [OF c] w(1)] assms(2)]] show ?thesis .
    qed (use u(2) tables_calm [OF c assms(2)] in simp)
  qed
qed

lemma tables_trap_dispatch:
  assumes "trap_dispatch cpu tf cr2 chars s = Inr t" "tables_ok no_refs s"
  shows "tables_ok no_refs t"
proof -
  have pg: "keeps st1 s (pgfault err cr2 s)" for err using tables_pgfault unfolding keeps_def okr_def by blast
  have "keeps st1 s (trap_dispatch cpu tf cr2 chars s)" unfolding trap_dispatch_def Let_def
    by (intro keeps_if pg) (rule keeps_calm, (rule calm_vcg | rule calm_refl)+)+
  then show ?thesis using assms by (simp add: keeps_def okr_def)
qed

lemma tables_trap:
  assumes "trap cpu tf cr2 chars s = Inr t" "tables_ok no_refs s"
  shows "tables_ok no_refs t"
proof (cases "kload (tf + tf_trapno) s = T_SYSCALL")
  case True
  obtain p where p: "cur s = Some p" using assms(1) True by (auto simp: trap_def trap_syscall_def myproc_def bindr_eq_Inr split: option.splits)
  let ?s1 = "upd_proc p (\<lambda>x. x\<lparr>p_tf := tf\<rparr>) s"
  have s1: "tables_ok no_refs ?s1" by (rule tables_calm [OF _ assms(2)]) (rule calm_upd_proc [OF calm_refl], simp add: woken_def)
  consider "exit s = Inr t" | u where "syscall ?s1 = Inr u" "exit u = Inr t \<or> t = u"
    using assms(1) True p by (auto simp: trap_def trap_syscall_def myproc_def bindr_eq_Inr Let_def split: if_splits)
  then show ?thesis
  proof cases
    case 2
    then show ?thesis using tables_syscall [OF 2(1) s1] tables_exit by blast
  qed (use tables_exit assms(2) in blast)
next
  case False
  then obtain u where u: "trap_dispatch cpu tf cr2 chars s = Inr u" "exit u = Inr t \<or> t = u \<or> yield u = Inr t"
    using assms(1) by (auto simp: trap_def bindr_eq_Inr Let_def split: if_splits option.splits)
  then show ?thesis using tables_trap_dispatch [OF u(1) assms(2)] tables_exit tables_yield by blast
qed

section \<open>Runs of the kernel\<close>

text \<open>
  A step of the kernel: a trap, a turn of the scheduler when no process runs, and the next pass of the
  loops of \<^verbatim>\<open>wait\<close> and \<^verbatim>\<open>sys_sleep\<close> when a process that slept there runs again.
\<close>

inductive kernel_step :: "'a kst_scheme \<Rightarrow> 'a kst_scheme \<Rightarrow> bool" where
  k_trap: "trap cpu tf cr2 chars s = Inr t \<Longrightarrow> kernel_step s t"
| k_sched: "cur s = None \<Longrightarrow> scheduler i s = Inr t \<Longrightarrow> kernel_step s t"
| k_wait: "sleep_awake s = Inr u \<Longrightarrow> wait u = Inr (v, t) \<Longrightarrow> kernel_step s t"
| k_sleep: "sleep_awake s = Inr u \<Longrightarrow> sys_sleep n t0 u = Inr (v, t) \<Longrightarrow> kernel_step s t"

lemma tables_kernel_step: "kernel_step s t \<Longrightarrow> tables_ok no_refs s \<Longrightarrow> tables_ok no_refs t"
  by (induction rule: kernel_step.induct) (blast dest: tables_trap tables_scheduler tables_sleep_awake tables_wait tables_sys_sleep)+

lemma tables_kernel_steps: "kernel_step\<^sup>*\<^sup>* s t \<Longrightarrow> tables_ok no_refs s \<Longrightarrow> tables_ok no_refs t"
  by (induction rule: rtranclp_induct) (auto intro: tables_kernel_step)

end
