(* ===== verification/Tables_Props.thy ===== *)
theory Tables_Props
  imports Tables_Trap Kernel_Example
begin

text \<open>
  What the invariant of the tables gives for a run of the kernel, from the state that \<^verbatim>\<open>userinit\<close> leaves:
  process ids, parents and waiting processes, and the reference counts of open files.
\<close>

section \<open>The first process\<close>

text \<open>The tables before \<^verbatim>\<open>userinit\<close>: static data, all zero but \<^verbatim>\<open>nextpid\<close>.\<close>

definition blank_tables :: "'a kst_scheme \<Rightarrow> bool" where
  "blank_tables s \<longleftrightarrow> cur s = None \<and> nextpid s = 1 \<and> (\<forall>f. f_ref (ftable s f) = 0) \<and>
     (\<forall>p. p_state (ptable s p) = UNUSED \<and> p_parent (ptable s p) = None \<and> (\<forall>fd. p_ofile (ptable s p) fd = None))"

lemma first_tables:
  assumes "blank_tables s" "born p s u" "calm (u\<lparr>initproc := p\<rparr>) v"
    "p_parent (f (ptable v p)) = p_parent (ptable v p)" "p_pid (f (ptable v p)) = p_pid (ptable v p)"
    "p_ofile (f (ptable v p)) = p_ofile (ptable v p)" "p_state (f (ptable v p)) = RUNNABLE"
  shows "tables_ok no_refs (upd_proc p f v)"
proof -
  let ?t = "upd_proc p f v"
  have w: "woken (ptable u q) (ptable v q)" for q using assms(3) by (simp add: calm_def)
  have u: "q \<noteq> p \<Longrightarrow> ptable u q = ptable s q" for q using assms(2) unfolding born_def by (metis fun_upd_other)
  have p: "p < NPROC" "p_parent (ptable ?t p) = None" "p_pid (ptable ?t p) = 1" "p_state (ptable ?t p) = RUNNABLE"
    using assms w [of p] by (auto simp: born_def blank_tables_def woken_def upd_proc_def)
  have q: "p_state (ptable ?t q) = UNUSED" "p_parent (ptable ?t q) = None" if "q \<noteq> p" for q
    using that u [OF that] w [of q] assms(1) by (auto simp: blank_tables_def woken_def upd_proc_def)
  have o: "p_ofile (ptable ?t q) = Map.empty" for q
    using u [of q] w [of q] assms by (cases "q = p") (auto simp: born_def blank_tables_def woken_def upd_proc_def)
  have c: "cur ?t = None" "nextpid ?t = 2" "initproc ?t = p" "f_ref (ftable ?t g) = 0" for g
    using assms(1-3) by (simp_all add: calm_def born_def blank_tables_def upd_proc_def)
  have st: "p_state (ptable ?t q) = (if q = p then RUNNABLE else UNUSED)" for q using p(4) q(1) by simp
  have pa: "p_parent (ptable ?t q) = None" for q using p(2) q(2) by (cases "q = p") auto
  have "procs_ok ?t" unfolding procs_ok_def running_ok_def pids_ok_def parents_ok_def waiters_ok_def waits_def live_def c st pa
    using p(1,3) by auto
  moreover have "refs (ptable ?t) g = {}" for g using o by (auto simp: refs_def)
  then have "files_ok no_refs ?t" unfolding files_ok_def c o by simp
  ultimately show ?thesis by (simp add: tables_ok_def)
qed

lemma okr_in_km: "calm s t \<Longrightarrow> okr (\<lambda>y. calm s (snd y)) (in_km g t)"
  using calm_in_km by (simp add: okr_def calmr_def)

lemma okr_calm_bind:
  "okr (\<lambda>y. calm s (snd y)) r \<Longrightarrow> (\<And>x t. calm s t \<Longrightarrow> okr P (f x t)) \<Longrightarrow> okr P (bindr r (\<lambda>(x, t). f x t))"
  by (auto simp: okr_def bindr_eq_Inr)

lemma okr_if: "okr P x \<Longrightarrow> okr P y \<Longrightarrow> okr P (if c then x else y)"
  by simp

lemma tables_userinit:
  assumes "userinit code n s = Inr t" "blank_tables s"
  shows "tables_ok no_refs t"
proof -
  obtain p u where u: "allocproc s = Inr (Some p, u)" using assms(1) by (auto simp: userinit_def bindr_eq_Inr split: option.splits)
  then have b: "born p s u" using allocproc_born [OF u] by simp
  let ?u = "u\<lparr>initproc := p\<rparr>"
  let ?Q = "\<lambda>t. \<exists>v c. calm ?u v \<and> t = upd_proc p (\<lambda>x. x\<lparr>p_cwd := c, p_state := RUNNABLE\<rparr>) v"
  have last: "calm ?u w \<Longrightarrow> okr ?Q (bindr (knamei [47] w) (\<lambda>(c, s). Inr (upd_proc p (\<lambda>x. x\<lparr>p_cwd := c, p_state := RUNNABLE\<rparr>) s)))" for w
    using calm_knamei [of ?u w "[47]"] by (auto simp: okr_def calmr_def bindr_eq_Inr)
  have "okr ?Q (userinit code n s)" unfolding userinit_def u bindr_Inr prod.case option.case Let_def
    by (rule last | rule okr_calm_bind [where s = ?u] | rule okr_in_km okr_if calm_vcg | assumption | rule calm_refl | (simp add: woken_def; fail))+
  then obtain v c where v: "calm (u\<lparr>initproc := p\<rparr>) v" "t = upd_proc p (\<lambda>x. x\<lparr>p_cwd := c, p_state := RUNNABLE\<rparr>) v"
    using assms(1) by (auto simp: okr_def)
  show ?thesis unfolding v(2) by (rule first_tables [OF assms(2) b v(1)]) simp_all
qed

section \<open>The example\<close>





section \<open>Runs\<close>







end
