(* ===== verification/Spec2Isabelle.thy ===== *)
theory Spec2Isabelle
  imports Log_Reserve Fs_Props Wmap_Unmap Text_Tools Sh_Trip Console_Props Tables_Props
begin

text \<open>
  Verification of the xv6 kernel of this repository and of its user programs. The sources are under
  \<^verbatim>\<open>src/xv6/xv6-public\<close>; file names below are relative to it.

  \<^bold>\<open>The program.\<close> xv6 is a small Unix kernel. User code enters it through \<^verbatim>\<open>trap\<close> (\<^verbatim>\<open>trap.c\<close>), which calls the system
  calls (\<^verbatim>\<open>syscall.c\<close>, \<^verbatim>\<open>sysfile.c\<close>, \<^verbatim>\<open>sysproc.c\<close>) or handles a page fault or an interrupt. Below them are processes
  (\<^verbatim>\<open>proc.c\<close>, \<^verbatim>\<open>exec.c\<close>), address spaces (\<^verbatim>\<open>vm.c\<close>) on pages from the allocator (\<^verbatim>\<open>kalloc.c\<close>), open files and pipes
  (\<^verbatim>\<open>file.c\<close>, \<^verbatim>\<open>pipe.c\<close>), and the file system (\<^verbatim>\<open>fs.c\<close>) on a write-ahead log (\<^verbatim>\<open>log.c\<close>), a buffer cache (\<^verbatim>\<open>bio.c\<close>) and a
  disk (\<^verbatim>\<open>memide.c\<close>). This repository adds lazily allocated memory mappings: \<^verbatim>\<open>wmap\<close>, \<^verbatim>\<open>wunmap\<close>, \<^verbatim>\<open>wremap\<close> and two
  report calls in \<^verbatim>\<open>sysproc.c\<close>, the handler of \<^verbatim>\<open>trap.c\<close> that fills a mapping at the first access, and the changes
  to \<^verbatim>\<open>fork\<close> and \<^verbatim>\<open>exit\<close>.

  \<^bold>\<open>The model.\<close> Each C function is a function on an explicit state with the C name; where a name is taken, a
  suffix or a short word is added. A call that can stop has the result type \<open>fault + 'a\<close> (\<open>Xv6_Prelude\<close>): a panic,
  an access through a null pointer or outside an array, a loop that does not end, a page fault of the kernel
  itself, or a \<^verbatim>\<open>sleep\<close> in the middle of code that is modelled as one step. Integers are words of their width where
  wrap-around matters. The state grows along the layers as records that extend each other: \<open>biost\<close> (buffers and
  disk), \<open>logst\<close>, \<open>fsst\<close> (inodes), \<open>kst\<close> (\<open>Kstate\<close>: physical memory, file table, process table, console). Objects
  in pages from \<^verbatim>\<open>kalloc\<close>, such as page tables, pipes, kernel stacks and mapping nodes, are bytes of one memory
  and are read and written there; static tables are fields of the record, pointers into them are indices.

  \<^item> \<open>Layout\<close>, \<open>Memory\<close>: constants and address macros of \<^verbatim>\<open>param.h\<close>, \<^verbatim>\<open>memlayout.h\<close>, \<^verbatim>\<open>mmu.h\<close>; byte memories and \<^verbatim>\<open>string.c\<close>.
    \<^verbatim>\<open>memmove\<close> is correct for every overlap, \<^verbatim>\<open>safestrcpy\<close> stays in its buffer.
  \<^item> \<open>Kalloc\<close>: the free list of \<^verbatim>\<open>kalloc.c\<close>, inside the memory it manages. The locale \<open>page_allocator\<close> is the contract
    (pages are neither lost nor handed out twice), interpreted on \<^verbatim>\<open>kalloc\<close> and \<^verbatim>\<open>kfree\<close>.
  \<^item> \<open>Ring\<close>, \<open>Pipe\<close>: rings with free-running counters and the locale \<open>fifo\<close> of bounded queues, interpreted on the pipe;
    \<^verbatim>\<open>pipe.c\<close> as steps of any number of readers and writers, a FIFO queue without lost wake-ups.
  \<^item> \<open>Vm\<close>, \<open>Vm_Tables\<close>, \<open>Vm_User\<close>, \<open>Vm_Props\<close>: \<^verbatim>\<open>vm.c\<close>; page tables as maps, address spaces as the multiset of pages
    they own, which every operation conserves.
  \<^item> \<open>Spinlock\<close>, \<open>Sleeplock\<close>: \<^verbatim>\<open>spinlock.c\<close> on several processors, with mutual exclusion as an invariant of the
    interleaved steps; \<^verbatim>\<open>sleeplock.c\<close>.
  \<^item> \<open>Bio\<close>, \<open>Bio_Spec\<close>: \<^verbatim>\<open>bio.c\<close> and \<^verbatim>\<open>memide.c\<close>; the cache is invisible: \<^verbatim>\<open>bread\<close> returns what was last given to the block.
  \<^item> \<open>Log\<close>, \<open>Log_Spec\<close>, \<open>Txn\<close>, \<open>Log_Props\<close>, \<open>Log_Reserve\<close>: \<^verbatim>\<open>log.c\<close>; a crash after any disk write of a commit leaves all or
    none of the transaction after recovery, recovery may itself be interrupted, and the reservation of log space
    by concurrent calls is examined.
  \<^item> \<open>Fs\<close>, \<open>Fs_Layout\<close>, \<open>Fs_Spec\<close>, \<open>Fs_File\<close>, \<open>Fs_Content\<close>, \<open>Fs_Dir\<close>, \<open>Fs_Icache\<close>, \<open>Fs_Props\<close>: \<^verbatim>\<open>fs.c\<close>. Files are lists of bytes,
    directories lists of entries; \<^verbatim>\<open>readi\<close>, \<^verbatim>\<open>writei\<close>, \<^verbatim>\<open>dirlink\<close>, \<^verbatim>\<open>dirlookup\<close>, \<^verbatim>\<open>balloc\<close>, \<^verbatim>\<open>iupdate\<close> and the inode cache
    implement that view.
  \<^item> \<open>Kstate\<close>, \<open>Console\<close>, \<open>Files\<close>, \<open>Sysargs\<close>, \<open>Exec\<close>, \<open>Sysfile\<close>, \<open>Proc\<close>, \<open>Wmap\<close>, \<open>Trap\<close>: \<^verbatim>\<open>console.c\<close>, \<^verbatim>\<open>file.c\<close>, \<^verbatim>\<open>syscall.c\<close>,
    \<^verbatim>\<open>exec.c\<close>, \<^verbatim>\<open>sysfile.c\<close>, \<^verbatim>\<open>proc.c\<close>, \<^verbatim>\<open>sysproc.c\<close>, \<^verbatim>\<open>trap.c\<close>. One processor runs; a stretch between two context switches is
    one step, and \<open>trap\<close> is the whole kernel as user code sees it.
  \<^item> \<open>Console_Props\<close>: the input ring as a line discipline on two lists.
  \<^item> \<open>Wmap_List\<close>, \<open>Wmap_Props\<close>, \<open>Trap_Props\<close>, \<open>Wmap_Unmap\<close>: the list of mapped regions of a process as a sorted list;
    where \<^verbatim>\<open>wmap\<close> places a region, what a page fault maps, what \<^verbatim>\<open>wunmap\<close> frees, and where they go wrong.
    \<open>Kernel_Example\<close> is a concrete state for the examples.
  \<^item> \<open>Calm\<close>, \<open>Calm_Calls\<close>: proof rules along the structure of the code, and with them that the storage stack, the console,
    \<^verbatim>\<open>exec\<close>, the path calls and the mapping calls leave the process table and the reference counts of files alone,
    up to waking processes.
  \<^item> \<open>Tables\<close>, \<open>Tables_Files\<close>, \<open>Tables_Procs\<close>, \<open>Tables_Fork\<close>, \<open>Tables_Trap\<close>, \<open>Tables_Props\<close>: the invariant of the process table and
    the file table. \<^verbatim>\<open>userinit\<close> establishes it; \<^verbatim>\<open>dup\<close>, \<^verbatim>\<open>close\<close>, \<^verbatim>\<open>open\<close>, \<^verbatim>\<open>pipe\<close>, the scheduler, \<^verbatim>\<open>sleep\<close>, \<^verbatim>\<open>kill\<close>, \<^verbatim>\<open>wait\<close>,
    \<^verbatim>\<open>fork\<close>, \<^verbatim>\<open>exit\<close> and so every trap keep it: distinct process ids, live parents, no lost wakeup in \<^verbatim>\<open>wait\<close>, and
    reference counts of files that equal the descriptors.
  \<^item> \<open>User_Lib\<close>, \<open>Text_Tools\<close>: \<^verbatim>\<open>ulib.c\<close>, \<^verbatim>\<open>printf.c\<close>, \<^verbatim>\<open>cat.c\<close>, \<^verbatim>\<open>wc.c\<close>, \<^verbatim>\<open>grep.c\<close> and the small commands, on input that arrives in
    pieces of any size. \<^verbatim>\<open>atoi\<close> undoes \<^verbatim>\<open>printf\<close>, \<^verbatim>\<open>grep\<close> matches the language of its pattern.
  \<^item> \<open>Sh\<close>, \<open>Sh_Props\<close>, \<open>Sh_Trip\<close>: \<^verbatim>\<open>sh.c\<close>; the parser ends, hands out exactly the words of the line, and reads back every
    command that is written out.

  \<^bold>\<open>Fuel.\<close> Most loops of the source recurse on data or on a measure. Fuel remains where the code follows pointers
  through memory: \<open>lazy_fuel\<close> bounds a walk along mapping nodes, each in its own page, so \<open>2 ^ 20\<close> turns cover every
  list without a cycle; the walks of \<^verbatim>\<open>bget\<close> have \<open>NBUF + 1\<close> turns for \<open>NBUF\<close> buffers; the shell's parser has four units
  for each character. Running out is the fault \<open>Diverges\<close>, or \<open>OutOfFuel\<close> in the parser, where it is shown never to
  happen.

  \<^bold>\<open>Limits of the model.\<close> System calls run without preemption by other calls; the interleavings that matter are
  modelled in their own theories, for pipes, spin locks and the log. Process ids are unbounded integers. A store
  of the kernel through a bad pointer changes the byte memory but not the static tables, which are not in it.

  \<^bold>\<open>Not modelled.\<close> Processor start-up and the assembly stubs (\<^verbatim>\<open>bootasm.S\<close>, \<^verbatim>\<open>bootmain.c\<close>, \<^verbatim>\<open>entry.S\<close>, \<^verbatim>\<open>entryother.S\<close>, \<^verbatim>\<open>swtch.S\<close>,
  \<^verbatim>\<open>trapasm.S\<close>, \<^verbatim>\<open>initcode.S\<close>, \<^verbatim>\<open>usys.S\<close>), the calls of the initialisation functions in \<^verbatim>\<open>main.c\<close>, and drivers that only
  touch device registers (\<^verbatim>\<open>ide.c\<close>, \<^verbatim>\<open>kbd.c\<close>, \<^verbatim>\<open>uart.c\<close>, \<^verbatim>\<open>lapic.c\<close>, \<^verbatim>\<open>ioapic.c\<close>, \<^verbatim>\<open>picirq.c\<close>, \<^verbatim>\<open>mp.c\<close>): what they deliver, such as
  the characters typed, is an argument of the model. \<^verbatim>\<open>mkfs.c\<close> runs on the host. \<^verbatim>\<open>umalloc.c\<close>, \<^verbatim>\<open>ls.c\<close> and \<^verbatim>\<open>init.c\<close> are left for
  later. \<^verbatim>\<open>usertests.c\<close>, \<^verbatim>\<open>stressfs.c\<close>, \<^verbatim>\<open>forktest.c\<close> and \<^verbatim>\<open>zombie.c\<close> are tests.
\<close>

end
